(* ===== verification/Prelude.thy ===== *)
theory Prelude
  imports Main "HOL-Library.Word" "HOL-Library.Code_Target_Nat"
begin

text \<open>
  Shared vocabulary of the development: the machine types of the C code, the value of a
  byte string read as a big-endian or little-endian number, the shape of an operation that
  reads from a cursor and may fail, and the heap allocator the C code calls.
\<close>

unbundle bit_operations_syntax

named_theorems be_simps \<open>big-endian and little-endian numbers\<close>
named_theorems word_nat \<open>word operations of the code, read as natural numbers\<close>

type_synonym u8 = "8 word"
type_synonym u16 = "16 word"
type_synonym u32 = "32 word"
type_synonym u64 = "64 word"
type_synonym bytes = "u8 list"

abbreviation SIZE_LIMIT :: nat where
  "SIZE_LIMIT \<equiv> 2 ^ 64"

definition INT_MAX :: nat where
  "INT_MAX = 0x7fffffff"

section \<open>Byte strings as numbers\<close>

definition be_nat :: "bytes \<Rightarrow> nat" where
  "be_nat bs = foldl (\<lambda>n b. n * 256 + unat b) 0 bs"

primrec be_bytes :: "nat \<Rightarrow> nat \<Rightarrow> bytes" where
  "be_bytes 0 v = []"
| "be_bytes (Suc n) v = be_bytes n (v div 256) @ [word_of_nat (v mod 256)]"

lemma unat_byte_lt [simp]: "unat (b :: u8) < 256"
  using unsigned_less [of b] by simp

lemma be_nat_Nil [simp]: "be_nat [] = 0"
  by (simp add: be_nat_def)

lemma be_nat_snoc [simp]: "be_nat (bs @ [b]) = be_nat bs * 256 + unat b"
  by (simp add: be_nat_def)

lemma be_nat_append [be_simps]: "be_nat (as @ bs) = be_nat as * 256 ^ length bs + be_nat bs"
  by (induction bs rule: rev_induct)
    (simp_all add: append_assoc [symmetric] algebra_simps del: append_assoc)

lemma be_nat_single [simp]: "be_nat [b] = unat b"
  by (simp add: be_nat_def)

lemma be_nat_Cons [be_simps]: "be_nat (b # bs) = unat b * 256 ^ length bs + be_nat bs"
  using be_nat_append [of "[b]" bs] by simp

lemma be_nat_less: "be_nat bs < 256 ^ length bs"
proof (induction bs rule: rev_induct)
  case Nil
  show ?case by simp
next
  case (snoc b bs)
  have "be_nat bs * 256 + unat b < be_nat bs * 256 + 256" by simp
  also have "\<dots> = (be_nat bs + 1) * 256" by simp
  also have "\<dots> \<le> 256 ^ length bs * 256"
    using snoc by (intro mult_le_mono1) simp
  finally show ?case by simp
qed

lemma length_be_bytes [simp]: "length (be_bytes n v) = n"
  by (induction n arbitrary: v) simp_all

lemma unat_word_of_nat_byte [simp]: "unat (word_of_nat (v mod 256) :: u8) = v mod 256"
  by (simp add: unat_of_nat)

lemma be_nat_be_bytes [be_simps]: "be_nat (be_bytes n v) = v mod 256 ^ n"
proof (induction n arbitrary: v)
  case (Suc n)
  then show ?case by (simp add: mod_mult2_eq)
qed simp

lemma be_bytes_be_nat [be_simps]: "be_bytes (length bs) (be_nat bs) = bs"
proof (induction bs rule: rev_induct)
  case (snoc b bs)
  have "(be_nat bs * 256 + unat b) div 256 = be_nat bs" by simp
  moreover have "(be_nat bs * 256 + unat b) mod 256 = unat b" by simp
  ultimately show ?case using snoc by simp
qed simp

lemma be_nat_inj: "be_nat as = be_nat bs \<Longrightarrow> length as = length bs \<Longrightarrow> as = bs"
  by (metis be_bytes_be_nat)

section \<open>The shift-and-or step of big-endian reading\<close>

lemma unat_ucast_byte [simp]:
  "unat (ucast (d :: u8) :: u16) = unat d"
  "unat (ucast (d :: u8) :: u32) = unat d"
  "unat (ucast (d :: u8) :: u64) = unat d"
proof -
  have d: "unat d < 256" by simp
  have "unat d < 2 ^ 16" "unat d < 2 ^ 32" "unat d < 2 ^ 64"
    by (rule less_trans [OF d], simp)+
  then show "unat (ucast d :: u16) = unat d" "unat (ucast d :: u32) = unat d"
    "unat (ucast d :: u64) = unat d"
    by (simp_all add: unsigned_ucast_eq take_bit_nat_eq_self)
qed

lemma unat_eq_word_of_nat: "unat w = n \<Longrightarrow> w = word_of_nat n"
  by auto

text \<open>Shifting left and putting a small value into the vacated bits is an addition.\<close>

lemma bit_small_word:
  assumes "unat (w :: 'a::len word) < 2 ^ n" "bit w k"
  shows "k < n"
proof -
  from assms(1) have "take_bit n (unat w) = unat w" by (simp add: take_bit_nat_eq_self)
  moreover have "bit (unat w) k" using assms(2) by (simp add: bit_unsigned_iff bit_imp_le_length)
  ultimately have "bit (take_bit n (unat w)) k" by simp
  then show ?thesis by (simp add: bit_take_bit_iff)
qed

lemma push_bit_or_small:
  assumes "unat (w :: 'a::len word) < 2 ^ n"
  shows "push_bit n v OR w = push_bit n v + w"
  by (rule sym, rule disjunctive_add)
    (auto simp: bit_push_bit_iff dest: bit_small_word [OF assms])

lemma unat_push_bit_or:
  assumes "unat (w :: 'a::len word) < 2 ^ n"
  shows "unat (push_bit n v OR w) = (unat v * 2 ^ n + unat w) mod 2 ^ LENGTH('a)"
proof -
  have "unat (push_bit n v) = (unat v * 2 ^ n) mod 2 ^ LENGTH('a)"
    unfolding unsigned_push_bit_eq by (simp add: take_bit_eq_mod push_bit_eq_mult)
  then show ?thesis
    unfolding push_bit_or_small [OF assms] unat_word_ariths(1) by (simp add: mod_simps)
qed

lemma unat_push_or [word_nat]:
  fixes r :: u64 and d :: u8
  shows "unat (push_bit 8 r OR ucast d) = (unat r * 256 + unat d) mod SIZE_LIMIT"
  by (simp add: unat_push_bit_or)

text \<open>Masking out a field of bits.\<close>

lemma and_push_mask:
  "x AND push_bit n (mask m) = push_bit n (take_bit m (drop_bit n (x :: 'a::len word)))"
  by (rule bit_word_eqI) (auto simp: bit_simps)

lemma unat_and_push_mask:
  "unat (x AND push_bit n (mask m) :: 'a::len word) = unat x div 2 ^ n mod 2 ^ m * 2 ^ n mod 2 ^ LENGTH('a)"
  unfolding and_push_mask unsigned_push_bit_eq unsigned_take_bit_eq unsigned_drop_bit_eq
  by (simp add: take_bit_eq_mod push_bit_eq_mult drop_bit_eq_div)

lemma and_0x7f_mod [word_nat]: "unat (b AND 0x7f :: u8) = unat b mod 128"
proof -
  have "b AND 0x7f = take_bit 7 b" by (simp add: take_bit_eq_mask mask_eq_exp_minus_1)
  then show ?thesis by (simp add: unat_mod_distrib take_bit_eq_mod)
qed

lemma and_0x7f_mod64 [word_nat]: "unat (ucast b AND 0x7f :: u64) = unat (b :: u8) mod 128"
proof -
  have "(ucast b :: u64) AND 0x7f = take_bit 7 (ucast b)"
    by (simp add: take_bit_eq_mask mask_eq_exp_minus_1)
  then show ?thesis by (simp add: unat_mod_distrib take_bit_eq_mod)
qed

lemma and_0x80_eq_0: "b AND 0x80 = 0 \<longleftrightarrow> unat (b :: u8) < 128"
proof -
  have "b AND 0x80 = 0 \<longleftrightarrow> \<not> bit b 7"
    using and_exp_eq_0_iff_not_bit [of b 7] by simp
  also have "bit b 7 \<longleftrightarrow> bit (unat b) 7" by (simp add: bit_unsigned_iff)
  also have "\<dots> \<longleftrightarrow> odd (unat b div 128)" by (simp add: bit_iff_odd)
  also have "\<dots> \<longleftrightarrow> \<not> unat b < 128"
  proof -
    have "unat b < 256" by simp
    then have "unat b div 128 = 0 \<or> unat b div 128 = 1" by linarith
    then show ?thesis by auto
  qed
  finally show ?thesis by simp
qed

section \<open>Operations on a cursor\<close>

text \<open>
  A C function \<open>int f(CBS *cbs, T *out)\<close> returns 1 and writes \<open>*out\<close>, or returns 0;
  in both cases it may have advanced \<open>*cbs\<close>. It is a function from the cursor to the
  optional result (\<open>None\<close> when the code returns 0) and the cursor it leaves behind. An
  early \<open>return 0\<close> is \<open>failR\<close>, and one call after another is \<open>bindR\<close>.
\<close>

type_synonym ('s, 'a) reader = "'s \<Rightarrow> 'a option \<times> 's"

definition returnR :: "'a \<Rightarrow> ('s, 'a) reader" where
  "returnR a s = (Some a, s)"

definition failR :: "('s, 'a) reader" where
  "failR s = (None, s)"

definition bindR :: "('s, 'a) reader \<Rightarrow> ('a \<Rightarrow> ('s, 'b) reader) \<Rightarrow> ('s, 'b) reader" where
  "bindR f g s = (case f s of (None, s') \<Rightarrow> (None, s') | (Some a, s') \<Rightarrow> g a s')"

definition guardR :: "bool \<Rightarrow> ('s, unit) reader" where
  "guardR c = (if c then returnR () else failR)"

lemmas reader_defs = returnR_def failR_def guardR_def

lemma bindR_Some [simp]: "f s = (Some a, s') \<Longrightarrow> bindR f g s = g a s'"
  by (simp add: bindR_def)

lemma bindR_None [simp]: "f s = (None, s') \<Longrightarrow> bindR f g s = (None, s')"
  by (simp add: bindR_def)

lemma bindR_returnR [simp]: "bindR (returnR a) g = g a"
  by (rule ext) (simp add: bindR_def returnR_def)

lemma bindR_failR [simp]: "bindR failR g = failR"
  by (rule ext) (simp add: bindR_def failR_def)

lemma bindR_Some_iff:
  "bindR f g s = (Some b, t) \<longleftrightarrow> (\<exists>a s'. f s = (Some a, s') \<and> g a s' = (Some b, t))"
  by (auto simp: bindR_def split: option.splits prod.splits)

lemma bindR_returnR_unit: "bindR f (\<lambda>_. returnR ()) = f"
  by (rule ext) (auto simp: bindR_def returnR_def split: option.splits prod.splits)

lemma bindR_returnR_right [simp]: "bindR f returnR = f"
  by (rule ext) (auto simp: bindR_def returnR_def split: option.splits prod.splits)

lemma bindR_assoc: "bindR (bindR f g) h = bindR f (\<lambda>a. bindR (g a) h)"
  by (rule ext) (simp add: bindR_def split: option.splits prod.splits)

lemma bindR_eq_SomeE:
  assumes "bindR f g s = (Some b, t)"
  obtains a s' where "f s = (Some a, s')" "g a s' = (Some b, t)"
  using assms by (auto simp: bindR_def split: option.splits prod.splits)

section \<open>The C heap\<close>

text \<open>
  The allocator is a parameter: \<open>malloc n\<close> is \<open>None\<close> when the allocation of \<open>n\<close> bytes
  fails, otherwise the block it returns, whose bytes are arbitrary. What the code relies on
  is that a returned block has the size that was asked for, and that no block is larger
  than \<open>PTRDIFF_MAX\<close>.
\<close>

type_synonym allocator = "nat \<Rightarrow> bytes option"

abbreviation OBJECT_LIMIT :: nat where
  "OBJECT_LIMIT \<equiv> 2 ^ 63"

definition malloc_ok :: "allocator \<Rightarrow> bool" where
  "malloc_ok malloc \<longleftrightarrow> (\<forall>n blk. malloc n = Some blk \<longrightarrow> length blk = n \<and> n < OBJECT_LIMIT)"

definition zero_heap :: allocator where
  "zero_heap n = (if n < OBJECT_LIMIT then Some (replicate n 0) else None)"

lemma malloc_ok_zero_heap [simp]: "malloc_ok zero_heap"
  by (simp add: malloc_ok_def zero_heap_def)

lemma malloc_okD: "malloc_ok malloc \<Longrightarrow> malloc n = Some blk \<Longrightarrow> length blk = n \<and> n < OBJECT_LIMIT"
  unfolding malloc_ok_def by blast

text \<open>Stores into a block: \<open>memcpy(blk + i, bs, n)\<close> for \<open>bs\<close> of \<open>n\<close> bytes.\<close>

definition store_at :: "'a list \<Rightarrow> nat \<Rightarrow> 'a list \<Rightarrow> 'a list" where
  "store_at blk i bs = take i blk @ bs @ drop (i + length bs) blk"

lemma length_store_at [simp]: "i + length bs \<le> length blk \<Longrightarrow> length (store_at blk i bs) = length blk"
  by (simp add: store_at_def)

lemma take_store_at: "i \<le> length blk \<Longrightarrow> take i (store_at blk i bs) = take i blk"
  by (simp add: store_at_def)

lemma take_store_at_end:
  "i + length bs \<le> length blk \<Longrightarrow> take (i + length bs) (store_at blk i bs) = take i blk @ bs"
  by (simp add: store_at_def)

lemma store_at_Nil [simp]: "store_at blk i [] = blk"
  by (simp add: store_at_def)

end
