(* ===== verification/Mem.thy ===== *)
theory Mem
  imports Prelude
begin

text \<open>
  \<open>crypto/mem.c\<close>: the allocation wrappers, constant-time comparison, the FNV-1a hash and
  the string helpers. A C pointer is the list of the bytes from it to the end of its object.
  A helper that would read or write past that end returns \<open>None\<close>.
\<close>

section \<open>Allocation\<close>

definition OPENSSL_MALLOC_PREFIX :: nat where
  "OPENSSL_MALLOC_PREFIX = 8"

text \<open>
  The block handed out starts after the prefix that records its size; the sum passed to
  \<open>malloc\<close> wraps around as \<open>size_t\<close> does.
\<close>

definition OPENSSL_malloc :: "allocator \<Rightarrow> nat \<Rightarrow> bytes option" where
  "OPENSSL_malloc malloc sz =
     (case malloc ((sz + OPENSSL_MALLOC_PREFIX) mod SIZE_LIMIT) of
        None \<Rightarrow> None
      | Some ptr \<Rightarrow> Some (drop OPENSSL_MALLOC_PREFIX ptr))"

definition OPENSSL_cleanse :: "bytes \<Rightarrow> nat \<Rightarrow> bytes" where
  "OPENSSL_cleanse ptr len = store_at ptr 0 (replicate len 0)"

text \<open>
  \<open>OPENSSL_realloc\<close> copies into a fresh block; the old block (whose size is what its prefix
  recorded) is only released when that succeeded, so on \<open>None\<close> the caller still owns it.
\<close>

definition OPENSSL_realloc :: "allocator \<Rightarrow> bytes option \<Rightarrow> nat \<Rightarrow> bytes option" where
  "OPENSSL_realloc malloc orig_ptr new_size =
     (case orig_ptr of
        None \<Rightarrow> OPENSSL_malloc malloc new_size
      | Some old \<Rightarrow>
          (case OPENSSL_malloc malloc new_size of
             None \<Rightarrow> None
           | Some ret \<Rightarrow>
               let old_size = length old;
                   to_copy = (if old_size < new_size then old_size else new_size)
               in Some (store_at ret 0 (take to_copy old))))"

definition OPENSSL_memdup :: "allocator \<Rightarrow> bytes \<Rightarrow> nat \<Rightarrow> bytes option" where
  "OPENSSL_memdup malloc dat sz =
     (if sz = 0 then None
      else case OPENSSL_malloc malloc sz of
             None \<Rightarrow> None
           | Some ret \<Rightarrow> Some (store_at ret 0 (take sz dat)))"

lemma OPENSSL_malloc_length:
  assumes "malloc_ok malloc" "sz + 8 < SIZE_LIMIT" "OPENSSL_malloc malloc sz = Some blk"
  shows "length blk = sz \<and> sz + 8 < OBJECT_LIMIT"
proof -
  from assms(2,3) obtain p where p: "malloc (sz + 8) = Some p" "blk = drop 8 p"
    by (auto simp: OPENSSL_malloc_def OPENSSL_MALLOC_PREFIX_def split: option.splits)
  from malloc_okD [OF assms(1) p(1)] p(2) show ?thesis by simp
qed

lemma OPENSSL_malloc_zero_heap:
  "sz + 8 < OBJECT_LIMIT \<Longrightarrow> OPENSSL_malloc zero_heap sz = Some (replicate sz 0)"
  by (simp add: OPENSSL_malloc_def OPENSSL_MALLOC_PREFIX_def zero_heap_def)

lemma OPENSSL_realloc_keeps:
  assumes "malloc_ok malloc" "new_size + 8 < SIZE_LIMIT" "length old \<le> new_size"
    and "OPENSSL_realloc malloc (Some old) new_size = Some blk"
  shows "length blk = new_size" "take (length old) blk = old" "new_size + 8 < OBJECT_LIMIT"
proof -
  from assms obtain ret where ret: "OPENSSL_malloc malloc new_size = Some ret"
    and blk: "blk = store_at ret 0 old"
    by (auto simp: OPENSSL_realloc_def split: option.splits if_splits)
  from OPENSSL_malloc_length [OF assms(1,2) ret] blk assms(3)
  show "length blk = new_size" "take (length old) blk = old" "new_size + 8 < OBJECT_LIMIT"
    by (simp_all add: store_at_def)
qed

lemma OPENSSL_memdup_eq:
  assumes "malloc_ok malloc" "0 < length dat" "length dat + 8 < SIZE_LIMIT"
    and "OPENSSL_memdup malloc dat (length dat) = Some blk"
  shows "blk = dat"
proof -
  from assms obtain ret where "OPENSSL_malloc malloc (length dat) = Some ret"
    and blk: "blk = store_at ret 0 dat"
    by (auto simp: OPENSSL_memdup_def split: option.splits if_splits)
  with assms have "length ret = length dat" using OPENSSL_malloc_length by blast
  with blk show ?thesis by (simp add: store_at_def)
qed

text \<open>
  The prefix sum is not checked for overflow: a request within eight bytes of the top of
  \<open>size_t\<close> reaches \<open>malloc\<close> as a tiny one, and the caller gets a block with no room at all.
\<close>

lemma OPENSSL_malloc_prefix_overflow:
  "OPENSSL_malloc zero_heap (SIZE_LIMIT - 8) = Some []"
  by (simp add: OPENSSL_malloc_def OPENSSL_MALLOC_PREFIX_def zero_heap_def)

section \<open>Comparison and hashing\<close>

fun memcmp_loop :: "u8 \<Rightarrow> bytes \<Rightarrow> bytes \<Rightarrow> u8" where
  "memcmp_loop x (a # as) (b # bs) = memcmp_loop (x OR (a XOR b)) as bs"
| "memcmp_loop x _ _ = x"

definition CRYPTO_memcmp :: "bytes \<Rightarrow> bytes \<Rightarrow> nat \<Rightarrow> u8" where
  "CRYPTO_memcmp a b len = memcmp_loop 0 (take len a) (take len b)"

lemma word_or_eq_0 [simp]: "x OR y = 0 \<longleftrightarrow> x = 0 \<and> y = (0 :: 'a::len word)"
  by (auto simp: bit_eq_iff bit_or_iff)

lemma word_xor_eq_0 [simp]: "x XOR y = 0 \<longleftrightarrow> x = (y :: 'a::len word)"
  by (auto simp: bit_eq_iff bit_xor_iff)

lemma memcmp_loop_eq_0:
  "length as = length bs \<Longrightarrow> memcmp_loop x as bs = 0 \<longleftrightarrow> x = 0 \<and> as = bs"
  by (induction x as bs rule: memcmp_loop.induct) auto

lemma CRYPTO_memcmp_eq_0:
  assumes "len \<le> length a" "len \<le> length b"
  shows "CRYPTO_memcmp a b len = 0 \<longleftrightarrow> take len a = take len b"
  using assms by (simp add: CRYPTO_memcmp_def memcmp_loop_eq_0)

fun hash32_loop :: "u32 \<Rightarrow> bytes \<Rightarrow> u32" where
  "hash32_loop h [] = h"
| "hash32_loop h (b # bs) = hash32_loop ((h XOR ucast b) * 16777619) bs"

definition OPENSSL_hash32 :: "bytes \<Rightarrow> nat \<Rightarrow> u32" where
  "OPENSSL_hash32 ptr len = hash32_loop 2166136261 (take len ptr)"

section \<open>C strings\<close>

text \<open>The C library's \<open>strlen\<close>.\<close>

fun c_strlen :: "bytes \<Rightarrow> nat option" where
  "c_strlen [] = None"
| "c_strlen (c # s) = (if c = 0 then Some 0 else map_option Suc (c_strlen s))"

definition c_string :: "bytes \<Rightarrow> bool" where
  "c_string s \<longleftrightarrow> 0 \<in> set s"

definition c_text :: "bytes \<Rightarrow> bytes" where
  "c_text s = takeWhile (\<lambda>c. c \<noteq> 0) s"

lemma c_strlen_text: "c_string s \<Longrightarrow> c_strlen s = Some (length (c_text s))"
  by (induction s) (auto simp: c_string_def c_text_def)

lemma c_strlen_None: "c_strlen s = None \<longleftrightarrow> \<not> c_string s"
  by (induction s) (auto simp: c_string_def)

fun OPENSSL_strnlen :: "bytes \<Rightarrow> nat \<Rightarrow> nat option" where
  "OPENSSL_strnlen s 0 = Some 0"
| "OPENSSL_strnlen [] (Suc len) = None"
| "OPENSSL_strnlen (c # s) (Suc len) =
     (if c = 0 then Some 0 else map_option Suc (OPENSSL_strnlen s len))"

lemma OPENSSL_strnlen_eq:
  "len \<le> length s \<or> c_string s \<Longrightarrow>
   OPENSSL_strnlen s len = Some (min len (length (c_text s)))"
  by (induction s len rule: OPENSSL_strnlen.induct) (auto simp: c_string_def c_text_def)

definition OPENSSL_strdup :: "allocator \<Rightarrow> bytes option \<Rightarrow> bytes option" where
  "OPENSSL_strdup malloc s =
     (case s of
        None \<Rightarrow> None
      | Some s \<Rightarrow>
          (case c_strlen s of
             None \<Rightarrow> None
           | Some n \<Rightarrow>
               let len = n + 1 in
               (case OPENSSL_malloc malloc len of
                  None \<Rightarrow> None
                | Some ret \<Rightarrow> Some (store_at ret 0 (take len s)))))"

definition OPENSSL_strndup :: "allocator \<Rightarrow> bytes option \<Rightarrow> nat \<Rightarrow> bytes option" where
  "OPENSSL_strndup malloc str sz =
     (case str of
        None \<Rightarrow> None
      | Some str \<Rightarrow>
          (case OPENSSL_strnlen str sz of
             None \<Rightarrow> None
           | Some sz \<Rightarrow>
               let alloc_size = (sz + 1) mod SIZE_LIMIT in
               if alloc_size < sz then None
               else (case OPENSSL_malloc malloc alloc_size of
                       None \<Rightarrow> None
                     | Some ret \<Rightarrow> Some ((store_at ret 0 (take sz str))[sz := 0]))))"

text \<open>\<open>char\<close> is signed on the targets of this program, so a byte is read with \<open>sint\<close>.\<close>

definition OPENSSL_tolower :: "int \<Rightarrow> int" where
  "OPENSSL_tolower c = (if c \<ge> 65 \<and> c \<le> 90 then c + (97 - 65) else c)"

fun OPENSSL_strcasecmp :: "bytes \<Rightarrow> bytes \<Rightarrow> int option" where
  "OPENSSL_strcasecmp (a # as) (b # bs) =
     (let aa = OPENSSL_tolower (sint a); bb = OPENSSL_tolower (sint b) in
      if aa < bb then Some (- 1) else if aa > bb then Some 1
      else if aa = 0 then Some 0 else OPENSSL_strcasecmp as bs)"
| "OPENSSL_strcasecmp _ _ = None"

fun OPENSSL_strncasecmp :: "bytes \<Rightarrow> bytes \<Rightarrow> nat \<Rightarrow> int option" where
  "OPENSSL_strncasecmp _ _ 0 = Some 0"
| "OPENSSL_strncasecmp (a # as) (b # bs) (Suc n) =
     (let aa = OPENSSL_tolower (sint a); bb = OPENSSL_tolower (sint b) in
      if aa < bb then Some (- 1) else if aa > bb then Some 1
      else if aa = 0 then Some 0 else OPENSSL_strncasecmp as bs n)"
| "OPENSSL_strncasecmp _ _ (Suc n) = None"

definition lower_char :: "u8 \<Rightarrow> int" where
  "lower_char c = OPENSSL_tolower (sint c)"

definition lower_text :: "bytes \<Rightarrow> int list" where
  "lower_text s = map lower_char (c_text s)"

lemma sint_eq_0 [simp]: "sint w = 0 \<longleftrightarrow> w = (0 :: 'a::len word)"
  by (metis signed_0 signed_word_eqI)

lemma lower_char_eq_0: "c = 0 \<longleftrightarrow> lower_char c = 0"
  by (auto simp: lower_char_def OPENSSL_tolower_def)

lemma lower_text_Cons [simp]:
  "lower_text (c # s) = (if lower_char c = 0 then [] else lower_char c # lower_text s)"
  by (simp add: lower_text_def c_text_def lower_char_eq_0)

lemma c_string_Cons [simp]: "c_string (c # s) \<longleftrightarrow> lower_char c = 0 \<or> c_string s"
  by (auto simp: c_string_def lower_char_eq_0 [symmetric])

lemma c_string_Nil [simp]: "\<not> c_string []"
  by (simp add: c_string_def)

lemma OPENSSL_strcasecmp_Cons:
  "OPENSSL_strcasecmp (a # as) (b # bs) =
     (if lower_char a < lower_char b then Some (- 1)
      else if lower_char a > lower_char b then Some 1
      else if lower_char a = 0 then Some 0 else OPENSSL_strcasecmp as bs)"
  by (simp add: Let_def lower_char_def)

lemma OPENSSL_strcasecmp_eq_0:
  "c_string a \<Longrightarrow> c_string b \<Longrightarrow>
   OPENSSL_strcasecmp a b = Some 0 \<longleftrightarrow> lower_text a = lower_text b"
  by (induction a b rule: list_induct2')
    (auto simp: OPENSSL_strcasecmp_Cons simp del: OPENSSL_strcasecmp.simps(1))

lemma OPENSSL_strcasecmp_total:
  "c_string a \<Longrightarrow> c_string b \<Longrightarrow> \<exists>r \<in> {-1, 0, 1}. OPENSSL_strcasecmp a b = Some r"
  by (induction a b rule: list_induct2')
    (auto simp: OPENSSL_strcasecmp_Cons simp del: OPENSSL_strcasecmp.simps(1))

text \<open>
  \<open>strlcpy_loop dst src dst_size l\<close> is the copy loop: it returns the bytes it stored, what is
  left at \<open>dst\<close> and at \<open>src\<close>, and the values \<open>dst_size\<close> and \<open>l\<close> have after the loop.
\<close>

fun strlcpy_loop :: "bytes \<Rightarrow> bytes \<Rightarrow> nat \<Rightarrow> nat \<Rightarrow> (bytes \<times> bytes \<times> bytes \<times> nat \<times> nat) option" where
  "strlcpy_loop dst src dst_size l =
     (if dst_size > 1 then
        (case src of
           [] \<Rightarrow> None
         | c # src' \<Rightarrow>
             if c \<noteq> 0 then
               (case dst of
                  [] \<Rightarrow> None
                | _ # dst' \<Rightarrow>
                    map_option (\<lambda>(out, rest). (c # out, rest)) (strlcpy_loop dst' src' (dst_size - 1) (l + 1)))
             else Some ([], dst, src, dst_size, l))
      else Some ([], dst, src, dst_size, l))"

declare strlcpy_loop.simps [simp del]

definition OPENSSL_strlcpy :: "bytes \<Rightarrow> bytes \<Rightarrow> nat \<Rightarrow> (nat \<times> bytes) option" where
  "OPENSSL_strlcpy dst src dst_size =
     (case strlcpy_loop dst src dst_size 0 of
        None \<Rightarrow> None
      | Some (out, dst, src, dst_size, l) \<Rightarrow>
          (case c_strlen src of
             None \<Rightarrow> None
           | Some n \<Rightarrow>
               if dst_size \<noteq> 0 then
                 (case dst of [] \<Rightarrow> None | _ # dst' \<Rightarrow> Some (l + n, out @ 0 # dst'))
               else Some (l + n, out @ dst)))"

fun strlcat_loop :: "bytes \<Rightarrow> nat \<Rightarrow> nat \<Rightarrow> (nat \<times> nat) option" where
  "strlcat_loop dst 0 l = Some (0, l)"
| "strlcat_loop [] (Suc n) l = None"
| "strlcat_loop (c # dst) (Suc n) l =
     (if c \<noteq> 0 then strlcat_loop dst n (l + 1) else Some (Suc n, l))"

definition OPENSSL_strlcat :: "bytes \<Rightarrow> bytes \<Rightarrow> nat \<Rightarrow> (nat \<times> bytes) option" where
  "OPENSSL_strlcat dst src dst_size =
     (case strlcat_loop dst dst_size 0 of
        None \<Rightarrow> None
      | Some (dst_size, l) \<Rightarrow>
          (case OPENSSL_strlcpy (drop l dst) src dst_size of
             None \<Rightarrow> None
           | Some (n, dst') \<Rightarrow> Some (l + n, take l dst @ dst')))"

lemma strlcpy_loop_eq:
  assumes "0 \<notin> set s" "n \<le> length dst" "0 < n"
  shows "strlcpy_loop dst (s @ 0 # r) n l =
    (let k = min (n - 1) (length s) in
     Some (take k s, drop k dst, drop k (s @ 0 # r), n - k, l + k))"
  using assms
proof (induction s arbitrary: dst n l)
  case Nil
  then show ?case by (simp add: strlcpy_loop.simps)
next
  case (Cons c s)
  show ?case
  proof (cases "1 < n")
    case True
    with Cons.prems obtain d dst' where dst: "dst = d # dst'" by (cases dst) auto
    have "strlcpy_loop dst' (s @ 0 # r) (n - 1) (l + 1) =
      (let k = min (n - 1 - 1) (length s) in
       Some (take k s, drop k dst', drop k (s @ 0 # r), n - 1 - k, l + 1 + k))"
      using Cons.prems True dst by (intro Cons.IH) auto
    with True dst Cons.prems show ?thesis
      by (subst strlcpy_loop.simps)
        (simp add: Let_def min_def split: if_splits, auto simp: take_Cons' drop_Cons')
  next
    case False
    with Cons.prems show ?thesis by (subst strlcpy_loop.simps) simp
  qed
qed

lemma c_strlen_append: "0 \<notin> set s \<Longrightarrow> c_strlen (s @ 0 # r) = Some (length s)"
  by (induction s) auto

lemma OPENSSL_strlcpy_eq:
  assumes "0 \<notin> set s" "n \<le> length dst" "0 < n"
  shows "OPENSSL_strlcpy dst (s @ 0 # r) n =
    Some (length s, take (n - 1) s @ 0 # drop (Suc (min (n - 1) (length s))) dst)"
proof -
  define k where "k = min (n - 1) (length s)"
  have k: "k \<le> length s" "k < n" "k < length dst" using assms by (auto simp: k_def)
  then have src: "drop k (s @ 0 # r) = drop k s @ 0 # r" by simp
  have "0 \<notin> set (drop k s)" using assms(1) by (meson in_set_dropD)
  then have len: "c_strlen (drop k s @ 0 # r) = Some (length s - k)"
    using k by (simp add: c_strlen_append)
  have dst: "drop k dst = dst ! k # drop (Suc k) dst"
    using k by (simp add: Cons_nth_drop_Suc)
  have tk: "take k s = take (n - 1) s" by (simp add: k_def min_def)
  have "strlcpy_loop dst (s @ 0 # r) n 0 =
      Some (take k s, drop k dst, drop k (s @ 0 # r), n - k, k)"
    using strlcpy_loop_eq [OF assms, of r 0] unfolding Let_def k_def [symmetric] by simp
  with k src len dst tk show ?thesis
    unfolding OPENSSL_strlcpy_def k_def [symmetric] by simp
qed

end
