(* ===== verification/CBS.thy ===== *)
theory CBS
  imports Mem
begin

text \<open>
  \<open>crypto/bytestring/cbs.c\<close>, the reader: a \<open>CBS\<close> is a view of \<open>len\<close> bytes from \<open>data\<close>, here
  the list of those bytes. Every reading function is a \<open>reader\<close> on that cursor. Results
  written through pointers are returned; a result is only meaningful when the code returns
  1, which is when the model returns \<open>Some\<close>.
\<close>

type_synonym cbs = bytes

section \<open>Views and fixed-width integers\<close>

definition CBS_init :: "bytes \<Rightarrow> nat \<Rightarrow> cbs" where
  "CBS_init dat len = take len dat"

definition cbs_get :: "nat \<Rightarrow> (cbs, bytes) reader" where
  "cbs_get n cbs = (if length cbs < n then (None, cbs) else (Some (take n cbs), drop n cbs))"

definition CBS_skip :: "nat \<Rightarrow> (cbs, unit) reader" where
  "CBS_skip len = bindR (cbs_get len) (\<lambda>_. returnR ())"

definition CBS_data :: "cbs \<Rightarrow> bytes" where
  "CBS_data cbs = cbs"

definition CBS_len :: "cbs \<Rightarrow> nat" where
  "CBS_len cbs = length cbs"

text \<open>\<open>CBS_stow\<close> returns whether it succeeded, the new \<open>*out_ptr\<close> and the new \<open>*out_len\<close>.\<close>

definition CBS_stow :: "allocator \<Rightarrow> cbs \<Rightarrow> bool \<times> bytes option \<times> nat" where
  "CBS_stow malloc cbs =
     (if CBS_len cbs = 0 then (True, None, 0)
      else case OPENSSL_memdup malloc (CBS_data cbs) (CBS_len cbs) of
             None \<Rightarrow> (False, None, 0)
           | Some p \<Rightarrow> (True, Some p, CBS_len cbs))"

definition CBS_strdup :: "allocator \<Rightarrow> cbs \<Rightarrow> bytes option" where
  "CBS_strdup malloc cbs = OPENSSL_strndup malloc (Some (CBS_data cbs)) (CBS_len cbs)"

definition CBS_contains_zero_byte :: "cbs \<Rightarrow> bool" where
  "CBS_contains_zero_byte cbs \<longleftrightarrow> 0 \<in> set (CBS_data cbs)"

definition CBS_mem_equal :: "cbs \<Rightarrow> bytes \<Rightarrow> nat \<Rightarrow> bool" where
  "CBS_mem_equal cbs dat len =
     (if len \<noteq> CBS_len cbs then False else CRYPTO_memcmp (CBS_data cbs) dat len = 0)"

fun get_u_loop :: "u64 \<Rightarrow> bytes \<Rightarrow> u64" where
  "get_u_loop result [] = result"
| "get_u_loop result (d # dat) = get_u_loop (push_bit 8 result OR ucast d) dat"

definition cbs_get_u :: "nat \<Rightarrow> (cbs, u64) reader" where
  "cbs_get_u len = bindR (cbs_get len) (\<lambda>dat. returnR (get_u_loop 0 dat))"

definition CBS_get_u8 :: "(cbs, u8) reader" where
  "CBS_get_u8 = bindR (cbs_get 1) (\<lambda>v. returnR (v ! 0))"

definition CBS_get_u16 :: "(cbs, u16) reader" where
  "CBS_get_u16 = bindR (cbs_get_u 2) (\<lambda>v. returnR (ucast v))"

definition CRYPTO_bswap2 :: "u16 \<Rightarrow> u16" where
  "CRYPTO_bswap2 x = word_of_nat (be_nat (rev (be_bytes 2 (unat x))))"

definition CRYPTO_bswap4 :: "u32 \<Rightarrow> u32" where
  "CRYPTO_bswap4 x = word_of_nat (be_nat (rev (be_bytes 4 (unat x))))"

definition CRYPTO_bswap8 :: "u64 \<Rightarrow> u64" where
  "CRYPTO_bswap8 x = word_of_nat (be_nat (rev (be_bytes 8 (unat x))))"

definition CBS_get_u16le :: "(cbs, u16) reader" where
  "CBS_get_u16le = bindR CBS_get_u16 (\<lambda>v. returnR (CRYPTO_bswap2 v))"

definition CBS_get_u24 :: "(cbs, u32) reader" where
  "CBS_get_u24 = bindR (cbs_get_u 3) (\<lambda>v. returnR (ucast v))"

definition CBS_get_u32 :: "(cbs, u32) reader" where
  "CBS_get_u32 = bindR (cbs_get_u 4) (\<lambda>v. returnR (ucast v))"

definition CBS_get_u32le :: "(cbs, u32) reader" where
  "CBS_get_u32le = bindR CBS_get_u32 (\<lambda>v. returnR (CRYPTO_bswap4 v))"

definition CBS_get_u64 :: "(cbs, u64) reader" where
  "CBS_get_u64 = cbs_get_u 8"

definition CBS_get_u64le :: "(cbs, u64) reader" where
  "CBS_get_u64le = bindR (cbs_get_u 8) (\<lambda>v. returnR (CRYPTO_bswap8 v))"

definition CBS_get_last_u8 :: "(cbs, u8) reader" where
  "CBS_get_last_u8 cbs =
     (if CBS_len cbs = 0 then (None, cbs)
      else (Some (cbs ! (CBS_len cbs - 1)), take (CBS_len cbs - 1) cbs))"

definition CBS_get_bytes :: "nat \<Rightarrow> (cbs, cbs) reader" where
  "CBS_get_bytes len = bindR (cbs_get len) (\<lambda>v. returnR (CBS_init v len))"

text \<open>\<open>CBS_copy_bytes\<close> returns the contents \<open>out\<close> has after the copy.\<close>

definition CBS_copy_bytes :: "bytes \<Rightarrow> nat \<Rightarrow> (cbs, bytes) reader" where
  "CBS_copy_bytes out len = bindR (cbs_get len) (\<lambda>v. returnR (store_at out 0 v))"

definition cbs_get_length_prefixed :: "nat \<Rightarrow> (cbs, cbs) reader" where
  "cbs_get_length_prefixed len_len = bindR (cbs_get_u len_len) (\<lambda>len. CBS_get_bytes (unat len))"

definition CBS_get_u8_length_prefixed :: "(cbs, cbs) reader" where
  "CBS_get_u8_length_prefixed = cbs_get_length_prefixed 1"

definition CBS_get_u16_length_prefixed :: "(cbs, cbs) reader" where
  "CBS_get_u16_length_prefixed = cbs_get_length_prefixed 2"

definition CBS_get_u24_length_prefixed :: "(cbs, cbs) reader" where
  "CBS_get_u24_length_prefixed = cbs_get_length_prefixed 3"

section \<open>Base-128 integers and ASN.1 tags\<close>

fun parse_base128_loop :: "u64 \<Rightarrow> (cbs, u64) reader" where
  "parse_base128_loop v [] = (None, [])"
| "parse_base128_loop v (b # cbs) =
     (if drop_bit (64 - 7) v \<noteq> 0 then (None, cbs)
      else if v = 0 \<and> b = 0x80 then (None, cbs)
      else let v = push_bit 7 v OR (ucast b AND 0x7f) in
        if b AND 0x80 \<noteq> 0 then parse_base128_loop v cbs else (Some v, cbs))"

definition parse_base128_integer :: "(cbs, u64) reader" where
  "parse_base128_integer = parse_base128_loop 0"

definition CBS_ASN1_TAG_SHIFT :: nat where
  "CBS_ASN1_TAG_SHIFT = 24"

definition CBS_ASN1_CONSTRUCTED :: u32 where
  "CBS_ASN1_CONSTRUCTED = push_bit CBS_ASN1_TAG_SHIFT 0x20"

definition CBS_ASN1_TAG_NUMBER_MASK :: u32 where
  "CBS_ASN1_TAG_NUMBER_MASK = push_bit (5 + CBS_ASN1_TAG_SHIFT) 1 - 1"

text \<open>Shifts by a constant evaluate faster as multiplications.\<close>

lemma CBS_ASN1_CONSTRUCTED_code [code]: "CBS_ASN1_CONSTRUCTED = 0x20000000"
  by (simp add: CBS_ASN1_CONSTRUCTED_def CBS_ASN1_TAG_SHIFT_def)

lemma CBS_ASN1_TAG_NUMBER_MASK_code [code]: "CBS_ASN1_TAG_NUMBER_MASK = 0x1fffffff"
  by (simp add: CBS_ASN1_TAG_NUMBER_MASK_def CBS_ASN1_TAG_SHIFT_def)

lemma push_tag_code [code_unfold]: "push_bit CBS_ASN1_TAG_SHIFT (w :: u32) = w * 0x1000000"
  by (simp add: push_bit_eq_mult CBS_ASN1_TAG_SHIFT_def)

abbreviation CBS_ASN1_BOOLEAN :: u32 where "CBS_ASN1_BOOLEAN \<equiv> 0x1"
abbreviation CBS_ASN1_INTEGER :: u32 where "CBS_ASN1_INTEGER \<equiv> 0x2"
abbreviation CBS_ASN1_BITSTRING :: u32 where "CBS_ASN1_BITSTRING \<equiv> 0x3"
abbreviation CBS_ASN1_OCTETSTRING :: u32 where "CBS_ASN1_OCTETSTRING \<equiv> 0x4"

definition parse_asn1_tag :: "(cbs, u32) reader" where
  "parse_asn1_tag = bindR CBS_get_u8 (\<lambda>tag_byte.
     let tag = push_bit CBS_ASN1_TAG_SHIFT (ucast tag_byte AND 0xe0);
         tag_number = ucast tag_byte AND 0x1f
     in if tag_number = 0x1f then
          bindR parse_base128_integer (\<lambda>v.
            if v > ucast CBS_ASN1_TAG_NUMBER_MASK \<or> v < 0x1f then failR
            else returnR (tag OR ucast v))
        else returnR (tag OR tag_number))"

section \<open>ASN.1 elements\<close>

text \<open>
  The header is parsed from a copy of the cursor, so a rejected element leaves the cursor
  where it was. The results are the element with its header, its tag and its header length.
\<close>

definition cbs_get_any_asn1_element :: "bool \<Rightarrow> (cbs, cbs \<times> u32 \<times> nat) reader" where
  "cbs_get_any_asn1_element ber_ok cbs =
     (case parse_asn1_tag cbs of
        (None, _) \<Rightarrow> (None, cbs)
      | (Some tag, header) \<Rightarrow>
     (case CBS_get_u8 header of
        (None, _) \<Rightarrow> (None, cbs)
      | (Some length_byte, header) \<Rightarrow>
          let header_len = CBS_len cbs - CBS_len header in
          if length_byte AND 0x80 = 0 then
            bindR (CBS_get_bytes (unat length_byte + header_len))
              (\<lambda>out. returnR (out, tag, header_len)) cbs
          else
            let num_bytes = unat (length_byte AND 0x7f) in
            if ber_ok \<and> tag AND CBS_ASN1_CONSTRUCTED \<noteq> 0 \<and> num_bytes = 0 then
              bindR (CBS_get_bytes header_len) (\<lambda>out. returnR (out, tag, header_len)) cbs
            else if num_bytes = 0 \<or> num_bytes > 4 then (None, cbs)
            else
              (case cbs_get_u num_bytes header of
                 (None, _) \<Rightarrow> (None, cbs)
               | (Some len64, header) \<Rightarrow>
                   if len64 < 128 then (None, cbs)
                   else if drop_bit ((num_bytes - 1) * 8) len64 = 0 then (None, cbs)
                   else
                     let len = unat len64;
                         total = (len + header_len + num_bytes) mod SIZE_LIMIT in
                     if total < len then (None, cbs)
                     else bindR (CBS_get_bytes total)
                            (\<lambda>out. returnR (out, tag, header_len + num_bytes)) cbs)))"

definition CBS_get_any_asn1_element :: "(cbs, cbs \<times> u32 \<times> nat) reader" where
  "CBS_get_any_asn1_element = cbs_get_any_asn1_element False"

definition CBS_get_any_ber_asn1_element :: "(cbs, cbs \<times> u32 \<times> nat) reader" where
  "CBS_get_any_ber_asn1_element = cbs_get_any_asn1_element True"

definition CBS_get_any_asn1 :: "(cbs, cbs \<times> u32) reader" where
  "CBS_get_any_asn1 = bindR CBS_get_any_asn1_element (\<lambda>(out, tag, header_len).
     case CBS_skip header_len out of
       (None, _) \<Rightarrow> failR
     | (Some _, out) \<Rightarrow> returnR (out, tag))"

definition cbs_get_asn1 :: "u32 \<Rightarrow> bool \<Rightarrow> (cbs, cbs) reader" where
  "cbs_get_asn1 tag_value skip_header =
     bindR CBS_get_any_asn1_element (\<lambda>(out, tag, header_len).
       if tag \<noteq> tag_value then failR
       else if skip_header then
         (case CBS_skip header_len out of
            (None, _) \<Rightarrow> failR
          | (Some _, out) \<Rightarrow> returnR out)
       else returnR out)"

definition CBS_get_asn1 :: "u32 \<Rightarrow> (cbs, cbs) reader" where
  "CBS_get_asn1 tag_value = cbs_get_asn1 tag_value True"

definition CBS_get_asn1_element :: "u32 \<Rightarrow> (cbs, cbs) reader" where
  "CBS_get_asn1_element tag_value = cbs_get_asn1 tag_value False"

definition CBS_peek_asn1_tag :: "cbs \<Rightarrow> u32 \<Rightarrow> bool" where
  "CBS_peek_asn1_tag cbs tag_value =
     (if CBS_len cbs < 1 then False
      else case parse_asn1_tag cbs of
             (None, _) \<Rightarrow> False
           | (Some actual_tag, _) \<Rightarrow> tag_value = actual_tag)"

section \<open>ASN.1 values\<close>

fun asn1_uint64_loop :: "u64 \<Rightarrow> bytes \<Rightarrow> u64 option" where
  "asn1_uint64_loop out [] = Some out"
| "asn1_uint64_loop out (d # dat) =
     (if drop_bit 56 out \<noteq> 0 then None
      else asn1_uint64_loop (push_bit 8 out OR ucast d) dat)"

definition CBS_get_asn1_uint64 :: "(cbs, u64) reader" where
  "CBS_get_asn1_uint64 = bindR (CBS_get_asn1 CBS_ASN1_INTEGER) (\<lambda>bs.
     let dat = CBS_data bs; len = CBS_len bs in
     if len = 0 then failR
     else if dat ! 0 AND 0x80 \<noteq> 0 then failR
     else if dat ! 0 = 0 \<and> len > 1 \<and> dat ! 1 AND 0x80 = 0 then failR
     else case asn1_uint64_loop 0 dat of None \<Rightarrow> failR | Some out \<Rightarrow> returnR out)"

text \<open>
  The union is read back on a little-endian machine: byte \<open>i\<close> has weight \<open>256 ^ i\<close>. The
  \<open>int64_t\<close> is a 64-bit word whose value is its \<open>sint\<close>.
\<close>

definition CBS_get_asn1_int64 :: "(cbs, u64) reader" where
  "CBS_get_asn1_int64 = bindR (CBS_get_asn1 CBS_ASN1_INTEGER) (\<lambda>bs.
     let dat = CBS_data bs; len = CBS_len bs in
     if len = 0 \<or> len > 8 then failR
     else if len > 1 \<and> dat ! 0 = 0 \<and> dat ! 1 AND 0x80 = 0 then failR
     else if len > 1 \<and> dat ! 0 = 0xff \<and> dat ! 1 AND 0x80 \<noteq> 0 then failR
     else
       let is_negative = dat ! 0 AND 0x80 \<noteq> 0;
           u_bytes = replicate 8 (if is_negative then 0xff else 0);
           u_bytes = store_at u_bytes 0 (map (\<lambda>i. dat ! (len - i - 1)) [0..<len])
       in returnR (word_of_nat (be_nat (rev u_bytes))))"

definition CBS_get_asn1_bool :: "(cbs, int) reader" where
  "CBS_get_asn1_bool = bindR (CBS_get_asn1 CBS_ASN1_BOOLEAN) (\<lambda>bs.
     if CBS_len bs \<noteq> 1 then failR
     else let val = CBS_data bs ! 0 in
       if val \<noteq> 0 \<and> val \<noteq> 0xff then failR
       else returnR (if val \<noteq> 0 then 1 else 0))"

text \<open>\<open>None\<close> as the result of a success is \<open>*out_present = 0\<close>, and \<open>Some out\<close> is 1.\<close>

definition CBS_get_optional_asn1 :: "u32 \<Rightarrow> (cbs, cbs option) reader" where
  "CBS_get_optional_asn1 tag cbs =
     (if CBS_peek_asn1_tag cbs tag then bindR (CBS_get_asn1 tag) (\<lambda>out. returnR (Some out)) cbs
      else returnR None cbs)"

definition CBS_get_optional_asn1_octet_string :: "u32 \<Rightarrow> (cbs, cbs \<times> bool) reader" where
  "CBS_get_optional_asn1_octet_string tag =
     bindR (CBS_get_optional_asn1 tag) (\<lambda>present.
       case present of
         None \<Rightarrow> returnR ([], False)
       | Some child \<Rightarrow>
           (case CBS_get_asn1 CBS_ASN1_OCTETSTRING child of
              (None, _) \<Rightarrow> failR
            | (Some out, child) \<Rightarrow>
                if CBS_len child \<noteq> 0 then failR else returnR (out, True)))"

definition CBS_get_optional_asn1_uint64 :: "u32 \<Rightarrow> u64 \<Rightarrow> (cbs, u64) reader" where
  "CBS_get_optional_asn1_uint64 tag default_value =
     bindR (CBS_get_optional_asn1 tag) (\<lambda>present.
       case present of
         None \<Rightarrow> returnR default_value
       | Some child \<Rightarrow>
           (case CBS_get_asn1_uint64 child of
              (None, _) \<Rightarrow> failR
            | (Some out, child) \<Rightarrow> if CBS_len child \<noteq> 0 then failR else returnR out))"

definition CBS_get_optional_asn1_bool :: "u32 \<Rightarrow> int \<Rightarrow> (cbs, int) reader" where
  "CBS_get_optional_asn1_bool tag default_value =
     bindR (CBS_get_optional_asn1 tag) (\<lambda>present.
       case present of
         None \<Rightarrow> returnR default_value
       | Some child \<Rightarrow>
           (case CBS_get_asn1 CBS_ASN1_BOOLEAN child of
              (None, _) \<Rightarrow> failR
            | (Some child2, child) \<Rightarrow>
                if CBS_len child2 \<noteq> 1 \<or> CBS_len child \<noteq> 0 then failR
                else let boolean = CBS_data child2 ! 0 in
                  if boolean = 0 then returnR 0
                  else if boolean = 0xff then returnR 1
                  else failR))"

section \<open>Bit strings\<close>

definition CBS_is_valid_asn1_bitstring :: "cbs \<Rightarrow> bool" where
  "CBS_is_valid_asn1_bitstring cbs =
     (case CBS_get_u8 cbs of
        (None, _) \<Rightarrow> False
      | (Some num_unused_bits, cbs') \<Rightarrow>
          if num_unused_bits > 7 then False
          else if num_unused_bits = 0 then True
          else case CBS_get_last_u8 cbs' of
                 (None, _) \<Rightarrow> False
               | (Some lst, _) \<Rightarrow> lst AND (push_bit (unat num_unused_bits) 1 - 1) = 0)"

definition CBS_asn1_bitstring_has_bit :: "cbs \<Rightarrow> u32 \<Rightarrow> bool" where
  "CBS_asn1_bitstring_has_bit cbs bt =
     (if \<not> CBS_is_valid_asn1_bitstring cbs then False
      else let byte_num = drop_bit 3 bt + 1;
               bit_num = 7 - (bt AND 7)
           in unat byte_num < CBS_len cbs \<and>
              CBS_data cbs ! unat byte_num AND push_bit (unat bit_num) 1 \<noteq> 0)"

end
