(* ===== verification/Reader.thy ===== *)
theory Reader
  imports CBS
begin

text \<open>
  The contract every reading function of \<open>cbs.c\<close> shares, as two interfaces. A
  \<open>cursor_reader\<close> only ever drops a prefix of what the cursor shows, whether it succeeds or
  not. A \<open>prefix_reader\<close> moreover decides on the bytes it consumes alone: appending more
  input changes neither its result nor what it consumes. Both are closed under sequencing,
  so each operation is an instance by its structure.
\<close>

locale cursor_reader =
  fixes rd :: "(bytes, 'a) reader"
  assumes drops_prefix: "rd s = (r, s') \<Longrightarrow> \<exists>p. s = p @ s'"
begin

lemma length_le: "rd s = (r, s') \<Longrightarrow> length s' \<le> length s"
  by (auto dest: drops_prefix)

lemma snd_suffix: "\<exists>p. s = p @ snd (rd s)"
  using drops_prefix [of s "fst (rd s)" "snd (rd s)"] by simp

end

locale prefix_reader = cursor_reader +
  assumes extend: "rd s = (Some a, s') \<Longrightarrow> rd (s @ t) = (Some a, s' @ t)"
begin

lemma consumed:
  assumes "rd s = (Some a, s')"
  obtains p where "s = p @ s'"
  using drops_prefix [OF assms] by auto

lemma whole_then_rest: "rd p = (Some a, []) \<Longrightarrow> rd (p @ t) = (Some a, t)"
  using extend [of p a "[]" t] by simp

text \<open>No complete encoding is a proper prefix of another one.\<close>

lemma prefix_free:
  assumes "rd p = (Some a, [])" "rd (p @ q) = (Some b, [])"
  shows "q = [] \<and> a = b"
  using whole_then_rest [OF assms(1), of q] assms(2) by simp

end

section \<open>Closure under sequencing\<close>

lemma cursor_reader_returnR [intro]: "cursor_reader (returnR a)"
  by (simp add: cursor_reader_def returnR_def)

lemma cursor_reader_failR [intro]: "cursor_reader failR"
  by (simp add: cursor_reader_def failR_def)

lemma cursor_reader_bindR [intro]:
  assumes f: "cursor_reader f" and g: "\<And>a. cursor_reader (g a)"
  shows "cursor_reader (bindR f g)"
proof
  fix s r s'
  assume run: "bindR f g s = (r, s')"
  obtain x t where ft: "f s = (x, t)" by fastforce
  then obtain p where p: "s = p @ t" using cursor_reader.drops_prefix [OF f] by blast
  show "\<exists>p. s = p @ s'"
  proof (cases x)
    case None
    with run ft p show ?thesis by auto
  next
    case (Some a)
    with run ft have "g a t = (r, s')" by simp
    then obtain q where "t = q @ s'" using cursor_reader.drops_prefix [OF g] by blast
    with p have "s = (p @ q) @ s'" by simp
    then show ?thesis by blast
  qed
qed

lemma cursor_of_prefix [dest]: "prefix_reader f \<Longrightarrow> cursor_reader f"
  by (simp add: prefix_reader_def)

lemma prefix_readerI:
  assumes "cursor_reader f"
    and "\<And>s a s' t. f s = (Some a, s') \<Longrightarrow> f (s @ t) = (Some a, s' @ t)"
  shows "prefix_reader f"
  using assms by (simp add: prefix_reader_def prefix_reader_axioms_def)

lemma prefix_reader_returnR [intro]: "prefix_reader (returnR a)"
  by (rule prefix_readerI) (auto simp: returnR_def)

lemma prefix_reader_failR [intro]: "prefix_reader failR"
  by (rule prefix_readerI) (auto simp: failR_def)

lemma prefix_reader_bindR [intro]:
  assumes f: "prefix_reader f" and g: "\<And>a. prefix_reader (g a)"
  shows "prefix_reader (bindR f g)"
proof (rule prefix_readerI)
  show "cursor_reader (bindR f g)" using f g by blast
next
  fix s b s' t
  assume "bindR f g s = (Some b, s')"
  then obtain a u where "f s = (Some a, u)" "g a u = (Some b, s')" by (rule bindR_eq_SomeE)
  then have "f (s @ t) = (Some a, u @ t)" "g a (u @ t) = (Some b, s' @ t)"
    using prefix_reader.extend [OF f] prefix_reader.extend [OF g] by blast+
  then show "bindR f g (s @ t) = (Some b, s' @ t)" by simp
qed

lemma prefix_reader_if [intro]:
  "prefix_reader f \<Longrightarrow> prefix_reader g \<Longrightarrow> prefix_reader (if c then f else g)"
  by simp

lemma prefix_reader_case_option [intro]:
  "prefix_reader f \<Longrightarrow> (\<And>a. prefix_reader (g a)) \<Longrightarrow> prefix_reader (case x of None \<Rightarrow> f | Some a \<Rightarrow> g a)"
  by (cases x) auto

lemma cursor_reader_if [intro]:
  "cursor_reader f \<Longrightarrow> cursor_reader g \<Longrightarrow> cursor_reader (if c then f else g)"
  by simp

section \<open>The reading functions are instances\<close>

lemma prefix_reader_cbs_get [intro]: "prefix_reader (cbs_get n)"
  by (rule prefix_readerI, unfold_locales)
    (auto simp: cbs_get_def split: if_splits intro: append_take_drop_id [symmetric])

interpretation get_u8: prefix_reader CBS_get_u8
  unfolding CBS_get_u8_def by blast

interpretation get_u: prefix_reader "cbs_get_u n" for n
  unfolding cbs_get_u_def by blast

interpretation get_bytes: prefix_reader "CBS_get_bytes n" for n
  unfolding CBS_get_bytes_def by blast

interpretation skip: prefix_reader "CBS_skip n" for n
  unfolding CBS_skip_def by blast

lemmas prefix_reader_basic [intro] =
  get_u8.prefix_reader_axioms get_u.prefix_reader_axioms get_bytes.prefix_reader_axioms
  skip.prefix_reader_axioms

interpretation get_u16: prefix_reader CBS_get_u16
  unfolding CBS_get_u16_def by blast

interpretation get_u32: prefix_reader CBS_get_u32
  unfolding CBS_get_u32_def by blast

interpretation length_prefixed: prefix_reader "cbs_get_length_prefixed n" for n
  unfolding cbs_get_length_prefixed_def by blast

lemma cursor_reader_parse_base128_loop: "cursor_reader (parse_base128_loop v)"
proof
  fix s r s'
  show "parse_base128_loop v s = (r, s') \<Longrightarrow> \<exists>p. s = p @ s'"
  proof (induction v s rule: parse_base128_loop.induct)
    case (2 v b cbs)
    show ?case
    proof (cases "drop_bit (64 - 7) v \<noteq> 0 \<or> (v = 0 \<and> b = 0x80) \<or> b AND 0x80 = 0")
      case True
      with "2.prems" have "s' = cbs" by (auto simp: Let_def split: if_splits)
      then show ?thesis by (intro exI [of _ "[b]"]) simp
    next
      case False
      with "2.prems" have
        "parse_base128_loop (push_bit 7 v OR (ucast b AND 0x7f)) cbs = (r, s')"
        by (simp add: Let_def split: if_splits)
      with False obtain p where "cbs = p @ s'" using "2.IH" [OF _ _ refl] by auto
      then show ?thesis by (intro exI [of _ "b # p"]) simp
    qed
  qed simp
qed

lemma parse_base128_loop_extend:
  "parse_base128_loop v s = (Some a, s') \<Longrightarrow> parse_base128_loop v (s @ t) = (Some a, s' @ t)"
  by (induction v s rule: parse_base128_loop.induct) (auto simp: Let_def split: if_splits)

interpretation base128: prefix_reader parse_base128_integer
  unfolding parse_base128_integer_def
  by (rule prefix_readerI)
    (auto intro: cursor_reader_parse_base128_loop parse_base128_loop_extend)

interpretation asn1_tag: prefix_reader parse_asn1_tag
  unfolding parse_asn1_tag_def Let_def
  by (intro prefix_reader_bindR prefix_reader_if prefix_reader_returnR prefix_reader_failR
    get_u8.prefix_reader_axioms base128.prefix_reader_axioms)

lemma bindR_get_bytes:
  "bindR (CBS_get_bytes n) (\<lambda>out. returnR (f out)) s =
     (if length s < n then (None, s) else (Some (f (take n s)), drop n s))"
  by (simp add: CBS_get_bytes_def cbs_get_def bindR_def returnR_def CBS_init_def)

end
