(* ===== verification/DER.thy ===== *)
theory DER
  imports Reader
begin

text \<open>
  The Distinguished Encoding Rules as a specification (X.690, definite minimal forms), and
  the proof that the element reader of \<open>cbs.c\<close> accepts exactly these encodings.
\<close>

section \<open>Base-128 integers\<close>

definition b128_byte :: "bool \<Rightarrow> nat \<Rightarrow> u8" where
  "b128_byte more n = word_of_nat (n mod 128 + (if more then 128 else 0))"

text \<open>\<open>b128_more n\<close> are the bytes with the continuation bit that come before the last one.\<close>

fun b128_more :: "nat \<Rightarrow> bytes" where
  "b128_more n = (if n = 0 then [] else b128_more (n div 128) @ [b128_byte True n])"

declare b128_more.simps [simp del]

definition base128 :: "nat \<Rightarrow> bytes" where
  "base128 n = b128_more (n div 128) @ [b128_byte False n]"

lemma b128_more_0 [simp]: "b128_more 0 = []"
  by (simp add: b128_more.simps)

lemma b128_more_pos:
  "0 < n \<Longrightarrow> b128_more n = b128_more (n div 128) @ [b128_byte True n]"
  by (simp add: b128_more.simps [of n])

lemma length_b128_more: "n < 128 ^ k \<Longrightarrow> length (b128_more n) \<le> k"
proof (induction k arbitrary: n)
  case (Suc k)
  show ?case
  proof (cases "n = 0")
    case False
    from Suc.prems have "n div 128 < 128 ^ k" by (simp add: less_mult_imp_div_less mult.commute)
    with Suc.IH False show ?thesis by (simp add: b128_more_pos)
  qed simp
qed simp

lemma base128_not_Nil [simp]: "base128 n \<noteq> []"
  by (simp add: base128_def)

subsection \<open>Word facts of the loop\<close>

lemma unat_base128_step:
  fixes v :: u64
  assumes "unat v < 2 ^ 57"
  shows "unat (push_bit 7 v OR (ucast (b :: u8) AND 0x7f)) = unat v * 128 + unat b mod 128"
proof -
  have "unat v * 128 + unat b mod 128 < 2 ^ 64" using assms by simp
  then show ?thesis by (simp add: unat_push_bit_or and_0x7f_mod64)
qed

lemma drop_57_eq_0: "drop_bit 57 (v :: u64) = 0 \<longleftrightarrow> unat v < 2 ^ 57"
proof -
  have "drop_bit 57 v = 0 \<longleftrightarrow> unat (drop_bit 57 v) = 0" by (simp add: unsigned_eq_0_iff)
  also have "unat (drop_bit 57 v) = unat v div 2 ^ 57"
    by (simp add: drop_bit_eq_div unat_div_distrib)
  finally show ?thesis by (simp add: div_eq_0_iff)
qed

subsection \<open>The reader accepts exactly the minimal encodings\<close>

lemma unat_b128_byte [simp]:
  "unat (b128_byte more n) = n mod 128 + (if more then 128 else 0)"
proof -
  have "n mod 128 < 128" by simp
  then have "n mod 128 + (if more then 128 else 0) < 256" by (cases more; simp; linarith)
  then show ?thesis by (simp add: b128_byte_def unat_of_nat del: of_nat_add)
qed

lemma parse_base128_more:
  fixes v :: u64
  assumes n: "0 < n" "n < 2 ^ 64" and v: "unat v = n div 128"
  shows "parse_base128_loop v (b128_byte True n # s) =
    parse_base128_loop (word_of_nat n) s"
proof -
  let ?b = "b128_byte True n"
  have small: "unat v < 2 ^ 57" using n v by simp
  have step: "push_bit 7 v OR (ucast ?b AND 0x7f) = word_of_nat n"
    by (rule unat_eq_word_of_nat) (simp add: unat_base128_step [OF small] v)
  have "\<not> (v = 0 \<and> ?b = 0x80)"
  proof
    assume *: "v = 0 \<and> ?b = 0x80"
    then have "unat ?b = unat (0x80 :: u8)" by simp
    then have "n mod 128 = 0" by (simp only: unat_b128_byte) simp
    moreover have "n div 128 = 0" using * v by simp
    ultimately show False using n(1) by (simp add: div_eq_0_iff)
  qed
  with small step show ?thesis
    by (auto simp add: drop_57_eq_0 and_0x80_eq_0 Let_def)
qed

lemma parse_base128_more_all:
  "n < 2 ^ 57 \<Longrightarrow> parse_base128_loop 0 (b128_more n @ s) = parse_base128_loop (word_of_nat n) s"
proof (induction n arbitrary: s rule: b128_more.induct)
  case (1 n)
  show ?case
  proof (cases "n = 0")
    case False
    have "parse_base128_loop 0 (b128_more n @ s) =
        parse_base128_loop (word_of_nat (n div 128)) (b128_byte True n # s)"
      using 1 False by (simp add: b128_more_pos)
    also have "\<dots> = parse_base128_loop (word_of_nat n) s"
    proof (rule parse_base128_more)
      show "unat (word_of_nat (n div 128) :: u64) = n div 128"
        using "1.prems" by (simp add: unat_of_nat)
    qed (use 1 False in auto)
    finally show ?thesis .
  qed simp
qed

lemma parse_base128_roundtrip:
  assumes "n < 2 ^ 64"
  shows "parse_base128_integer (base128 n @ s) = (Some (word_of_nat n), s)"
proof -
  let ?v = "word_of_nat (n div 128) :: u64" and ?b = "b128_byte False n"
  have v: "unat ?v = n div 128" using assms by (simp add: unat_of_nat)
  have small: "unat ?v < 2 ^ 57" using assms v by simp
  have step: "push_bit 7 ?v OR (ucast ?b AND 0x7f) = word_of_nat n"
    by (rule unat_eq_word_of_nat, unfold unat_base128_step [OF small] v) simp
  have b: "unat ?b < 128" by simp
  then have nb: "?b \<noteq> 0x80" by (auto simp del: unat_b128_byte)
  have "parse_base128_integer (base128 n @ s) = parse_base128_loop ?v (?b # s)"
    using assms parse_base128_more_all [of "n div 128" "?b # s"]
    by (simp add: parse_base128_integer_def base128_def)
  with small step b nb show ?thesis
    by (simp add: drop_57_eq_0 and_0x80_eq_0 Let_def)
qed

lemma b128_byte_more: "128 \<le> unat b \<Longrightarrow> b128_byte True (unat b) = b"
  using unat_byte_lt [of b] by (simp add: b128_byte_def le_mod_geq flip: of_nat_add del: unat_byte_lt)

lemma b128_byte_last: "unat b < 128 \<Longrightarrow> b128_byte False (unat b) = b"
  by (simp add: b128_byte_def)

lemma b128_byte_add [simp]: "b128_byte more (m * 128 + n) = b128_byte more n"
  by (simp add: b128_byte_def)

lemma b128_byte_mod [simp]: "b128_byte more (n mod 128) = b128_byte more n"
  by (simp add: b128_byte_def)

lemma parse_base128_loop_inv:
  assumes "parse_base128_loop v s = (Some w, s')"
  shows "\<exists>p. s = p @ s' \<and> b128_more (unat v) @ p = base128 (unat w)"
  using assms
proof (induction v s rule: parse_base128_loop.induct)
  case (2 v b s)
  let ?v = "push_bit 7 v OR (ucast b AND 0x7f) :: u64"
  from "2.prems" have "drop_bit 57 v = 0" and nz: "\<not> (v = 0 \<and> b = 0x80)"
    by (auto split: if_splits)
  then have small: "unat v < 2 ^ 57" by (simp only: drop_57_eq_0)
  note v' = unat_base128_step [OF small, of b]
  show ?case
  proof (cases "b AND 0x80 = 0")
    case True
    then have b: "unat b < 128" by (simp add: and_0x80_eq_0)
    from True "2.prems" small nz have "w = ?v" "s' = s"
      by (auto simp: drop_57_eq_0 Let_def split: if_splits)
    moreover have "base128 (unat ?v) = b128_more (unat v) @ [b]"
      using b by (simp add: base128_def v' b128_byte_mod b128_byte_last)
    ultimately show ?thesis by auto
  next
    case False
    then have b: "128 \<le> unat b" by (simp add: and_0x80_eq_0)
    have "0 < unat ?v"
    proof (rule ccontr)
      assume "\<not> 0 < unat ?v"
      then have "unat v = 0" "unat b mod 128 = 0" using v' by simp_all
      moreover from this have "b = 0x80"
        using b128_byte_more [OF b] by (simp add: b128_byte_def)
      ultimately show False using nz by (simp add: unsigned_eq_0_iff)
    qed
    then have more: "b128_more (unat ?v) = b128_more (unat v) @ [b]"
      using b128_byte_more [OF b] by (simp add: b128_more_pos v' b128_byte_mod)
    from False "2.prems" small nz have "parse_base128_loop ?v s = (Some w, s')"
      by (auto simp: drop_57_eq_0 Let_def split: if_splits)
    then obtain p where "s = p @ s'" "b128_more (unat ?v) @ p = base128 (unat w)"
      using "2.IH" small nz False by (auto simp: drop_57_eq_0)
    with more show ?thesis by (intro exI [of _ "b # p"]) simp
  qed
qed simp

lemma parse_base128_iff:
  "parse_base128_integer s = (Some w, s') \<longleftrightarrow> s = base128 (unat w) @ s'"
proof
  assume "parse_base128_integer s = (Some w, s')"
  from parse_base128_loop_inv [OF this [unfolded parse_base128_integer_def]]
  show "s = base128 (unat w) @ s'" by auto
next
  assume "s = base128 (unat w) @ s'"
  with parse_base128_roundtrip [of "unat w" s'] unsigned_less [of w]
  show "parse_base128_integer s = (Some w, s')" by simp
qed

section \<open>Fixed-width numbers\<close>

lemma get_u_loop_eq: "get_u_loop r bs = word_of_nat (unat r * 256 ^ length bs + be_nat bs)"
proof (induction bs arbitrary: r)
  case Nil
  show ?case by simp
next
  case (Cons b bs)
  have "push_bit 8 r OR ucast b = word_of_nat (unat r * 256 + unat b)"
    by (rule word_unat_eq_iff [THEN iffD2]) (simp add: unat_push_or unat_of_nat del: of_nat_add of_nat_mult)
  then show ?case
    by (simp add: Cons.IH be_nat_Cons unat_of_nat algebra_simps)
qed

lemma cbs_get_u_eq:
  "cbs_get_u k s =
     (if length s < k then (None, s)
      else (Some (word_of_nat (be_nat (take k s))), drop k s))"
  by (simp add: cbs_get_u_def cbs_get_def bindR_def returnR_def get_u_loop_eq)

lemma unat_be_nat:
  assumes "length bs \<le> 8"
  shows "unat (word_of_nat (be_nat bs) :: u64) = be_nat bs"
proof -
  have "be_nat bs < 256 ^ length bs" by (rule be_nat_less)
  also have "\<dots> \<le> 256 ^ 8" using assms by (intro power_increasing) simp_all
  finally show ?thesis by (simp add: unat_of_nat)
qed

lemma CBS_get_u8_eq: "CBS_get_u8 s = (case s of [] \<Rightarrow> (None, []) | b # s' \<Rightarrow> (Some b, s'))"
  by (cases s) (simp_all add: CBS_get_u8_def cbs_get_def bindR_def returnR_def)

section \<open>Tags\<close>

text \<open>
  A tag word holds the class and constructed bits in its top three bits and the tag number
  in the other 29. Numbers below 31 share the first byte with the top bits.
\<close>

definition tag_word :: "nat \<Rightarrow> nat \<Rightarrow> u32" where
  "tag_word c n = word_of_nat (c * 2 ^ 29 + n)"

lemma unat_tag_word: "c < 8 \<Longrightarrow> n < 2 ^ 29 \<Longrightarrow> unat (tag_word c n) = c * 2 ^ 29 + n"
  by (simp add: tag_word_def unat_of_nat del: of_nat_add of_nat_mult)

definition der_tag :: "u32 \<Rightarrow> bytes" where
  "der_tag tag =
     (let c = unat tag div 2 ^ 29; n = unat tag mod 2 ^ 29 in
      if n < 31 then [word_of_nat (c * 32 + n)] else word_of_nat (c * 32 + 31) # base128 n)"

lemma unat_tag_value:
  fixes w :: u32 and b :: u8
  assumes "unat w < 2 ^ 29"
  shows "unat (push_bit CBS_ASN1_TAG_SHIFT (ucast b AND 0xe0) OR w) = unat b div 32 * 2 ^ 29 + unat w"
proof -
  let ?c = "take_bit 3 (drop_bit 5 (ucast b :: u32))"
  have "ucast b AND (0xe0 :: u32) = push_bit 5 ?c"
    using and_push_mask [of "ucast b :: u32" 5 3] by (simp add: mask_eq_exp_minus_1)
  then have "push_bit CBS_ASN1_TAG_SHIFT (ucast b AND (0xe0 :: u32)) = push_bit 29 ?c"
    by (simp add: CBS_ASN1_TAG_SHIFT_def)
  moreover have c: "unat ?c = unat b div 32"
  proof -
    have "unat b div 32 < 8" by (simp add: div_less_iff_less_mult)
    then show ?thesis
      unfolding unsigned_take_bit_eq unsigned_drop_bit_eq
      by (simp add: take_bit_eq_mod drop_bit_eq_div)
  qed
  moreover have "unat b div 32 * 2 ^ 29 + unat w < 2 ^ 32"
  proof -
    have "unat b div 32 < 8" by (simp add: div_less_iff_less_mult)
    then have "unat b div 32 \<le> 7" by simp
    then have "unat b div 32 * 2 ^ 29 \<le> 7 * 2 ^ 29" by (rule mult_le_mono1)
    with assms show ?thesis by simp
  qed
  ultimately show ?thesis
    using unat_push_bit_or [OF assms, of ?c] by simp
qed

lemma unat_low5: "unat (ucast (b :: u8) AND 0x1f :: u32) = unat b mod 32"
proof -
  have "(ucast b :: u32) AND 0x1f = take_bit 5 (ucast b)"
    by (simp add: take_bit_eq_mask mask_eq_exp_minus_1)
  then show ?thesis by (simp add: unat_mod_distrib take_bit_eq_mod)
qed

lemma parse_asn1_tag_eq:
  "parse_asn1_tag s =
     (case s of
        [] \<Rightarrow> (None, [])
      | b # s' \<Rightarrow>
          if unat b mod 32 = 31 then
            (case parse_base128_integer s' of
               (None, s'') \<Rightarrow> (None, s'')
             | (Some v, s'') \<Rightarrow>
                 if unat v < 31 \<or> 2 ^ 29 \<le> unat v then (None, s'')
                 else (Some (tag_word (unat b div 32) (unat v)), s''))
          else (Some (tag_word (unat b div 32) (unat b mod 32)), s'))"
proof (cases s)
  case Nil
  then show ?thesis by (simp add: parse_asn1_tag_def CBS_get_u8_eq)
next
  case (Cons b s')
  have low: "(ucast b AND 0x1f = (0x1f :: u32)) \<longleftrightarrow> unat b mod 32 = 31"
    unfolding word_unat_eq_iff unat_low5 by simp
  have short: "push_bit CBS_ASN1_TAG_SHIFT (ucast b AND 0xe0) OR (ucast b AND 0x1f) =
      tag_word (unat b div 32) (unat b mod 32)"
  proof (unfold tag_word_def, rule unat_eq_word_of_nat)
    have "unat (ucast b AND 0x1f :: u32) < 2 ^ 29"
      unfolding unat_low5 by (rule less_trans [of _ 32]) simp_all
    from unat_tag_value [OF this, of b]
    show "unat (push_bit CBS_ASN1_TAG_SHIFT (ucast b AND 0xe0) OR (ucast b AND 0x1f) :: u32) =
        unat b div 32 * 2 ^ 29 + unat b mod 32"
      unfolding unat_low5 .
  qed
  have range: "(v > ucast CBS_ASN1_TAG_NUMBER_MASK \<or> v < 0x1f) \<longleftrightarrow> unat v < 31 \<or> 2 ^ 29 \<le> unat v"
    for v :: u64
  proof -
    have "unat (ucast CBS_ASN1_TAG_NUMBER_MASK :: u64) = 2 ^ 29 - 1"
      by (simp add: CBS_ASN1_TAG_NUMBER_MASK_def CBS_ASN1_TAG_SHIFT_def)
    moreover have "unat (0x1f :: u64) = 31" by simp
    ultimately show ?thesis unfolding word_less_nat_alt by (simp, linarith)
  qed
  have long: "push_bit CBS_ASN1_TAG_SHIFT (ucast b AND 0xe0) OR ucast v =
      tag_word (unat b div 32) (unat v)" if "unat v < 2 ^ 29" for v :: u64
  proof (unfold tag_word_def, rule unat_eq_word_of_nat)
    have "unat (ucast v :: u32) = unat v"
      using that by (simp add: unsigned_ucast_eq take_bit_nat_eq_self)
    with that unat_tag_value [of "ucast v" b]
    show "unat (push_bit CBS_ASN1_TAG_SHIFT (ucast b AND 0xe0) OR ucast v :: u32) =
        unat b div 32 * 2 ^ 29 + unat v" by simp
  qed
  show ?thesis
    unfolding Cons parse_asn1_tag_def Let_def
    by (auto simp: CBS_get_u8_eq low short range bindR_def reader_defs long simp del: push_bit_and
        split: option.splits prod.splits)
qed

lemma parse_asn1_tag_iff: "parse_asn1_tag s = (Some tag, s') \<longleftrightarrow> s = der_tag tag @ s'"
proof
  assume *: "parse_asn1_tag s = (Some tag, s')"
  then obtain b r where s: "s = b # r" by (auto simp: parse_asn1_tag_eq split: list.splits)
  define c where "c = unat b div 32"
  have c: "c < 8" by (simp add: c_def div_less_iff_less_mult)
  have b: "unat b = c * 32 + unat b mod 32" by (simp add: c_def)
  show "s = der_tag tag @ s'"
  proof (cases "unat b mod 32 = 31")
    case True
    with * s obtain v where v: "parse_base128_integer r = (Some v, s')" "31 \<le> unat v" "unat v < 2 ^ 29"
      and tag: "tag = tag_word c (unat v)"
      by (auto simp: parse_asn1_tag_eq c_def not_less not_le split: option.splits prod.splits if_splits)
    have "unat tag = c * 2 ^ 29 + unat v" unfolding tag by (rule unat_tag_word [OF c v(3)])
    with v(2,3) have "der_tag tag = word_of_nat (c * 32 + 31) # base128 (unat v)"
      by (simp add: der_tag_def)
    moreover have "b = word_of_nat (c * 32 + 31)" using b True by (metis unat_eq_word_of_nat)
    ultimately show ?thesis using v(1) by (simp add: s parse_base128_iff)
  next
    case False
    with * s have tag: "tag = tag_word c (unat b mod 32)" "s' = r"
      by (auto simp: parse_asn1_tag_eq c_def)
    have "unat b mod 32 < 32" by simp
    with False have low: "unat b mod 32 < 31" by linarith
    then have "unat tag = c * 2 ^ 29 + unat b mod 32" unfolding tag(1) by (simp add: unat_tag_word c)
    with low have "der_tag tag = [word_of_nat (c * 32 + unat b mod 32)]"
      by (simp add: der_tag_def)
    moreover have "b = word_of_nat (c * 32 + unat b mod 32)" using b by (metis unat_eq_word_of_nat)
    ultimately show ?thesis by (simp add: s tag)
  qed
next
  assume s: "s = der_tag tag @ s'"
  define c n where "c = unat tag div 2 ^ 29" and "n = unat tag mod 2 ^ 29"
  have c: "c < 8" using unsigned_less [of tag] by (simp add: c_def div_less_iff_less_mult)
  have n: "n < 2 ^ 29" by (simp add: n_def)
  have "unat tag = c * 2 ^ 29 + n" by (simp add: c_def n_def)
  then have tag: "tag = tag_word c n" unfolding tag_word_def by (rule unat_eq_word_of_nat)
  have byte: "unat (word_of_nat (c * 32 + k) :: u8) = c * 32 + k" if "k < 32" for k
  proof -
    have "c * 32 + k < 256" using c that by simp
    then show ?thesis by (simp add: unat_of_nat del: of_nat_add of_nat_mult)
  qed
  show "parse_asn1_tag s = (Some tag, s')"
  proof (cases "n < 31")
    case True
    with s have "s = word_of_nat (c * 32 + n) # s'" by (simp add: der_tag_def c_def n_def)
    with True byte [of n] show ?thesis
      by (simp add: parse_asn1_tag_eq tag del: of_nat_add of_nat_mult)
  next
    case False
    with s have s: "s = word_of_nat (c * 32 + 31) # base128 n @ s'"
      by (simp add: der_tag_def c_def n_def)
    have "unat (word_of_nat n :: u64) = n" using n by (simp add: unat_of_nat)
    with False n s byte [of 31] parse_base128_roundtrip [of n s'] show ?thesis
      by (simp add: parse_asn1_tag_eq tag del: of_nat_add of_nat_mult)
  qed
qed

section \<open>Lengths\<close>

definition octets :: "nat \<Rightarrow> nat" where
  "octets n = (if n < 256 then 1 else if n < 256 ^ 2 then 2 else if n < 256 ^ 3 then 3 else 4)"

definition der_length :: "nat \<Rightarrow> bytes" where
  "der_length n =
     (if n < 128 then [word_of_nat n] else word_of_nat (128 + octets n) # be_bytes (octets n) n)"

text \<open>The length part of the element reader, as a reader of its own.\<close>

definition element_length :: "(bytes, nat) reader" where
  "element_length = bindR CBS_get_u8 (\<lambda>b.
     if unat b < 128 then returnR (unat b)
     else let k = unat b - 128 in
       if k = 0 \<or> k > 4 then failR
       else bindR (cbs_get_u k) (\<lambda>v.
         if unat v < 128 \<or> unat v < 256 ^ (k - 1) then failR else returnR (unat v)))"

lemma octets_bounds: "n < 256 ^ 4 \<Longrightarrow> n < 256 ^ octets n" "1 \<le> octets n" "octets n \<le> 4"
  by (auto simp: octets_def)

lemma octets_unique:
  assumes "1 \<le> k" "k \<le> 4" "128 \<le> n" "256 ^ (k - 1) \<le> n" "n < 256 ^ k"
  shows "octets n = k"
proof -
  consider "k = 1" | "k = 2" | "k = 3" | "k = 4" using assms(1,2) by linarith
  then show ?thesis using assms(3-5) by cases (simp_all add: octets_def)
qed

lemma octets_ge: "128 \<le> n \<Longrightarrow> 256 ^ (octets n - 1) \<le> n"
  by (auto simp: octets_def)

lemma element_length_iff:
  "element_length s = (Some n, s') \<longleftrightarrow> n < 2 ^ 32 \<and> s = der_length n @ s'"
proof
  assume *: "element_length s = (Some n, s')"
  then obtain b r where s: "s = b # r"
    by (cases s) (auto simp: element_length_def CBS_get_u8_eq)
  show "n < 2 ^ 32 \<and> s = der_length n @ s'"
  proof (cases "unat b < 128")
    case True
    with * s have "n = unat b" "s' = r"
      by (simp_all add: element_length_def CBS_get_u8_eq reader_defs)
    with True s show ?thesis by (simp add: der_length_def)
  next
    case False
    define k where "k = unat b - 128"
    with * s False have k: "1 \<le> k" "k \<le> 4" "k \<le> length r"
      and nv: "n = unat (word_of_nat (be_nat (take k r)) :: u64)" "s' = drop k r"
      and min: "128 \<le> n" "256 ^ (k - 1) \<le> n"
      by (auto simp: element_length_def CBS_get_u8_eq reader_defs cbs_get_u_eq bindR_def Let_def
          split: if_splits)
    have n: "n = be_nat (take k r)" using nv(1) k by (simp add: unat_be_nat)
    have less: "n < 256 ^ k" using be_nat_less [of "take k r"] k n by simp
    with k min have oct: "octets n = k" by (intro octets_unique) auto
    have "be_bytes k n = take k r" using be_bytes_be_nat [of "take k r"] k n by simp
    moreover have "b = word_of_nat (128 + k)"
      by (rule unat_eq_word_of_nat) (use False in \<open>simp add: k_def\<close>)
    ultimately have "s = der_length n @ s'"
      using min oct by (simp add: der_length_def s nv(2))
    moreover have "n < 2 ^ 32"
    proof -
      have "(256 :: nat) ^ k \<le> 256 ^ 4" using k by (intro power_increasing) simp_all
      with less show ?thesis by simp
    qed
    ultimately show ?thesis by simp
  qed
next
  assume *: "n < 2 ^ 32 \<and> s = der_length n @ s'"
  show "element_length s = (Some n, s')"
  proof (cases "n < 128")
    case True
    with * show ?thesis
      by (simp add: element_length_def CBS_get_u8_eq der_length_def reader_defs unat_of_nat)
  next
    case False
    have k: "n < 256 ^ octets n" "1 \<le> octets n" "octets n \<le> 4" "256 ^ (octets n - 1) \<le> n"
      using * False octets_bounds [of n] octets_ge [of n] by simp_all
    have b: "unat (word_of_nat (128 + octets n) :: u8) = 128 + octets n"
      using k(3) by (simp add: unat_of_nat del: of_nat_add)
    have v: "unat (word_of_nat n :: u64) = n" using * by (simp add: unat_of_nat)
    show ?thesis
      using * False k b v
      by (simp add: element_length_def CBS_get_u8_eq der_length_def cbs_get_u_eq be_nat_be_bytes
          reader_defs Let_def bindR_def del: of_nat_add)
  qed
qed

section \<open>Elements\<close>

definition der_header :: "u32 \<Rightarrow> nat \<Rightarrow> bytes" where
  "der_header tag n = der_tag tag @ der_length n"

definition der_element :: "u32 \<Rightarrow> bytes \<Rightarrow> bytes" where
  "der_element tag body = der_header tag (length body) @ body"

lemma unat_and_0x7f_high: "128 \<le> unat b \<Longrightarrow> unat (b AND 0x7f :: u8) = unat b - 128"
  using unat_byte_lt [of b] by (simp add: and_0x7f_mod le_mod_geq del: unat_byte_lt)

lemma drop_bit_eq_0_iff: "drop_bit k (v :: 'a::len word) = 0 \<longleftrightarrow> unat v < 2 ^ k"
proof -
  have "drop_bit k v = 0 \<longleftrightarrow> unat (drop_bit k v) = 0" by (simp add: unsigned_eq_0_iff)
  also have "unat (drop_bit k v) = unat v div 2 ^ k"
    unfolding unsigned_drop_bit_eq by (simp add: drop_bit_eq_div take_bit_nat_eq_self)
  finally show ?thesis by (simp add: div_eq_0_iff)
qed

lemma power_8: "(2 :: nat) ^ (k * 8) = 256 ^ k"
  by (subst mult.commute) (simp add: power_mult)

lemma length_base128: "n < 2 ^ 64 \<Longrightarrow> length (base128 n) \<le> 10"
proof -
  assume "n < 2 ^ 64"
  then have "n div 128 < 128 ^ 9" by (simp add: div_less_iff_less_mult)
  from length_b128_more [OF this] show ?thesis by (simp add: base128_def)
qed

lemma length_der_tag: "length (der_tag tag) \<le> 11"
proof -
  have "unat tag mod 2 ^ 29 < 2 ^ 64" by (rule less_trans [of _ "2 ^ 29"]) simp_all
  from length_base128 [OF this] show ?thesis by (simp add: der_tag_def Let_def)
qed

lemma length_der_tag_pos: "1 \<le> length (der_tag tag)"
  by (simp add: der_tag_def Let_def)

lemma der_tag_not_Nil [simp]: "der_tag tag \<noteq> []"
  using length_der_tag_pos [of tag] by auto

lemma any_element_indefinite:
  assumes s: "s = der_tag tag @ 0x80 # r" and ber: "ber_ok" "tag AND CBS_ASN1_CONSTRUCTED \<noteq> 0"
  shows "cbs_get_any_asn1_element ber_ok s =
    (Some (der_tag tag @ [0x80], tag, length (der_tag tag) + 1), r)"
proof -
  have "parse_asn1_tag s = (Some tag, 0x80 # r)" using s by (simp add: parse_asn1_tag_iff)
  then show ?thesis
    using s ber
    by (simp add: cbs_get_any_asn1_element_def CBS_get_u8_eq bindR_get_bytes CBS_len_def)
qed

lemma any_element_definite:
  assumes s: "s = der_tag tag @ h"
    and no_ber: "\<not> (ber_ok \<and> tag AND CBS_ASN1_CONSTRUCTED \<noteq> 0 \<and> (\<exists>r. h = 0x80 # r))"
  shows "cbs_get_any_asn1_element ber_ok s =
    (case element_length h of
       (None, _) \<Rightarrow> (None, s)
     | (Some n, h') \<Rightarrow>
         bindR (CBS_get_bytes (length s - length h' + n))
           (\<lambda>out. returnR (out, tag, length s - length h')) s)"
proof (cases h)
  case Nil
  with s have "parse_asn1_tag s = (Some tag, [])" by (simp add: parse_asn1_tag_iff)
  with Nil show ?thesis
    by (simp add: cbs_get_any_asn1_element_def element_length_def CBS_get_u8_eq)
next
  case (Cons b r)
  with s have tag: "parse_asn1_tag s = (Some tag, b # r)" by (simp add: parse_asn1_tag_iff)
  have hl: "length s - length r = length (der_tag tag) + 1" using s Cons by simp
  show ?thesis
  proof (cases "unat b < 128")
    case True
    with tag Cons show ?thesis
      by (simp add: cbs_get_any_asn1_element_def element_length_def CBS_get_u8_eq and_0x80_eq_0
          reader_defs Let_def CBS_len_def add.commute)
  next
    case False
    define k where "k = unat b - 128"
    have k: "unat (b AND 0x7f) = k" using False by (simp add: unat_and_0x7f_high k_def)
    have "b = 0x80" if "k = 0"
    proof -
      have "unat b = unat (0x80 :: u8)" using that False by (simp add: k_def)
      then show ?thesis by (simp only: word_unat_eq_iff)
    qed
    with no_ber Cons have indef: "\<not> (ber_ok \<and> tag AND CBS_ASN1_CONSTRUCTED \<noteq> 0 \<and> k = 0)" by auto
    show ?thesis
    proof (cases "k = 0 \<or> k > 4")
      case True
      with tag Cons False indef show ?thesis
        by (auto simp add: cbs_get_any_asn1_element_def element_length_def CBS_get_u8_eq
            and_0x80_eq_0 k k_def [symmetric] reader_defs Let_def)
    next
      case k4: False
      show ?thesis
      proof (cases "cbs_get_u k r")
        case (Pair v r')
        show ?thesis
        proof (cases v)
          case None
          with Pair tag Cons False indef k4 show ?thesis
            by (auto simp add: cbs_get_any_asn1_element_def element_length_def CBS_get_u8_eq
                and_0x80_eq_0 k k_def [symmetric] reader_defs Let_def)
        next
          case (Some w)
          with Pair have w: "w = word_of_nat (be_nat (take k r))" "r' = drop k r" "k \<le> length r"
            by (auto simp: cbs_get_u_eq split: if_splits)
          have "be_nat (take k r) < 256 ^ 4"
          proof (rule less_le_trans [OF be_nat_less])
            show "256 ^ length (take k r) \<le> (256 :: nat) ^ 4"
              using k4 w(3) by (intro power_increasing) simp_all
          qed
          then have "unat w < 2 ^ 32" using w k4 by (simp add: unat_be_nat)
          then have small: "Suc (unat w + length (der_tag tag) + k) < 18446744073709551616"
            using length_der_tag [of tag] k4 by simp
          have min: "w < 128 \<longleftrightarrow> unat w < 128"
            "drop_bit ((k - Suc 0) * 8) w = 0 \<longleftrightarrow> unat w < 256 ^ (k - Suc 0)"
            unfolding word_less_nat_alt drop_bit_eq_0_iff power_8 by simp_all
          have hl': "length s - length r' = length (der_tag tag) + 1 + k"
            using s Cons w k4 by simp
          from Pair Some tag Cons False indef k4 small show ?thesis
            by (auto simp add: cbs_get_any_asn1_element_def element_length_def CBS_get_u8_eq
                and_0x80_eq_0 k k_def [symmetric] reader_defs Let_def CBS_len_def hl hl' min
                ac_simps)
        qed
      qed
    qed
  qed
qed

lemma bindR_get_bytes_iff:
  "bindR (CBS_get_bytes n) (\<lambda>out. returnR (out, x)) s = (Some (out, y), s') \<longleftrightarrow>
     length out = n \<and> y = x \<and> s = out @ s'"
  by (auto simp: bindR_get_bytes)

lemma any_element_tag:
  assumes "cbs_get_any_asn1_element ber_ok s = (Some (out, tag, hl), s')"
  obtains h where "s = der_tag tag @ h"
proof (cases "parse_asn1_tag s")
  case (Pair t h)
  with assms obtain tag' where t: "t = Some tag'" by (cases t) (auto simp: cbs_get_any_asn1_element_def)
  obtain lb h' where lb: "CBS_get_u8 h = (lb, h')" by fastforce
  from assms Pair t lb have "tag' = tag"
    by (simp add: cbs_get_any_asn1_element_def bindR_get_bytes Let_def split: option.splits prod.splits if_splits)
  with Pair t have "parse_asn1_tag s = (Some tag, h)" by simp
  then have "s = der_tag tag @ h" by (simp add: parse_asn1_tag_iff)
  then show ?thesis by (rule that)
qed

lemma take_hd_part: "xs @ ys = zs @ ws \<Longrightarrow> length xs \<le> length zs \<Longrightarrow> zs = xs @ drop (length xs) zs"
  by (metis append_eq_append_conv_if append_take_drop_id)

lemma any_element_sound_definite:
  assumes s: "s = der_tag tag @ h" and n: "element_length h = (Some n, h')"
    and b: "bindR (CBS_get_bytes (length s - length h' + n))
      (\<lambda>out. returnR (out, tag, length s - length h')) s = (Some (out, tag, hl), s')"
  shows "s = out @ s'" "hl = length (der_header tag n)"
    and "\<exists>body. length body = n \<and> n < 2 ^ 32 \<and> out = der_element tag body"
proof -
  from n have n32: "n < 2 ^ 32" and h: "h = der_length n @ h'" by (simp_all add: element_length_iff)
  have out: "length out = length s - length h' + n" "hl = length s - length h'" "s = out @ s'"
    using b unfolding bindR_get_bytes_iff by blast+
  show "s = out @ s'" by (rule out(3))
  have hs: "s = der_header tag n @ h'" using s h by (simp add: der_header_def)
  then show hl: "hl = length (der_header tag n)" using out(2) by simp
  define body where "body = drop (length (der_header tag n)) out"
  have "out = der_header tag n @ body"
    unfolding body_def
  proof (rule take_hd_part)
    show "der_header tag n @ h' = out @ s'" by (simp only: hs [symmetric] out(3) [symmetric])
    show "length (der_header tag n) \<le> length out" using out(1,2) hl by linarith
  qed
  moreover have "length body = n" unfolding body_def length_drop using out(1,2) hl by linarith
  ultimately show "\<exists>body. length body = n \<and> n < 2 ^ 32 \<and> out = der_element tag body"
    using n32 by (intro exI [of _ body]) (simp add: der_element_def)
qed

lemma any_element_der:
  assumes "length body < 2 ^ 32"
  shows "cbs_get_any_asn1_element ber_ok (der_element tag body @ t) =
    (Some (der_element tag body, tag, length (der_header tag (length body))), t)"
proof -
  define h where "h = der_length (length body) @ body @ t"
  have s: "der_element tag body @ t = der_tag tag @ h"
    by (simp add: h_def der_element_def der_header_def)
  have len: "element_length h = (Some (length body), body @ t)"
    using assms by (simp add: element_length_iff h_def)
  have "h \<noteq> 0x80 # r" for r
    using len by (auto simp: element_length_def CBS_get_u8_eq reader_defs)
  then have nb: "\<not> (ber_ok \<and> tag AND CBS_ASN1_CONSTRUCTED \<noteq> 0 \<and> (\<exists>r. h = 0x80 # r))" by blast
  show ?thesis
    unfolding any_element_definite [OF s nb] len
    by (simp add: bindR_get_bytes der_element_def der_header_def)
qed

lemma any_element_sound:
  assumes L: "cbs_get_any_asn1_element ber_ok s = (Some (out, tag, hl), s')"
  shows "s = out @ s' \<and>
     ((\<exists>body. length body < 2 ^ 32 \<and> out = der_element tag body \<and>
         hl = length (der_header tag (length body))) \<or>
      (ber_ok \<and> tag AND CBS_ASN1_CONSTRUCTED \<noteq> 0 \<and> out = der_tag tag @ [0x80] \<and> hl = length out))"
proof -
  obtain h where s: "s = der_tag tag @ h" using L by (rule any_element_tag)
  show ?thesis
  proof (cases "ber_ok \<and> tag AND CBS_ASN1_CONSTRUCTED \<noteq> 0 \<and> (\<exists>r. h = 0x80 # r)")
    case True
    then obtain r where h: "h = 0x80 # r" and ber: "ber_ok" "tag AND CBS_ASN1_CONSTRUCTED \<noteq> 0"
      by blast
    from any_element_indefinite [OF s [unfolded h] ber] L
    have "out = der_tag tag @ [0x80]" "hl = length out" "s' = r" by simp_all
    with s h ber show ?thesis by simp
  next
    case False
    note eq = any_element_definite [OF s False]
    show ?thesis
    proof (cases "element_length h")
      case (Pair v h')
      with L eq obtain n where "v = Some n" by (cases v) simp_all
      with L eq Pair have n: "element_length h = (Some n, h')"
        and b: "bindR (CBS_get_bytes (length s - length h' + n))
           (\<lambda>out. returnR (out, tag, length s - length h')) s = (Some (out, tag, hl), s')"
        by simp_all
      from any_element_sound_definite [OF s n b] show ?thesis by blast
    qed
  qed
qed

theorem any_element_iff:
  "cbs_get_any_asn1_element ber_ok s = (Some (out, tag, hl), s') \<longleftrightarrow>
     s = out @ s' \<and>
     ((\<exists>body. length body < 2 ^ 32 \<and> out = der_element tag body \<and>
         hl = length (der_header tag (length body))) \<or>
      (ber_ok \<and> tag AND CBS_ASN1_CONSTRUCTED \<noteq> 0 \<and> out = der_tag tag @ [0x80] \<and> hl = length out))"
  using any_element_sound [of ber_ok s out tag hl s'] any_element_der [of _ ber_ok tag s']
    any_element_indefinite [of s tag s' ber_ok]
  by auto

section \<open>The element readers as instances of the reader interface\<close>

lemma any_element_None:
  "cbs_get_any_asn1_element ber_ok s = (None, s') \<Longrightarrow> s' = s"
  by (simp add: cbs_get_any_asn1_element_def bindR_get_bytes Let_def
      split: option.splits prod.splits if_splits)

interpretation any_element: prefix_reader "cbs_get_any_asn1_element ber_ok" for ber_ok
proof
  fix s r s'
  assume "cbs_get_any_asn1_element ber_ok s = (r, s')"
  then show "\<exists>p. s = p @ s'"
    by (cases r) (auto dest: any_element_None any_element_sound)
next
  fix s a s' t
  assume "cbs_get_any_asn1_element ber_ok s = (Some a, s')"
  then show "cbs_get_any_asn1_element ber_ok (s @ t) = (Some a, s' @ t)"
    by (cases a) (auto simp: any_element_iff)
qed

text \<open>The tagged readers: exactly the canonical element with the wanted tag.\<close>

lemma CBS_get_any_asn1_iff:
  "CBS_get_any_asn1 s = (Some (body, tag), s') \<longleftrightarrow>
     length body < 2 ^ 32 \<and> s = der_element tag body @ s'"
proof -
  have skip: "CBS_skip (length (der_header tag (length b))) (der_element tag b) = (Some (), b)"
    for tag b
    by (simp add: CBS_skip_def cbs_get_def der_element_def bindR_def returnR_def)
  show ?thesis
  proof
    assume "CBS_get_any_asn1 s = (Some (body, tag), s')"
    then obtain out hl t where el: "cbs_get_any_asn1_element False s = (Some (out, tag, hl), t)"
      and sk: "(case CBS_skip hl out of (None, _) \<Rightarrow> failR | (Some _, o') \<Rightarrow> returnR (o', tag)) t =
        (Some (body, tag), s')"
      by (auto simp: CBS_get_any_asn1_def CBS_get_any_asn1_element_def failR_def returnR_def
          elim!: bindR_eq_SomeE split: prod.splits option.splits)
    from any_element_sound [OF el] skip sk show "length body < 2 ^ 32 \<and> s = der_element tag body @ s'"
      by (auto simp: returnR_def)
  next
    assume "length body < 2 ^ 32 \<and> s = der_element tag body @ s'"
    then show "CBS_get_any_asn1 s = (Some (body, tag), s')"
      using any_element_der [of body False tag s'] skip [of tag body]
      by (simp add: CBS_get_any_asn1_def CBS_get_any_asn1_element_def returnR_def)
  qed
qed

lemma skip_der_header: "CBS_skip (length (der_header tag (length b))) (der_element tag b) = (Some (), b)"
  by (simp add: CBS_skip_def cbs_get_def der_element_def bindR_def returnR_def)

lemma CBS_get_asn1_iff:
  "CBS_get_asn1 tag s = (Some body, s') \<longleftrightarrow> length body < 2 ^ 32 \<and> s = der_element tag body @ s'"
proof
  assume "CBS_get_asn1 tag s = (Some body, s')"
  then obtain out hl t where el: "cbs_get_any_asn1_element False s = (Some (out, tag, hl), t)"
    and sk: "(case CBS_skip hl out of (None, _) \<Rightarrow> failR | (Some _, o') \<Rightarrow> returnR o') t = (Some body, s')"
    by (auto simp: CBS_get_asn1_def cbs_get_asn1_def CBS_get_any_asn1_element_def failR_def
        elim!: bindR_eq_SomeE split: prod.splits option.splits if_splits)
  from any_element_sound [OF el] skip_der_header sk
  show "length body < 2 ^ 32 \<and> s = der_element tag body @ s'" by (auto simp: returnR_def)
next
  assume "length body < 2 ^ 32 \<and> s = der_element tag body @ s'"
  then show "CBS_get_asn1 tag s = (Some body, s')"
    using any_element_der [of body False tag s'] skip_der_header [of tag body]
    by (simp add: CBS_get_asn1_def cbs_get_asn1_def CBS_get_any_asn1_element_def returnR_def)
qed

lemma CBS_get_asn1_element_iff:
  "CBS_get_asn1_element tag s = (Some out, s') \<longleftrightarrow>
     (\<exists>body. length body < 2 ^ 32 \<and> out = der_element tag body \<and> s = out @ s')"
proof
  assume "CBS_get_asn1_element tag s = (Some out, s')"
  then obtain hl where el: "cbs_get_any_asn1_element False s = (Some (out, tag, hl), s')"
    by (auto simp: CBS_get_asn1_element_def cbs_get_asn1_def CBS_get_any_asn1_element_def reader_defs
        elim!: bindR_eq_SomeE split: if_splits)
  from any_element_sound [OF el]
  show "\<exists>body. length body < 2 ^ 32 \<and> out = der_element tag body \<and> s = out @ s'" by blast
next
  assume "\<exists>body. length body < 2 ^ 32 \<and> out = der_element tag body \<and> s = out @ s'"
  then obtain body where body: "length body < 2 ^ 32" "out = der_element tag body" "s = out @ s'" by blast
  show "CBS_get_asn1_element tag s = (Some out, s')"
    unfolding body(3) unfolding body(2)
    using any_element_der [OF body(1), of False tag s']
    by (simp add: CBS_get_asn1_element_def cbs_get_asn1_def CBS_get_any_asn1_element_def returnR_def)
qed

interpretation get_asn1: prefix_reader "CBS_get_asn1 tag" for tag
proof
  fix s r s'
  assume *: "CBS_get_asn1 tag s = (r, s')"
  show "\<exists>p. s = p @ s'"
  proof (cases "cbs_get_any_asn1_element False s")
    case (Pair v t)
    then obtain p where "s = p @ t" using any_element.drops_prefix by blast
    moreover from * Pair have "s' = t"
      by (cases v) (auto simp: CBS_get_asn1_def cbs_get_asn1_def CBS_get_any_asn1_element_def
          CBS_skip_def cbs_get_def reader_defs bindR_def split: if_splits option.splits)
    ultimately show ?thesis by blast
  qed
next
  fix s a s' t
  assume "CBS_get_asn1 tag s = (Some a, s')"
  then show "CBS_get_asn1 tag (s @ t) = (Some a, s' @ t)" by (simp add: CBS_get_asn1_iff)
qed

lemma CBS_peek_asn1_tag_iff: "CBS_peek_asn1_tag s tag \<longleftrightarrow> (\<exists>t. s = der_tag tag @ t)"
proof
  assume "CBS_peek_asn1_tag s tag"
  then obtain t where "parse_asn1_tag s = (Some tag, t)"
    by (auto simp: CBS_peek_asn1_tag_def split: option.splits prod.splits if_splits)
  then show "\<exists>t. s = der_tag tag @ t" by (auto simp: parse_asn1_tag_iff)
next
  assume "\<exists>t. s = der_tag tag @ t"
  then obtain t where t: "parse_asn1_tag s = (Some tag, t)" by (auto simp: parse_asn1_tag_iff)
  then have "s \<noteq> []" by (auto simp: parse_asn1_tag_eq)
  with t show "CBS_peek_asn1_tag s tag"
    by (cases s) (simp_all add: CBS_peek_asn1_tag_def CBS_len_def)
qed

section \<open>What the readers promise\<close>

text \<open>
  C1: \<open>CBS_get_asn1\<close> is a strict DER parser: it returns the contents \<open>body\<close> and leaves
  \<open>s'\<close> exactly when the input is the DER element of that tag (minimal tag, minimal definite
  length) with those contents, of less than 2^32 bytes, followed by \<open>s'\<close>.
\<close>

theorem CBS_get_asn1_exact:
  "CBS_get_asn1 tag s = (Some body, s') \<longleftrightarrow> length body < 2 ^ 32 \<and> s = der_element tag body @ s'"
  by (rule CBS_get_asn1_iff)

text \<open>
  C2: the element reader with BER allowed returns exactly the DER elements and, for a
  constructed tag, the header of an indefinite-length element; with BER not allowed, exactly
  the DER elements. The header length it reports is the length of the tag and length bytes: for an
  indefinite-length element one more than the length of the tag, which is two for tag numbers up to
  30 and more above, where \<open>bytestring.h\<close> promises two for all of them.
\<close>

theorem cbs_get_any_asn1_element_exact:
  "cbs_get_any_asn1_element ber_ok s = (Some (out, tag, hl), s') \<longleftrightarrow>
     s = out @ s' \<and>
     ((\<exists>body. length body < 2 ^ 32 \<and> out = der_element tag body \<and>
         hl = length (der_header tag (length body))) \<or>
      (ber_ok \<and> tag AND CBS_ASN1_CONSTRUCTED \<noteq> 0 \<and> out = der_tag tag @ [0x80] \<and> hl = length out))"
  by (rule any_element_iff)

lemma indefinite_high_tag:
  "cbs_get_any_asn1_element True [0x3f, 0x1f, 0x80] = (Some ([0x3f, 0x1f, 0x80], 0x2000001f, 3), [])"
  by code_simp

text \<open>
  Elements cannot be confused. If one input starts with two complete elements, one
  consumed by a call that ends at the end of \<open>p\<close> and one by a call on a longer input \<open>p @ q\<close>
  that consumes all of it, nothing was appended and the two results agree.
\<close>

theorem asn1_elements_prefix_free:
  assumes "cbs_get_any_asn1_element ber_ok p = (Some a, [])"
    and "cbs_get_any_asn1_element ber_ok (p @ q) = (Some b, [])"
  shows "q = [] \<and> a = b"
  using assms by (rule any_element.prefix_free)

theorem asn1_elements_prefix_free_witness:
  "cbs_get_any_asn1_element False [0x02, 1, 7] = (Some ([0x02, 1, 7], 2, 2), []) \<and>
   ([] :: bytes) = [] \<and> ([0x02, 1, 7], 2, 2) = ([0x02 :: u8, 1, 7], 2 :: u32, 2 :: nat)"
proof -
  have e: "cbs_get_any_asn1_element False [0x02, 1, 7] = (Some ([0x02, 1, 7], 2, 2), [])"
    by code_simp
  from asn1_elements_prefix_free [OF e, of "[]"] e show ?thesis by simp
qed

end
