(* ===== verification/DER_Values.thy ===== *)
theory DER_Values
  imports DER
begin

text \<open>
  INTEGER, BOOLEAN and optional fields: the value readers of \<open>cbs.c\<close> accept exactly the
  minimal two's-complement encoding of a value in range.
\<close>

section \<open>Minimal two's complement\<close>

function der_int :: "int \<Rightarrow> bytes" where
  "der_int z =
     (if - 128 \<le> z \<and> z < 128 then [] else der_int (z div 256)) @ [word_of_int z]"
  by pat_completeness auto
termination by (relation "measure (\<lambda>z. nat \<bar>z\<bar>)") auto

declare der_int.simps [simp del]

definition be_int :: "bytes \<Rightarrow> int" where
  "be_int bs = (if bs = [] then 0 else sint (hd bs) * 256 ^ (length bs - 1) + int (be_nat (tl bs)))"

definition minimal_int :: "bytes \<Rightarrow> bool" where
  "minimal_int bs \<longleftrightarrow>
     bs \<noteq> [] \<and>
     (1 < length bs \<longrightarrow>
        \<not> (bs ! 0 = 0 \<and> bs ! 1 AND 0x80 = 0) \<and> \<not> (bs ! 0 = 0xff \<and> bs ! 1 AND 0x80 \<noteq> 0))"

lemma be_int_single [simp]: "be_int [b] = sint b"
  by (simp add: be_int_def)

lemma be_int_snoc: "bs \<noteq> [] \<Longrightarrow> be_int (bs @ [b]) = be_int bs * 256 + int (unat b)"
  by (cases bs) (simp_all add: be_int_def algebra_simps)

lemma sint_byte: "sint (b :: u8) = (if unat b < 128 then int (unat b) else int (unat b) - 256)"
proof -
  have "sint b = sint (word_of_int (int (unat b)) :: u8)" by simp
  also have "\<dots> = (int (unat b) + 128) mod 256 - 128"
    unfolding int_word_sint by (simp del: of_nat_unat)
  also have "\<dots> = (if unat b < 128 then int (unat b) else int (unat b) - 256)"
  proof -
    obtain u where u: "u = int (unat b)" "0 \<le> u" "u < 256" "unat b < 128 \<longleftrightarrow> u < 128"
      using unat_byte_lt [of b] by (simp del: of_nat_unat unat_byte_lt)
    have "(u + 128) mod 256 - 128 = (if u < 128 then u else u - 256)"
    proof (cases "u < 128")
      case False
      have "u + 128 = (u - 128) + 256" by simp
      then have "(u + 128) mod 256 = ((u - 128) + 256) mod 256" by (simp only:)
      also have "\<dots> = u - 128" unfolding mod_add_self2 using False u by simp
      finally show ?thesis using False by simp
    qed (use u in simp)
    then show ?thesis using u(4) by (simp only: u(1) [symmetric])
  qed
  finally show ?thesis .
qed

lemma uint_byte_range [simp]: "0 \<le> int (unat (b :: u8))" "int (unat b) < 256"
  using unat_byte_lt [of b] by (simp_all del: unat_byte_lt of_nat_unat)

lemma sint_byte_range: "- 128 \<le> sint (b :: u8)" "sint b < 128"
  using unat_byte_lt [of b] unfolding sint_byte
  by (simp_all split: if_splits del: of_nat_unat unat_byte_lt)

lemma minimal_int_snoc:
  "minimal_int (bs @ [b]) \<Longrightarrow> bs \<noteq> [] \<Longrightarrow> minimal_int bs"
  by (auto simp: minimal_int_def nth_append)

lemma minimal_int_two:
  assumes "minimal_int [a, b]"
  shows "\<not> (sint a = 0 \<and> unat b < 128)" "\<not> (sint a = -1 \<and> 128 \<le> unat b)"
proof -
  have "a = 0xff" if "sint a = - 1"
  proof -
    from that have "unat a = 255" by (auto simp: sint_byte split: if_splits simp del: of_nat_unat)
    then have "unat a = unat (0xff :: u8)" by simp
    then show ?thesis by (simp only: word_unat_eq_iff)
  qed
  with assms show "\<not> (sint a = 0 \<and> unat b < 128)" "\<not> (sint a = -1 \<and> 128 \<le> unat b)"
    by (auto simp: minimal_int_def and_0x80_eq_0)
qed

text \<open>A minimal encoding of two or more bytes is outside the range of one byte.\<close>

lemma minimal_int_range:
  "minimal_int bs \<Longrightarrow> 2 \<le> length bs \<Longrightarrow> be_int bs < - 128 \<or> 128 \<le> be_int bs"
proof (induction bs rule: rev_induct)
  case (snoc b bs)
  then have ne: "bs \<noteq> []" by auto
  note step = be_int_snoc [OF ne, of b]
  show ?case
  proof (cases "length bs = 1")
    case True
    then obtain a where bs: "bs = [a]" by (cases bs) auto
    with snoc.prems have "minimal_int [a, b]" by simp
    note two = minimal_int_two [OF this]
    have "sint a \<noteq> 0 \<or> 128 \<le> int (unat b)" "sint a \<noteq> - 1 \<or> int (unat b) < 128"
      using two by (auto simp del: of_nat_unat)
    with step uint_byte_range [of b] show ?thesis unfolding bs be_int_single by linarith
  next
    case False
    with ne have "2 \<le> length bs" by (cases "length bs") auto
    with snoc have "be_int bs < - 128 \<or> 128 \<le> be_int bs" using minimal_int_snoc ne by blast
    with step uint_byte_range [of b] show ?thesis by linarith
  qed
qed simp

lemma word_of_int_byte [simp]: "word_of_int z * 256 + word_of_nat (unat b) = (b :: u8)"
proof -
  have z: "(256 :: u8) = 0" by simp
  show ?thesis unfolding z by simp
qed

lemma der_int_be_int: "minimal_int bs \<Longrightarrow> der_int (be_int bs) = bs"
proof (induction bs rule: rev_induct)
  case Nil
  then show ?case by (simp add: minimal_int_def)
next
  case (snoc b bs)
  show ?case
  proof (cases "bs = []")
    case True
    with sint_byte_range [of b] show ?thesis by (simp add: der_int.simps)
  next
    case ne: False
    have step: "be_int (bs @ [b]) = be_int bs * 256 + int (unat b)" by (rule be_int_snoc [OF ne])
    have out: "be_int (bs @ [b]) < - 128 \<or> 128 \<le> be_int (bs @ [b])"
      using minimal_int_range [OF snoc.prems] ne by (cases bs) auto
    have dv: "be_int (bs @ [b]) div 256 = be_int bs"
      unfolding step using uint_byte_range [of b] by (simp del: of_nat_unat)
    have "der_int (be_int bs) = bs" using snoc.IH minimal_int_snoc [OF snoc.prems ne] by blast
    with out dv show ?thesis
      unfolding der_int.simps [of "be_int (bs @ [b])"] dv
      by (auto simp: step simp del: of_nat_unat)
  qed
qed

lemma minimal_int_der_int: "minimal_int (der_int z) \<and> be_int (der_int z) = z"
proof (induction z rule: der_int.induct)
  case (1 z)
  show ?case
  proof (cases "- 128 \<le> z \<and> z < 128")
    case True
    have "sint (word_of_int z :: u8) = z"
      using True unfolding int_word_sint by simp
    with True show ?thesis by (simp add: der_int.simps [of z] minimal_int_def)
  next
    case False
    let ?d = "der_int (z div 256)" and ?b = "word_of_int z :: u8"
    from 1 False have IH: "minimal_int ?d" "be_int ?d = z div 256" by auto
    have ne: "?d \<noteq> []" by (simp add: der_int.simps)
    have d: "der_int z = ?d @ [?b]" using False by (auto simp add: der_int.simps [of z])
    have b: "int (unat ?b) = z mod 256" by (simp add: uint_word_of_int_eq take_bit_eq_mod)
    have val: "be_int (der_int z) = z"
      unfolding d be_int_snoc [OF ne] IH(2) b by simp
    have "minimal_int (?d @ [?b])"
    proof (cases "length ?d = 1")
      case True
      then obtain a where a: "?d = [a]" by (cases ?d) auto
      then have "sint a = z div 256" using IH(2) by simp
      then have "\<not> (a = 0 \<and> z mod 256 < 128)" "\<not> (a = 0xff \<and> 128 \<le> z mod 256)"
        using False by (auto; presburger)+
      then show ?thesis using b
        by (auto simp: a minimal_int_def and_0x80_eq_0 simp flip: of_nat_less_iff [where 'a = int])
    next
      case False
      with ne IH(1) show ?thesis by (cases ?d) (auto simp: minimal_int_def nth_append nth_Cons')
    qed
    with val d show ?thesis by simp
  qed
qed

section \<open>The value readers\<close>

lemma asn1_uint64_loop_eq:
  "asn1_uint64_loop r bs =
     (if unat r * 256 ^ length bs + be_nat bs < 2 ^ 64
      then Some (word_of_nat (unat r * 256 ^ length bs + be_nat bs)) else None)"
proof (induction bs arbitrary: r)
  case Nil
  have "unat r < 2 ^ 64" using unsigned_less [of r] by simp
  then show ?case by simp
next
  case (Cons b bs)
  show ?case
  proof (cases "unat r < 2 ^ 56")
    case True
    have "unat r * 256 + unat b < 2 ^ 64" using True unat_byte_lt [of b] by (simp del: unat_byte_lt)
    then have "unat (push_bit 8 r OR ucast b) = unat r * 256 + unat b"
      unfolding unat_push_or by simp
    with True show ?thesis
      by (simp add: drop_bit_eq_0_iff Cons.IH be_nat_Cons algebra_simps)
  next
    case False
    then have "2 ^ 56 * 256 \<le> unat r * 256" by (intro mult_le_mono1) simp
    moreover have "unat r * 256 * 1 \<le> unat r * 256 * 256 ^ length bs" by (intro mult_le_mono2) simp
    ultimately have "2 ^ 56 * 256 \<le> unat r * 256 * 256 ^ length bs" by linarith
    then have "\<not> unat r * 256 ^ length (b # bs) + be_nat (b # bs) < 2 ^ 64"
      by (simp add: mult.assoc)
    with False show ?thesis by (simp add: drop_bit_eq_0_iff)
  qed
qed

lemma be_int_nonneg:
  assumes "bs \<noteq> []" "bs ! 0 AND 0x80 = 0"
  shows "be_int bs = int (be_nat bs)"
  using assms by (cases bs) (simp_all add: be_int_def be_nat_Cons sint_byte and_0x80_eq_0 del: of_nat_unat)

lemma be_int_negative:
  assumes "bs \<noteq> []" "bs ! 0 AND 0x80 \<noteq> 0"
  shows "be_int bs = int (be_nat bs) - 256 ^ length bs"
  using assms
  by (cases bs) (simp_all add: be_int_def be_nat_Cons sint_byte and_0x80_eq_0 left_diff_distrib
      del: of_nat_unat)

lemma be_int_sign:
  assumes "bs \<noteq> []"
  shows "0 \<le> be_int bs \<longleftrightarrow> bs ! 0 AND 0x80 = 0"
proof (cases "bs ! 0 AND 0x80 = 0")
  case True
  with assms show ?thesis by (simp add: be_int_nonneg)
next
  case False
  have "int (be_nat bs) < int (256 ^ length bs)" using be_nat_less [of bs] by (simp only: of_nat_less_iff)
  with be_int_negative [OF assms False] False show ?thesis by simp
qed

definition der_integer :: "int \<Rightarrow> bytes" where
  "der_integer z = der_element CBS_ASN1_INTEGER (der_int z)"

lemma der_int_not_Nil [simp]: "der_int z \<noteq> []"
  by (simp add: der_int.simps [of z])

lemma der_int_sign: "der_int z ! 0 AND 0x80 = 0 \<longleftrightarrow> 0 \<le> z"
  using be_int_sign [of "der_int z"] minimal_int_der_int [of z] by simp

lemma length_der_int: "- (2 ^ (8 * k + 7)) \<le> z \<Longrightarrow> z < 2 ^ (8 * k + 7) \<Longrightarrow> length (der_int z) \<le> Suc k"
proof (induction k arbitrary: z)
  case 0
  then show ?case by (simp add: der_int.simps [of z])
next
  case (Suc k)
  have p: "(2 :: int) ^ (8 * Suc k + 7) = 2 ^ (8 * k + 7) * 256" by (simp add: power_add)
  have "- (2 ^ (8 * k + 7)) \<le> z div 256" "z div 256 < 2 ^ (8 * k + 7)"
    using Suc.prems unfolding p by linarith+
  from Suc.IH [OF this] show ?case by (simp add: der_int.simps [of z])
qed

lemma minimal_int_cases:
  "minimal_int bs \<longleftrightarrow> bs \<noteq> [] \<and>
     \<not> (bs ! 0 = 0 \<and> length bs > 1 \<and> bs ! 1 AND 0x80 = 0) \<and>
     \<not> (length bs > 1 \<and> bs ! 0 = 0xff \<and> bs ! 1 AND 0x80 \<noteq> 0)"
  by (auto simp: minimal_int_def)

lemma high_bit_ff: "(0xff :: u8) AND 0x80 \<noteq> 0"
  by simp

text \<open>
  \<open>CBS_get_asn1_uint64\<close> accepts exactly the minimal encodings of the values below \<open>2 ^ 64\<close>.
\<close>

lemma CBS_get_asn1_uint64_iff:
  "CBS_get_asn1_uint64 s = (Some v, s') \<longleftrightarrow> s = der_integer (int (unat v)) @ s'"
proof
  assume "CBS_get_asn1_uint64 s = (Some v, s')"
  then obtain bs t where bs: "CBS_get_asn1 CBS_ASN1_INTEGER s = (Some bs, t)"
    and c: "bs \<noteq> []" "bs ! 0 AND 0x80 = 0" "\<not> (bs ! 0 = 0 \<and> length bs > 1 \<and> bs ! 1 AND 0x80 = 0)"
      "asn1_uint64_loop 0 bs = Some v" "t = s'"
    by (auto simp: CBS_get_asn1_uint64_def Let_def CBS_data_def CBS_len_def reader_defs
        elim!: bindR_eq_SomeE split: if_splits option.splits)
  from c(4) have v: "be_nat bs < 2 ^ 64" "v = word_of_nat (be_nat bs)"
    by (simp_all add: asn1_uint64_loop_eq split: if_splits)
  then have "int (unat v) = be_int bs" using c by (simp add: be_int_nonneg unat_of_nat del: of_nat_unat)
  moreover have "minimal_int bs" using c(1-3) high_bit_ff by (auto simp: minimal_int_cases)
  ultimately have "der_int (int (unat v)) = bs" by (simp only: der_int_be_int)
  with bs c(5) show "s = der_integer (int (unat v)) @ s'"
    unfolding der_integer_def CBS_get_asn1_iff by simp
next
  assume s: "s = der_integer (int (unat v)) @ s'"
  let ?bs = "der_int (int (unat v))"
  have m: "minimal_int ?bs" "be_int ?bs = int (unat v)" using minimal_int_der_int by blast+
  have v64: "unat v < 2 ^ 64" using unsigned_less [of v] by simp
  then have "int (unat v) < 2 ^ 64" by (metis of_nat_less_iff of_nat_numeral of_nat_power)
  then have "length ?bs \<le> Suc 8" by (intro length_der_int) (simp_all del: of_nat_unat)
  then have bs: "CBS_get_asn1 CBS_ASN1_INTEGER s = (Some ?bs, s')"
    using s by (simp add: CBS_get_asn1_iff der_integer_def)
  have pos: "?bs ! 0 AND 0x80 = 0" unfolding der_int_sign by simp
  have nat: "be_nat ?bs = unat v" using be_int_nonneg [OF der_int_not_Nil pos] m(2) by linarith
  then have "asn1_uint64_loop 0 ?bs = Some v" using v64 by (simp add: asn1_uint64_loop_eq)
  with bs pos m(1) show "CBS_get_asn1_uint64 s = (Some v, s')"
    unfolding minimal_int_cases
    by (auto simp: CBS_get_asn1_uint64_def Let_def CBS_data_def CBS_len_def reader_defs)
qed

text \<open>
  \<open>CBS_get_asn1_int64\<close> accepts exactly the minimal encodings of the values of an \<open>int64_t\<close>.
\<close>

lemma u_bytes_value:
  assumes "bs \<noteq> []" "length bs \<le> 8"
  shows "word_of_nat (be_nat (rev (store_at (replicate 8 (if bs ! 0 AND 0x80 \<noteq> 0 then 0xff else 0)) 0
      (map (\<lambda>i. bs ! (length bs - i - 1)) [0..<length bs])))) = (word_of_int (be_int bs) :: u64)"
proof -
  let ?x = "if bs ! 0 AND 0x80 \<noteq> 0 then 0xff else 0 :: u8" and ?n = "length bs"
  have "map (\<lambda>i. bs ! (?n - i - 1)) [0..<?n] = rev bs"
    by (rule nth_equalityI) (simp_all add: rev_nth)
  then have u: "rev (store_at (replicate 8 ?x) 0 (map (\<lambda>i. bs ! (?n - i - 1)) [0..<?n])) =
      replicate (8 - ?n) ?x @ bs"
    by (simp add: store_at_def)
  have zero: "be_nat (replicate k 0) = 0" for k by (induction k) (simp_all add: be_nat_Cons)
  have ff: "int (be_nat (replicate k 0xff)) = 256 ^ k - 1" for k
  proof (induction k)
    case (Suc k)
    have "int (unat (0xff :: u8)) = 255" by simp
    with Suc show ?case
      unfolding replicate.simps be_nat_Cons of_nat_add of_nat_mult by simp
  qed simp
  have pow: "(256 :: int) ^ (8 - ?n) * 256 ^ ?n = 256 ^ 8"
    using assms(2) by (simp add: power_add [symmetric])
  show ?thesis
  proof (cases "bs ! 0 AND 0x80 = 0")
    case True
    then show ?thesis unfolding u using assms(1)
      by (simp add: be_nat_append zero be_int_nonneg)
  next
    case False
    have "int (be_nat (replicate (8 - ?n) 0xff @ bs)) = 256 ^ 8 + be_int bs"
      unfolding be_nat_append of_nat_add of_nat_mult ff be_int_negative [OF assms(1) False]
      by (simp add: left_diff_distrib pow)
    moreover have "(word_of_int (256 ^ 8 + be_int bs) :: u64) = word_of_int (be_int bs)"
    proof -
      have z: "(18446744073709551616 :: u64) = 0" by simp
      show ?thesis by (simp add: z)
    qed
    ultimately have "(word_of_int (int (be_nat (replicate (8 - ?n) 0xff @ bs))) :: u64) =
        word_of_int (be_int bs)" by (simp only:)
    then show ?thesis unfolding u unfolding if_P [OF False] of_int_of_nat_eq .
  qed
qed

lemma be_int_range:
  assumes "bs \<noteq> []" "length bs \<le> 8"
  shows "- (2 ^ 63) \<le> be_int bs" "be_int bs < 2 ^ 63"
proof -
  obtain b cs where bs: "bs = b # cs" using assms(1) by (cases bs) auto
  have c: "int (be_nat cs) < 256 ^ length cs"
    using be_nat_less [of cs] by (metis of_nat_less_iff of_nat_numeral of_nat_power)
  have v: "be_int bs = sint b * 256 ^ length cs + int (be_nat cs)" by (simp add: bs be_int_def)
  have p: "(256 :: int) ^ length cs \<le> 256 ^ 7" using assms(2) by (intro power_increasing) (simp_all add: bs)
  have "- 128 * 256 ^ length cs \<le> sint b * 256 ^ length cs"
    using sint_byte_range [of b] by (intro mult_right_mono) simp_all
  then have "- (128 * 256 ^ 7) \<le> be_int bs" unfolding v using p by linarith
  moreover have "sint b * 256 ^ length cs \<le> 127 * 256 ^ length cs"
    using sint_byte_range [of b] by (intro mult_right_mono) simp_all
  then have "be_int bs < 128 * 256 ^ 7" unfolding v using c p by linarith
  ultimately show "- (2 ^ 63) \<le> be_int bs" "be_int bs < 2 ^ 63" by simp_all
qed

lemma CBS_get_asn1_int64_iff:
  "CBS_get_asn1_int64 s = (Some w, s') \<longleftrightarrow> s = der_integer (sint w) @ s'"
proof
  assume "CBS_get_asn1_int64 s = (Some w, s')"
  then obtain bs where bs: "CBS_get_asn1 CBS_ASN1_INTEGER s = (Some bs, s')"
    and len: "bs \<noteq> []" "length bs \<le> 8" and m: "minimal_int bs"
    and w: "w = word_of_nat (be_nat (rev (store_at (replicate 8 (if bs ! 0 AND 0x80 \<noteq> 0 then 0xff else 0)) 0
      (map (\<lambda>i. bs ! (length bs - i - 1)) [0..<length bs]))))"
    by (auto simp: CBS_get_asn1_int64_def Let_def CBS_data_def CBS_len_def reader_defs minimal_int_cases
        simp del: if_not_P elim!: bindR_eq_SomeE split: if_split_asm)
  have w: "w = word_of_int (be_int bs)" using w unfolding u_bytes_value [OF len] .
  have "sint w = be_int bs"
  proof -
    have range: "- (2 ^ 63) \<le> be_int bs" "be_int bs < 2 ^ 63" using be_int_range [OF len] by simp_all
    show ?thesis unfolding w int_word_sint using range by simp
  qed
  then have "der_int (sint w) = bs" using m by (simp add: der_int_be_int)
  with bs show "s = der_integer (sint w) @ s'" unfolding der_integer_def CBS_get_asn1_iff by simp
next
  assume s: "s = der_integer (sint w) @ s'"
  let ?bs = "der_int (sint w)"
  have m: "minimal_int ?bs" "be_int ?bs = sint w" using minimal_int_der_int by blast+
  have "- (2 ^ 63) \<le> sint w" "sint w < 2 ^ 63" using sint_ge [of w] sint_lt [of w] by simp_all
  then have len: "length ?bs \<le> 8" using length_der_int [of 7 "sint w"] by simp
  then have bs: "CBS_get_asn1 CBS_ASN1_INTEGER s = (Some ?bs, s')"
    using s by (simp add: CBS_get_asn1_iff der_integer_def)
  have "word_of_int (be_int ?bs) = w" by (simp add: m(2))
  with bs len m(1) u_bytes_value [OF der_int_not_Nil len] show "CBS_get_asn1_int64 s = (Some w, s')"
    unfolding minimal_int_cases
    by (auto simp: CBS_get_asn1_int64_def Let_def CBS_data_def CBS_len_def reader_defs)
qed

section \<open>What the value readers promise\<close>

text \<open>
  C3: \<open>CBS_get_asn1_uint64\<close> accepts exactly the DER INTEGERs (minimal two's complement) whose
  value is between 0 and 2^64 - 1, and returns that value.
\<close>

theorem CBS_get_asn1_uint64_exact:
  "CBS_get_asn1_uint64 s = (Some v, s') \<longleftrightarrow> s = der_integer (int (unat v)) @ s'"
  by (rule CBS_get_asn1_uint64_iff)

text \<open>
  C4: \<open>CBS_get_asn1_int64\<close> accepts exactly the DER INTEGERs whose value is between -2^63 and
  2^63 - 1, and returns that value, sign-extended to 64 bits.
\<close>

theorem CBS_get_asn1_int64_exact:
  "CBS_get_asn1_int64 s = (Some w, s') \<longleftrightarrow> s = der_integer (sint w) @ s'"
  by (rule CBS_get_asn1_int64_iff)

end
