(* ===== verification/CBB.thy ===== *)
theory CBB
  imports CBS
begin

text \<open>
  \<open>crypto/bytestring/cbb.c\<close>, the writer. All CBBs of one builder share the buffer \<open>base\<close>; a
  CBB may have one child, whose contents will be preceded by a length that is filled in when
  the parent is flushed. The state an operation sees is the pair of the buffer (\<open>None\<close> when
  \<open>base\<close> is \<open>NULL\<close>) and the CBB it is called on; the CBB holds its child, and its child's
  child, by value. When a child is detached its \<open>base\<close> becomes \<open>NULL\<close>, so that later calls on
  it fail: \<open>on_child\<close> is a call on the child and fails when there is none.
\<close>

record cbb_buffer =
  b_buf :: "bytes option"
  b_len :: nat
  b_cap :: nat
  b_can_resize :: bool
  b_error :: bool

datatype cbb =
  CBB (c_child: "cbb option") (c_offset: nat) (c_pending_len_len: nat)
    (c_pending_is_asn1: bool) (c_is_child: bool)

type_synonym cbb_state = "cbb_buffer option \<times> cbb"

definition CBB_zero :: cbb_state where
  "CBB_zero = (None, CBB None 0 0 False False)"

definition blk :: "cbb_buffer \<Rightarrow> bytes" where
  "blk b = (case b_buf b of None \<Rightarrow> [] | Some p \<Rightarrow> p)"

definition set_error :: "cbb_buffer option \<Rightarrow> cbb_buffer option" where
  "set_error base = map_option (\<lambda>b. b\<lparr>b_error := True\<rparr>) base"

section \<open>Creating a builder\<close>

text \<open>\<open>base_ok\<close> tells whether the allocation of the small buffer header succeeds.\<close>

definition cbb_init :: "bool \<Rightarrow> bytes option \<Rightarrow> nat \<Rightarrow> (cbb_state, unit) reader" where
  "cbb_init base_ok p cap st =
     (if \<not> base_ok then (None, st)
      else (Some (),
        (Some \<lparr>b_buf = p, b_len = 0, b_cap = cap, b_can_resize = True, b_error = False\<rparr>,
         case snd st of CBB ch off pll asn _ \<Rightarrow> CBB ch off pll asn False)))"

definition CBB_init :: "allocator \<Rightarrow> bool \<Rightarrow> nat \<Rightarrow> (cbb_state, unit) reader" where
  "CBB_init malloc base_ok initial_capacity st =
     (let p = OPENSSL_malloc malloc initial_capacity in
      if initial_capacity > 0 \<and> p = None then (None, CBB_zero)
      else cbb_init base_ok p initial_capacity CBB_zero)"

definition CBB_init_fixed :: "bool \<Rightarrow> bytes \<Rightarrow> nat \<Rightarrow> (cbb_state, unit) reader" where
  "CBB_init_fixed base_ok p len st =
     (case cbb_init base_ok (Some p) len CBB_zero of
        (None, st) \<Rightarrow> (None, st)
      | (Some _, (base, c)) \<Rightarrow> (Some (), (map_option (\<lambda>b. b\<lparr>b_can_resize := False\<rparr>) base, c)))"

definition CBB_cleanup :: "cbb_state \<Rightarrow> cbb_state" where
  "CBB_cleanup st = (if c_is_child (snd st) then st else (None, snd st))"

section \<open>The buffer\<close>

text \<open>The result is the offset \<open>*out\<close> points at.\<close>

definition cbb_buffer_reserve :: "allocator \<Rightarrow> nat \<Rightarrow> (cbb_buffer option, nat) reader" where
  "cbb_buffer_reserve malloc n base =
     (case base of
        None \<Rightarrow> (None, None)
      | Some b \<Rightarrow>
          let newlen = (b_len b + n) mod SIZE_LIMIT in
          if newlen < b_len b then (None, set_error (Some b))
          else if newlen > b_cap b then
            let newcap = (b_cap b * 2) mod SIZE_LIMIT in
            if \<not> b_can_resize b then (None, set_error (Some b))
            else
              let newcap = (if newcap < b_cap b \<or> newcap < newlen then newlen else newcap) in
              (case OPENSSL_realloc malloc (b_buf b) newcap of
                 None \<Rightarrow> (None, set_error (Some b))
               | Some newbuf \<Rightarrow>
                   (Some (b_len b), Some (b\<lparr>b_buf := Some newbuf, b_cap := newcap\<rparr>)))
          else (Some (b_len b), Some b))"

definition cbb_buffer_add :: "allocator \<Rightarrow> nat \<Rightarrow> (cbb_buffer option, nat) reader" where
  "cbb_buffer_add malloc n base =
     (case cbb_buffer_reserve malloc n base of
        (Some p, Some b) \<Rightarrow> (Some p, Some (b\<lparr>b_len := b_len b + n\<rparr>))
      | (_, base) \<Rightarrow> (None, base))"

definition poke :: "nat \<Rightarrow> bytes \<Rightarrow> cbb_buffer \<Rightarrow> cbb_buffer" where
  "poke p bs b = b\<lparr>b_buf := map_option (\<lambda>m. store_at m p bs) (b_buf b)\<rparr>"

text \<open>The loop that stores a number, last byte first; it returns what is left of the number.\<close>

fun store_be_loop :: "nat \<Rightarrow> nat \<Rightarrow> nat \<Rightarrow> cbb_buffer \<Rightarrow> cbb_buffer \<times> nat" where
  "store_be_loop 0 v p b = (b, v)"
| "store_be_loop (Suc i) v p b = store_be_loop i (v div 256) p (poke (p + i) [word_of_nat v] b)"

definition cbb_buffer_add_u :: "allocator \<Rightarrow> u64 \<Rightarrow> nat \<Rightarrow> (cbb_buffer option, unit) reader" where
  "cbb_buffer_add_u malloc v len_len base =
     (if len_len = 0 then (Some (), base)
      else case cbb_buffer_add malloc len_len base of
             (Some p, Some b) \<Rightarrow>
               (case store_be_loop len_len (unat v) p b of
                  (b, rest) \<Rightarrow> if rest \<noteq> 0 then (None, set_error (Some b)) else (Some (), Some b))
           | (_, base) \<Rightarrow> (None, base))"

section \<open>Flushing\<close>

text \<open>
  \<open>asn1_len_len len\<close> is the number of length bytes and the first of them; the rest of the
  length is what is still to be stored in the bytes after it.
\<close>

definition asn1_len_len :: "nat \<Rightarrow> nat \<times> u8 \<times> nat" where
  "asn1_len_len len =
     (if len > 0xffffff then (5, 0x80 OR 4, len)
      else if len > 0xffff then (4, 0x80 OR 3, len)
      else if len > 0xff then (3, 0x80 OR 2, len)
      else if len > 0x7f then (2, 0x80 OR 1, len)
      else (1, word_of_nat len, 0))"

definition memmove_up :: "nat \<Rightarrow> nat \<Rightarrow> nat \<Rightarrow> cbb_buffer \<Rightarrow> cbb_buffer" where
  "memmove_up child_start extra n b = poke (child_start + extra) (take n (drop child_start (blk b))) b"

text \<open>Writes out the pending length of a child whose own children are flushed.\<close>

definition write_prefix :: "allocator \<Rightarrow> cbb \<Rightarrow> (cbb_buffer option, unit) reader" where
  "write_prefix malloc ch base =
     (case base of
        None \<Rightarrow> (None, None)
      | Some b \<Rightarrow>
          let child_start = (c_offset ch + c_pending_len_len ch) mod SIZE_LIMIT in
          if child_start < c_offset ch \<or> b_len b < child_start then (None, set_error base)
          else
            let len = b_len b - child_start in
            if c_pending_is_asn1 ch then
              if len > 0xfffffffe then (None, set_error base)
              else
                (case asn1_len_len len of
                   (len_len, initial_length_byte, len') \<Rightarrow>
                     let extra_bytes = len_len - 1 in
                     (case (if len_len \<noteq> 1
                            then (case cbb_buffer_add malloc extra_bytes base of
                                    (Some p, Some b) \<Rightarrow>
                                      (Some (), Some (memmove_up child_start extra_bytes len b))
                                  | (_, base) \<Rightarrow> (None, base))
                            else (Some (), base)) of
                        (Some _, Some b) \<Rightarrow>
                          (case store_be_loop (len_len - 1) len' (c_offset ch + 1)
                                  (poke (c_offset ch) [initial_length_byte] b) of
                             (b, rest) \<Rightarrow>
                               if rest \<noteq> 0 then (None, set_error (Some b)) else (Some (), Some b))
                      | (_, base) \<Rightarrow> (None, set_error base)))
            else
              (case store_be_loop (c_pending_len_len ch) len (c_offset ch) b of
                 (b, rest) \<Rightarrow> if rest \<noteq> 0 then (None, set_error (Some b)) else (Some (), Some b)))"

text \<open>
  \<open>CBB_flush\<close> recurses into the child, which itself may have pending children. On success
  the child is detached.
\<close>

fun flush :: "allocator \<Rightarrow> cbb_buffer option \<Rightarrow> cbb \<Rightarrow> unit option \<times> cbb_state" where
  "flush malloc None c = (None, (None, c))"
| "flush malloc (Some b) (CBB ch off pll asn ic) =
     (if b_error b then (None, (Some b, CBB ch off pll asn ic))
      else case ch of
             None \<Rightarrow> (Some (), (Some b, CBB ch off pll asn ic))
           | Some child \<Rightarrow>
               if c_pending_len_len child = 0 then (Some (), (Some b, CBB ch off pll asn ic))
               else
                 (case flush malloc (Some b) child of
                    (None, (base, child)) \<Rightarrow> (None, (set_error base, CBB (Some child) off pll asn ic))
                  | (Some _, (base, child)) \<Rightarrow>
                      (case write_prefix malloc child base of
                         (None, base) \<Rightarrow> (None, (base, CBB (Some child) off pll asn ic))
                       | (Some _, base) \<Rightarrow> (Some (), (base, CBB None off pll asn ic)))))"

definition CBB_flush :: "allocator \<Rightarrow> (cbb_state, unit) reader" where
  "CBB_flush malloc st = flush malloc (fst st) (snd st)"

text \<open>An operation on the shared buffer, from the CBB it is called on.\<close>

definition on_base :: "(cbb_buffer option, 'a) reader \<Rightarrow> (cbb_state, 'a) reader" where
  "on_base f st = (case f (fst st) of (r, base) \<Rightarrow> (r, (base, snd st)))"

definition set_child :: "cbb option \<Rightarrow> cbb \<Rightarrow> cbb" where
  "set_child ch c = CBB ch (c_offset c) (c_pending_len_len c) (c_pending_is_asn1 c) (c_is_child c)"

definition on_child :: "(cbb_state, 'a) reader \<Rightarrow> (cbb_state, 'a) reader" where
  "on_child f st =
     (case c_child (snd st) of
        None \<Rightarrow> (None, st)
      | Some ch \<Rightarrow> (case f (fst st, ch) of (r, (base, ch)) \<Rightarrow> (r, (base, set_child (Some ch) (snd st)))))"

section \<open>Finishing and reading back\<close>

text \<open>
  \<open>want_data\<close> and \<open>want_len\<close> tell whether the out-pointers are non-\<open>NULL\<close>. The result is
  the buffer and the number of bytes in it.
\<close>

definition CBB_finish :: "allocator \<Rightarrow> bool \<Rightarrow> bool \<Rightarrow> (cbb_state, bytes option \<times> nat) reader" where
  "CBB_finish malloc want_data want_len st =
     (if c_is_child (snd st) then (None, st)
      else case CBB_flush malloc st of
             (Some _, (Some b, c)) \<Rightarrow>
               if b_can_resize b \<and> (\<not> want_data \<or> \<not> want_len) then (None, (Some b, c))
               else (Some (b_buf b, b_len b), CBB_cleanup (Some (b\<lparr>b_buf := None\<rparr>), c))
           | (_, st) \<Rightarrow> (None, st))"

definition CBB_data :: "cbb_state \<Rightarrow> bytes" where
  "CBB_data st =
     (case fst st of None \<Rightarrow> [] | Some b \<Rightarrow> drop (c_offset (snd st) + c_pending_len_len (snd st)) (blk b))"

definition CBB_len :: "cbb_state \<Rightarrow> nat" where
  "CBB_len st =
     (case fst st of None \<Rightarrow> 0 | Some b \<Rightarrow> b_len b - c_offset (snd st) - c_pending_len_len (snd st))"

text \<open>\<open>crypto/bytestring/asn1_compat.c\<close>: the length, and the bytes copied out when \<open>outp\<close> is given.\<close>

definition CBB_finish_i2d :: "allocator \<Rightarrow> bool \<Rightarrow> cbb_state \<Rightarrow> (int \<times> bytes option) \<times> cbb_state" where
  "CBB_finish_i2d malloc want st =
     (case CBB_finish malloc True True st of
        (None, st) \<Rightarrow> ((- 1, None), CBB_cleanup st)
      | (Some (p, n), st) \<Rightarrow>
          if n > 0x7fffffff then ((- 1, None), st)
          else ((int n, if want then Some (case p of None \<Rightarrow> [] | Some p \<Rightarrow> take n p) else None), st))"

section \<open>Appending\<close>

definition new_child :: "nat \<Rightarrow> nat \<Rightarrow> bool \<Rightarrow> cbb_state \<Rightarrow> cbb_state" where
  "new_child off pll asn st = (fst st, set_child (Some (CBB None off pll asn True)) (snd st))"

definition cur_len :: "cbb_state \<Rightarrow> nat" where
  "cur_len st = (case fst st of None \<Rightarrow> 0 | Some b \<Rightarrow> b_len b)"

definition store :: "nat \<Rightarrow> bytes \<Rightarrow> cbb_state \<Rightarrow> cbb_state" where
  "store p bs st = (map_option (poke p bs) (fst st), snd st)"

definition cbb_add_length_prefixed :: "allocator \<Rightarrow> nat \<Rightarrow> (cbb_state, unit) reader" where
  "cbb_add_length_prefixed malloc len_len =
     bindR (CBB_flush malloc) (\<lambda>_ st.
       let off = cur_len st in
       case on_base (cbb_buffer_add malloc len_len) st of
         (None, st) \<Rightarrow> (None, st)
       | (Some p, st) \<Rightarrow>
           (Some (), new_child off len_len False (store p (replicate len_len 0) st)))"

definition CBB_add_u8_length_prefixed :: "allocator \<Rightarrow> (cbb_state, unit) reader" where
  "CBB_add_u8_length_prefixed malloc = cbb_add_length_prefixed malloc 1"

definition CBB_add_u16_length_prefixed :: "allocator \<Rightarrow> (cbb_state, unit) reader" where
  "CBB_add_u16_length_prefixed malloc = cbb_add_length_prefixed malloc 2"

definition CBB_add_u24_length_prefixed :: "allocator \<Rightarrow> (cbb_state, unit) reader" where
  "CBB_add_u24_length_prefixed malloc = cbb_add_length_prefixed malloc 3"

definition CBB_add_bytes :: "allocator \<Rightarrow> bytes \<Rightarrow> (cbb_state, unit) reader" where
  "CBB_add_bytes malloc dat =
     bindR (CBB_flush malloc) (\<lambda>_.
     bindR (on_base (cbb_buffer_add malloc (length dat))) (\<lambda>dest st. (Some (), store dest dat st)))"

definition CBB_add_space :: "allocator \<Rightarrow> nat \<Rightarrow> (cbb_state, nat) reader" where
  "CBB_add_space malloc n =
     bindR (CBB_flush malloc) (\<lambda>_. on_base (cbb_buffer_add malloc n))"

definition CBB_reserve :: "allocator \<Rightarrow> nat \<Rightarrow> (cbb_state, nat) reader" where
  "CBB_reserve malloc n =
     bindR (CBB_flush malloc) (\<lambda>_. on_base (cbb_buffer_reserve malloc n))"

text \<open>
  The code reads the base without a test; the model fails on a builder without one, and no property
  speaks of that case.
\<close>

definition CBB_did_write :: "nat \<Rightarrow> (cbb_state, unit) reader" where
  "CBB_did_write n st =
     (case fst st of
        None \<Rightarrow> (None, st)
      | Some b \<Rightarrow>
          let newlen = (b_len b + n) mod SIZE_LIMIT in
          if c_child (snd st) \<noteq> None \<or> newlen < b_len b \<or> newlen > b_cap b then (None, st)
          else (Some (), (Some (b\<lparr>b_len := newlen\<rparr>), snd st)))"

definition CBB_add_u :: "allocator \<Rightarrow> u64 \<Rightarrow> nat \<Rightarrow> (cbb_state, unit) reader" where
  "CBB_add_u malloc v n = bindR (CBB_flush malloc) (\<lambda>_. on_base (cbb_buffer_add_u malloc v n))"

definition CBB_add_u8 :: "allocator \<Rightarrow> u8 \<Rightarrow> (cbb_state, unit) reader" where
  "CBB_add_u8 malloc v = CBB_add_u malloc (ucast v) 1"

definition CBB_add_u16 :: "allocator \<Rightarrow> u16 \<Rightarrow> (cbb_state, unit) reader" where
  "CBB_add_u16 malloc v = CBB_add_u malloc (ucast v) 2"

definition CBB_add_u16le :: "allocator \<Rightarrow> u16 \<Rightarrow> (cbb_state, unit) reader" where
  "CBB_add_u16le malloc v = CBB_add_u16 malloc (CRYPTO_bswap2 v)"

definition CBB_add_u24 :: "allocator \<Rightarrow> u32 \<Rightarrow> (cbb_state, unit) reader" where
  "CBB_add_u24 malloc v = CBB_add_u malloc (ucast v) 3"

definition CBB_add_u32 :: "allocator \<Rightarrow> u32 \<Rightarrow> (cbb_state, unit) reader" where
  "CBB_add_u32 malloc v = CBB_add_u malloc (ucast v) 4"

definition CBB_add_u32le :: "allocator \<Rightarrow> u32 \<Rightarrow> (cbb_state, unit) reader" where
  "CBB_add_u32le malloc v = CBB_add_u32 malloc (CRYPTO_bswap4 v)"

definition CBB_add_u64 :: "allocator \<Rightarrow> u64 \<Rightarrow> (cbb_state, unit) reader" where
  "CBB_add_u64 malloc v = CBB_add_u malloc v 8"

definition CBB_add_u64le :: "allocator \<Rightarrow> u64 \<Rightarrow> (cbb_state, unit) reader" where
  "CBB_add_u64le malloc v = CBB_add_u64 malloc (CRYPTO_bswap8 v)"

definition CBB_discard_child :: "cbb_state \<Rightarrow> cbb_state" where
  "CBB_discard_child st =
     (case c_child (snd st) of
        None \<Rightarrow> st
      | Some ch \<Rightarrow> (map_option (\<lambda>b. b\<lparr>b_len := c_offset ch\<rparr>) (fst st), set_child None (snd st)))"

section \<open>ASN.1\<close>

fun base128_len :: "nat \<Rightarrow> nat" where
  "base128_len v = (if v > 0 then Suc (base128_len (v div 128)) else 0)"

declare base128_len.simps [simp del]

fun add_base128_loop :: "allocator \<Rightarrow> u64 \<Rightarrow> nat \<Rightarrow> (cbb_state, unit) reader" where
  "add_base128_loop malloc v 0 = returnR ()"
| "add_base128_loop malloc v (Suc i) =
     (let byte = ucast (drop_bit (7 * i) v AND 0x7f) :: u8;
          byte = (if i \<noteq> 0 then byte OR 0x80 else byte)
      in bindR (CBB_add_u8 malloc byte) (\<lambda>_. add_base128_loop malloc v i))"

definition add_base128_integer :: "allocator \<Rightarrow> u64 \<Rightarrow> (cbb_state, unit) reader" where
  "add_base128_integer malloc v =
     (let len_len = base128_len (unat v) in
      add_base128_loop malloc v (if len_len = 0 then 1 else len_len))"

definition CBB_add_asn1 :: "allocator \<Rightarrow> u32 \<Rightarrow> (cbb_state, unit) reader" where
  "CBB_add_asn1 malloc tag =
     bindR (CBB_flush malloc) (\<lambda>_.
     let tag_bits = ucast (drop_bit CBS_ASN1_TAG_SHIFT tag) AND 0xe0 :: u8;
         tag_number = tag AND CBS_ASN1_TAG_NUMBER_MASK in
     bindR (if tag_number \<ge> 0x1f then
              bindR (CBB_add_u8 malloc (tag_bits OR 0x1f)) (\<lambda>_.
                add_base128_integer malloc (ucast tag_number))
            else CBB_add_u8 malloc (tag_bits OR ucast tag_number)) (\<lambda>_ st.
     let off = cur_len st in
     case CBB_add_u8 malloc 0 st of
       (None, st) \<Rightarrow> (None, st)
     | (Some _, st) \<Rightarrow> (Some (), new_child off 1 True st)))"

fun uint64_bytes_loop :: "allocator \<Rightarrow> u64 \<Rightarrow> nat \<Rightarrow> bool \<Rightarrow> (cbb_state, bool) reader" where
  "uint64_bytes_loop malloc val 0 started = returnR started"
| "uint64_bytes_loop malloc val (Suc k) started =
     (let byte = ucast (drop_bit (8 * k) val AND 0xff) :: u8 in
      if \<not> started then
        if byte = 0 then uint64_bytes_loop malloc val k started
        else bindR (if byte AND 0x80 \<noteq> 0 then on_child (CBB_add_u8 malloc 0) else returnR ()) (\<lambda>_.
             bindR (on_child (CBB_add_u8 malloc byte)) (\<lambda>_. uint64_bytes_loop malloc val k True))
      else bindR (on_child (CBB_add_u8 malloc byte)) (\<lambda>_. uint64_bytes_loop malloc val k started))"

text \<open>The loop index \<open>i\<close> of the code is \<open>8 - k\<close> here.\<close>

definition CBB_add_asn1_uint64 :: "allocator \<Rightarrow> u64 \<Rightarrow> (cbb_state, unit) reader" where
  "CBB_add_asn1_uint64 malloc val =
     bindR (CBB_add_asn1 malloc CBS_ASN1_INTEGER) (\<lambda>_.
     bindR (uint64_bytes_loop malloc val 8 False) (\<lambda>started.
     bindR (if \<not> started then on_child (CBB_add_u8 malloc 0) else returnR ()) (\<lambda>_.
     CBB_flush malloc)))"

fun int64_start :: "bytes \<Rightarrow> nat \<Rightarrow> nat" where
  "int64_start u 0 = 0"
| "int64_start u (Suc s) =
     (if u ! Suc s = 0xff \<and> u ! s AND 0x80 \<noteq> 0 then int64_start u s else Suc s)"

fun int64_bytes_loop :: "allocator \<Rightarrow> bytes \<Rightarrow> nat \<Rightarrow> (cbb_state, unit) reader" where
  "int64_bytes_loop malloc u 0 = on_child (CBB_add_u8 malloc (u ! 0))"
| "int64_bytes_loop malloc u (Suc i) =
     bindR (on_child (CBB_add_u8 malloc (u ! Suc i))) (\<lambda>_. int64_bytes_loop malloc u i)"

text \<open>\<open>u.bytes\<close> is the little-endian representation of the signed value.\<close>

definition CBB_add_asn1_int64 :: "allocator \<Rightarrow> u64 \<Rightarrow> (cbb_state, unit) reader" where
  "CBB_add_asn1_int64 malloc val =
     (if sint val \<ge> 0 then CBB_add_asn1_uint64 malloc val
      else
        let u = rev (be_bytes 8 (unat val)); start = int64_start u 7 in
        bindR (CBB_add_asn1 malloc CBS_ASN1_INTEGER) (\<lambda>_.
        bindR (int64_bytes_loop malloc u start) (\<lambda>_.
        CBB_flush malloc)))"

definition CBB_add_asn1_octet_string :: "allocator \<Rightarrow> bytes \<Rightarrow> (cbb_state, unit) reader" where
  "CBB_add_asn1_octet_string malloc dat =
     bindR (CBB_add_asn1 malloc CBS_ASN1_OCTETSTRING) (\<lambda>_.
     bindR (on_child (CBB_add_bytes malloc dat)) (\<lambda>_.
     CBB_flush malloc))"

definition CBB_add_asn1_bool :: "allocator \<Rightarrow> int \<Rightarrow> (cbb_state, unit) reader" where
  "CBB_add_asn1_bool malloc val =
     bindR (CBB_add_asn1 malloc CBS_ASN1_BOOLEAN) (\<lambda>_.
     bindR (on_child (CBB_add_u8 malloc (if val \<noteq> 0 then 0xff else 0))) (\<lambda>_.
     CBB_flush malloc))"

end
