(* ===== verification/CBB_Buffer.thy ===== *)
theory CBB_Buffer
  imports CBB DER
begin

text \<open>
  What the shared buffer of a builder guarantees: the bytes written so far survive every
  growth, and the placeholder of a length is replaced by the encoding of the length, however
  long that is. \<open>contents\<close> are the bytes written so far.
\<close>

definition contents :: "cbb_buffer \<Rightarrow> bytes" where
  "contents b = take (b_len b) (blk b)"

definition wf_buf :: "cbb_buffer \<Rightarrow> bool" where
  "wf_buf b \<longleftrightarrow> length (blk b) = b_cap b \<and> b_len b \<le> b_cap b \<and> b_cap b + 8 < OBJECT_LIMIT"

text \<open>Growth keeps the mode and the capacity; an allocator that never fails for a legal size.\<close>

definition grows :: "cbb_buffer \<Rightarrow> cbb_buffer \<Rightarrow> bool" where
  "grows b b' \<longleftrightarrow> b_can_resize b' = b_can_resize b \<and> b_cap b \<le> b_cap b' \<and>
     (\<not> b_can_resize b \<longrightarrow> b_cap b' = b_cap b)"

definition total_malloc :: "allocator \<Rightarrow> bool" where
  "total_malloc malloc \<longleftrightarrow> (\<forall>n. n < OBJECT_LIMIT \<longrightarrow> malloc n \<noteq> None)"

definition can_hold :: "allocator \<Rightarrow> cbb_buffer \<Rightarrow> nat \<Rightarrow> bool" where
  "can_hold malloc b n \<longleftrightarrow>
     n \<le> b_cap b \<or> (b_can_resize b \<and> total_malloc malloc \<and> 2 * n + 8 < OBJECT_LIMIT)"

lemma grows_refl [simp]: "grows b b"
  by (simp add: grows_def)

lemma grows_trans: "grows a b \<Longrightarrow> grows b c \<Longrightarrow> grows a c"
  by (simp add: grows_def)

lemma can_hold_grows: "grows b b' \<Longrightarrow> can_hold malloc b n \<Longrightarrow> can_hold malloc b' n"
  by (auto simp: grows_def can_hold_def)

lemma can_hold_le: "can_hold malloc b n \<Longrightarrow> m \<le> n \<Longrightarrow> can_hold malloc b m"
  by (auto simp: can_hold_def)

lemma total_zero_heap [simp]: "total_malloc zero_heap"
  by (simp add: total_malloc_def zero_heap_def)

lemma length_contents [simp]: "wf_buf b \<Longrightarrow> length (contents b) = b_len b"
  by (simp add: contents_def wf_buf_def)

lemma length_le_contents: "wf_buf b \<Longrightarrow> b_len b + 8 < OBJECT_LIMIT"
  by (simp add: wf_buf_def)

lemma total_OPENSSL_malloc:
  assumes "total_malloc malloc" "n + 8 < OBJECT_LIMIT"
  shows "OPENSSL_malloc malloc n \<noteq> None"
proof -
  have "(n + 8) mod SIZE_LIMIT = n + 8" using assms(2) by simp
  with assms show ?thesis
    by (auto simp: OPENSSL_malloc_def OPENSSL_MALLOC_PREFIX_def total_malloc_def split: option.splits)
qed

lemma OPENSSL_realloc_blk:
  assumes "malloc_ok malloc" "newcap + 8 < SIZE_LIMIT"
    and "length (blk b) \<le> newcap" "OPENSSL_realloc malloc (b_buf b) newcap = Some p"
  shows "length p = newcap" "take (length (blk b)) p = blk b" "newcap + 8 < OBJECT_LIMIT"
proof -
  have "length p = newcap \<and> take (length (blk b)) p = blk b \<and> newcap + 8 < OBJECT_LIMIT"
  proof (cases "b_buf b")
    case None
    with assms(4) have "OPENSSL_malloc malloc newcap = Some p" by (simp add: OPENSSL_realloc_def)
    from OPENSSL_malloc_length [OF assms(1,2) this] None show ?thesis by (simp add: blk_def)
  next
    case (Some old)
    from OPENSSL_realloc_keeps [OF assms(1,2)] assms(3,4) Some show ?thesis by (simp add: blk_def)
  qed
  then show "length p = newcap" "take (length (blk b)) p = blk b" "newcap + 8 < OBJECT_LIMIT"
    by simp_all
qed

text \<open>The capacity after a growth: no wrap-around for a buffer that is well formed.\<close>

definition next_cap :: "nat \<Rightarrow> nat \<Rightarrow> nat" where
  "next_cap cap newlen = (if cap * 2 < newlen then newlen else cap * 2)"

lemma cbb_buffer_reserve_eq:
  assumes "wf_buf b" "n < OBJECT_LIMIT"
  shows "cbb_buffer_reserve malloc n (Some b) =
    (if b_len b + n \<le> b_cap b then (Some (b_len b), Some b)
     else if \<not> b_can_resize b then (None, set_error (Some b))
     else case OPENSSL_realloc malloc (b_buf b) (next_cap (b_cap b) (b_len b + n)) of
            None \<Rightarrow> (None, set_error (Some b))
          | Some p \<Rightarrow> (Some (b_len b),
              Some (b\<lparr>b_buf := Some p, b_cap := next_cap (b_cap b) (b_len b + n)\<rparr>)))"
proof -
  have "(b_len b + n) mod SIZE_LIMIT = b_len b + n" "b_cap b * 2 mod SIZE_LIMIT = b_cap b * 2"
    using assms by (simp_all add: wf_buf_def)
  then show ?thesis
    by (simp add: cbb_buffer_reserve_def next_cap_def Let_def split: option.splits)
qed

lemma OPENSSL_realloc_None:
  assumes "OPENSSL_realloc malloc p n = None" "total_malloc malloc"
  shows "OBJECT_LIMIT \<le> n + 8"
proof (rule ccontr)
  assume "\<not> ?thesis"
  then have "OPENSSL_malloc malloc n \<noteq> None" using total_OPENSSL_malloc [OF assms(2)] by simp
  with assms(1) show False by (auto simp: OPENSSL_realloc_def Let_def split: option.splits)
qed

lemma cbb_buffer_reserve_cases:
  assumes "malloc_ok malloc" "wf_buf b" "n < OBJECT_LIMIT"
    and run: "cbb_buffer_reserve malloc n (Some b) = (r, base)"
  obtains (ok) b' where "r = Some (b_len b)" "base = Some b'" "wf_buf b'" "grows b b'"
      "contents b' = contents b" "b_len b' = b_len b" "b_error b' = b_error b"
      "b_len b + n \<le> b_cap b'"
  | (fail) "r = None" "base = Some (b\<lparr>b_error := True\<rparr>)" "\<not> can_hold malloc b (b_len b + n)"
proof (cases "b_len b + n \<le> b_cap b")
  case True
  with run assms(2) show thesis by (intro ok) (simp_all add: cbb_buffer_reserve_eq [OF assms(2,3)])
next
  case False
  define nc where "nc = next_cap (b_cap b) (b_len b + n)"
  have w: "length (blk b) = b_cap b" "b_len b \<le> b_cap b" "b_cap b + 8 < OBJECT_LIMIT"
    using assms(2) by (simp_all add: wf_buf_def)
  have nc: "b_cap b \<le> nc" "b_len b + n \<le> nc" "nc + 8 < SIZE_LIMIT" "nc \<le> 2 * (b_len b + n)"
    using w assms(3) False by (simp_all add: nc_def next_cap_def)
  have ne: "\<not> can_hold malloc b (b_len b + n)"
    if "b_can_resize b \<longrightarrow> OPENSSL_realloc malloc (b_buf b) nc = None"
    using that OPENSSL_realloc_None [of malloc "b_buf b" nc] False nc(4) by (auto simp: can_hold_def)
  show thesis
  proof (cases "b_can_resize b \<and> OPENSSL_realloc malloc (b_buf b) nc \<noteq> None")
    case True
    then obtain p where p: "b_can_resize b" "OPENSSL_realloc malloc (b_buf b) nc = Some p" by auto
    have len: "length (blk b) \<le> nc" using w nc by simp
    note pp = OPENSSL_realloc_blk [OF assms(1) nc(3) len p(2)]
    have "take (b_len b) p = take (b_len b) (take (length (blk b)) p)" using w by simp
    then have "take (b_len b) p = take (b_len b) (blk b)" by (simp only: pp(2))
    moreover have "r = Some (b_len b)" "base = Some (b\<lparr>b_buf := Some p, b_cap := nc\<rparr>)"
      using run False p by (simp_all add: cbb_buffer_reserve_eq [OF assms(2,3)] nc_def [symmetric])
    ultimately show thesis using pp nc w p(1)
      by (intro ok [of "b\<lparr>b_buf := Some p, b_cap := nc\<rparr>"])
        (simp_all add: wf_buf_def blk_def contents_def grows_def)
  next
    case no: False
    with run False have "r = None" "base = Some (b\<lparr>b_error := True\<rparr>)"
      by (auto simp: cbb_buffer_reserve_eq [OF assms(2,3)] nc_def [symmetric] set_error_def
        split: option.splits)
    then show thesis using no ne by (intro fail) auto
  qed
qed

text \<open>\<open>cbb_buffer_add\<close> extends the contents by bytes whose values are not yet set.\<close>

lemma cbb_buffer_add_cases:
  assumes "malloc_ok malloc" "wf_buf b" "n < OBJECT_LIMIT"
    and run: "cbb_buffer_add malloc n (Some b) = (r, base)"
  obtains (ok) b' where "r = Some (b_len b)" "base = Some b'" "wf_buf b'" "grows b b'"
      "take (b_len b) (contents b') = contents b" "b_len b' = b_len b + n" "b_error b' = b_error b"
  | (fail) "r = None" "base = Some (b\<lparr>b_error := True\<rparr>)" "\<not> can_hold malloc b (b_len b + n)"
proof -
  obtain r' base' where res: "cbb_buffer_reserve malloc n (Some b) = (r', base')" by fastforce
  show thesis
  proof (rule cbb_buffer_reserve_cases [OF assms(1-3) res])
    fix b'
    assume "r' = Some (b_len b)" "base' = Some b'" "wf_buf b'" "grows b b'"
      "contents b' = contents b" "b_len b' = b_len b" "b_error b' = b_error b" "b_len b + n \<le> b_cap b'"
    with res run show thesis
      by (intro ok [of "b'\<lparr>b_len := b_len b + n\<rparr>"])
        (simp_all add: cbb_buffer_add_def wf_buf_def grows_def contents_def blk_def)
  next
    assume "r' = None" "base' = Some (b\<lparr>b_error := True\<rparr>)" "\<not> can_hold malloc b (b_len b + n)"
    with res run show thesis by (intro fail) (simp_all add: cbb_buffer_add_def)
  qed
qed

section \<open>Stores\<close>

lemma poke_simps [simp]:
  "b_len (poke p bs b) = b_len b" "b_cap (poke p bs b) = b_cap b"
  "b_can_resize (poke p bs b) = b_can_resize b" "b_error (poke p bs b) = b_error b"
  by (simp_all add: poke_def)

lemma grows_poke [simp]: "grows b (poke p bs b') = grows b b'"
  by (simp add: grows_def)

lemma blk_poke: "p + length bs \<le> length (blk b) \<Longrightarrow> blk (poke p bs b) = store_at (blk b) p bs"
  by (cases "b_buf b") (simp_all add: blk_def poke_def store_at_def)

lemma wf_buf_poke [simp]: "wf_buf b \<Longrightarrow> p + length bs \<le> b_len b \<Longrightarrow> wf_buf (poke p bs b)"
  by (simp add: wf_buf_def blk_poke)

lemma take_store_at_inside:
  "p + length bs \<le> n \<Longrightarrow> n \<le> length m \<Longrightarrow> take n (store_at m p bs) = store_at (take n m) p bs"
  by (cases "n = p") (auto simp: store_at_def drop_take min_def)

lemma contents_poke:
  "wf_buf b \<Longrightarrow> p + length bs \<le> b_len b \<Longrightarrow> contents (poke p bs b) = store_at (contents b) p bs"
  by (simp add: contents_def wf_buf_def blk_poke take_store_at_inside)

lemma store_at_store_at:
  "i + length as + length bs \<le> length m \<Longrightarrow>
   store_at (store_at m (i + length as) bs) i as = store_at m i (as @ bs)"
  by (simp add: store_at_def min_def ac_simps)

lemma store_at_end: "store_at (as @ bs) (length as) cs = as @ cs" if "length cs = length bs"
  using that by (simp add: store_at_def)

lemma store_be_loop_spec:
  "wf_buf b \<Longrightarrow> p + k \<le> b_len b \<Longrightarrow>
   \<exists>b'. store_be_loop k v p b = (b', v div 256 ^ k) \<and> wf_buf b' \<and> grows b b' \<and>
        b_len b' = b_len b \<and> b_error b' = b_error b \<and> contents b' = store_at (contents b) p (be_bytes k v)"
proof (induction k arbitrary: v b)
  case 0
  then show ?case by (simp add: store_at_def)
next
  case (Suc k)
  let ?b = "poke (p + k) [word_of_nat v] b"
  have w: "wf_buf ?b" "p + k \<le> b_len ?b" using Suc.prems by simp_all
  obtain b' where b': "store_be_loop k (v div 256) p ?b = (b', v div 256 div 256 ^ k)" "wf_buf b'"
    "grows ?b b'" "b_len b' = b_len ?b" "b_error b' = b_error ?b"
    "contents b' = store_at (contents ?b) p (be_bytes k (v div 256))"
    using Suc.IH [OF w] by blast
  have "contents ?b = store_at (contents b) (p + k) [word_of_nat v]"
    using Suc.prems by (simp add: contents_poke)
  moreover have "(word_of_nat v :: u8) = word_of_nat (v mod 256)"
    by (rule word_unat_eq_iff [THEN iffD2]) (simp add: unat_of_nat)
  ultimately have "contents b' = store_at (contents b) p (be_bytes (Suc k) v)"
    using store_at_store_at [of p "be_bytes k (v div 256)" "[word_of_nat v]" "contents b"] Suc.prems b'(6)
    by simp
  moreover have "store_be_loop (Suc k) v p b = (b', v div 256 ^ Suc k)"
    using b'(1) by (simp add: div_mult2_eq)
  moreover have "grows b b'" using b'(3) by (simp add: grows_def)
  ultimately show ?case using b' by simp
qed

text \<open>A number appended in \<open>n\<close> bytes; it fails when the number does not fit.\<close>

lemma cbb_buffer_add_u_cases:
  assumes "malloc_ok malloc" "wf_buf b" "n < OBJECT_LIMIT"
    and run: "cbb_buffer_add_u malloc v n (Some b) = (r, base)"
    and n: "0 < n"
  obtains (ok) b' where "r = Some ()" "base = Some b'" "wf_buf b'" "grows b b'"
      "contents b' = contents b @ be_bytes n (unat v)" "b_error b' = b_error b" "unat v < 256 ^ n"
  | (fail) b' where "r = None" "base = Some b'" "wf_buf b'" "grows b b'" "b_error b'"
      "256 ^ n \<le> unat v \<or> \<not> can_hold malloc b (b_len b + n)"
proof -
  obtain r' base' where add: "cbb_buffer_add malloc n (Some b) = (r', base')" by fastforce
  show thesis
  proof (rule cbb_buffer_add_cases [OF assms(1-3) add])
    fix b1
    assume b1: "r' = Some (b_len b)" "base' = Some b1" "wf_buf b1" "grows b b1"
      "take (b_len b) (contents b1) = contents b" "b_len b1 = b_len b + n" "b_error b1 = b_error b"
    then obtain b2 where b2: "store_be_loop n (unat v) (b_len b) b1 = (b2, unat v div 256 ^ n)" "wf_buf b2"
      "grows b1 b2" "b_len b2 = b_len b1" "b_error b2 = b_error b1"
      "contents b2 = store_at (contents b1) (b_len b) (be_bytes n (unat v))"
      using store_be_loop_spec [of b1 "b_len b" n "unat v"] by auto
    have c: "contents b2 = contents b @ be_bytes n (unat v)"
      unfolding b2(6) b1(5) [symmetric] using b1 by (simp add: store_at_def)
    have g: "grows b b2" using b1(4) b2(3) by (rule grows_trans)
    show thesis
    proof (cases "unat v < 256 ^ n")
      case True
      with run add b1 b2 n show thesis
        by (intro ok [OF _ _ b2(2) g c]) (simp_all add: cbb_buffer_add_u_def)
    next
      case False
      then have "unat v div 256 ^ n \<noteq> 0" by (simp add: div_eq_0_iff)
      with run add b1 b2 n g False show thesis
        by (intro fail [of "b2\<lparr>b_error := True\<rparr>"])
          (simp_all add: cbb_buffer_add_u_def set_error_def wf_buf_def blk_def grows_def)
    qed
  next
    assume "r' = None" "base' = Some (b\<lparr>b_error := True\<rparr>)" "\<not> can_hold malloc b (b_len b + n)"
    with run add n assms(2) show thesis
      by (intro fail [of "b\<lparr>b_error := True\<rparr>"])
        (simp_all add: cbb_buffer_add_u_def wf_buf_def blk_def grows_def)
  qed
qed

end
