(* ===== verification/CBB_Flush.thy ===== *)
theory CBB_Flush
  imports CBB_Buffer
begin

text \<open>
  The pending children of a CBB, and what \<open>CBB_flush\<close> makes of them. \<open>closed c cs\<close> is the
  specification: the contents of the buffer once every pending length of the chain of
  children below \<open>c\<close> has been filled in, or \<open>None\<close> when some length has no encoding.
\<close>

definition base_of :: "cbb \<Rightarrow> nat" where
  "base_of c = c_offset c + c_pending_len_len c"

definition len_prefix :: "cbb \<Rightarrow> nat \<Rightarrow> bytes option" where
  "len_prefix ch len =
     (if c_pending_is_asn1 ch then if len \<le> 0xfffffffe then Some (der_length len) else None
      else if len < 256 ^ c_pending_len_len ch then Some (be_bytes (c_pending_len_len ch) len)
      else None)"

definition seal :: "cbb \<Rightarrow> bytes \<Rightarrow> bytes option" where
  "seal ch cs =
     map_option (\<lambda>pfx. take (c_offset ch) cs @ pfx @ drop (base_of ch) cs)
       (len_prefix ch (length cs - base_of ch))"

fun closed :: "cbb \<Rightarrow> bytes \<Rightarrow> bytes option" where
  "closed (CBB None off pll asn ic) cs = Some cs"
| "closed (CBB (Some ch) off pll asn ic) cs = Option.bind (closed ch cs) (seal ch)"

text \<open>The chain of children lies within the \<open>n\<close> bytes of the buffer, in order.\<close>

fun wf_cbb :: "cbb \<Rightarrow> nat \<Rightarrow> bool" where
  "wf_cbb (CBB ch off pll asn ic) n \<longleftrightarrow>
     off + pll \<le> n \<and> (asn \<longrightarrow> pll = 1) \<and>
     (case ch of None \<Rightarrow> True
      | Some ch \<Rightarrow> 0 < c_pending_len_len ch \<and> off + pll \<le> c_offset ch \<and> wf_cbb ch n)"

lemma wf_cbb_base: "wf_cbb c n \<Longrightarrow> base_of c \<le> n"
  by (cases c) (simp add: base_of_def)

lemma wf_cbb_asn1: "wf_cbb c n \<Longrightarrow> c_pending_is_asn1 c \<Longrightarrow> c_pending_len_len c = 1"
  by (cases c) simp

lemma wf_cbb_mono: "wf_cbb c m \<Longrightarrow> m \<le> n \<Longrightarrow> wf_cbb c n"
  by (induction c m rule: wf_cbb.induct) (auto split: option.splits)

section \<open>The length bytes\<close>

lemma or_0x80: "k < 0x80 \<Longrightarrow> (0x80 :: u8) OR word_of_nat k = word_of_nat (128 + k)"
proof (rule word_unat_eq_iff [THEN iffD2])
  assume k: "k < 0x80"
  have p: "(0x80 :: u8) = push_bit 7 1" by (simp add: push_bit_eq_mult)
  have "unat (word_of_nat k :: u8) < 2 ^ 7" using k by (simp add: unat_of_nat)
  from unat_push_bit_or [OF this, of 1]
  show "unat ((0x80 :: u8) OR word_of_nat k) = unat (word_of_nat (128 + k) :: u8)"
    unfolding p using k by (simp add: unat_of_nat del: of_nat_add)
qed

lemma asn1_len_len_der:
  assumes "asn1_len_len len = (n, b0, rest)" "len \<le> 0xfffffffe"
  shows "der_length len = b0 # be_bytes (n - 1) rest" "rest < 256 ^ (n - 1)" "1 \<le> n" "n \<le> 5"
proof -
  have "der_length len = b0 # be_bytes (n - 1) rest \<and> rest < 256 ^ (n - 1) \<and> 1 \<le> n \<and> n \<le> 5"
    using assms or_0x80 [of 1] or_0x80 [of 2] or_0x80 [of 3] or_0x80 [of 4]
    by (auto simp: asn1_len_len_def der_length_def octets_def split: if_splits)
  then show "der_length len = b0 # be_bytes (n - 1) rest" "rest < 256 ^ (n - 1)" "1 \<le> n" "n \<le> 5"
    by simp_all
qed

section \<open>Filling in one length\<close>

text \<open>Room is made by moving the contents up; then the length is stored over the placeholder.\<close>

lemma contents_memmove_up:
  assumes "wf_buf b" "cs + n + extra = b_len b"
  shows "contents (memmove_up cs extra n b) =
    take (cs + extra) (contents b) @ take n (drop cs (contents b))"
    "wf_buf (memmove_up cs extra n b)" "b_len (memmove_up cs extra n b) = b_len b"
    "b_error (memmove_up cs extra n b) = b_error b" "grows c (memmove_up cs extra n b) = grows c b"
proof -
  have w: "length (blk b) = b_cap b" "b_len b \<le> b_cap b" using assms(1) by (simp_all add: wf_buf_def)
  have m: "take n (drop cs (blk b)) = take n (drop cs (contents b))"
    using w assms(2) by (simp add: contents_def drop_take min_def)
  have l: "length (take n (drop cs (contents b))) = n" using assms w by simp
  have p: "cs + extra + length (take n (drop cs (contents b))) \<le> b_len b" unfolding l using assms(2) by simp
  show "contents (memmove_up cs extra n b) =
      take (cs + extra) (contents b) @ take n (drop cs (contents b))"
    using contents_poke [OF assms(1) p] assms w by (simp add: memmove_up_def m store_at_def)
  show "wf_buf (memmove_up cs extra n b)"
    unfolding memmove_up_def m by (rule wf_buf_poke [OF assms(1) p])
qed (simp_all add: memmove_up_def)

lemma store_prefix:
  assumes "wf_buf b" "off + 1 + k \<le> b_len b" "v < 256 ^ k"
  obtains b' where "store_be_loop k v (off + 1) (poke off [b0] b) = (b', 0)" "wf_buf b'" "grows b b'"
    "b_len b' = b_len b" "b_error b' = b_error b"
    "contents b' = store_at (contents b) off (b0 # be_bytes k v)"
proof -
  let ?b = "poke off [b0] b"
  have w: "wf_buf ?b" "off + 1 + k \<le> b_len ?b" using assms by simp_all
  obtain b' where b': "store_be_loop k v (off + 1) ?b = (b', v div 256 ^ k)" "wf_buf b'"
    "grows ?b b'" "b_len b' = b_len ?b" "b_error b' = b_error ?b"
    "contents b' = store_at (contents ?b) (off + 1) (be_bytes k v)"
    using store_be_loop_spec [OF w] by blast
  have "contents ?b = store_at (contents b) off [b0]" using assms by (simp add: contents_poke)
  then have "contents b' = store_at (contents b) off (b0 # be_bytes k v)"
    unfolding b'(6) using assms by (simp add: store_at_def min_def ac_simps)
  with b' assms(3) show thesis by (intro that [of b']) (simp_all add: grows_def)
qed

lemma write_prefix_asn1:
  assumes "malloc_ok malloc" "wf_buf b" "off + 1 \<le> b_len b" "b_len b - (off + 1) \<le> 0xfffffffe"
    and lens: "asn1_len_len (b_len b - (off + 1)) = (n, b0, rest)"
    and run: "write_prefix malloc (CBB c off 1 True ic) (Some b) = (r, base)"
  obtains (ok) b' where "r = Some ()" "base = Some b'" "wf_buf b'" "grows b b'" "b_error b' = b_error b"
      "contents b' = take off (contents b) @ (b0 # be_bytes (n - 1) rest) @ drop (off + 1) (contents b)"
  | (fail) b' where "r = None" "base = Some b'" "wf_buf b'" "grows b b'" "b_error b'"
      "\<not> can_hold malloc b (b_len b + (n - 1))"
proof -
  let ?len = "b_len b - (off + 1)"
  note dl = asn1_len_len_der [OF lens assms(4)]
  have L: "b_len b + 8 < OBJECT_LIMIT" using assms(2) by (rule length_le_contents)
  have cs: "Suc off < 18446744073709551616" using L assms(3) by simp
  have len: "\<not> ?len > 0xfffffffe" using assms(4) by simp
  define big where "big = (if n \<noteq> 1
    then (case cbb_buffer_add malloc (n - 1) (Some b) of
            (Some p, Some b) \<Rightarrow> (Some (), Some (memmove_up (off + 1) (n - 1) ?len b))
          | (_, base) \<Rightarrow> (None, base))
    else (Some (), Some b))"
  have run': "(r, base) = (case big of
      (Some _, Some b) \<Rightarrow>
        (case store_be_loop (n - 1) rest (off + 1) (poke off [b0] b) of
           (b, rest) \<Rightarrow> if rest \<noteq> 0 then (None, set_error (Some b)) else (Some (), Some b))
    | (_, base) \<Rightarrow> (None, set_error base))"
    using run assms(3) len lens unfolding big_def
    by (cases "n = 1"; cases "cbb_buffer_add malloc (n - 1) (Some b)")
      (auto simp add: write_prefix_def mod_less [OF cs] Let_def not_less split: option.splits)
  have store: thesis
    if b1: "big = (Some (), Some b1)" "wf_buf b1" "grows b b1" "b_len b1 = b_len b + (n - 1)"
      "b_error b1 = b_error b"
      "store_at (contents b1) off (b0 # be_bytes (n - 1) rest) =
        take off (contents b) @ (b0 # be_bytes (n - 1) rest) @ drop (off + 1) (contents b)" for b1
  proof -
    have "off + 1 + (n - 1) \<le> b_len b1" using b1(4) assms(3) by simp
    from store_prefix [OF b1(2) this dl(2)] obtain b2 where
      b2: "store_be_loop (n - 1) rest (off + 1) (poke off [b0] b1) = (b2, 0)" "wf_buf b2" "grows b1 b2"
        "b_error b2 = b_error b1" "contents b2 = store_at (contents b1) off (b0 # be_bytes (n - 1) rest)"
      by metis
    show thesis
    proof (rule ok [of b2])
      show "r = Some ()" "base = Some b2" using run' b1(1) b2(1) by simp_all
      show "grows b b2" using b1(3) b2(3) by (rule grows_trans)
    qed (use b1(5,6) b2 in simp_all)
  qed
  show thesis
  proof (cases "n = 1")
    case True
    then have "big = (Some (), Some b)" by (simp add: big_def)
    with True assms show thesis by (intro store [of b]) (simp_all add: store_at_def)
  next
    case False
    obtain r1 base1 where add: "cbb_buffer_add malloc (n - 1) (Some b) = (r1, base1)" by fastforce
    have "n - 1 < OBJECT_LIMIT" using dl(4) by simp
    then show thesis
    proof (rule cbb_buffer_add_cases [OF assms(1,2) _ add])
      fix b1
      assume b1: "r1 = Some (b_len b)" "base1 = Some b1" "wf_buf b1" "grows b b1"
        "take (b_len b) (contents b1) = contents b" "b_len b1 = b_len b + (n - 1)" "b_error b1 = b_error b"
      let ?m = "memmove_up (off + 1) (n - 1) ?len b1"
      have p: "off + 1 + ?len + (n - 1) = b_len b1" using b1(6) assms(3) by simp
      note m = contents_memmove_up [OF b1(3) p]
      have tl: "take ?len (drop (off + 1) (contents b1)) = drop (off + 1) (contents b)"
        unfolding b1(5) [symmetric] by (simp add: drop_take)
      have hd: "take off (contents b1) = take off (contents b)"
        unfolding b1(5) [symmetric] using assms(3) by (simp add: min_def)
      have "store_at (contents ?m) off (b0 # be_bytes (n - 1) rest) =
        take off (contents b) @ (b0 # be_bytes (n - 1) rest) @ drop (off + 1) (contents b)"
        unfolding m(1) tl using b1(3,6) hd assms(3) dl(3)
        by (simp add: store_at_def min_absorb2 min_absorb1)
      then show thesis
        using False add b1 m by (intro store [of ?m]) (simp_all add: big_def)
    next
      assume "r1 = None" "base1 = Some (b\<lparr>b_error := True\<rparr>)" "\<not> can_hold malloc b (b_len b + (n - 1))"
      with False add run' assms(2) show thesis
        by (intro fail [of "b\<lparr>b_error := True\<rparr>"])
          (simp_all add: big_def set_error_def wf_buf_def blk_def grows_def)
    qed
  qed
qed

lemma wf_set_error [simp]: "wf_buf (b\<lparr>b_error := True\<rparr>) = wf_buf b" "grows c (b\<lparr>b_error := True\<rparr>) = grows c b"
  by (simp_all add: wf_buf_def blk_def grows_def)

lemma write_prefix_cases:
  assumes "malloc_ok malloc" "wf_buf b" "wf_cbb ch (b_len b)"
    and run: "write_prefix malloc ch (Some b) = (r, base)"
  obtains (ok) b' where "r = Some ()" "base = Some b'" "wf_buf b'" "grows b b'" "b_error b' = b_error b"
      "seal ch (contents b) = Some (contents b')"
  | (fail) b' where "r = None" "base = Some b'" "wf_buf b'" "grows b b'" "b_error b'"
      "\<And>cs. seal ch (contents b) = Some cs \<Longrightarrow> \<not> can_hold malloc b (length cs)"
proof -
  obtain c off pll asn ic where ch: "ch = CBB c off pll asn ic" by (cases ch)
  have off: "off + pll \<le> b_len b" "asn \<Longrightarrow> pll = 1" using assms(3) ch by simp_all
  have L: "b_len b + 8 < OBJECT_LIMIT" using assms(2) by (rule length_le_contents)
  have cs: "(off + pll) mod SIZE_LIMIT = off + pll" using L off by simp
  show thesis
  proof (cases asn)
    case True
    then have True': "asn = True" by simp
    from True off have pll: "pll = 1" by simp
    show thesis
    proof (cases "b_len b - (off + 1) \<le> 0xfffffffe")
      case False
      with run off True cs assms(2) show thesis
        by (intro fail [of "b\<lparr>b_error := True\<rparr>"])
          (simp_all add: ch pll write_prefix_def set_error_def seal_def len_prefix_def base_of_def)
    next
      case len: True
      obtain n b0 rest where lens: "asn1_len_len (b_len b - (off + 1)) = (n, b0, rest)"
        by (cases "asn1_len_len (b_len b - (off + 1))")
      note dl = asn1_len_len_der [OF lens len]
      have sl: "seal ch (contents b) =
        Some (take off (contents b) @ (b0 # be_bytes (n - 1) rest) @ drop (off + 1) (contents b))"
        using assms(2) len True dl(1) by (simp add: ch pll seal_def len_prefix_def base_of_def)
      have o1: "off + 1 \<le> b_len b" using off pll by simp
      have "length (take off (contents b) @ (b0 # be_bytes (n - 1) rest) @ drop (off + 1) (contents b)) =
          b_len b + (n - 1)"
        using o1 assms(2) dl(3) by simp
      with write_prefix_asn1 [OF assms(1,2) o1 len lens run [unfolded ch pll True']] sl ok fail
      show thesis by (metis option.inject)
    qed
  next
    case False
    obtain b' where b': "store_be_loop pll (b_len b - (off + pll)) off b =
        (b', (b_len b - (off + pll)) div 256 ^ pll)" "wf_buf b'" "grows b b'"
      "b_len b' = b_len b" "b_error b' = b_error b"
      "contents b' = store_at (contents b) off (be_bytes pll (b_len b - (off + pll)))"
      using store_be_loop_spec [OF assms(2) off(1)] by blast
    show thesis
    proof (cases "b_len b - (off + pll) < 256 ^ pll")
      case True
      with run off False cs b' assms(2) show thesis
        by (intro ok [of b'])
          (simp_all add: ch write_prefix_def seal_def len_prefix_def base_of_def store_at_def)
    next
      case big: False
      then have "(b_len b - (off + pll)) div 256 ^ pll \<noteq> 0" by (simp add: div_eq_0_iff)
      with run off big False cs b' assms(2) show thesis
        by (intro fail [of "b'\<lparr>b_error := True\<rparr>"])
          (simp_all add: ch write_prefix_def set_error_def seal_def len_prefix_def base_of_def)
    qed
  qed
qed

section \<open>Flushing a chain of children\<close>

lemma length_der_length_pos: "1 \<le> length (der_length n)"
  by (simp add: der_length_def)

lemma seal_keeps:
  assumes "wf_cbb ch (length cs)" "seal ch cs = Some cs'"
  shows "take (c_offset ch) cs' = take (c_offset ch) cs" "length cs \<le> length cs'"
proof -
  from assms(2) obtain pfx where pfx: "len_prefix ch (length cs - base_of ch) = Some pfx"
    and cs': "cs' = take (c_offset ch) cs @ pfx @ drop (base_of ch) cs"
    by (auto simp: seal_def)
  have b: "c_offset ch \<le> length cs" "base_of ch \<le> length cs"
    using wf_cbb_base [OF assms(1)] by (simp_all add: base_of_def)
  have "c_pending_len_len ch \<le> length pfx"
    using pfx wf_cbb_asn1 [OF assms(1)] length_der_length_pos
    by (auto simp: len_prefix_def split: if_splits)
  then show "take (c_offset ch) cs' = take (c_offset ch) cs" "length cs \<le> length cs'"
    using b by (simp_all add: cs' base_of_def)
qed

lemma closed_keeps:
  "closed c cs = Some cs' \<Longrightarrow> wf_cbb c (length cs) \<Longrightarrow>
   take (base_of c) cs' = take (base_of c) cs \<and> length cs \<le> length cs'"
proof (induction c cs arbitrary: cs' rule: closed.induct)
  case (2 ch off pll asn ic cs)
  then obtain cs1 where cs1: "closed ch cs = Some cs1" "seal ch cs1 = Some cs'"
    by (auto simp: bind_eq_Some_conv)
  from 2 have w: "wf_cbb ch (length cs)" "off + pll \<le> c_offset ch" by simp_all
  from "2.IH" [OF cs1(1) w(1)] have ih: "take (base_of ch) cs1 = take (base_of ch) cs"
    and le: "length cs \<le> length cs1" by simp_all
  note sk = seal_keeps [OF wf_cbb_mono [OF w(1) le] cs1(2)]
  have "take (off + pll) cs' = take (off + pll) (take (c_offset ch) cs')" using w(2) by simp
  also have "\<dots> = take (off + pll) (take (base_of ch) cs1)"
    unfolding sk(1) using w(2) by (simp add: base_of_def min_def)
  also have "\<dots> = take (off + pll) cs" unfolding ih using w(2) by (simp add: base_of_def min_def)
  finally show ?case using le sk(2) by (simp add: base_of_def)
qed simp

lemma base_of_set_child [simp]: "base_of (set_child x c) = base_of c"
  by (simp add: set_child_def base_of_def)

lemma wf_cbb_set_None: "wf_cbb c n \<Longrightarrow> wf_cbb (set_child None c) n"
  by (cases c) (simp add: set_child_def)

lemma closed_set_None [simp]: "closed (set_child None c) cs = Some cs"
  by (simp add: set_child_def)

lemma flush_cases:
  assumes "malloc_ok malloc" "wf_buf b" "wf_cbb c (b_len b)"
    and run: "flush malloc (Some b) c = (r, base, c')"
  obtains (ok) b' where "r = Some ()" "base = Some b'" "c' = set_child None c" "wf_buf b'" "grows b b'"
      "\<not> b_error b" "\<not> b_error b'" "closed c (contents b) = Some (contents b')"
  | (fail) b' where "r = None" "base = Some b'" "wf_buf b'" "grows b b'" "b_error b'"
      "\<And>cs. \<not> b_error b \<Longrightarrow> closed c (contents b) = Some cs \<Longrightarrow> \<not> can_hold malloc b (length cs)"
  using run assms(3)
proof (induction c arbitrary: r base c' thesis)
  case (CBB ch off pll asn ic)
  show ?case
  proof (cases "b_error b")
    case True
    with CBB(4) assms(2) show ?thesis by (intro CBB(3) [of b]) simp_all
  next
    case ne: False
    show ?thesis
    proof (cases ch)
      case None
      with CBB(4) ne assms(2) show ?thesis by (intro CBB(2) [of b]) (auto simp: set_child_def)
    next
      case (Some child)
      from CBB(5) Some have w: "0 < c_pending_len_len child" "wf_cbb child (b_len b)" by simp_all
      obtain r1 base1 child1 where fl: "flush malloc (Some b) child = (r1, base1, child1)"
        using prod_cases3 by blast
      show ?thesis
      proof (rule CBB(1) [OF _ _ _ fl w(2)])
        show "child \<in> set_option ch" using Some by simp
      next
        fix b1
        assume b1: "r1 = Some ()" "base1 = Some b1" "child1 = set_child None child" "wf_buf b1"
          "grows b b1" "\<not> b_error b" "\<not> b_error b1" "closed child (contents b) = Some (contents b1)"
        have "length (contents b) \<le> length (contents b1)"
          using closed_keeps [OF b1(8)] w(2) assms(2) by simp
        then have w1: "wf_cbb child1 (b_len b1)"
          using w(2) b1(3,4) assms(2) by (auto intro: wf_cbb_set_None wf_cbb_mono)
        have sc: "seal child1 = seal child"
          by (rule ext) (simp add: b1(3) seal_def len_prefix_def set_child_def base_of_def)
        obtain r2 base2 where wp: "write_prefix malloc child1 (Some b1) = (r2, base2)" by fastforce
        show ?thesis
        proof (rule write_prefix_cases [OF assms(1) b1(4) w1 wp])
          fix b2
          assume b2: "r2 = Some ()" "base2 = Some b2" "wf_buf b2" "grows b1 b2" "b_error b2 = b_error b1"
            "seal child1 (contents b1) = Some (contents b2)"
          with CBB(4) Some w ne fl b1 wp sc show ?thesis
            by (intro CBB(2) [of b2])
              (simp_all add: set_child_def grows_trans [OF b1(5) b2(4)])
        next
          fix b2
          assume b2: "r2 = None" "base2 = Some b2" "wf_buf b2" "grows b1 b2" "b_error b2"
            and nc: "\<And>cs. seal child1 (contents b1) = Some cs \<Longrightarrow> \<not> can_hold malloc b1 (length cs)"
          show ?thesis
          proof (rule CBB(3) [of b2])
            show "\<not> can_hold malloc b (length cs)"
              if "closed (CBB ch off pll asn ic) (contents b) = Some cs" for cs
              using that nc [of cs] b1(8) sc can_hold_grows [OF b1(5)] Some by auto
          qed (use CBB(4) Some w ne fl b1 wp b2 grows_trans [OF b1(5) b2(4)] in auto)
        qed
      next
        fix b1
        assume b1: "r1 = None" "base1 = Some b1" "wf_buf b1" "grows b b1" "b_error b1"
          and nc: "\<And>cs. \<not> b_error b \<Longrightarrow> closed child (contents b) = Some cs \<Longrightarrow>
            \<not> can_hold malloc b (length cs)"
        show ?thesis
        proof (rule CBB(3) [of "b1\<lparr>b_error := True\<rparr>"])
          show "\<not> can_hold malloc b (length cs)"
            if cl: "closed (CBB ch off pll asn ic) (contents b) = Some cs" for cs
          proof -
            from cl Some obtain cs1 where cs1: "closed child (contents b) = Some cs1" "seal child cs1 = Some cs"
              by (auto simp: bind_eq_Some_conv)
            have "length cs1 \<le> length cs"
              using seal_keeps [OF _ cs1(2)] closed_keeps [OF cs1(1)] w(2) assms(2)
              by (auto intro: wf_cbb_mono)
            with nc [OF ne cs1(1)] show ?thesis using can_hold_le by blast
          qed
        qed (use CBB(4) Some w ne fl b1 in \<open>auto simp: set_error_def\<close>)
      qed
    qed
  qed
qed

end
