(* ===== verification/Appender.thy ===== *)
theory Appender
  imports CBB_Flush
begin

text \<open>
  The contract every appending operation of \<open>cbb.c\<close> shares. An \<open>appender\<close> of the bytes \<open>d\<close>
  first gives every pending length its final value and then appends \<open>d\<close> to the contents of
  the CBB it is called on; it fails only when some length has no encoding, when memory runs
  out, or when an earlier operation on the builder failed, and after a failure the error
  stays. Like the readers of \<open>cbs.c\<close>, appenders are closed under sequencing, and moreover
  under opening a child.
\<close>

definition same_frame :: "cbb \<Rightarrow> cbb \<Rightarrow> bool" where
  "same_frame c c' \<longleftrightarrow> set_child None c = set_child None c'"

text \<open>\<open>appended b c d b' c'\<close>: the contents of \<open>c\<close> have been extended by \<open>d\<close>.\<close>

definition appended :: "cbb_buffer \<Rightarrow> cbb \<Rightarrow> bytes \<Rightarrow> cbb_buffer \<Rightarrow> cbb \<Rightarrow> bool" where
  "appended b c d b' c' \<longleftrightarrow>
     wf_buf b' \<and> grows b b' \<and> wf_cbb c' (b_len b') \<and> same_frame c c' \<and> \<not> b_error b \<and> \<not> b_error b' \<and>
     take (base_of c) (contents b') = take (base_of c) (contents b) \<and>
     (\<exists>cs. closed c (contents b) = Some cs \<and> closed c' (contents b') = Some (cs @ d))"

text \<open>\<open>refused\<close>: the error is set, and there was a reason for it.\<close>

definition refused :: "allocator \<Rightarrow> cbb_buffer \<Rightarrow> cbb \<Rightarrow> bytes \<Rightarrow> cbb_buffer \<Rightarrow> bool" where
  "refused malloc b c d b' \<longleftrightarrow>
     wf_buf b' \<and> grows b b' \<and> b_error b' \<and>
     (\<forall>cs. \<not> b_error b \<longrightarrow> closed c (contents b) = Some cs \<longrightarrow> \<not> can_hold malloc b (length cs + length d))"

definition fits :: "nat \<Rightarrow> bool" where
  "fits n \<longleftrightarrow> n < OBJECT_LIMIT"

locale appender =
  fixes malloc :: allocator and op :: "(cbb_state, 'a) reader" and d :: bytes
  assumes run: "malloc_ok malloc \<Longrightarrow> wf_buf b \<Longrightarrow> wf_cbb c (b_len b) \<Longrightarrow> fits (length d) \<Longrightarrow>
    case op (Some b, c) of
      (Some a, Some b', c') \<Rightarrow> appended b c d b' c'
    | (None, Some b', c') \<Rightarrow> refused malloc b c d b'
    | (_, None, c') \<Rightarrow> False"
begin

lemma cases:
  assumes "malloc_ok malloc" "wf_buf b" "wf_cbb c (b_len b)" "fits (length d)" "op (Some b, c) = (r, st)"
  obtains (ok) a b' c' where "r = Some a" "st = (Some b', c')" "appended b c d b' c'"
  | (fail) b' c' where "r = None" "st = (Some b', c')" "refused malloc b c d b'"
  using run [OF assms(1-4)] assms(5) by (auto split: option.splits prod.splits)

text \<open>After an error nothing succeeds any more.\<close>

lemma error_sticks:
  assumes "malloc_ok malloc" "wf_buf b" "wf_cbb c (b_len b)" "fits (length d)" "b_error b"
  shows "fst (op (Some b, c)) = None"
proof -
  obtain r st where eq: "op (Some b, c) = (r, st)" by (rule prod.exhaust)
  show ?thesis
    by (rule cases [OF assms(1-4) eq]) (use assms(5) eq in \<open>auto simp: appended_def\<close>)
qed

text \<open>With room for the result the operation succeeds.\<close>

lemma succeeds:
  assumes "malloc_ok malloc" "wf_buf b" "wf_cbb c (b_len b)" "fits (length d)"
    and "\<not> b_error b" "closed c (contents b) = Some cs" "can_hold malloc b (length cs + length d)"
  obtains a b' c' where "op (Some b, c) = (Some a, Some b', c')" "appended b c d b' c'"
proof -
  obtain r st where eq: "op (Some b, c) = (r, st)" by (rule prod.exhaust)
  show thesis
    by (rule cases [OF assms(1-4) eq]) (use assms(5-7) eq that in \<open>auto simp: refused_def\<close>)
qed

end

text \<open>Most operations leave no child open: what they appended is then the end of the buffer.\<close>

locale flat_appender = appender +
  assumes flat: "malloc_ok malloc \<Longrightarrow> wf_buf b \<Longrightarrow> wf_cbb c (b_len b) \<Longrightarrow> fits (length d) \<Longrightarrow>
    op (Some b, c) = (Some a, base, c') \<Longrightarrow> c_child c' = None"
begin

lemma flat_cases:
  assumes "malloc_ok malloc" "wf_buf b" "wf_cbb c (b_len b)" "fits (length d)" "op (Some b, c) = (r, st)"
  obtains (ok) a b' cs where "r = Some a" "st = (Some b', set_child None c)"
      "appended b c d b' (set_child None c)" "closed c (contents b) = Some cs" "contents b' = cs @ d"
  | (fail) b' c' where "r = None" "st = (Some b', c')" "refused malloc b c d b'"
proof (rule cases [OF assms])
  fix a b' c'
  assume 1: "r = Some a" "st = (Some b', c')" "appended b c d b' c'"
  with flat [OF assms(1-4)] assms(5) have "c_child c' = None" by simp
  with 1(3) have c': "c' = set_child None c"
    by (cases c') (simp add: appended_def same_frame_def set_child_def)
  from 1(3) obtain cs where "closed c (contents b) = Some cs" "closed c' (contents b') = Some (cs @ d)"
    by (auto simp: appended_def)
  with 1 c' show thesis by (intro ok) simp_all
qed (use fail in blast)

end

section \<open>Closure under sequencing\<close>

lemma same_frame_base: "same_frame c c' \<Longrightarrow> base_of c' = base_of c"
  by (simp add: same_frame_def set_child_def base_of_def)

lemma same_frame_trans: "same_frame a b \<Longrightarrow> same_frame b c \<Longrightarrow> same_frame a c"
  by (simp add: same_frame_def)

lemma appended_trans:
  assumes "appended b c d b1 c1" "appended b1 c1 e b2 c2"
  shows "appended b c (d @ e) b2 c2"
  using assms same_frame_base [of c c1]
  by (auto simp: appended_def intro: grows_trans same_frame_trans)

lemma appended_refused:
  assumes "appended b c d b1 c1" "refused malloc b1 c1 e b2"
  shows "refused malloc b c (d @ e) b2"
  using assms can_hold_grows
  by (fastforce simp: appended_def refused_def add.assoc intro: grows_trans)

lemma refused_more: "refused malloc b c d b1 \<Longrightarrow> refused malloc b c (d @ e) b1"
  using can_hold_le by (fastforce simp: refused_def)

lemma appender_bindR:
  assumes f: "appender malloc f d" and g: "\<And>a. appender malloc (g a) e"
  shows "appender malloc (bindR f g) (d @ e)"
proof
  fix b c
  assume pre: "malloc_ok malloc" "wf_buf b" "wf_cbb c (b_len b)" "fits (length (d @ e))"
  then have len: "fits (length d)" "fits (length e)" by (simp_all add: fits_def)
  obtain r st where eq: "f (Some b, c) = (r, st)" by (rule prod.exhaust)
  show "case bindR f g (Some b, c) of
      (Some a, Some b', c') \<Rightarrow> appended b c (d @ e) b' c'
    | (None, Some b', c') \<Rightarrow> refused malloc b c (d @ e) b'
    | (_, None, c') \<Rightarrow> False"
  proof (rule appender.cases [OF f pre(1-3) len(1) eq])
    fix a b1 c1
    assume 1: "r = Some a" "st = (Some b1, c1)" "appended b c d b1 c1"
    obtain r2 st2 where eq2: "g a (Some b1, c1) = (r2, st2)" by (rule prod.exhaust)
    from 1(3) have w: "wf_buf b1" "wf_cbb c1 (b_len b1)" by (simp_all add: appended_def)
    show ?thesis
      by (rule appender.cases [OF g pre(1) w len(2) eq2])
        (use 1 eq eq2 in \<open>auto dest: appended_trans appended_refused\<close>)
  next
    fix b1 c1
    assume "r = None" "st = (Some b1, c1)" "refused malloc b c d b1"
    with eq show ?thesis by (simp add: refused_more)
  qed
qed

lemma flat_appender_bindR:
  assumes f: "appender malloc f d" and g: "\<And>a. flat_appender malloc (g a) e"
  shows "flat_appender malloc (bindR f g) (d @ e)"
proof (rule flat_appender.intro)
  show "appender malloc (bindR f g) (d @ e)"
    using f g by (intro appender_bindR) (simp_all add: flat_appender_def)
  show "flat_appender_axioms malloc (bindR f g) (d @ e)"
  proof
    fix b c a base c'
    assume pre: "malloc_ok malloc" "wf_buf b" "wf_cbb c (b_len b)" and len: "fits (length (d @ e))"
      and run: "bindR f g (Some b, c) = (Some a, base, c')"
    from run obtain x st where 1: "f (Some b, c) = (Some x, st)" "g x st = (Some a, base, c')"
      by (rule bindR_eq_SomeE)
    have len': "fits (length d)" "fits (length e)" using len by (simp_all add: fits_def)
    show "c_child c' = None"
      by (rule appender.cases [OF f pre len'(1) 1(1)])
        (use 1 flat_appender.flat [OF g pre(1) _ _ len'(2)] in \<open>auto simp: appended_def\<close>)
  qed
qed

section \<open>The primitive appenders\<close>

lemma appended_flush:
  assumes "wf_cbb c (b_len b)" "wf_buf b" "wf_buf b'" "grows b b'" "\<not> b_error b" "\<not> b_error b'"
    and cl: "closed c (contents b) = Some (contents b')"
  shows "appended b c [] b' (set_child None c)"
  using closed_keeps [OF cl] assms
  by (auto simp: appended_def same_frame_def set_child_def [of None "set_child None c"]
      intro: wf_cbb_set_None wf_cbb_mono) (simp_all add: set_child_def)

interpretation flush: flat_appender malloc "CBB_flush malloc" "[]" for malloc
proof
  fix b c a base c'
  assume pre: "malloc_ok malloc" "wf_buf b" "wf_cbb c (b_len b)"
    and "CBB_flush malloc (Some b, c) = (Some a, base, c')"
  then have eq: "flush malloc (Some b) c = (Some a, base, c')" by (simp add: CBB_flush_def)
  show "c_child c' = None"
    by (rule flush_cases [OF pre eq]) (simp_all add: set_child_def)
next
  fix b c
  assume pre: "malloc_ok malloc" "wf_buf b" "wf_cbb c (b_len b)"
  obtain r base c' where eq: "flush malloc (Some b) c = (r, base, c')" by (rule prod_cases3)
  show "case CBB_flush malloc (Some b, c) of
      (Some a, Some b', c') \<Rightarrow> appended b c [] b' c'
    | (None, Some b', c') \<Rightarrow> refused malloc b c [] b'
    | (_, None, c') \<Rightarrow> False"
    by (rule flush_cases [OF pre eq])
      (use eq pre in \<open>auto simp: CBB_flush_def refused_def intro: appended_flush\<close>)
qed

text \<open>An operation that flushes first needs to be looked at only where there is no child.\<close>

definition appends_flat :: "allocator \<Rightarrow> (cbb_state, 'a) reader \<Rightarrow> bytes \<Rightarrow> bool" where
  "appends_flat malloc g d \<longleftrightarrow>
     (\<forall>b c. malloc_ok malloc \<and> wf_buf b \<and> wf_cbb c (b_len b) \<and> c_child c = None \<and>
        \<not> b_error b \<and> fits (length d) \<longrightarrow>
        (case g (Some b, c) of
           (Some a, Some b', c') \<Rightarrow> c_child c' = None \<and> appended b c d b' c'
         | (None, Some b', c') \<Rightarrow> refused malloc b c d b'
         | (_, None, c') \<Rightarrow> False))"

lemma flat_after_flush:
  assumes g: "appends_flat malloc g d"
  shows "flat_appender malloc (bindR (CBB_flush malloc) (\<lambda>_. g)) d"
proof -
  have step: "case bindR (CBB_flush malloc) (\<lambda>_. g) (Some b, c) of
      (Some a, Some b', c') \<Rightarrow> c_child c' = None \<and> appended b c d b' c'
    | (None, Some b', c') \<Rightarrow> refused malloc b c d b'
    | (_, None, c') \<Rightarrow> False"
    if pre: "malloc_ok malloc" "wf_buf b" "wf_cbb c (b_len b)" and len: "fits (length d)" for b c
  proof -
    obtain r st where eq: "CBB_flush malloc (Some b, c) = (r, st)" by (rule prod.exhaust)
    have "fits (length ([] :: bytes))" by (simp add: fits_def)
    then show ?thesis
    proof (rule flush.flat_cases [OF pre _ eq])
      fix a b1 cs
      assume 1: "r = Some a" "st = (Some b1, set_child None c)" "appended b c [] b1 (set_child None c)"
      let ?c = "set_child None c"
      have "case g (Some b1, ?c) of
          (Some a, Some b', c') \<Rightarrow> c_child c' = None \<and> appended b1 ?c d b' c'
        | (None, Some b', c') \<Rightarrow> refused malloc b1 ?c d b'
        | (_, None, c') \<Rightarrow> False"
        by (rule g [unfolded appends_flat_def, rule_format])
          (use pre(1) len 1(3) in \<open>simp add: appended_def set_child_def\<close>)
      with eq 1(1,2) show ?thesis
        by (auto split: prod.splits option.splits
            dest: appended_trans [OF 1(3)] appended_refused [OF 1(3)])
    qed (use eq refused_more [of malloc b c "[]" _ d] in auto)
  qed
  show ?thesis
    by unfold_locales (use step in \<open>fastforce split: option.splits prod.splits\<close>)+
qed

lemma closed_flat: "c_child c = None \<Longrightarrow> closed c cs = Some cs"
  by (cases c) simp

lemma appended_flat:
  assumes "c_child c = None" "wf_buf b" "wf_cbb c (b_len b)" "wf_buf b'" "grows b b'" "\<not> b_error b" "\<not> b_error b'"
    and "contents b' = contents b @ d"
  shows "appended b c d b' c"
proof -
  have "b_len b' = b_len b + length d"
    using assms(2,4,8) by (metis length_append length_contents)
  with assms wf_cbb_base [OF assms(3)] show ?thesis
    by (auto simp: appended_def same_frame_def closed_flat intro: wf_cbb_mono)
qed

lemma flat_add_u:
  assumes "unat v < 256 ^ n" "0 < n"
  shows "flat_appender malloc (CBB_add_u malloc v n) (be_bytes n (unat v))"
  unfolding CBB_add_u_def
proof (rule flat_after_flush, unfold appends_flat_def, intro allI impI, elim conjE)
  fix b c
  assume pre: "malloc_ok malloc" "wf_buf b" "wf_cbb c (b_len b)" and c: "c_child c = None"
    and ne: "\<not> b_error b" and len: "fits (length (be_bytes n (unat v)))"
  then have n: "n < OBJECT_LIMIT" by (simp add: fits_def)
  obtain r base where eq: "cbb_buffer_add_u malloc v n (Some b) = (r, base)" by (rule prod.exhaust)
  show "case on_base (cbb_buffer_add_u malloc v n) (Some b, c) of
      (Some a, Some b', c') \<Rightarrow> c_child c' = None \<and> appended b c (be_bytes n (unat v)) b' c'
    | (None, Some b', c') \<Rightarrow> refused malloc b c (be_bytes n (unat v)) b'
    | (_, None, c') \<Rightarrow> False"
    by (rule cbb_buffer_add_u_cases [OF pre(1,2) n eq assms(2)])
      (use eq assms pre c ne in \<open>auto simp: on_base_def refused_def closed_flat intro: appended_flat\<close>)
qed

interpretation add_u8: flat_appender malloc "CBB_add_u8 malloc v" "[v]" for malloc v
proof -
  have "be_bytes 1 (unat v) = [v]" using be_bytes_be_nat [of "[v]"] by simp
  then show "flat_appender malloc (CBB_add_u8 malloc v) [v]"
    using flat_add_u [of "ucast v" 1 malloc] by (simp add: CBB_add_u8_def)
qed

lemma unat_u16_u32: "unat (v :: u16) < 65536" "unat (w :: u32) < 4294967296"
  using unsigned_less [of v, where ?'a = nat] unsigned_less [of w, where ?'a = nat] by simp_all

lemma unat_ucast_64:
  "unat (ucast (v :: u16) :: u64) = unat v" "unat (ucast (w :: u32) :: u64) = unat w"
proof -
  have "unat v < 2 ^ 64" "unat w < 2 ^ 64"
    by (rule less_trans [OF unat_u16_u32(1)], simp) (rule less_trans [OF unat_u16_u32(2)], simp)
  then show "unat (ucast v :: u64) = unat v" "unat (ucast w :: u64) = unat w"
    by (simp_all add: unsigned_ucast_eq take_bit_nat_eq_self)
qed

interpretation add_u16: flat_appender malloc "CBB_add_u16 malloc v" "be_bytes 2 (unat v)" for malloc v
  using flat_add_u [of "ucast v" 2 malloc] unat_u16_u32(1) [of v] by (simp add: CBB_add_u16_def unat_ucast_64)

interpretation add_u32: flat_appender malloc "CBB_add_u32 malloc v" "be_bytes 4 (unat v)" for malloc v
  using flat_add_u [of "ucast v" 4 malloc] unat_u16_u32(2) [of v] by (simp add: CBB_add_u32_def unat_ucast_64)

interpretation add_u64: flat_appender malloc "CBB_add_u64 malloc v" "be_bytes 8 (unat v)" for malloc v
  using flat_add_u [of v 8 malloc] unsigned_less [of v] by (simp add: CBB_add_u64_def)

lemma flat_add_bytes: "appends_flat malloc
  (bindR (on_base (cbb_buffer_add malloc (length dat))) (\<lambda>dest st. (Some (), store dest dat st))) dat"
proof (unfold appends_flat_def, intro allI impI, elim conjE)
  fix b c
  assume pre: "malloc_ok malloc" "wf_buf b" "wf_cbb c (b_len b)" and c: "c_child c = None"
    and ne: "\<not> b_error b" and len: "fits (length dat)"
  obtain r base where eq: "cbb_buffer_add malloc (length dat) (Some b) = (r, base)" by (rule prod.exhaust)
  have ob: "on_base (cbb_buffer_add malloc (length dat)) (Some b, c) = (r, base, c)"
    by (simp add: on_base_def eq)
  show "case bindR (on_base (cbb_buffer_add malloc (length dat)))
      (\<lambda>dest st. (Some (), store dest dat st)) (Some b, c) of
      (Some a, Some b', c') \<Rightarrow> c_child c' = None \<and> appended b c dat b' c'
    | (None, Some b', c') \<Rightarrow> refused malloc b c dat b'
    | (_, None, c') \<Rightarrow> False"
  proof (rule cbb_buffer_add_cases [OF pre(1,2) len [unfolded fits_def] eq])
    fix b1
    assume 1: "r = Some (b_len b)" "base = Some b1" "wf_buf b1" "grows b b1"
      "take (b_len b) (contents b1) = contents b" "b_len b1 = b_len b + length dat" "b_error b1 = b_error b"
    have "contents (poke (b_len b) dat b1) = contents b @ dat"
      using 1 by (simp add: contents_poke store_at_def)
    with 1 pre c ne have "appended b c dat (poke (b_len b) dat b1) c"
      by (intro appended_flat) simp_all
    with 1 ob c show ?thesis by (simp add: store_def bindR_def)
  qed (use ob pre c ne in \<open>simp_all add: bindR_def refused_def closed_flat\<close>)
qed

interpretation add_bytes: flat_appender malloc "CBB_add_bytes malloc dat" dat for malloc dat
  unfolding CBB_add_bytes_def by (rule flat_after_flush) (rule flat_add_bytes)

end
