(* ===== verification/CBB_Elements.thy ===== *)
theory CBB_Elements
  imports Appender DER_Values
begin

text \<open>
  Children: an \<open>opener\<close> appends some bytes and opens a child behind a placeholder for its
  length, a \<open>filler\<close> then works on that child. Opening and filling together append the bytes,
  the encoding of the length of what the child was filled with, and the child's contents.
  The ASN.1 writers are instances.
\<close>

definition filler :: "allocator \<Rightarrow> (cbb_state, 'a) reader \<Rightarrow> bytes \<Rightarrow> bool" where
  "filler malloc op d \<longleftrightarrow>
     (\<forall>b c ch cs. malloc_ok malloc \<and> fits (length d) \<and> c_child c = Some ch \<and> wf_buf b \<and> wf_cbb ch (b_len b) \<and>
        \<not> b_error b \<and> closed ch (contents b) = Some cs \<longrightarrow>
        (case op (Some b, c) of
           (Some a, Some b', c') \<Rightarrow> \<exists>ch'. c' = set_child (Some ch') c \<and> appended b ch d b' ch'
         | (None, Some b', c') \<Rightarrow> refused malloc b ch d b'
         | (_, None, c') \<Rightarrow> False))"

lemma set_child_set_child [simp]: "set_child x (set_child y c) = set_child x c"
  by (simp add: set_child_def)

lemma c_child_set_child [simp]: "c_child (set_child x c) = x"
  by (simp add: set_child_def)

lemma set_child_same: "c_child c = x \<Longrightarrow> set_child x c = c"
  by (cases c) (simp add: set_child_def)

lemma filler_cases:
  assumes "filler malloc op d" "malloc_ok malloc" "fits (length d)" "c_child c = Some ch" "wf_buf b"
    and "wf_cbb ch (b_len b)" "\<not> b_error b" "closed ch (contents b) = Some cs" "op (Some b, c) = (r, st)"
  obtains (ok) a b' ch' where "r = Some a" "st = (Some b', set_child (Some ch') c)" "appended b ch d b' ch'"
  | (fail) b' c' where "r = None" "st = (Some b', c')" "refused malloc b ch d b'"
proof -
  have "case op (Some b, c) of
      (Some a, Some b', c') \<Rightarrow> \<exists>ch'. c' = set_child (Some ch') c \<and> appended b ch d b' ch'
    | (None, Some b', c') \<Rightarrow> refused malloc b ch d b'
    | (_, None, c') \<Rightarrow> False"
    by (rule assms(1) [unfolded filler_def, rule_format]) (use assms(2-8) in blast)
  then show thesis
    using ok fail by (cases r; cases st; cases "fst st") (auto simp: assms(9))
qed

lemma fillerI:
  assumes "\<And>b c ch cs. malloc_ok malloc \<Longrightarrow> fits (length d) \<Longrightarrow> c_child c = Some ch \<Longrightarrow> wf_buf b \<Longrightarrow>
    wf_cbb ch (b_len b) \<Longrightarrow> \<not> b_error b \<Longrightarrow> closed ch (contents b) = Some cs \<Longrightarrow>
    case op (Some b, c) of
      (Some a, Some b', c') \<Rightarrow> \<exists>ch'. c' = set_child (Some ch') c \<and> appended b ch d b' ch'
    | (None, Some b', c') \<Rightarrow> refused malloc b ch d b'
    | (_, None, c') \<Rightarrow> False"
  shows "filler malloc op d"
  unfolding filler_def by (intro allI impI; elim conjE) (rule assms)

text \<open>
  An operation that need not flush, on a builder that is in order: a \<open>writer\<close> of \<open>d\<close>.
  Doing nothing is one, and every appender is.
\<close>

definition writer :: "allocator \<Rightarrow> (cbb_state, 'a) reader \<Rightarrow> bytes \<Rightarrow> bool" where
  "writer malloc op d \<longleftrightarrow>
     (\<forall>b c cs. malloc_ok malloc \<and> fits (length d) \<and> wf_buf b \<and> wf_cbb c (b_len b) \<and>
        \<not> b_error b \<and> closed c (contents b) = Some cs \<longrightarrow>
        (case op (Some b, c) of
           (Some a, Some b', c') \<Rightarrow> appended b c d b' c'
         | (None, Some b', c') \<Rightarrow> refused malloc b c d b'
         | (_, None, c') \<Rightarrow> False))"

lemma writer_cases:
  assumes "writer malloc op d" "malloc_ok malloc" "fits (length d)" "wf_buf b"
    and "wf_cbb c (b_len b)" "\<not> b_error b" "closed c (contents b) = Some cs" "op (Some b, c) = (r, st)"
  obtains (ok) a b' c' where "r = Some a" "st = (Some b', c')" "appended b c d b' c'"
  | (fail) b' c' where "r = None" "st = (Some b', c')" "refused malloc b c d b'"
proof -
  have "case op (Some b, c) of
      (Some a, Some b', c') \<Rightarrow> appended b c d b' c'
    | (None, Some b', c') \<Rightarrow> refused malloc b c d b'
    | (_, None, c') \<Rightarrow> False"
    by (rule assms(1) [unfolded writer_def, rule_format]) (use assms(2-7) in blast)
  then show thesis
    using ok fail by (cases r; cases st; cases "fst st") (auto simp: assms(8))
qed

lemma writerI:
  assumes "\<And>b c cs. malloc_ok malloc \<Longrightarrow> fits (length d) \<Longrightarrow> wf_buf b \<Longrightarrow> wf_cbb c (b_len b) \<Longrightarrow>
    \<not> b_error b \<Longrightarrow> closed c (contents b) = Some cs \<Longrightarrow>
    case op (Some b, c) of
      (Some a, Some b', c') \<Rightarrow> appended b c d b' c'
    | (None, Some b', c') \<Rightarrow> refused malloc b c d b'
    | (_, None, c') \<Rightarrow> False"
  shows "writer malloc op d"
  unfolding writer_def by (intro allI impI; elim conjE) (rule assms)

lemma writer_appender: "appender malloc op d \<Longrightarrow> writer malloc op d"
  by (rule writerI) (rule appender.run)

lemma writer_bindR:
  assumes f: "writer malloc f d" and g: "\<And>a. writer malloc (g a) e"
  shows "writer malloc (bindR f g) (d @ e)"
proof (rule writerI)
  fix b c cs
  assume m: "malloc_ok malloc" and fit: "fits (length (d @ e))"
    and w: "wf_buf b" "wf_cbb c (b_len b)" "\<not> b_error b" "closed c (contents b) = Some cs"
  then have len: "fits (length d)" "fits (length e)" by (simp_all add: fits_def)
  obtain r st where eq: "f (Some b, c) = (r, st)" by (rule prod.exhaust)
  show "case bindR f g (Some b, c) of
      (Some a, Some b', c') \<Rightarrow> appended b c (d @ e) b' c'
    | (None, Some b', c') \<Rightarrow> refused malloc b c (d @ e) b'
    | (_, None, c') \<Rightarrow> False"
  proof (rule writer_cases [OF f m len(1) w eq])
    fix a b1 c1
    assume 1: "r = Some a" "st = (Some b1, c1)" "appended b c d b1 c1"
    obtain r2 st2 where eq2: "g a (Some b1, c1) = (r2, st2)" by (rule prod.exhaust)
    from 1(3) obtain cs1 where w1: "wf_buf b1" "wf_cbb c1 (b_len b1)" "\<not> b_error b1"
      "closed c1 (contents b1) = Some cs1"
      by (auto simp: appended_def)
    show ?thesis
      by (rule writer_cases [OF g m len(2) w1 eq2])
        (use 1 eq eq2 in \<open>auto dest: appended_trans appended_refused\<close>)
  next
    fix b1 c1
    assume "r = None" "st = (Some b1, c1)" "refused malloc b c d b1"
    with eq show ?thesis by (simp add: refused_more)
  qed
qed

lemma filler_on_child_writer:
  assumes f: "writer malloc f d"
  shows "filler malloc (on_child f) d"
proof (rule fillerI)
  fix b c ch cs
  assume pre: "malloc_ok malloc" "fits (length d)" and c: "c_child c = Some ch"
    and w: "wf_buf b" "wf_cbb ch (b_len b)" "\<not> b_error b" "closed ch (contents b) = Some cs"
  obtain r st where eq: "f (Some b, ch) = (r, st)" by (rule prod.exhaust)
  show "case on_child f (Some b, c) of
      (Some a, Some b', c') \<Rightarrow> \<exists>ch'. c' = set_child (Some ch') c \<and> appended b ch d b' ch'
    | (None, Some b', c') \<Rightarrow> refused malloc b ch d b'
    | (_, None, c') \<Rightarrow> False"
    by (rule writer_cases [OF f pre w eq]) (use eq c in \<open>auto simp: on_child_def\<close>)
qed

lemma filler_on_child: "appender malloc f d \<Longrightarrow> filler malloc (on_child f) d"
  by (intro filler_on_child_writer writer_appender)

lemma appended_refl:
  assumes "wf_buf b" "wf_cbb c (b_len b)" "\<not> b_error b" "closed c (contents b) = Some cs"
  shows "appended b c [] b c"
  using assms by (simp add: appended_def same_frame_def)

lemma writer_returnR: "writer malloc (returnR a) []"
  by (rule writerI) (simp add: returnR_def appended_refl)

lemma filler_returnR: "filler malloc (returnR a) []"
  by (rule fillerI) (auto simp: returnR_def set_child_same [symmetric] intro!: exI appended_refl)

lemma filler_bindR:
  assumes f: "filler malloc f d" and g: "\<And>a. filler malloc (g a) e"
  shows "filler malloc (bindR f g) (d @ e)"
proof (rule fillerI)
  fix b c ch cs
  assume m: "malloc_ok malloc" and fit: "fits (length (d @ e))" and c: "c_child c = Some ch"
    and w: "wf_buf b" "wf_cbb ch (b_len b)" "\<not> b_error b" "closed ch (contents b) = Some cs"
  then have len: "fits (length d)" "fits (length e)" by (simp_all add: fits_def)
  obtain r st where eq: "f (Some b, c) = (r, st)" by (rule prod.exhaust)
  show "case bindR f g (Some b, c) of
      (Some a, Some b', c') \<Rightarrow> \<exists>ch'. c' = set_child (Some ch') c \<and> appended b ch (d @ e) b' ch'
    | (None, Some b', c') \<Rightarrow> refused malloc b ch (d @ e) b'
    | (_, None, c') \<Rightarrow> False"
  proof (rule filler_cases [OF f m len(1) c w eq])
    fix a b1 ch1
    assume 1: "r = Some a" "st = (Some b1, set_child (Some ch1) c)" "appended b ch d b1 ch1"
    obtain r2 st2 where eq2: "g a (Some b1, set_child (Some ch1) c) = (r2, st2)" by (rule prod.exhaust)
    from 1(3) obtain cs1 where w1: "wf_buf b1" "wf_cbb ch1 (b_len b1)" "\<not> b_error b1"
      "closed ch1 (contents b1) = Some cs1"
      by (auto simp: appended_def)
    show ?thesis
      by (rule filler_cases [OF g m len(2) c_child_set_child w1 eq2])
        (use 1 eq eq2 in \<open>auto dest: appended_trans appended_refused\<close>)
  next
    fix b1 c1
    assume "r = None" "st = (Some b1, c1)" "refused malloc b ch d b1"
    with eq show ?thesis by (simp add: refused_more)
  qed
qed

lemma filler_bindR_returnR:
  assumes "filler malloc f d" shows "filler malloc (bindR f (\<lambda>a. returnR (g a))) d"
  using filler_bindR [OF assms, of "\<lambda>a. returnR (g a)" "[]"] by (simp add: filler_returnR)

section \<open>Opening a child\<close>

definition opener :: "allocator \<Rightarrow> (cbb_state, unit) reader \<Rightarrow> bytes \<Rightarrow> nat \<Rightarrow> bool \<Rightarrow> bool" where
  "opener malloc op pfx k asn \<longleftrightarrow>
     0 < k \<and> (asn \<longrightarrow> k = 1) \<and>
     (\<forall>b c. malloc_ok malloc \<and> wf_buf b \<and> wf_cbb c (b_len b) \<and> fits (length pfx + k) \<longrightarrow>
        (case op (Some b, c) of
           (Some _, Some b', c') \<Rightarrow>
             \<exists>cs z. length z = k \<and> closed c (contents b) = Some cs \<and> contents b' = cs @ pfx @ z \<and>
               c' = set_child (Some (CBB None (length (cs @ pfx)) k asn True)) c \<and>
               wf_buf b' \<and> grows b b' \<and> \<not> b_error b \<and> \<not> b_error b'
         | (None, Some b', c') \<Rightarrow> refused malloc b c (pfx @ replicate k 0) b'
         | (_, None, c') \<Rightarrow> False))"

lemma opener_cases:
  assumes "opener malloc op pfx k asn" "malloc_ok malloc" "wf_buf b" "wf_cbb c (b_len b)"
    and "fits (length pfx + k)" "op (Some b, c) = (r, st)"
  obtains (ok) b' cs z where "r = Some ()"
      "st = (Some b', set_child (Some (CBB None (length (cs @ pfx)) k asn True)) c)"
      "length z = k" "closed c (contents b) = Some cs" "contents b' = cs @ pfx @ z"
      "wf_buf b'" "grows b b'" "\<not> b_error b" "\<not> b_error b'"
  | (fail) b' c' where "r = None" "st = (Some b', c')" "refused malloc b c (pfx @ replicate k 0) b'"
proof -
  have "case op (Some b, c) of
      (Some _, Some b', c') \<Rightarrow>
        \<exists>cs z. length z = k \<and> closed c (contents b) = Some cs \<and> contents b' = cs @ pfx @ z \<and>
          c' = set_child (Some (CBB None (length (cs @ pfx)) k asn True)) c \<and>
          wf_buf b' \<and> grows b b' \<and> \<not> b_error b \<and> \<not> b_error b'
    | (None, Some b', c') \<Rightarrow> refused malloc b c (pfx @ replicate k 0) b'
    | (_, None, c') \<Rightarrow> False"
    by (rule assms(1) [unfolded opener_def, THEN conjunct2, THEN conjunct2, rule_format])
      (use assms(2-5) in blast)
  then show thesis
    using ok fail by (cases r; cases st; cases "fst st") (auto simp: assms(6))
qed

definition encoded_len :: "bool \<Rightarrow> nat \<Rightarrow> nat \<Rightarrow> bytes option" where
  "encoded_len asn k len = len_prefix (CBB None 0 k asn True) len"

lemma refused_le:
  "refused malloc b c d b' \<Longrightarrow> length d \<le> length e \<Longrightarrow> refused malloc b c e b'"
  using can_hold_le by (fastforce simp: refused_def)

lemma length_encoded_len: "encoded_len asn k n = Some lp \<Longrightarrow> (asn \<longrightarrow> k = 1) \<Longrightarrow> k \<le> length lp"
  using length_der_length_pos by (auto simp: encoded_len_def len_prefix_def split: if_splits)

text \<open>What a parent looks like after its child was filled.\<close>

lemma appended_child:
  assumes pre: "wf_buf b" "wf_cbb c (b_len b)" "closed c (contents b) = Some cs" "\<not> b_error b"
    and open_: "contents b1 = cs @ pfx @ z" "length z = k" "wf_buf b1" "grows b b1" "0 < k"
    and fill: "appended b1 (CBB None (length (cs @ pfx)) k asn True) d b2 ch"
    and lp: "encoded_len asn k (length d) = Some lp"
  shows "appended b c (pfx @ lp @ d) b2 (set_child (Some ch) c)"
proof -
  let ?ch = "CBB None (length (cs @ pfx)) k asn True"
  from fill have f: "wf_buf b2" "grows b1 b2" "wf_cbb ch (b_len b2)" "same_frame ?ch ch" "\<not> b_error b2"
    "take (base_of ?ch) (contents b2) = take (base_of ?ch) (contents b1)"
    "closed ch (contents b2) = Some (contents b1 @ d)"
    by (simp_all add: appended_def)
  from f(4) have fr: "c_offset ch = length (cs @ pfx)" "c_pending_len_len ch = k" "c_pending_is_asn1 ch = asn"
    by (simp_all add: same_frame_def set_child_def)
  note keep = closed_keeps [OF pre(3)]
  have b0: "base_of c \<le> length cs" "take (base_of c) cs = take (base_of c) (contents b)"
    using keep wf_cbb_base [OF pre(2)] pre(1,2) by simp_all
  have b1: "take (base_of c) (contents b1) = take (base_of c) (contents b)"
    using b0 by (simp add: open_(1))
  have "take (base_of c) (contents b2) = take (base_of c) (take (base_of ?ch) (contents b2))"
    using b0(1) by (simp add: base_of_def min_def)
  also have "\<dots> = take (base_of c) (contents b)"
    unfolding f(6) using b0 b1 by (simp add: base_of_def open_(1))
  finally have keep2: "take (base_of c) (contents b2) = take (base_of c) (contents b)" .
  have "seal ch (contents b1 @ d) = Some (cs @ pfx @ lp @ d)"
    using lp by (simp add: seal_def fr base_of_def open_(1,2) encoded_len_def len_prefix_def split: if_splits)
  then have cl: "closed (set_child (Some ch) c) (contents b2) = Some ((cs @ pfx @ lp @ d))"
    using f(7) by (simp add: set_child_def)
  have "b_len b \<le> length cs" using keep pre(1,2) by simp
  moreover have "length cs \<le> b_len b2"
    using wf_cbb_base [OF f(3)] fr by (simp add: base_of_def)
  ultimately have "wf_cbb c (b_len b2)" using pre(2) by (auto intro: wf_cbb_mono)
  then have "wf_cbb (set_child (Some ch) c) (b_len b2)"
    using b0(1) f(3) fr open_(5) by (cases c) (simp add: set_child_def base_of_def)
  then show ?thesis
    using f grows_trans [OF open_(4) f(2)] pre keep2 cl by (simp add: appended_def same_frame_def)
qed

lemma appender_element:
  assumes op: "opener malloc op pfx k asn" and g: "filler malloc g d"
    and lp: "encoded_len asn k (length d) = Some lp"
  shows "appender malloc (bindR op (\<lambda>_. g)) (pfx @ lp @ d)"
proof
  fix b c
  assume m: "malloc_ok malloc" and w: "wf_buf b" "wf_cbb c (b_len b)" and len: "fits (length (pfx @ lp @ d))"
  from op have k: "0 < k" "asn \<longrightarrow> k = 1" by (simp_all add: opener_def)
  have kl: "k \<le> length lp" using length_encoded_len [OF lp k(2)] .
  then have ok: "fits (length pfx + k)" "fits (length d)" using len by (simp_all add: fits_def)
  obtain r st where eq: "op (Some b, c) = (r, st)" by (rule prod.exhaust)
  show "case bindR op (\<lambda>_. g) (Some b, c) of
      (Some a, Some b', c') \<Rightarrow> appended b c (pfx @ lp @ d) b' c'
    | (None, Some b', c') \<Rightarrow> refused malloc b c (pfx @ lp @ d) b'
    | (_, None, c') \<Rightarrow> False"
  proof (rule opener_cases [OF op m w ok(1) eq])
    fix b1 cs z
    assume 1: "r = Some ()" "st = (Some b1, set_child (Some (CBB None (length (cs @ pfx)) k asn True)) c)"
      "length z = k" "closed c (contents b) = Some cs" "contents b1 = cs @ pfx @ z"
      "wf_buf b1" "grows b b1" "\<not> b_error b" "\<not> b_error b1"
    let ?ch = "CBB None (length (cs @ pfx)) k asn True"
    have L: "b_len b1 = length (cs @ pfx @ z)" using length_contents [OF 1(6)] 1(5) by simp
    then have wc: "wf_cbb ?ch (b_len b1)" using k 1(3) by simp
    obtain r2 st2 where eq2: "g (Some b1, set_child (Some ?ch) c) = (r2, st2)" by (rule prod.exhaust)
    show ?thesis
    proof (rule filler_cases [OF g m ok(2) c_child_set_child 1(6) wc 1(9) _ eq2])
      show "closed ?ch (contents b1) = Some (contents b1)" by simp
    next
      fix a b2 ch2
      assume "r2 = Some a" "st2 = (Some b2, set_child (Some ch2) (set_child (Some ?ch) c))"
        "appended b1 ?ch d b2 ch2"
      with appended_child [OF w 1(4,8,5,3,6,7) k(1) _ lp] eq eq2 1(1,2) show ?thesis by simp
    next
      fix b2 c2
      assume 2: "r2 = None" "st2 = (Some b2, c2)" "refused malloc b1 ?ch d b2"
      then have "\<not> can_hold malloc b1 (length (cs @ pfx @ z) + length d)"
        using 1(5,9) by (simp add: refused_def)
      moreover have "length (cs @ pfx @ z) + length d \<le> length cs + length (pfx @ lp @ d)"
        using kl 1(3) by simp
      ultimately have "\<not> can_hold malloc b (length cs + length (pfx @ lp @ d))"
        using can_hold_grows [OF 1(7)] can_hold_le by blast
      with 2 1 eq eq2 show ?thesis
        by (simp add: refused_def) (meson grows_trans)
    qed
  next
    fix b1 c1
    assume "r = None" "st = (Some b1, c1)" "refused malloc b c (pfx @ replicate k 0) b1"
    with eq refused_le [of malloc b c "pfx @ replicate k 0" b1 "pfx @ lp @ d"] kl show ?thesis by simp
  qed
qed

section \<open>Base-128 integers and tags\<close>

lemma base128_len_bounds:
  "0 < v \<Longrightarrow> 0 < base128_len v \<and> 128 ^ (base128_len v - 1) \<le> v \<and> v < 128 ^ base128_len v"
proof (induction v rule: base128_len.induct)
  case (1 v)
  show ?case
  proof (cases "v div 128 = 0")
    case True
    with 1 show ?thesis by (simp add: base128_len.simps [of v] base128_len.simps [of 0] div_eq_0_iff)
  next
    case False
    define k where "k = base128_len (v div 128)"
    from False 1 have ih: "0 < k" "128 ^ (k - 1) \<le> v div 128" "v div 128 < 128 ^ k"
      by (simp_all add: k_def)
    have "(128 :: nat) ^ k = 128 ^ (k - 1) * 128" using ih(1) by (metis power_minus_mult)
    also have "\<dots> \<le> v" using ih(2) by (simp add: less_eq_div_iff_mult_less_eq)
    finally have "128 ^ k \<le> v" .
    moreover have "v < 128 ^ Suc k" using ih(3) by (simp add: div_less_iff_less_mult mult.commute)
    moreover have "base128_len v = Suc k" using 1(2) by (simp add: base128_len.simps [of v] k_def)
    ultimately show ?thesis by simp
  qed
qed

text \<open>The bytes the loop writes for the groups \<open>i - 1\<close> down to 0.\<close>

fun b128_groups :: "nat \<Rightarrow> nat \<Rightarrow> bytes" where
  "b128_groups v 0 = []"
| "b128_groups v (Suc i) = b128_byte (i \<noteq> 0) (v div 128 ^ i) # b128_groups v i"

lemma b128_groups_snoc:
  "b128_groups v (Suc i) =
     rev (map (\<lambda>j. b128_byte True (v div 128 ^ j)) [1..<Suc i]) @ [b128_byte False v]"
  by (induction i) simp_all

lemma b128_more_eq:
  "n < 128 ^ k \<Longrightarrow> 0 < k \<longrightarrow> 128 ^ (k - 1) \<le> n \<Longrightarrow>
   b128_more n = rev (map (\<lambda>j. b128_byte True (n div 128 ^ j)) [0..<k])"
proof (induction k arbitrary: n)
  case (Suc k)
  have pos: "0 < n" using Suc.prems by (auto intro: Nat.gr0I)
  have lt: "n div 128 < 128 ^ k" using Suc.prems by (simp add: div_less_iff_less_mult mult.commute)
  have ge: "0 < k \<longrightarrow> 128 ^ (k - 1) \<le> n div 128"
    using Suc.prems power_minus_mult [of k "128 :: nat"] by (auto simp: less_eq_div_iff_mult_less_eq)
  have "rev (map (\<lambda>j. b128_byte True (n div 128 ^ j)) [0..<Suc k]) =
      rev (map (\<lambda>j. b128_byte True (n div 128 ^ Suc j)) [0..<k]) @ [b128_byte True n]"
    by (simp only: upt_conv_Cons [of 0 "Suc k"] list.map map_Suc_upt [symmetric] map_map) (simp add: comp_def)
  then show ?case
    using Suc.IH [OF lt ge] b128_more_pos [OF pos] by (simp add: div_mult2_eq)
qed simp

lemma b128_groups_base128: "b128_groups v (if base128_len v = 0 then 1 else base128_len v) = base128 v"
proof (cases "v = 0")
  case True
  then show ?thesis by (simp add: base128_def base128_len.simps)
next
  case False
  then obtain k where k: "base128_len v = Suc k" "128 ^ k \<le> v" "v < 128 ^ Suc k"
    using base128_len_bounds [of v] by (metis Suc_pred' diff_Suc_1 neq0_conv)
  have lt: "v div 128 < 128 ^ k" using k(3) by (simp add: div_less_iff_less_mult mult.commute)
  have ge: "0 < k \<longrightarrow> 128 ^ (k - 1) \<le> v div 128"
    using k(2) power_minus_mult [of k "128 :: nat"] by (auto simp: less_eq_div_iff_mult_less_eq)
  have "map (\<lambda>j. b128_byte True (v div 128 ^ j)) [1..<Suc k] =
      map (\<lambda>j. b128_byte True (v div 128 div 128 ^ j)) [0..<k]"
    by (simp only: One_nat_def map_Suc_upt [symmetric] map_map) (simp add: comp_def div_mult2_eq)
  then show ?thesis
    using b128_more_eq [OF lt ge] by (simp add: k(1) b128_groups_snoc base128_def del: b128_groups.simps)
qed

lemma group_byte:
  "ucast (drop_bit (7 * i) v AND 0x7f :: u64) = b128_byte False (unat v div 128 ^ i)"
proof (rule word_unat_eq_iff [THEN iffD2])
  have m: "drop_bit (7 * i) v AND 0x7f = take_bit 7 (drop_bit (7 * i) v)"
    by (simp add: take_bit_eq_mask mask_eq_exp_minus_1)
  have "unat (drop_bit (7 * i) v AND 0x7f) = unat v div 128 ^ i mod 128"
    using unsigned_less [of v, where ?'a = nat]
    unfolding m unsigned_take_bit_eq unsigned_drop_bit_eq
    by (simp add: take_bit_eq_mod drop_bit_eq_div power_mult)
  then show "unat (ucast (drop_bit (7 * i) v AND 0x7f :: u64) :: u8) = unat (b128_byte False (unat v div 128 ^ i))"
    by (simp add: unsigned_ucast_eq take_bit_eq_mod b128_byte_def unat_of_nat)
qed

lemma group_byte_more: "b128_byte False n OR 0x80 = b128_byte True n"
  using or_0x80 [of "n mod 128"] by (simp add: b128_byte_def or.commute add.commute)

lemma flat_base128_loop:
  "flat_appender malloc (add_base128_loop malloc v (Suc i)) (b128_groups (unat v) (Suc i))"
proof (induction i)
  case 0
  show ?case
    using add_u8.flat_appender_axioms [of malloc "b128_byte False (unat v)"]
    by (simp add: group_byte [of 0, simplified])
next
  case (Suc i)
  have "flat_appender malloc (bindR (CBB_add_u8 malloc (b128_byte True (unat v div 128 ^ Suc i)))
      (\<lambda>_. add_base128_loop malloc v (Suc i)))
    ([b128_byte True (unat v div 128 ^ Suc i)] @ b128_groups (unat v) (Suc i))"
    by (intro flat_appender_bindR add_u8.appender_axioms Suc.IH)
  then show ?case
    by (simp only: add_base128_loop.simps(2) [of _ _ "Suc i"] group_byte group_byte_more Let_def
        if_True simp_thms nat.distinct b128_groups.simps(2) [of _ "Suc i"] append_Cons append_Nil)
qed

interpretation add_base128: flat_appender malloc "add_base128_integer malloc v" "base128 (unat v)" for malloc v
proof -
  define len where "len = (if base128_len (unat v) = 0 then 1 else base128_len (unat v))"
  then have "len \<noteq> 0" by simp
  then obtain i where i: "len = Suc i" using not0_implies_Suc by blast
  have "b128_groups (unat v) len = base128 (unat v)" unfolding len_def by (rule b128_groups_base128)
  then have "flat_appender malloc (add_base128_loop malloc v len) (base128 (unat v))"
    using flat_base128_loop [of malloc v i] by (simp only: i)
  then show "flat_appender malloc (add_base128_integer malloc v) (base128 (unat v))"
    by (simp only: add_base128_integer_def Let_def len_def)
qed

definition tag_class :: "u32 \<Rightarrow> nat" where
  "tag_class tag = unat tag div 2 ^ 29"

lemma tag_class_less: "tag_class tag < 8"
  using unsigned_less [of tag, where ?'a = nat] by (simp add: tag_class_def div_less_iff_less_mult)

lemma tag_bits_or:
  assumes "unat n < 32"
  shows "(ucast (drop_bit CBS_ASN1_TAG_SHIFT tag) AND 0xe0) OR n = (word_of_nat (tag_class tag * 32 + unat n) :: u8)"
proof -
  let ?t = "ucast (drop_bit CBS_ASN1_TAG_SHIFT tag) :: u8"
  let ?c = "take_bit 3 (drop_bit 5 ?t)"
  have "(0xe0 :: u8) = push_bit 5 (mask 3)" by (simp add: mask_eq_exp_minus_1 push_bit_eq_mult)
  then have e: "?t AND 0xe0 = push_bit 5 ?c" by (simp only: and_push_mask)
  have "unat ?t = unat tag div 2 ^ 24 mod 256"
    by (simp add: unsigned_ucast_eq CBS_ASN1_TAG_SHIFT_def unat_div_distrib drop_bit_eq_div take_bit_eq_mod)
  moreover have "unat ?c = unat ?t div 32 mod 8"
    by (simp add: unat_mod_distrib unat_div_distrib drop_bit_eq_div take_bit_eq_mod)
  moreover have "unat tag div 2 ^ 24 mod 256 div 32 mod 8 = tag_class tag"
    using tag_class_less [of tag] by (simp add: tag_class_def)
  ultimately have c: "unat ?c = tag_class tag" by simp
  have "unat n < 2 ^ 5" using assms by simp
  from unat_push_bit_or [OF this, of ?c]
  have "unat ((?t AND 0xe0) OR n) = (tag_class tag * 32 + unat n) mod 2 ^ 8"
    unfolding e c by simp
  then show ?thesis by (intro word_unat_eq_iff [THEN iffD2]) (simp add: unat_of_nat del: of_nat_add of_nat_mult)
qed

lemma unat_tag_number: "unat (tag AND CBS_ASN1_TAG_NUMBER_MASK) = unat tag mod 2 ^ 29"
proof -
  have "CBS_ASN1_TAG_NUMBER_MASK = mask 29"
    by (simp add: CBS_ASN1_TAG_NUMBER_MASK_def CBS_ASN1_TAG_SHIFT_def mask_eq_exp_minus_1)
  then have "tag AND CBS_ASN1_TAG_NUMBER_MASK = take_bit 29 tag" by (simp add: take_bit_eq_mask)
  then show ?thesis by (simp add: unat_mod_distrib take_bit_eq_mod)
qed

definition add_tag :: "allocator \<Rightarrow> u32 \<Rightarrow> (cbb_state, unit) reader" where
  "add_tag malloc tag =
     (let tag_bits = ucast (drop_bit CBS_ASN1_TAG_SHIFT tag) AND 0xe0 :: u8;
          tag_number = tag AND CBS_ASN1_TAG_NUMBER_MASK in
      if tag_number \<ge> 0x1f then
        bindR (CBB_add_u8 malloc (tag_bits OR 0x1f)) (\<lambda>_. add_base128_integer malloc (ucast tag_number))
      else CBB_add_u8 malloc (tag_bits OR ucast tag_number))"

interpretation add_tag: flat_appender malloc "add_tag malloc tag" "der_tag tag" for malloc tag
proof -
  let ?n = "tag AND CBS_ASN1_TAG_NUMBER_MASK"
  have n: "unat ?n = unat tag mod 2 ^ 29" by (rule unat_tag_number)
  have f: "0x1f \<le> ?n \<longleftrightarrow> 31 \<le> unat tag mod 2 ^ 29" by (simp add: word_le_nat_alt n)
  show "flat_appender malloc (add_tag malloc tag) (der_tag tag)"
  proof (cases "31 \<le> unat tag mod 2 ^ 29")
    case True
    have "flat_appender malloc (add_base128_integer malloc (ucast ?n)) (base128 (unat tag mod 2 ^ 29))"
      using add_base128.flat_appender_axioms [of malloc "ucast ?n"] by (simp only: unat_ucast_64 n)
    then have "flat_appender malloc (add_tag malloc tag)
        ([word_of_nat (tag_class tag * 32 + 31)] @ base128 (unat tag mod 2 ^ 29))"
      using True f tag_bits_or [of "0x1f" tag]
      by (simp only: add_tag_def Let_def if_True) (intro flat_appender_bindR, simp_all add: add_u8.appender_axioms)
    with True show ?thesis by (simp add: der_tag_def Let_def tag_class_def)
  next
    case False
    have u: "unat (ucast ?n :: u8) = unat tag mod 2 ^ 29"
      using False by (simp add: unsigned_ucast_eq n take_bit_eq_mod)
    then have "(ucast (drop_bit CBS_ASN1_TAG_SHIFT tag) AND 0xe0) OR ucast ?n =
        (word_of_nat (tag_class tag * 32 + unat tag mod 2 ^ 29) :: u8)"
      using False tag_bits_or [of "ucast ?n" tag] by simp
    with False f show ?thesis
      using add_u8.flat_appender_axioms by (simp add: add_tag_def der_tag_def Let_def tag_class_def)
  qed
qed

section \<open>The two ways of opening a child\<close>

lemma opener_u8:
  assumes op: "flat_appender malloc op pfx"
  shows "opener malloc (bindR op (\<lambda>_ st. let off = cur_len st in
      case CBB_add_u8 malloc 0 st of
        (None, st) \<Rightarrow> (None, st)
      | (Some _, st) \<Rightarrow> (Some (), new_child off 1 True st))) pfx 1 True" (is "opener malloc ?op pfx 1 True")
  unfolding opener_def
proof (intro conjI allI impI; (elim conjE)?)
  fix b c
  assume pre: "malloc_ok malloc" "wf_buf b" "wf_cbb c (b_len b)" and len: "fits (length pfx + 1)"
  then have l: "fits (length pfx)" "fits (length [0 :: u8])" by (simp_all add: fits_def)
  obtain r st where eq: "op (Some b, c) = (r, st)" by (rule prod.exhaust)
  show "case ?op (Some b, c) of
      (Some _, Some b', c') \<Rightarrow>
        \<exists>cs z. length z = 1 \<and> closed c (contents b) = Some cs \<and> contents b' = cs @ pfx @ z \<and>
          c' = set_child (Some (CBB None (length (cs @ pfx)) 1 True True)) c \<and>
          wf_buf b' \<and> grows b b' \<and> \<not> b_error b \<and> \<not> b_error b'
    | (None, Some b', c') \<Rightarrow> refused malloc b c (pfx @ replicate 1 0) b'
    | (_, None, c') \<Rightarrow> False"
  proof (rule flat_appender.flat_cases [OF op pre l(1) eq])
    fix a b1 cs
    assume 1: "r = Some a" "st = (Some b1, set_child None c)" "appended b c pfx b1 (set_child None c)"
      "closed c (contents b) = Some cs" "contents b1 = cs @ pfx"
    then have w1: "wf_buf b1" "wf_cbb (set_child None c) (b_len b1)" by (simp_all add: appended_def)
    have L: "b_len b1 = length (cs @ pfx)" using length_contents [OF w1(1)] 1(5) by simp
    obtain r2 st2 where eq2: "CBB_add_u8 malloc 0 (Some b1, set_child None c) = (r2, st2)"
      by (rule prod.exhaust)
    show ?thesis
    proof (rule add_u8.flat_cases [OF pre(1) w1 l(2) eq2])
      fix a2 b2 cs2
      assume 2: "r2 = Some a2" "st2 = (Some b2, set_child None (set_child None c))"
        "appended b1 (set_child None c) [0] b2 (set_child None (set_child None c))"
        "closed (set_child None c) (contents b1) = Some cs2" "contents b2 = cs2 @ [0]"
      with 1 eq eq2 L show ?thesis
        by (auto simp: Let_def cur_len_def new_child_def appended_def intro: grows_trans)
    next
      fix b2 c2
      assume "r2 = None" "st2 = (Some b2, c2)" "refused malloc b1 (set_child None c) [0] b2"
      with 1 eq eq2 appended_refused [OF 1(3)] show ?thesis by (simp add: Let_def)
    qed
  qed (use eq refused_more in auto)
qed simp_all

lemma opener_add_asn1: "opener malloc (CBB_add_asn1 malloc tag) (der_tag tag) 1 True"
proof -
  have "flat_appender malloc (bindR (CBB_flush malloc) (\<lambda>_. add_tag malloc tag)) ([] @ der_tag tag)"
    by (intro flat_appender_bindR flush.appender_axioms add_tag.flat_appender_axioms)
  from opener_u8 [OF this] show ?thesis
    by (simp add: bindR_assoc CBB_add_asn1_def add_tag_def Let_def)
qed

lemma opener_length_prefixed:
  assumes "0 < k"
  shows "opener malloc (cbb_add_length_prefixed malloc k) [] k False"
  unfolding opener_def
proof (intro conjI allI impI; (elim conjE)?)
  fix b c
  assume pre: "malloc_ok malloc" "wf_buf b" "wf_cbb c (b_len b)" and len: "fits (length [] + k)"
  have l: "fits (length ([] :: bytes))" by (simp add: fits_def)
  obtain r st where eq: "CBB_flush malloc (Some b, c) = (r, st)" by (rule prod.exhaust)
  show "case cbb_add_length_prefixed malloc k (Some b, c) of
      (Some _, Some b', c') \<Rightarrow>
        \<exists>cs z. length z = k \<and> closed c (contents b) = Some cs \<and> contents b' = cs @ [] @ z \<and>
          c' = set_child (Some (CBB None (length (cs @ [])) k False True)) c \<and>
          wf_buf b' \<and> grows b b' \<and> \<not> b_error b \<and> \<not> b_error b'
    | (None, Some b', c') \<Rightarrow> refused malloc b c ([] @ replicate k 0) b'
    | (_, None, c') \<Rightarrow> False"
  proof (rule flush.flat_cases [OF pre l eq])
    fix a b1 cs
    assume 1: "r = Some a" "st = (Some b1, set_child None c)" "appended b c [] b1 (set_child None c)"
      "closed c (contents b) = Some cs" "contents b1 = cs @ []"
    then have w1: "wf_buf b1" "grows b b1" "\<not> b_error b" "\<not> b_error b1" by (simp_all add: appended_def)
    have L: "b_len b1 = length cs" using length_contents [OF w1(1)] 1(5) by simp
    obtain r2 base2 where eq2: "cbb_buffer_add malloc k (Some b1) = (r2, base2)" by (rule prod.exhaust)
    have k: "k < OBJECT_LIMIT" using len by (simp add: fits_def)
    show ?thesis
    proof (rule cbb_buffer_add_cases [OF pre(1) w1(1) k eq2])
      fix b2
      assume 2: "r2 = Some (b_len b1)" "base2 = Some b2" "wf_buf b2" "grows b1 b2"
        "take (b_len b1) (contents b2) = contents b1" "b_len b2 = b_len b1 + k" "b_error b2 = b_error b1"
      have "contents (poke (b_len b1) (replicate k 0) b2) = cs @ replicate k 0"
        using 1(5) 2 by (simp add: contents_poke store_at_def)
      with 1 2 w1 L eq eq2 show ?thesis
        by (auto simp: cbb_add_length_prefixed_def on_base_def Let_def cur_len_def new_child_def store_def
            intro!: exI [of _ "replicate k 0"] grows_trans [OF w1(2)])
    next
      assume 2: "r2 = None" "base2 = Some (b1\<lparr>b_error := True\<rparr>)" "\<not> can_hold malloc b1 (b_len b1 + k)"
      then have "refused malloc b c (replicate k 0) (b1\<lparr>b_error := True\<rparr>)"
        using w1 1(4) L can_hold_grows [OF w1(2)] by (auto simp: refused_def)
      with 1 2 eq eq2 show ?thesis
        by (simp add: cbb_add_length_prefixed_def on_base_def Let_def)
    qed
  qed (use eq refused_more [of malloc b c "[]" _ "replicate k 0"] in \<open>auto simp: cbb_add_length_prefixed_def\<close>)
qed (use assms in simp_all)

end
