(* ===== verification/CBB_Values.thy ===== *)
theory CBB_Values
  imports CBB_Elements
begin

text \<open>
  The writers of whole ASN.1 values append exactly the encodings that the readers of
  \<open>cbs.c\<close> accept.
\<close>

section \<open>Elements\<close>

lemma asn1_writer:
  assumes g: "filler malloc g d" and len: "length d \<le> 0xfffffffe"
  shows "flat_appender malloc (bindR (CBB_add_asn1 malloc tag) (\<lambda>_. bindR g (\<lambda>_. CBB_flush malloc)))
    (der_element tag d)"
proof -
  have "encoded_len True 1 (length d) = Some (der_length (length d))"
    using len by (simp add: encoded_len_def len_prefix_def)
  from appender_element [OF opener_add_asn1 g this]
  have "appender malloc (bindR (CBB_add_asn1 malloc tag) (\<lambda>_. g)) (der_element tag d)"
    by (simp add: der_element_def der_header_def)
  from flat_appender_bindR [OF this flush.flat_appender_axioms]
  show ?thesis by (simp add: bindR_assoc)
qed

lemma length_prefixed_writer:
  assumes g: "filler malloc g d" and k: "0 < k" and len: "length d < 256 ^ k"
  shows "appender malloc (bindR (cbb_add_length_prefixed malloc k) (\<lambda>_. g)) (be_bytes k (length d) @ d)"
proof -
  have "encoded_len False k (length d) = Some (be_bytes k (length d))"
    using len by (simp add: encoded_len_def len_prefix_def)
  from appender_element [OF opener_length_prefixed [OF k] g this] show ?thesis by simp
qed

lemma octet_string_appender:
  assumes "length dat \<le> 0xfffffffe"
  shows "flat_appender malloc (CBB_add_asn1_octet_string malloc dat) (der_element CBS_ASN1_OCTETSTRING dat)"
  unfolding CBB_add_asn1_octet_string_def
  by (intro asn1_writer filler_on_child add_bytes.appender_axioms assms)

interpretation add_bool: flat_appender malloc "CBB_add_asn1_bool malloc val"
    "der_element CBS_ASN1_BOOLEAN [if val \<noteq> 0 then 0xff else 0]" for malloc val
  unfolding CBB_add_asn1_bool_def
  by (intro asn1_writer filler_on_child add_u8.appender_axioms) simp

section \<open>Non-negative INTEGERs\<close>

lemma be_bytes_map: "be_bytes n v = map (\<lambda>i. word_of_nat (v div 256 ^ i)) (rev [0..<n])"
proof (induction n arbitrary: v)
  case (Suc n)
  have "[0..<Suc n] = 0 # map Suc [0..<n]" by (simp add: map_Suc_upt upt_conv_Cons)
  moreover have "(word_of_nat (v mod 256) :: u8) = word_of_nat v"
    by (rule word_unat_eq_iff [THEN iffD2]) (simp add: unat_of_nat)
  ultimately show ?case
    by (simp add: Suc.IH rev_map comp_def div_mult2_eq del: upt_Suc)
qed simp

lemma be_bytes_Cons: "be_bytes (Suc k) v = word_of_nat (v div 256 ^ k) # be_bytes k v"
  unfolding be_bytes_map by simp

definition int_byte :: "nat \<Rightarrow> nat \<Rightarrow> u8" where
  "int_byte v k = word_of_nat (v div 256 ^ k)"

lemma val_byte: "ucast (drop_bit (8 * k) val AND 0xff :: u64) = int_byte (unat val) k"
proof (rule word_unat_eq_iff [THEN iffD2])
  have m: "drop_bit (8 * k) val AND 0xff = take_bit 8 (drop_bit (8 * k) val)"
    by (simp add: take_bit_eq_mask mask_eq_exp_minus_1)
  have "unat (drop_bit (8 * k) val AND 0xff) = unat val div 256 ^ k mod 256"
    using unsigned_less [of val, where ?'a = nat]
    unfolding m unsigned_take_bit_eq unsigned_drop_bit_eq
    by (simp add: take_bit_eq_mod drop_bit_eq_div power_mult)
  then show "unat (ucast (drop_bit (8 * k) val AND 0xff :: u64) :: u8) = unat (int_byte (unat val) k)"
    by (simp add: unsigned_ucast_eq take_bit_eq_mod int_byte_def unat_of_nat)
qed

text \<open>What is written for the bytes \<open>k - 1\<close> down to 0 while none has been written yet.\<close>

fun uint_body :: "nat \<Rightarrow> nat \<Rightarrow> bytes" where
  "uint_body 0 v = [0]"
| "uint_body (Suc k) v =
     (if int_byte v k = 0 then uint_body k v
      else if int_byte v k AND 0x80 \<noteq> 0 then 0 # be_bytes (Suc k) v else be_bytes (Suc k) v)"

lemma uint_body_value:
  "uint_body k v \<noteq> [] \<and> uint_body k v ! 0 AND 0x80 = 0 \<and> be_nat (uint_body k v) = v mod 256 ^ k \<and>
   minimal_int (uint_body k v)"
proof (induction k)
  case 0
  show ?case by (simp add: minimal_int_def)
next
  case (Suc k)
  show ?case
  proof (cases "int_byte v k = 0")
    case True
    then have "be_nat (be_bytes (Suc k) v) = be_nat (be_bytes k v)"
      by (simp add: be_bytes_Cons int_byte_def be_nat_Cons del: be_bytes.simps)
    then have "v mod 256 ^ Suc k = v mod 256 ^ k" unfolding be_nat_be_bytes .
    with True Suc show ?thesis by simp
  next
    case False
    have v: "be_nat (be_bytes (Suc k) v) = v mod 256 ^ Suc k" by (rule be_nat_be_bytes)
    from False v show ?thesis
      by (auto simp: be_bytes_Cons int_byte_def [symmetric] minimal_int_def be_nat_Cons [of 0]
          high_bit_ff simp del: be_bytes.simps)
  qed
qed

lemma uint_body_der_int: "uint_body 8 (unat (v :: u64)) = der_int (int (unat v))"
proof -
  note b = uint_body_value [of 8 "unat v"]
  have "unat v mod 256 ^ 8 = unat v" using unsigned_less [of v, where ?'a = nat] by simp
  with b have "be_int (uint_body 8 (unat v)) = int (unat v)"
    using be_int_nonneg [of "uint_body 8 (unat v)"] by (simp del: of_nat_unat uint_body.simps)
  with b der_int_be_int [of "uint_body 8 (unat v)"] show ?thesis by simp
qed

definition uint_tail :: "allocator \<Rightarrow> bool \<Rightarrow> (cbb_state, unit) reader" where
  "uint_tail malloc started = (if \<not> started then on_child (CBB_add_u8 malloc 0) else returnR ())"

lemma filler_u8: "filler malloc (on_child (CBB_add_u8 malloc v)) [v]"
  by (intro filler_on_child add_u8.appender_axioms)

lemma filler_uint_started:
  "filler malloc (bindR (uint64_bytes_loop malloc val k True) (uint_tail malloc)) (be_bytes k (unat val))"
proof (induction k)
  case 0
  show ?case by (simp add: uint_tail_def filler_returnR)
next
  case (Suc k)
  from filler_bindR [OF filler_u8 Suc.IH, of "int_byte (unat val) k"] show ?case
    by (simp add: Let_def val_byte bindR_assoc be_bytes_Cons int_byte_def del: be_bytes.simps)
qed

lemma filler_uint:
  "filler malloc (bindR (uint64_bytes_loop malloc val k False) (uint_tail malloc)) (uint_body k (unat val))"
proof (induction k)
  case 0
  show ?case by (simp add: uint_tail_def filler_u8)
next
  case (Suc k)
  note started = filler_bindR [OF filler_u8 filler_uint_started [of malloc val k], of "int_byte (unat val) k"]
  show ?case
    using Suc.IH started filler_bindR [OF filler_u8 started, of 0]
    by (simp add: Let_def val_byte bindR_assoc be_bytes_Cons int_byte_def [symmetric] del: be_bytes.simps)
qed

lemma length_uint_body: "length (uint_body k v) \<le> Suc k"
  by (induction k) (simp_all add: le_SucI)

interpretation add_uint64: flat_appender malloc "CBB_add_asn1_uint64 malloc val"
    "der_integer (int (unat val))" for malloc val
proof -
  have "length (uint_body 8 (unat val)) \<le> 0xfffffffe"
    using length_uint_body [of 8 "unat val"] by (simp del: uint_body.simps)
  from asn1_writer [OF filler_uint this]
  have "flat_appender malloc (bindR (CBB_add_asn1 malloc CBS_ASN1_INTEGER) (\<lambda>_.
      bindR (bindR (uint64_bytes_loop malloc val 8 False) (uint_tail malloc)) (\<lambda>_. CBB_flush malloc)))
      (der_integer (int (unat val)))"
    by (simp only: uint_body_der_int der_integer_def)
  then show "flat_appender malloc (CBB_add_asn1_uint64 malloc val) (der_integer (int (unat val)))"
    by (simp only: CBB_add_asn1_uint64_def uint_tail_def [abs_def] bindR_assoc)
qed

section \<open>Negative INTEGERs\<close>

lemma be_int_skip_ff:
  assumes "bs \<noteq> []" "bs ! 0 AND 0x80 \<noteq> 0"
  shows "be_int (0xff # bs) = be_int bs"
proof -
  have "sint (0xff :: u8) = - 1" unfolding sint_byte by simp
  with be_int_negative [OF assms] show ?thesis by (simp add: be_int_def)
qed

lemma hd_be_bytes: "be_bytes (Suc k) v ! 0 = int_byte v k"
  by (simp add: be_bytes_Cons int_byte_def del: be_bytes.simps)

lemma u_bytes_nth: "i < n \<Longrightarrow> rev (be_bytes n v) ! i = int_byte v i"
  by (simp add: be_bytes_map rev_map int_byte_def)

text \<open>Dropping sign-extension bytes changes neither the value nor the sign.\<close>

lemma int64_start_spec:
  assumes "s < n" "int_byte v s AND 0x80 \<noteq> 0"
  defines "k \<equiv> int64_start (rev (be_bytes n v)) s"
  shows "k \<le> s \<and> be_int (be_bytes (Suc k) v) = be_int (be_bytes (Suc s) v) \<and> minimal_int (be_bytes (Suc k) v)"
  using assms(1,2) unfolding k_def
proof (induction s)
  case 0
  then show ?case by (simp add: minimal_int_def)
next
  case (Suc s)
  show ?case
  proof (cases "int_byte v (Suc s) = 0xff \<and> int_byte v s AND 0x80 \<noteq> 0")
    case True
    have "be_bytes (Suc (Suc s)) v = 0xff # be_bytes (Suc s) v"
      using True by (simp add: be_bytes_Cons [of "Suc s"] int_byte_def del: be_bytes.simps)
    moreover have "be_bytes (Suc s) v \<noteq> []" by simp
    ultimately have "be_int (be_bytes (Suc (Suc s)) v) = be_int (be_bytes (Suc s) v)"
      using be_int_skip_ff True hd_be_bytes by metis
    with True Suc show ?thesis by (simp add: u_bytes_nth del: be_bytes.simps)
  next
    case False
    then have k: "int64_start (rev (be_bytes n v)) (Suc s) = Suc s"
      using Suc.prems(1) by (auto simp: u_bytes_nth)
    have "minimal_int (be_bytes (Suc (Suc s)) v)"
    proof -
      have "be_bytes (Suc (Suc s)) v = int_byte v (Suc s) # int_byte v s # be_bytes s v"
        unfolding be_bytes_Cons int_byte_def by (rule refl)
      then show ?thesis using False Suc.prems(2) by (auto simp: minimal_int_def simp del: be_bytes.simps)
    qed
    then show ?thesis unfolding k by simp
  qed
qed

lemma be_nat_8: "be_nat (be_bytes 8 (unat (w :: u64))) = unat w"
  unfolding be_nat_be_bytes using unsigned_less [of w, where ?'a = nat] by simp

lemma be_bytes_8: "be_bytes 8 v \<noteq> []" "length (be_bytes 8 v) \<le> 8"
  by (simp_all add: be_bytes_map)

lemma be_int_sint: "be_int (be_bytes 8 (unat (w :: u64))) = sint w"
proof -
  note n = be_nat_8 [of w] and r = be_bytes_8 [of "unat w"]
  have "word_of_int (be_int (be_bytes 8 (unat w))) = w"
  proof (cases "be_bytes 8 (unat w) ! 0 AND 0x80 = 0")
    case True
    show ?thesis unfolding be_int_nonneg [OF r(1) True] n by simp
  next
    case False
    have "(word_of_int (int (unat w) - 256 ^ 8) :: u64) = word_of_int (int (unat w)) - word_of_int (256 ^ 8)"
      by (rule wi_hom_sub [symmetric])
    also have "(word_of_int (256 ^ 8) :: u64) = 0" by simp
    finally show ?thesis unfolding be_int_negative [OF r(1) False] n by simp
  qed
  then have "sint w = sint (word_of_int (be_int (be_bytes 8 (unat w))) :: u64)" by simp
  also have "\<dots> = be_int (be_bytes 8 (unat w))"
    using be_int_range [OF r] by (simp add: int_word_sint)
  finally show ?thesis by simp
qed

lemma filler_int64_bytes:
  "s < n \<Longrightarrow> filler malloc (int64_bytes_loop malloc (rev (be_bytes n v)) s) (be_bytes (Suc s) v)"
proof (induction s)
  case 0
  then show ?case using filler_u8 [of malloc "int_byte v 0"] by (simp add: u_bytes_nth int_byte_def be_bytes_Cons del: be_bytes.simps(2))
next
  case (Suc s)
  then have "filler malloc (int64_bytes_loop malloc (rev (be_bytes n v)) s) (be_bytes (Suc s) v)" by simp
  from filler_bindR [OF filler_u8 this, of "int_byte v (Suc s)"] show ?case
    using Suc.prems by (simp add: u_bytes_nth be_bytes_Cons [of "Suc s"] int_byte_def del: be_bytes.simps)
qed

interpretation add_int64: flat_appender malloc "CBB_add_asn1_int64 malloc val" "der_integer (sint val)"
  for malloc val
proof (cases "0 \<le> sint val")
  case True
  have "sint val = int (unat val)" 
    using True be_int_sign [OF be_bytes_8(1)] be_int_nonneg [OF be_bytes_8(1)] be_nat_8
    by (metis be_int_sint)
  with True show "flat_appender malloc (CBB_add_asn1_int64 malloc val) (der_integer (sint val))"
    using add_uint64.flat_appender_axioms [of malloc val] by (simp add: CBB_add_asn1_int64_def)
next
  case False
  define k where "k = int64_start (rev (be_bytes 8 (unat val))) 7"
  have s8: "be_bytes (Suc 7) (unat val) = be_bytes 8 (unat val)" by simp
  have "int_byte (unat val) 7 AND 0x80 \<noteq> 0"
    using False be_int_sign [of "be_bytes (Suc 7) (unat val)"] be_bytes_8(1) be_int_sint [of val]
    by (simp add: s8 hd_be_bytes [symmetric])
  then have k: "k \<le> 7" "be_int (be_bytes (Suc k) (unat val)) = sint val" "minimal_int (be_bytes (Suc k) (unat val))"
    using int64_start_spec [of 7 8 "unat val"] be_int_sint [of val] s8 by (simp_all add: k_def)
  then have "be_bytes (Suc k) (unat val) = der_int (sint val)" using der_int_be_int by metis
  moreover have "k < 8" using k(1) by simp
  ultimately have f: "filler malloc (int64_bytes_loop malloc (rev (be_bytes 8 (unat val))) k) (der_int (sint val))"
    and l: "length (der_int (sint val)) = Suc k"
    using filler_int64_bytes [of k 8 malloc "unat val"] length_be_bytes [of "Suc k" "unat val"] by simp_all
  have "length (der_int (sint val)) \<le> 0xfffffffe" using l k(1) by simp
  from asn1_writer [OF f this, of CBS_ASN1_INTEGER] False
  show "flat_appender malloc (CBB_add_asn1_int64 malloc val) (der_integer (sint val))"
    by (simp add: CBB_add_asn1_int64_def Let_def k_def der_integer_def)
qed

end
