(* ===== verification/Documents.thy ===== *)
theory Documents
  imports CBB_Values
begin

text \<open>
  Whole messages: a document of nested length-prefixed and ASN.1 items, the calls of the
  builder that write it, and its encoding.
\<close>

section \<open>From \<open>CBB_init\<close> to \<open>CBB_finish\<close>\<close>

definition built :: "cbb_state \<Rightarrow> bytes \<Rightarrow> bool" where
  "built st d \<longleftrightarrow>
     (\<exists>b c. st = (Some b, c) \<and> wf_buf b \<and> wf_cbb c (b_len b) \<and> \<not> b_error b \<and> \<not> c_is_child c \<and>
        base_of c = 0 \<and> closed c (contents b) = Some d)"

lemma CBB_init_built:
  assumes "malloc_ok malloc" "cap + 8 < SIZE_LIMIT" "CBB_init malloc base_ok cap st = (Some (), st')"
  shows "built st' []"
proof -
  define p where "p = OPENSSL_malloc malloc cap"
  from assms(3) have ok: "0 < cap \<longrightarrow> p \<noteq> None" "base_ok"
    and st': "st' = (Some \<lparr>b_buf = p, b_len = 0, b_cap = cap, b_can_resize = True, b_error = False\<rparr>,
      CBB None 0 0 False False)"
    by (auto simp: CBB_init_def cbb_init_def CBB_zero_def p_def Let_def split: if_splits)
  have "length (case p of None \<Rightarrow> [] | Some q \<Rightarrow> q) = cap \<and> cap + 8 < OBJECT_LIMIT"
    using ok OPENSSL_malloc_length [OF assms(1,2)] by (cases p) (auto simp: p_def)
  then show ?thesis
    by (simp add: st' built_def wf_buf_def blk_def contents_def base_of_def)
qed

lemma CBB_init_fixed_built:
  assumes "length p + 8 < OBJECT_LIMIT" "CBB_init_fixed base_ok p (length p) st = (Some (), st')"
  shows "built st' []"
  using assms
  by (auto simp: CBB_init_fixed_def cbb_init_def CBB_zero_def built_def wf_buf_def blk_def contents_def
      base_of_def split: if_splits)

lemma same_frame_child: "same_frame c c' \<Longrightarrow> c_is_child c' = c_is_child c"
  by (simp add: same_frame_def set_child_def)

lemma built_append:
  assumes st: "built st d" and app: "appender malloc op e" and m: "malloc_ok malloc"
    and len: "fits (length e)" and run: "op st = (Some a, st')"
  shows "built st' (d @ e)"
proof -
  from st obtain b c where b: "st = (Some b, c)" "wf_buf b" "wf_cbb c (b_len b)" "\<not> c_is_child c"
    "base_of c = 0" "closed c (contents b) = Some d"
    by (auto simp: built_def)
  show ?thesis
    by (rule appender.cases [OF app m b(2,3) len run [unfolded b(1)]])
      (use b in \<open>auto simp: built_def appended_def same_frame_base same_frame_child\<close>)
qed

lemma built_write:
  assumes st: "built st d" and wr: "writer malloc op e" and m: "malloc_ok malloc"
    and len: "fits (length e)" and run: "op st = (Some a, st')"
  shows "built st' (d @ e)"
proof -
  from st obtain b c where b: "st = (Some b, c)" "wf_buf b" "wf_cbb c (b_len b)" "\<not> b_error b"
    "closed c (contents b) = Some d" "\<not> c_is_child c" "base_of c = 0"
    by (auto simp: built_def)
  show ?thesis
    by (rule writer_cases [OF wr m len b(2-5) run [unfolded b(1)]])
      (use b in \<open>auto simp: built_def appended_def same_frame_base same_frame_child\<close>)
qed

text \<open>\<open>room malloc st n\<close>: the builder can hold \<open>n\<close> bytes.\<close>

definition room :: "allocator \<Rightarrow> cbb_state \<Rightarrow> nat \<Rightarrow> bool" where
  "room malloc st n \<longleftrightarrow> (case fst st of None \<Rightarrow> False | Some b \<Rightarrow> can_hold malloc b n)"

lemma built_succeeds:
  assumes st: "built st d" and app: "appender malloc op e" and m: "malloc_ok malloc"
    and len: "fits (length e)" and room: "room malloc st n" "length d + length e \<le> n"
  obtains a st' where "op st = (Some a, st')" "built st' (d @ e)" "room malloc st' n"
proof -
  from st obtain b c where b: "st = (Some b, c)" "wf_buf b" "wf_cbb c (b_len b)" "\<not> b_error b"
    "closed c (contents b) = Some d"
    by (auto simp: built_def)
  have "can_hold malloc b n" using room(1) b(1) by (simp add: room_def)
  then have "can_hold malloc b (length d + length e)" using room(2) can_hold_le by blast
  from appender.succeeds [OF app m b(2,3) len b(4,5) this] obtain a b' c' where
    1: "op (Some b, c) = (Some a, Some b', c')" "appended b c e b' c'" by blast
  have "room malloc (Some b', c') n"
    using \<open>can_hold malloc b n\<close> 1(2) can_hold_grows by (auto simp: room_def appended_def)
  with 1 built_append [OF st app m len] b(1) that show thesis by blast
qed

definition finished_bytes :: "bytes option \<times> nat \<Rightarrow> bytes" where
  "finished_bytes r = take (snd r) (case fst r of None \<Rightarrow> [] | Some p \<Rightarrow> p)"

lemma CBB_finish_bytes:
  assumes st: "built st d" and m: "malloc_ok malloc" and run: "CBB_finish malloc wd wl st = (Some r, st')"
  shows "finished_bytes r = d \<and> snd r = length d"
proof -
  have len: "fits (length ([] :: bytes))" by (simp add: fits_def)
  from st have nc: "\<not> c_is_child (snd st)" by (auto simp: built_def)
  obtain x st1 where fl: "CBB_flush malloc st = (x, st1)" by (rule prod.exhaust)
  from run nc fl obtain b c where b: "x = Some ()" "st1 = (Some b, c)" "r = (b_buf b, b_len b)"
    by (auto simp: CBB_finish_def split: option.splits prod.splits if_splits)
  from st obtain b0 c0 where b0: "st = (Some b0, c0)" "wf_buf b0" "wf_cbb c0 (b_len b0)"
    "closed c0 (contents b0) = Some d"
    by (auto simp: built_def)
  have "contents b = d \<and> wf_buf b"
    by (rule flush.flat_cases [OF m b0(2,3) len fl [unfolded b0(1)]])
      (use b b0 in \<open>auto simp: appended_def\<close>)
  with b length_contents [of b] show ?thesis by (auto simp: finished_bytes_def contents_def blk_def)
qed

lemma CBB_finish_succeeds:
  assumes st: "built st d" and m: "malloc_ok malloc" and room: "room malloc st (length d)"
  obtains r st' where "CBB_finish malloc True True st = (Some r, st')"
proof -
  from st have nc: "\<not> c_is_child (snd st)" by (auto simp: built_def)
  have len: "fits (length ([] :: bytes))" by (simp add: fits_def)
  have "length d + length ([] :: bytes) \<le> length d" by simp
  from built_succeeds [OF st flush.appender_axioms m len room this]
  obtain st1 where st1: "CBB_flush malloc st = (Some (), st1)" "built st1 (d @ [])"
    by (metis (full_types) old.unit.exhaust)
  then obtain b c where "CBB_flush malloc st = (Some (), Some b, c)" by (auto simp: built_def)
  then have "CBB_finish malloc True True st =
      (Some (b_buf b, b_len b), CBB_cleanup (Some (b\<lparr>b_buf := None\<rparr>), c))"
    using nc by (simp add: CBB_finish_def)
  then show thesis by (rule that)
qed

section \<open>Documents\<close>

datatype item = Raw bytes | Prefixed nat "item list" | Element u32 "item list"

fun encode_item :: "item \<Rightarrow> bytes" and encode :: "item list \<Rightarrow> bytes" where
  "encode_item (Raw bs) = bs"
| "encode_item (Prefixed k is) = be_bytes k (length (encode is)) @ encode is"
| "encode_item (Element tag is) = der_element tag (encode is)"
| "encode [] = []"
| "encode (i # is) = encode_item i @ encode is"

text \<open>The lengths have an encoding: 1 to 3 bytes for a prefix, 32 bits for an element.\<close>

fun valid_item :: "item \<Rightarrow> bool" and valid :: "item list \<Rightarrow> bool" where
  "valid_item (Raw bs) = True"
| "valid_item (Prefixed k is) = (k \<in> {1, 2, 3} \<and> length (encode is) < 256 ^ k \<and> valid is)"
| "valid_item (Element tag is) = (length (encode is) \<le> 0xfffffffe \<and> valid is)"
| "valid [] = True"
| "valid (i # is) = (valid_item i \<and> valid is)"

text \<open>A document is written item by item, the items of a child on the child.\<close>

fun write_item :: "allocator \<Rightarrow> item \<Rightarrow> (cbb_state, unit) reader"
and write_in_child :: "allocator \<Rightarrow> item list \<Rightarrow> (cbb_state, unit) reader" where
  "write_item malloc (Raw bs) = CBB_add_bytes malloc bs"
| "write_item malloc (Prefixed k is) = bindR (cbb_add_length_prefixed malloc k) (\<lambda>_. write_in_child malloc is)"
| "write_item malloc (Element tag is) = bindR (CBB_add_asn1 malloc tag) (\<lambda>_. write_in_child malloc is)"
| "write_in_child malloc [] = returnR ()"
| "write_in_child malloc (i # is) = bindR (on_child (write_item malloc i)) (\<lambda>_. write_in_child malloc is)"

fun write_items :: "allocator \<Rightarrow> item list \<Rightarrow> (cbb_state, unit) reader" where
  "write_items malloc [] = returnR ()"
| "write_items malloc (i # is) = bindR (write_item malloc i) (\<lambda>_. write_items malloc is)"

lemma write_item_appender:
  "valid_item i \<Longrightarrow> appender malloc (write_item malloc i) (encode_item i)"
  "valid is \<Longrightarrow> filler malloc (write_in_child malloc is) (encode is)"
proof (induction i and "is" rule: encode_item_encode.induct)
  case (1 bs)
  show ?case by (simp add: add_bytes.appender_axioms)
next
  case (2 k "is")
  then show ?case by (auto intro!: length_prefixed_writer simp del: One_nat_def)
next
  case (3 tag "is")
  then have f: "filler malloc (write_in_child malloc is) (encode is)" and l: "length (encode is) \<le> 0xfffffffe"
    by simp_all
  have "encoded_len True 1 (length (encode is)) = Some (der_length (length (encode is)))"
    using l by (simp add: encoded_len_def len_prefix_def)
  from appender_element [OF opener_add_asn1 f this, of tag]
  show ?case by (simp add: der_element_def der_header_def)
next
  case 4
  show ?case by (simp add: filler_returnR)
next
  case (5 i "is")
  then show ?case by (simp add: filler_bindR filler_on_child)
qed

lemma write_items_built:
  assumes m: "malloc_ok malloc"
  shows "valid is \<Longrightarrow> fits (length (encode is)) \<Longrightarrow> built st d \<Longrightarrow>
    write_items malloc is st = (Some (), st') \<Longrightarrow> built st' (d @ encode is)"
proof (induction "is" arbitrary: st d)
  case Nil
  then show ?case by (simp add: returnR_def)
next
  case (Cons i "is")
  from Cons.prems(4) obtain st1 where
    1: "write_item malloc i st = (Some (), st1)" "write_items malloc is st1 = (Some (), st')"
    by (auto elim: bindR_eq_SomeE)
  have len: "fits (length (encode_item i))" "fits (length (encode is))"
    using Cons.prems(2) by (simp_all add: fits_def)
  from Cons.prems(1) have "valid_item i" by simp
  from built_append [OF Cons.prems(3) write_item_appender(1) [OF this] m len(1) 1(1)]
  have "built st1 (d @ encode_item i)" .
  from Cons.IH [OF _ len(2) this 1(2)] Cons.prems(1) show ?case by simp
qed

lemma write_items_succeeds:
  assumes m: "malloc_ok malloc"
  shows "valid is \<Longrightarrow> fits (length (encode is)) \<Longrightarrow> built st d \<Longrightarrow> room malloc st n \<Longrightarrow>
    length d + length (encode is) \<le> n \<Longrightarrow>
    \<exists>st'. write_items malloc is st = (Some (), st') \<and> built st' (d @ encode is) \<and> room malloc st' n"
proof (induction "is" arbitrary: st d)
  case Nil
  then show ?case by (simp add: returnR_def)
next
  case (Cons i "is")
  have len: "fits (length (encode_item i))" "fits (length (encode is))"
    using Cons.prems(2) by (simp_all add: fits_def)
  from Cons.prems(1) have v: "valid_item i" "valid is" by simp_all
  have le: "length d + length (encode_item i) \<le> n" using Cons.prems(5) by simp
  from built_succeeds [OF Cons.prems(3) write_item_appender(1) [OF v(1)] m len(1) Cons.prems(4) le]
  obtain st1 where st1: "write_item malloc i st = (Some (), st1)" "built st1 (d @ encode_item i)"
    "room malloc st1 n" by auto
  have "length (d @ encode_item i) + length (encode is) \<le> n" using Cons.prems(5) by simp
  from Cons.IH [OF v(2) len(2) st1(2,3) this] st1(1) show ?case by auto
qed

text \<open>The capacity of a fixed buffer is never changed.\<close>

definition fixed_cap :: "cbb_state \<Rightarrow> nat \<Rightarrow> bool" where
  "fixed_cap st n \<longleftrightarrow> (case fst st of None \<Rightarrow> False | Some b \<Rightarrow> \<not> b_can_resize b \<and> b_cap b = n)"

lemma built_fixed:
  assumes st: "built st d" and app: "appender malloc op e" and m: "malloc_ok malloc"
    and len: "fits (length e)" and run: "op st = (Some a, st')" and fixed: "fixed_cap st n"
  shows "fixed_cap st' n"
proof -
  from st obtain b c where b: "st = (Some b, c)" "wf_buf b" "wf_cbb c (b_len b)"
    by (auto simp: built_def)
  show ?thesis
    by (rule appender.cases [OF app m b(2,3) len run [unfolded b(1)]])
      (use b fixed in \<open>auto simp: fixed_cap_def appended_def grows_def\<close>)
qed

lemma write_items_fixed:
  assumes m: "malloc_ok malloc"
  shows "valid is \<Longrightarrow> fits (length (encode is)) \<Longrightarrow> built st d \<Longrightarrow> fixed_cap st n \<Longrightarrow>
    write_items malloc is st = (Some (), st') \<Longrightarrow> fixed_cap st' n"
proof (induction "is" arbitrary: st d)
  case Nil
  then show ?case by (simp add: returnR_def)
next
  case (Cons i "is")
  from Cons.prems(5) obtain st1 where
    1: "write_item malloc i st = (Some (), st1)" "write_items malloc is st1 = (Some (), st')"
    by (auto elim: bindR_eq_SomeE)
  have len: "fits (length (encode_item i))" "fits (length (encode is))"
    using Cons.prems(2) by (simp_all add: fits_def)
  from Cons.prems(1) have v: "valid_item i" "valid is" by simp_all
  note app = write_item_appender(1) [OF v(1)]
  show ?case
    by (rule Cons.IH [OF v(2) len(2) built_append [OF Cons.prems(3) app m len(1) 1(1)]
          built_fixed [OF Cons.prems(3) app m len(1) 1(1) Cons.prems(4)] 1(2)])
qed

lemma wf_child:
  assumes "wf_cbb c (b_len b)" "closed c (contents b) = Some cs" "wf_buf b" "wf_cbb ch n"
    and "c_offset ch = length cs" "0 < c_pending_len_len ch"
  shows "wf_cbb (set_child (Some ch) c) n"
proof -
  have "base_of c \<le> length cs"
    using closed_keeps [OF assms(2)] wf_cbb_base [OF assms(1)] assms(1,3) by simp
  moreover have "length cs \<le> n" using wf_cbb_base [OF assms(4)] assms(5) by (simp add: base_of_def)
  ultimately show ?thesis
    using assms by (cases c) (auto simp: set_child_def base_of_def)
qed

lemma CBB_flush_None:
  assumes "malloc_ok malloc" "wf_buf b" "wf_cbb c (b_len b)" "closed c (contents b) = None"
  obtains b' c' where "CBB_flush malloc (Some b, c) = (None, Some b', c')" "b_error b'"
proof -
  obtain r base c' where fl: "flush malloc (Some b) c = (r, base, c')" by (rule prod_cases3)
  show thesis
    by (rule flush_cases [OF assms(1-3) fl]) (use assms(4) fl that in \<open>auto simp: CBB_flush_def\<close>)
qed

lemma document_succeeds:
  assumes "malloc_ok malloc" "total_malloc malloc" "valid doc"
    and "2 * (cap + length (encode doc)) + 8 < OBJECT_LIMIT"
  shows "\<exists>st1 st2 r st3. CBB_init malloc True cap st0 = (Some (), st1) \<and>
    write_items malloc doc st1 = (Some (), st2) \<and> CBB_finish malloc True True st2 = (Some r, st3)"
proof -
  have cap: "cap + 8 < SIZE_LIMIT" "cap + 8 < OBJECT_LIMIT" using assms(4) by simp_all
  have "OPENSSL_malloc malloc cap \<noteq> None" using total_OPENSSL_malloc [OF assms(2) cap(2)] .
  then obtain st1 where i: "CBB_init malloc True cap st0 = (Some (), st1)" "c_is_child (snd st1) = False"
    "room malloc st1 (length (encode doc))"
    using assms(2,4)
    by (auto simp: CBB_init_def cbb_init_def CBB_zero_def room_def can_hold_def Let_def)
  have f: "fits (length (encode doc))" using assms(4) by (simp add: fits_def)
  have "length ([] :: bytes) + length (encode doc) \<le> length (encode doc)" by simp
  from write_items_succeeds [OF assms(1,3) f CBB_init_built [OF assms(1) cap(1) i(1)] i(3) this]
  obtain st2 where st2: "write_items malloc doc st1 = (Some (), st2)" "built st2 (encode doc)"
    "room malloc st2 (length (encode doc))" by auto
  obtain r st3 where "CBB_finish malloc True True st2 = (Some r, st3)"
    by (rule CBB_finish_succeeds [OF st2(2) assms(1) st2(3)])
  with i(1) st2(1) show ?thesis by blast
qed

section \<open>What the writer promises\<close>

text \<open>
  C5: whatever the allocator does, when creating a builder, writing a document with valid
  lengths and finishing all return 1, the buffer handed out holds exactly the encoding of the
  document: every length prefix and every ASN.1 length is the length of what it precedes.
\<close>

theorem CBB_document_exact:
  assumes "malloc_ok malloc" and "cap + 8 < SIZE_LIMIT"
    and "CBB_init malloc base_ok cap st0 = (Some (), st1)"
    and "valid doc" "length (encode doc) < OBJECT_LIMIT"
    and "write_items malloc doc st1 = (Some (), st2)"
    and "CBB_finish malloc want_data want_len st2 = (Some r, st3)"
  shows "finished_bytes r = encode doc \<and> snd r = length (encode doc)"
proof -
  have "fits (length (encode doc))" using assms(5) by (simp add: fits_def)
  from write_items_built [OF assms(1,4) this CBB_init_built [OF assms(1-3)] assms(6)]
  have "built st2 (encode doc)" by simp
  from CBB_finish_bytes [OF this assms(1,7)] show ?thesis .
qed

definition small_doc :: "item list" where
  "small_doc = [Prefixed 1 [Element 0x20000010 [Raw [1, 2], Prefixed 2 [Raw [3]]]], Raw [9]]"

theorem CBB_document_exact_witness:
  "\<exists>st1 st2 r st3. CBB_init zero_heap True 0 CBB_zero = (Some (), st1) \<and>
     write_items zero_heap small_doc st1 = (Some (), st2) \<and>
     CBB_finish zero_heap True True st2 = (Some r, st3) \<and>
     finished_bytes r = [7, 48, 5, 1, 2, 0, 1, 3, 9] \<and> snd r = 9"
proof -
  have v: "valid small_doc" "length (encode small_doc) < OBJECT_LIMIT"
    "2 * (0 + length (encode small_doc)) + 8 < OBJECT_LIMIT" by code_simp+
  have e: "encode small_doc = [7, 48, 5, 1, 2, 0, 1, 3, 9]" by code_simp
  from document_succeeds [OF malloc_ok_zero_heap total_zero_heap v(1,3)]
  obtain st1 st2 r st3 where run: "CBB_init zero_heap True 0 CBB_zero = (Some (), st1)"
    "write_items zero_heap small_doc st1 = (Some (), st2)"
    "CBB_finish zero_heap True True st2 = (Some r, st3)" by blast
  from CBB_document_exact [OF malloc_ok_zero_heap _ run(1) v(1,2) run(2,3)]
  have "finished_bytes r = [7, 48, 5, 1, 2, 0, 1, 3, 9] \<and> snd r = 9" unfolding e by simp
  with run show ?thesis by blast
qed

text \<open>
  C6: with an allocator that never refuses a legal size, writing a document with valid lengths
  always succeeds, from creating the builder to finishing it: nothing but memory and lengths
  can make the builder fail.
\<close>

theorem CBB_document_succeeds:
  assumes "malloc_ok malloc" "total_malloc malloc" "valid doc"
    and "2 * (cap + length (encode doc)) + 8 < OBJECT_LIMIT"
  shows "\<exists>st1 st2 r st3. CBB_init malloc True cap st0 = (Some (), st1) \<and>
    write_items malloc doc st1 = (Some (), st2) \<and> CBB_finish malloc True True st2 = (Some r, st3)"
  using assms by (rule document_succeeds)

theorem CBB_document_succeeds_witness:
  "\<exists>st1 st2 r st3. CBB_init zero_heap True 16 CBB_zero = (Some (), st1) \<and>
    write_items zero_heap small_doc st1 = (Some (), st2) \<and> CBB_finish zero_heap True True st2 = (Some r, st3)"
proof -
  have "valid small_doc" "2 * (16 + length (encode small_doc)) + 8 < OBJECT_LIMIT" by code_simp+
  from CBB_document_succeeds [OF malloc_ok_zero_heap total_zero_heap this] show ?thesis .
qed

text \<open>
  C7: a fixed builder over a caller's buffer writes a document exactly when its encoding fits
  in the buffer, and never grows the buffer.
\<close>

theorem CBB_fixed_document:
  assumes "malloc_ok malloc" "valid doc" "length (encode doc) < OBJECT_LIMIT" "length p + 8 < OBJECT_LIMIT"
    and init: "CBB_init_fixed True p (length p) st0 = (Some (), st1)"
  shows "(\<exists>st2 r st3. write_items malloc doc st1 = (Some (), st2) \<and>
      CBB_finish malloc want_data want_len st2 = (Some r, st3)) \<longleftrightarrow> length (encode doc) \<le> length p"
proof -
  note b1 = CBB_init_fixed_built [OF assms(4) init]
  have f: "fits (length (encode doc))" using assms(3) by (simp add: fits_def)
  have len0: "fits (length ([] :: bytes))" by (simp add: fits_def)
  have "fixed_cap st1 (length p)"
    using init by (auto simp: CBB_init_fixed_def cbb_init_def CBB_zero_def fixed_cap_def)
  from write_items_fixed [OF assms(1,2) f b1 this]
  have fixed: "b_can_resize b = False \<and> b_cap b = length p"
    if "write_items malloc doc st1 = (Some (), Some b, c)" for b c
    using that by (fastforce simp: fixed_cap_def)
  show ?thesis
  proof
    assume "\<exists>st2 r st3. write_items malloc doc st1 = (Some (), st2) \<and>
      CBB_finish malloc want_data want_len st2 = (Some r, st3)"
    then obtain st2 r st3 where run: "write_items malloc doc st1 = (Some (), st2)"
      "CBB_finish malloc want_data want_len st2 = (Some r, st3)" by blast
    from write_items_built [OF assms(1,2) f b1 run(1)] have b2: "built st2 (encode doc)" by simp
    then obtain b c where b: "st2 = (Some b, c)" "wf_buf b" "wf_cbb c (b_len b)" "\<not> c_is_child c"
      by (auto simp: built_def)
    obtain x st' where fl: "CBB_flush malloc (Some b, c) = (x, st')" by (rule prod.exhaust)
    from CBB_finish_bytes [OF b2 assms(1) run(2)] have n: "snd r = length (encode doc)" by simp
    show "length (encode doc) \<le> length p"
    proof (rule flush.flat_cases [OF assms(1) b(2,3) len0 fl])
      fix a b' cs
      assume 1: "x = Some a" "st' = (Some b', set_child None c)" "appended b c [] b' (set_child None c)"
      with run(2) b(1,4) fl have "r = (b_buf b', b_len b')"
        by (auto simp: CBB_finish_def split: if_splits)
      moreover have "b_len b' \<le> b_cap b'" "b_cap b' = b_cap b"
        using 1(3) fixed [of b c] run(1) b(1) by (auto simp: appended_def wf_buf_def grows_def)
      ultimately show ?thesis using n fixed [of b c] run(1) b(1) by simp
    qed (use run(2) b(1,4) fl in \<open>auto simp: CBB_finish_def\<close>)
  next
    assume le: "length (encode doc) \<le> length p"
    have room: "room malloc st1 (length (encode doc))"
      using init le by (auto simp: CBB_init_fixed_def cbb_init_def CBB_zero_def room_def can_hold_def)
    have "length ([] :: bytes) + length (encode doc) \<le> length (encode doc)" by simp
    from write_items_succeeds [OF assms(1,2) f b1 room this]
    obtain st2 where st2: "write_items malloc doc st1 = (Some (), st2)" "built st2 (encode doc)"
      "room malloc st2 (length (encode doc))" by auto
    obtain r st3 where fin: "CBB_finish malloc True True st2 = (Some r, st3)"
      by (rule CBB_finish_succeeds [OF st2(2) assms(1) st2(3)])
    have "CBB_finish malloc want_data want_len st2 = (Some r, st3)"
    proof -
      obtain b c where b: "st2 = (Some b, c)" "wf_buf b" "wf_cbb c (b_len b)"
        using st2(2) by (auto simp: built_def)
      obtain x st' where fl: "CBB_flush malloc (Some b, c) = (x, st')" by (rule prod.exhaust)
      show ?thesis
        by (rule flush.flat_cases [OF assms(1) b(2,3) len0 fl])
          (use fin fl b(1) fixed [of b c] st2(1) in
            \<open>auto simp: CBB_finish_def appended_def grows_def split: if_splits\<close>)
    qed
    with st2(1) show "\<exists>st2 r st3. write_items malloc doc st1 = (Some (), st2) \<and>
      CBB_finish malloc want_data want_len st2 = (Some r, st3)" by blast
  qed
qed

theorem CBB_fixed_document_witness:
  "(\<exists>st2 r st3. write_items zero_heap small_doc (snd (CBB_init_fixed True (replicate 8 0) 8 CBB_zero)) =
      (Some (), st2) \<and> CBB_finish zero_heap False False st2 = (Some r, st3)) \<longleftrightarrow> (9 :: nat) \<le> 8"
proof -
  have 1: "CBB_init_fixed True (replicate 8 0) (length (replicate 8 (0 :: u8))) CBB_zero =
      (Some (), snd (CBB_init_fixed True (replicate 8 0) 8 CBB_zero))" by code_simp
  have v: "valid small_doc" "length (encode small_doc) < OBJECT_LIMIT"
    "length (replicate 8 (0 :: u8)) + 8 < OBJECT_LIMIT" "length (encode small_doc) = 9"
    "length (replicate 8 (0 :: u8)) = 8" by code_simp+
  from CBB_fixed_document [OF malloc_ok_zero_heap v(1-3) 1, of False False]
  show ?thesis unfolding v(4,5) .
qed

text \<open>
  C8: a child that turns out longer than its length prefix can say is never cut short or
  given a wrong length: flushing it fails and leaves the builder in the error state.
\<close>

theorem CBB_length_overflow_detected:
  assumes "malloc_ok malloc" "wf_buf b" "wf_cbb c (b_len b)" "0 < k" "length dat < OBJECT_LIMIT - k"
    and "256 ^ k \<le> length dat"
    and run: "bindR (cbb_add_length_prefixed malloc k) (\<lambda>_.
        bindR (on_child (CBB_add_bytes malloc dat)) (\<lambda>_. CBB_flush malloc)) (Some b, c) = (r, st')"
  shows "r = None \<and> (\<exists>b' c'. st' = (Some b', c') \<and> b_error b')"
proof -
  have f: "fits (length ([] :: bytes) + k)" "fits (length dat)" using assms(5) by (simp_all add: fits_def)
  have fl: "filler malloc (on_child (CBB_add_bytes malloc dat)) dat"
    by (intro filler_on_child add_bytes.appender_axioms)
  obtain r1 st1 where 1: "cbb_add_length_prefixed malloc k (Some b, c) = (r1, st1)" by (rule prod.exhaust)
  show ?thesis
  proof (rule opener_cases [OF opener_length_prefixed [OF assms(4)] assms(1-3) f(1) 1])
    fix b1 cs z
    assume o: "r1 = Some ()" "st1 = (Some b1, set_child (Some (CBB None (length (cs @ [])) k False True)) c)"
      "length z = k" "closed c (contents b) = Some cs" "contents b1 = cs @ [] @ z" "wf_buf b1"
      "grows b b1" "\<not> b_error b1"
    let ?ch = "CBB None (length cs) k False True"
    have "b_len b1 = length (cs @ z)" using length_contents [OF o(6)] o(5) by simp
    then have w: "wf_cbb ?ch (b_len b1)" using o(3) by simp
    obtain r2 st2 where 2: "on_child (CBB_add_bytes malloc dat) (Some b1, set_child (Some ?ch) c) = (r2, st2)"
      by (rule prod.exhaust)
    show ?thesis
    proof (rule filler_cases [OF fl assms(1) f(2) c_child_set_child o(6) w o(8) _ 2])
      show "closed ?ch (contents b1) = Some (contents b1)" by simp
    next
      fix a b2 ch
      assume g: "r2 = Some a" "st2 = (Some b2, set_child (Some ch) (set_child (Some ?ch) c))"
        "appended b1 ?ch dat b2 ch"
      then have wf: "wf_buf b2" "wf_cbb ch (b_len b2)" "same_frame ?ch ch"
        "closed ch (contents b2) = Some (contents b1 @ dat)"
        by (simp_all add: appended_def)
      from wf(3) have fr: "c_offset ch = length cs" "c_pending_len_len ch = k" "\<not> c_pending_is_asn1 ch"
        by (simp_all add: same_frame_def set_child_def)
      have "seal ch (contents b1 @ dat) = None"
        using assms(6) o(3,5) by (simp add: seal_def len_prefix_def fr base_of_def)
      then have cl: "closed (set_child (Some ch) c) (contents b2) = None"
        using wf(4) by (simp add: set_child_def)
      have "wf_cbb (set_child (Some ch) c) (b_len b2)"
        using wf_child [OF assms(3) o(4) assms(2) wf(2)] fr assms(4) by simp
      from CBB_flush_None [OF assms(1) wf(1) this cl] obtain b' c' where
        "CBB_flush malloc (Some b2, set_child (Some ch) c) = (None, Some b', c')" "b_error b'" by metis
      then show ?thesis using run 1 2 o(1,2) g(1,2) by auto
    qed (use run 1 2 o(1,2) in \<open>auto simp: refused_def\<close>)
  qed (use run 1 in \<open>auto simp: refused_def\<close>)
qed

theorem CBB_length_overflow_detected_witness:
  "fst (bindR (cbb_add_length_prefixed zero_heap 1) (\<lambda>_.
      bindR (on_child (CBB_add_bytes zero_heap (replicate 256 7))) (\<lambda>_. CBB_flush zero_heap))
      (Some \<lparr>b_buf = None, b_len = 0, b_cap = 0, b_can_resize = True, b_error = False\<rparr>,
       CBB None 0 0 False False)) = None"
proof -
  let ?b = "\<lparr>b_buf = None, b_len = 0, b_cap = 0, b_can_resize = True, b_error = False\<rparr>"
  let ?c = "CBB None 0 0 False False"
  let ?run = "bindR (cbb_add_length_prefixed zero_heap 1) (\<lambda>_.
      bindR (on_child (CBB_add_bytes zero_heap (replicate 256 7))) (\<lambda>_. CBB_flush zero_heap)) (Some ?b, ?c)"
  have w: "wf_buf ?b" "wf_cbb ?c (b_len ?b)" by (simp_all add: wf_buf_def blk_def)
  have "?run = (fst ?run, snd ?run)" by simp
  from CBB_length_overflow_detected [OF malloc_ok_zero_heap w _ _ _ this] show ?thesis by simp
qed

lemma length_der_integer_64: "- (2 ^ 63) \<le> z \<Longrightarrow> z < 2 ^ 64 \<Longrightarrow> fits (length (der_integer z))"
proof -
  assume "- (2 ^ 63) \<le> z" "z < 2 ^ 64"
  then have "length (der_int z) \<le> Suc 8" by (intro length_der_int) simp_all
  then have "length (der_integer z) \<le> 16 + 16"
    using length_der_tag [of CBS_ASN1_INTEGER]
    by (simp add: der_integer_def der_element_def der_header_def der_length_def octets_def)
  then show ?thesis by (simp add: fits_def)
qed

text \<open>The state of a builder that has been marked as being in error.\<close>

definition marked :: "cbb_state \<Rightarrow> bool" where
  "marked st = (case st of (Some b, c) \<Rightarrow> b_error b | (None, c) \<Rightarrow> False)"

text \<open>
  C9: what an error of a builder does. A flush, an append of bytes or of an integer that fails, for lack of memory, for
  lack of space or for a length that does not fit, marks the builder. On a marked builder
  flushing, finishing, reserving, appending bytes, space, numbers or elements and opening a child
  fail and change nothing. The mark is not looked at by \<open>CBB_did_write\<close>, which still moves the end of the
  contents, and by \<open>CBB_discard_child\<close>, which still drops the child's part: with them not
  \<open>all future operations\<close> fail, as \<open>bytestring.h\<close> has it.
\<close>

theorem CBB_error_sticks:
  shows "(malloc_ok malloc \<and> wf_buf b \<and> wf_cbb c (b_len b) \<and> fits (length dat) \<longrightarrow>
      (fst (CBB_flush malloc (Some b, c)) = None \<longrightarrow> marked (snd (CBB_flush malloc (Some b, c)))) \<and>
      (fst (CBB_add_bytes malloc dat (Some b, c)) = None \<longrightarrow> marked (snd (CBB_add_bytes malloc dat (Some b, c)))) \<and>
      (fst (CBB_add_asn1_int64 malloc v (Some b, c)) = None \<longrightarrow> marked (snd (CBB_add_asn1_int64 malloc v (Some b, c))))) \<and>
    (b_error b \<longrightarrow>
      CBB_flush malloc (Some b, c) = (None, (Some b, c)) \<and>
      CBB_finish malloc want_data want_len (Some b, c) = (None, (Some b, c)) \<and>
      CBB_add_bytes malloc dat (Some b, c) = (None, (Some b, c)) \<and>
      CBB_add_space malloc n (Some b, c) = (None, (Some b, c)) \<and>
      CBB_reserve malloc n (Some b, c) = (None, (Some b, c)) \<and>
      CBB_add_u malloc v n (Some b, c) = (None, (Some b, c)) \<and>
      cbb_add_length_prefixed malloc n (Some b, c) = (None, (Some b, c)) \<and>
      CBB_add_asn1 malloc tag (Some b, c) = (None, (Some b, c)) \<and>
      CBB_add_asn1_int64 malloc v (Some b, c) = (None, (Some b, c))) \<and>
    (b_error b \<and> c_child c = None \<and> b_len b + n \<le> b_cap b \<and> b_cap b < SIZE_LIMIT \<longrightarrow>
      CBB_did_write n (Some b, c) = (Some (), (Some (b\<lparr>b_len := b_len b + n\<rparr>), c))) \<and>
    (b_error b \<and> c_child c = Some ch \<longrightarrow>
      CBB_discard_child (Some b, c) = (Some (b\<lparr>b_len := c_offset ch\<rparr>), set_child None c))"
proof (intro conjI [rotated] impI)
  assume e: "b_error b"
  then have fl: "CBB_flush malloc (Some b, c) = (None, (Some b, c))"
    by (cases c) (simp add: CBB_flush_def)
  then have asn: "CBB_add_asn1 malloc tag (Some b, c) = (None, (Some b, c))" for tag
    by (simp add: CBB_add_asn1_def)
  with fl show "CBB_flush malloc (Some b, c) = (None, (Some b, c))" "CBB_finish malloc want_data want_len (Some b, c) = (None, (Some b, c))"
      "CBB_add_bytes malloc dat (Some b, c) = (None, (Some b, c))" "CBB_add_space malloc n (Some b, c) = (None, (Some b, c))"
      "CBB_reserve malloc n (Some b, c) = (None, (Some b, c))" "CBB_add_u malloc v n (Some b, c) = (None, (Some b, c))"
      "cbb_add_length_prefixed malloc n (Some b, c) = (None, (Some b, c))" "CBB_add_asn1 malloc tag (Some b, c) = (None, (Some b, c))"
      "CBB_add_asn1_int64 malloc v (Some b, c) = (None, (Some b, c))"
    by (simp_all add: CBB_finish_def CBB_add_bytes_def CBB_add_space_def CBB_reserve_def CBB_add_u_def
        cbb_add_length_prefixed_def CBB_add_asn1_int64_def CBB_add_asn1_uint64_def Let_def)
next
  assume "b_error b \<and> c_child c = None \<and> b_len b + n \<le> b_cap b \<and> b_cap b < SIZE_LIMIT"
  then show "CBB_did_write n (Some b, c) = (Some (), (Some (b\<lparr>b_len := b_len b + n\<rparr>), c))"
    by (simp add: CBB_did_write_def)
next
  assume "b_error b \<and> c_child c = Some ch"
  then show "CBB_discard_child (Some b, c) = (Some (b\<lparr>b_len := c_offset ch\<rparr>), set_child None c)"
    by (simp add: CBB_discard_child_def)
next
  assume pre: "malloc_ok malloc \<and> wf_buf b \<and> wf_cbb c (b_len b) \<and> fits (length dat)"
  have nil: "fits (length ([] :: bytes))" and int: "fits (length (der_integer (sint v)))"
    using sint_ge [of v] sint_lt [of v] by (simp add: fits_def, intro length_der_integer_64) simp_all
  note conds = conjunct1 [OF pre] conjunct1 [OF conjunct2 [OF pre]] conjunct1 [OF conjunct2 [OF conjunct2 [OF pre]]]
  have m: "marked (snd p)" if "fst p = None" "case p of (Some a, Some b', c') \<Rightarrow> appended b c d b' c'
      | (None, Some b', c') \<Rightarrow> refused malloc b c d b' | (_, None, c') \<Rightarrow> False" for p :: "'z option \<times> cbb_state" and d
    using that by (auto simp: marked_def refused_def split: prod.splits option.splits)
  show "fst (CBB_flush malloc (Some b, c)) = None \<Longrightarrow> marked (snd (CBB_flush malloc (Some b, c)))"
    by (rule m [OF _ flush.run [OF conds nil]])
  show "fst (CBB_add_bytes malloc dat (Some b, c)) = None \<Longrightarrow> marked (snd (CBB_add_bytes malloc dat (Some b, c)))"
    by (rule m [OF _ add_bytes.run [OF conds conjunct2 [OF conjunct2 [OF conjunct2 [OF pre]]]]])
  show "fst (CBB_add_asn1_int64 malloc v (Some b, c)) = None \<Longrightarrow> marked (snd (CBB_add_asn1_int64 malloc v (Some b, c)))"
    by (rule m [OF _ add_int64.run [OF conds int]])
qed

theorem CBB_error_sticks_witness:
  "let b = \<lparr>b_buf = Some [1, 0, 0], b_len = 1, b_cap = 3, b_can_resize = False, b_error = True\<rparr>; c = CBB None 0 0 False False
   in CBB_flush zero_heap (Some b, c) = (None, (Some b, c)) \<and>
      CBB_did_write 2 (Some b, c) = (Some (), (Some (b\<lparr>b_len := 3\<rparr>), c)) \<and>
      marked (snd (CBB_add_bytes zero_heap [7, 8, 9] (Some (b\<lparr>b_error := False\<rparr>), c)))"
proof -
  let ?b = "\<lparr>b_buf = Some [1, 0, 0], b_len = 1, b_cap = 3, b_can_resize = False, b_error = True\<rparr>"
  let ?u = "?b\<lparr>b_error := False\<rparr>" and ?c = "CBB None 0 0 False False"
  have w: "malloc_ok zero_heap \<and> wf_buf ?u \<and> wf_cbb ?c (b_len ?u) \<and> fits (length [7, 8, 9 :: u8])"
    using malloc_ok_zero_heap by (simp add: wf_buf_def blk_def fits_def)
  have f: "fst (CBB_add_bytes zero_heap [7, 8, 9] (Some ?u, ?c)) = None" by code_simp
  note st = CBB_error_sticks [of zero_heap ?b ?c "[]" 0 False False 2]
  have "CBB_flush zero_heap (Some ?b, ?c) = (None, (Some ?b, ?c))"
    using conjunct1 [OF conjunct2 [OF st]] by simp
  moreover have "CBB_did_write 2 (Some ?b, ?c) = (Some (), (Some (?b\<lparr>b_len := 3\<rparr>), ?c))"
    using conjunct1 [OF conjunct2 [OF conjunct2 [OF st]]] by simp
  moreover have "marked (snd (CBB_add_bytes zero_heap [7, 8, 9] (Some ?u, ?c)))"
    using CBB_error_sticks [of zero_heap ?u ?c "[7, 8, 9]" 0 False False 2] f w by blast
  ultimately show ?thesis by (simp only: Let_def simp_thms)
qed

section \<open>Round trips through the reader\<close>

lemma written_by:
  assumes "malloc_ok malloc" "cap + 8 < SIZE_LIMIT" "appender malloc op d" "fits (length d)"
    and "CBB_init malloc base_ok cap st0 = (Some (), st1)" "op st1 = (Some a, st2)"
    and "CBB_finish malloc want_data want_len st2 = (Some r, st3)"
  shows "finished_bytes r = d"
  using CBB_finish_bytes [OF built_append [OF CBB_init_built [OF assms(1,2,5)] assms(3,1,4,6)] assms(1,7)]
  by simp

lemma write_succeeds:
  assumes "appender zero_heap op d" "length d < 2 ^ 32"
  shows "\<exists>st1 a st2 r st3. CBB_init zero_heap True 0 CBB_zero = (Some (), st1) \<and>
    op st1 = (Some a, st2) \<and> CBB_finish zero_heap True True st2 = (Some r, st3)"
proof -
  have "2 * (0 + length (encode [])) + 8 < OBJECT_LIMIT" "valid []" by simp_all
  from document_succeeds [OF malloc_ok_zero_heap total_zero_heap this(2,1)]
  obtain st1 where i: "CBB_init zero_heap True 0 CBB_zero = (Some (), st1)" by blast
  then have "room zero_heap st1 (length d)"
    using assms(2) by (auto simp: CBB_init_def cbb_init_def CBB_zero_def room_def can_hold_def Let_def
        split: if_splits)
  moreover have "fits (length d)" using assms(2) by (simp add: fits_def)
  moreover have "length ([] :: bytes) + length d \<le> length d" by simp
  moreover have "built st1 []" using CBB_init_built [OF malloc_ok_zero_heap _ i] by simp
  ultimately obtain a st2 where "op st1 = (Some a, st2)" "built st2 ([] @ d)" "room zero_heap st2 (length d)"
    using built_succeeds [OF _ assms(1) malloc_ok_zero_heap] by metis
  with CBB_finish_succeeds [OF _ malloc_ok_zero_heap] i show ?thesis by (metis append_Nil)
qed

text \<open>
  C10: what \<open>CBB_add_asn1_int64\<close> writes, \<open>CBS_get_asn1_int64\<close> reads back, for every 64-bit value,
  whatever follows it.
\<close>

theorem asn1_int64_roundtrip:
  assumes "malloc_ok malloc" "cap + 8 < SIZE_LIMIT"
    and "CBB_init malloc base_ok cap st0 = (Some (), st1)"
    and "CBB_add_asn1_int64 malloc val st1 = (Some (), st2)"
    and "CBB_finish malloc want_data want_len st2 = (Some r, st3)"
  shows "CBS_get_asn1_int64 (finished_bytes r @ rest) = (Some val, rest)"
proof -
  have "fits (length (der_integer (sint val)))"
    using sint_ge [of val] sint_lt [of val] by (intro length_der_integer_64) simp_all
  from written_by [OF assms(1,2) add_int64.appender_axioms this assms(3-5)]
  show ?thesis by (simp add: CBS_get_asn1_int64_iff)
qed

theorem asn1_int64_roundtrip_witness:
  "\<exists>st1 st2 r st3. CBB_init zero_heap True 0 CBB_zero = (Some (), st1) \<and>
     CBB_add_asn1_int64 zero_heap (- 129) st1 = (Some (), st2) \<and>
     CBB_finish zero_heap True True st2 = (Some r, st3) \<and>
     CBS_get_asn1_int64 (finished_bytes r @ [5]) = (Some (- 129), [5])"
proof -
  have "length (der_integer (sint (- 129 :: u64))) < 2 ^ 32" by code_simp
  from write_succeeds [OF add_int64.appender_axioms this]
  obtain st1 st2 r st3 where run: "CBB_init zero_heap True 0 CBB_zero = (Some (), st1)"
    "CBB_add_asn1_int64 zero_heap (- 129) st1 = (Some (), st2)"
    "CBB_finish zero_heap True True st2 = (Some r, st3)" by auto
  from asn1_int64_roundtrip [OF malloc_ok_zero_heap _ run, of "[5]"]
  show ?thesis using run by (intro exI conjI) simp_all
qed

text \<open>
  What \<open>CBB_add_asn1_uint64\<close> writes, \<open>CBS_get_asn1_uint64\<close> reads back, for every 64-bit value,
  whatever follows it.
\<close>

theorem asn1_uint64_roundtrip:
  assumes "malloc_ok malloc" "cap + 8 < SIZE_LIMIT"
    and "CBB_init malloc base_ok cap st0 = (Some (), st1)"
    and "CBB_add_asn1_uint64 malloc val st1 = (Some (), st2)"
    and "CBB_finish malloc want_data want_len st2 = (Some r, st3)"
  shows "CBS_get_asn1_uint64 (finished_bytes r @ rest) = (Some val, rest)"
proof -
  have "- (2 ^ 63) \<le> int (unat val)" by (rule order_trans [of _ 0]) simp_all
  moreover have "int (unat val) < 2 ^ 64" using uint_lt2p [of val] by simp
  ultimately have "fits (length (der_integer (int (unat val))))" by (rule length_der_integer_64)
  from written_by [OF assms(1,2) add_uint64.appender_axioms this assms(3-5)]
  show ?thesis by (simp add: CBS_get_asn1_uint64_iff)
qed

theorem asn1_uint64_roundtrip_witness:
  "\<exists>st1 st2 r st3. CBB_init zero_heap True 0 CBB_zero = (Some (), st1) \<and>
     CBB_add_asn1_uint64 zero_heap 200 st1 = (Some (), st2) \<and>
     CBB_finish zero_heap True True st2 = (Some r, st3) \<and>
     CBS_get_asn1_uint64 (finished_bytes r @ [5]) = (Some 200, [5])"
proof -
  have "length (der_integer (int (unat (200 :: u64)))) < 2 ^ 32" by code_simp
  from write_succeeds [OF add_uint64.appender_axioms this]
  obtain st1 st2 r st3 where run: "CBB_init zero_heap True 0 CBB_zero = (Some (), st1)"
    "CBB_add_asn1_uint64 zero_heap 200 st1 = (Some (), st2)"
    "CBB_finish zero_heap True True st2 = (Some r, st3)" by auto
  from asn1_uint64_roundtrip [OF malloc_ok_zero_heap _ run, of "[5]"]
  show ?thesis using run by (intro exI conjI) simp_all
qed

end
