(* ===== verification/Unicode.thy ===== *)
theory Unicode
  imports Appender
begin

text \<open>
  \<open>crypto/bytestring/unicode.c\<close>: reading and writing one code point as UTF-8, Latin-1, UCS-2
  and UTF-32. Each encoding is an instance of one interface, whose law says that the reader
  accepts exactly the encodings of the valid code points.
\<close>

section \<open>The code\<close>

definition is_valid_code_point :: "u32 \<Rightarrow> bool" where
  "is_valid_code_point v \<longleftrightarrow>
     \<not> (v > 0x10ffff \<or> v AND 0xfffe = 0xfffe \<or> (v \<ge> 0xfdd0 \<and> v \<le> 0xfdef) \<or>
        (v \<ge> 0xd800 \<and> v \<le> 0xdfff))"

definition BOTTOM_BITS :: "nat \<Rightarrow> u8" where
  "BOTTOM_BITS n = ucast (push_bit n 1 - 1 :: u32)"

definition TOP_BITS :: "nat \<Rightarrow> u8" where
  "TOP_BITS n = NOT (BOTTOM_BITS (8 - n))"

fun utf8_continuation :: "u32 \<Rightarrow> nat \<Rightarrow> (cbs, u32) reader" where
  "utf8_continuation v 0 = returnR v"
| "utf8_continuation v (Suc len) =
     bindR CBS_get_u8 (\<lambda>c.
       if c AND TOP_BITS 2 \<noteq> TOP_BITS 1 then failR
       else utf8_continuation (push_bit 6 v OR ucast (c AND BOTTOM_BITS 6)) len)"

definition cbs_get_utf8 :: "(cbs, u32) reader" where
  "cbs_get_utf8 =
     bindR CBS_get_u8 (\<lambda>c.
       if c \<le> 0x7f then returnR (ucast c)
       else
         let rest = (\<lambda>v len lower_bound.
           bindR (utf8_continuation v len) (\<lambda>v.
             if \<not> is_valid_code_point v \<or> v < lower_bound then failR else returnR v))
         in if c AND TOP_BITS 3 = TOP_BITS 2 then rest (ucast (c AND BOTTOM_BITS 5)) 1 0x80
            else if c AND TOP_BITS 4 = TOP_BITS 3 then rest (ucast (c AND BOTTOM_BITS 4)) 2 0x800
            else if c AND TOP_BITS 5 = TOP_BITS 4 then rest (ucast (c AND BOTTOM_BITS 3)) 3 0x10000
            else failR)"

definition cbs_get_latin1 :: "(cbs, u32) reader" where
  "cbs_get_latin1 = bindR CBS_get_u8 (\<lambda>c. returnR (ucast c))"

definition cbs_get_ucs2_be :: "(cbs, u32) reader" where
  "cbs_get_ucs2_be =
     bindR CBS_get_u16 (\<lambda>c. if \<not> is_valid_code_point (ucast c) then failR else returnR (ucast c))"

definition cbs_get_utf32_be :: "(cbs, u32) reader" where
  "cbs_get_utf32_be = bindR CBS_get_u32 (\<lambda>c. if is_valid_code_point c then returnR c else failR)"

definition cbb_get_utf8_len :: "u32 \<Rightarrow> nat" where
  "cbb_get_utf8_len u = (if u \<le> 0x7f then 1 else if u \<le> 0x7ff then 2 else if u \<le> 0xffff then 3 else 4)"

text \<open>The argument of \<open>CBB_add_u8\<close> is truncated to a byte.\<close>

definition utf8_tail :: "nat \<Rightarrow> u32 \<Rightarrow> u8" where
  "utf8_tail k u = ucast (ucast (TOP_BITS 1) OR (drop_bit (6 * k) u AND ucast (BOTTOM_BITS 6)) :: u32)"

definition utf8_head :: "nat \<Rightarrow> nat \<Rightarrow> u32 \<Rightarrow> u8" where
  "utf8_head n k u = ucast (ucast (TOP_BITS n) OR drop_bit (6 * k) u :: u32)"

definition cbb_add_utf8 :: "allocator \<Rightarrow> u32 \<Rightarrow> (cbb_state, unit) reader" where
  "cbb_add_utf8 malloc u =
     (if \<not> is_valid_code_point u then failR
      else if u \<le> 0x7f then CBB_add_u8 malloc (ucast u)
      else if u \<le> 0x7ff then
        bindR (CBB_add_u8 malloc (utf8_head 2 1 u)) (\<lambda>_. CBB_add_u8 malloc (utf8_tail 0 u))
      else if u \<le> 0xffff then
        bindR (CBB_add_u8 malloc (utf8_head 3 2 u)) (\<lambda>_.
        bindR (CBB_add_u8 malloc (utf8_tail 1 u)) (\<lambda>_. CBB_add_u8 malloc (utf8_tail 0 u)))
      else if u \<le> 0x10ffff then
        bindR (CBB_add_u8 malloc (utf8_head 4 3 u)) (\<lambda>_.
        bindR (CBB_add_u8 malloc (utf8_tail 2 u)) (\<lambda>_.
        bindR (CBB_add_u8 malloc (utf8_tail 1 u)) (\<lambda>_. CBB_add_u8 malloc (utf8_tail 0 u))))
      else failR)"

definition cbb_add_latin1 :: "allocator \<Rightarrow> u32 \<Rightarrow> (cbb_state, unit) reader" where
  "cbb_add_latin1 malloc u = (if u \<le> 0xff then CBB_add_u8 malloc (ucast u) else failR)"

definition cbb_add_ucs2_be :: "allocator \<Rightarrow> u32 \<Rightarrow> (cbb_state, unit) reader" where
  "cbb_add_ucs2_be malloc u =
     (if u \<le> 0xffff \<and> is_valid_code_point u then CBB_add_u16 malloc (ucast u) else failR)"

definition cbb_add_utf32_be :: "allocator \<Rightarrow> u32 \<Rightarrow> (cbb_state, unit) reader" where
  "cbb_add_utf32_be malloc u = (if is_valid_code_point u then CBB_add_u32 malloc u else failR)"

section \<open>The encodings\<close>

text \<open>UTF-8 by its bytes: \<open>utf8 n\<close> for a code point below 0x110000.\<close>

definition utf8 :: "nat \<Rightarrow> bytes" where
  "utf8 n =
     (if n < 0x80 then [word_of_nat n]
      else if n < 0x800 then [word_of_nat (192 + n div 64), word_of_nat (128 + n mod 64)]
      else if n < 0x10000 then
        [word_of_nat (224 + n div 64 ^ 2), word_of_nat (128 + n div 64 mod 64), word_of_nat (128 + n mod 64)]
      else
        [word_of_nat (240 + n div 64 ^ 3), word_of_nat (128 + n div 64 ^ 2 mod 64),
         word_of_nat (128 + n div 64 mod 64), word_of_nat (128 + n mod 64)])"

text \<open>
  One code point at a time: \<open>rd\<close> reads one, \<open>enc\<close> is the encoding of a valid one. Nothing but
  encodings is accepted, so decoding is unambiguous.
\<close>

locale code_points =
  fixes rd :: "(cbs, u32) reader" and valid_cp :: "u32 \<Rightarrow> bool" and enc :: "u32 \<Rightarrow> bytes"
  assumes reads: "rd s = (Some u, s') \<longleftrightarrow> valid_cp u \<and> s = enc u @ s'"
    and enc_not_Nil: "valid_cp u \<Longrightarrow> enc u \<noteq> []"
begin

lemma roundtrip: "valid_cp u \<Longrightarrow> rd (enc u @ s) = (Some u, s)"
  by (simp add: reads)

lemma unambiguous:
  assumes "valid_cp u" "valid_cp v" "enc u @ s = enc v @ t"
  shows "u = v \<and> s = t"
proof -
  have "rd (enc u @ s) = (Some u, s)" "rd (enc v @ t) = (Some v, t)"
    using roundtrip assms(1,2) by blast+
  then have "(Some u, s) = (Some v, t)" unfolding assms(3) by (rule box_equals [OF refl])
  then show ?thesis by simp
qed

text \<open>A text: code points up to the end of the input.\<close>

lemma text_unambiguous:
  "list_all valid_cp us \<Longrightarrow> list_all valid_cp vs \<Longrightarrow> concat (map enc us) = concat (map enc vs) \<Longrightarrow> us = vs"
proof (induction us arbitrary: vs)
  case Nil
  then show ?case using enc_not_Nil by (cases vs) auto
next
  case (Cons u us)
  obtain v vs' where vs: "vs = v # vs'"
    using Cons.prems enc_not_Nil by (cases vs) auto
  with Cons.prems have "u = v \<and> concat (map enc us) = concat (map enc vs')"
    using unambiguous by auto
  with Cons vs show ?case by simp
qed

end

section \<open>Masks\<close>

lemma masks:
  "TOP_BITS 1 = 0x80" "TOP_BITS 2 = 0xc0" "TOP_BITS 3 = 0xe0" "TOP_BITS 4 = 0xf0" "TOP_BITS 5 = 0xf8"
  "BOTTOM_BITS 3 = 7" "BOTTOM_BITS 4 = 15" "BOTTOM_BITS 5 = 31" "BOTTOM_BITS 6 = 63"
  by (simp_all add: TOP_BITS_def BOTTOM_BITS_def)

lemma top_masks:
  "(0xc0 :: u8) = push_bit 6 (mask 2)" "(0xe0 :: u8) = push_bit 5 (mask 3)"
  "(0xf0 :: u8) = push_bit 4 (mask 4)" "(0xf8 :: u8) = push_bit 3 (mask 5)"
  by (simp_all add: mask_eq_exp_minus_1 push_bit_eq_mult)

lemma bottom_masks:
  "(7 :: 'a::len word) = mask 3" "(15 :: 'a::len word) = mask 4" "(31 :: 'a::len word) = mask 5"
  "(63 :: 'a::len word) = mask 6"
  by (simp_all add: mask_eq_exp_minus_1)

lemma unat_and_top:
  fixes c :: u8
  shows "unat (c AND 0xc0) = unat c div 64 * 64" "unat (c AND 0xe0) = unat c div 32 * 32"
    "unat (c AND 0xf0) = unat c div 16 * 16" "unat (c AND 0xf8) = unat c div 8 * 8"
proof -
  have "unat c < 2 ^ 8" by simp
  then have d: "unat c div 64 < 4" "unat c div 32 < 8" "unat c div 16 < 16" "unat c div 8 < 32"
    by (simp_all add: div_less_iff_less_mult)
  then show "unat (c AND 0xc0) = unat c div 64 * 64" "unat (c AND 0xe0) = unat c div 32 * 32"
    "unat (c AND 0xf0) = unat c div 16 * 16" "unat (c AND 0xf8) = unat c div 8 * 8"
    unfolding top_masks unat_and_push_mask by simp_all
qed

lemma top_tests:
  fixes c :: u8
  shows "c AND TOP_BITS 2 = TOP_BITS 1 \<longleftrightarrow> unat c div 64 = 2"
    "c AND TOP_BITS 3 = TOP_BITS 2 \<longleftrightarrow> unat c div 32 = 6"
    "c AND TOP_BITS 4 = TOP_BITS 3 \<longleftrightarrow> unat c div 16 = 14"
    "c AND TOP_BITS 5 = TOP_BITS 4 \<longleftrightarrow> unat c div 8 = 30"
  unfolding masks word_unat_eq_iff unat_and_top by simp_all

lemma unat_and_mask: "unat (c AND mask n) = unat (c :: 'a::len word) mod 2 ^ n"
  unfolding take_bit_eq_mask [symmetric] unsigned_take_bit_eq by (simp add: take_bit_eq_mod)

lemma unat_bottom:
  fixes c :: u8
  shows "unat (c AND BOTTOM_BITS 3) = unat c mod 8" "unat (c AND BOTTOM_BITS 4) = unat c mod 16"
    "unat (c AND BOTTOM_BITS 5) = unat c mod 32" "unat (c AND BOTTOM_BITS 6) = unat c mod 64"
  unfolding masks bottom_masks unat_and_mask by simp_all

section \<open>UTF-8\<close>

definition sextets :: "nat list \<Rightarrow> nat \<Rightarrow> nat" where
  "sextets ds v = foldl (\<lambda>v d. v * 64 + d) v ds"

definition cont_byte :: "nat \<Rightarrow> u8" where
  "cont_byte d = word_of_nat (128 + d)"

lemma cont_byte_eq: "d < 64 \<Longrightarrow> unat (cont_byte d) = 128 + d"
  by (simp add: cont_byte_def unat_of_nat del: of_nat_add)

lemma cont_byte_of: "unat c div 64 = 2 \<longleftrightarrow> (\<exists>d < 64. c = cont_byte d)"
proof
  assume c: "unat c div 64 = 2"
  have "unat c = unat c div 64 * 64 + unat c mod 64" by simp
  then have "unat c = 128 + unat c mod 64" by (simp add: c)
  then have "c = cont_byte (unat c mod 64)" unfolding cont_byte_def by (rule unat_eq_word_of_nat)
  moreover have "unat c mod 64 < 64" by simp
  ultimately show "\<exists>d < 64. c = cont_byte d" by blast
qed (auto simp: cont_byte_eq)

lemma unat_sextet_step:
  assumes "unat (v :: u32) < 2 ^ 26" "d < 64"
  shows "unat (push_bit 6 v OR ucast (cont_byte d AND BOTTOM_BITS 6)) = unat v * 64 + d"
proof -
  have "128 + d = d + 64 * 2" by simp
  then have "(128 + d) mod 64 = d" using assms(2) by (simp only: mod_mult_self2 mod_less)
  then have d: "unat (ucast (cont_byte d AND BOTTOM_BITS 6) :: u32) = d"
    using assms(2) by (simp add: unat_bottom cont_byte_eq)
  have "unat (ucast (cont_byte d AND BOTTOM_BITS 6) :: u32) < 2 ^ 6" unfolding d using assms(2) by simp
  from unat_push_bit_or [OF this, of v] show ?thesis unfolding d using assms by simp
qed

lemma utf8_continuation_iff:
  "unat v < 2 ^ (32 - 6 * len) \<Longrightarrow> len \<le> 3 \<Longrightarrow>
   utf8_continuation v len s = (Some w, s') \<longleftrightarrow>
     (\<exists>ds. length ds = len \<and> list_all (\<lambda>d. d < 64) ds \<and> s = map cont_byte ds @ s' \<and>
        unat w = sextets ds (unat v))"
proof (induction len arbitrary: v s)
  case 0
  then show ?case by (auto simp: returnR_def sextets_def word_unat_eq_iff)
next
  case (Suc len)
  have v26: "unat v < 2 ^ 26"
    using Suc.prems(1) by (rule less_le_trans) (rule power_increasing, simp_all)
  have step: "utf8_continuation (push_bit 6 v OR ucast (cont_byte d AND BOTTOM_BITS 6)) len t = (Some w, s') \<longleftrightarrow>
      (\<exists>ds. length ds = len \<and> list_all (\<lambda>d. d < 64) ds \<and> t = map cont_byte ds @ s' \<and>
        unat w = sextets ds (unat v * 64 + d))" if d: "d < 64" for d t
  proof -
    have "unat v * 64 + d < (unat v + 1) * 64" using d by simp
    also have "\<dots> \<le> 2 ^ (32 - 6 * Suc len) * 64"
      using Suc.prems(1) by (intro mult_le_mono1) simp
    also have "\<dots> = 2 ^ (32 - 6 * len)"
    proof -
      have "32 - 6 * len = (32 - 6 * Suc len) + 6" using Suc.prems(2) by simp
      then show ?thesis by (simp only: power_add) simp
    qed
    finally have "unat (push_bit 6 v OR ucast (cont_byte d AND BOTTOM_BITS 6)) < 2 ^ (32 - 6 * len)"
      unfolding unat_sextet_step [OF v26 d] .
    from Suc.IH [OF this] Suc.prems(2) show ?thesis unfolding unat_sextet_step [OF v26 d] by simp
  qed
  show ?case (is "?l = ?r")
  proof
    assume ?l
    then obtain c t where s: "s = c # t" and c: "c AND TOP_BITS 2 = TOP_BITS 1"
      and rest: "utf8_continuation (push_bit 6 v OR ucast (c AND BOTTOM_BITS 6)) len t = (Some w, s')"
      by (auto simp: CBS_get_u8_eq failR_def elim!: bindR_eq_SomeE split: list.splits if_splits)
    from c obtain d where d: "d < 64" "c = cont_byte d" by (metis top_tests(1) cont_byte_of)
    from rest [unfolded d(2)] obtain ds where ds: "length ds = len" "list_all (\<lambda>d. d < 64) ds"
      "t = map cont_byte ds @ s'" "unat w = sextets ds (unat v * 64 + d)"
      unfolding step [OF d(1)] by blast
    then show ?r using s d by (intro exI [of _ "d # ds"]) (simp add: sextets_def)
  next
    assume ?r
    then obtain d ds where ds: "length ds = len" "d < 64" "list_all (\<lambda>d. d < 64) ds"
      "s = cont_byte d # map cont_byte ds @ s'" "unat w = sextets ds (unat v * 64 + d)"
      by (auto simp: length_Suc_conv sextets_def)
    have c: "cont_byte d AND TOP_BITS 2 = TOP_BITS 1" using ds(2) by (metis top_tests(1) cont_byte_of)
    have "utf8_continuation (push_bit 6 v OR ucast (cont_byte d AND BOTTOM_BITS 6)) len
        (map cont_byte ds @ s') = (Some w, s')"
      unfolding step [OF ds(2)] using ds by blast
    then show ?l by (simp add: ds(4) CBS_get_u8_eq bindR_def c)
  qed
qed

text \<open>Recovering the parts of a code point from its value.\<close>

lemma utf8_parts:
  "b < 64 \<Longrightarrow> (a * 64 + b) div 64 = a" "b < 64 \<Longrightarrow> (a * 64 + b) mod 64 = b"
  "(a :: nat) * 64 + b = b + 64 * a"
  by simp_all

lemma lead_byte: "unat (c :: u8) = h + v \<Longrightarrow> c = word_of_nat (h + v)"
  by (rule unat_eq_word_of_nat)

lemma head_split: "unat (c :: u8) div k = q \<Longrightarrow> unat c = q * k + unat c mod k"
  using div_mult_mod_eq [of "unat c" k] by simp

lemma ex_length:
  "(\<exists>ds. length ds = 1 \<and> P ds) \<longleftrightarrow> (\<exists>a. P [a])"
  "(\<exists>ds. length ds = 2 \<and> P ds) \<longleftrightarrow> (\<exists>a b. P [a, b])"
  "(\<exists>ds. length ds = 3 \<and> P ds) \<longleftrightarrow> (\<exists>a b c. P [a, b, c])"
  by (auto simp: numeral_eq_Suc length_Suc_conv) (fastforce simp: numeral_eq_Suc length_Suc_conv)+

lemma utf8_2: "v < 32 \<Longrightarrow> a < 64 \<Longrightarrow> 0x80 \<le> v * 64 + a \<Longrightarrow>
    utf8 (v * 64 + a) = [word_of_nat (192 + v), cont_byte a]"
  by (simp add: utf8_def cont_byte_def)

lemma utf8_3:
  assumes "v < 16" "a < 64" "b < 64" "0x800 \<le> (v * 64 + a) * 64 + b"
  shows "utf8 ((v * 64 + a) * 64 + b) = [word_of_nat (224 + v), cont_byte a, cont_byte b]"
proof -
  define n where "n = (v * 64 + a) * 64 + b"
  have 1: "n div 64 = v * 64 + a" "n mod 64 = b" unfolding n_def by (rule utf8_parts, rule assms)+
  have "n div 64 ^ 2 = v" "n div 64 mod 64 = a"
    unfolding power2_eq_square div_mult2_eq 1 by (rule utf8_parts, rule assms)+
  moreover have "\<not> n < 0x800" "\<not> n < 0x80" "n < 0x10000" using assms by (simp_all add: n_def)
  ultimately show ?thesis using 1(2) unfolding n_def [symmetric] by (simp add: utf8_def cont_byte_def)
qed

lemma utf8_4:
  assumes "v < 8" "a < 64" "b < 64" "c < 64" "0x10000 \<le> ((v * 64 + a) * 64 + b) * 64 + c"
  shows "utf8 (((v * 64 + a) * 64 + b) * 64 + c) =
    [word_of_nat (240 + v), cont_byte a, cont_byte b, cont_byte c]"
proof -
  define n where "n = ((v * 64 + a) * 64 + b) * 64 + c"
  have 1: "n div 64 = (v * 64 + a) * 64 + b" "n mod 64 = c" unfolding n_def by (rule utf8_parts, rule assms)+
  have 2: "n div 64 ^ 2 = v * 64 + a" "n div 64 mod 64 = b"
    unfolding power2_eq_square div_mult2_eq 1 by (rule utf8_parts, rule assms)+
  have "n div 64 ^ 3 = n div 64 ^ 2 div 64" by (simp only: power3_eq_cube power2_eq_square div_mult2_eq)
  then have "n div 64 ^ 3 = v" "n div 64 ^ 2 mod 64 = a"
    unfolding 2 using utf8_parts(1,2) [OF assms(2), of v] by simp_all
  moreover have "\<not> n < 0x10000" "\<not> n < 0x800" "\<not> n < 0x80" using assms by (simp_all add: n_def)
  ultimately show ?thesis using 1(2) 2(2) unfolding n_def [symmetric] by (simp add: utf8_def cont_byte_def)
qed

lemma is_valid_code_point_nat:
  "is_valid_code_point u \<longleftrightarrow>
     \<not> (unat u > 0x10ffff \<or> unat u div 2 mod 32768 = 32767 \<or> (unat u \<ge> 0xfdd0 \<and> unat u \<le> 0xfdef) \<or>
        (unat u \<ge> 0xd800 \<and> unat u \<le> 0xdfff))"
proof -
  have m: "(0xfffe :: u32) = push_bit 1 (mask 15)" by (simp add: mask_eq_exp_minus_1 push_bit_eq_mult)
  have "unat u div 2 mod 32768 < 32768" by simp
  then have "unat (u AND 0xfffe) = unat u div 2 mod 32768 * 2"
    unfolding m unat_and_push_mask by simp
  then have "u AND 0xfffe = 0xfffe \<longleftrightarrow> unat u div 2 mod 32768 = 32767"
    unfolding word_unat_eq_iff by simp
  then show ?thesis
    by (simp add: is_valid_code_point_def word_less_nat_alt word_le_nat_alt)
qed

lemma valid_code_point_less: "is_valid_code_point u \<Longrightarrow> unat u < 0x110000"
  by (simp add: is_valid_code_point_nat)

lemma valid_small: "unat u < 0x80 \<Longrightarrow> is_valid_code_point u"
  by (simp add: is_valid_code_point_nat)

text \<open>The cases of the reader by the lead byte.\<close>

definition utf8_rest :: "u32 \<Rightarrow> nat \<Rightarrow> u32 \<Rightarrow> (cbs, u32) reader" where
  "utf8_rest v len lower_bound =
     bindR (utf8_continuation v len) (\<lambda>v.
       if \<not> is_valid_code_point v \<or> v < lower_bound then failR else returnR v)"

lemma cbs_get_utf8_Cons:
  "cbs_get_utf8 (c # s) =
     (if unat c < 128 then (Some (ucast c), s)
      else if unat c div 32 = 6 then utf8_rest (ucast (c AND BOTTOM_BITS 5)) 1 0x80 s
      else if unat c div 16 = 14 then utf8_rest (ucast (c AND BOTTOM_BITS 4)) 2 0x800 s
      else if unat c div 8 = 30 then utf8_rest (ucast (c AND BOTTOM_BITS 3)) 3 0x10000 s
      else (None, s))"
proof -
  have "c \<le> 0x7f \<longleftrightarrow> unat c < 128" unfolding word_le_nat_alt by (simp, arith)
  then show ?thesis
    by (simp add: cbs_get_utf8_def CBS_get_u8_eq bindR_def [of CBS_get_u8] top_tests utf8_rest_def Let_def
        reader_defs)
qed

lemma utf8_rest_iff:
  assumes "unat v < 32" "len \<le> 3" "len = 2 \<Longrightarrow> unat v < 16" "len = 3 \<Longrightarrow> unat v < 8"
  shows "utf8_rest v len lb s = (Some u, s') \<longleftrightarrow>
    is_valid_code_point u \<and> lb \<le> u \<and>
    (\<exists>ds. length ds = len \<and> list_all (\<lambda>d. d < 64) ds \<and> s = map cont_byte ds @ s' \<and> unat u = sextets ds (unat v))"
proof -
  have "(32 :: nat) \<le> 2 ^ (32 - 6 * len)"
    using assms(2) power_increasing [of 5 "32 - 6 * len" "2 :: nat"] by simp
  then have "unat v < 2 ^ (32 - 6 * len)" using assms(1) by simp
  from utf8_continuation_iff [OF this assms(2)] show ?thesis
    by (auto simp: utf8_rest_def bindR_Some_iff reader_defs not_less split: if_splits)
qed

lemma unat_ucast_bottom:
  fixes c :: u8
  shows "unat (ucast (c AND BOTTOM_BITS 5) :: u32) = unat c mod 32"
    "unat (ucast (c AND BOTTOM_BITS 4) :: u32) = unat c mod 16"
    "unat (ucast (c AND BOTTOM_BITS 3) :: u32) = unat c mod 8"
  by (simp_all add: unat_bottom)

lemma utf8_rest_1:
  "utf8_rest (ucast (c AND BOTTOM_BITS 5)) 1 lb s = (Some u, s') \<longleftrightarrow>
    is_valid_code_point u \<and> lb \<le> u \<and> (\<exists>a < 64. s = cont_byte a # s' \<and> unat u = unat c mod 32 * 64 + a)"
proof -
  have "unat (ucast (c AND BOTTOM_BITS 5) :: u32) < 32" unfolding unat_ucast_bottom by simp
  from utf8_rest_iff [OF this, of 1] show ?thesis
    unfolding ex_length unat_ucast_bottom by (auto simp: sextets_def)
qed

lemma utf8_rest_2:
  "utf8_rest (ucast (c AND BOTTOM_BITS 4)) 2 lb s = (Some u, s') \<longleftrightarrow>
    is_valid_code_point u \<and> lb \<le> u \<and> (\<exists>a < 64. \<exists>b < 64. s = cont_byte a # cont_byte b # s' \<and>
      unat u = (unat c mod 16 * 64 + a) * 64 + b)"
proof -
  have 16: "unat (ucast (c AND BOTTOM_BITS 4) :: u32) < 16" unfolding unat_ucast_bottom by simp
  then have "unat (ucast (c AND BOTTOM_BITS 4) :: u32) < 32" by linarith
  from utf8_rest_iff [OF this, of 2] 16 show ?thesis
    unfolding ex_length unat_ucast_bottom by (auto simp: sextets_def)
qed

lemma utf8_rest_3:
  "utf8_rest (ucast (c AND BOTTOM_BITS 3)) 3 lb s = (Some u, s') \<longleftrightarrow>
    is_valid_code_point u \<and> lb \<le> u \<and> (\<exists>a < 64. \<exists>b < 64. \<exists>d < 64.
      s = cont_byte a # cont_byte b # cont_byte d # s' \<and>
      unat u = ((unat c mod 8 * 64 + a) * 64 + b) * 64 + d)"
proof -
  have 8: "unat (ucast (c AND BOTTOM_BITS 3) :: u32) < 8" unfolding unat_ucast_bottom by simp
  then have "unat (ucast (c AND BOTTOM_BITS 3) :: u32) < 32" by linarith
  from utf8_rest_iff [OF this, of 3] 8 show ?thesis
    unfolding ex_length unat_ucast_bottom by (auto simp: sextets_def)
qed

lemma cbs_get_utf8_sound:
  assumes "cbs_get_utf8 s = (Some u, s')"
  shows "is_valid_code_point u \<and> s = utf8 (unat u) @ s'"
proof -
  from assms obtain c t where s: "s = c # t"
    by (cases s) (auto simp: cbs_get_utf8_def CBS_get_u8_eq bindR_def)
  note run = assms [unfolded s cbs_get_utf8_Cons]
  consider "unat c < 128" | "unat c div 32 = 6" "\<not> unat c < 128"
    | "unat c div 16 = 14" "unat c div 32 \<noteq> 6" "\<not> unat c < 128"
    | "unat c div 8 = 30" "unat c div 16 \<noteq> 14" "unat c div 32 \<noteq> 6" "\<not> unat c < 128"
    using run by (auto split: if_splits)
  then show ?thesis
  proof cases
    case 1
    with run have "u = ucast c" "s' = t" by simp_all
    with 1 show ?thesis by (simp add: s utf8_def valid_small)
  next
    case 2
    with run obtain a where a: "is_valid_code_point u" "0x80 \<le> u" "a < 64" "t = cont_byte a # s'"
      "unat u = unat c mod 32 * 64 + a" unfolding utf8_rest_1 by (auto simp: utf8_rest_1 simp del: One_nat_def)
    have c: "c = word_of_nat (192 + unat c mod 32)"
      using head_split [OF 2(1)] by (intro lead_byte) simp
    have "0x80 \<le> unat c mod 32 * 64 + a" using a(2,5) by (simp add: word_le_nat_alt)
    from utf8_2 [OF _ a(3) this] a c show ?thesis by (simp add: s)
  next
    case 3
    with run obtain a b where a: "is_valid_code_point u" "0x800 \<le> u" "a < 64" "b < 64"
      "t = cont_byte a # cont_byte b # s'" "unat u = (unat c mod 16 * 64 + a) * 64 + b"
      by (auto simp: utf8_rest_2)
    have c: "c = word_of_nat (224 + unat c mod 16)"
      using head_split [OF 3(1)] by (intro lead_byte) simp
    have "0x800 \<le> (unat c mod 16 * 64 + a) * 64 + b" using a(2,6) by (simp add: word_le_nat_alt)
    from utf8_3 [OF _ a(3,4) this] a(1,5,6) c show ?thesis by (simp add: s)
  next
    case 4
    with run obtain a b d where a: "is_valid_code_point u" "0x10000 \<le> u" "a < 64" "b < 64" "d < 64"
      "t = cont_byte a # cont_byte b # cont_byte d # s'" "unat u = ((unat c mod 8 * 64 + a) * 64 + b) * 64 + d"
      by (auto simp: utf8_rest_3)
    have c: "c = word_of_nat (240 + unat c mod 8)"
      using head_split [OF 4(1)] by (intro lead_byte) simp
    have "0x10000 \<le> ((unat c mod 8 * 64 + a) * 64 + b) * 64 + d" using a(2,7) by (simp add: word_le_nat_alt)
    from utf8_4 [OF _ a(3-5) this] a(1,6,7) c show ?thesis by (simp add: s)
  qed
qed

lemma lead_byte_unat: "h + v < 256 \<Longrightarrow> unat (word_of_nat (h + v) :: u8) = h + v"
  by (simp add: unat_of_nat del: of_nat_add)

lemma split_sextet: "(n :: nat) = n div 64 * 64 + n mod 64"
  by simp

lemma cbs_get_utf8_complete:
  assumes "is_valid_code_point u"
  shows "cbs_get_utf8 (utf8 (unat u) @ s) = (Some u, s)"
proof -
  define n where "n = unat u"
  have n: "n < 0x110000" unfolding n_def by (rule valid_code_point_less [OF assms])
  have u: "u = word_of_nat n" by (simp add: n_def)
  consider "n < 0x80" | "0x80 \<le> n" "n < 0x800" | "0x800 \<le> n" "n < 0x10000" | "0x10000 \<le> n" by linarith
  then show ?thesis
  proof cases
    case 1
    then have "unat (word_of_nat n :: u8) = n" by (simp add: unat_of_nat)
    with 1 show ?thesis
      by (simp add: n_def [symmetric] utf8_def cbs_get_utf8_Cons u word_unat_eq_iff unat_of_nat del: of_nat_unat)
  next
    case 2
    let ?v = "n div 64" and ?a = "n mod 64"
    have v: "?v < 32" using 2 by (simp add: div_less_iff_less_mult)
    have e: "utf8 n = [word_of_nat (192 + ?v), cont_byte ?a]"
      using utf8_2 [OF v, of ?a] 2 by simp
    have c: "unat (word_of_nat (192 + ?v) :: u8) = 192 + ?v" using v by (intro lead_byte_unat) simp
    have h: "(192 + ?v) div 32 = 6" "(192 + ?v) mod 32 = ?v"
      using v div_mult_self3 [of 32 6 ?v] mod_mult_self3 [of 6 32 ?v] by simp_all
    have "utf8_rest (ucast (word_of_nat (192 + ?v) AND BOTTOM_BITS 5)) 1 0x80 ([cont_byte ?a] @ s) = (Some u, s)"
      using assms 2 v
      unfolding utf8_rest_1 c h by (auto simp: word_le_nat_alt n_def [symmetric] intro!: exI [of _ ?a])
    then show ?thesis by (simp add: n_def [symmetric] e cbs_get_utf8_Cons c h del: of_nat_add)
  next
    case 3
    let ?v = "n div 4096" and ?a = "n div 64 mod 64" and ?b = "n mod 64"
    have v: "?v < 16" using 3 by (simp add: div_less_iff_less_mult)
    have "?v = n div 64 div 64" by (simp add: div_mult2_eq [symmetric])
    then have nn: "(?v * 64 + ?a) * 64 + ?b = n" by (simp only: div_mult_mod_eq)
    have e: "utf8 n = [word_of_nat (224 + ?v), cont_byte ?a, cont_byte ?b]"
      using utf8_3 [OF v, of ?a ?b] 3 unfolding nn by simp
    have c: "unat (word_of_nat (224 + ?v) :: u8) = 224 + ?v" using v by (intro lead_byte_unat) simp
    have h: "(224 + ?v) div 16 = 14" "(224 + ?v) mod 16 = ?v" "(224 + ?v) div 32 \<noteq> 6"
      using v div_mult_self3 [of 16 14 ?v] mod_mult_self3 [of 14 16 ?v] div_mult_self3 [of 32 7 ?v] by simp_all
    have "utf8_rest (ucast (word_of_nat (224 + ?v) AND BOTTOM_BITS 4)) 2 0x800 ([cont_byte ?a, cont_byte ?b] @ s) =
        (Some u, s)"
      using assms 3 v nn
      unfolding utf8_rest_2 c h
    proof (intro conjI)
      show "\<exists>a < 64. \<exists>b < 64. [cont_byte ?a, cont_byte ?b] @ s = cont_byte a # cont_byte b # s \<and>
          unat u = (?v * 64 + a) * 64 + b"
        unfolding n_def [symmetric] by (rule exI [of _ ?a], rule conjI, simp, rule exI [of _ ?b], intro conjI)
          (simp, simp, rule nn [symmetric])
    qed (use 3 in \<open>simp_all add: word_le_nat_alt n_def [symmetric]\<close>)
    then show ?thesis by (simp add: n_def [symmetric] e cbs_get_utf8_Cons c h del: of_nat_add)
  next
    case 4
    let ?v = "n div 262144" and ?a = "n div 4096 mod 64" and ?b = "n div 64 mod 64" and ?d = "n mod 64"
    have v: "?v < 8" using n by (simp add: div_less_iff_less_mult)
    have nn: "((?v * 64 + ?a) * 64 + ?b) * 64 + ?d = n"
    proof -
      have "?v = n div 4096 div 64" "n div 4096 = n div 64 div 64" by (simp_all add: div_mult2_eq [symmetric])
      then show ?thesis by (simp only: div_mult_mod_eq)
    qed
    have e: "utf8 n = [word_of_nat (240 + ?v), cont_byte ?a, cont_byte ?b, cont_byte ?d]"
      using utf8_4 [OF v, of ?a ?b ?d] 4 unfolding nn by simp
    have c: "unat (word_of_nat (240 + ?v) :: u8) = 240 + ?v" using v by (intro lead_byte_unat) simp
    have h: "(240 + ?v) div 8 = 30" "(240 + ?v) mod 8 = ?v" "(240 + ?v) div 16 \<noteq> 14" "(240 + ?v) div 32 \<noteq> 6"
      using v div_mult_self3 [of 8 30 ?v] mod_mult_self3 [of 30 8 ?v] div_mult_self3 [of 16 15 ?v]
        div_mult_self3 [of 32 7 "16 + ?v"] by simp_all
    have "utf8_rest (ucast (word_of_nat (240 + ?v) AND BOTTOM_BITS 3)) 3 0x10000
        ([cont_byte ?a, cont_byte ?b, cont_byte ?d] @ s) = (Some u, s)"
      using assms 4 v nn
      unfolding utf8_rest_3 c h
    proof (intro conjI)
      show "\<exists>a < 64. \<exists>b < 64. \<exists>d < 64. [cont_byte ?a, cont_byte ?b, cont_byte ?d] @ s =
          cont_byte a # cont_byte b # cont_byte d # s \<and> unat u = ((?v * 64 + a) * 64 + b) * 64 + d"
        unfolding n_def [symmetric]
        by (rule exI [of _ ?a], rule conjI, simp, rule exI [of _ ?b], rule conjI, simp, rule exI [of _ ?d],
              intro conjI) (simp, simp, rule nn [symmetric])
    qed (use 4 in \<open>simp_all add: word_le_nat_alt n_def [symmetric]\<close>)
    then show ?thesis by (simp add: n_def [symmetric] e cbs_get_utf8_Cons c h del: of_nat_add)
  qed
qed

section \<open>The four encodings as instances\<close>

lemma be_bytes_not_Nil: "be_bytes n v = [] \<longleftrightarrow> n = 0"
  using length_be_bytes [of n v] by (metis length_0_conv)

interpretation utf8: code_points cbs_get_utf8 is_valid_code_point "\<lambda>u. utf8 (unat u)"
proof
  show "cbs_get_utf8 s = (Some u, s') \<longleftrightarrow> is_valid_code_point u \<and> s = utf8 (unat u) @ s'" for s u s'
    using cbs_get_utf8_sound cbs_get_utf8_complete by blast
qed (simp add: utf8_def)

interpretation latin1: code_points cbs_get_latin1 "\<lambda>u. u \<le> 0xff" "\<lambda>u. [ucast u]"
proof
  fix s s' :: bytes and u :: u32
  have "u = ucast c \<longleftrightarrow> u \<le> 0xff \<and> ucast u = c" for c :: u8
  proof -
    have "unat u \<le> 255 \<Longrightarrow> unat (ucast u :: u8) = unat u"
      by (simp add: unsigned_ucast_eq take_bit_nat_eq_self)
    moreover have "unat c \<le> 255" using unat_byte_lt [of c] by (simp del: unat_byte_lt)
    ultimately show ?thesis by (auto simp: word_le_nat_alt word_unat_eq_iff unat_ucast_byte)
  qed
  then show "cbs_get_latin1 s = (Some u, s') \<longleftrightarrow> u \<le> 0xff \<and> s = [ucast u] @ s'"
    by (cases s) (simp_all add: cbs_get_latin1_def CBS_get_u8_eq returnR_def bindR_def, metis)
qed simp

lemma cbs_get_u_iff:
  assumes "n \<le> 8"
  shows "cbs_get_u n s = (Some v, s') \<longleftrightarrow> unat v < 256 ^ n \<and> s = be_bytes n (unat v) @ s'"
proof -
  have "cbs_get_u n s = (Some v, s') \<longleftrightarrow> n \<le> length s \<and> v = word_of_nat (be_nat (take n s)) \<and> s' = drop n s"
    by (auto simp: cbs_get_u_eq)
  also have "\<dots> \<longleftrightarrow> unat v < 256 ^ n \<and> s = be_bytes n (unat v) @ s'" (is "?l \<longleftrightarrow> ?r")
  proof
    assume l: ?l
    then have len: "length (take n s) = n" by simp
    from be_nat_less [of "take n s"] len have lt: "be_nat (take n s) < 256 ^ n" by simp
    also have "(256 :: nat) ^ n \<le> 256 ^ 8" using assms by (intro power_increasing) simp_all
    finally have "unat v = be_nat (take n s)" using l by (simp add: unat_of_nat)
    moreover have "be_bytes n (be_nat (take n s)) = take n s" using be_bytes_be_nat [of "take n s"] len by simp
    ultimately show ?r using l lt by simp
  next
    assume ?r
    then show ?l by (simp add: be_nat_be_bytes)
  qed
  finally show ?thesis .
qed

lemma unat_ucast_small:
  "unat (v :: u64) < 2 ^ 16 \<Longrightarrow> unat (ucast v :: u16) = unat v"
  "unat v < 2 ^ 32 \<Longrightarrow> unat (ucast v :: u32) = unat v"
  by (simp_all add: unsigned_ucast_eq take_bit_nat_eq_self)

lemma ucast_64_back: "ucast (ucast (c :: u16) :: u64) = c" "ucast (ucast (d :: u32) :: u64) = d"
  using unat_u16_u32(1) [of c] unat_u16_u32(2) [of d]
  by (simp_all add: word_unat_eq_iff unat_ucast_small unat_ucast_64)

lemma CBS_get_u16_iff: "CBS_get_u16 s = (Some c, s') \<longleftrightarrow> s = be_bytes 2 (unat c) @ s'"
proof
  assume "CBS_get_u16 s = (Some c, s')"
  then obtain v where v: "cbs_get_u 2 s = (Some v, s')" "c = ucast v"
    by (auto simp: CBS_get_u16_def bindR_Some_iff returnR_def)
  then show "s = be_bytes 2 (unat c) @ s'" by (simp add: cbs_get_u_iff unat_ucast_small)
next
  assume s: "s = be_bytes 2 (unat c) @ s'"
  then have "cbs_get_u 2 s = (Some (ucast c), s')"
    using unat_u16_u32(1) [of c] by (simp add: cbs_get_u_iff unat_ucast_64)
  then show "CBS_get_u16 s = (Some c, s')"
    by (simp add: CBS_get_u16_def returnR_def ucast_64_back)
qed

lemma CBS_get_u32_iff: "CBS_get_u32 s = (Some c, s') \<longleftrightarrow> s = be_bytes 4 (unat c) @ s'"
proof
  assume "CBS_get_u32 s = (Some c, s')"
  then obtain v where v: "cbs_get_u 4 s = (Some v, s')" "c = ucast v"
    by (auto simp: CBS_get_u32_def bindR_Some_iff returnR_def)
  then show "s = be_bytes 4 (unat c) @ s'" by (simp add: cbs_get_u_iff unat_ucast_small)
next
  assume s: "s = be_bytes 4 (unat c) @ s'"
  then have "cbs_get_u 4 s = (Some (ucast c), s')"
    using unat_u16_u32(2) [of c] by (simp add: cbs_get_u_iff unat_ucast_64)
  then show "CBS_get_u32 s = (Some c, s')"
    by (simp add: CBS_get_u32_def returnR_def ucast_64_back)
qed

interpretation ucs2: code_points cbs_get_ucs2_be "\<lambda>u. u \<le> 0xffff \<and> is_valid_code_point u" "\<lambda>u. be_bytes 2 (unat u)"
proof
  fix s s' :: bytes and u :: u32
  have uc: "unat (ucast c :: u32) = unat c" "ucast c \<le> (0xffff :: u32)" for c :: u16
    using unat_u16_u32(1) [of c] by (simp_all add: word_le_nat_alt unsigned_ucast_eq take_bit_nat_eq_self)
  have u16: "\<exists>c :: u16. u = ucast c" if "u \<le> 0xffff"
  proof -
    have "unat u < 2 ^ 16" using that by (simp add: word_le_nat_alt)
    then have "unat (ucast u :: u16) = unat u" by (simp add: unsigned_ucast_eq take_bit_nat_eq_self)
    then have "u = ucast (ucast u :: u16)" unfolding word_unat_eq_iff uc(1) by (rule sym)
    then show ?thesis by blast
  qed
  show "cbs_get_ucs2_be s = (Some u, s') \<longleftrightarrow>
      (u \<le> 0xffff \<and> is_valid_code_point u) \<and> s = be_bytes 2 (unat u) @ s'"
    using u16 uc
    by (auto simp: cbs_get_ucs2_be_def bindR_Some_iff reader_defs CBS_get_u16_iff split: if_splits) metis
qed (simp add: be_bytes_not_Nil)

interpretation utf32: code_points cbs_get_utf32_be is_valid_code_point "\<lambda>u. be_bytes 4 (unat u)"
  by unfold_locales
    (auto simp: cbs_get_utf32_be_def bindR_Some_iff reader_defs CBS_get_u32_iff be_bytes_not_Nil split: if_splits)

section \<open>The writers\<close>

text \<open>Reader and writer together: what one writes is what the other reads, one way only.\<close>

locale code_point_codec = code_points +
  fixes wr :: "allocator \<Rightarrow> u32 \<Rightarrow> (cbb_state, unit) reader"
  assumes writes: "valid_cp u \<Longrightarrow> appender malloc (wr malloc u) (enc u)"
    and rejects: "\<not> valid_cp u \<Longrightarrow> wr malloc u st = (None, st)"
begin

text \<open>A successful write appends what reads back as the same code point.\<close>

lemma write_read:
  assumes "malloc_ok malloc" "wf_buf b" "wf_cbb c (b_len b)" "closed c (contents b) = Some cs"
    and "fits (length (enc u))" "wr malloc u (Some b, c) = (Some a, Some b', c')"
  shows "\<exists>d. closed c' (contents b') = Some (cs @ d) \<and> rd (d @ rest) = (Some u, rest)"
proof -
  have v: "valid_cp u" using rejects assms(6) by fastforce
  show ?thesis
    by (rule appender.cases [OF writes [OF v] assms(1-3,5,6)])
      (use assms(4) roundtrip [OF v] in \<open>auto simp: appended_def\<close>)
qed

end

lemma utf8_tail_eq: "utf8_tail k u = cont_byte (unat u div 64 ^ k mod 64)"
proof -
  let ?low = "drop_bit (6 * k) u AND ucast (BOTTOM_BITS 6) :: u32"
  have m: "(ucast (BOTTOM_BITS 6) :: u32) = mask 6"
    unfolding masks by (simp add: mask_eq_exp_minus_1)
  have low: "unat ?low = unat u div 64 ^ k mod 64"
    using unsigned_less [of u, where ?'a = nat]
    unfolding m unat_and_mask unsigned_drop_bit_eq
    by (simp add: drop_bit_eq_div power_mult take_bit_nat_eq_self)
  have t: "(ucast (TOP_BITS 1) :: u32) = push_bit 6 2" unfolding masks by (simp add: push_bit_eq_mult)
  have "unat ?low < 2 ^ 6" unfolding low by simp
  from unat_push_bit_or [OF this, of 2] have "unat (ucast (TOP_BITS 1) OR ?low) = 128 + unat u div 64 ^ k mod 64"
    unfolding t low by simp
  moreover have "unat u div 64 ^ k mod 64 < 64" by simp
  ultimately have "unat (utf8_tail k u) = 128 + unat u div 64 ^ k mod 64"
    by (simp add: utf8_tail_def unsigned_ucast_eq take_bit_nat_eq_self)
  then show ?thesis unfolding cont_byte_def by (rule unat_eq_word_of_nat)
qed

lemma utf8_head_eq:
  assumes "(ucast (TOP_BITS n) :: u32) = push_bit m (word_of_nat h)" "unat u div 64 ^ k < 2 ^ m"
    and "h * 2 ^ m + 2 ^ m \<le> 256"
  shows "utf8_head n k u = word_of_nat (h * 2 ^ m + unat u div 64 ^ k)"
proof -
  have d: "unat (drop_bit (6 * k) u) = unat u div 64 ^ k"
    using unsigned_less [of u, where ?'a = nat]
    unfolding unsigned_drop_bit_eq by (simp add: drop_bit_eq_div power_mult take_bit_nat_eq_self)
  have "h \<le> h * 2 ^ m" by simp
  then have "h \<le> 256" using assms(3) by linarith
  then have h: "unat (word_of_nat h :: u32) = h" by (simp add: unat_of_nat)
  have "unat (drop_bit (6 * k) u) < 2 ^ m" unfolding d by (rule assms(2))
  from unat_push_bit_or [OF this, of "word_of_nat h"] assms(2,3)
  have "unat (ucast (TOP_BITS n) OR drop_bit (6 * k) u) = h * 2 ^ m + unat u div 64 ^ k"
    unfolding assms(1) d h by simp
  then have "unat (utf8_head n k u) = h * 2 ^ m + unat u div 64 ^ k"
    using assms(2,3) by (simp add: utf8_head_def unsigned_ucast_eq take_bit_nat_eq_self)
  then show ?thesis by (rule unat_eq_word_of_nat)
qed

lemma head_masks:
  "(ucast (TOP_BITS 2) :: u32) = push_bit 5 (word_of_nat 6)"
  "(ucast (TOP_BITS 3) :: u32) = push_bit 4 (word_of_nat 14)"
  "(ucast (TOP_BITS 4) :: u32) = push_bit 3 (word_of_nat 30)"
  unfolding masks by (simp_all add: push_bit_eq_mult)

lemma cbb_add_utf8_appender:
  assumes "is_valid_code_point u"
  shows "appender malloc (cbb_add_utf8 malloc u) (utf8 (unat u))"
proof -
  note u8s = add_u8.appender_axioms
  have le: "u \<le> 0x7f \<longleftrightarrow> unat u < 0x80" "u \<le> 0x7ff \<longleftrightarrow> unat u < 0x800" "u \<le> 0xffff \<longleftrightarrow> unat u < 0x10000"
    "u \<le> 0x10ffff"
    using valid_code_point_less [OF assms] by (auto simp: word_le_nat_alt)
  consider "unat u < 0x80" | "0x80 \<le> unat u" "unat u < 0x800" | "0x800 \<le> unat u" "unat u < 0x10000"
    | "0x10000 \<le> unat u" by linarith
  then show ?thesis
  proof cases
    case 1
    then have "unat (ucast u :: u8) = unat u" by (simp add: unsigned_ucast_eq take_bit_nat_eq_self)
    then have "ucast u = (word_of_nat (unat u) :: u8)" by (rule unat_eq_word_of_nat)
    then have "utf8 (unat u) = [ucast u]" unfolding utf8_def using 1 by (simp only: if_True)
    moreover have "cbb_add_utf8 malloc u = CBB_add_u8 malloc (ucast u)"
      unfolding cbb_add_utf8_def using 1 assms le by simp
    ultimately show ?thesis using u8s by metis
  next
    case 2
    then have h: "utf8_head 2 1 u = word_of_nat (192 + unat u div 64)"
      using utf8_head_eq [OF head_masks(1), of u 1] by (simp add: div_less_iff_less_mult)
    have "utf8 (unat u) = [utf8_head 2 1 u] @ [utf8_tail 0 u]"
      unfolding h utf8_tail_eq cont_byte_def utf8_def using 2 by simp
    moreover have "cbb_add_utf8 malloc u =
        bindR (CBB_add_u8 malloc (utf8_head 2 1 u)) (\<lambda>_. CBB_add_u8 malloc (utf8_tail 0 u))"
      unfolding cbb_add_utf8_def using 2 assms le by simp
    ultimately show ?thesis using appender_bindR [OF u8s u8s] by metis
  next
    case 3
    then have h: "utf8_head 3 2 u = word_of_nat (224 + unat u div 4096)"
      using utf8_head_eq [OF head_masks(2), of u 2] by (simp add: div_less_iff_less_mult)
    have "utf8 (unat u) = [utf8_head 3 2 u] @ [utf8_tail 1 u] @ [utf8_tail 0 u]"
      unfolding h utf8_tail_eq cont_byte_def utf8_def using 3 by simp
    moreover have "cbb_add_utf8 malloc u = bindR (CBB_add_u8 malloc (utf8_head 3 2 u)) (\<lambda>_.
        bindR (CBB_add_u8 malloc (utf8_tail 1 u)) (\<lambda>_. CBB_add_u8 malloc (utf8_tail 0 u)))"
      unfolding cbb_add_utf8_def using 3 assms le by simp
    ultimately show ?thesis using appender_bindR [OF u8s appender_bindR [OF u8s u8s]] by metis
  next
    case 4
    then have h: "utf8_head 4 3 u = word_of_nat (240 + unat u div 262144)"
      using utf8_head_eq [OF head_masks(3), of u 3] valid_code_point_less [OF assms]
      by (simp add: div_less_iff_less_mult)
    have "utf8 (unat u) = [utf8_head 4 3 u] @ [utf8_tail 2 u] @ [utf8_tail 1 u] @ [utf8_tail 0 u]"
      unfolding h utf8_tail_eq cont_byte_def utf8_def using 4 by simp
    moreover have "cbb_add_utf8 malloc u = bindR (CBB_add_u8 malloc (utf8_head 4 3 u)) (\<lambda>_.
        bindR (CBB_add_u8 malloc (utf8_tail 2 u)) (\<lambda>_.
        bindR (CBB_add_u8 malloc (utf8_tail 1 u)) (\<lambda>_. CBB_add_u8 malloc (utf8_tail 0 u))))"
      unfolding cbb_add_utf8_def using 4 assms le by simp
    ultimately show ?thesis
      using appender_bindR [OF u8s appender_bindR [OF u8s appender_bindR [OF u8s u8s]]] by metis
  qed
qed

lemmas codec_intro = code_point_codec.intro code_point_codec_axioms.intro

interpretation utf8: code_point_codec cbs_get_utf8 is_valid_code_point "\<lambda>u. utf8 (unat u)" cbb_add_utf8
  by (intro codec_intro utf8.code_points_axioms cbb_add_utf8_appender) (simp_all add: cbb_add_utf8_def failR_def)

interpretation latin1: code_point_codec cbs_get_latin1 "\<lambda>u. u \<le> 0xff" "\<lambda>u. [ucast u]" cbb_add_latin1
  by (intro codec_intro latin1.code_points_axioms)
    (simp_all add: cbb_add_latin1_def failR_def add_u8.appender_axioms)

interpretation ucs2: code_point_codec cbs_get_ucs2_be "\<lambda>u. u \<le> 0xffff \<and> is_valid_code_point u"
    "\<lambda>u. be_bytes 2 (unat u)" cbb_add_ucs2_be
proof (intro codec_intro ucs2.code_points_axioms)
  fix u :: u32 and malloc
  assume u: "u \<le> 0xffff \<and> is_valid_code_point u"
  then have "unat (ucast u :: u16) = unat u"
    by (simp add: word_le_nat_alt unsigned_ucast_eq take_bit_nat_eq_self)
  with u add_u16.appender_axioms [of malloc "ucast u"]
  show "appender malloc (cbb_add_ucs2_be malloc u) (be_bytes 2 (unat u))"
    by (simp add: cbb_add_ucs2_be_def)
qed (auto simp: cbb_add_ucs2_be_def failR_def)

interpretation utf32: code_point_codec cbs_get_utf32_be is_valid_code_point "\<lambda>u. be_bytes 4 (unat u)"
    cbb_add_utf32_be
  by (intro codec_intro utf32.code_points_axioms) (simp_all add: cbb_add_utf32_be_def failR_def add_u32.appender_axioms)

lemma length_utf8: "length (utf8 (unat u)) = cbb_get_utf8_len u"
  by (auto simp: utf8_def cbb_get_utf8_len_def word_le_nat_alt)

section \<open>What the code promises\<close>

text \<open>
  C11: \<open>cbs_get_utf8\<close> accepts exactly the well-formed UTF-8 encodings of valid code points: no
  overlong form, no surrogate, nothing above 0x10ffff and no noncharacter gets through.
\<close>

theorem cbs_get_utf8_exact:
  "cbs_get_utf8 s = (Some u, s') \<longleftrightarrow> is_valid_code_point u \<and> s = utf8 (unat u) @ s'"
  by (rule utf8.reads)

text \<open>
  C12: \<open>cbb_add_utf8\<close> appends the UTF-8 encoding of a valid code point, of the length that
  \<open>cbb_get_utf8_len\<close> announces, and \<open>cbs_get_utf8\<close> reads the same code point back; an invalid
  code point is refused and nothing is written.
\<close>

theorem cbb_add_utf8_correct:
  assumes "malloc_ok malloc" "wf_buf b" "wf_cbb c (b_len b)"
    and "cbb_add_utf8 malloc u (Some b, c) = (Some (), Some b', c')"
    and "closed c (contents b) = Some cs"
  shows "is_valid_code_point u \<and>
    (\<exists>d. closed c' (contents b') = Some (cs @ d) \<and> length d = cbb_get_utf8_len u \<and>
       cbs_get_utf8 (d @ rest) = (Some u, rest))"
proof -
  have v: "is_valid_code_point u" using utf8.rejects assms(4) by fastforce
  have "fits (length (utf8 (unat u)))" by (simp add: fits_def utf8_def)
  then show ?thesis
    by (rule appender.cases [OF utf8.writes [OF v] assms(1-3) _ assms(4)])
      (use assms(5) v in \<open>auto simp: appended_def length_utf8 utf8.roundtrip intro!: exI [of _ "utf8 (unat u)"]\<close>)
qed

theorem cbb_add_utf8_correct_witness:
  "is_valid_code_point 0x20ac \<and>
    (\<exists>d. closed (CBB None 0 0 False False) ([0xe2, 0x82, 0xac] :: bytes) = Some ([] @ d) \<and>
       length d = cbb_get_utf8_len 0x20ac \<and> cbs_get_utf8 (d @ [1]) = (Some 0x20ac, [1]))"
proof -
  let ?b = "\<lparr>b_buf = Some [0, 0, 0], b_len = 0, b_cap = 3, b_can_resize = False, b_error = False\<rparr>"
  let ?b' = "\<lparr>b_buf = Some [0xe2, 0x82, 0xac], b_len = 3, b_cap = 3, b_can_resize = False, b_error = False\<rparr>"
  let ?c = "CBB None 0 0 False False"
  have w: "wf_buf ?b" "wf_cbb ?c (b_len ?b)" "closed ?c (contents ?b) = Some []" "contents ?b' = [0xe2, 0x82, 0xac]"
    by (simp_all add: wf_buf_def blk_def contents_def)
  have "cbb_add_utf8 zero_heap 0x20ac (Some ?b, ?c) = (Some (), Some ?b', ?c)" by code_simp
  from cbb_add_utf8_correct [OF malloc_ok_zero_heap w(1,2) this w(3), of "[1]"] show ?thesis
    unfolding w(4) .
qed

end
