(* ===== verification/OID.thy ===== *)
theory OID
  imports Documents
begin

text \<open>
  Object identifiers as text: \<open>CBS_asn1_oid_to_text\<close> of \<open>cbs.c\<close> and
  \<open>CBB_add_asn1_oid_from_text\<close> of \<open>cbb.c\<close> are each other's inverse.
\<close>

section \<open>The code\<close>

text \<open>The decimal representation, as \<open>"%" PRIu64\<close> prints it.\<close>

fun decimal :: "nat \<Rightarrow> bytes" where
  "decimal n = (if n < 10 then [word_of_nat (48 + n)] else decimal (n div 10) @ [word_of_nat (48 + n mod 10)])"

declare decimal.simps [simp del]

text \<open>The buffer has \<open>DECIMAL_SIZE(uint64_t) + 1\<close> bytes, and \<open>snprintf\<close> leaves room for the NUL.\<close>

definition DECIMAL_SIZE_u64 :: nat where
  "DECIMAL_SIZE_u64 = (8 * 8 + 2) div 3 + 1"

definition add_decimal :: "allocator \<Rightarrow> u64 \<Rightarrow> (cbb_state, unit) reader" where
  "add_decimal malloc v = CBB_add_bytes malloc (take DECIMAL_SIZE_u64 (decimal (unat v)))"

text \<open>The loop over the remaining components; it needs as many steps as there are bytes left.\<close>

fun oid_text_loop :: "allocator \<Rightarrow> nat \<Rightarrow> cbs \<Rightarrow> (cbb_state, unit) reader" where
  "oid_text_loop malloc 0 copy = (if copy = [] then returnR () else failR)"
| "oid_text_loop malloc (Suc n) copy =
     (if CBS_len copy \<noteq> 0 then
        case parse_base128_integer copy of
          (None, _) \<Rightarrow> failR
        | (Some v, copy) \<Rightarrow>
            bindR (CBB_add_u8 malloc 0x2e) (\<lambda>_.
            bindR (add_decimal malloc v) (\<lambda>_. oid_text_loop malloc n copy))
      else returnR ())"

definition first_component :: "allocator \<Rightarrow> u64 \<Rightarrow> (cbb_state, unit) reader" where
  "first_component malloc v =
     (if v \<ge> 80 then
        bindR (CBB_add_bytes malloc [0x32, 0x2e]) (\<lambda>_. add_decimal malloc (v - 80))
      else
        bindR (add_decimal malloc (v div 40)) (\<lambda>_.
        bindR (CBB_add_u8 malloc 0x2e) (\<lambda>_. add_decimal malloc (v mod 40))))"

text \<open>The result is the NUL-terminated string.\<close>

definition CBS_asn1_oid_to_text :: "allocator \<Rightarrow> bool \<Rightarrow> cbs \<Rightarrow> bytes option" where
  "CBS_asn1_oid_to_text malloc base_ok cbs =
     fst (bindR (CBB_init malloc base_ok 32) (\<lambda>_.
       case parse_base128_integer cbs of
         (None, _) \<Rightarrow> failR
       | (Some v, copy) \<Rightarrow>
           bindR (first_component malloc v) (\<lambda>_.
           bindR (oid_text_loop malloc (length copy) copy) (\<lambda>_.
           bindR (CBB_add_u8 malloc 0) (\<lambda>_.
           bindR (CBB_finish malloc True True) (\<lambda>r. returnR (finished_bytes r)))))) CBB_zero)"

fun parse_dotted_loop :: "u64 \<Rightarrow> bool \<Rightarrow> (cbs, u64) reader" where
  "parse_dotted_loop out seen_digit [] = (if seen_digit then Some out else None, [])"
| "parse_dotted_loop out seen_digit (u # cbs) =
     (if u = 0x2e \<and> CBS_len cbs > 0 then (if seen_digit then Some out else None, cbs)
      else if u < 0x30 \<or> u > 0x39 \<or> (seen_digit \<and> out = 0) \<or> out > (- 1) div 10 \<or>
              out * 10 > (- 1) - (ucast u - 0x30) then (None, cbs)
      else parse_dotted_loop (out * 10 + (ucast u - 0x30)) True cbs)"

definition parse_dotted_decimal :: "(cbs, u64) reader" where
  "parse_dotted_decimal = parse_dotted_loop 0 False"

fun oid_components_loop :: "allocator \<Rightarrow> nat \<Rightarrow> cbs \<Rightarrow> (cbb_state, unit) reader" where
  "oid_components_loop malloc 0 cbs = (if cbs = [] then returnR () else failR)"
| "oid_components_loop malloc (Suc n) cbs =
     (if CBS_len cbs > 0 then
        case parse_dotted_decimal cbs of
          (None, _) \<Rightarrow> failR
        | (Some a, cbs) \<Rightarrow>
            bindR (add_base128_integer malloc a) (\<lambda>_. oid_components_loop malloc n cbs)
      else returnR ())"

definition CBB_add_asn1_oid_from_text :: "allocator \<Rightarrow> bytes \<Rightarrow> nat \<Rightarrow> (cbb_state, unit) reader" where
  "CBB_add_asn1_oid_from_text malloc txt len =
     bindR (CBB_flush malloc) (\<lambda>_.
       case parse_dotted_decimal (CBS_init txt len) of
         (None, _) \<Rightarrow> failR
       | (Some a, cbs) \<Rightarrow>
           (case parse_dotted_decimal cbs of
              (None, _) \<Rightarrow> failR
            | (Some b, cbs) \<Rightarrow>
                if a > 2 \<or> (a < 2 \<and> b > 39) \<or> b > (- 1) - 80 then failR
                else bindR (add_base128_integer malloc (40 * a + b)) (\<lambda>_.
                  oid_components_loop malloc (length cbs) cbs)))"

section \<open>Decimal numbers\<close>

lemma decimal_small: "n < 10 \<Longrightarrow> decimal n = [word_of_nat (48 + n)]"
  by (simp add: decimal.simps)

lemma decimal_step: "0 < n \<Longrightarrow> d < 10 \<Longrightarrow> decimal (n * 10 + d) = decimal n @ [word_of_nat (48 + d)]"
  by (simp add: decimal.simps [of "n * 10 + d"])

lemma decimal_not_Nil [simp]: "decimal n \<noteq> []"
  by (simp add: decimal.simps [of n])

lemma digit_eq:
  assumes "\<not> u < (0x30 :: u8)" "\<not> u > 0x39"
  obtains d where "d < 10" "u = word_of_nat (48 + d)" "unat u = 48 + d" "(ucast u :: u64) - 0x30 = word_of_nat d"
proof -
  define d where "d = unat u - 48"
  have d: "d < 10" "unat u = 48 + d" using assms by (simp_all add: word_less_nat_alt d_def)
  then have "u = word_of_nat (48 + d)" by (intro unat_eq_word_of_nat)
  moreover have "(ucast u :: u64) = word_of_nat (48 + d)" using d(2) by (intro unat_eq_word_of_nat) simp
  then have "(ucast u :: u64) - 0x30 = word_of_nat d" by simp
  ultimately show thesis using d by (intro that)
qed

lemma digit_byte:
  assumes "d < 10"
  shows "\<not> word_of_nat (48 + d) < (0x30 :: u8)" "\<not> word_of_nat (48 + d) > (0x39 :: u8)"
    "word_of_nat (48 + d) \<noteq> (0x2e :: u8)"
    "(ucast (word_of_nat (48 + d) :: u8) :: u64) - 0x30 = word_of_nat d"
proof -
  have u: "unat (word_of_nat (48 + d) :: u8) = 48 + d" using assms by (simp add: unat_of_nat del: of_nat_add)
  then show "\<not> word_of_nat (48 + d) < (0x30 :: u8)" "\<not> word_of_nat (48 + d) > (0x39 :: u8)"
    "word_of_nat (48 + d) \<noteq> (0x2e :: u8)"
    using assms by (simp_all add: word_less_nat_alt word_unat_eq_iff del: of_nat_add)
  have "(ucast (word_of_nat (48 + d) :: u8) :: u64) = word_of_nat (48 + d)"
    using u by (intro unat_eq_word_of_nat) (simp del: of_nat_add)
  then show "(ucast (word_of_nat (48 + d) :: u8) :: u64) - 0x30 = word_of_nat d" by simp
qed

text \<open>The two overflow tests of the code together say that the new value fits.\<close>

lemma overflow_tests:
  assumes "d < 10"
  shows "out > (- 1) div 10 \<or> out * 10 > (- 1) - word_of_nat d \<longleftrightarrow> 2 ^ 64 \<le> unat (out :: u64) * 10 + d"
proof -
  have m: "unat (- 1 :: u64) = 2 ^ 64 - 1" by (simp add: unsigned_minus_1_eq_mask mask_eq_exp_minus_1)
  have q: "unat ((- 1 :: u64) div 10) = (2 ^ 64 - 1) div 10"
    unfolding unat_div_distrib m by simp
  have s: "unat ((- 1) - word_of_nat d :: u64) = 2 ^ 64 - 1 - d"
    using assms by (simp add: unat_sub word_le_nat_alt m unat_of_nat)
  show ?thesis
  proof (cases "unat out > (2 ^ 64 - 1) div 10")
    case True
    then show ?thesis unfolding word_less_nat_alt q by simp
  next
    case False
    then have "unat (out * 10) = unat out * 10" by (simp add: unat_word_ariths)
    with False assms show ?thesis unfolding word_less_nat_alt q s by auto
  qed
qed

lemma parse_dotted_digit:
  assumes "d < 10"
  shows "parse_dotted_loop out seen (word_of_nat (48 + d) # s) =
    (if (seen \<and> out = 0) \<or> 2 ^ 64 \<le> unat out * 10 + d then (None, s)
     else parse_dotted_loop (word_of_nat (unat out * 10 + d)) True s)"
proof -
  note b = digit_byte [OF assms]
  have "out * 10 + word_of_nat d = word_of_nat (unat out * 10 + d)" by simp
  then show ?thesis
    using overflow_tests [OF assms, of out] unfolding parse_dotted_loop.simps b(4)
    by (auto simp: b simp del: of_nat_add)
qed

lemma parse_dotted_decimal_digits:
  "n < 2 ^ 64 \<Longrightarrow> parse_dotted_loop 0 False (decimal n @ s) = parse_dotted_loop (word_of_nat n) True s"
proof (induction n arbitrary: s rule: decimal.induct)
  case (1 n)
  show ?case
  proof (cases "n < 10")
    case True
    then show ?thesis by (simp add: decimal_small parse_dotted_digit del: of_nat_add parse_dotted_loop.simps)
  next
    case False
    let ?q = "n div 10" and ?d = "n mod 10"
    have q: "unat (word_of_nat ?q :: u64) = ?q" "0 < ?q" "?q < 2 ^ 64"
      using 1(2) False by (simp_all add: unat_of_nat)
    then have "(word_of_nat ?q :: u64) \<noteq> 0" by (metis unat_0 less_numeral_extra(3))
    moreover have "decimal n = decimal ?q @ [word_of_nat (48 + ?d)]"
      using decimal_step [OF q(2), of ?d] by simp
    moreover have "unat (word_of_nat ?q :: u64) * 10 + ?d = n" unfolding q(1) by simp
    ultimately show ?thesis
      using 1(1) [OF False q(3), of "word_of_nat (48 + ?d) # s"] 1(2)
      by (simp add: parse_dotted_digit del: of_nat_add parse_dotted_loop.simps)
  qed
qed

lemma parse_dotted_loop_sound:
  "parse_dotted_loop w seen s = (Some v, s') \<Longrightarrow>
   (if seen then pre = decimal (unat w) else pre = [] \<and> w = 0) \<Longrightarrow>
   (pre @ s = decimal (unat v) \<and> s' = []) \<or> (pre @ s = decimal (unat v) @ 0x2e # s' \<and> s' \<noteq> [])"
proof (induction s arbitrary: w seen pre)
  case Nil
  then show ?case by (auto split: if_splits)
next
  case (Cons u s)
  show ?case
  proof (cases "u = 0x2e \<and> CBS_len s > 0")
    case True
    with Cons.prems show ?thesis by (auto simp: CBS_len_def split: if_splits)
  next
    case False
    with Cons.prems(1) have u: "\<not> u < 0x30" "\<not> u > 0x39" by (auto split: if_splits)
    then obtain d where d: "d < 10" "u = word_of_nat (48 + d)" by (rule digit_eq)
    from Cons.prems(1) [unfolded d(2) parse_dotted_digit [OF d(1)]] have
      g: "\<not> (seen \<and> w = 0)" "unat w * 10 + d < 2 ^ 64"
      and run: "parse_dotted_loop (word_of_nat (unat w * 10 + d)) True s = (Some v, s')"
      by (auto split: if_splits simp del: of_nat_add)
    have un: "unat (word_of_nat (unat w * 10 + d) :: u64) = unat w * 10 + d"
      using g(2) by (simp add: unat_of_nat del: of_nat_add)
    have "pre @ [u] = decimal (unat w * 10 + d)"
    proof (cases seen)
      case True
      with g(1) have "0 < unat w" by (simp add: unat_gt_0)
      with decimal_step [OF this d(1)] True Cons.prems(2) d(2) show ?thesis by simp
    next
      case False
      with Cons.prems(2) d show ?thesis by (simp add: decimal_small)
    qed
    then have e: "pre @ u # s = decimal (unat w * 10 + d) @ s" by (metis append.assoc append_Cons append_Nil)
    show ?thesis
      unfolding e using Cons.IH [OF run, of "decimal (unat w * 10 + d)"] by (simp add: un del: of_nat_add)
  qed
qed

lemma parse_dotted_decimal_iff:
  "parse_dotted_decimal s = (Some v, s') \<longleftrightarrow>
     (s = decimal (unat v) \<and> s' = []) \<or> (s = decimal (unat v) @ 0x2e # s' \<and> s' \<noteq> [])"
proof
  assume "parse_dotted_decimal s = (Some v, s')"
  from parse_dotted_loop_sound [OF this [unfolded parse_dotted_decimal_def], of "[]"]
  show "(s = decimal (unat v) \<and> s' = []) \<or> (s = decimal (unat v) @ 0x2e # s' \<and> s' \<noteq> [])" by simp
next
  assume "(s = decimal (unat v) \<and> s' = []) \<or> (s = decimal (unat v) @ 0x2e # s' \<and> s' \<noteq> [])"
  then show "parse_dotted_decimal s = (Some v, s')"
    using parse_dotted_decimal_digits [of "unat v" "[]"] parse_dotted_decimal_digits [of "unat v" "0x2e # s'"]
      unsigned_less [of v, where ?'a = nat]
    by (auto simp: parse_dotted_decimal_def CBS_len_def)
qed

section \<open>Object identifiers\<close>

fun dotted :: "nat list \<Rightarrow> bytes" where
  "dotted [] = []"
| "dotted [n] = decimal n"
| "dotted (n # ns) = decimal n @ 0x2e # dotted ns"

fun valid_oid :: "nat list \<Rightarrow> bool" where
  "valid_oid (a # b # ns) \<longleftrightarrow>
     a \<le> 2 \<and> (a < 2 \<longrightarrow> b \<le> 39) \<and> b + 80 < 2 ^ 64 \<and> list_all (\<lambda>n. n < 2 ^ 64) ns"
| "valid_oid _ \<longleftrightarrow> False"

fun oid_der :: "nat list \<Rightarrow> bytes" where
  "oid_der (a # b # ns) = base128 (40 * a + b) @ concat (map base128 ns)"
| "oid_der _ = []"

lemma dotted_Cons: "ns \<noteq> [] \<Longrightarrow> dotted (n # ns) = decimal n @ 0x2e # dotted ns"
  by (cases ns) simp_all

lemma dotted_not_Nil: "ns \<noteq> [] \<Longrightarrow> dotted ns \<noteq> []"
  by (cases ns rule: dotted.cases) simp_all

text \<open>The components of a text: one, or one and a dot and the others.\<close>

lemma parse_dotted_decimal_cases:
  assumes "parse_dotted_decimal s = (Some v, s')"
  obtains (last) "s = decimal (unat v)" "s' = []" | (more) "s = decimal (unat v) @ 0x2e # s'" "s' \<noteq> []"
  using assms by (auto simp: parse_dotted_decimal_iff)

lemma parse_dotted_decimal_dotted:
  assumes "n < 2 ^ 64"
  shows "parse_dotted_decimal (dotted (n # ns)) = (Some (word_of_nat n), dotted ns)"
proof -
  have u: "unat (word_of_nat n :: u64) = n" using assms by (simp add: unat_of_nat)
  show ?thesis
    by (cases "ns = []")
      (simp_all add: parse_dotted_decimal_iff u dotted_Cons dotted_not_Nil del: dotted.simps(3))
qed

text \<open>The loop over the components succeeds only on dotted text, which fixes what it appends.\<close>

lemma oid_components_appender:
  "list_all (\<lambda>n. n < 2 ^ 64) ns \<Longrightarrow> length (dotted ns) \<le> k \<Longrightarrow>
   flat_appender malloc (f :: (cbb_state, unit) reader) d \<Longrightarrow>
   flat_appender malloc (bindR f (\<lambda>_. oid_components_loop malloc k (dotted ns))) (d @ concat (map base128 ns))"
proof (induction ns arbitrary: k f d)
  case Nil
  then have "oid_components_loop malloc k (dotted []) = returnR ()" by (cases k) (simp_all add: CBS_len_def)
  with Nil show ?case by (simp add: bindR_returnR_unit)
next
  case (Cons n ns)
  have ne: "dotted (n # ns) \<noteq> []" by (simp add: dotted_not_Nil)
  then obtain j where k: "k = Suc j" using Cons.prems(2) by (cases k) auto
  have n: "n < 2 ^ 64" "unat (word_of_nat n :: u64) = n" using Cons.prems(1) by (simp_all add: unat_of_nat)
  have "length (dotted ns) < length (dotted (n # ns))"
    by (cases "ns = []") (simp_all add: dotted_Cons del: dotted.simps(3))
  then have j: "length (dotted ns) \<le> j" using Cons.prems(2) k by simp
  have "flat_appender malloc (bindR f (\<lambda>_. add_base128_integer malloc (word_of_nat n))) (d @ base128 n)"
    using Cons.prems(3) add_base128.flat_appender_axioms [of malloc "word_of_nat n"]
    unfolding n(2) by (intro flat_appender_bindR) (simp_all add: flat_appender_def)
  from Cons.IH [OF _ j this] Cons.prems(1) ne show ?case
    by (simp add: k parse_dotted_decimal_dotted [OF n(1)] bindR_assoc CBS_len_def)
qed

lemma oid_components_sound:
  "oid_components_loop malloc k s st = (Some x, st') \<Longrightarrow>
   \<exists>ns. s = dotted ns \<and> list_all (\<lambda>n. n < 2 ^ 64) ns"
proof (induction k arbitrary: s st)
  case 0
  then have "s = dotted []" by (simp add: failR_def split: if_splits)
  then show ?case by fastforce
next
  case (Suc k)
  show ?case
  proof (cases "s = []")
    case True
    then have "s = dotted []" by simp
    then show ?thesis by fastforce
  next
    case False
    with Suc.prems obtain a s1 st1 where p: "parse_dotted_decimal s = (Some a, s1)"
      and r: "oid_components_loop malloc k s1 st1 = (Some x, st')"
      by (auto simp: CBS_len_def failR_def elim!: bindR_eq_SomeE split: prod.splits option.splits)
    from Suc.IH [OF r] obtain ns where ns: "s1 = dotted ns" "list_all (\<lambda>n. n < 2 ^ 64) ns" by blast
    have a: "unat a < 2 ^ 64" using unsigned_less [of a, where ?'a = nat] by simp
    from p show ?thesis
    proof (cases rule: parse_dotted_decimal_cases)
      case last
      then have "s = dotted [unat a]" by simp
      with a show ?thesis by (metis list.pred_inject)
    next
      case more
      then have "s = dotted (unat a # ns)" using ns(1) by (cases ns) simp_all
      with a ns(2) show ?thesis by (metis list.pred_inject(2))
    qed
  qed
qed

section \<open>Text to DER\<close>

lemma u64_le_iff: "b \<le> (- 1) - 80 \<longleftrightarrow> unat (b :: u64) + 80 < 2 ^ 64"
proof -
  have "unat ((- 1) - 80 :: u64) = 2 ^ 64 - 1 - 80" by simp
  then show ?thesis unfolding word_le_nat_alt by auto
qed

lemma unat_first_component:
  assumes "unat (a :: u64) \<le> 2" "unat (b :: u64) + 80 < 2 ^ 64"
  shows "unat (40 * a + b) = 40 * unat a + unat b"
  using assms by (simp add: unat_word_ariths)

lemma oid_from_text_appender:
  assumes "valid_oid arcs" "CBS_init txt len = dotted arcs"
  shows "flat_appender malloc (CBB_add_asn1_oid_from_text malloc txt len) (oid_der arcs)"
proof -
  from assms(1) obtain a b ns where arcs: "arcs = a # b # ns" by (cases arcs rule: valid_oid.cases) auto
  with assms(1) have v: "a \<le> 2" "a < 2 \<longrightarrow> b \<le> 39" "b + 80 < 2 ^ 64" "list_all (\<lambda>n. n < 2 ^ 64) ns" by simp_all
  define wa where "wa = (word_of_nat a :: u64)"
  define wb where "wb = (word_of_nat b :: u64)"
  have w: "unat wa = a" "unat wb = b" using v by (simp_all add: wa_def wb_def unat_of_nat)
  have sum: "unat (40 * wa + wb) = 40 * a + b"
    using unat_first_component [of wa wb] v w by simp
  have guard: "\<not> (wa > 2 \<or> (wa < 2 \<and> wb > 39) \<or> wb > (- 1) - 80)"
    using v w u64_le_iff [of wb] by (auto simp: word_less_nat_alt word_le_nat_alt not_less)
  have p1: "parse_dotted_decimal (CBS_init txt len) = (Some wa, dotted (b # ns))"
    unfolding assms(2) arcs wa_def using v by (intro parse_dotted_decimal_dotted) simp
  have p2: "parse_dotted_decimal (dotted (b # ns)) = (Some wb, dotted ns)"
    unfolding wb_def using v by (intro parse_dotted_decimal_dotted) simp
  have "flat_appender malloc (bindR (CBB_flush malloc) (\<lambda>_. add_base128_integer malloc (40 * wa + wb)))
      ([] @ base128 (unat (40 * wa + wb)))"
    by (intro flat_appender_bindR flush.appender_axioms add_base128.flat_appender_axioms)
  from oid_components_appender [OF v(4) order_refl this]
  show ?thesis
    unfolding CBB_add_asn1_oid_from_text_def p1 prod.case option.case p2 if_not_P [OF guard]
    by (simp add: arcs sum bindR_assoc del: dotted.simps)
qed

lemma oid_from_text_sound:
  assumes "CBB_add_asn1_oid_from_text malloc txt len st = (Some x, st')"
  obtains arcs where "valid_oid arcs" "CBS_init txt len = dotted arcs"
proof -
  from assms obtain a s1 b s2 st1 where p: "parse_dotted_decimal (CBS_init txt len) = (Some a, s1)"
    "parse_dotted_decimal s1 = (Some b, s2)" and g: "\<not> (a > 2 \<or> (a < 2 \<and> b > 39) \<or> b > (- 1) - 80)"
    and r: "oid_components_loop malloc (length s2) s2 st1 = (Some x, st')"
    unfolding CBB_add_asn1_oid_from_text_def
    by (auto simp: failR_def elim!: bindR_eq_SomeE split: prod.splits option.splits if_splits)
  from oid_components_sound [OF r] obtain ns where ns: "s2 = dotted ns" "list_all (\<lambda>n. n < 2 ^ 64) ns" by blast
  have valid: "valid_oid (unat a # unat b # ns)"
    using g ns(2) u64_le_iff [of b] by (auto simp: word_less_nat_alt word_le_nat_alt not_less)
  have d: "s1 = dotted (unat b # ns)"
    using p(2) ns(1) dotted_not_Nil [of ns]
    by (cases rule: parse_dotted_decimal_cases; cases ns) (auto simp del: dotted.simps(3) simp: dotted_Cons)
  then have "s1 \<noteq> []" by (simp add: dotted_not_Nil del: dotted.simps)
  with p(1) d have "CBS_init txt len = dotted (unat a # unat b # ns)"
    by (cases rule: parse_dotted_decimal_cases) (auto simp: dotted_Cons)
  with valid show thesis by (rule that)
qed

section \<open>DER to text\<close>

lemma length_decimal: "n < 10 ^ Suc k \<Longrightarrow> length (decimal n) \<le> Suc k"
proof (induction k arbitrary: n)
  case 0
  then show ?case by (simp add: decimal_small)
next
  case (Suc k)
  then show ?case
    by (cases "n < 10") (simp_all add: decimal_small decimal.simps [of n] div_less_iff_less_mult)
qed

text \<open>The buffer that \<open>add_decimal\<close> prints into is large enough for every 64-bit number.\<close>

interpretation add_decimal: flat_appender malloc "add_decimal malloc v" "decimal (unat v)" for malloc v
proof -
  have "unat v < 10 ^ Suc 22" using unsigned_less [of v, where ?'a = nat] by simp
  then have "take DECIMAL_SIZE_u64 (decimal (unat v)) = decimal (unat v)"
    using length_decimal [of "unat v" 22] by (simp add: DECIMAL_SIZE_u64_def)
  then show "flat_appender malloc (add_decimal malloc v) (decimal (unat v))"
    using add_bytes.flat_appender_axioms [of malloc "decimal (unat v)"] by (simp add: add_decimal_def)
qed

lemma first_component_appender:
  "flat_appender malloc (first_component malloc v)
    (if 80 \<le> unat v then dotted [2, unat v - 80] else dotted [unat v div 40, unat v mod 40])"
proof (cases "80 \<le> unat v")
  case True
  have "unat (v - 80) = unat v - 80" using True by (simp add: unat_sub word_le_nat_alt)
  moreover have "decimal 2 = [0x32]" by (simp add: decimal_small)
  moreover have "flat_appender malloc (bindR (CBB_add_bytes malloc [0x32, 0x2e]) (\<lambda>_. add_decimal malloc (v - 80)))
      ([0x32, 0x2e] @ decimal (unat (v - 80)))"
    by (intro flat_appender_bindR add_bytes.appender_axioms add_decimal.flat_appender_axioms)
  ultimately show ?thesis using True by (simp add: first_component_def word_le_nat_alt)
next
  case False
  have q: "unat (v div 40) = unat v div 40" "unat (v mod 40) = unat v mod 40"
    by (simp_all add: unat_div_distrib unat_mod_distrib)
  have "flat_appender malloc (bindR (add_decimal malloc (v div 40)) (\<lambda>_.
      bindR (CBB_add_u8 malloc 0x2e) (\<lambda>_. add_decimal malloc (v mod 40))))
      (decimal (unat (v div 40)) @ [0x2e] @ decimal (unat (v mod 40)))"
    by (intro flat_appender_bindR add_decimal.appender_axioms add_u8.appender_axioms
        add_decimal.flat_appender_axioms)
  with False q show ?thesis by (simp add: first_component_def word_le_nat_alt)
qed

text \<open>What the loop appends: a dot and a number for each component.\<close>

definition dotted_rest :: "nat list \<Rightarrow> bytes" where
  "dotted_rest ns = concat (map (\<lambda>n. 0x2e # decimal n) ns)"

lemma dotted_append: "dotted (n # ns) = decimal n @ dotted_rest ns"
  by (induction ns arbitrary: n) (simp_all add: dotted_rest_def dotted_Cons del: dotted.simps(3))

lemma length_base128_pos: "1 \<le> length (base128 n)"
  by (simp add: base128_def)

lemma oid_text_loop_appender:
  "list_all (\<lambda>n. n < 2 ^ 64) ns \<Longrightarrow> length (concat (map base128 ns)) \<le> k \<Longrightarrow>
   flat_appender malloc (f :: (cbb_state, unit) reader) d \<Longrightarrow>
   flat_appender malloc (bindR f (\<lambda>_. oid_text_loop malloc k (concat (map base128 ns)))) (d @ dotted_rest ns)"
proof (induction ns arbitrary: k f d)
  case Nil
  then have "oid_text_loop malloc k [] = returnR ()" by (cases k) (simp_all add: CBS_len_def)
  with Nil show ?case by (simp add: dotted_rest_def)
next
  case (Cons n ns)
  have n: "unat (word_of_nat n :: u64) = n" using Cons.prems(1) by (simp add: unat_of_nat)
  obtain j where k: "k = Suc j" using Cons.prems(2) length_base128_pos [of n] by (cases k) auto
  have j: "length (concat (map base128 ns)) \<le> j" using Cons.prems(2) length_base128_pos [of n] k by simp
  have p: "parse_base128_integer (concat (map base128 (n # ns))) = (Some (word_of_nat n), concat (map base128 ns))"
    by (simp add: parse_base128_iff n)
  have "flat_appender malloc (bindR f (\<lambda>_. bindR (CBB_add_u8 malloc 0x2e) (\<lambda>_. add_decimal malloc (word_of_nat n))))
      (d @ [0x2e] @ decimal (unat (word_of_nat n :: u64)))"
    using Cons.prems(3)
    by (intro flat_appender_bindR add_u8.appender_axioms add_decimal.flat_appender_axioms)
      (simp add: flat_appender_def)
  from Cons.IH [OF _ j this] Cons.prems(1) show ?case
    using p by (simp add: k n bindR_assoc dotted_rest_def CBS_len_def)
qed

lemma oid_text_loop_sound:
  "oid_text_loop malloc k copy st = (Some x, st') \<Longrightarrow>
   \<exists>ns. copy = concat (map base128 ns) \<and> list_all (\<lambda>n. n < 2 ^ 64) ns"
proof (induction k arbitrary: copy st)
  case 0
  then have "copy = []" by (simp add: failR_def split: if_splits)
  then show ?case by (intro exI [of _ "[]"]) simp
next
  case (Suc k)
  show ?case
  proof (cases "copy = []")
    case True
    then show ?thesis by (intro exI [of _ "[]"]) simp
  next
    case False
    with Suc.prems obtain v c1 st1 where p: "parse_base128_integer copy = (Some v, c1)"
      and r: "oid_text_loop malloc k c1 st1 = (Some x, st')"
      by (auto simp: CBS_len_def failR_def elim!: bindR_eq_SomeE split: prod.splits option.splits)
    from Suc.IH [OF r] obtain ns where ns: "c1 = concat (map base128 ns)" "list_all (\<lambda>n. n < 2 ^ 64) ns" by blast
    have "unat v < 2 ^ 64" using unsigned_less [of v, where ?'a = nat] by simp
    with p ns show ?thesis by (intro exI [of _ "unat v # ns"]) (simp add: parse_base128_iff)
  qed
qed

text \<open>The two leading components of the first number.\<close>

definition first_arcs :: "nat \<Rightarrow> nat list" where
  "first_arcs v = (if 80 \<le> v then [2, v - 80] else [v div 40, v mod 40])"

lemma first_arcs_valid:
  "v < 2 ^ 64 \<Longrightarrow> list_all (\<lambda>n. n < 2 ^ 64) ns \<Longrightarrow>
   valid_oid (first_arcs v @ ns) \<and> oid_der (first_arcs v @ ns) = base128 v @ concat (map base128 ns)"
  by (auto simp: first_arcs_def div_less_iff_less_mult not_le less_Suc_eq_le [symmetric])

lemma valid_oid_first:
  assumes "valid_oid arcs"
  obtains v ns where "v < 2 ^ 64" "list_all (\<lambda>n. n < 2 ^ 64) ns" "arcs = first_arcs v @ ns"
proof -
  from assms obtain a b ns where arcs: "arcs = a # b # ns" by (cases arcs rule: valid_oid.cases) auto
  with assms have v: "a \<le> 2" "a < 2 \<longrightarrow> b \<le> 39" "b + 80 < 2 ^ 64" "list_all (\<lambda>n. n < 2 ^ 64) ns" by simp_all
  have "first_arcs (40 * a + b) = [a, b]"
  proof (cases "a = 2")
    case False
    then have "a = 0 \<or> a = 1" "b < 40" using v(1,2) by auto
    then show ?thesis by (auto simp: first_arcs_def)
  qed (simp add: first_arcs_def)
  then have "arcs = first_arcs (40 * a + b) @ ns" by (simp add: arcs)
  moreover have "40 * a + b < 2 ^ 64" using v(1,3) by simp
  ultimately show thesis using v(4) that by blast
qed

lemma dotted_first_arcs: "dotted (first_arcs v @ ns) = dotted (first_arcs v) @ dotted_rest ns"
  by (simp add: first_arcs_def dotted_append dotted_rest_def del: dotted.simps(2,3))

definition oid_text_writer :: "allocator \<Rightarrow> u64 \<Rightarrow> cbs \<Rightarrow> (cbb_state, unit) reader" where
  "oid_text_writer malloc v copy =
     bindR (bindR (first_component malloc v) (\<lambda>_. oid_text_loop malloc (length copy) copy))
       (\<lambda>_. CBB_add_u8 malloc 0)"

lemma oid_text_writer_appender:
  assumes "list_all (\<lambda>n. n < 2 ^ 64) ns"
  shows "appender malloc (oid_text_writer malloc v (concat (map base128 ns)))
    (dotted (first_arcs (unat v) @ ns) @ [0])"
proof -
  have "flat_appender malloc (bindR (first_component malloc v)
      (\<lambda>_. oid_text_loop malloc (length (concat (map base128 ns))) (concat (map base128 ns))))
      (dotted (first_arcs (unat v)) @ dotted_rest ns)"
    using first_component_appender [of malloc v]
    by (intro oid_text_loop_appender assms order_refl) (simp add: first_arcs_def split: if_splits)
  then have "appender malloc (bindR (first_component malloc v)
      (\<lambda>_. oid_text_loop malloc (length (concat (map base128 ns))) (concat (map base128 ns))))
      (dotted (first_arcs (unat v)) @ dotted_rest ns)"
    by (simp add: flat_appender_def)
  from appender_bindR [OF this add_u8.appender_axioms]
  show ?thesis unfolding oid_text_writer_def dotted_first_arcs .
qed

lemma oid_to_text_eq:
  "CBS_asn1_oid_to_text malloc base_ok cbs =
     fst (bindR (CBB_init malloc base_ok 32) (\<lambda>_.
       case parse_base128_integer cbs of
         (None, _) \<Rightarrow> failR
       | (Some v, copy) \<Rightarrow>
           bindR (oid_text_writer malloc v copy) (\<lambda>_.
           bindR (CBB_finish malloc True True) (\<lambda>r. returnR (finished_bytes r)))) CBB_zero)"
  unfolding CBS_asn1_oid_to_text_def oid_text_writer_def bindR_assoc ..

lemma length_dotted_rest:
  "list_all (\<lambda>n. n < 2 ^ 64) ns \<Longrightarrow> length (dotted_rest ns) \<le> 21 * length (concat (map base128 ns))"
proof (induction ns)
  case (Cons n ns)
  have "n < 10 ^ Suc 19" using Cons.prems by simp
  then have "length (decimal n) \<le> Suc 19" by (rule length_decimal)
  with Cons length_base128_pos [of n] show ?case by (simp add: dotted_rest_def)
qed (simp add: dotted_rest_def)

lemma length_dotted_first: "v < 2 ^ 64 \<Longrightarrow> length (dotted (first_arcs v)) \<le> 41"
proof -
  assume "v < 2 ^ 64"
  then have "v div 40 < 10 ^ Suc 19" "v mod 40 < 10 ^ Suc 19" "v - 80 < 10 ^ Suc 19" "2 < (10 :: nat) ^ Suc 19"
    using div_le_dividend [of v 40] mod_le_divisor [of 40 v] by simp_all
  then have "length (decimal (v div 40)) \<le> Suc 19" "length (decimal (v mod 40)) \<le> Suc 19"
    "length (decimal (v - 80)) \<le> Suc 19" "length (decimal 2) \<le> Suc 19"
    by (blast intro: length_decimal)+
  then show ?thesis by (simp add: first_arcs_def)
qed

lemma fits_oid_text:
  assumes "list_all (\<lambda>n. n < 2 ^ 64) ns" "v < 2 ^ 64" "length (concat (map base128 ns)) < 2 ^ 32"
  shows "length (dotted (first_arcs v @ ns) @ [0 :: u8]) < 2 ^ 40"
  using length_dotted_rest [OF assms(1)] length_dotted_first [OF assms(2)] assms(3)
  by (simp add: dotted_first_arcs)

text \<open>The DER form of a text is not much longer than the text.\<close>

lemma length_concat_base128:
  "list_all (\<lambda>n. n < 2 ^ 64) ns \<Longrightarrow> length (concat (map base128 ns)) \<le> 10 * length ns"
proof (induction ns)
  case (Cons n ns)
  have "length (base128 n) \<le> 10" using Cons.prems by (intro length_base128) simp
  with Cons show ?case by simp
qed simp

lemma length_dotted: "length ns \<le> length (dotted ns)"
  by (induction ns rule: dotted.induct) (simp_all add: Suc_le_eq)

lemma length_oid_der:
  assumes "valid_oid arcs"
  shows "length (oid_der arcs) \<le> 10 * length (dotted arcs)"
proof -
  obtain v ns where v: "v < 2 ^ 64" "list_all (\<lambda>n. n < 2 ^ 64) ns" "arcs = first_arcs v @ ns"
    by (rule valid_oid_first [OF assms])
  have "length (base128 v) \<le> 10" using v(1) by (rule length_base128)
  then have "length (oid_der arcs) \<le> 10 * length arcs"
    using first_arcs_valid [OF v(1,2)] length_concat_base128 [OF v(2)] v(3) by (simp add: first_arcs_def)
  with length_dotted [of arcs] show ?thesis by linarith
qed

section \<open>What the code promises\<close>

lemma oid_to_text_sound:
  assumes "malloc_ok malloc" "length cbs < 2 ^ 32" "CBS_asn1_oid_to_text malloc base_ok cbs = Some t"
  shows "\<exists>arcs. valid_oid arcs \<and> cbs = oid_der arcs \<and> t = dotted arcs @ [0]"
proof -
  from assms(3) obtain st1 v copy a st2 r st3 where run:
    "CBB_init malloc base_ok 32 CBB_zero = (Some (), st1)"
    "parse_base128_integer cbs = (Some v, copy)" "oid_text_writer malloc v copy st1 = (Some a, st2)"
    "CBB_finish malloc True True st2 = (Some r, st3)" "t = finished_bytes r"
    unfolding oid_to_text_eq
    by (auto simp: bindR_def returnR_def failR_def split: option.splits prod.splits)
  from run(3) obtain x st' where "oid_text_loop malloc (length copy) copy x = (Some (), st')"
    by (auto simp: oid_text_writer_def elim!: bindR_eq_SomeE)
  from oid_text_loop_sound [OF this] obtain ns where
    ns: "copy = concat (map base128 ns)" "list_all (\<lambda>n. n < 2 ^ 64) ns" by blast
  have v: "unat v < 2 ^ 64" using unsigned_less [of v, where ?'a = nat] by simp
  have cbs: "cbs = base128 (unat v) @ concat (map base128 ns)"
    using run(2) ns(1) by (simp add: parse_base128_iff)
  let ?arcs = "first_arcs (unat v) @ ns"
  have "length (concat (map base128 ns)) < 2 ^ 32" using assms(2) cbs by simp
  from fits_oid_text [OF ns(2) v this] have fits: "fits (length (dotted ?arcs @ [0 :: u8]))"
    by (simp add: fits_def)
  have "built st1 []" using CBB_init_built [OF assms(1) _ run(1)] by simp
  from built_append [OF this oid_text_writer_appender [OF ns(2)] assms(1) fits run(3) [unfolded ns(1)]]
  have "built st2 (dotted ?arcs @ [0])" by simp
  from CBB_finish_bytes [OF this assms(1) run(4)] run(5) have "t = dotted ?arcs @ [0]" by simp
  with first_arcs_valid [OF v ns(2)] cbs show ?thesis by metis
qed

lemma oid_to_text_complete:
  assumes "malloc_ok malloc" "total_malloc malloc" "length (oid_der arcs) < 2 ^ 32" "valid_oid arcs"
  shows "CBS_asn1_oid_to_text malloc True (oid_der arcs) = Some (dotted arcs @ [0])"
proof -
  from assms(4) obtain v ns where v: "v < 2 ^ 64" "list_all (\<lambda>n. n < 2 ^ 64) ns" "arcs = first_arcs v @ ns"
    by (rule valid_oid_first)
  define w where "w = (word_of_nat v :: u64)"
  have w: "unat w = v" using v(1) by (simp add: w_def unat_of_nat)
  have der: "oid_der arcs = base128 v @ concat (map base128 ns)"
    using first_arcs_valid [OF v(1,2)] v(3) by simp
  then have p: "parse_base128_integer (oid_der arcs) = (Some w, concat (map base128 ns))"
    by (simp add: parse_base128_iff w)
  have "length (concat (map base128 ns)) < 2 ^ 32" using assms(3) der by simp
  from fits_oid_text [OF v(2,1) this] have len: "length (dotted arcs @ [0 :: u8]) < 2 ^ 40"
    unfolding v(3) .
  then have fits: "fits (length (dotted arcs @ [0 :: u8]))" by (simp add: fits_def)
  have "OPENSSL_malloc malloc 32 \<noteq> None" using total_OPENSSL_malloc [OF assms(2), of 32] by simp
  then obtain st1 where i: "CBB_init malloc True 32 CBB_zero = (Some (), st1)"
    "room malloc st1 (length (dotted arcs @ [0 :: u8]))"
    using assms(2) len
    by (auto simp: CBB_init_def cbb_init_def CBB_zero_def room_def can_hold_def Let_def)
  have b1: "built st1 []" using CBB_init_built [OF assms(1) _ i(1)] by simp
  have app: "appender malloc (oid_text_writer malloc w (concat (map base128 ns))) (dotted arcs @ [0])"
    using oid_text_writer_appender [OF v(2), of malloc w] w v(3) by simp
  have "length ([] :: bytes) + length (dotted arcs @ [0 :: u8]) \<le> length (dotted arcs @ [0 :: u8])" by simp
  from built_succeeds [OF b1 app assms(1) fits i(2) this] obtain a st2 where
    st2: "oid_text_writer malloc w (concat (map base128 ns)) st1 = (Some a, st2)"
    "built st2 (dotted arcs @ [0])" "room malloc st2 (length (dotted arcs @ [0 :: u8]))"
    by auto
  obtain r st3 where fin: "CBB_finish malloc True True st2 = (Some r, st3)"
    by (rule CBB_finish_succeeds [OF st2(2) assms(1) st2(3)])
  from CBB_finish_bytes [OF st2(2) assms(1) fin] have "finished_bytes r = dotted arcs @ [0]" by simp
  with i(1) p st2(1) fin show ?thesis
    unfolding oid_to_text_eq by (simp add: bindR_def returnR_def)
qed

text \<open>
  C13: \<open>CBS_asn1_oid_to_text\<close> prints exactly the well-formed object identifiers (minimal base-128
  components of 64 bits, at least one), and prints them as their components in decimal,
  separated by dots; the buffer it prints each number into never cuts a number short.
\<close>

theorem CBS_asn1_oid_to_text_exact:
  assumes "malloc_ok malloc" "total_malloc malloc" "length cbs < 2 ^ 32"
  shows "CBS_asn1_oid_to_text malloc True cbs = Some t \<longleftrightarrow>
    (\<exists>arcs. valid_oid arcs \<and> cbs = oid_der arcs \<and> t = dotted arcs @ [0])"
  using oid_to_text_sound [OF assms(1,3)] oid_to_text_complete [OF assms(1,2)] assms(3) by blast

theorem CBS_asn1_oid_to_text_exact_witness:
  "CBS_asn1_oid_to_text zero_heap True [0x2a, 0x86, 0x48] = Some (dotted [1, 2, 840] @ [0])"
proof -
  have "valid_oid [1, 2, 840]" "[0x2a, 0x86, 0x48] = oid_der [1, 2, 840]" by code_simp+
  moreover have "length [0x2a :: u8, 0x86, 0x48] < 2 ^ 32" by simp
  ultimately show ?thesis
    using CBS_asn1_oid_to_text_exact [OF malloc_ok_zero_heap total_zero_heap] by blast
qed

text \<open>
  C14: \<open>CBB_add_asn1_oid_from_text\<close> accepts only dotted-decimal text without leading zeros, empty
  components or components out of range, and appends the DER of the same components.
\<close>

theorem CBB_add_asn1_oid_from_text_correct:
  assumes "malloc_ok malloc" "wf_buf b" "wf_cbb c (b_len b)" "closed c (contents b) = Some cs" "len < 2 ^ 32"
    and "CBB_add_asn1_oid_from_text malloc txt len (Some b, c) = (Some (), Some b', c')"
  shows "\<exists>arcs. valid_oid arcs \<and> CBS_init txt len = dotted arcs \<and>
    closed c' (contents b') = Some (cs @ oid_der arcs)"
proof -
  obtain arcs where arcs: "valid_oid arcs" "CBS_init txt len = dotted arcs"
    by (rule oid_from_text_sound [OF assms(6)])
  have "length (dotted arcs) < 2 ^ 32"
    using assms(5) unfolding arcs(2) [symmetric] by (simp add: CBS_init_def)
  from length_oid_der [OF arcs(1)] this have "fits (length (oid_der arcs))" by (simp add: fits_def)
  then have "closed c' (contents b') = Some (cs @ oid_der arcs)"
    by (rule appender.cases [OF flat_appender.axioms(1) [OF oid_from_text_appender [OF arcs]] assms(1-3) _ assms(6)])
      (use assms(4) in \<open>auto simp: appended_def\<close>)
  with arcs show ?thesis by blast
qed

theorem CBB_add_asn1_oid_from_text_correct_witness:
  "\<exists>arcs. valid_oid arcs \<and> CBS_init [0x31, 0x2e, 0x32] 3 = dotted arcs \<and>
    closed (CBB None 0 0 False False) [0x2a] = Some ([] @ oid_der arcs)"
proof -
  let ?b = "\<lparr>b_buf = Some [0, 0], b_len = 0, b_cap = 2, b_can_resize = False, b_error = False\<rparr>"
  let ?b' = "\<lparr>b_buf = Some [0x2a, 0], b_len = 1, b_cap = 2, b_can_resize = False, b_error = False\<rparr>"
  let ?c = "CBB None 0 0 False False"
  have w: "wf_buf ?b" "wf_cbb ?c (b_len ?b)" "closed ?c (contents ?b) = Some []" "contents ?b' = [0x2a]"
    by (simp_all add: wf_buf_def blk_def contents_def)
  have "CBB_add_asn1_oid_from_text zero_heap [0x31, 0x2e, 0x32] 3 (Some ?b, ?c) = (Some (), Some ?b', ?c)"
    by code_simp
  from CBB_add_asn1_oid_from_text_correct [OF malloc_ok_zero_heap w(1-3) _ this] show ?thesis
    unfolding w(4) by simp
qed

end
