(* ===== verification/BER.thy ===== *)
theory BER
  imports Documents
begin

text \<open>
  \<open>crypto/bytestring/ber.c\<close>: finding BER-only encodings, converting BER to DER, and reading
  implicitly tagged constructed strings.
\<close>

section \<open>The code\<close>

definition kMaxDepth :: nat where
  "kMaxDepth = 2048"

definition is_string_type :: "u32 \<Rightarrow> bool" where
  "is_string_type tag \<longleftrightarrow>
     tag AND NOT CBS_ASN1_CONSTRUCTED \<in>
       {0x3, 0x4, 0xc, 0x12, 0x13, 0x14, 0x15, 0x16, 0x19, 0x1a, 0x1b, 0x1c, 0x1e}"

lemma is_string_type_code [code]:
  "is_string_type tag \<longleftrightarrow> List.member
     [0x3, 0x4, 0xc, 0x12, 0x13, 0x14, 0x15, 0x16, 0x19, 0x1a, 0x1b, 0x1c, 0x1e]
     (unat (tag AND NOT CBS_ASN1_CONSTRUCTED))"
  by (simp add: is_string_type_def word_unat_eq_iff)

text \<open>An indefinite-length element is returned as its header alone, which ends in 0x80.\<close>

definition is_indefinite :: "cbs \<Rightarrow> nat \<Rightarrow> bool" where
  "is_indefinite el header_len \<longleftrightarrow>
     CBS_len el = header_len \<and> header_len > 0 \<and> CBS_data el ! (header_len - 1) = 0x80"

lemma any_element_shorter:
  "cbs_get_any_asn1_element ber_ok s = (Some (el, tag, header_len), s') \<Longrightarrow>
   2 \<le> header_len \<and> header_len \<le> length el \<and> length s = length el + length s'"
  using length_der_tag_pos [of tag] length_der_length_pos [of "length el - header_len"]
  by (auto simp: any_element_iff der_element_def der_header_def)

text \<open>
  \<open>find_ber_loop depth found s\<close> is the loop with \<open>found\<close> for \<open>*ber_found\<close>; the call on the
  contents of a constructed element sets \<open>*ber_found\<close> to 0 again.
\<close>

function find_ber_loop :: "nat \<Rightarrow> bool \<Rightarrow> cbs \<Rightarrow> bool option" where
  "find_ber_loop depth found s =
     (if CBS_len s > 0 then
        case CBS_get_any_ber_asn1_element s of
          (None, _) \<Rightarrow> None
        | (Some (el, tag, header_len), s') \<Rightarrow>
            if is_indefinite el header_len then Some True
            else if tag AND CBS_ASN1_CONSTRUCTED \<noteq> 0 then
              if is_string_type tag then Some True
              else
                (case CBS_skip header_len el of
                   (None, _) \<Rightarrow> None
                 | (Some _, body) \<Rightarrow>
                     if depth + 1 > kMaxDepth then None
                     else (case find_ber_loop (depth + 1) False body of
                             None \<Rightarrow> None
                           | Some found' \<Rightarrow> find_ber_loop depth found' s'))
            else find_ber_loop depth found s'
      else Some found)"
  by pat_completeness auto


termination
  by (relation "measure (\<lambda>(depth, found, s). length s)")
    (auto simp: CBS_get_any_ber_asn1_element_def CBS_skip_def cbs_get_def bindR_def returnR_def
      split: if_splits dest!: any_element_shorter [OF sym])

declare find_ber_loop.simps [simp del]

definition cbs_find_ber :: "nat \<Rightarrow> cbs \<Rightarrow> bool option" where
  "cbs_find_ber depth orig_in =
     (if depth > kMaxDepth then None else find_ber_loop depth False (CBS_init orig_in (CBS_len orig_in)))"

definition is_eoc :: "nat \<Rightarrow> cbs \<Rightarrow> bool" where
  "is_eoc header_len el \<longleftrightarrow> header_len = 2 \<and> CBS_len el = 2 \<and> take 2 (CBS_data el) = [0, 0]"

text \<open>
  \<open>cbs_convert_ber malloc fuel string_tag looking_for_eoc depth s\<close> works on the output CBB and
  returns what is left of the input \<open>s\<close>. \<open>out_contents\<close> is \<open>out\<close> itself inside a constructed
  string, and otherwise the child just opened. Each call and each turn of the loop costs one
  unit of \<open>fuel\<close>; every one but the last consumes an element, so \<open>length s + 1\<close> is enough.
\<close>

definition on_contents :: "u32 \<Rightarrow> (cbb_state, 'a) reader \<Rightarrow> (cbb_state, 'a) reader" where
  "on_contents string_tag f = (if string_tag \<noteq> 0 then f else on_child f)"

fun cbs_convert_ber :: "allocator \<Rightarrow> nat \<Rightarrow> u32 \<Rightarrow> bool \<Rightarrow> nat \<Rightarrow> cbs \<Rightarrow> (cbb_state, cbs) reader" where
  "cbs_convert_ber malloc 0 string_tag looking_for_eoc depth s = failR"
| "cbs_convert_ber malloc (Suc fuel) string_tag looking_for_eoc depth s =
     (if depth > kMaxDepth then failR
      else if CBS_len s > 0 then
        case CBS_get_any_ber_asn1_element s of
          (None, _) \<Rightarrow> failR
        | (Some (el, tag, header_len), s') \<Rightarrow>
            if is_eoc header_len el then (if looking_for_eoc then returnR s' else failR)
            else if string_tag \<noteq> 0 \<and> tag AND NOT CBS_ASN1_CONSTRUCTED \<noteq> string_tag then failR
            else
              let constructed_string = tag AND CBS_ASN1_CONSTRUCTED \<noteq> 0 \<and> is_string_type tag;
                  out_tag = (if constructed_string then tag AND NOT CBS_ASN1_CONSTRUCTED else tag);
                  child_string_tag = (if string_tag = 0 \<and> constructed_string then out_tag else string_tag)
              in bindR (if string_tag \<noteq> 0 then returnR () else CBB_add_asn1 malloc out_tag) (\<lambda>_.
                 if is_indefinite el header_len then
                   bindR (on_contents string_tag
                      (cbs_convert_ber malloc fuel child_string_tag True (depth + 1) s')) (\<lambda>s''.
                   bindR (CBB_flush malloc) (\<lambda>_.
                     cbs_convert_ber malloc fuel string_tag looking_for_eoc depth s''))
                 else
                   case CBS_skip header_len el of
                     (None, _) \<Rightarrow> failR
                   | (Some _, body) \<Rightarrow>
                       bindR
                        (if tag AND CBS_ASN1_CONSTRUCTED \<noteq> 0 then
                           bindR (on_contents string_tag
                             (cbs_convert_ber malloc fuel child_string_tag False (depth + 1) body)) (\<lambda>_. returnR ())
                         else on_contents string_tag (CBB_add_bytes malloc (take (CBS_len body) (CBS_data body)))) (\<lambda>_.
                       bindR (CBB_flush malloc) (\<lambda>_.
                         cbs_convert_ber malloc fuel string_tag looking_for_eoc depth s')))
      else if \<not> looking_for_eoc then returnR s else failR)"

text \<open>
  The result is the output CBS and the storage to be released, \<open>None\<close> when the output is part
  of the input, with the rest of the input. A failed call has no result: a failed conversion leaves the
  input somewhere behind the elements it has read, and the model does not say where.
\<close>

definition CBS_asn1_ber_to_der :: "allocator \<Rightarrow> bool \<Rightarrow> cbs \<Rightarrow> ((cbs \<times> bytes option) \<times> cbs) option" where
  "CBS_asn1_ber_to_der malloc base_ok s =
     (case cbs_find_ber 0 s of
        None \<Rightarrow> None
      | Some False \<Rightarrow>
          (case CBS_get_any_asn1_element s of
             (None, _) \<Rightarrow> None
           | (Some (out, _, _), s') \<Rightarrow> Some ((out, None), s'))
      | Some True \<Rightarrow>
          (case bindR (CBB_init malloc base_ok (CBS_len s)) (\<lambda>_.
                bindR (cbs_convert_ber malloc (Suc (length s)) 0 False 0 s) (\<lambda>s'.
                bindR (CBB_finish malloc True True) (\<lambda>r. returnR (finished_bytes r, s')))) CBB_zero of
             (None, _) \<Rightarrow> None
           | (Some (dat, s'), _) \<Rightarrow> Some ((dat, Some dat), s')))"

lemma CBS_get_asn1_shorter: "CBS_get_asn1 tag s = (Some x, s') \<Longrightarrow> length s' < length s"
  using length_der_tag_pos [of tag]
  by (auto simp: CBS_get_asn1_iff der_element_def der_header_def)

function implicit_chunks_loop :: "allocator \<Rightarrow> u32 \<Rightarrow> cbs \<Rightarrow> (cbb_state, unit) reader" where
  "implicit_chunks_loop malloc inner_tag child =
     (if CBS_len child > 0 then
        case CBS_get_asn1 inner_tag child of
          (None, _) \<Rightarrow> failR
        | (Some chunk, child') \<Rightarrow>
            bindR (CBB_add_bytes malloc (take (CBS_len chunk) (CBS_data chunk))) (\<lambda>_.
              implicit_chunks_loop malloc inner_tag child')
      else returnR ())"
  by pat_completeness auto
termination
  by (relation "measure (\<lambda>(malloc, inner_tag, child). length child)")
    (auto dest!: CBS_get_asn1_shorter [OF sym])

declare implicit_chunks_loop.simps [simp del]

definition CBS_get_asn1_implicit_string ::
    "allocator \<Rightarrow> bool \<Rightarrow> u32 \<Rightarrow> u32 \<Rightarrow> (cbs, cbs \<times> bytes option) reader" where
  "CBS_get_asn1_implicit_string malloc base_ok outer_tag inner_tag s =
     (if CBS_peek_asn1_tag s outer_tag then
        (case CBS_get_asn1 outer_tag s of
           (None, s') \<Rightarrow> (None, s')
         | (Some out, s') \<Rightarrow> (Some (out, None), s'))
      else
        case CBB_init malloc base_ok (CBS_len s) CBB_zero of
          (None, _) \<Rightarrow> (None, s)
        | (Some _, result) \<Rightarrow>
            (case CBS_get_asn1 (outer_tag OR CBS_ASN1_CONSTRUCTED) s of
               (None, s') \<Rightarrow> (None, s')
             | (Some child, s') \<Rightarrow>
                 (case bindR (implicit_chunks_loop malloc inner_tag child) (\<lambda>_.
                       CBB_finish malloc True True) result of
                    (None, _) \<Rightarrow> (None, s')
                  | (Some r, _) \<Rightarrow> (Some (finished_bytes r, Some (finished_bytes r)), s'))))"

section \<open>Enough fuel\<close>

lemma any_ber_shorter:
  "CBS_get_any_ber_asn1_element s = (Some (el, tag, header_len), s') \<Longrightarrow> length s' < length s"
  unfolding CBS_get_any_ber_asn1_element_def by (drule any_element_shorter) linarith

lemma any_ber_body_shorter:
  assumes "CBS_get_any_ber_asn1_element s = (Some (el, tag, header_len), s')"
    and "CBS_skip header_len el = (Some u, body)"
  shows "length body < length s"
  using any_element_shorter [OF assms(1) [unfolded CBS_get_any_ber_asn1_element_def]] assms(2)
  by (auto simp: CBS_skip_def cbs_get_def bindR_def returnR_def split: if_splits)

lemma on_contents_Some:
  assumes "on_contents stag f st = (Some a, st')"
  obtains st1 st2 where "f st1 = (Some a, st2)"
  using assms by (auto simp: on_contents_def on_child_def split: if_splits option.splits prod.splits)

lemma convert_ber_rest:
  "cbs_convert_ber malloc fuel stag eoc depth s st = (Some s', st') \<Longrightarrow> length s' \<le> length s"
proof (induction fuel arbitrary: stag eoc depth s s' st st')
  case 0
  then show ?case by (simp add: failR_def)
next
  case (Suc fuel)
  show ?case
  proof (cases "CBS_len s > 0")
    case False
    with Suc.prems show ?thesis by (auto simp: reader_defs split: if_splits)
  next
    case True
    with Suc.prems obtain el tag header_len s1 where
      el: "CBS_get_any_ber_asn1_element s = (Some (el, tag, header_len), s1)"
      by (auto simp: failR_def split: if_splits option.splits prod.splits)
    have "length s' \<le> length s1"
      using Suc.prems True el
      by (auto simp: reader_defs Let_def split: if_splits option.splits prod.splits elim!: bindR_eq_SomeE
          dest!: Suc.IH elim!: on_contents_Some)
    with any_ber_shorter [OF el] show ?thesis by simp
  qed
qed

lemma bindR_cong_result:
  assumes "f = f'" "\<And>a t t'. f t = (Some a, t') \<Longrightarrow> g a = g' a"
  shows "bindR f g = bindR f' g'"
proof
  fix st
  obtain r t where "f st = (r, t)" by (rule prod.exhaust)
  then show "bindR f g st = bindR f' g' st"
    using assms by (cases r) (auto simp: bindR_def)
qed

lemma convert_ber_fuel_eq:
  "length s < n \<Longrightarrow> length s < m \<Longrightarrow>
   cbs_convert_ber malloc n stag eoc depth s = cbs_convert_ber malloc m stag eoc depth s"
proof (induction n arbitrary: m stag eoc depth s)
  case (Suc n)
  from Suc.prems(2) obtain k where m: "m = Suc k" by (cases m) auto
  show ?case
  proof (cases "\<exists>el tag hl s'. CBS_get_any_ber_asn1_element s = (Some (el, tag, hl), s')")
    case False
    then show ?thesis by (simp add: m split: option.splits prod.splits)
  next
    case True
    then obtain el tag hl s' where el: "CBS_get_any_ber_asn1_element s = (Some (el, tag, hl), s')" by blast
    have len: "length s' < n" "length s' < k" using any_ber_shorter [OF el] Suc.prems m by simp_all
    note IH = Suc.IH [OF len]
    have body: "cbs_convert_ber malloc n stag' eoc' d body = cbs_convert_ber malloc k stag' eoc' d body"
      if "CBS_skip hl el = (Some u, body)" for u body stag' eoc' d
      using any_ber_body_shorter [OF el that] Suc.prems m by (intro Suc.IH) simp_all
    have rest: "cbs_convert_ber malloc n stag1 eoc1 d1 s'' = cbs_convert_ber malloc k stag1 eoc1 d1 s''"
      if "on_contents stag0 (cbs_convert_ber malloc k stag' eoc' d s') t = (Some s'', t')"
      for s'' stag' eoc' d t t' stag0 stag1 eoc1 d1
      using that len by (intro Suc.IH) (auto elim!: on_contents_Some dest!: convert_ber_rest)
    show ?thesis
      unfolding m cbs_convert_ber.simps el option.case prod.case Let_def IH
      by (auto simp: body split: option.splits prod.splits intro!: bindR_cong_result dest!: rest)
  qed
qed simp

text \<open>
  One unit of fuel more than the input has bytes is enough: any larger amount gives the same
  result, at every nesting and for every allocator.
\<close>

theorem cbs_convert_ber_fuel_enough:
  "cbs_convert_ber malloc (length s + 1 + k) stag eoc depth s = cbs_convert_ber malloc (length s + 1) stag eoc depth s"
  by (rule convert_ber_fuel_eq) simp_all

section \<open>The conversion as a function of bytes\<close>

text \<open>
  What the conversion computes, without the builder: the DER bytes, and the rest of the input.
\<close>

fun ber_der :: "nat \<Rightarrow> u32 \<Rightarrow> bool \<Rightarrow> nat \<Rightarrow> bytes \<Rightarrow> (bytes \<times> bytes) option" where
  "ber_der 0 stag eoc depth s = None"
| "ber_der (Suc n) stag eoc depth s =
     (if depth > kMaxDepth then None
      else if s = [] then (if eoc then None else Some ([], []))
      else case CBS_get_any_ber_asn1_element s of
        (None, _) \<Rightarrow> None
      | (Some (el, tag, hl), s1) \<Rightarrow>
          if is_eoc hl el then (if eoc then Some ([], s1) else None)
          else if stag \<noteq> 0 \<and> tag AND NOT CBS_ASN1_CONSTRUCTED \<noteq> stag then None
          else
            let cstr = tag AND CBS_ASN1_CONSTRUCTED \<noteq> 0 \<and> is_string_type tag;
                ot = (if cstr then tag AND NOT CBS_ASN1_CONSTRUCTED else tag);
                ctag = (if stag = 0 \<and> cstr then ot else stag)
            in case (if is_indefinite el hl then ber_der n ctag True (depth + 1) s1
                     else if tag AND CBS_ASN1_CONSTRUCTED \<noteq> 0 then
                       map_option (\<lambda>r. (fst r, s1)) (ber_der n ctag False (depth + 1) (drop hl el))
                     else Some (drop hl el, s1)) of
                 None \<Rightarrow> None
               | Some (d, s2) \<Rightarrow>
                   map_option (\<lambda>r. ((if stag \<noteq> 0 then d else der_element ot d) @ fst r, snd r))
                     (ber_der n stag eoc depth s2))"

lemma skip_element:
  assumes "CBS_get_any_ber_asn1_element s = (Some (el, tag, hl), s1)"
  shows "CBS_skip hl el = (Some (), drop hl el)"
  using any_element_shorter [OF assms [unfolded CBS_get_any_ber_asn1_element_def]]
  by (simp add: CBS_skip_def cbs_get_def bindR_def returnR_def)

text \<open>The body of one turn of the loop, and the writers it is made of.\<close>

definition element_contents :: "allocator \<Rightarrow> nat \<Rightarrow> u32 \<Rightarrow> nat \<Rightarrow> cbs \<Rightarrow> u32 \<Rightarrow> nat \<Rightarrow> cbs \<Rightarrow> (cbb_state, cbs) reader" where
  "element_contents malloc n ctag depth el tag hl s1 =
     (if is_indefinite el hl then cbs_convert_ber malloc n ctag True (depth + 1) s1
      else if tag AND CBS_ASN1_CONSTRUCTED \<noteq> 0 then
        bindR (cbs_convert_ber malloc n ctag False (depth + 1) (drop hl el)) (\<lambda>_. returnR s1)
      else bindR (CBB_add_bytes malloc (drop hl el)) (\<lambda>_. returnR s1))"

lemma on_contents_bindR: "on_contents stag (bindR f g) = bindR (on_contents stag f) (\<lambda>a. on_contents stag (g a))"
  by (rule ext) (auto simp: on_contents_def on_child_def bindR_def set_child_def split: option.splits prod.splits)

lemma on_contents_returnR:
  "bindR (on_contents stag f) (\<lambda>a. bindR (on_contents stag (returnR x)) g) = bindR (on_contents stag f) (\<lambda>a. g x)"
  by (rule ext)
    (auto simp: on_contents_def on_child_def bindR_def returnR_def set_child_def split: option.splits prod.splits)

lemma convert_ber_step:
  assumes el: "CBS_get_any_ber_asn1_element s = (Some (el, tag, hl), s1)"
    and ok: "\<not> depth > kMaxDepth" "s \<noteq> []" "\<not> is_eoc hl el"
      "\<not> (stag \<noteq> 0 \<and> tag AND NOT CBS_ASN1_CONSTRUCTED \<noteq> stag)"
    and cstr: "cstr = (tag AND CBS_ASN1_CONSTRUCTED \<noteq> 0 \<and> is_string_type tag)"
    and ot: "ot = (if cstr then tag AND NOT CBS_ASN1_CONSTRUCTED else tag)"
    and ctag: "ctag = (if stag = 0 \<and> cstr then ot else stag)"
  shows "cbs_convert_ber malloc (Suc n) stag eoc depth s =
    bindR (if stag \<noteq> 0 then returnR () else CBB_add_asn1 malloc ot) (\<lambda>_.
    bindR (on_contents stag (element_contents malloc n ctag depth el tag hl s1)) (\<lambda>s2.
    bindR (CBB_flush malloc) (\<lambda>_. cbs_convert_ber malloc n stag eoc depth s2)))"
  unfolding cbs_convert_ber.simps el option.case prod.case Let_def skip_element [OF el]
    cstr [symmetric] ot [symmetric] ctag [symmetric]
  using ok
  by (auto simp add: element_contents_def on_contents_bindR bindR_assoc on_contents_returnR
      CBS_len_def CBS_data_def)

definition element_der :: "nat \<Rightarrow> u32 \<Rightarrow> nat \<Rightarrow> cbs \<Rightarrow> u32 \<Rightarrow> nat \<Rightarrow> cbs \<Rightarrow> (bytes \<times> bytes) option" where
  "element_der n ctag depth el tag hl s1 =
     (if is_indefinite el hl then ber_der n ctag True (depth + 1) s1
      else if tag AND CBS_ASN1_CONSTRUCTED \<noteq> 0 then
        map_option (\<lambda>r. (fst r, s1)) (ber_der n ctag False (depth + 1) (drop hl el))
      else Some (drop hl el, s1))"

lemma ber_der_step:
  assumes el: "CBS_get_any_ber_asn1_element s = (Some (el, tag, hl), s1)"
    and ok: "\<not> depth > kMaxDepth" "s \<noteq> []" "\<not> is_eoc hl el"
      "\<not> (stag \<noteq> 0 \<and> tag AND NOT CBS_ASN1_CONSTRUCTED \<noteq> stag)"
    and cstr: "cstr = (tag AND CBS_ASN1_CONSTRUCTED \<noteq> 0 \<and> is_string_type tag)"
    and ot: "ot = (if cstr then tag AND NOT CBS_ASN1_CONSTRUCTED else tag)"
    and ctag: "ctag = (if stag = 0 \<and> cstr then ot else stag)"
  shows "ber_der (Suc n) stag eoc depth s =
    (case element_der n ctag depth el tag hl s1 of
       None \<Rightarrow> None
     | Some (d, s2) \<Rightarrow>
         map_option (\<lambda>r. ((if stag \<noteq> 0 then d else der_element ot d) @ fst r, snd r)) (ber_der n stag eoc depth s2))"
  unfolding ber_der.simps el option.case prod.case Let_def
    cstr [symmetric] ot [symmetric] ctag [symmetric] element_der_def [symmetric]
  using ok by auto

text \<open>The cases of one turn.\<close>

lemma ber_der_cases:
  assumes "ber_der (Suc n) stag eoc depth s = Some (d, r)"
  obtains (stop) "s = []" "\<not> eoc" "d = []" "r = []"
  | (eoc) el tag hl where "CBS_get_any_ber_asn1_element s = (Some (el, tag, hl), r)" "is_eoc hl el" "eoc" "d = []"
  | (element) el tag hl s1 cstr ot ctag d1 s2 d2 where
      "CBS_get_any_ber_asn1_element s = (Some (el, tag, hl), s1)" "\<not> depth > kMaxDepth" "s \<noteq> []"
      "\<not> is_eoc hl el" "\<not> (stag \<noteq> 0 \<and> tag AND NOT CBS_ASN1_CONSTRUCTED \<noteq> stag)"
      "cstr = (tag AND CBS_ASN1_CONSTRUCTED \<noteq> 0 \<and> is_string_type tag)"
      "ot = (if cstr then tag AND NOT CBS_ASN1_CONSTRUCTED else tag)"
      "ctag = (if stag = 0 \<and> cstr then ot else stag)"
      "element_der n ctag depth el tag hl s1 = Some (d1, s2)" "ber_der n stag eoc depth s2 = Some (d2, r)"
      "d = (if stag \<noteq> 0 then d1 else der_element ot d1) @ d2"
proof (cases "s = []")
  case True
  with assms stop show thesis by (auto split: if_splits)
next
  case False
  with assms have dep: "\<not> depth > kMaxDepth" by (auto split: if_splits)
  from assms False obtain el tag hl s1 where el: "CBS_get_any_ber_asn1_element s = (Some (el, tag, hl), s1)"
    by (auto split: if_splits option.splits prod.splits)
  show thesis
  proof (cases "is_eoc hl el")
    case True
    with assms False dep el eoc show thesis by (auto split: if_splits)
  next
    case ne: False
    with assms False dep el have tg: "\<not> (stag \<noteq> 0 \<and> tag AND NOT CBS_ASN1_CONSTRUCTED \<noteq> stag)"
      by (auto split: if_splits)
    from assms [unfolded ber_der_step [OF el dep False ne tg refl refl refl]] show thesis
      by (auto split: option.splits intro!: element [OF el dep False ne tg refl refl refl])
  qed
qed

lemma convert_ber_value:
  "cbs_convert_ber malloc n stag eoc depth s st = (Some s', st') \<Longrightarrow>
   \<exists>d. ber_der n stag eoc depth s = Some (d, s')"
proof (induction n arbitrary: stag eoc depth s s' st st')
  case 0
  then show ?case by (simp add: failR_def)
next
  case (Suc n)
  have dep: "\<not> depth > kMaxDepth" using Suc.prems by (auto simp: failR_def split: if_splits)
  show ?case
  proof (cases "s = []")
    case True
    with Suc.prems show ?thesis by (auto simp: reader_defs CBS_len_def split: if_splits)
  next
    case ne: False
    with Suc.prems dep obtain el tag hl s1 where el: "CBS_get_any_ber_asn1_element s = (Some (el, tag, hl), s1)"
      by (auto simp: failR_def CBS_len_def split: if_splits option.splits prod.splits)
    show ?thesis
    proof (cases "is_eoc hl el")
      case True
      with Suc.prems dep ne el show ?thesis by (auto simp: reader_defs CBS_len_def split: if_splits)
    next
      case nq: False
      with Suc.prems dep ne el have tg: "\<not> (stag \<noteq> 0 \<and> tag AND NOT CBS_ASN1_CONSTRUCTED \<noteq> stag)"
        by (auto simp: reader_defs CBS_len_def split: if_splits)
      define cstr where "cstr = (tag AND CBS_ASN1_CONSTRUCTED \<noteq> 0 \<and> is_string_type tag)"
      define ot where "ot = (if cstr then tag AND NOT CBS_ASN1_CONSTRUCTED else tag)"
      define ctag where "ctag = (if stag = 0 \<and> cstr then ot else stag)"
      note defs = cstr_def ot_def ctag_def
      from Suc.prems [unfolded convert_ber_step [OF el dep ne nq tg defs]]
      obtain t1 t2 s2 u1 u2 where c: "on_contents stag (element_contents malloc n ctag depth el tag hl s1) t1 = (Some s2, t2)"
        and rest: "cbs_convert_ber malloc n stag eoc depth s2 u1 = (Some s', u2)"
        by (elim bindR_eq_SomeE)
      from Suc.IH [OF rest] obtain d2 where d2: "ber_der n stag eoc depth s2 = Some (d2, s')" by blast
      from c obtain v1 v2 where "element_contents malloc n ctag depth el tag hl s1 v1 = (Some s2, v2)"
        by (rule on_contents_Some)
      then have "\<exists>d1. element_der n ctag depth el tag hl s1 = Some (d1, s2)"
        by (auto simp: element_contents_def element_der_def returnR_def elim!: bindR_eq_SomeE
            split: if_splits dest!: Suc.IH)
      then obtain d1 where "element_der n ctag depth el tag hl s1 = Some (d1, s2)" by blast
      with d2 show ?thesis unfolding ber_der_step [OF el dep ne nq tg defs] by simp
    qed
  qed
qed

text \<open>The conversion at most doubles the size, so that every length stays encodable.\<close>

lemma length_der_tag_primitive:
  "length (der_tag (if b then tag AND NOT CBS_ASN1_CONSTRUCTED else tag)) = length (der_tag tag)"
proof -
  have "unat (tag AND NOT CBS_ASN1_CONSTRUCTED) mod 2 ^ 29 = unat tag mod 2 ^ 29"
  proof -
    have con: "CBS_ASN1_CONSTRUCTED = push_bit 29 1"
      by (simp add: CBS_ASN1_CONSTRUCTED_def CBS_ASN1_TAG_SHIFT_def)
    have "(tag AND NOT CBS_ASN1_CONSTRUCTED) AND mask 29 = tag AND mask 29"
    proof (rule bit_word_eqI)
      fix k assume "k < LENGTH(32)"
      show "bit ((tag AND NOT CBS_ASN1_CONSTRUCTED) AND mask 29) k = bit (tag AND mask 29) k"
        unfolding con bit_and_iff bit_not_iff bit_push_bit_iff bit_mask_iff by auto
    qed
    then have "unat ((tag AND NOT CBS_ASN1_CONSTRUCTED) AND mask 29) = unat (tag AND mask 29)" by simp
    then show ?thesis
      unfolding take_bit_eq_mask [symmetric] unsigned_take_bit_eq by (simp only: take_bit_eq_mod)
  qed
  then show ?thesis by (simp add: der_tag_def Let_def)
qed

lemma length_der_length_le: "length (der_length n) \<le> 5" "n < 128 \<Longrightarrow> length (der_length n) = 1"
  "n < 256 \<Longrightarrow> length (der_length n) \<le> 2"
  "128 \<le> n \<Longrightarrow> 2 \<le> length (der_length n)"
  by (simp_all add: der_length_def octets_def)

lemma length_der_element: "length (der_element tag b) = length (der_tag tag) + length (der_length (length b)) + length b"
  by (simp add: der_element_def der_header_def)

lemma any_ber_forms:
  assumes "CBS_get_any_ber_asn1_element s = (Some (el, tag, hl), s1)"
  shows "s = el @ s1 \<and>
    (if is_indefinite el hl then tag AND CBS_ASN1_CONSTRUCTED \<noteq> 0 \<and> el = der_tag tag @ [0x80]
     else el = der_element tag (drop hl el))"
proof -
  from assms have s: "s = el @ s1" and
    f: "(\<exists>body. length body < 2 ^ 32 \<and> el = der_element tag body \<and> hl = length (der_header tag (length body))) \<or>
      (tag AND CBS_ASN1_CONSTRUCTED \<noteq> 0 \<and> el = der_tag tag @ [0x80] \<and> hl = length el)"
    unfolding CBS_get_any_ber_asn1_element_def any_element_iff by auto
  from f show ?thesis
  proof
    assume "\<exists>body. length body < 2 ^ 32 \<and> el = der_element tag body \<and> hl = length (der_header tag (length body))"
    then obtain body where b: "el = der_element tag body" "hl = length (der_header tag (length body))" by blast
    then have d: "drop hl el = body" by (simp add: der_element_def)
    have "\<not> is_indefinite el hl"
    proof
      assume i: "is_indefinite el hl"
      then have "body = []" using b by (simp add: is_indefinite_def CBS_len_def der_element_def)
      then have "el = der_tag tag @ [0]" using b(1) by (simp add: der_element_def der_header_def der_length_def)
      moreover from this have "hl - 1 = length (der_tag tag)"
        using i by (auto simp: is_indefinite_def CBS_len_def)
      ultimately have "el ! (hl - 1) = 0" by simp
      with i show False by (simp add: is_indefinite_def CBS_data_def)
    qed
    with s b d show ?thesis by simp
  next
    assume g: "tag AND CBS_ASN1_CONSTRUCTED \<noteq> 0 \<and> el = der_tag tag @ [0x80] \<and> hl = length el"
    then have "is_indefinite el hl" by (simp add: is_indefinite_def CBS_len_def CBS_data_def)
    with g s show ?thesis by simp
  qed
qed

lemma ber_der_length:
  "ber_der n stag eoc depth s = Some (d, r) \<Longrightarrow>
   length d + 2 * length r + (if eoc then 4 else 0) \<le> 2 * length s"
proof (induction n arbitrary: stag eoc depth s d r)
  case 0
  then show ?case by simp
next
  case (Suc n)
  from Suc.prems show ?case
  proof (cases rule: ber_der_cases)
    case (eoc el tag hl)
    with any_element_shorter [of True s el tag hl r] show ?thesis
      by (simp add: CBS_get_any_ber_asn1_element_def is_eoc_def CBS_len_def)
  next
    case (element el tag hl s1 cstr ot ctag d1 s2 d2)
    note f = any_ber_forms [OF element(1)]
    have T: "length (der_tag ot) = length (der_tag tag)"
      unfolding element(7) by (rule length_der_tag_primitive)
    note L = length_der_length_le
    have "length (if stag \<noteq> 0 then d1 else der_element ot d1) + 2 * length s2 \<le> 2 * length s"
    proof (cases "is_indefinite el hl")
      case True
      with element(9) have "ber_der n ctag True (depth + 1) s1 = Some (d1, s2)" by (simp add: element_der_def)
      from Suc.IH [OF this] f True T L(1) [of "length d1"] length_der_length_pos [of "length d1"]
      show ?thesis by (auto simp: length_der_element)
    next
      case False
      have s: "length s = length (der_tag tag) + length (der_length (length (drop hl el))) + length (drop hl el) + length s1"
        using f False length_der_element [of tag "drop hl el"] by simp
      have "length d1 \<le> 2 * length (drop hl el)" "s2 = s1"
        using element(9) False by (auto simp: element_der_def split: if_splits dest!: Suc.IH)
      moreover have "length (der_length (length d1)) \<le> length (der_tag tag) + 2 * length (der_length (length (drop hl el)))"
        if "length d1 \<le> 2 * length (drop hl el)"
        using that L(1,2,3) [of "length d1"] L(2,4) [of "length (drop hl el)"] length_der_tag_pos [of tag]
        by (cases "length (drop hl el) < 128") auto
      ultimately show ?thesis using s T by (auto simp: length_der_element)
    qed
    with Suc.IH [OF element(10)] element(11) show ?thesis by simp
  qed auto
qed

end
