(* ===== verification/BER_Conversion.thy ===== *)
theory BER_Conversion
  imports BER
begin

text \<open>
  \<open>crypto/bytestring/ber.c\<close>, continued: what \<open>CBS_asn1_ber_to_der\<close> and
  \<open>CBS_get_asn1_implicit_string\<close> return. The conversion on a builder is a writer of the bytes
  that \<open>ber_der\<close> computes, and those bytes contain no BER-only encoding.
\<close>

section \<open>The conversion writes what \<open>ber_der\<close> computes\<close>

lemma element_contents_value:
  assumes "element_contents malloc n ctag depth el tag hl s1 t = (Some a, t')"
    and "element_der n ctag depth el tag hl s1 = Some (d, s2)"
  shows "a = s2"
  using assms
  by (auto simp: element_contents_def element_der_def returnR_def elim!: bindR_eq_SomeE
      split: if_splits dest!: convert_ber_value)

lemma bindR_value:
  assumes "\<And>a t t'. f t = (Some a, t') \<Longrightarrow> a = v"
  shows "bindR f g = bindR f (\<lambda>_. g v)"
  using assms by (intro bindR_cong_result) auto

lemma writer_bindR_value:
  assumes "writer malloc f d" "writer malloc (g v) e" "\<And>a t t'. f t = (Some a, t') \<Longrightarrow> a = v"
  shows "writer malloc (bindR f g) (d @ e)"
proof -
  have "bindR f g = bindR f (\<lambda>_. g v)" using assms(3) by (rule bindR_value)
  with writer_bindR [OF assms(1,2)] show ?thesis by simp
qed

lemma bytes_writer: "writer malloc (CBB_add_bytes malloc dat) dat"
  by (rule writer_appender) (rule add_bytes.appender_axioms)

lemma writer_then_flush:
  assumes "writer malloc g e" shows "writer malloc (bindR (CBB_flush malloc) (\<lambda>_. g)) e"
  using writer_bindR [OF writer_appender [OF flush.appender_axioms] assms] by simp

lemma writer_bindR_returnR:
  assumes "writer malloc f d" shows "writer malloc (bindR f (\<lambda>_. returnR a)) d"
  using writer_bindR [OF assms writer_returnR] by simp

lemma element_der_shorter:
  assumes "CBS_get_any_ber_asn1_element s = (Some (el, tag, hl), s1)"
    and "element_der n ctag depth el tag hl s1 = Some (d, s2)"
  shows "length d \<le> 2 * length s" "length s2 \<le> length s"
proof -
  note any_element_shorter [OF assms(1) [unfolded CBS_get_any_ber_asn1_element_def]]
  with assms(2) show "length d \<le> 2 * length s" "length s2 \<le> length s"
    by (auto simp: element_der_def split: if_splits dest!: ber_der_length)
qed

text \<open>The opened child of one turn of the loop, closed again by the flush that follows.\<close>

lemma element_writer:
  assumes "writer malloc (element_contents malloc n ctag depth el tag hl s1) d" "length d \<le> 0xfffffffe"
  shows "writer malloc (bindR (if stag \<noteq> 0 then returnR () else CBB_add_asn1 malloc ot) (\<lambda>_.
      on_contents stag (element_contents malloc n ctag depth el tag hl s1)))
    (if stag \<noteq> 0 then d else der_element ot d)"
proof (cases "stag = 0")
  case True
  have lp: "encoded_len True 1 (length d) = Some (der_length (length d))"
    using assms(2) by (simp add: encoded_len_def len_prefix_def)
  show ?thesis
    using writer_appender [OF appender_element [OF opener_add_asn1 filler_on_child_writer [OF assms(1)] lp]] True
    by (simp add: on_contents_def der_element_def der_header_def)
next
  case False
  with assms(1) show ?thesis by (simp add: on_contents_def)
qed

lemma convert_ber_writer:
  "ber_der n stag eoc depth s = Some (d, r) \<Longrightarrow> 2 * length s \<le> 0xfffffffe \<Longrightarrow>
   writer malloc (cbs_convert_ber malloc n stag eoc depth s) d"
proof (induction n arbitrary: stag eoc depth s d r)
  case 0
  then show ?case by simp
next
  case (Suc n)
  have dep: "\<not> depth > kMaxDepth" using Suc.prems(1) by (auto split: if_splits)
  from Suc.prems(1) show ?case
  proof (cases rule: ber_der_cases)
    case stop
    with dep show ?thesis by (simp add: writer_returnR CBS_len_def)
  next
    case (eoc el tag hl)
    then have "s \<noteq> []" using any_ber_shorter by fastforce
    with eoc dep show ?thesis by (simp add: writer_returnR CBS_len_def)
  next
    case (element el tag hl s1 cstr ot ctag d1 s2 d2)
    note sh = any_element_shorter [OF element(1) [unfolded CBS_get_any_ber_asn1_element_def]]
    note sh2 = element_der_shorter [OF element(1,9)]
    have "writer malloc (element_contents malloc n ctag depth el tag hl s1) d1"
      using element(9) sh Suc.prems(2)
      by (auto simp: element_der_def element_contents_def
          intro!: bytes_writer writer_bindR_returnR Suc.IH split: if_splits)
    from element_writer [OF this] sh2(1) Suc.prems(2)
    have 1: "writer malloc (bindR (if stag \<noteq> 0 then returnR () else CBB_add_asn1 malloc ot) (\<lambda>_.
        on_contents stag (element_contents malloc n ctag depth el tag hl s1)))
      (if stag \<noteq> 0 then d1 else der_element ot d1)" by simp
    have 2: "writer malloc (bindR (CBB_flush malloc) (\<lambda>_. cbs_convert_ber malloc n stag eoc depth s2)) d2"
      using Suc.IH [OF element(10)] sh2(2) Suc.prems(2) by (intro writer_then_flush) simp
    show ?thesis
      unfolding convert_ber_step [OF element(1-8)] bindR_assoc [symmetric] element(11)
      by (rule writer_bindR_value [OF 1, where v = s2 and e = d2])
        (use 2 in \<open>auto elim!: bindR_eq_SomeE on_contents_Some dest: element_contents_value [OF _ element(9)]\<close>)
  qed
qed

section \<open>DER in the sense of \<open>ber.c\<close>\<close>

text \<open>
  \<open>der_clean k s\<close>: \<open>s\<close> is a sequence of definite, minimally encoded elements, none of them a
  constructed string, with constructed elements nested at most \<open>k\<close> deep.
\<close>

inductive der_clean :: "nat \<Rightarrow> bytes \<Rightarrow> bool" where
  der_clean_Nil: "der_clean k []"
| der_clean_primitive: "tag AND CBS_ASN1_CONSTRUCTED = 0 \<Longrightarrow> length body < 2 ^ 32 \<Longrightarrow> der_clean k s \<Longrightarrow>
    der_clean k (der_element tag body @ s)"
| der_clean_constructed: "\<not> is_string_type tag \<Longrightarrow> length body < 2 ^ 32 \<Longrightarrow> der_clean k body \<Longrightarrow>
    der_clean (Suc k) s \<Longrightarrow> der_clean (Suc k) (der_element tag body @ s)"

inductive_cases der_clean_SucE: "der_clean (Suc k) s"

lemma cleared_constructed: "(tag AND NOT CBS_ASN1_CONSTRUCTED) AND CBS_ASN1_CONSTRUCTED = 0"
  by (rule bit_word_eqI) (simp add: bit_and_iff bit_not_iff)

lemma ber_der_depth: "ber_der n stag eoc depth s = Some r \<Longrightarrow> depth \<le> kMaxDepth"
  by (cases n) (auto split: if_splits)

lemma ber_der_clean:
  "ber_der n stag eoc depth s = Some (d, r) \<Longrightarrow> stag = 0 \<Longrightarrow> 2 * length s \<le> 0xfffffffe \<Longrightarrow>
   der_clean (kMaxDepth - depth) d"
proof (induction n arbitrary: stag eoc depth s d r)
  case 0
  then show ?case by simp
next
  case (Suc n)
  from Suc.prems(1) show ?case
  proof (cases rule: ber_der_cases)
    case (element el tag hl s1 cstr ot ctag d1 s2 d2)
    note sh = any_element_shorter [OF element(1) [unfolded CBS_get_any_ber_asn1_element_def]]
    note sh2 = element_der_shorter [OF element(1,9)]
    have d: "d = der_element ot d1 @ d2" using element(11) Suc.prems(2) by simp
    have len: "length d1 < 2 ^ 32" using sh2(1) Suc.prems(3) by simp
    have rest: "der_clean (kMaxDepth - depth) d2"
      using Suc.IH [OF element(10) Suc.prems(2)] sh2(2) Suc.prems(3) by simp
    show ?thesis
    proof (cases "ot AND CBS_ASN1_CONSTRUCTED = 0")
      case True
      then show ?thesis unfolding d using len rest by (rule der_clean_primitive)
    next
      case False
      then have ot: "ot = tag" "\<not> is_string_type tag" "tag AND CBS_ASN1_CONSTRUCTED \<noteq> 0" "ctag = 0"
        using element(6-8) Suc.prems(2) cleared_constructed [of tag] by (auto split: if_splits)
      from element(9) ot(3,4) obtain eoc' s0 r0 where
        body: "ber_der n 0 eoc' (depth + 1) s0 = Some (d1, r0)" "length s0 \<le> length s"
        using sh by (auto simp: element_der_def split: if_splits)
      from Suc.IH [OF body(1) refl] body(2) Suc.prems(3)
      have "der_clean (kMaxDepth - (depth + 1)) d1" by simp
      moreover from ber_der_depth [OF body(1)] have "kMaxDepth - depth = Suc (kMaxDepth - (depth + 1))" by simp
      ultimately show ?thesis
        unfolding d using ot(1,2) len rest by (simp add: der_clean_constructed)
    qed
  qed (simp_all add: der_clean_Nil)
qed

lemma definite_header: "\<not> is_indefinite (der_element tag body) (length (der_header tag (length body)))"
proof
  assume i: "is_indefinite (der_element tag body) (length (der_header tag (length body)))"
  then have "body = []" by (simp add: is_indefinite_def CBS_len_def der_element_def)
  with i show False
    by (simp add: is_indefinite_def CBS_data_def der_element_def der_header_def der_length_def)
qed

lemma any_ber_der_element:
  "length body < 2 ^ 32 \<Longrightarrow> CBS_get_any_ber_asn1_element (der_element tag body @ s) =
    (Some (der_element tag body, tag, length (der_header tag (length body))), s)"
  by (simp add: CBS_get_any_ber_asn1_element_def any_element_der)

lemma find_ber_primitive:
  assumes "length body < 2 ^ 32" "tag AND CBS_ASN1_CONSTRUCTED = 0"
  shows "find_ber_loop depth found (der_element tag body @ s) = find_ber_loop depth found s"
  using assms
  by (subst find_ber_loop.simps)
    (simp add: any_ber_der_element definite_header CBS_len_def length_der_element)

lemma find_ber_constructed:
  assumes "length body < 2 ^ 32" "\<not> is_string_type tag" "tag AND CBS_ASN1_CONSTRUCTED \<noteq> 0"
  shows "find_ber_loop depth found (der_element tag body @ s) =
    (if depth + 1 > kMaxDepth then None
     else case find_ber_loop (depth + 1) False body of
       None \<Rightarrow> None | Some found' \<Rightarrow> find_ber_loop depth found' s)"
  using assms
  by (subst find_ber_loop.simps)
    (simp add: any_ber_der_element definite_header CBS_len_def length_der_element skip_der_header)

lemma find_ber_clean:
  "der_clean k s \<Longrightarrow> depth + k \<le> kMaxDepth \<Longrightarrow> find_ber_loop depth False s = Some False"
proof (induction arbitrary: depth rule: der_clean.induct)
  case (der_clean_Nil k)
  show ?case by (subst find_ber_loop.simps) (simp add: CBS_len_def)
next
  case (der_clean_primitive tag body k s)
  then show ?case by (simp add: find_ber_primitive)
next
  case (der_clean_constructed tag body k s)
  then show ?case
    by (cases "tag AND CBS_ASN1_CONSTRUCTED = 0")
      (simp_all add: find_ber_primitive find_ber_constructed)
qed

lemma ber_der_all: "ber_der n stag eoc depth s = Some (d, r) \<Longrightarrow> \<not> eoc \<Longrightarrow> r = []"
proof (induction n arbitrary: s d)
  case (Suc n)
  from Suc.prems(1) show ?case
    by (cases rule: ber_der_cases) (use Suc in auto)
qed simp

section \<open>What BER encodes\<close>

text \<open>
  A specification of the conversion that does not follow the code: trees of elements, the BER
  encodings of a list of trees, in which a constructed element has a definite length or ends with the
  end-of-contents octets, and the DER encoding of a tree, in which the chunks of a
  constructed string are joined. Definite lengths are minimal, since the reader insists on it.
\<close>

datatype element = Primitive u32 bytes | Constructed u32 "element list"

definition constructed :: "u32 \<Rightarrow> bool" where
  "constructed tag \<longleftrightarrow> bit tag 29"

definition cleared :: "u32 \<Rightarrow> u32" where
  "cleared tag = unset_bit 29 tag"

definition string_tags :: "u32 list" where
  "string_tags = [3, 4, 12, 18, 19, 20, 21, 22, 25, 26, 27, 28, 30]"

inductive ber_encodes :: "element list \<Rightarrow> bytes \<Rightarrow> bool" where
  encodes_Nil: "ber_encodes [] []"
| encodes_primitive: "\<not> constructed tag \<Longrightarrow> length body < 2 ^ 32 \<Longrightarrow> der_element tag body \<noteq> [0, 0] \<Longrightarrow>
    ber_encodes ts s \<Longrightarrow> ber_encodes (Primitive tag body # ts) (der_element tag body @ s)"
| encodes_definite: "constructed tag \<Longrightarrow> ber_encodes us body \<Longrightarrow> length body < 2 ^ 32 \<Longrightarrow>
    ber_encodes ts s \<Longrightarrow> ber_encodes (Constructed tag us # ts) (der_element tag body @ s)"
| encodes_indefinite: "constructed tag \<Longrightarrow> ber_encodes us body \<Longrightarrow> ber_encodes ts s \<Longrightarrow>
    ber_encodes (Constructed tag us # ts) (der_tag tag @ [0x80] @ body @ [0, 0] @ s)"

text \<open>The contents of the chunks of a string, which all have the string's tag.\<close>

fun joined :: "element \<Rightarrow> bytes" where
  "joined (Primitive tag body) = body"
| "joined (Constructed tag us) = concat (map joined us)"

fun chunk_of :: "u32 \<Rightarrow> element \<Rightarrow> bool" where
  "chunk_of stag (Primitive tag body) \<longleftrightarrow> tag = stag"
| "chunk_of stag (Constructed tag us) \<longleftrightarrow> cleared tag = stag \<and> list_all (chunk_of stag) us"

fun strings_ok :: "element \<Rightarrow> bool" where
  "strings_ok (Primitive tag body) \<longleftrightarrow> True"
| "strings_ok (Constructed tag us) \<longleftrightarrow>
     (if cleared tag \<in> set string_tags then list_all (chunk_of (cleared tag)) us else list_all strings_ok us)"

fun der_of :: "element \<Rightarrow> bytes" where
  "der_of (Primitive tag body) = der_element tag body"
| "der_of (Constructed tag us) =
     (if cleared tag \<in> set string_tags then der_element (cleared tag) (concat (map joined us))
      else der_element tag (concat (map der_of us)))"

lemma tag_bits:
  "tag AND CBS_ASN1_CONSTRUCTED \<noteq> 0 \<longleftrightarrow> constructed tag"
  "tag AND NOT CBS_ASN1_CONSTRUCTED = cleared tag"
  "is_string_type tag \<longleftrightarrow> cleared tag \<in> set string_tags"
proof -
  have c: "CBS_ASN1_CONSTRUCTED = push_bit 29 1"
    by (simp add: CBS_ASN1_CONSTRUCTED_def CBS_ASN1_TAG_SHIFT_def)
  show "tag AND CBS_ASN1_CONSTRUCTED \<noteq> 0 \<longleftrightarrow> constructed tag"
    unfolding c constructed_def by (simp add: bit_iff_and_push_bit_not_eq_0)
  show e: "tag AND NOT CBS_ASN1_CONSTRUCTED = cleared tag"
    unfolding c cleared_def unset_bit_eq_and_not ..
  show "is_string_type tag \<longleftrightarrow> cleared tag \<in> set string_tags"
    by (simp add: is_string_type_def e string_tags_def)
qed

lemma string_tags_nonzero: "cleared tag \<in> set string_tags \<Longrightarrow> cleared tag \<noteq> 0"
  by (auto simp: string_tags_def)

lemma ber_der_trees:
  assumes "ber_der n stag eoc depth s = Some (d, r)" "2 * length s \<le> 0xfffffffe"
  shows "\<exists>ts b. ber_encodes ts b \<and> s = b @ (if eoc then [0, 0] else []) @ r \<and>
    (if stag = 0 then list_all strings_ok ts \<and> d = concat (map der_of ts)
     else list_all (chunk_of stag) ts \<and> d = concat (map joined ts))"
  using assms
proof (induction n arbitrary: stag eoc depth s d r)
  case (Suc n)
  from Suc.prems(1) show ?case
  proof (cases rule: ber_der_cases)
    case stop
    then show ?thesis using encodes_Nil by (intro exI [of _ "[]"]) simp
  next
    case (eoc el tag hl)
    have "s = el @ r" using any_ber_forms [OF eoc(1)] by simp
    moreover have "el = [0, 0]" using eoc(2) by (auto simp: is_eoc_def CBS_len_def CBS_data_def)
    ultimately show ?thesis using encodes_Nil eoc(3,4) by (intro exI [of _ "[]"]) simp
  next
    case (element el tag hl s1 cstr ot ctag d1 s2 d2)
    note sh = any_element_shorter [OF element(1) [unfolded CBS_get_any_ber_asn1_element_def]]
    note forms = any_ber_forms [OF element(1)]
    from element_der_shorter [OF element(1,9)] Suc.prems(2) have len: "2 * length s2 \<le> 0xfffffffe" by simp
    from Suc.IH [OF element(10) len] obtain ts b where rest: "ber_encodes ts b"
      "s2 = b @ (if eoc then [0, 0] else []) @ r"
      "if stag = 0 then list_all strings_ok ts \<and> d2 = concat (map der_of ts)
       else list_all (chunk_of stag) ts \<and> d2 = concat (map joined ts)" by blast
    note tags = element(5-8) [unfolded tag_bits]
    have "\<exists>t p. ber_encodes (t # ts) (p @ b) \<and> s = p @ s2 \<and>
      (if stag = 0 then strings_ok t \<and> der_element ot d1 = der_of t else chunk_of stag t \<and> d1 = joined t)"
    proof (cases "constructed tag")
      case False
      then have nc: "tag AND CBS_ASN1_CONSTRUCTED = 0" using tag_bits(1) [of tag] by simp
      then have ni: "\<not> is_indefinite el hl" using forms by (auto split: if_splits)
      with element(9) nc have d1: "d1 = drop hl el" "s2 = s1" by (auto simp: element_der_def)
      with forms ni have e: "el = der_element tag d1" "s = el @ s2" by simp_all
      have "el \<noteq> [0, 0]" using element(4) sh by (auto simp: is_eoc_def CBS_len_def CBS_data_def)
      moreover have "length d1 < 2 ^ 32" using d1(1) sh Suc.prems(2) by simp
      ultimately have "ber_encodes (Primitive tag d1 # ts) (der_element tag d1 @ b)"
        using False rest(1) e(1) by (intro encodes_primitive) simp_all
      moreover have "ot = tag" "stag \<noteq> 0 \<longrightarrow> tag = stag"
        using tags False by (auto simp: cleared_def constructed_def unset_bit_eq)
      ultimately show ?thesis using e by (intro exI [of _ "Primitive tag d1"] exI [of _ "der_element tag d1"]) simp
    next
      case True
      then have co: "tag AND CBS_ASN1_CONSTRUCTED \<noteq> 0" using tag_bits(1) [of tag] by simp
      obtain us p body where us: "ber_encodes us body" "length body < 2 ^ 32" "s = p @ s2"
        "p = der_element tag body \<or> p = der_tag tag @ [0x80] @ body @ [0, 0]"
        "if ctag = 0 then list_all strings_ok us \<and> d1 = concat (map der_of us)
         else list_all (chunk_of ctag) us \<and> d1 = concat (map joined us)"
      proof (cases "is_indefinite el hl")
        case ind: True
        with element(9) have b: "ber_der n ctag True (depth + 1) s1 = Some (d1, s2)" by (simp add: element_der_def)
        from Suc.IH [OF b] sh Suc.prems(2) obtain us body where "ber_encodes us body" "s1 = body @ [0, 0] @ s2"
          "if ctag = 0 then list_all strings_ok us \<and> d1 = concat (map der_of us)
           else list_all (chunk_of ctag) us \<and> d1 = concat (map joined us)" by auto
        moreover have "el = der_tag tag @ [0x80]" "s = el @ s1" using forms ind by simp_all
        moreover from this calculation(2) have "length body < 2 ^ 32" using Suc.prems(2) by simp
        ultimately show thesis by (intro that [of us body "der_tag tag @ [0x80] @ body @ [0, 0]"]) simp_all
      next
        case def: False
        with element(9) co obtain r' where b: "ber_der n ctag False (depth + 1) (drop hl el) = Some (d1, r')" "s2 = s1"
          by (auto simp: element_der_def)
        have "2 * length (drop hl el) \<le> 0xfffffffe" using sh Suc.prems(2) by simp
        from Suc.IH [OF b(1) this] ber_der_all [OF b(1)] obtain us where "ber_encodes us (drop hl el)"
          "if ctag = 0 then list_all strings_ok us \<and> d1 = concat (map der_of us)
           else list_all (chunk_of ctag) us \<and> d1 = concat (map joined us)" by auto
        moreover have "el = der_element tag (drop hl el)" "s = el @ s1" using forms def by simp_all
        moreover have "length (drop hl el) < 2 ^ 32" using sh Suc.prems(2) by simp
        ultimately show thesis using b(2) by (intro that [of us "drop hl el" "der_element tag (drop hl el)"]) simp_all
      qed
      have enc: "ber_encodes (Constructed tag us # ts) (p @ b)"
        using us(4) encodes_definite [OF True us(1,2) rest(1)] encodes_indefinite [OF True us(1) rest(1)] by auto
      have "if stag = 0 then strings_ok (Constructed tag us) \<and> der_element ot d1 = der_of (Constructed tag us)
        else chunk_of stag (Constructed tag us) \<and> d1 = joined (Constructed tag us)"
        using us(5) tags True string_tags_nonzero [of tag] by (auto split: if_splits)
      with enc us(3) show ?thesis by blast
    qed
    then obtain t p where t: "ber_encodes (t # ts) (p @ b)" "s = p @ s2"
      "if stag = 0 then strings_ok t \<and> der_element ot d1 = der_of t else chunk_of stag t \<and> d1 = joined t" by blast
    show ?thesis
      by (intro exI [of _ "t # ts"] exI [of _ "p @ b"]) (use t rest(2,3) element(11) in \<open>auto split: if_splits\<close>)
  qed
qed simp

section \<open>From the builder to the result\<close>

lemma built_write_succeeds:
  assumes st: "built st d" and wr: "writer malloc op e" and m: "malloc_ok malloc"
    and len: "fits (length e)" and room: "room malloc st n" "length d + length e \<le> n"
  obtains a st' where "op st = (Some a, st')" "built st' (d @ e)" "room malloc st' n"
proof -
  from st obtain b c where b: "st = (Some b, c)" "wf_buf b" "wf_cbb c (b_len b)" "\<not> b_error b"
    "closed c (contents b) = Some d"
    by (auto simp: built_def)
  have hold: "can_hold malloc b n" using room(1) b(1) by (simp add: room_def)
  then have hold': "can_hold malloc b (length d + length e)" using room(2) can_hold_le by blast
  obtain r st1 where eq: "op (Some b, c) = (r, st1)" by (rule prod.exhaust)
  show thesis
  proof (rule writer_cases [OF wr m len b(2-5) eq])
    fix a b' c'
    assume 1: "r = Some a" "st1 = (Some b', c')" "appended b c e b' c'"
    have "room malloc (Some b', c') n"
      using hold 1(3) can_hold_grows by (auto simp: room_def appended_def)
    with 1 eq built_write [OF st wr m len] b(1) that show thesis by blast
  qed (use hold' b(4,5) in \<open>auto simp: refused_def\<close>)
qed

lemma CBB_init_succeeds:
  assumes "malloc_ok malloc" "total_malloc malloc" "2 * (cap + n) + 8 < OBJECT_LIMIT"
  obtains st1 where "CBB_init malloc True cap st0 = (Some (), st1)" "built st1 []" "room malloc st1 n"
proof -
  have cap: "cap + 8 < SIZE_LIMIT" "cap + 8 < OBJECT_LIMIT" using assms(3) by simp_all
  have "OPENSSL_malloc malloc cap \<noteq> None" using total_OPENSSL_malloc [OF assms(2) cap(2)] .
  then obtain st1 where "CBB_init malloc True cap st0 = (Some (), st1)" "room malloc st1 n"
    using assms(2,3)
    by (auto simp: CBB_init_def cbb_init_def CBB_zero_def room_def can_hold_def Let_def)
  with CBB_init_built [OF assms(1) cap(1)] that show thesis by blast
qed

text \<open>A whole run: create, write, finish.\<close>

lemma write_run_succeeds:
  assumes m: "malloc_ok malloc" "total_malloc malloc" and len: "2 * (cap + length d) + 8 < OBJECT_LIMIT"
    and wr: "writer malloc op d"
  obtains st1 a st2 r st3 where "CBB_init malloc True cap st0 = (Some (), st1)" "op st1 = (Some a, st2)"
    "CBB_finish malloc True True st2 = (Some r, st3)" "finished_bytes r = d"
proof -
  obtain st1 where st1: "CBB_init malloc True cap st0 = (Some (), st1)" "built st1 []" "room malloc st1 (length d)"
    using len by (rule CBB_init_succeeds [OF m])
  have "fits (length d)" "length ([] :: bytes) + length d \<le> length d" using len by (simp_all add: fits_def)
  from built_write_succeeds [OF st1(2) wr m(1) this(1) st1(3) this(2)]
  obtain a st2 where st2: "op st1 = (Some a, st2)" "built st2 d" "room malloc st2 (length d)" by auto
  obtain r st3 where fin: "CBB_finish malloc True True st2 = (Some r, st3)"
    by (rule CBB_finish_succeeds [OF st2(2) m(1) st2(3)])
  with CBB_finish_bytes [OF st2(2) m(1) fin] st1(1) st2(1) that show thesis by blast
qed

lemma write_run_bytes:
  assumes "malloc_ok malloc" "cap + 8 < SIZE_LIMIT" "CBB_init malloc base_ok cap st0 = (Some (), st1)"
    and "writer malloc op d" "fits (length d)" "op st1 = (Some a, st2)"
    and "CBB_finish malloc want_data want_len st2 = (Some r, st3)"
  shows "finished_bytes r = d"
proof -
  have "built st2 ([] @ d)"
    using built_write [OF CBB_init_built [OF assms(1-3)] assms(4,1,5,6)] .
  from CBB_finish_bytes [OF this assms(1,7)] show ?thesis by simp
qed

definition ber_to_der :: "bytes \<Rightarrow> ((bytes \<times> bytes option) \<times> bytes) option" where
  "ber_to_der s =
     (case cbs_find_ber 0 s of
        None \<Rightarrow> None
      | Some False \<Rightarrow>
          (case CBS_get_any_asn1_element s of
             (None, _) \<Rightarrow> None
           | (Some (out, _, _), s') \<Rightarrow> Some ((out, None), s'))
      | Some True \<Rightarrow> map_option (\<lambda>(d, s'). ((d, Some d), s')) (ber_der (Suc (length s)) 0 False 0 s))"

declare cbs_convert_ber.simps(2) [simp del] and ber_der.simps(2) [simp del]

lemma bindR_fails: "(\<And>a t. f s \<noteq> (Some a, t)) \<Longrightarrow> fst (bindR f g s) = None"
  by (cases "f s"; cases "fst (f s)") auto

lemma bindR_fails_later: "(\<And>a t. fst (g a t) = None) \<Longrightarrow> fst (bindR f g s) = None"
  by (cases "f s"; cases "fst (f s)") auto

lemma ber_to_der_exact:
  assumes m: "malloc_ok malloc" "total_malloc malloc" and len: "2 * length s \<le> 0xfffffffe"
  shows "CBS_asn1_ber_to_der malloc True s = ber_to_der s"
proof (cases "cbs_find_ber 0 s = Some True")
  case True
  let ?conv = "cbs_convert_ber malloc (Suc (length s)) 0 False 0 s"
  show ?thesis
  proof (cases "ber_der (Suc (length s)) 0 False 0 s")
    case None
    then have "?conv st \<noteq> (Some a, t)" for st a t
      using convert_ber_value [of malloc "Suc (length s)" 0 False 0 s st a t] by (metis option.distinct(1))
    then have "fst (bindR (CBB_init malloc True (CBS_len s)) (\<lambda>_. bindR ?conv (\<lambda>s'.
        bindR (CBB_finish malloc True True) (\<lambda>r. returnR (finished_bytes r, s')))) CBB_zero) = None"
      by (intro bindR_fails_later bindR_fails)
    with True None show ?thesis
      by (auto simp: CBS_asn1_ber_to_der_def ber_to_der_def split: option.splits prod.splits)
  next
    case (Some dr)
    then obtain d s' where d: "ber_der (Suc (length s)) 0 False 0 s = Some (d, s')" by (cases dr) simp
    have "2 * (length s + length d) + 8 < OBJECT_LIMIT" using ber_der_length [OF d] len by simp
    from write_run_succeeds [OF m this convert_ber_writer [OF d len]]
    obtain st1 a st2 r st3 where run: "CBB_init malloc True (length s) CBB_zero = (Some (), st1)"
      "?conv st1 = (Some a, st2)" "CBB_finish malloc True True st2 = (Some r, st3)" "finished_bytes r = d"
      by blast
    from convert_ber_value [OF run(2)] d have "a = s'" by simp
    with run True d show ?thesis
      by (simp add: CBS_asn1_ber_to_der_def ber_to_der_def CBS_len_def returnR_def)
  qed
next
  case False
  then show ?thesis
    by (simp add: CBS_asn1_ber_to_der_def ber_to_der_def split: option.splits bool.splits)
qed

section \<open>What the conversion promises\<close>

text \<open>
  The builder-based conversion refines the pure function \<open>ber_to_der\<close>: with memory to spare it
  returns the same bytes, leaves the same input and fails on the same inputs.
\<close>

theorem CBS_asn1_ber_to_der_refines:
  assumes "malloc_ok malloc" "total_malloc malloc" "2 * length s \<le> 0xfffffffe"
  shows "CBS_asn1_ber_to_der malloc True s = ber_to_der s"
  using assms by (rule ber_to_der_exact)

theorem CBS_asn1_ber_to_der_refines_witness:
  "CBS_asn1_ber_to_der zero_heap True [0x30, 0x80, 0x24, 6, 4, 1, 7, 4, 1, 8, 0, 0] =
    Some (([0x30, 4, 4, 2, 7, 8], Some [0x30, 4, 4, 2, 7, 8]), [])"
proof -
  have 1: "2 * length [0x30, 0x80, 0x24, 6, 4, 1, 7, 4, 1, 8, 0, 0 :: u8] \<le> 0xfffffffe" by simp
  have "ber_to_der [0x30, 0x80, 0x24, 6, 4, 1, 7, 4, 1, 8, 0, 0] =
    Some (([0x30, 4, 4, 2, 7, 8], Some [0x30, 4, 4, 2, 7, 8]), [])" by code_simp
  then show ?thesis unfolding CBS_asn1_ber_to_der_refines [OF malloc_ok_zero_heap total_zero_heap 1] .
qed

lemma ber_to_der_converted:
  assumes m: "malloc_ok malloc" and len: "2 * length s \<le> 0xfffffffe"
    and run: "CBS_asn1_ber_to_der malloc base_ok s = Some ((out, Some storage), s')"
  shows "storage = out \<and> ber_der (Suc (length s)) 0 False 0 s = Some (out, s')"
proof -
  let ?conv = "cbs_convert_ber malloc (Suc (length s)) 0 False 0 s"
  from run have "fst (bindR (CBB_init malloc base_ok (CBS_len s)) (\<lambda>_. bindR ?conv (\<lambda>s'.
      bindR (CBB_finish malloc True True) (\<lambda>r. returnR (finished_bytes r, s')))) CBB_zero) =
      Some (out, s')" and st: "storage = out"
    by (auto simp: CBS_asn1_ber_to_der_def split: option.splits bool.splits prod.splits)
  then obtain st0 where "bindR (CBB_init malloc base_ok (CBS_len s)) (\<lambda>_. bindR ?conv (\<lambda>s'.
      bindR (CBB_finish malloc True True) (\<lambda>r. returnR (finished_bytes r, s')))) CBB_zero = (Some (out, s'), st0)"
    by (metis prod.collapse)
  then obtain st1 st2 st3 r where i: "CBB_init malloc base_ok (length s) CBB_zero = (Some (), st1)"
    and c: "?conv st1 = (Some s', st2)" and f: "CBB_finish malloc True True st2 = (Some r, st3)"
    and out: "out = finished_bytes r"
    by (auto simp: returnR_def CBS_len_def elim!: bindR_eq_SomeE)
  from convert_ber_value [OF c] obtain d where d: "ber_der (Suc (length s)) 0 False 0 s = Some (d, s')" by blast
  have "length s + 8 < SIZE_LIMIT" "fits (length d)"
    using len ber_der_length [OF d] by (simp_all add: fits_def)
  from write_run_bytes [OF m this(1) i convert_ber_writer [OF d len] this(2) c f] out d st
  show ?thesis by simp
qed

lemma cbs_find_ber_0: "cbs_find_ber 0 s = find_ber_loop 0 False s"
  by (simp add: cbs_find_ber_def CBS_init_def CBS_len_def)

text \<open>
  C15: whatever the allocator does, a converted result is the DER encoding of what the input
  encodes in BER: the input consists of elements, with definite lengths or with end-of-contents
  octets, and the result of their encodings with definite lengths, the chunks of every constructed
  string joined to one primitive string. So every length in it is definite and minimal, no string is
  constructed, and the check for BER finds nothing in it. The conversion always consumes all of the
  input, and at most doubles its size.
\<close>

theorem CBS_asn1_ber_to_der_clean:
  assumes "malloc_ok malloc" "2 * length s \<le> 0xfffffffe"
    and "CBS_asn1_ber_to_der malloc base_ok s = Some ((out, Some storage), s')"
  shows "(\<exists>ts. ber_encodes ts s \<and> list_all strings_ok ts \<and> out = concat (map der_of ts)) \<and>
    der_clean kMaxDepth out \<and> cbs_find_ber 0 out = Some False \<and> s' = [] \<and> length out \<le> 2 * length s"
proof -
  from ber_to_der_converted [OF assms] have d: "ber_der (Suc (length s)) 0 False 0 s = Some (out, s')" by simp
  from ber_der_clean [OF d refl assms(2)] have c: "der_clean kMaxDepth out" by simp
  from find_ber_clean [OF c, of 0] have f: "cbs_find_ber 0 out = Some False" by (simp add: cbs_find_ber_0)
  from ber_der_trees [OF d assms(2)] ber_der_all [OF d]
  have "\<exists>ts. ber_encodes ts s \<and> list_all strings_ok ts \<and> out = concat (map der_of ts)" by auto
  with c f ber_der_all [OF d] ber_der_length [OF d] show ?thesis by simp
qed

theorem CBS_asn1_ber_to_der_clean_witness:
  "der_clean kMaxDepth [4, 1, 1] \<and> cbs_find_ber 0 [4, 1, 1] = Some False"
proof -
  let ?s = "[0x24, 3, 4, 1, 1] :: bytes"
  have len: "2 * length ?s \<le> 0xfffffffe" by simp
  have "ber_to_der ?s = Some (([4, 1, 1], Some [4, 1, 1]), [])" by code_simp
  then have "CBS_asn1_ber_to_der zero_heap True ?s = Some (([4, 1, 1], Some [4, 1, 1]), [])"
    unfolding ber_to_der_exact [OF malloc_ok_zero_heap total_zero_heap len] .
  from CBS_asn1_ber_to_der_clean [OF malloc_ok_zero_heap len this] show ?thesis by blast
qed

text \<open>
  A BIT STRING begins with the number of its unused bits, and so does each of its chunks. Joining the chunks as
  they are keeps the octets of the later ones inside the contents: the two chunks AB and CD become
  AB 00 CD.
\<close>

lemma bit_string_chunks:
  "CBS_asn1_ber_to_der zero_heap True [0x23, 8, 3, 2, 0, 0xAB, 3, 2, 0, 0xCD] =
    Some (([3, 4, 0, 0xAB, 0, 0xCD], Some [3, 4, 0, 0xAB, 0, 0xCD]), [])"
proof -
  have len: "2 * length [0x23, 8, 3, 2, 0, 0xAB, 3, 2, 0, 0xCD :: u8] \<le> 0xfffffffe" by simp
  have "ber_to_der [0x23, 8, 3, 2, 0, 0xAB, 3, 2, 0, 0xCD] =
    Some (([3, 4, 0, 0xAB, 0, 0xCD], Some [3, 4, 0, 0xAB, 0, 0xCD]), [])" by code_simp
  then show ?thesis unfolding ber_to_der_exact [OF malloc_ok_zero_heap total_zero_heap len] .
qed

text \<open>
  Input that is DER already is not copied: the first element of the input is returned as it
  is, without allocating, and the input is advanced past it.
\<close>

theorem CBS_asn1_ber_to_der_keeps_der:
  assumes "der_clean kMaxDepth (der_element tag body @ s)" "length body < 2 ^ 32"
  shows "CBS_asn1_ber_to_der malloc base_ok (der_element tag body @ s) = Some ((der_element tag body, None), s)"
proof -
  have "cbs_find_ber 0 (der_element tag body @ s) = Some False"
    using find_ber_clean [OF assms(1), of 0] by (simp add: cbs_find_ber_0)
  then show ?thesis
    by (simp add: CBS_asn1_ber_to_der_def CBS_get_any_asn1_element_def any_element_der [OF assms(2)])
qed

theorem CBS_asn1_ber_to_der_keeps_der_witness:
  "CBS_asn1_ber_to_der (\<lambda>_. None) False [0x30, 2, 5, 0, 5, 0] = Some (([0x30, 2, 5, 0], None), [5, 0])"
proof -
  have t: "der_element 0x20000010 [5, 0] @ [5, 0] = [0x30, 2, 5, 0, 5, 0]"
    "der_element 0x20000010 [5, 0] = [0x30, 2, 5, 0]"
    "[5, 0] = der_element 5 [] @ []" by code_simp+
  have "(5 :: u32) AND CBS_ASN1_CONSTRUCTED = 0" "\<not> is_string_type 0x20000010" by code_simp+
  then have "der_clean k [5, 0]" for k
    unfolding t(3) by (intro der_clean_primitive der_clean_Nil) simp_all
  then have "der_clean (Suc (kMaxDepth - 1)) (der_element 0x20000010 [5, 0] @ [5, 0])"
    using \<open>\<not> is_string_type 0x20000010\<close> by (intro der_clean_constructed) simp_all
  then have "der_clean kMaxDepth (der_element 0x20000010 [5, 0] @ [5, 0])" by (simp add: kMaxDepth_def)
  from CBS_asn1_ber_to_der_keeps_der [OF this, of "\<lambda>_. None" False] show ?thesis unfolding t(1,2) by simp
qed

text \<open>
  The check for BER misses some. When a constructed string is found inside one element, the
  check of a later constructed sibling clears the finding again: the input below holds a
  constructed OCTET STRING, yet it is taken for DER and returned as it is, while the same
  elements in the other order are converted.
\<close>

theorem cbs_find_ber_forgets:
  "cbs_find_ber 0 [0x30, 9, 0x30, 5, 0x24, 3, 4, 1, 1, 0x30, 0] = Some False \<and>
   CBS_asn1_ber_to_der malloc True [0x30, 9, 0x30, 5, 0x24, 3, 4, 1, 1, 0x30, 0] =
     Some (([0x30, 9, 0x30, 5, 0x24, 3, 4, 1, 1, 0x30, 0], None), []) \<and>
   cbs_find_ber 0 [0x30, 9, 0x30, 0, 0x30, 5, 0x24, 3, 4, 1, 1] = Some True"
proof -
  have 1: "cbs_find_ber 0 [0x30, 9, 0x30, 5, 0x24, 3, 4, 1, 1, 0x30, 0] = Some False"
    "cbs_find_ber 0 [0x30, 9, 0x30, 0, 0x30, 5, 0x24, 3, 4, 1, 1] = Some True" by code_simp+
  have 2: "CBS_get_any_asn1_element [0x30, 9, 0x30, 5, 0x24, 3, 4, 1, 1, 0x30, 0] =
    (Some ([0x30, 9, 0x30, 5, 0x24, 3, 4, 1, 1, 0x30, 0], 0x20000010, 2), [])" by code_simp
  show ?thesis using 1 2 by (simp add: CBS_asn1_ber_to_der_def)
qed

section \<open>Implicitly tagged strings\<close>

definition chunk_elements :: "u32 \<Rightarrow> bytes list \<Rightarrow> bytes" where
  "chunk_elements tag chunks = concat (map (der_element tag) chunks)"

lemma chunk_elements_simps [simp]:
  "chunk_elements tag [] = []"
  "chunk_elements tag (c # cs) = der_element tag c @ chunk_elements tag cs"
  by (simp_all add: chunk_elements_def)

lemma length_concat_chunks: "length (concat chunks) \<le> length (chunk_elements tag chunks)"
  by (induction chunks) (simp_all add: length_der_element)

lemma implicit_chunks_loop_Nil: "implicit_chunks_loop malloc tag [] = returnR ()"
  by (subst implicit_chunks_loop.simps) (simp add: CBS_len_def)

lemma implicit_chunks_loop_Cons:
  "length c < 2 ^ 32 \<Longrightarrow> implicit_chunks_loop malloc tag (der_element tag c @ s) =
    bindR (CBB_add_bytes malloc c) (\<lambda>_. implicit_chunks_loop malloc tag s)"
  by (subst implicit_chunks_loop.simps)
    (simp add: CBS_get_asn1_iff [THEN iffD2] CBS_len_def CBS_data_def length_der_element)

lemma implicit_chunks_writer:
  "\<forall>c\<in>set chunks. length c < 2 ^ 32 \<Longrightarrow>
   writer malloc (implicit_chunks_loop malloc tag (chunk_elements tag chunks)) (concat chunks)"
  by (induction chunks)
    (simp_all add: implicit_chunks_loop_Nil implicit_chunks_loop_Cons writer_returnR bytes_writer writer_bindR)

lemma implicit_chunks_sound:
  "implicit_chunks_loop malloc tag s st = (Some u, st') \<Longrightarrow>
   \<exists>chunks. s = chunk_elements tag chunks \<and> (\<forall>c\<in>set chunks. length c < 2 ^ 32)"
proof (induction malloc tag s arbitrary: st rule: implicit_chunks_loop.induct)
  case (1 malloc tag s)
  show ?case
  proof (cases "s = []")
    case True
    then have "s = chunk_elements tag []" by simp
    then show ?thesis by fastforce
  next
    case False
    then obtain c s1 where c: "CBS_get_asn1 tag s = (Some c, s1)"
      using "1.prems" by (subst (asm) implicit_chunks_loop.simps)
        (auto simp: CBS_len_def failR_def split: option.splits prod.splits)
    then have s: "length c < 2 ^ 32" "s = der_element tag c @ s1" by (simp_all add: CBS_get_asn1_iff)
    from "1.prems" obtain st1 where "implicit_chunks_loop malloc tag s1 st1 = (Some u, st')"
      unfolding s(2) implicit_chunks_loop_Cons [OF s(1)] by (elim bindR_eq_SomeE)
    from "1.IH" [OF _ c [symmetric] refl this] False obtain chunks where
      "s1 = chunk_elements tag chunks" "\<forall>c\<in>set chunks. length c < 2 ^ 32"
      by (auto simp: CBS_len_def)
    with s have "s = chunk_elements tag (c # chunks)" "\<forall>c\<in>set (c # chunks). length c < 2 ^ 32" by simp_all
    then show ?thesis by blast
  qed
qed

lemma der_tag_unique: "der_tag t @ s = der_tag t' @ s' \<Longrightarrow> t = t' \<and> s = s'"
  using parse_asn1_tag_iff [of "der_tag t @ s" t s] parse_asn1_tag_iff [of "der_tag t @ s" t' s'] by simp

lemma der_element_tag: "der_element tag body @ s = der_tag tag @ der_length (length body) @ body @ s"
  by (simp add: der_element_def der_header_def)

lemma primitive_tag_differs: "tag AND CBS_ASN1_CONSTRUCTED = 0 \<Longrightarrow> tag OR CBS_ASN1_CONSTRUCTED \<noteq> tag"
proof
  assume a: "tag AND CBS_ASN1_CONSTRUCTED = 0" "tag OR CBS_ASN1_CONSTRUCTED = tag"
  have "tag AND CBS_ASN1_CONSTRUCTED = (tag OR CBS_ASN1_CONSTRUCTED) AND CBS_ASN1_CONSTRUCTED"
    unfolding a(2) ..
  also have "\<dots> = CBS_ASN1_CONSTRUCTED" by (simp add: bit.conj_disj_distrib2 bit_eq_iff)
  finally show False using a(1) by (simp add: CBS_ASN1_CONSTRUCTED_code)
qed

text \<open>
  C16: \<open>CBS_get_asn1_implicit_string\<close> accepts exactly a primitive element with the outer tag,
  whose contents it returns without allocating, and a constructed element with the outer tag
  made of primitive chunks with the inner tag, whose contents it returns joined together.
\<close>

theorem CBS_get_asn1_implicit_string_exact:
  assumes m: "malloc_ok malloc" "total_malloc malloc" and tag: "outer_tag AND CBS_ASN1_CONSTRUCTED = 0"
    and len: "4 * length s + 8 < OBJECT_LIMIT"
  shows "CBS_get_asn1_implicit_string malloc True outer_tag inner_tag s = (Some (out, storage), s') \<longleftrightarrow>
    (storage = None \<and> length out < 2 ^ 32 \<and> s = der_element outer_tag out @ s') \<or>
    (storage = Some out \<and> (\<exists>chunks. out = concat chunks \<and> (\<forall>c\<in>set chunks. length c < 2 ^ 32) \<and>
       length (chunk_elements inner_tag chunks) < 2 ^ 32 \<and>
       s = der_element (outer_tag OR CBS_ASN1_CONSTRUCTED) (chunk_elements inner_tag chunks) @ s'))"
proof (cases "CBS_peek_asn1_tag s outer_tag")
  case True
  then obtain t where "s = der_tag outer_tag @ t" by (auto simp: CBS_peek_asn1_tag_iff)
  then have "s \<noteq> der_element (outer_tag OR CBS_ASN1_CONSTRUCTED) body @ s'" for body
    using primitive_tag_differs [OF tag] by (auto simp: der_element_tag dest!: der_tag_unique)
  moreover from True have "CBS_get_asn1_implicit_string malloc True outer_tag inner_tag s = (Some (out, storage), s') \<longleftrightarrow>
      storage = None \<and> CBS_get_asn1 outer_tag s = (Some out, s')"
    by (auto simp: CBS_get_asn1_implicit_string_def split: option.splits prod.splits)
  ultimately show ?thesis by (auto simp: CBS_get_asn1_iff)
next
  case False
  let ?ctag = "outer_tag OR CBS_ASN1_CONSTRUCTED"
  have "s \<noteq> der_element outer_tag out @ s'"
    using False by (auto simp: CBS_peek_asn1_tag_iff der_element_tag)
  moreover have "CBS_get_asn1_implicit_string malloc True outer_tag inner_tag s = (Some (out, storage), s') \<longleftrightarrow>
    storage = Some out \<and> (\<exists>chunks. out = concat chunks \<and> (\<forall>c\<in>set chunks. length c < 2 ^ 32) \<and>
      CBS_get_asn1 ?ctag s = (Some (chunk_elements inner_tag chunks), s'))" (is "?L \<longleftrightarrow> ?R")
  proof
    have cap: "length s + 8 < SIZE_LIMIT" using len by simp
    have small: "fits (length (concat chunks))"
      if "CBS_get_asn1 ?ctag s = (Some (chunk_elements inner_tag chunks), s')" for chunks
      using that length_concat_chunks [of chunks inner_tag] by (simp add: CBS_get_asn1_iff fits_def)
    {
      assume ?L
      with False obtain st1 child r st2 where i: "CBB_init malloc True (length s) CBB_zero = (Some (), st1)"
        and child: "CBS_get_asn1 ?ctag s = (Some child, s')"
        and run: "bindR (implicit_chunks_loop malloc inner_tag child) (\<lambda>_. CBB_finish malloc True True) st1 = (Some r, st2)"
        and out: "out = finished_bytes r" "storage = Some out"
        by (auto simp: CBS_get_asn1_implicit_string_def CBS_len_def split: option.splits prod.splits)
      from run obtain st3 where 3: "implicit_chunks_loop malloc inner_tag child st1 = (Some (), st3)"
        "CBB_finish malloc True True st3 = (Some r, st2)" by (auto elim: bindR_eq_SomeE)
      from implicit_chunks_sound [OF 3(1)] obtain chunks where
        c: "child = chunk_elements inner_tag chunks" "\<forall>c\<in>set chunks. length c < 2 ^ 32" by blast
      from write_run_bytes [OF m(1) cap i implicit_chunks_writer [OF c(2)] small 3(1) [unfolded c(1)] 3(2)]
        out c child
      show ?R by blast
    next
      assume ?R
      then obtain chunks where c: "out = concat chunks" "storage = Some out" "\<forall>c\<in>set chunks. length c < 2 ^ 32"
        "CBS_get_asn1 ?ctag s = (Some (chunk_elements inner_tag chunks), s')" by blast
      have "length (concat chunks) \<le> length s"
        using length_concat_chunks [of chunks inner_tag] c(4) by (simp add: CBS_get_asn1_iff length_der_element)
      then have "2 * (length s + length (concat chunks)) + 8 < OBJECT_LIMIT" using len by simp
      from write_run_succeeds [OF m this implicit_chunks_writer [OF c(3)]]
      obtain st1 a st2 r st3 where "CBB_init malloc True (length s) CBB_zero = (Some (), st1)"
        "implicit_chunks_loop malloc inner_tag (chunk_elements inner_tag chunks) st1 = (Some a, st2)"
        "CBB_finish malloc True True st2 = (Some r, st3)" "finished_bytes r = concat chunks" by blast
      with False c show ?L by (simp add: CBS_get_asn1_implicit_string_def CBS_len_def)
    }
  qed
  ultimately show ?thesis by (auto simp: CBS_get_asn1_iff)
qed

theorem CBS_get_asn1_implicit_string_exact_witness:
  "CBS_get_asn1_implicit_string zero_heap True 0x80000000 4 [0xa0, 6, 4, 1, 7, 4, 1, 8, 9] =
    (Some ([7, 8], Some [7, 8]), [9])"
proof -
  have t: "(0x80000000 :: u32) AND CBS_ASN1_CONSTRUCTED = 0" by code_simp
  have l: "4 * length [0xa0, 6, 4, 1, 7, 4, 1, 8, 9 :: u8] + 8 < OBJECT_LIMIT" by simp
  have s: "[0xa0, 6, 4, 1, 7, 4, 1, 8, 9] =
    der_element (0x80000000 OR CBS_ASN1_CONSTRUCTED) (chunk_elements 4 [[7], [8]]) @ [9]" by code_simp
  show ?thesis
    unfolding CBS_get_asn1_implicit_string_exact [OF malloc_ok_zero_heap total_zero_heap t l]
    by (rule disjI2, intro conjI refl exI [of _ "[[7], [8]]"] s) (simp_all add: length_der_element der_length_def der_tag_def)
qed

end
