(* ===== verification/C_Library.thy ===== *)
theory C_Library
  imports Prelude "HOL-Library.Multiset"
begin

text \<open>
  What the code uses of the C library: \<open>memcmp\<close>, and \<open>qsort\<close> with a comparison function.
  The standard leaves the size of the result of \<open>memcmp\<close> and the order of equal elements
  after \<open>qsort\<close> open; here the result is -1, 0 or 1, and equal elements keep their order.
\<close>

fun memcmp :: "bytes \<Rightarrow> bytes \<Rightarrow> int" where
  "memcmp (a # as) (b # bs) = (if a = b then memcmp as bs else if a < b then - 1 else 1)"
| "memcmp _ _ = 0"

text \<open>\<open>OPENSSL_memcmp\<close> of \<open>crypto/internal.h\<close> compares \<open>n\<close> bytes, and none when \<open>n\<close> is 0.\<close>

definition OPENSSL_memcmp :: "bytes \<Rightarrow> bytes \<Rightarrow> nat \<Rightarrow> int" where
  "OPENSSL_memcmp s1 s2 n = (if n = 0 then 0 else memcmp (take n s1) (take n s2))"

fun insert_by :: "('a \<Rightarrow> 'a \<Rightarrow> int) \<Rightarrow> 'a \<Rightarrow> 'a list \<Rightarrow> 'a list" where
  "insert_by cmp x [] = [x]"
| "insert_by cmp x (y # ys) = (if cmp x y \<le> 0 then x # y # ys else y # insert_by cmp x ys)"

definition qsort :: "('a \<Rightarrow> 'a \<Rightarrow> int) \<Rightarrow> 'a list \<Rightarrow> 'a list" where
  "qsort cmp xs = foldr (insert_by cmp) xs []"

lemma qsort_simps [simp]: "qsort cmp [] = []" "qsort cmp (x # xs) = insert_by cmp x (qsort cmp xs)"
  by (simp_all add: qsort_def)

lemma mset_insert_by [simp]: "mset (insert_by cmp x ys) = add_mset x (mset ys)"
  by (induction ys) auto

lemma mset_qsort [simp]: "mset (qsort cmp xs) = mset xs"
  by (induction xs) simp_all

lemma set_insert_by [simp]: "set (insert_by cmp x ys) = insert x (set ys)"
  by (induction ys) auto

lemma set_qsort [simp]: "set (qsort cmp xs) = set xs"
  by (induction xs) simp_all

lemma length_qsort [simp]: "length (qsort cmp xs) = length xs"
  using mset_qsort [of cmp xs] by (metis size_mset)

section \<open>Consistent comparison functions\<close>

text \<open>
  What \<open>qsort\<close> and \<open>bsearch\<close> ask of a comparison function, on the values \<open>A\<close> that are compared:
  swapping the arguments swaps the sign, and being at most is transitive.
\<close>

locale comparator =
  fixes cmp :: "'a \<Rightarrow> 'a \<Rightarrow> int" and A :: "'a set"
  assumes swap: "a \<in> A \<Longrightarrow> b \<in> A \<Longrightarrow> cmp a b \<le> 0 \<longleftrightarrow> 0 \<le> cmp b a"
    and trans: "a \<in> A \<Longrightarrow> b \<in> A \<Longrightarrow> c \<in> A \<Longrightarrow> cmp a b \<le> 0 \<Longrightarrow> cmp b c \<le> 0 \<Longrightarrow> cmp a c \<le> 0"
begin

definition ordered :: "'a list \<Rightarrow> bool" where
  "ordered xs \<longleftrightarrow> sorted_wrt (\<lambda>a b. cmp a b \<le> 0) xs"

lemma refl: "a \<in> A \<Longrightarrow> cmp a a = 0"
  using swap [of a a] by linarith

lemma zero_sym: "a \<in> A \<Longrightarrow> b \<in> A \<Longrightarrow> cmp a b = 0 \<longleftrightarrow> cmp b a = 0"
  using swap [of a b] swap [of b a] by linarith

lemma less_trans: "a \<in> A \<Longrightarrow> b \<in> A \<Longrightarrow> c \<in> A \<Longrightarrow> cmp a b < 0 \<Longrightarrow> cmp b c \<le> 0 \<Longrightarrow> cmp a c < 0"
  using trans [of b c a] trans [of a b c] swap [of c a] swap [of b a] by force

lemma ordered_insert_by:
  "x \<in> A \<Longrightarrow> set ys \<subseteq> A \<Longrightarrow> ordered ys \<Longrightarrow> ordered (insert_by cmp x ys)"
proof (induction ys)
  case (Cons y ys)
  show ?case
  proof (cases "cmp x y \<le> 0")
    case True
    with Cons.prems show ?thesis by (auto simp: ordered_def intro: trans [of x y])
  next
    case False
    with Cons.prems have "cmp y x \<le> 0" using swap [of x y] swap [of y x] by auto
    with False Cons show ?thesis by (auto simp: ordered_def)
  qed
qed (simp add: ordered_def)

lemma ordered_qsort: "set xs \<subseteq> A \<Longrightarrow> ordered (qsort cmp xs)"
  by (induction xs) (simp_all add: ordered_def [of "[]"] ordered_insert_by)

text \<open>Insertion sort leaves a sorted list as it is.\<close>

lemma insert_by_ordered: "ordered (x # xs) \<Longrightarrow> insert_by cmp x xs = x # xs"
  by (cases xs) (simp_all add: ordered_def)

lemma qsort_ordered: "ordered xs \<Longrightarrow> qsort cmp xs = xs"
proof (induction xs)
  case (Cons x xs)
  from Cons.prems have "ordered xs" by (simp add: ordered_def)
  with Cons show ?case by (simp add: insert_by_ordered)
qed simp

end

section \<open>\<open>memcmp\<close> orders byte strings lexicographically\<close>

lemma memcmp_same [simp]: "memcmp a a = 0"
  by (induction a) simp_all

lemma memcmp_swap: "length a = length b \<Longrightarrow> memcmp b a = - memcmp a b"
  by (induction a b rule: list_induct2) auto

lemma memcmp_eq_0: "length a = length b \<Longrightarrow> memcmp a b = 0 \<longleftrightarrow> a = b"
  by (induction a b rule: list_induct2) auto

end
