(* ===== verification/CBB_SetOf.thy ===== *)
theory CBB_SetOf
  imports Documents C_Library
begin

text \<open>
  \<open>CBB_flush_asn1_set_of\<close> of \<open>crypto/bytestring/cbb.c\<close>: the elements written to a SET OF are put
  into the order DER asks for (X.690, section 11.6).
\<close>

section \<open>The code\<close>

definition compare_set_of_element :: "cbs \<Rightarrow> cbs \<Rightarrow> int" where
  "compare_set_of_element a b =
     (let a_len = CBS_len a; b_len = CBS_len b;
          min_len = (if a_len < b_len then a_len else b_len);
          ret = OPENSSL_memcmp (CBS_data a) (CBS_data b) min_len
      in if ret \<noteq> 0 then ret
         else if a_len = b_len then 0
         else if a_len < b_len then - 1 else 1)"

lemma CBS_get_any_asn1_element_shorter:
  "CBS_get_any_asn1_element s = (Some r, s') \<Longrightarrow> length s' < length s"
  by (cases r) (auto simp: CBS_get_any_asn1_element_def any_element_iff der_element_def der_header_def)

function count_children :: "cbs \<Rightarrow> nat option" where
  "count_children s =
     (if CBS_len s \<noteq> 0 then
        case CBS_get_any_asn1_element s of
          (None, _) \<Rightarrow> None
        | (Some _, s') \<Rightarrow> map_option Suc (count_children s')
      else Some 0)"
  by pat_completeness auto
termination
  by (relation "measure length") (auto dest!: CBS_get_any_asn1_element_shorter [OF sym])

declare count_children.simps [simp del]

primrec get_children :: "nat \<Rightarrow> cbs \<Rightarrow> cbs list option" where
  "get_children 0 s = Some []"
| "get_children (Suc n) s =
     (case CBS_get_any_asn1_element s of
        (None, _) \<Rightarrow> None
      | (Some (child, _, _), s') \<Rightarrow> map_option (Cons child) (get_children n s'))"

primrec add_children :: "allocator \<Rightarrow> cbs list \<Rightarrow> (cbb_state, unit) reader" where
  "add_children malloc [] = returnR ()"
| "add_children malloc (child # children) =
     bindR (CBB_add_bytes malloc (take (CBS_len child) (CBS_data child))) (\<lambda>_. add_children malloc children)"

definition sizeof_CBS :: nat where
  "sizeof_CBS = 16"

definition rewind :: "cbb_state \<Rightarrow> cbb_state" where
  "rewind st = (map_option (\<lambda>b. b\<lparr>b_len := c_offset (snd st) + c_pending_len_len (snd st)\<rparr>) (fst st), snd st)"

definition CBB_flush_asn1_set_of :: "allocator \<Rightarrow> (cbb_state, unit) reader" where
  "CBB_flush_asn1_set_of malloc = bindR (CBB_flush malloc) (\<lambda>_ st.
     case count_children (CBS_init (CBB_data st) (CBB_len st)) of
       None \<Rightarrow> (None, st)
     | Some num_children \<Rightarrow>
         if num_children < 2 then (Some (), st)
         else if num_children > (SIZE_LIMIT - 1) div sizeof_CBS then (None, st)
         else
           let buf_len = CBB_len st in
           case (OPENSSL_memdup malloc (CBB_data st) buf_len, OPENSSL_malloc malloc (num_children * sizeof_CBS)) of
             (Some buf, Some _) \<Rightarrow>
               (case get_children num_children (CBS_init buf buf_len) of
                  None \<Rightarrow> (None, st)
                | Some children \<Rightarrow> add_children malloc (qsort compare_set_of_element children) (rewind st))
           | _ \<Rightarrow> (None, st))"

section \<open>The order\<close>

lemma compare_set_of_simps:
  "compare_set_of_element [] [] = 0"
  "compare_set_of_element [] (b # bs) = - 1"
  "compare_set_of_element (a # as) [] = 1"
  "compare_set_of_element (a # as) (b # bs) =
     (if a = b then compare_set_of_element as bs else if a < b then - 1 else 1)"
  by (auto simp: compare_set_of_element_def OPENSSL_memcmp_def CBS_len_def CBS_data_def Let_def)

lemma compare_set_of_lexordp: "compare_set_of_element a b \<le> 0 \<longleftrightarrow> lexordp_eq a b"
  by (induction a b rule: list_induct2') (auto simp: compare_set_of_simps)

lemma compare_set_of_swap: "compare_set_of_element b a = - compare_set_of_element a b"
  by (induction a b rule: list_induct2') (auto simp: compare_set_of_simps)

interpretation set_of: comparator compare_set_of_element UNIV
proof
  fix a b c :: cbs
  show "compare_set_of_element a b \<le> 0 \<longleftrightarrow> 0 \<le> compare_set_of_element b a"
    using compare_set_of_swap [of a b] by simp
  assume "compare_set_of_element a b \<le> 0" "compare_set_of_element b c \<le> 0"
  then show "compare_set_of_element a c \<le> 0"
    unfolding compare_set_of_lexordp by (rule lexordp_eq_trans)
qed

section \<open>Splitting and writing back\<close>

lemma count_children_split:
  "count_children s = Some n \<Longrightarrow>
   \<exists>els. get_children n s = Some els \<and> length els = n \<and> s = concat els \<and>
     (\<forall>el\<in>set els. \<exists>tag body. length body < 2 ^ 32 \<and> el = der_element tag body)"
proof (induction s arbitrary: n rule: count_children.induct)
  case (1 s)
  show ?case
  proof (cases "s = []")
    case True
    with "1.prems" show ?thesis by (subst (asm) count_children.simps) (simp add: CBS_len_def)
  next
    case False
    with "1.prems" obtain el tag hl s' m where el: "CBS_get_any_asn1_element s = (Some (el, tag, hl), s')"
      and m: "count_children s' = Some m" "n = Suc m"
      by (subst (asm) count_children.simps) (auto simp: CBS_len_def split: option.splits prod.splits)
    from "1.IH" [OF _ el [symmetric] refl m(1)] False obtain els where
      els: "get_children m s' = Some els" "length els = m" "s' = concat els"
        "\<forall>el\<in>set els. \<exists>tag body. length body < 2 ^ 32 \<and> el = der_element tag body"
      by (auto simp: CBS_len_def)
    from el have "s = el @ s'" "\<exists>tag body. length body < 2 ^ 32 \<and> el = der_element tag body"
      by (auto simp: CBS_get_any_asn1_element_def any_element_iff)
    with els el m(2) show ?thesis by (intro exI [of _ "el # els"]) simp
  qed
qed

lemma add_children_writer: "writer malloc (add_children malloc els) (concat els)"
proof (induction els)
  case (Cons el els)
  have "writer malloc (CBB_add_bytes malloc el) el" by (rule writer_appender) (rule add_bytes.appender_axioms)
  from writer_bindR [OF this Cons] show ?case by (simp add: CBS_len_def CBS_data_def)
qed (simp add: writer_returnR)

lemma add_children_flat:
  "add_children malloc els (base, c) = (Some u, base', c') \<Longrightarrow> c_child c = None \<Longrightarrow>
   malloc_ok malloc \<Longrightarrow> base = Some b \<Longrightarrow> wf_buf b \<Longrightarrow> wf_cbb c (b_len b) \<Longrightarrow> fits (length (concat els)) \<Longrightarrow>
   c' = c \<and> (\<exists>b'. base' = Some b' \<and> contents b' = contents b @ concat els \<and> wf_buf b')"
proof (induction els arbitrary: base b)
  case Nil
  then show ?case by (auto simp: returnR_def)
next
  case (Cons el els)
  from Cons.prems(1) obtain st1 where 1: "CBB_add_bytes malloc el (Some b, c) = (Some (), st1)"
    "add_children malloc els st1 = (Some u, base', c')"
    using Cons.prems(4) by (auto simp: CBS_len_def CBS_data_def elim!: bindR_eq_SomeE)
  have len: "fits (length el)" "fits (length (concat els))" using Cons.prems(7) by (simp_all add: fits_def)
  have c: "set_child None c = c" using Cons.prems(2) by (rule set_child_same)
  show ?case
  proof (rule add_bytes.flat_cases [OF Cons.prems(3,5,6) len(1) 1(1)])
    fix a b1 cs
    assume 2: "st1 = (Some b1, set_child None c)" "appended b c el b1 (set_child None c)"
      "closed c (contents b) = Some cs" "contents b1 = cs @ el"
    have cs: "cs = contents b" using 2(3) closed_flat [OF Cons.prems(2)] by simp
    have "wf_buf b1" "wf_cbb c (b_len b1)" using 2(2) c by (simp_all add: appended_def)
    from Cons.IH [OF _ Cons.prems(2,3) refl this len(2)] 1(2) 2(1,4) c cs show ?case by simp
  qed simp
qed

section \<open>What flushing a SET OF promises\<close>

lemma CBB_data_contents:
  assumes "wf_buf b" "wf_cbb c (b_len b)"
  shows "take (CBB_len (Some b, c)) (CBB_data (Some b, c)) = drop (base_of c) (contents b)"
  using wf_cbb_base [OF assms(2)]
  by (simp add: CBB_len_def CBB_data_def contents_def base_of_def drop_take add.commute)

lemma length_CBB_data:
  assumes "wf_buf b" "wf_cbb c (b_len b)"
  shows "CBB_len (Some b, c) \<le> length (CBB_data (Some b, c))" "CBB_len (Some b, c) + 8 < OBJECT_LIMIT"
  using assms(1) by (auto simp: CBB_len_def CBB_data_def wf_buf_def intro: diff_le_mono)

lemma set_of_rewrite:
  assumes m: "malloc_ok malloc" and w: "wf_buf b" "wf_cbb c (b_len b)" "c_child c = None"
    and body: "drop (base_of c) (contents b) = concat els"
    and run: "add_children malloc (qsort compare_set_of_element els) (rewind (Some b, c)) = (Some u, st')"
  shows "\<exists>b'. st' = (Some b', c) \<and>
    contents b' = take (base_of c) (contents b) @ concat (qsort compare_set_of_element els)"
proof -
  let ?b = "b\<lparr>b_len := base_of c\<rparr>"
  obtain base' c' where st': "st' = (base', c')" by (rule prod.exhaust)
  have le: "base_of c \<le> b_len b" using wf_cbb_base [OF w(2)] .
  have rw: "rewind (Some b, c) = (Some ?b, c)" by (simp add: rewind_def base_of_def)
  have wb: "wf_buf ?b" using w(1) le by (simp add: wf_buf_def blk_def)
  have wc: "wf_cbb c (b_len ?b)" using w(2,3) by (cases c) (simp add: base_of_def)
  have ct: "contents ?b = take (base_of c) (contents b)" using le by (simp add: contents_def blk_def min_def)
  have "length (concat (qsort compare_set_of_element els)) = length (concat els)"
    by (simp add: length_concat comp_def flip: sum_mset_sum_list)
  also have "\<dots> < OBJECT_LIMIT"
    unfolding body [symmetric] using w(1) by (auto simp: wf_buf_def)
  finally have "fits (length (concat (qsort compare_set_of_element els)))" by (simp add: fits_def)
  from add_children_flat [OF run [unfolded rw st'] w(3) m refl wb wc this] ct st' show ?thesis by auto
qed

lemma sorted_short: "length els < 2 \<Longrightarrow> sorted_wrt P els"
  by (cases els) auto

text \<open>
  C17: when flushing a SET OF succeeds, what was written to it was a sequence of DER elements,
  and the SET OF now holds the same elements, each as often as before, in ascending
  lexicographic order of their encodings; nothing before them has changed.
\<close>

theorem CBB_flush_asn1_set_of_sorts:
  assumes m: "malloc_ok malloc" and w: "wf_buf b" "wf_cbb c (b_len b)"
    and run: "CBB_flush_asn1_set_of malloc (Some b, c) = (Some (), st')"
  shows "\<exists>b' cs els els'. st' = (Some b', set_child None c) \<and> closed c (contents b) = Some cs \<and>
    drop (base_of c) cs = concat els \<and> (\<forall>el\<in>set els. \<exists>tag body. el = der_element tag body) \<and>
    mset els' = mset els \<and> sorted_wrt lexordp_eq els' \<and>
    contents b' = take (base_of c) cs @ concat els'"
proof -
  have len0: "fits (length ([] :: bytes))" by (simp add: fits_def)
  let ?c = "set_child None c"
  obtain r st where fl: "CBB_flush malloc (Some b, c) = (r, st)" by (rule prod.exhaust)
  show ?thesis
  proof (rule flush.flat_cases [OF m w len0 fl])
    fix a b1 cs
    assume f: "r = Some a" "st = (Some b1, ?c)" "appended b c [] b1 ?c" "closed c (contents b) = Some cs"
      "contents b1 = cs @ []"
    then have w1: "wf_buf b1" "wf_cbb ?c (b_len b1)" by (simp_all add: appended_def)
    have bs: "base_of ?c = base_of c" by (simp add: base_of_def set_child_def)
    let ?st = "(Some b1, ?c)"
    define n where "n = CBB_len ?st"
    have dat: "CBS_init (CBB_data ?st) n = drop (base_of c) cs"
      using CBB_data_contents [OF w1] f(5) bs by (simp add: CBS_init_def n_def)
    from run fl f(1,2) obtain k where k: "count_children (drop (base_of c) cs) = Some k"
      by (auto simp: CBB_flush_asn1_set_of_def dat [unfolded n_def] split: option.splits)
    from count_children_split [OF k] obtain els where els: "get_children k (drop (base_of c) cs) = Some els"
      "length els = k" "drop (base_of c) cs = concat els"
      "\<forall>el\<in>set els. \<exists>tag body. length body < 2 ^ 32 \<and> el = der_element tag body" by blast
    have der: "\<forall>el\<in>set els. \<exists>tag body. el = der_element tag body" using els(4) by blast
    show ?thesis
    proof (cases "k < 2")
      case True
      then have "st' = ?st" using run fl f(1,2) k by (simp add: CBB_flush_asn1_set_of_def dat [unfolded n_def])
      moreover have "sorted_wrt lexordp_eq els" using True els(2) by (simp add: sorted_short)
      moreover have "cs = take (base_of c) cs @ concat els" using els(3) by (metis append_take_drop_id)
      ultimately show ?thesis using f(4,5) els(3) der
        by (intro exI [of _ b1] exI [of _ cs] exI [of _ els]) auto
    next
      case False
      from run fl f(1,2) k False obtain buf q where dup: "OPENSSL_memdup malloc (CBB_data ?st) n = Some buf"
        and rest: "(case get_children k (CBS_init buf n) of None \<Rightarrow> (None, ?st)
          | Some children \<Rightarrow> add_children malloc (qsort compare_set_of_element children) (rewind ?st)) = (Some (), st')"
        by (auto simp: CBB_flush_asn1_set_of_def dat [unfolded n_def] n_def Let_def
            split: if_splits option.splits)
      have "CBS_init buf n = take n (CBB_data ?st)"
      proof -
        have L: "n \<le> length (CBB_data ?st)" "n + 8 < OBJECT_LIMIT"
          unfolding n_def by (rule length_CBB_data [OF w1])+
        from dup obtain ret where "0 < n" "OPENSSL_malloc malloc n = Some ret"
          "buf = store_at ret 0 (take n (CBB_data ?st))"
          by (auto simp: OPENSSL_memdup_def split: if_splits option.splits)
        then show ?thesis using L by (simp add: store_at_def CBS_init_def)
      qed
      then have "CBS_init buf n = drop (base_of c) cs" using dat by (simp add: CBS_init_def)
      with rest els(1) have add: "add_children malloc (qsort compare_set_of_element els) (rewind ?st) = (Some (), st')"
        by simp
      have "c_child ?c = None" "drop (base_of ?c) (contents b1) = concat els" using f(5) els(3) bs by simp_all
      from set_of_rewrite [OF m w1 this add] obtain b' where
        "st' = (Some b', ?c)" "contents b' = take (base_of c) cs @ concat (qsort compare_set_of_element els)"
        using f(5) bs by auto
      moreover have "sorted_wrt lexordp_eq (qsort compare_set_of_element els)"
        using set_of.ordered_qsort [of els] by (simp add: set_of.ordered_def compare_set_of_lexordp)
      ultimately show ?thesis using f(4) els(3) der mset_qsort [of compare_set_of_element els] by blast
    qed
  qed (use run fl in \<open>simp add: CBB_flush_asn1_set_of_def\<close>)
qed

definition set_of_buffer :: "bytes \<Rightarrow> cbb_buffer" where
  "set_of_buffer bs =
     \<lparr>b_buf = Some bs, b_len = length bs, b_cap = length bs, b_can_resize = False, b_error = False\<rparr>"

theorem CBB_flush_asn1_set_of_sorts_witness:
  "\<exists>els els' :: bytes list. concat els = [2, 1, 9, 5, 0, 2, 1, 3] \<and> mset els' = mset els \<and> sorted_wrt lexordp_eq els' \<and>
     concat els' = [2, 1, 3, 2, 1, 9, 5, 0]"
proof -
  let ?b = "set_of_buffer [2, 1, 9, 5, 0, 2, 1, 3]" and ?c = "CBB None 0 0 False False"
  have w: "wf_buf ?b" "wf_cbb ?c (b_len ?b)" "contents ?b = [2, 1, 9, 5, 0, 2, 1, 3]"
    by (simp_all add: wf_buf_def blk_def contents_def set_of_buffer_def)
  have "CBB_flush_asn1_set_of zero_heap (Some ?b, ?c) =
    (Some (), Some (set_of_buffer [2, 1, 3, 2, 1, 9, 5, 0]), ?c)" by code_simp
  from CBB_flush_asn1_set_of_sorts [OF malloc_ok_zero_heap w(1,2) this]
  obtain els els' :: "bytes list" where "[2, 1, 9, 5, 0, 2, 1, 3] = concat els" "mset els' = mset els"
    "sorted_wrt lexordp_eq els'" "[2, 1, 3, 2, 1, 9, 5, 0] = concat els'"
    by (auto simp: w(3) base_of_def) (auto simp: contents_def blk_def set_of_buffer_def)
  then show ?thesis by (metis)
qed

end
