(* ===== verification/Buf.thy ===== *)
theory Buf
  imports Mem
begin

text \<open>
  \<open>crypto/buf/buf.c\<close>: the growable byte buffer \<open>BUF_MEM\<close>. Failing operations push an error on
  the error queue, which is not modelled, and return 0.
\<close>

section \<open>The code\<close>

record buf_mem =
  m_length :: nat
  m_data :: "bytes option"
  m_max :: nat

definition sizeof_BUF_MEM :: nat where
  "sizeof_BUF_MEM = 24"

definition BUF_MEM_new :: "allocator \<Rightarrow> buf_mem option" where
  "BUF_MEM_new malloc =
     (case OPENSSL_malloc malloc sizeof_BUF_MEM of
        None \<Rightarrow> None
      | Some _ \<Rightarrow> Some \<lparr>m_length = 0, m_data = None, m_max = 0\<rparr>)"

definition BUF_MEM_reserve :: "allocator \<Rightarrow> nat \<Rightarrow> (buf_mem, unit) reader" where
  "BUF_MEM_reserve malloc cap buf =
     (if m_max buf \<ge> cap then (Some (), buf)
      else
        let n = (cap + 3) mod SIZE_LIMIT in
        if n < cap then (None, buf)
        else
          let n = n div 3; alloc_size = n * 4 mod SIZE_LIMIT in
          if alloc_size div 4 \<noteq> n then (None, buf)
          else case OPENSSL_realloc malloc (m_data buf) alloc_size of
                 None \<Rightarrow> (None, buf)
               | Some new_buf \<Rightarrow> (Some (), buf\<lparr>m_data := Some new_buf, m_max := alloc_size\<rparr>))"

text \<open>A store into the data block from index \<open>i\<close> on.\<close>

definition buf_store :: "nat \<Rightarrow> bytes \<Rightarrow> buf_mem \<Rightarrow> buf_mem" where
  "buf_store i bs buf = buf\<lparr>m_data := map_option (\<lambda>p. store_at p i bs) (m_data buf)\<rparr>"

text \<open>\<open>BUF_MEM_grow\<close> returns the new length, and 0 when it fails.\<close>

definition BUF_MEM_grow :: "allocator \<Rightarrow> nat \<Rightarrow> buf_mem \<Rightarrow> nat \<times> buf_mem" where
  "BUF_MEM_grow malloc len buf =
     (case BUF_MEM_reserve malloc len buf of
        (None, buf) \<Rightarrow> (0, buf)
      | (Some _, buf) \<Rightarrow>
          let buf = (if m_length buf < len
                     then buf_store (m_length buf) (replicate (len - m_length buf) 0) buf else buf)
          in (len, buf\<lparr>m_length := len\<rparr>))"

definition BUF_MEM_grow_clean :: "allocator \<Rightarrow> nat \<Rightarrow> buf_mem \<Rightarrow> nat \<times> buf_mem" where
  "BUF_MEM_grow_clean malloc len buf = BUF_MEM_grow malloc len buf"

definition BUF_MEM_append :: "allocator \<Rightarrow> bytes \<Rightarrow> nat \<Rightarrow> (buf_mem, unit) reader" where
  "BUF_MEM_append malloc inp len buf =
     (if len = 0 then (Some (), buf)
      else
        let new_len = (m_length buf + len) mod SIZE_LIMIT in
        if new_len < len then (None, buf)
        else case BUF_MEM_reserve malloc new_len buf of
               (None, buf) \<Rightarrow> (None, buf)
             | (Some _, buf) \<Rightarrow>
                 (Some (), (buf_store (m_length buf) (take len inp) buf)\<lparr>m_length := new_len\<rparr>))"

definition BUF_strdup :: "allocator \<Rightarrow> bytes option \<Rightarrow> bytes option" where
  "BUF_strdup malloc str = OPENSSL_strdup malloc str"

definition BUF_strnlen :: "bytes \<Rightarrow> nat \<Rightarrow> nat option" where
  "BUF_strnlen str max_len = OPENSSL_strnlen str max_len"

definition BUF_strndup :: "allocator \<Rightarrow> bytes option \<Rightarrow> nat \<Rightarrow> bytes option" where
  "BUF_strndup malloc str sz = OPENSSL_strndup malloc str sz"

definition BUF_strlcpy :: "bytes \<Rightarrow> bytes \<Rightarrow> nat \<Rightarrow> (nat \<times> bytes) option" where
  "BUF_strlcpy dst src dst_size = OPENSSL_strlcpy dst src dst_size"

definition BUF_strlcat :: "bytes \<Rightarrow> bytes \<Rightarrow> nat \<Rightarrow> (nat \<times> bytes) option" where
  "BUF_strlcat dst src dst_size = OPENSSL_strlcat dst src dst_size"

definition BUF_memdup :: "allocator \<Rightarrow> bytes \<Rightarrow> nat \<Rightarrow> bytes option" where
  "BUF_memdup malloc dat sz = OPENSSL_memdup malloc dat sz"

section \<open>The invariant\<close>

definition buf_block :: "buf_mem \<Rightarrow> bytes" where
  "buf_block buf = (case m_data buf of None \<Rightarrow> [] | Some p \<Rightarrow> p)"

definition buf_bytes :: "buf_mem \<Rightarrow> bytes" where
  "buf_bytes buf = take (m_length buf) (buf_block buf)"

definition buf_ok :: "buf_mem \<Rightarrow> bool" where
  "buf_ok buf \<longleftrightarrow> length (buf_block buf) = m_max buf \<and> m_length buf \<le> m_max buf \<and> m_max buf + 8 < OBJECT_LIMIT"

lemma length_buf_bytes [simp]: "buf_ok buf \<Longrightarrow> length (buf_bytes buf) = m_length buf"
  by (simp add: buf_ok_def buf_bytes_def)

lemma BUF_MEM_new_ok: "BUF_MEM_new malloc = Some buf \<Longrightarrow> buf_ok buf \<and> buf_bytes buf = []"
  by (auto simp: BUF_MEM_new_def buf_ok_def buf_bytes_def buf_block_def split: option.splits)

text \<open>
  Below the size limit of a C object nothing wraps around: at least \<open>cap\<close> bytes are reserved,
  and at most a third more.
\<close>

lemma reserve_eq:
  assumes "cap < OBJECT_LIMIT"
  shows "BUF_MEM_reserve malloc cap buf =
    (if m_max buf \<ge> cap then (Some (), buf)
     else case OPENSSL_realloc malloc (m_data buf) ((cap + 3) div 3 * 4) of
            None \<Rightarrow> (None, buf)
          | Some p \<Rightarrow> (Some (), buf\<lparr>m_data := Some p, m_max := (cap + 3) div 3 * 4\<rparr>))"
proof -
  have "(cap + 3) mod SIZE_LIMIT = cap + 3" using assms by simp
  moreover have "(cap + 3) div 3 * 4 < SIZE_LIMIT" using assms by simp
  then have "(cap + 3) div 3 * 4 mod SIZE_LIMIT = (cap + 3) div 3 * 4" by (rule mod_less)
  ultimately show ?thesis unfolding BUF_MEM_reserve_def Let_def by (simp only: if_False) simp
qed

lemma realloc_block:
  assumes m: "malloc_ok malloc" and sz: "sz + 8 < SIZE_LIMIT" "length (buf_block buf) \<le> sz"
    and p: "OPENSSL_realloc malloc (m_data buf) sz = Some p"
  shows "length p = sz \<and> take (length (buf_block buf)) p = buf_block buf \<and> sz + 8 < OBJECT_LIMIT"
proof (cases "m_data buf")
  case None
  with p have "OPENSSL_malloc malloc sz = Some p" by (simp add: OPENSSL_realloc_def)
  from OPENSSL_malloc_length [OF m sz(1) this] None show ?thesis by (simp add: buf_block_def)
next
  case (Some old)
  with OPENSSL_realloc_keeps [OF m sz(1), of old p] p sz(2) show ?thesis by (simp add: buf_block_def)
qed

lemma reserve_cases:
  assumes m: "malloc_ok malloc" and ok: "buf_ok buf" and cap: "cap < OBJECT_LIMIT"
    and run: "BUF_MEM_reserve malloc cap buf = (r, buf')"
  obtains (succ) "r = Some ()" "buf_ok buf'" "m_length buf' = m_length buf" "buf_bytes buf' = buf_bytes buf"
      "cap \<le> m_max buf'" "m_max buf' \<le> max (m_max buf) (4 * (cap + 3) div 3)"
  | (fail) "r = None" "buf' = buf" "m_max buf < cap"
proof (cases "m_max buf \<ge> cap")
  case True
  with run have "r = Some ()" "buf' = buf" by (simp_all add: BUF_MEM_reserve_def)
  with True ok that(1) show thesis by simp
next
  case False
  let ?sz = "(cap + 3) div 3 * 4"
  show thesis
  proof (cases "OPENSSL_realloc malloc (m_data buf) ?sz")
    case None
    with run False that(2) show thesis by (simp add: reserve_eq [OF cap])
  next
    case (Some p)
    have sz: "?sz + 8 < SIZE_LIMIT" "length (buf_block buf) \<le> ?sz" "cap \<le> ?sz" "?sz \<le> 4 * (cap + 3) div 3"
      using False ok cap by (simp_all add: buf_ok_def)
    from realloc_block [OF m sz(1,2) Some] have p: "length p = ?sz" "?sz + 8 < OBJECT_LIMIT"
      "take (length (buf_block buf)) p = buf_block buf" by simp_all
    have buf': "r = Some ()" "buf' = buf\<lparr>m_data := Some p, m_max := ?sz\<rparr>"
      using run False Some by (simp_all add: reserve_eq [OF cap])
    have "take (m_length buf) p = take (m_length buf) (take (length (buf_block buf)) p)"
      using ok by (simp add: buf_ok_def min_def)
    then have "buf_bytes buf' = buf_bytes buf" unfolding p(3) by (simp add: buf' buf_bytes_def buf_block_def)
    moreover have "buf_ok buf'"
      using p(1,2) sz(2) ok by (auto simp: buf' buf_ok_def buf_block_def)
    ultimately show thesis using buf'(1) sz(3,4) that(1) by (simp add: buf'(2))
  qed
qed

lemma buf_store_end:
  assumes "buf_ok buf" "m_length buf + length bs \<le> m_max buf"
  shows "buf_ok ((buf_store (m_length buf) bs buf)\<lparr>m_length := m_length buf + length bs\<rparr>)"
    and "buf_bytes ((buf_store (m_length buf) bs buf)\<lparr>m_length := m_length buf + length bs\<rparr>) = buf_bytes buf @ bs"
  using assms
  by (cases "m_data buf"; simp add: buf_ok_def buf_bytes_def buf_block_def buf_store_def store_at_def)+

lemma buf_store_simps [simp]:
  "m_length (buf_store i bs buf) = m_length buf" "m_max (buf_store i bs buf) = m_max buf"
  by (simp_all add: buf_store_def)

section \<open>Append as an interface\<close>

text \<open>
  What a client relies on that writes chunk after chunk: an append adds its bytes to the end,
  or fails and changes nothing.
\<close>

locale byte_sink =
  fixes put :: "bytes \<Rightarrow> ('s, unit) reader" and ok :: "'s \<Rightarrow> bool" and bytes_of :: "'s \<Rightarrow> bytes"
  assumes put_done: "ok s \<Longrightarrow> length (bytes_of s) + length d < OBJECT_LIMIT \<Longrightarrow> put d s = (Some (), s') \<Longrightarrow>
      ok s' \<and> bytes_of s' = bytes_of s @ d"
    and put_failed: "ok s \<Longrightarrow> length (bytes_of s) + length d < OBJECT_LIMIT \<Longrightarrow> put d s = (None, s') \<Longrightarrow> s' = s"
begin

primrec put_all :: "bytes list \<Rightarrow> ('s, unit) reader" where
  "put_all [] = returnR ()"
| "put_all (d # ds) = bindR (put d) (\<lambda>_. put_all ds)"

text \<open>Whether or not all of them succeed, what arrived is a prefix of the chunks, in order.\<close>

lemma put_all_prefix:
  "ok s \<Longrightarrow> length (bytes_of s) + length (concat ds) < OBJECT_LIMIT \<Longrightarrow> put_all ds s = (r, s') \<Longrightarrow>
   ok s' \<and> (\<exists>k. bytes_of s' = bytes_of s @ concat (take k ds) \<and> (r = Some () \<longrightarrow> take k ds = ds))"
proof (induction ds arbitrary: s)
  case (Cons d ds)
  obtain x t where xt: "put d s = (x, t)" by (rule prod.exhaust)
  show ?case
  proof (cases x)
    case None
    with Cons.prems xt put_failed [of s d t] show ?thesis by (intro conjI exI [of _ 0]) auto
  next
    case (Some u)
    with Cons.prems xt put_done [of s d t] have t: "ok t" "bytes_of t = bytes_of s @ d" by auto
    have "length (bytes_of t) + length (concat ds) < OBJECT_LIMIT" "put_all ds t = (r, s')"
      using Cons.prems xt Some t(2) by simp_all
    from Cons.IH [OF t(1) this] obtain k where
      "ok s'" "bytes_of s' = bytes_of t @ concat (take k ds)" "r = Some () \<longrightarrow> take k ds = ds" by blast
    with t(2) show ?thesis by (intro conjI exI [of _ "Suc k"]) auto
  qed
qed (auto simp: returnR_def)

end

lemma append_cases:
  assumes m: "malloc_ok malloc" and ok: "buf_ok buf" and len: "m_length buf + length d < OBJECT_LIMIT"
    and run: "BUF_MEM_append malloc d (length d) buf = (r, buf')"
  obtains (succ) "r = Some ()" "buf_ok buf'" "buf_bytes buf' = buf_bytes buf @ d"
  | (fail) "r = None" "buf' = buf"
proof (cases "d = []")
  case True
  with run have "r = Some ()" "buf' = buf" by (simp_all add: BUF_MEM_append_def)
  with True ok that(1) show thesis by simp
next
  case False
  let ?n = "m_length buf + length d"
  have n: "?n mod SIZE_LIMIT = ?n" using len by simp
  obtain x buf1 where res: "BUF_MEM_reserve malloc ?n buf = (x, buf1)" by (rule prod.exhaust)
  have run': "(case x of None \<Rightarrow> (None, buf1)
      | Some _ \<Rightarrow> (Some (), (buf_store (m_length buf1) d buf1)\<lparr>m_length := ?n\<rparr>)) = (r, buf')"
    using run False res unfolding BUF_MEM_append_def n Let_def by (auto split: option.splits)
  show thesis
    by (rule reserve_cases [OF m ok len res]) (use run' buf_store_end [of buf1 d] that in auto)
qed

interpretation buf_sink: byte_sink "\<lambda>d. BUF_MEM_append malloc d (length d)" "\<lambda>buf. malloc_ok malloc \<and> buf_ok buf"
    buf_bytes for malloc
proof
  fix s s' :: buf_mem and d :: bytes
  assume "malloc_ok malloc \<and> buf_ok s" "length (buf_bytes s) + length d < OBJECT_LIMIT"
  then have pre: "malloc_ok malloc" "buf_ok s" "m_length s + length d < OBJECT_LIMIT" by simp_all
  show "BUF_MEM_append malloc d (length d) s = (Some (), s') \<Longrightarrow>
      (malloc_ok malloc \<and> buf_ok s') \<and> buf_bytes s' = buf_bytes s @ d"
    by (erule append_cases [OF pre]) (use pre(1) in auto)
  show "BUF_MEM_append malloc d (length d) s = (None, s') \<Longrightarrow> s' = s"
    by (erule append_cases [OF pre]) auto
qed

definition append_all :: "allocator \<Rightarrow> bytes list \<Rightarrow> (buf_mem, unit) reader" where
  "append_all malloc ds = foldr (\<lambda>d k. bindR (BUF_MEM_append malloc d (length d)) (\<lambda>_. k)) ds (returnR ())"

lemma append_all_put_all: "append_all malloc ds = buf_sink.put_all malloc ds"
  by (induction ds) (simp_all add: append_all_def)

section \<open>What \<open>BUF_MEM\<close> promises\<close>

text \<open>
  C24: appending chunk after chunk, up to the first failure, to a new buffer keeps the buffer
  well formed and puts into it exactly the chunks appended so far, joined together; a failed
  append changes nothing.
\<close>

theorem BUF_MEM_append_all:
  assumes "malloc_ok malloc" "buf_ok buf" "length (buf_bytes buf) + length (concat ds) < OBJECT_LIMIT"
    and "append_all malloc ds buf = (r, buf')"
  shows "buf_ok buf' \<and> (\<exists>k. buf_bytes buf' = buf_bytes buf @ concat (take k ds) \<and>
    (r = Some () \<longrightarrow> take k ds = ds))"
  using buf_sink.put_all_prefix [of malloc buf ds r buf'] assms by (simp add: append_all_put_all)

theorem BUF_MEM_append_all_witness:
  "\<exists>buf'. append_all zero_heap [[1, 2], [3]] \<lparr>m_length = 0, m_data = None, m_max = 0\<rparr> = (Some (), buf') \<and>
     buf_bytes buf' = [1, 2, 3]"
proof -
  let ?buf = "\<lparr>m_length = 0, m_data = None, m_max = 0\<rparr>"
  have run: "append_all zero_heap [[1, 2], [3]] ?buf =
    (Some (), \<lparr>m_length = 3, m_data = Some [1, 2, 3, 0], m_max = 4\<rparr>)" by code_simp
  have "buf_ok ?buf" "length (buf_bytes ?buf) + length (concat [[1, 2], [3 :: u8]]) < OBJECT_LIMIT" "buf_bytes ?buf = []"
    by (simp_all add: buf_ok_def buf_bytes_def buf_block_def)
  from BUF_MEM_append_all [OF malloc_ok_zero_heap this(1,2) run] run this(3) show ?thesis
    by (auto dest: sym)
qed

text \<open>
  Growing keeps the buffer well formed and what was in it, truncated or zero-extended to
  the new length, and reserves at most a third more than needed; when it fails the buffer is
  unchanged. The result 0 of growing to length 0 does not tell success from failure.
\<close>

theorem BUF_MEM_grow_exact:
  assumes m: "malloc_ok malloc" and ok: "buf_ok buf" and len: "len < OBJECT_LIMIT"
    and run: "BUF_MEM_grow malloc len buf = (n, buf')"
  shows "n = len \<and> buf_ok buf' \<and>
      buf_bytes buf' = take len (buf_bytes buf @ replicate (len - m_length buf) 0) \<and>
      m_max buf' \<le> max (m_max buf) (4 * (len + 3) div 3) \<or>
    n = 0 \<and> buf' = buf"
proof -
  obtain x buf1 where res: "BUF_MEM_reserve malloc len buf = (x, buf1)" by (rule prod.exhaust)
  show ?thesis
  proof (rule reserve_cases [OF m ok len res])
    assume 1: "x = Some ()" "buf_ok buf1" "m_length buf1 = m_length buf" "buf_bytes buf1 = buf_bytes buf"
      "len \<le> m_max buf1" "m_max buf1 \<le> max (m_max buf) (4 * (len + 3) div 3)"
    show ?thesis
    proof (cases "m_length buf < len")
      case True
      let ?z = "replicate (len - m_length buf) 0"
      have "m_length buf1 + length ?z = len" using True 1(3) by simp
      moreover from this have "m_length buf1 + length ?z \<le> m_max buf1" using 1(5) by simp
      note buf_store_end [OF 1(2) this]
      ultimately show ?thesis
        using run res True 1 length_buf_bytes [OF ok]
        by (auto simp: BUF_MEM_grow_def Let_def)
    next
      case False
      then have "buf' = buf1\<lparr>m_length := len\<rparr>" "n = len" using run res 1(1,3) by (auto simp: BUF_MEM_grow_def)
      moreover have "buf_ok (buf1\<lparr>m_length := len\<rparr>)" using 1(2,5) by (simp add: buf_ok_def buf_block_def)
      moreover have "buf_bytes (buf1\<lparr>m_length := len\<rparr>) = take len (buf_bytes buf)"
        unfolding 1(4) [symmetric] using 1(3) False by (simp add: buf_bytes_def buf_block_def min_def)
      ultimately show ?thesis using False 1(6) by simp
    qed
  qed (use run res in \<open>simp add: BUF_MEM_grow_def\<close>)
qed

theorem BUF_MEM_grow_exact_witness:
  "fst (BUF_MEM_grow zero_heap 3 \<lparr>m_length = 1, m_data = Some [7], m_max = 1\<rparr>) = 3 \<and>
   buf_bytes (snd (BUF_MEM_grow zero_heap 3 \<lparr>m_length = 1, m_data = Some [7], m_max = 1\<rparr>)) = [7, 0, 0]"
proof -
  let ?buf = "\<lparr>m_length = 1, m_data = Some [7], m_max = 1\<rparr>"
  have run: "BUF_MEM_grow zero_heap 3 ?buf = (3, \<lparr>m_length = 3, m_data = Some [7, 0, 0, 0, 0, 0, 0, 0], m_max = 8\<rparr>)"
    by code_simp
  have ok: "buf_ok ?buf" "(3 :: nat) < OBJECT_LIMIT" "buf_bytes ?buf = [7]"
    by (simp_all add: buf_ok_def buf_bytes_def buf_block_def)
  have z: "take 3 (buf_bytes ?buf @ replicate (3 - m_length ?buf) 0) = [7, 0, 0]"
    unfolding ok(3) by code_simp
  from BUF_MEM_grow_exact [OF malloc_ok_zero_heap ok(1,2) run] show ?thesis
    unfolding z run by simp
qed

text \<open>
  The overflow checks of \<open>BUF_MEM_reserve\<close> do not cover the size prefix of
  \<open>OPENSSL_malloc\<close>: asked for 3 * 2^62 - 9 bytes, it reports success with a block of no bytes.
\<close>

theorem BUF_MEM_reserve_overflow:
  "BUF_MEM_reserve zero_heap (3 * 2 ^ 62 - 9) \<lparr>m_length = 0, m_data = None, m_max = 0\<rparr> =
    (Some (), \<lparr>m_length = 0, m_data = Some [], m_max = 2 ^ 64 - 8\<rparr>)"
  by (simp add: BUF_MEM_reserve_def OPENSSL_realloc_def OPENSSL_malloc_def OPENSSL_MALLOC_PREFIX_def
      zero_heap_def Let_def)

end
