(* ===== verification/Pointers.thy ===== *)
theory Pointers
  imports Mem
begin

text \<open>
  Arrays of pointers on the C heap. A pointer is \<open>None\<close> when it is \<open>NULL\<close>. The allocator hands
  out slots of eight bytes with arbitrary pointers in them; \<open>OPENSSL_malloc\<close> and
  \<open>OPENSSL_realloc\<close> are those of \<open>crypto/mem.c\<close>, whose prefix takes the first slot.
\<close>

type_synonym 'a ptr = "'a option"
type_synonym 'a slots = "'a ptr list"
type_synonym 'a palloc = "nat \<Rightarrow> 'a slots option"

definition sizeof_ptr :: nat where
  "sizeof_ptr = 8"

definition palloc_ok :: "'a palloc \<Rightarrow> bool" where
  "palloc_ok palloc \<longleftrightarrow> (\<forall>n blk. palloc n = Some blk \<longrightarrow> length blk = n div sizeof_ptr \<and> n < OBJECT_LIMIT)"

definition null_heap :: "'a palloc" where
  "null_heap n = (if n < OBJECT_LIMIT then Some (replicate (n div sizeof_ptr) None) else None)"

lemma palloc_ok_null_heap [simp]: "palloc_ok null_heap"
  by (simp add: palloc_ok_def null_heap_def)

definition malloc_ptrs :: "'a palloc \<Rightarrow> nat \<Rightarrow> 'a slots option" where
  "malloc_ptrs palloc sz =
     (case palloc ((sz + OPENSSL_MALLOC_PREFIX) mod SIZE_LIMIT) of
        None \<Rightarrow> None
      | Some blk \<Rightarrow> Some (drop (OPENSSL_MALLOC_PREFIX div sizeof_ptr) blk))"

definition realloc_ptrs :: "'a palloc \<Rightarrow> 'a slots \<Rightarrow> nat \<Rightarrow> 'a slots option" where
  "realloc_ptrs palloc old new_size =
     (case malloc_ptrs palloc new_size of
        None \<Rightarrow> None
      | Some blk \<Rightarrow> Some (store_at blk 0 (take (new_size div sizeof_ptr) old)))"

lemma malloc_ptrs_length:
  assumes "palloc_ok palloc" "8 * n + 8 < SIZE_LIMIT" "malloc_ptrs palloc (8 * n) = Some blk"
  shows "length blk = n" "8 * n + 8 < OBJECT_LIMIT"
proof -
  have "(8 * n + 8) mod SIZE_LIMIT = 8 * n + 8" using assms(2) by simp
  with assms(3) obtain p where p: "palloc (8 * n + 8) = Some p" "blk = drop 1 p"
    by (auto simp: malloc_ptrs_def OPENSSL_MALLOC_PREFIX_def sizeof_ptr_def split: option.splits)
  with assms(1) show "length blk = n" "8 * n + 8 < OBJECT_LIMIT"
    by (auto simp: palloc_ok_def sizeof_ptr_def)
qed

lemma realloc_ptrs_keeps:
  assumes "palloc_ok palloc" "8 * n + 8 < SIZE_LIMIT" "length old \<le> n"
    and "realloc_ptrs palloc old (8 * n) = Some blk"
  shows "length blk = n" "take (length old) blk = old" "8 * n + 8 < OBJECT_LIMIT"
proof -
  from assms obtain p where p: "malloc_ptrs palloc (8 * n) = Some p" "blk = store_at p 0 old"
    by (auto simp: realloc_ptrs_def sizeof_ptr_def split: option.splits)
  from malloc_ptrs_length [OF assms(1,2) p(1)] p(2) assms(3)
  show "length blk = n" "take (length old) blk = old" "8 * n + 8 < OBJECT_LIMIT"
    by (simp_all add: store_at_def)
qed

end
