(* ===== verification/Stack.thy ===== *)
theory Stack
  imports Pointers C_Library
begin

text \<open>
  \<open>crypto/stack/stack.c\<close>: stacks of pointers. A stack is passed by pointer, \<open>None\<close> for \<open>NULL\<close>.
  A comparison function is known by an identifier, which \<open>sk_set_cmp_func\<close> compares; \<open>call\<close>
  says what calling it returns. Callbacks that copy or free an element work on a state of
  their own.
\<close>

section \<open>The code\<close>

record ('a, 'c) stack =
  sk_count :: nat
  sk_data :: "'a slots"
  sk_sorted :: bool
  sk_num_alloc :: nat
  sk_comp :: "'c option"

type_synonym ('a, 'c) sk = "('a, 'c) stack option"

definition kMinSize :: nat where
  "kMinSize = 4"

definition sizeof_STACK :: nat where
  "sizeof_STACK = 40"

definition sk_new :: "'a palloc \<Rightarrow> 'c option \<Rightarrow> ('a, 'c) sk" where
  "sk_new palloc cmpf =
     (case malloc_ptrs palloc sizeof_STACK of
        None \<Rightarrow> None
      | Some _ \<Rightarrow>
          (case malloc_ptrs palloc (sizeof_ptr * kMinSize) of
             None \<Rightarrow> None
           | Some dat \<Rightarrow> Some \<lparr>sk_count = 0, sk_data = store_at dat 0 (replicate kMinSize None),
               sk_sorted = False, sk_num_alloc = kMinSize, sk_comp = cmpf\<rparr>))"

definition sk_new_null :: "'a palloc \<Rightarrow> ('a, 'c) sk" where
  "sk_new_null palloc = sk_new palloc None"

definition sk_num :: "('a, 'c) sk \<Rightarrow> nat" where
  "sk_num sk = (case sk of None \<Rightarrow> 0 | Some s \<Rightarrow> sk_count s)"

definition sk_zero :: "('a, 'c) sk \<Rightarrow> ('a, 'c) sk" where
  "sk_zero sk =
     (case sk of
        None \<Rightarrow> None
      | Some s \<Rightarrow>
          if sk_count s = 0 then sk
          else Some (s\<lparr>sk_data := store_at (sk_data s) 0 (replicate (sk_count s) None),
                 sk_count := 0, sk_sorted := False\<rparr>))"

definition sk_value :: "('a, 'c) sk \<Rightarrow> nat \<Rightarrow> 'a ptr" where
  "sk_value sk i = (case sk of None \<Rightarrow> None | Some s \<Rightarrow> if i \<ge> sk_count s then None else sk_data s ! i)"

definition sk_set :: "nat \<Rightarrow> 'a ptr \<Rightarrow> ('a, 'c) sk \<Rightarrow> 'a ptr \<times> ('a, 'c) sk" where
  "sk_set i val sk =
     (case sk of
        None \<Rightarrow> (None, sk)
      | Some s \<Rightarrow>
          if i \<ge> sk_count s then (None, sk)
          else (val, Some (s\<lparr>sk_data := (sk_data s)[i := val]\<rparr>)))"

text \<open>\<open>free_func f x e\<close> is the state after the call on \<open>x\<close>; \<open>NULL\<close> elements are skipped.\<close>

primrec pop_free_loop :: "('a \<Rightarrow> 'e \<Rightarrow> 'e) \<Rightarrow> 'a slots \<Rightarrow> 'e \<Rightarrow> 'e" where
  "pop_free_loop free [] e = e"
| "pop_free_loop free (x # xs) e = pop_free_loop free xs (case x of None \<Rightarrow> e | Some v \<Rightarrow> free v e)"

definition sk_pop_free_ex :: "('f \<Rightarrow> 'a \<Rightarrow> 'e \<Rightarrow> 'e) \<Rightarrow> 'f \<Rightarrow> ('a, 'c) sk \<Rightarrow> 'e \<Rightarrow> 'e" where
  "sk_pop_free_ex call_free_func free_func sk e =
     (case sk of
        None \<Rightarrow> e
      | Some s \<Rightarrow> pop_free_loop (call_free_func free_func) (take (sk_count s) (sk_data s)) e)"

definition call_free_func_legacy :: "('a \<Rightarrow> 'e \<Rightarrow> 'e) \<Rightarrow> 'a \<Rightarrow> 'e \<Rightarrow> 'e" where
  "call_free_func_legacy func p e = func p e"

definition sk_pop_free :: "('a \<Rightarrow> 'e \<Rightarrow> 'e) \<Rightarrow> ('a, 'c) sk \<Rightarrow> 'e \<Rightarrow> 'e" where
  "sk_pop_free free_func sk e = sk_pop_free_ex call_free_func_legacy free_func sk e"

text \<open>The new allocation in slots, when the sizes in bytes do not overflow.\<close>

definition grow_alloc :: "nat \<Rightarrow> nat option" where
  "grow_alloc num_alloc =
     (let new_alloc = num_alloc * 2 mod SIZE_LIMIT;
          alloc_size = new_alloc * sizeof_ptr mod SIZE_LIMIT;
          overflowed = new_alloc < num_alloc \<or> alloc_size div sizeof_ptr \<noteq> new_alloc;
          new_alloc = (if overflowed then (num_alloc + 1) mod SIZE_LIMIT else new_alloc);
          alloc_size = (if overflowed then new_alloc * sizeof_ptr mod SIZE_LIMIT else alloc_size)
      in if new_alloc < num_alloc \<or> alloc_size div sizeof_ptr \<noteq> new_alloc then None else Some new_alloc)"

definition sk_reserve :: "'a palloc \<Rightarrow> ('a, 'c) stack \<Rightarrow> ('a, 'c) stack option" where
  "sk_reserve palloc s =
     (if sk_num_alloc s \<le> sk_count s + 1 then
        case grow_alloc (sk_num_alloc s) of
          None \<Rightarrow> None
        | Some new_alloc \<Rightarrow>
            (case realloc_ptrs palloc (sk_data s) (new_alloc * sizeof_ptr) of
               None \<Rightarrow> None
             | Some dat \<Rightarrow> Some (s\<lparr>sk_data := dat, sk_num_alloc := new_alloc\<rparr>))
      else Some s)"

definition sk_insert :: "'a palloc \<Rightarrow> 'a ptr \<Rightarrow> nat \<Rightarrow> ('a, 'c) sk \<Rightarrow> nat \<times> ('a, 'c) sk" where
  "sk_insert palloc p pos sk =
     (case sk of
        None \<Rightarrow> (0, sk)
      | Some s \<Rightarrow>
          (case sk_reserve palloc s of
             None \<Rightarrow> (0, sk)
           | Some s \<Rightarrow>
               let dat = (if pos \<ge> sk_count s then (sk_data s)[sk_count s := p]
                          else (store_at (sk_data s) (pos + 1)
                                 (take (sk_count s - pos) (drop pos (sk_data s))))[pos := p])
               in (sk_count s + 1,
                   Some (s\<lparr>sk_data := dat, sk_count := sk_count s + 1, sk_sorted := False\<rparr>))))"

definition sk_delete :: "nat \<Rightarrow> ('a, 'c) sk \<Rightarrow> 'a ptr \<times> ('a, 'c) sk" where
  "sk_delete pos sk =
     (case sk of
        None \<Rightarrow> (None, sk)
      | Some s \<Rightarrow>
          if pos \<ge> sk_count s then (None, sk)
          else
            let dat = (if pos \<noteq> sk_count s - 1
                       then store_at (sk_data s) pos
                              (take (sk_count s - pos - 1) (drop (pos + 1) (sk_data s)))
                       else sk_data s)
            in (sk_data s ! pos, Some (s\<lparr>sk_data := dat, sk_count := sk_count s - 1\<rparr>)))"

text \<open>Linear search for the first of the \<open>n\<close> elements from index \<open>i\<close> on that satisfies \<open>P\<close>.\<close>

fun find_first :: "('x \<Rightarrow> bool) \<Rightarrow> 'x list \<Rightarrow> nat \<Rightarrow> nat \<Rightarrow> nat option" where
  "find_first P dat i 0 = None"
| "find_first P dat i (Suc n) = (if P (dat ! i) then Some i else find_first P dat (i + 1) n)"

definition sk_delete_ptr :: "'a ptr \<Rightarrow> ('a, 'c) sk \<Rightarrow> 'a ptr \<times> ('a, 'c) sk" where
  "sk_delete_ptr p sk =
     (case sk of
        None \<Rightarrow> (None, sk)
      | Some s \<Rightarrow>
          (case find_first (\<lambda>x. x = p) (sk_data s) 0 (sk_count s) of
             None \<Rightarrow> (None, sk)
           | Some i \<Rightarrow> sk_delete i sk))"

definition sk_is_sorted :: "('a, 'c) sk \<Rightarrow> bool" where
  "sk_is_sorted sk = (case sk of None \<Rightarrow> True | Some s \<Rightarrow> sk_sorted s)"

text \<open>The binary search between \<open>lo\<close> and \<open>hi\<close>; \<open>cmp elem\<close> is the comparison of \<open>p\<close> with \<open>elem\<close>.\<close>

function find_sorted :: "('x \<Rightarrow> int) \<Rightarrow> 'x list \<Rightarrow> nat \<Rightarrow> nat \<Rightarrow> nat option" where
  "find_sorted cmp dat lo hi =
     (if lo < hi then
        let mid = lo + (hi - lo - 1) div 2; r = cmp (dat ! mid) in
        if r > 0 then find_sorted cmp dat (mid + 1) hi
        else if r < 0 then find_sorted cmp dat lo mid
        else if hi - lo = 1 then Some mid
        else find_sorted cmp dat lo (mid + 1)
      else None)"
  by pat_completeness auto
termination
proof (relation "measure (\<lambda>(cmp, dat, lo, hi). hi - lo)", goal_cases)
  case (4 cmp dat lo hi mid r)
  then have "mid = lo + (hi - lo - 1) div 2" "lo < hi" "hi - lo \<noteq> 1" by simp_all
  then have "mid + 1 - lo < hi - lo" by linarith
  then show ?case by simp
qed auto

declare find_sorted.simps [simp del]

definition sk_find :: "('c \<Rightarrow> 'a ptr \<Rightarrow> 'a ptr \<Rightarrow> int) \<Rightarrow> 'a ptr \<Rightarrow> ('a, 'c) sk \<Rightarrow> nat option" where
  "sk_find call p sk =
     (case sk of
        None \<Rightarrow> None
      | Some s \<Rightarrow>
          (case sk_comp s of
             None \<Rightarrow> find_first (\<lambda>x. x = p) (sk_data s) 0 (sk_count s)
           | Some c \<Rightarrow>
               if p = None then None
               else if \<not> sk_is_sorted sk
               then find_first (\<lambda>elem. call c p elem = 0) (sk_data s) 0 (sk_count s)
               else find_sorted (call c p) (sk_data s) 0 (sk_count s)))"

definition sk_shift :: "('a, 'c) sk \<Rightarrow> 'a ptr \<times> ('a, 'c) sk" where
  "sk_shift sk =
     (case sk of None \<Rightarrow> (None, sk) | Some s \<Rightarrow> if sk_count s = 0 then (None, sk) else sk_delete 0 sk)"

definition sk_push :: "'a palloc \<Rightarrow> 'a ptr \<Rightarrow> ('a, 'c) sk \<Rightarrow> nat \<times> ('a, 'c) sk" where
  "sk_push palloc p sk = sk_insert palloc p (sk_num sk) sk"

definition sk_pop :: "('a, 'c) sk \<Rightarrow> 'a ptr \<times> ('a, 'c) sk" where
  "sk_pop sk =
     (case sk of
        None \<Rightarrow> (None, sk)
      | Some s \<Rightarrow> if sk_count s = 0 then (None, sk) else sk_delete (sk_count s - 1) sk)"

definition sk_dup :: "'a palloc \<Rightarrow> ('a, 'c) sk \<Rightarrow> ('a, 'c) sk" where
  "sk_dup palloc sk =
     (case sk of
        None \<Rightarrow> None
      | Some s \<Rightarrow>
          (case sk_new palloc (sk_comp s) of
             None \<Rightarrow> None
           | Some ret \<Rightarrow>
               (case realloc_ptrs palloc (sk_data ret) (sizeof_ptr * sk_num_alloc s mod SIZE_LIMIT) of
                  None \<Rightarrow> None
                | Some t \<Rightarrow> Some (ret\<lparr>sk_count := sk_count s,
                    sk_data := store_at t 0 (take (sk_count s) (sk_data s)),
                    sk_sorted := sk_sorted s, sk_num_alloc := sk_num_alloc s, sk_comp := sk_comp s\<rparr>))))"

definition sk_sort :: "('c \<Rightarrow> 'a ptr \<Rightarrow> 'a ptr \<Rightarrow> int) \<Rightarrow> ('a, 'c) sk \<Rightarrow> ('a, 'c) sk" where
  "sk_sort call sk =
     (case sk of
        None \<Rightarrow> None
      | Some s \<Rightarrow>
          (case sk_comp s of
             None \<Rightarrow> sk
           | Some c \<Rightarrow>
               if sk_sorted s then sk
               else
                 let dat = (if sk_count s \<ge> 2
                            then store_at (sk_data s) 0 (qsort (call c) (take (sk_count s) (sk_data s)))
                            else sk_data s)
                 in Some (s\<lparr>sk_data := dat, sk_sorted := True\<rparr>)))"

text \<open>\<open>sk_set_cmp_func\<close> must not be called with \<open>NULL\<close>.\<close>

definition sk_set_cmp_func :: "'c option \<Rightarrow> ('a, 'c) stack \<Rightarrow> 'c option \<times> ('a, 'c) stack" where
  "sk_set_cmp_func cmpf s =
     (sk_comp s, (if sk_comp s \<noteq> cmpf then s\<lparr>sk_sorted := False\<rparr> else s)\<lparr>sk_comp := cmpf\<rparr>)"

text \<open>
  The loop of \<open>sk_deep_copy\<close> from index \<open>i\<close> on, with \<open>n\<close> elements to go. When a copy fails, the
  copies made before it are freed.
\<close>

fun deep_copy_loop :: "('a \<Rightarrow> 'e \<Rightarrow> 'a ptr \<times> 'e) \<Rightarrow> ('a \<Rightarrow> 'e \<Rightarrow> 'e) \<Rightarrow> ('a, 'c) stack \<Rightarrow> nat \<Rightarrow> nat \<Rightarrow> 'e \<Rightarrow>
    ('a, 'c) sk \<times> 'e" where
  "deep_copy_loop copy free ret i 0 e = (Some ret, e)"
| "deep_copy_loop copy free ret i (Suc n) e =
     (case sk_data ret ! i of
        None \<Rightarrow> deep_copy_loop copy free ret (i + 1) n e
      | Some v \<Rightarrow>
          (case copy v e of
             (None, e) \<Rightarrow> (None, pop_free_loop free (take i (sk_data ret)) e)
           | (Some w, e) \<Rightarrow>
               deep_copy_loop copy free (ret\<lparr>sk_data := (sk_data ret)[i := Some w]\<rparr>) (i + 1) n e))"

definition sk_deep_copy :: "'a palloc \<Rightarrow> ('p \<Rightarrow> 'a \<Rightarrow> 'e \<Rightarrow> 'a ptr \<times> 'e) \<Rightarrow> 'p \<Rightarrow> ('f \<Rightarrow> 'a \<Rightarrow> 'e \<Rightarrow> 'e) \<Rightarrow> 'f \<Rightarrow>
    ('a, 'c) sk \<Rightarrow> 'e \<Rightarrow> ('a, 'c) sk \<times> 'e" where
  "sk_deep_copy palloc call_copy_func copy_func call_free_func free_func sk e =
     (case sk_dup palloc sk of
        None \<Rightarrow> (None, e)
      | Some ret \<Rightarrow>
          deep_copy_loop (call_copy_func copy_func) (call_free_func free_func) ret 0 (sk_count ret) e)"

section \<open>The stack as a list\<close>

definition elems :: "('a, 'c) stack \<Rightarrow> 'a slots" where
  "elems s = take (sk_count s) (sk_data s)"

definition stack_ok :: "('a, 'c) stack \<Rightarrow> bool" where
  "stack_ok s \<longleftrightarrow> length (sk_data s) = sk_num_alloc s \<and> sk_count s < sk_num_alloc s \<and> 4 \<le> sk_num_alloc s \<and>
     8 * sk_num_alloc s + 8 < OBJECT_LIMIT"

lemma length_elems [simp]: "stack_ok s \<Longrightarrow> length (elems s) = sk_count s"
  by (simp add: stack_ok_def elems_def)

lemma elems_nth: "i < sk_count s \<Longrightarrow> elems s ! i = sk_data s ! i"
  by (simp add: elems_def)

lemma sk_new_cases:
  assumes "palloc_ok palloc" "sk_new palloc c = Some s"
  shows "stack_ok s \<and> elems s = [] \<and> \<not> sk_sorted s \<and> sk_comp s = c"
proof -
  from assms(2) obtain dat where d: "malloc_ptrs palloc (8 * 4) = Some dat"
    "s = \<lparr>sk_count = 0, sk_data = store_at dat 0 (replicate 4 None), sk_sorted = False, sk_num_alloc = 4, sk_comp = c\<rparr>"
    by (auto simp: sk_new_def sizeof_ptr_def kMinSize_def split: option.splits)
  from malloc_ptrs_length [OF assms(1) _ d(1)] have "length dat = 4" by simp
  then show ?thesis by (simp add: d(2) stack_ok_def elems_def)
qed

text \<open>For an array within the size limit of a C object the size is doubled.\<close>

lemma grow_alloc_eq:
  assumes "8 * n + 8 < OBJECT_LIMIT" shows "grow_alloc n = Some (n * 2)"
proof -
  have "n * 2 mod SIZE_LIMIT = n * 2" "n * 2 * 8 mod SIZE_LIMIT = n * 2 * 8" using assms by simp_all
  then show ?thesis by (simp add: grow_alloc_def sizeof_ptr_def Let_def)
qed

lemma sk_reserve_cases:
  assumes "palloc_ok palloc" "stack_ok s" "sk_reserve palloc s = Some s'"
  shows "stack_ok s' \<and> sk_count s + 1 < sk_num_alloc s' \<and> elems s' = elems s \<and> sk_count s' = sk_count s \<and>
    sk_comp s' = sk_comp s \<and> sk_sorted s' = sk_sorted s"
proof (cases "sk_num_alloc s \<le> sk_count s + 1")
  case True
  note ok = assms(2) [unfolded stack_ok_def]
  have g: "grow_alloc (sk_num_alloc s) = Some (sk_num_alloc s * 2)" using ok by (intro grow_alloc_eq) simp
  with True assms(3) obtain dat where
    d: "realloc_ptrs palloc (sk_data s) (8 * (sk_num_alloc s * 2)) = Some dat"
      "s' = s\<lparr>sk_data := dat, sk_num_alloc := sk_num_alloc s * 2\<rparr>"
    by (auto simp: sk_reserve_def sizeof_ptr_def mult.commute split: option.splits)
  have sz: "8 * (sk_num_alloc s * 2) + 8 < SIZE_LIMIT" using ok by simp
  have "length (sk_data s) \<le> sk_num_alloc s * 2" using ok by simp
  note r = realloc_ptrs_keeps [OF assms(1) sz this d(1)]
  have "take (sk_count s) dat = take (sk_count s) (take (length (sk_data s)) dat)" using ok by (simp add: min_def)
  also have "\<dots> = elems s" unfolding r(2) by (simp add: elems_def)
  finally show ?thesis using r(1,3) ok by (simp add: d(2) stack_ok_def elems_def)
next
  case False
  with assms show ?thesis by (auto simp: sk_reserve_def)
qed

lemma sk_insert_cases:
  assumes "palloc_ok palloc" "stack_ok s" "sk_insert palloc p pos (Some s) = (n, sk')"
  obtains (succ) s' where "sk' = Some s'" "n = sk_count s + 1" "stack_ok s'" "sk_count s' = n"
      "elems s' = take pos (elems s) @ p # drop pos (elems s)" "\<not> sk_sorted s'" "sk_comp s' = sk_comp s"
  | (fail) "sk' = Some s" "n = 0"
proof (cases "sk_reserve palloc s")
  case None
  with assms(3) that(2) show thesis by (simp add: sk_insert_def)
next
  case (Some t)
  from sk_reserve_cases [OF assms(1,2) Some] have t: "stack_ok t" "sk_count s + 1 < sk_num_alloc t"
    "elems t = elems s" "sk_count t = sk_count s" "sk_comp t = sk_comp s" by simp_all
  let ?k = "sk_count s" and ?d = "sk_data t"
  let ?dat = "if pos \<ge> ?k then ?d[?k := p] else (store_at ?d (pos + 1) (take (?k - pos) (drop pos ?d)))[pos := p]"
  have len: "?k + 1 < length ?d" using t(1,2) by (simp add: stack_ok_def)
  have e: "elems s = take ?k ?d" using t(3,4) by (simp add: elems_def)
  have "take (?k + 1) ?dat = take pos (elems s) @ p # drop pos (elems s)"
  proof (cases "pos \<ge> ?k")
    case True
    then show ?thesis using len by (simp add: e take_Suc_conv_app_nth)
  next
    case False
    then have l: "pos < length ?d" "pos + 1 + (?k - pos) \<le> length ?d" using len by simp_all
    let ?m = "take (?k - pos) (drop pos ?d)"
    have m: "length ?m = ?k - pos" "drop pos (elems s) = ?m" using len False by (simp_all add: e drop_take)
    have "(store_at ?d (pos + 1) ?m)[pos := p] = take pos ?d @ p # ?m @ drop (?k + 1) ?d"
      using l m(1) False by (simp add: store_at_def take_Suc_conv_app_nth list_update_append)
    then show ?thesis using False len m by (simp add: e Suc_diff_le)
  qed
  moreover have "length ?dat = length ?d" using len by (auto simp: store_at_def)
  moreover have "sk' = Some (t\<lparr>sk_data := ?dat, sk_count := ?k + 1, sk_sorted := False\<rparr>)" "n = ?k + 1"
    using assms(3) Some t(4) by (auto simp: sk_insert_def Let_def)
  ultimately show thesis
    using t
    by (intro that(1) [of "t\<lparr>sk_data := ?dat, sk_count := ?k + 1, sk_sorted := False\<rparr>"]) (simp_all add: stack_ok_def elems_def del: if_split)
qed

lemma sk_delete_eq:
  assumes "stack_ok s" "pos < sk_count s"
  obtains s' where "sk_delete pos (Some s) = (elems s ! pos, Some s')" "stack_ok s'"
    "elems s' = take pos (elems s) @ drop (Suc pos) (elems s)" "sk_sorted s' = sk_sorted s"
    "sk_comp s' = sk_comp s" "sk_count s' = sk_count s - 1"
proof -
  let ?k = "sk_count s" and ?d = "sk_data s"
  let ?m = "take (?k - pos - 1) (drop (pos + 1) ?d)"
  let ?dat = "if pos \<noteq> ?k - 1 then store_at ?d pos ?m else ?d"
  have len: "?k < length ?d" using assms(1) by (simp add: stack_ok_def)
  have m: "length ?m = ?k - pos - 1" "drop (Suc pos) (elems s) = ?m"
    using len assms(2) by (simp_all add: elems_def drop_take)
  have "take (?k - 1) ?dat = take pos (elems s) @ ?m"
  proof (cases "pos = ?k - 1")
    case True
    then show ?thesis using assms(2) by (simp add: elems_def min_def)
  next
    case False
    then have "store_at ?d pos ?m = take pos ?d @ ?m @ drop (?k - 1) ?d"
      using m(1) assms(2) by (simp add: store_at_def)
    moreover have "pos < ?k - 1" using False assms(2) by simp
    ultimately show ?thesis using False len m(1) by (simp add: elems_def min_def)
  qed
  moreover have "length ?dat = length ?d" using len assms(2) m(1) by (simp add: store_at_def)
  moreover have "?k - 1 < sk_num_alloc s" using assms(1) by (auto simp: stack_ok_def)
  moreover define s' where "s' = s\<lparr>sk_data := ?dat, sk_count := ?k - 1\<rparr>"
  ultimately have "stack_ok s'" "elems s' = take pos (elems s) @ drop (Suc pos) (elems s)"
    using assms(1) m(2) by (simp_all only: stack_ok_def elems_def stack.simps) simp_all
  moreover have "sk_delete pos (Some s) = (elems s ! pos, Some s')"
    using assms(2) by (simp add: sk_delete_def Let_def elems_nth s'_def)
  ultimately show thesis by (intro that [of s']) (simp_all add: s'_def)
qed

section \<open>Searching\<close>

lemma find_first_Some:
  "find_first P dat i n = Some k \<longleftrightarrow> i \<le> k \<and> k < i + n \<and> P (dat ! k) \<and> (\<forall>j. i \<le> j \<and> j < k \<longrightarrow> \<not> P (dat ! j))"
proof (induction n arbitrary: i)
  case (Suc n)
  show ?case
  proof (cases "P (dat ! i)")
    case True
    then show ?thesis by (auto simp: less_Suc_eq_le)
  next
    case False
    then show ?thesis using Suc.IH [of "i + 1"]
      by (auto simp: Suc_le_eq) (metis le_neq_implies_less)
  qed
qed auto

lemma find_first_None: "find_first P dat i n = None \<longleftrightarrow> (\<forall>j. i \<le> j \<and> j < i + n \<longrightarrow> \<not> P (dat ! j))"
proof (induction n arbitrary: i)
  case (Suc n)
  then show ?case by (auto simp: Suc_le_eq) (metis le_neq_implies_less add_Suc_right)
qed auto

lemma find_first_split:
  "find_first P dat i (m + n) =
    (case find_first P dat i m of None \<Rightarrow> find_first P dat (i + m) n | Some k \<Rightarrow> Some k)"
  by (induction m arbitrary: i) (auto cong: option.case_cong)

lemma find_first_skip: "\<forall>j. i \<le> j \<and> j < i + m \<longrightarrow> \<not> P (dat ! j) \<Longrightarrow>
    find_first P dat i (m + n) = find_first P dat (i + m) n"
  by (simp add: find_first_split find_first_None [THEN iffD2])

lemma find_first_stop: "find_first P dat i m \<noteq> None \<or> (\<forall>j. i + m \<le> j \<and> j < i + m + n \<longrightarrow> \<not> P (dat ! j)) \<Longrightarrow>
    find_first P dat i (m + n) = find_first P dat i m"
  by (auto simp: find_first_split find_first_None [THEN iffD2] split: option.splits)

lemma find_first_cong: "(\<And>j. i \<le> j \<Longrightarrow> j < i + n \<Longrightarrow> dat ! j = dat' ! j) \<Longrightarrow>
    find_first P dat i n = find_first P dat' i n"
  by (induction n arbitrary: i) auto

text \<open>
  Where the comparison goes from positive over zero to negative, the binary search finds what
  a linear search finds: the first match.
\<close>

lemma find_sorted_first:
  assumes "\<And>i j. lo \<le> i \<Longrightarrow> i \<le> j \<Longrightarrow> j < hi \<Longrightarrow> 0 < f (dat ! j) \<Longrightarrow> 0 < f (dat ! i)"
    and "\<And>i j. lo \<le> i \<Longrightarrow> i \<le> j \<Longrightarrow> j < hi \<Longrightarrow> f (dat ! i) < 0 \<Longrightarrow> f (dat ! j) < 0"
  shows "find_sorted f dat lo hi = find_first (\<lambda>x. f x = 0) dat lo (hi - lo)"
  using assms
proof (induction f dat lo hi rule: find_sorted.induct)
  case (1 f dat lo hi)
  show ?case
  proof (cases "lo < hi")
    case False
    then show ?thesis by (subst find_sorted.simps) simp
  next
    case lt: True
    define mid where "mid = lo + (hi - lo - 1) div 2"
    define r where "r = f (dat ! mid)"
    have mid: "lo \<le> mid" "mid < hi" using lt by (simp_all add: mid_def)
    note IH = "1.IH" [OF lt mid_def r_def]
    have step: "find_sorted f dat lo hi =
        (if r > 0 then find_sorted f dat (mid + 1) hi
         else if r < 0 then find_sorted f dat lo mid
         else if hi - lo = 1 then Some mid
         else find_sorted f dat lo (mid + 1))"
      using lt by (subst find_sorted.simps) (simp add: Let_def r_def mid_def)
    note P1 = "1.prems"(1) and P2 = "1.prems"(2)
    consider "r > 0" | "r < 0" | "r = 0" "hi - lo = 1" | "r = 0" "hi - lo \<noteq> 1" by linarith
    then show ?thesis
    proof cases
      case 1
      have "\<not> f (dat ! j) = 0" if "lo \<le> j" "j < lo + (mid + 1 - lo)" for j
        using "1.prems"(1) [of j mid] that mid 1 by (simp add: r_def)
      then have "find_first (\<lambda>x. f x = 0) dat lo ((mid + 1 - lo) + (hi - (mid + 1))) =
        find_first (\<lambda>x. f x = 0) dat (mid + 1) (hi - (mid + 1))"
        using find_first_skip [of lo "mid + 1 - lo" "\<lambda>x. f x = 0" dat "hi - (mid + 1)"] mid by simp
      moreover have "find_sorted f dat lo hi = find_sorted f dat (mid + 1) hi"
        using 1 by (simp add: step)
      moreover have "find_sorted f dat (mid + 1) hi = find_first (\<lambda>x. f x = 0) dat (mid + 1) (hi - (mid + 1))"
        by (rule IH(1) [OF 1]; (rule P1 [rotated 3], assumption | rule P2 [rotated 3], assumption); use mid in simp)
      ultimately show ?thesis using mid by simp
    next
      case 2
      then have neg: "\<not> r > 0" by simp
      have "\<not> f (dat ! j) = 0" if "mid \<le> j" "j < hi" for j
        using "1.prems"(2) [of mid j] that mid 2 by (simp add: r_def)
      then have "find_first (\<lambda>x. f x = 0) dat lo ((mid - lo) + (hi - mid)) =
        find_first (\<lambda>x. f x = 0) dat lo (mid - lo)"
        using mid by (intro find_first_stop disjI2) auto
      moreover have "find_sorted f dat lo hi = find_sorted f dat lo mid"
        using 2 by (simp add: step)
      moreover have "find_sorted f dat lo mid = find_first (\<lambda>x. f x = 0) dat lo (mid - lo)"
        by (rule IH(2) [OF neg 2]; (rule P1 [rotated 3], assumption | rule P2 [rotated 3], assumption);
            use mid in simp)
      ultimately show ?thesis using mid by simp
    next
      case 3
      then have "mid = lo" using mid by simp
      then show ?thesis using 3 by (simp add: step r_def)
    next
      case 4
      then have neq: "\<not> r > 0" "\<not> r < 0" by simp_all
      have "find_first (\<lambda>x. f x = 0) dat lo (mid + 1 - lo) \<noteq> None"
        using mid 4 by (auto simp: find_first_None r_def)
      then have "find_first (\<lambda>x. f x = 0) dat lo ((mid + 1 - lo) + (hi - (mid + 1))) =
        find_first (\<lambda>x. f x = 0) dat lo (mid + 1 - lo)"
        by (intro find_first_stop disjI1)
      moreover have "find_sorted f dat lo hi = find_sorted f dat lo (mid + 1)"
        using 4 by (simp add: step)
      moreover have "find_sorted f dat lo (mid + 1) = find_first (\<lambda>x. f x = 0) dat lo (mid + 1 - lo)"
        by (rule IH(3) [OF neq 4(2)]; (rule P1 [rotated 3], assumption | rule P2 [rotated 3], assumption);
            use mid in simp)
      ultimately show ?thesis using mid by simp
    qed
  qed
qed

end
