(* ===== verification/Stack_Spec.thy ===== *)
theory Stack_Spec
  imports Stack
begin

text \<open>
  What the stacks of \<open>crypto/stack/stack.c\<close> promise: the operations are list operations, the
  sorted flag is right, searching finds the first match, and a failed deep copy leaks nothing.
\<close>

section \<open>Sequences\<close>

text \<open>
  The interface of a sequence with insertion and removal by position; an insertion that cannot
  get memory returns 0 and changes nothing.
\<close>

locale sequence =
  fixes ok :: "'s \<Rightarrow> bool" and els :: "'s \<Rightarrow> 'x list"
    and ins :: "'x \<Rightarrow> nat \<Rightarrow> 's \<Rightarrow> nat \<times> 's" and del :: "nat \<Rightarrow> 's \<Rightarrow> 'x \<times> 's"
  assumes ins: "ok s \<Longrightarrow> ins x pos s = (n, s') \<Longrightarrow>
      ok s' \<and> (n = 0 \<and> s' = s \<or> n = length (els s) + 1 \<and> els s' = take pos (els s) @ x # drop pos (els s))"
    and del: "ok s \<Longrightarrow> pos < length (els s) \<Longrightarrow> del pos s = (x, s') \<Longrightarrow>
      ok s' \<and> x = els s ! pos \<and> els s' = take pos (els s) @ drop (Suc pos) (els s)"
begin

text \<open>Removing what was just inserted restores the sequence.\<close>

lemma del_ins:
  assumes "ok s" "ins x pos s = (n, s')" "n \<noteq> 0" "pos \<le> length (els s)" "del pos s' = (y, s'')"
  shows "y = x \<and> els s'' = els s \<and> ok s''"
proof -
  from ins [OF assms(1,2)] assms(3) have s': "ok s'" "els s' = take pos (els s) @ x # drop pos (els s)" by simp_all
  with assms(4) have "pos < length (els s')" "els s' ! pos = x"
    "take pos (els s') @ drop (Suc pos) (els s') = els s"
    by (simp_all add: nth_append)
  with del [OF s'(1) _ assms(5)] show ?thesis by simp
qed

text \<open>Last in, first out.\<close>

lemma pop_push:
  assumes "ok s" "ins x (length (els s)) s = (n, s')" "n \<noteq> 0" "del (length (els s') - 1) s' = (y, s'')"
  shows "y = x \<and> els s'' = els s"
proof -
  from ins [OF assms(1,2)] assms(3) have "length (els s') - 1 = length (els s)" by simp
  with del_ins [OF assms(1-3) _ ] assms(4) show ?thesis by simp
qed

text \<open>First in, first out.\<close>

lemma shift_push:
  assumes "ok s" "ins x (length (els s)) s = (n, s')" "n \<noteq> 0" "els s \<noteq> []" "del 0 s' = (y, s'')"
  shows "y = hd (els s) \<and> els s'' = tl (els s) @ [x]"
proof -
  from ins [OF assms(1,2)] assms(3) have "ok s'" "els s' = els s @ [x]" by simp_all
  with del [OF _ _ assms(5)] assms(4) show ?thesis by (cases "els s") simp_all
qed

end

definition sk_elems :: "('a, 'c) sk \<Rightarrow> 'a slots" where
  "sk_elems sk = (case sk of None \<Rightarrow> [] | Some s \<Rightarrow> elems s)"

definition sk_ok :: "('a, 'c) sk \<Rightarrow> bool" where
  "sk_ok sk = (case sk of None \<Rightarrow> False | Some s \<Rightarrow> stack_ok s)"

interpretation sk_seq: sequence "\<lambda>sk. palloc_ok palloc \<and> sk_ok sk" sk_elems "sk_insert palloc" sk_delete for palloc
proof
  fix s s' :: "('a, 'c) sk" and x :: "'a ptr" and pos n
  assume "palloc_ok palloc \<and> sk_ok s"
  then obtain t where t: "palloc_ok palloc" "s = Some t" "stack_ok t" by (auto simp: sk_ok_def split: option.splits)
  {
    assume "sk_insert palloc x pos s = (n, s')"
    from sk_insert_cases [OF t(1,3) this [unfolded t(2)]]
    show "(palloc_ok palloc \<and> sk_ok s') \<and> (n = 0 \<and> s' = s \<or>
        n = length (sk_elems s) + 1 \<and> sk_elems s' = take pos (sk_elems s) @ x # drop pos (sk_elems s))"
      by cases (use t in \<open>auto simp: sk_ok_def sk_elems_def\<close>)
  next
    assume "pos < length (sk_elems s)" and run: "sk_delete pos s = (x, s')"
    then have "pos < sk_count t" using t by (simp add: sk_elems_def)
    from sk_delete_eq [OF t(3) this]
    show "(palloc_ok palloc \<and> sk_ok s') \<and> x = sk_elems s ! pos \<and>
        sk_elems s' = take pos (sk_elems s) @ drop (Suc pos) (sk_elems s)"
      by cases (use t run in \<open>auto simp: sk_ok_def sk_elems_def\<close>)
  }
qed

section \<open>Sorting, copying, clearing\<close>

lemma sk_zero_eq: "stack_ok s \<Longrightarrow> \<exists>s'. sk_zero (Some s) = Some s' \<and> stack_ok s' \<and> elems s' = [] \<and>
    sk_comp s' = sk_comp s \<and> (sk_sorted s' \<longrightarrow> sk_sorted s)"
  by (auto simp: sk_zero_def stack_ok_def elems_def)

lemma sk_sort_eq:
  assumes "stack_ok s"
  obtains s' where "sk_sort call (Some s) = Some s'" "stack_ok s'" "sk_comp s' = sk_comp s"
    "elems s' = (case sk_comp s of None \<Rightarrow> elems s
       | Some c \<Rightarrow> if sk_sorted s then elems s else qsort (call c) (elems s))"
    "sk_sorted s' \<longleftrightarrow> sk_sorted s \<or> sk_comp s \<noteq> None"
proof (cases "sk_comp s")
  case None
  with assms that [of s] show thesis by (simp add: sk_sort_def)
next
  case (Some c)
  show thesis
  proof (cases "sk_sorted s")
    case True
    with Some assms that [of s] show thesis by (simp add: sk_sort_def)
  next
    case False
    let ?dat = "if sk_count s \<ge> 2 then store_at (sk_data s) 0 (qsort (call c) (elems s)) else sk_data s"
    have len: "length (qsort (call c) (elems s)) = sk_count s" using assms by simp
    have "qsort (call c) (elems s) = elems s" if "\<not> sk_count s \<ge> 2"
    proof -
      from that assms have "length (elems s) < 2" by simp
      then show ?thesis by (cases "elems s") simp_all
    qed
    then have "take (sk_count s) ?dat = qsort (call c) (elems s)"
      using len by (simp add: store_at_def) (simp add: elems_def)
    moreover have "length ?dat = length (sk_data s)"
      using len assms by (simp add: stack_ok_def)
    moreover have "sk_sort call (Some s) = Some (s\<lparr>sk_data := ?dat, sk_sorted := True\<rparr>)"
      using Some False by (simp add: sk_sort_def elems_def)
    ultimately show thesis
      using Some False assms
      by (intro that [of "s\<lparr>sk_data := ?dat, sk_sorted := True\<rparr>"])
        (simp_all add: stack_ok_def elems_def del: if_split)
  qed
qed

lemma sk_dup_eq:
  assumes "palloc_ok palloc" "stack_ok s" "sk_dup palloc (Some s) = Some s'"
  shows "stack_ok s' \<and> elems s' = elems s \<and> sk_comp s' = sk_comp s \<and> sk_sorted s' = sk_sorted s \<and>
    sk_count s' = sk_count s"
proof -
  note ok = assms(2) [unfolded stack_ok_def]
  have sz: "sizeof_ptr * sk_num_alloc s mod SIZE_LIMIT = 8 * sk_num_alloc s"
    using ok by (simp add: sizeof_ptr_def)
  from assms(3) [unfolded sk_dup_def option.case sz] obtain ret t where new: "sk_new palloc (sk_comp s) = Some ret"
    and t: "realloc_ptrs palloc (sk_data ret) (8 * sk_num_alloc s) = Some t"
    and s': "s' = ret\<lparr>sk_count := sk_count s, sk_data := store_at t 0 (elems s), sk_sorted := sk_sorted s,
      sk_num_alloc := sk_num_alloc s, sk_comp := sk_comp s\<rparr>"
    by (auto simp: elems_def split: option.splits)
  have "length (sk_data ret) = 4"
  proof -
    from new obtain dat where "malloc_ptrs palloc (8 * 4) = Some dat"
      "sk_data ret = store_at dat 0 (replicate 4 None)"
      by (auto simp: sk_new_def sizeof_ptr_def kMinSize_def split: option.splits)
    with malloc_ptrs_length [OF assms(1), of 4 dat] show ?thesis by simp
  qed
  then have "length (sk_data ret) \<le> sk_num_alloc s" using ok by simp
  with realloc_ptrs_keeps [OF assms(1) _ this t] ok have "length t = sk_num_alloc s" by simp
  moreover have "length (elems s) = sk_count s" using assms(2) by simp
  ultimately show ?thesis using ok by (auto simp: s' stack_ok_def store_at_def) (simp_all add: elems_def)
qed

section \<open>Deep copies\<close>

text \<open>
  Copying element by element until a copy fails: the copies made so far, whether all were made,
  and the state after the calls.
\<close>

fun copy_run :: "('a \<Rightarrow> 'e \<Rightarrow> 'a ptr \<times> 'e) \<Rightarrow> 'a slots \<Rightarrow> 'e \<Rightarrow> 'a slots \<times> bool \<times> 'e" where
  "copy_run copy [] e = ([], True, e)"
| "copy_run copy (None # xs) e = (case copy_run copy xs e of (made, fin, e) \<Rightarrow> (None # made, fin, e))"
| "copy_run copy (Some v # xs) e =
     (case copy v e of
        (None, e) \<Rightarrow> ([], False, e)
      | (Some w, e) \<Rightarrow> (case copy_run copy xs e of (made, fin, e) \<Rightarrow> (Some w # made, fin, e)))"

lemma deep_copy_loop_eq:
  assumes "i + length xs \<le> length (sk_data ret)" "drop i (take (i + length xs) (sk_data ret)) = xs"
  shows "deep_copy_loop copy free ret i (length xs) e =
    (case copy_run copy xs e of (made, fin, e) \<Rightarrow>
       if fin then (Some (ret\<lparr>sk_data := store_at (sk_data ret) i made\<rparr>), e)
       else (None, pop_free_loop free (take i (sk_data ret) @ made) e))"
  using assms
proof (induction copy xs e arbitrary: i ret rule: copy_run.induct)
  case (1 copy e)
  then show ?case by simp
next
  case (2 copy xs e)
  let ?d = "sk_data ret"
  have i: "i < length ?d" "?d ! i = None" and rest: "drop (Suc i) (take (Suc i + length xs) ?d) = xs"
    using "2.prems" by (simp_all add: drop_take) (simp_all add: Cons_nth_drop_Suc [symmetric])
  have t: "take (Suc i) ?d = take i ?d @ [None]" using i by (simp add: take_Suc_conv_app_nth)
  have st: "store_at ?d (Suc i) made = store_at ?d i (None # made)" for made
    by (simp add: store_at_def t)
  from "2.IH" [of "Suc i" ret] "2.prems"(1) rest i show ?case
    by (simp add: st t split: prod.split)
next
  case (3 copy v xs e)
  let ?d = "sk_data ret"
  have i: "i < length ?d" "?d ! i = Some v" and rest: "drop (Suc i) (take (Suc i + length xs) ?d) = xs"
    using "3.prems" by (simp_all add: drop_take) (simp_all add: Cons_nth_drop_Suc [symmetric])
  show ?case
  proof (cases "copy v e")
    case (Pair r e1)
    show ?thesis
    proof (cases r)
      case None
      with Pair i show ?thesis by simp
    next
      case (Some w)
      let ?r = "ret\<lparr>sk_data := ?d[i := Some w]\<rparr>"
      have t: "take (Suc i) (sk_data ?r) = take i ?d @ [Some w]"
        using i by (simp add: take_Suc_conv_app_nth)
      have st: "store_at (sk_data ?r) (Suc i) made = store_at ?d i (Some w # made)" for made
        using i by (simp add: store_at_def take_Suc_conv_app_nth)
      have "drop (Suc i) (take (Suc i + length xs) (sk_data ?r)) = xs" using rest by (simp add: drop_take)
      from "3.IH" [OF Pair [symmetric] Some, of "Suc i" ?r, OF _ this] "3.prems"(1) Pair Some i
      show ?thesis using st t by (simp split: prod.split)
    qed
  qed
qed

lemma length_copy_run: "copy_run copy xs e = (made, True, e') \<Longrightarrow> length made = length xs"
  by (induction copy xs e arbitrary: made rule: copy_run.induct) (auto split: option.splits prod.splits)

text \<open>The elements of a deep copy are \<open>NULL\<close> where the copied ones are, and copies otherwise.\<close>

lemma copy_run_elems:
  assumes "copy_run copy xs e = (made, fin, e')" "set xs \<subseteq> A" "\<forall>v e w e'. copy v e = (Some w, e') \<longrightarrow> Some w \<in> A"
  shows "set made \<subseteq> A"
  using assms
proof (induction copy xs e arbitrary: made fin e' rule: copy_run.induct)
  case (3 copy v xs e)
  obtain r e1 where r: "copy v e = (r, e1)" by (rule prod.exhaust)
  show ?case
  proof (cases r)
    case None
    with 3(2) r show ?thesis by simp
  next
    case (Some w)
    obtain m f e2 where m: "copy_run copy xs e1 = (m, f, e2)" by (rule prod_cases3)
    with 3(2) r Some have "made = Some w # m" by simp
    moreover have "set m \<subseteq> A" using 3(1) [OF r [symmetric] Some m _ 3(4)] 3(3) by simp
    moreover have "Some w \<in> A" using 3(4) r Some by blast
    ultimately show ?thesis by simp
  qed
qed (auto split: prod.splits)

lemma sk_deep_copy_cases:
  assumes "palloc_ok palloc" "stack_ok s" "sk_deep_copy palloc ccopy copy cfree free (Some s) e = (Some s', e')"
  obtains made where "copy_run (ccopy copy) (elems s) e = (made, True, e')" "stack_ok s'" "elems s' = made"
    "sk_sorted s' = sk_sorted s" "sk_comp s' = sk_comp s"
proof -
  obtain t where dup: "sk_dup palloc (Some s) = Some t" using assms(3) by (auto simp: sk_deep_copy_def split: option.splits)
  from sk_dup_eq [OF assms(1,2) this] have t: "stack_ok t" "elems t = elems s" "sk_count t = length (elems s)"
    "sk_sorted t = sk_sorted s" "sk_comp t = sk_comp s" using assms(2) by simp_all
  have d: "0 + length (elems s) \<le> length (sk_data t)" "drop 0 (take (0 + length (elems s)) (sk_data t)) = elems s"
    using t by (simp_all add: stack_ok_def elems_def)
  have run: "deep_copy_loop (ccopy copy) (cfree free) t 0 (length (elems s)) e = (Some s', e')"
    using assms(3) dup t(3) by (simp add: sk_deep_copy_def)
  obtain made fin e1 where c: "copy_run (ccopy copy) (elems s) e = (made, fin, e1)" by (rule prod_cases3)
  have s': "fin" "s' = t\<lparr>sk_data := store_at (sk_data t) 0 made\<rparr>" "e' = e1"
    using run c unfolding deep_copy_loop_eq [OF d] by (auto split: if_splits)
  have len: "length made = length (elems s)" using c s'(1) by (auto dest: length_copy_run)
  from c s' len t d(1) show thesis by (intro that) (auto simp: stack_ok_def elems_def store_at_def)
qed

section \<open>Reachable stacks\<close>

text \<open>
  The operations that keep the sorted flag right, on a stack of elements in \<open>A\<close>. The memory
  available may differ from call to call.
\<close>

inductive sk_step :: "('c \<Rightarrow> 'a ptr \<Rightarrow> 'a ptr \<Rightarrow> int) \<Rightarrow> 'a ptr set \<Rightarrow> ('a, 'c) stack \<Rightarrow> ('a, 'c) stack \<Rightarrow> bool"
  for call A where
  insert: "palloc_ok palloc \<Longrightarrow> p \<in> A \<Longrightarrow> sk_insert palloc p pos (Some s) = (n, Some s') \<Longrightarrow> sk_step call A s s'"
| delete: "sk_delete pos (Some s) = (x, Some s') \<Longrightarrow> sk_step call A s s'"
| zero: "sk_zero (Some s) = Some s' \<Longrightarrow> sk_step call A s s'"
| sort: "sk_sort call (Some s) = Some s' \<Longrightarrow> sk_step call A s s'"
| set_cmp: "sk_set_cmp_func c s = (old, s') \<Longrightarrow> sk_step call A s s'"
| dup: "palloc_ok palloc \<Longrightarrow> sk_dup palloc (Some s) = Some s' \<Longrightarrow> sk_step call A s s'"

text \<open>
  The stacks that a client can build with all operations. \<open>sk_set\<close> and \<open>sk_deep_copy\<close> replace
  elements and keep the sorted flag, whatever the new elements are; the truth value tells
  whether the flag may be believed: it is lost when elements are replaced while the flag is set,
  and regained when an operation clears the flag.
\<close>

inductive reachable :: "('c \<Rightarrow> 'a ptr \<Rightarrow> 'a ptr \<Rightarrow> int) \<Rightarrow> ('p \<Rightarrow> 'a \<Rightarrow> 'e \<Rightarrow> 'a ptr \<times> 'e) \<Rightarrow> ('f \<Rightarrow> 'a \<Rightarrow> 'e \<Rightarrow> 'e) \<Rightarrow>
    'a ptr set \<Rightarrow> bool \<Rightarrow> ('a, 'c) stack \<Rightarrow> bool"
  for call ccopy cfree A where
  new: "palloc_ok palloc \<Longrightarrow> sk_new palloc c = Some s \<Longrightarrow> reachable call ccopy cfree A True s"
| step: "reachable call ccopy cfree A believed s \<Longrightarrow> sk_step call A s s' \<Longrightarrow>
    reachable call ccopy cfree A (believed \<or> \<not> sk_sorted s') s'"
| set_value: "reachable call ccopy cfree A believed s \<Longrightarrow> p \<in> A \<Longrightarrow> sk_set i p (Some s) = (x, Some s') \<Longrightarrow>
    reachable call ccopy cfree A (\<not> sk_sorted s') s'"
| deep_copy: "reachable call ccopy cfree A believed s \<Longrightarrow> palloc_ok palloc \<Longrightarrow>
    (\<forall>v e w e'. ccopy copy v e = (Some w, e') \<longrightarrow> Some w \<in> A) \<Longrightarrow>
    sk_deep_copy palloc ccopy copy cfree free (Some s) e = (Some s', e') \<Longrightarrow>
    reachable call ccopy cfree A (\<not> sk_sorted s') s'"

text \<open>The remaining operations are special cases.\<close>

lemma sk_step_push: "palloc_ok palloc \<Longrightarrow> p \<in> A \<Longrightarrow> sk_push palloc p (Some s) = (n, Some s') \<Longrightarrow> sk_step call A s s'"
  unfolding sk_push_def by (rule sk_step.insert)

lemma sk_step_removed:
  shows "sk_pop (Some s) = (x, Some s') \<Longrightarrow> sk_step call A s s' \<or> s' = s"
    and "sk_shift (Some s) = (x, Some s') \<Longrightarrow> sk_step call A s s' \<or> s' = s"
    and "sk_delete_ptr p (Some s) = (x, Some s') \<Longrightarrow> sk_step call A s s' \<or> s' = s"
  by (auto simp: sk_pop_def sk_shift_def sk_delete_ptr_def split: if_splits option.splits intro: sk_step.delete)

definition flag_ok :: "('c \<Rightarrow> 'a ptr \<Rightarrow> 'a ptr \<Rightarrow> int) \<Rightarrow> ('a, 'c) stack \<Rightarrow> bool" where
  "flag_ok call s \<longleftrightarrow>
     (sk_sorted s \<longrightarrow> (\<forall>c. sk_comp s = Some c \<longrightarrow> sorted_wrt (\<lambda>a b. call c a b \<le> 0) (elems s)))"

lemma sorted_wrt_remove:
  assumes "sorted_wrt P xs" shows "sorted_wrt P (take i xs @ drop (Suc i) xs)"
proof -
  have "sorted_wrt P (take i xs)" "\<forall>x\<in>set (take i xs). \<forall>y\<in>set (drop i xs). P x y"
    using assms sorted_wrt_append [of P "take i xs" "drop i xs"] by simp_all
  moreover have "set (drop (Suc i) xs) \<subseteq> set (drop i xs)" by (rule set_drop_subset_set_drop) simp
  ultimately show ?thesis using sorted_wrt_drop [OF assms, of "Suc i"] by (auto simp: sorted_wrt_append)
qed

lemma sk_delete_past: "\<not> pos < sk_count s \<Longrightarrow> sk_delete pos (Some s) = (None, Some s)"
  by (simp add: sk_delete_def)

lemma sk_step_bounds:
  assumes "sk_step call A s s'" "stack_ok s" "set (elems s) \<subseteq> A"
  shows "stack_ok s' \<and> set (elems s') \<subseteq> A"
  using assms
proof cases
  case (insert palloc p pos n)
  from sk_insert_cases [OF insert(1) assms(2) insert(3)] show ?thesis
    by cases (use insert assms in \<open>auto dest: in_set_takeD in_set_dropD\<close>)
next
  case (delete pos x)
  show ?thesis
  proof (cases "pos < sk_count s")
    case True
    from sk_delete_eq [OF assms(2) True] show ?thesis
      by cases (use delete assms in \<open>auto dest: in_set_takeD in_set_dropD\<close>)
  next
    case False
    with delete assms show ?thesis by (simp add: sk_delete_past)
  qed
next
  case zero
  with sk_zero_eq [OF assms(2)] show ?thesis by auto
next
  case sort
  from assms(2) show ?thesis
    by (rule sk_sort_eq [where call = call]) (use sort assms in \<open>auto split: option.splits if_splits\<close>)
next
  case (set_cmp c old)
  with assms show ?thesis by (cases "sk_comp s = c") (auto simp: sk_set_cmp_func_def stack_ok_def elems_def)
next
  case (dup palloc)
  from sk_dup_eq [OF dup(1) assms(2) dup(2)] assms show ?thesis by simp
qed

lemma sk_step_flag:
  assumes cmp: "\<forall>c. comparator (call c) A"
    and "sk_step call A s s'" "stack_ok s" "set (elems s) \<subseteq> A" "flag_ok call s"
  shows "flag_ok call s'"
  using assms(2)
proof cases
  case (insert palloc p pos n)
  from sk_insert_cases [OF insert(1) assms(3) insert(3)] show ?thesis
    by cases (use assms in \<open>auto simp: flag_ok_def\<close>)
next
  case (delete pos x)
  show ?thesis
  proof (cases "pos < sk_count s")
    case True
    from sk_delete_eq [OF assms(3) True] show ?thesis
      by cases (use delete assms in \<open>auto simp: flag_ok_def intro: sorted_wrt_remove\<close>)
  next
    case False
    with delete assms show ?thesis by (simp add: sk_delete_past)
  qed
next
  case zero
  with sk_zero_eq [OF assms(3)] show ?thesis by (auto simp: flag_ok_def)
next
  case sort
  from assms(3) show ?thesis
  proof (rule sk_sort_eq [where call = call])
    fix t
    assume t: "sk_sort call (Some s) = Some t" "stack_ok t" "sk_comp t = sk_comp s"
      "elems t = (case sk_comp s of None \<Rightarrow> elems s
         | Some c \<Rightarrow> if sk_sorted s then elems s else qsort (call c) (elems s))"
      "sk_sorted t = (sk_sorted s \<or> sk_comp s \<noteq> None)"
    have "sorted_wrt (\<lambda>a b. call c a b \<le> 0) (qsort (call c) (elems s))" for c
      using comparator.ordered_qsort [OF cmp [rule_format] assms(4)] comparator.ordered_def [OF cmp [rule_format]]
      by blast
    with t assms(5) sort show ?thesis by (auto simp: flag_ok_def split: option.splits if_splits)
  qed
next
  case (set_cmp c old)
  with assms(5) show ?thesis
    by (cases "sk_comp s = c") (auto simp: sk_set_cmp_func_def flag_ok_def elems_def)
next
  case (dup palloc)
  from sk_dup_eq [OF dup(1) assms(3) dup(2)] assms(5) show ?thesis by (simp add: flag_ok_def)
qed

lemma sk_set_eq:
  assumes "sk_set i p (Some s) = (x, Some s')" "stack_ok s"
  shows "stack_ok s' \<and> elems s' = (elems s)[i := p]"
  using assms by (auto simp: sk_set_def stack_ok_def elems_def take_update_swap list_update_beyond split: if_splits)

lemma reachable_bounds:
  "reachable call ccopy cfree A believed s \<Longrightarrow> stack_ok s \<and> set (elems s) \<subseteq> A"
proof (induction rule: reachable.induct)
  case (new palloc c s)
  from sk_new_cases [OF new] show ?case by simp
next
  case (step believed s s')
  from sk_step_bounds [OF step.hyps(2)] step.IH show ?case by blast
next
  case (set_value believed s p i x s')
  with sk_set_eq [OF set_value.hyps(3)] show ?case by (auto dest: set_update_subset_insert [THEN subsetD])
next
  case (deep_copy believed s palloc copy free e s' e')
  then have ok: "stack_ok s" "set (elems s) \<subseteq> A" by simp_all
  from sk_deep_copy_cases [OF deep_copy.hyps(2) ok(1) deep_copy.hyps(4)] obtain made
    where m: "copy_run (ccopy copy) (elems s) e = (made, True, e')" "stack_ok s'" "elems s' = made" .
  from copy_run_elems [OF m(1) ok(2)] deep_copy.hyps(3) m(2,3) show ?case by blast
qed

lemma reachable_flag:
  assumes cmp: "\<forall>c. comparator (call c) A"
  shows "reachable call ccopy cfree A believed s \<Longrightarrow> believed \<Longrightarrow> flag_ok call s"
proof (induction rule: reachable.induct)
  case (new palloc c s)
  from sk_new_cases [OF new(1,2)] show ?case by (simp add: flag_ok_def)
next
  case (step believed s s')
  show ?case
  proof (cases "sk_sorted s'")
    case True
    with step.prems step.IH have "flag_ok call s" by simp
    from sk_step_flag [OF cmp step.hyps(2) _ _ this] reachable_bounds [OF step.hyps(1)] show ?thesis by blast
  qed (simp add: flag_ok_def)
qed (simp_all add: flag_ok_def)

lemma reachable_inv:
  assumes "\<forall>c. comparator (call c) A" "reachable call ccopy cfree A True s"
  shows "stack_ok s \<and> set (elems s) \<subseteq> A \<and> flag_ok call s"
  using reachable_bounds [OF assms(2)] reachable_flag [OF assms TrueI] by blast

lemma reachable_believed_step:
  "reachable call ccopy cfree A True s \<Longrightarrow> sk_step call A s s' \<Longrightarrow> reachable call ccopy cfree A True s'"
  using reachable.step [of call ccopy cfree A True s s'] by simp

section \<open>Searching a sorted stack\<close>

context comparator
begin

lemma sorted_nth: "sorted_wrt (\<lambda>a b. cmp a b \<le> 0) xs \<Longrightarrow> set xs \<subseteq> A \<Longrightarrow> i \<le> j \<Longrightarrow> j < length xs \<Longrightarrow>
    cmp (xs ! i) (xs ! j) \<le> 0"
  using refl [OF subsetD, of _ "xs ! i"] by (cases "i = j") (auto simp: sorted_wrt_iff_nth_less)

lemma key_above:
  assumes "sorted_wrt (\<lambda>a b. cmp a b \<le> 0) xs" "set xs \<subseteq> A" "p \<in> A" "i \<le> j" "j < length xs" "0 < cmp p (xs ! j)"
  shows "0 < cmp p (xs ! i)"
proof (rule ccontr)
  assume "\<not> 0 < cmp p (xs ! i)"
  moreover have "xs ! i \<in> A" "xs ! j \<in> A" using assms(2,4,5) by auto
  ultimately show False
    using trans [of p "xs ! i" "xs ! j"] sorted_nth [OF assms(1,2,4,5)] assms(3,6) by simp
qed

lemma key_below:
  assumes "sorted_wrt (\<lambda>a b. cmp a b \<le> 0) xs" "set xs \<subseteq> A" "p \<in> A" "i \<le> j" "j < length xs" "cmp p (xs ! i) < 0"
  shows "cmp p (xs ! j) < 0"
proof -
  have "xs ! i \<in> A" "xs ! j \<in> A" using assms(2,4,5) by auto
  with less_trans [of p "xs ! i" "xs ! j"] sorted_nth [OF assms(1,2,4,5)] assms(3,6) show ?thesis by simp
qed

lemma find_sorted_exact:
  assumes "sorted_wrt (\<lambda>a b. cmp a b \<le> 0) (take n dat)" "set (take n dat) \<subseteq> A" "p \<in> A" "n \<le> length dat"
  shows "find_sorted (cmp p) dat 0 n = find_first (\<lambda>x. cmp p x = 0) dat 0 n"
proof -
  have "0 < cmp p (dat ! i)" if "i \<le> j" "j < n" "0 < cmp p (dat ! j)" for i j
    using key_above [OF assms(1-3) that(1)] that assms(4) by simp
  moreover have "cmp p (dat ! j) < 0" if "i \<le> j" "j < n" "cmp p (dat ! i) < 0" for i j
    using key_below [OF assms(1-3) that(1)] that assms(4) by simp
  ultimately show ?thesis using find_sorted_first [of 0 n "cmp p" dat] by (metis minus_nat.diff_0)
qed

end

definition sk_match :: "('c \<Rightarrow> 'a ptr \<Rightarrow> 'a ptr \<Rightarrow> int) \<Rightarrow> ('a, 'c) stack \<Rightarrow> 'a ptr \<Rightarrow> 'a ptr \<Rightarrow> bool" where
  "sk_match call s p x = (case sk_comp s of None \<Rightarrow> x = p | Some c \<Rightarrow> p \<noteq> None \<and> call c p x = 0)"

lemma sk_find_first:
  assumes "\<forall>c. comparator (call c) A" "stack_ok s" "set (elems s) \<subseteq> A" "flag_ok call s" "p \<in> A"
  shows "sk_find call p (Some s) = find_first (sk_match call s p) (sk_data s) 0 (sk_count s)"
proof (cases "sk_comp s")
  case None
  then have "sk_match call s p = (\<lambda>x. x = p)" by (auto simp: sk_match_def)
  with None show ?thesis by (simp add: sk_find_def)
next
  case c: (Some c)
  show ?thesis
  proof (cases "p = None")
    case True
    then have "find_first (sk_match call s p) (sk_data s) 0 (sk_count s) = None"
      using c by (simp add: find_first_None sk_match_def)
    with c True show ?thesis by (simp add: sk_find_def)
  next
    case False
    then have "sk_match call s p = (\<lambda>x. call c p x = 0)" using c by (auto simp: sk_match_def)
    moreover have "find_sorted (call c p) (sk_data s) 0 (sk_count s) =
        find_first (\<lambda>x. call c p x = 0) (sk_data s) 0 (sk_count s)" if "sk_sorted s"
      using assms c that
      by (intro comparator.find_sorted_exact [OF assms(1) [rule_format]])
        (auto simp: flag_ok_def elems_def stack_ok_def)
    ultimately show ?thesis using c False by (auto simp: sk_find_def sk_is_sorted_def)
  qed
qed

section \<open>What the stacks promise\<close>

text \<open>A consistent comparison for examples: integers in ascending order, \<open>NULL\<close> first.\<close>

fun int_order :: "unit \<Rightarrow> int ptr \<Rightarrow> int ptr \<Rightarrow> int" where
  "int_order _ (Some x) (Some y) = x - y"
| "int_order _ None None = 0"
| "int_order _ None (Some y) = - 1"
| "int_order _ (Some x) None = 1"

lemma comparator_int_order: "comparator (int_order c) UNIV"
proof
  fix a b d :: "int ptr"
  show "int_order c a b \<le> 0 \<longleftrightarrow> 0 \<le> int_order c b a" by (cases a; cases b) auto
  show "int_order c a b \<le> 0 \<Longrightarrow> int_order c b d \<le> 0 \<Longrightarrow> int_order c a d \<le> 0"
    by (cases a; cases b; cases d) auto
qed

definition example_stack :: "int ptr list \<Rightarrow> bool \<Rightarrow> (int, unit) stack" where
  "example_stack xs flag = \<lparr>sk_count = length xs, sk_data = xs @ replicate (4 - length xs) None,
     sk_sorted = flag, sk_num_alloc = 4, sk_comp = Some ()\<rparr>"

lemma example_reachable:
  "reachable int_order ccopy cfree UNIV True (example_stack [Some 1, Some 2, Some 2] True)"
proof -
  have runs: "sk_new null_heap (Some ()) = Some (example_stack [] False)"
    "sk_push null_heap (Some 2) (Some (example_stack [] False)) = (1, Some (example_stack [Some 2] False))"
    "sk_push null_heap (Some 1) (Some (example_stack [Some 2] False)) =
      (2, Some (example_stack [Some 2, Some 1] False))"
    "sk_push null_heap (Some 2) (Some (example_stack [Some 2, Some 1] False)) =
      (3, Some (example_stack [Some 2, Some 1, Some 2] False))"
    "sk_sort int_order (Some (example_stack [Some 2, Some 1, Some 2] False)) =
      Some (example_stack [Some 1, Some 2, Some 2] True)" by code_simp+
  note push = reachable_believed_step [OF _ sk_step_push [OF palloc_ok_null_heap UNIV_I]]
  from reachable.new [OF palloc_ok_null_heap runs(1)] have "reachable int_order ccopy cfree UNIV True (example_stack [] False)" .
  from reachable_believed_step [OF push [OF push [OF push [OF this runs(2)] runs(3)] runs(4)] sk_step.sort [OF runs(5)]]
  show ?thesis .
qed

text \<open>
  C20: every stack that a client builds with any of the operations, whatever memory is available,
  has its elements inside the allocated array with a slot to spare. With consistent comparison functions
  its sorted flag is only set when its elements are in ascending order of its comparison
  function, unless \<open>sk_set\<close> or \<open>sk_deep_copy\<close> has replaced elements under a set flag that no
  operation has cleared since: these two keep the flag whatever they store.
\<close>

theorem stack_invariant:
  assumes "reachable call ccopy cfree A believed s"
  shows "sk_count s < sk_num_alloc s \<and> length (sk_data s) = sk_num_alloc s \<and>
    ((\<forall>c. comparator (call c) A) \<longrightarrow> believed \<longrightarrow> sk_sorted s \<longrightarrow> (\<forall>c. sk_comp s = Some c \<longrightarrow>
      (\<forall>i j. i < j \<longrightarrow> j < sk_count s \<longrightarrow> call c (sk_value (Some s) i) (sk_value (Some s) j) \<le> 0)))"
  using reachable_bounds [OF assms] reachable_flag [OF _ assms]
  by (auto simp: stack_ok_def flag_ok_def sorted_wrt_iff_nth_less sk_value_def elems_def)

theorem stack_invariant_witness:
  "sk_count (example_stack [Some 1, Some 2, Some 2] True) < 4 \<and>
    int_order () (sk_value (Some (example_stack [Some 1, Some 2, Some 2] True)) 0)
      (sk_value (Some (example_stack [Some 1, Some 2, Some 2] True)) 2) \<le> 0"
  using stack_invariant [OF example_reachable] comparator_int_order by (simp add: example_stack_def)

text \<open>
  C21: searching a stack finds the first element that matches, by the comparison function when
  there is one and by identity otherwise, and fails only when there is none: the binary search
  of a sorted stack agrees with the linear search of an unsorted one.
\<close>

theorem sk_find_exact:
  assumes "\<forall>c. comparator (call c) A" "reachable call ccopy cfree A True s" "p \<in> A"
  shows "(sk_find call p (Some s) = Some k \<longleftrightarrow> k < sk_num (Some s) \<and> sk_match call s p (sk_value (Some s) k) \<and>
      (\<forall>j<k. \<not> sk_match call s p (sk_value (Some s) j))) \<and>
    (sk_find call p (Some s) = None \<longleftrightarrow> (\<forall>j < sk_num (Some s). \<not> sk_match call s p (sk_value (Some s) j)))"
proof -
  have "sk_find call p (Some s) = find_first (sk_match call s p) (sk_data s) 0 (sk_count s)"
    using reachable_inv [OF assms(1,2)] assms by (intro sk_find_first) auto
  then show ?thesis by (auto simp: find_first_Some find_first_None sk_num_def sk_value_def)
qed

theorem sk_find_exact_witness:
  "sk_find int_order (Some 2) (Some (example_stack [Some 1, Some 2, Some 2] True)) = Some 1"
proof -
  have "sk_find int_order (Some 2) (Some (example_stack [Some 1, Some 2, Some 2] True)) = Some 1 \<longleftrightarrow>
    1 < (3 :: nat) \<and> int_order () (Some 2) (Some 2) = 0 \<and> int_order () (Some 2) (Some 1) \<noteq> 0"
    using sk_find_exact [OF _ example_reachable UNIV_I, of "Some 2" 1] comparator_int_order
    by (simp add: example_stack_def sk_num_def sk_value_def sk_match_def)
  then show ?thesis by simp
qed

text \<open>
  C22: insertion, removal, push and pop are the operations on lists; a failed insertion returns 0
  and changes nothing, and popping returns what was pushed last and restores the stack.
\<close>

theorem sk_list_operations:
  assumes "palloc_ok palloc" "stack_ok s"
  shows "(sk_insert palloc p pos (Some s) = (n, sk) \<longrightarrow>
      n = 0 \<and> sk = Some s \<or> n = sk_num sk \<and> sk_ok sk \<and> sk_elems sk = take pos (elems s) @ p # drop pos (elems s)) \<and>
    (pos < sk_num (Some s) \<longrightarrow> sk_delete pos (Some s) = (x, sk) \<longrightarrow>
      x = elems s ! pos \<and> sk_ok sk \<and> sk_elems sk = take pos (elems s) @ drop (Suc pos) (elems s)) \<and>
    (sk_push palloc p (Some s) = (n, sk) \<and> n \<noteq> 0 \<longrightarrow> sk_pop sk = (x, sk') \<longrightarrow> x = p \<and> sk_elems sk' = elems s)"
proof -
  have s: "palloc_ok palloc \<and> sk_ok (Some s)" "sk_elems (Some s) = elems s" "sk_num (Some s) = length (elems s)"
    using assms by (simp_all add: sk_ok_def sk_elems_def sk_num_def)
  have num: "sk_ok t \<Longrightarrow> sk_num t = length (sk_elems t)" for t :: "('a, 'b) sk"
    by (auto simp: sk_ok_def sk_num_def sk_elems_def split: option.splits)
  have 1: "n = 0 \<and> sk = Some s \<or> n = sk_num sk \<and> sk_ok sk \<and> sk_elems sk = take pos (elems s) @ p # drop pos (elems s)"
    if "sk_insert palloc p pos (Some s) = (n, sk)"
    using sk_seq.ins [OF s(1) that] num [of sk] by (auto simp: s(2))
  have 2: "x = elems s ! pos \<and> sk_ok sk \<and> sk_elems sk = take pos (elems s) @ drop (Suc pos) (elems s)"
    if "pos < sk_num (Some s)" "sk_delete pos (Some s) = (x, sk)"
    using sk_seq.del [OF s(1) _ that(2)] that(1) by (simp add: s(2,3))
  have 3: "x = p \<and> sk_elems sk' = elems s"
    if push: "sk_push palloc p (Some s) = (n, sk)" "n \<noteq> 0" and pop: "sk_pop sk = (x, sk')"
  proof -
    from push have ins: "sk_insert palloc p (length (sk_elems (Some s))) (Some s) = (n, sk)"
      by (simp add: sk_push_def s)
    from sk_seq.ins [OF s(1) ins] push(2) have sk: "sk_ok sk" "length (sk_elems sk) = n" by auto
    then have "sk_delete (length (sk_elems sk) - 1) sk = (x, sk')"
      using pop push(2) by (auto simp: sk_pop_def sk_ok_def sk_elems_def split: option.splits if_splits)
    from sk_seq.pop_push [OF s(1) ins push(2) this] show ?thesis by (simp add: s(2))
  qed
  from 1 2 3 show ?thesis by blast
qed

theorem sk_list_operations_witness:
  "\<exists>sk. sk_push null_heap (Some 7) (Some (example_stack [Some 1] False)) = (2, sk) \<and>
     sk_elems (snd (sk_pop sk)) = [Some 1] \<and> fst (sk_pop sk) = Some 7"
proof -
  let ?s = "example_stack [Some 1] False"
  have ok: "stack_ok ?s" "elems ?s = [Some 1]" by (simp_all add: stack_ok_def example_stack_def elems_def)
  have push: "sk_push null_heap (Some 7) (Some ?s) = (2, Some (example_stack [Some 1, Some 7] False))" by code_simp
  obtain x sk' where pop: "sk_pop (Some (example_stack [Some 1, Some 7] False)) = (x, sk')" by (rule prod.exhaust)
  have "x = Some 7 \<and> sk_elems sk' = [Some 1]"
    using sk_list_operations [OF palloc_ok_null_heap ok(1), of "Some 7" _ 2
        "Some (example_stack [Some 1, Some 7] False)" x sk'] push pop ok(2) by simp
  with push pop show ?thesis by auto
qed

text \<open>
  Sorting a reachable stack keeps exactly its elements, puts them into ascending order of the
  comparison function, and sets the flag; without a comparison function it does nothing.
\<close>

theorem sk_sort_exact:
  assumes "\<forall>c. comparator (call c) A" "reachable call ccopy cfree A True s" "sk_sort call (Some s) = Some s'"
  shows "mset (elems s') = mset (elems s) \<and>
    (case sk_comp s of None \<Rightarrow> s' = s
     | Some c \<Rightarrow> sk_sorted s' \<and> sorted_wrt (\<lambda>a b. call c a b \<le> 0) (elems s'))"
proof -
  from reachable_inv [OF assms(1,2)] have ok: "stack_ok s" by simp
  from reachable_inv [OF assms(1) reachable_believed_step [OF assms(2) sk_step.sort [OF assms(3)]]] have f: "flag_ok call s'" by simp
  from ok show ?thesis
    by (rule sk_sort_eq [where call = call])
      (use assms(3) f in \<open>auto simp: flag_ok_def sk_sort_def split: option.splits if_splits\<close>)
qed

theorem sk_sort_exact_witness:
  "sk_sorted (the (sk_sort int_order (Some (example_stack [Some 1, Some 2, Some 2] True))))"
proof -
  have run: "sk_sort int_order (Some (example_stack [Some 1, Some 2, Some 2] True)) =
    Some (example_stack [Some 1, Some 2, Some 2] True)" by code_simp
  show ?thesis
    using sk_sort_exact [OF _ example_reachable run] comparator_int_order run by (simp add: example_stack_def)
qed

text \<open>
  C23: a deep copy either copies every element, in order, or fails and then frees exactly the
  copies it made, each once and in order, and nothing else; the copied stack is not touched.
\<close>

theorem sk_deep_copy_exact:
  assumes "palloc_ok palloc" "stack_ok s" "sk_dup palloc (Some s) \<noteq> None"
    and "copy_run (call_copy copy) (elems s) e = (made, fin, e1)"
    and "sk_deep_copy palloc call_copy copy call_free free (Some s) e = (r, e2)"
  shows "if fin then sk_elems r = made \<and> sk_ok r \<and> e2 = e1
    else r = None \<and> e2 = pop_free_loop (call_free free) made e1"
proof -
  from assms(3) obtain t where dup: "sk_dup palloc (Some s) = Some t" by blast
  from sk_dup_eq [OF assms(1,2) this] have t: "stack_ok t" "elems t = elems s" "sk_count t = length (elems s)"
    using assms(2) by simp_all
  have d: "0 + length (elems s) \<le> length (sk_data t)" "drop 0 (take (0 + length (elems s)) (sk_data t)) = elems s"
    using t by (simp_all add: stack_ok_def elems_def)
  have run: "deep_copy_loop (call_copy copy) (call_free free) t 0 (length (elems s)) e = (r, e2)"
    using assms(5) dup t(3) by (simp add: sk_deep_copy_def)
  show ?thesis
  proof (cases fin)
    case True
    then have len: "length made = length (elems s)" using assms(4) by (auto dest: length_copy_run)
    have "r = Some (t\<lparr>sk_data := store_at (sk_data t) 0 made\<rparr>)" "e2 = e1"
      using run assms(4) True unfolding deep_copy_loop_eq [OF d] by simp_all
    then show ?thesis
      using True len t(1,3) d(1) by (auto simp: sk_elems_def sk_ok_def stack_ok_def elems_def store_at_def)
  next
    case False
    then show ?thesis using run assms(4) unfolding deep_copy_loop_eq [OF d] by simp
  qed
qed

text \<open>Copies come from a supply of objects that runs out after one; freed objects are recorded.\<close>

definition example_copy :: "unit \<Rightarrow> int \<Rightarrow> int list \<Rightarrow> int ptr \<times> int list" where
  "example_copy _ v e = (if length e < 1 then (Some (v + 10), e @ [v + 10]) else (None, e))"

definition example_free :: "unit \<Rightarrow> int \<Rightarrow> int list \<Rightarrow> int list" where
  "example_free _ v e = remove1 v e"


theorem sk_deep_copy_exact_witness:
  "sk_deep_copy null_heap example_copy () example_free () (Some (example_stack [Some 1, None, Some 2] False)) [] =
    (None, [])"
proof -
  let ?s = "example_stack [Some 1, None, Some 2] False"
  have ok: "stack_ok ?s" "elems ?s = [Some 1, None, Some 2]"
    by (simp_all add: stack_ok_def example_stack_def elems_def)
  have dup: "sk_dup null_heap (Some ?s) \<noteq> None" by code_simp
  have run: "copy_run (example_copy ()) (elems ?s) [] = ([Some 11, None], False, [11])"
    unfolding ok(2) by (simp add: example_copy_def)
  obtain r e where "sk_deep_copy null_heap example_copy () example_free () (Some ?s) [] = (r, e)"
    by (rule prod.exhaust)
  with sk_deep_copy_exact [OF palloc_ok_null_heap ok(1) dup run this] show ?thesis
    by (simp add: example_free_def)
qed

text \<open>
  \<open>sk_set\<close> keeps the sorted flag although it may put an element out of order. Searching the
  stack 1, 2, 3 for 2 succeeds; after replacing 1 by 9 the element 2 is still there, but the
  search does not find it.
\<close>

theorem sk_set_breaks_search:
  "let s = Some (example_stack [Some 1, Some 2, Some 3] True); t = snd (sk_set 0 (Some 9) s)
   in sk_find int_order (Some 2) s = Some 1 \<and> sk_is_sorted t \<and> sk_value t 1 = Some 2 \<and>
      sk_find int_order (Some 2) t = None"
  by code_simp

end
