(* ===== verification/LHash.thy ===== *)
theory LHash
  imports Mem "HOL-Library.Multiset"
begin

text \<open>
  \<open>crypto/lhash/lhash.c\<close>: the chained hash table. A chain is a list of items; a pointer to a
  pointer into a chain is the number of the bucket with a position in its chain, the position
  of the terminating \<open>NULL\<close> being the length. Functions are known by identifiers as in the
  code; \<open>call_hash\<close> and \<open>call_cmp\<close> say what calling them returns. \<open>alloc n\<close> tells whether an
  allocation of \<open>n\<close> bytes succeeds.
\<close>

section \<open>The code\<close>

datatype 'a item = Item (it_hash: u32) (it_data: 'a)

record ('a, 'h, 'c) lhash =
  num_items :: nat
  buckets :: "'a item list list"
  num_buckets :: nat
  callback_depth :: u32
  lh_comp :: 'c
  lh_hash :: 'h

definition kMinNumBuckets :: nat where
  "kMinNumBuckets = 16"

definition kMaxAverageChainLength :: nat where
  "kMaxAverageChainLength = 2"

definition kMinAverageChainLength :: nat where
  "kMinAverageChainLength = 1"

definition UINT_MAX :: u32 where
  "UINT_MAX = - 1"

definition sizeof_LHASH :: nat where
  "sizeof_LHASH = 48"

definition sizeof_LHASH_ITEM :: nat where
  "sizeof_LHASH_ITEM = 24"

definition sizeof_bucket :: nat where
  "sizeof_bucket = 8"

type_synonym memory = "nat \<Rightarrow> bool"

definition lh_new :: "memory \<Rightarrow> 'h \<Rightarrow> 'c \<Rightarrow> ('a, 'h, 'c) lhash option" where
  "lh_new alloc hsh cmpf =
     (if \<not> alloc sizeof_LHASH then None
      else if \<not> alloc (sizeof_bucket * kMinNumBuckets) then None
      else Some \<lparr>num_items = 0, buckets = replicate kMinNumBuckets [], num_buckets = kMinNumBuckets,
             callback_depth = 0, lh_comp = cmpf, lh_hash = hsh\<rparr>)"

definition lh_num_items :: "('a, 'h, 'c) lhash \<Rightarrow> nat" where
  "lh_num_items lh = num_items lh"

fun chain_pos :: "('a \<Rightarrow> bool) \<Rightarrow> 'a item list \<Rightarrow> nat" where
  "chain_pos P [] = 0"
| "chain_pos P (cur # rest) = (if P (it_data cur) then 0 else Suc (chain_pos P rest))"

text \<open>The hash, the number of the bucket and the position in its chain.\<close>

definition get_next_ptr_and_hash ::
    "('h \<Rightarrow> 'a \<Rightarrow> u32) \<Rightarrow> ('c \<Rightarrow> 'a \<Rightarrow> 'a \<Rightarrow> int) \<Rightarrow> ('a, 'h, 'c) lhash \<Rightarrow> 'a \<Rightarrow> u32 \<times> nat \<times> nat" where
  "get_next_ptr_and_hash call_hash call_cmp lh dat =
     (let hsh = call_hash (lh_hash lh) dat; i = unat hsh mod num_buckets lh
      in (hsh, i, chain_pos (\<lambda>x. call_cmp (lh_comp lh) x dat = 0) (buckets lh ! i)))"

definition get_next_ptr_by_key ::
    "('a, 'h, 'c) lhash \<Rightarrow> 'k \<Rightarrow> u32 \<Rightarrow> ('k \<Rightarrow> 'a \<Rightarrow> int) \<Rightarrow> nat \<times> nat" where
  "get_next_ptr_by_key lh key key_hash cmp_key =
     (let i = unat key_hash mod num_buckets lh
      in (i, chain_pos (\<lambda>x. cmp_key key x = 0) (buckets lh ! i)))"

text \<open>\<open>*next_ptr\<close>: the item there, \<open>None\<close> for the \<open>NULL\<close> at the end of the chain.\<close>

definition deref :: "('a, 'h, 'c) lhash \<Rightarrow> nat \<Rightarrow> nat \<Rightarrow> 'a item option" where
  "deref lh i pos = (if pos < length (buckets lh ! i) then Some (buckets lh ! i ! pos) else None)"

definition lh_retrieve ::
    "('h \<Rightarrow> 'a \<Rightarrow> u32) \<Rightarrow> ('c \<Rightarrow> 'a \<Rightarrow> 'a \<Rightarrow> int) \<Rightarrow> ('a, 'h, 'c) lhash \<Rightarrow> 'a \<Rightarrow> 'a option" where
  "lh_retrieve call_hash call_cmp lh dat =
     (case get_next_ptr_and_hash call_hash call_cmp lh dat of
        (_, i, pos) \<Rightarrow> map_option it_data (deref lh i pos))"

definition lh_retrieve_key ::
    "('a, 'h, 'c) lhash \<Rightarrow> 'k \<Rightarrow> u32 \<Rightarrow> ('k \<Rightarrow> 'a \<Rightarrow> int) \<Rightarrow> 'a option" where
  "lh_retrieve_key lh key key_hash cmp_key =
     (case get_next_ptr_by_key lh key key_hash cmp_key of
        (i, pos) \<Rightarrow> map_option it_data (deref lh i pos))"

text \<open>Every item is put in front of its new chain.\<close>

definition rebucket_item :: "nat \<Rightarrow> 'a item list list \<Rightarrow> 'a item \<Rightarrow> 'a item list list" where
  "rebucket_item n bs cur = (let k = unat (it_hash cur) mod n in bs[k := cur # bs ! k])"

definition lh_rebucket :: "memory \<Rightarrow> nat \<Rightarrow> ('a, 'h, 'c) lhash \<Rightarrow> ('a, 'h, 'c) lhash" where
  "lh_rebucket alloc new_num_buckets lh =
     (let alloc_size = sizeof_bucket * new_num_buckets mod SIZE_LIMIT in
      if alloc_size div sizeof_bucket \<noteq> new_num_buckets then lh
      else if \<not> alloc alloc_size then lh
      else lh\<lparr>num_buckets := new_num_buckets,
              buckets := foldl (foldl (rebucket_item new_num_buckets)) (replicate new_num_buckets []) (buckets lh)\<rparr>)"

definition lh_maybe_resize :: "memory \<Rightarrow> ('a, 'h, 'c) lhash \<Rightarrow> ('a, 'h, 'c) lhash" where
  "lh_maybe_resize alloc lh =
     (if callback_depth lh > 0 then lh
      else
        let avg_chain_length = num_items lh div num_buckets lh in
        if avg_chain_length > kMaxAverageChainLength then
          let new_num_buckets = num_buckets lh * 2 mod SIZE_LIMIT in
          if new_num_buckets > num_buckets lh then lh_rebucket alloc new_num_buckets lh else lh
        else if avg_chain_length < kMinAverageChainLength \<and> num_buckets lh > kMinNumBuckets then
          let new_num_buckets = num_buckets lh div 2;
              new_num_buckets = (if new_num_buckets < kMinNumBuckets then kMinNumBuckets else new_num_buckets)
          in lh_rebucket alloc new_num_buckets lh
        else lh)"

text \<open>\<open>lh_insert\<close> returns \<open>*old_data\<close> when it succeeds.\<close>

definition lh_insert ::
    "memory \<Rightarrow> ('h \<Rightarrow> 'a \<Rightarrow> u32) \<Rightarrow> ('c \<Rightarrow> 'a \<Rightarrow> 'a \<Rightarrow> int) \<Rightarrow> 'a \<Rightarrow> (('a, 'h, 'c) lhash, 'a option) reader" where
  "lh_insert alloc call_hash call_cmp dat lh =
     (case get_next_ptr_and_hash call_hash call_cmp lh dat of
        (hsh, i, pos) \<Rightarrow>
          (case deref lh i pos of
             Some old \<Rightarrow>
               (Some (Some (it_data old)),
                lh\<lparr>buckets := (buckets lh)[i := (buckets lh ! i)[pos := Item (it_hash old) dat]]\<rparr>)
           | None \<Rightarrow>
               if \<not> alloc sizeof_LHASH_ITEM then (None, lh)
               else (Some None, lh_maybe_resize alloc
                 (lh\<lparr>buckets := (buckets lh)[i := buckets lh ! i @ [Item hsh dat]],
                     num_items := num_items lh + 1\<rparr>))))"

definition lh_delete ::
    "memory \<Rightarrow> ('h \<Rightarrow> 'a \<Rightarrow> u32) \<Rightarrow> ('c \<Rightarrow> 'a \<Rightarrow> 'a \<Rightarrow> int) \<Rightarrow> 'a \<Rightarrow> ('a, 'h, 'c) lhash \<Rightarrow>
     'a option \<times> ('a, 'h, 'c) lhash" where
  "lh_delete alloc call_hash call_cmp dat lh =
     (case get_next_ptr_and_hash call_hash call_cmp lh dat of
        (_, i, pos) \<Rightarrow>
          (case deref lh i pos of
             None \<Rightarrow> (None, lh)
           | Some item \<Rightarrow>
               (Some (it_data item), lh_maybe_resize alloc
                 (lh\<lparr>buckets := (buckets lh)[i := take pos (buckets lh ! i) @ drop (pos + 1) (buckets lh ! i)],
                     num_items := num_items lh - 1\<rparr>))))"

text \<open>
  \<open>func lh dat e\<close> is what a callback makes of its own state \<open>e\<close>; it may look at the table, whose
  \<open>callback_depth\<close> it sees, but does not change it here.
\<close>

definition lh_doall_arg ::
    "memory \<Rightarrow> (('a, 'h, 'c) lhash \<Rightarrow> 'a \<Rightarrow> 'e \<Rightarrow> 'e) \<Rightarrow> ('a, 'h, 'c) lhash option \<Rightarrow> 'e \<Rightarrow>
     ('a, 'h, 'c) lhash option \<times> 'e" where
  "lh_doall_arg alloc func lh e =
     (case lh of
        None \<Rightarrow> (None, e)
      | Some lh \<Rightarrow>
          let lh = (if callback_depth lh < UINT_MAX then lh\<lparr>callback_depth := callback_depth lh + 1\<rparr> else lh);
              e = fold (fold (\<lambda>cur. func lh (it_data cur))) (buckets lh) e;
              lh = (if callback_depth lh < UINT_MAX then lh\<lparr>callback_depth := callback_depth lh - 1\<rparr> else lh)
          in (Some (lh_maybe_resize alloc lh), e))"

definition lh_strhash :: "bytes option \<Rightarrow> u32 option" where
  "lh_strhash c =
     (case c of
        None \<Rightarrow> Some 0
      | Some c \<Rightarrow> (case c_strlen c of None \<Rightarrow> None | Some n \<Rightarrow> Some (OPENSSL_hash32 c n)))"

end
