(* ===== verification/LHash_Spec.thy ===== *)
theory LHash_Spec
  imports LHash
begin

text \<open>
  The hash table as a finite map: lookups, insertions and removals agree with a map from keys to
  stored elements, however items are spread over buckets, and resizing is invisible.
\<close>

section \<open>Keys\<close>

text \<open>What the table asks of its comparison and hash functions: equal elements hash alike.\<close>

locale hash_keys =
  fixes eq :: "'a \<Rightarrow> 'a \<Rightarrow> bool" and hsh :: "'a \<Rightarrow> u32"
  assumes eq_refl: "eq a a" and eq_sym: "eq a b \<Longrightarrow> eq b a" and eq_trans: "eq a b \<Longrightarrow> eq b c \<Longrightarrow> eq a c"
    and hash_eq: "eq a b \<Longrightarrow> hsh a = hsh b"
begin

lemma eq_cong: "eq a b \<Longrightarrow> eq a c \<longleftrightarrow> eq b c"
  using eq_sym eq_trans by blast

definition single :: "'a multiset \<Rightarrow> bool" where
  "single M \<longleftrightarrow> (\<forall>q. size (filter_mset (\<lambda>x. eq x q) M) \<le> 1)"

lemma single_unique: "single M \<Longrightarrow> x \<in># M \<Longrightarrow> y \<in># M \<Longrightarrow> eq x q \<Longrightarrow> eq y q \<Longrightarrow> x = y"
proof (rule ccontr)
  assume s: "single M" and x: "x \<in># M" "eq x q" and y: "y \<in># M" "eq y q" and ne: "x \<noteq> y"
  from x y have "x \<in># filter_mset (\<lambda>x. eq x q) M" "y \<in># filter_mset (\<lambda>x. eq x q) M" by simp_all
  then obtain N where N: "filter_mset (\<lambda>x. eq x q) M = add_mset x N" "y \<in># add_mset x N"
    by (metis multi_member_split)
  with ne have "y \<in># N" by simp
  then have "N \<noteq> {#}" by auto
  then have "size (filter_mset (\<lambda>x. eq x q) M) > 1" by (simp add: N(1) nonempty_has_size)
  with s show False by (simp add: single_def) (metis not_less)
qed

lemma single_add: "single M \<Longrightarrow> \<forall>x\<in>#M. \<not> eq x d \<Longrightarrow> single (add_mset d M)"
  unfolding single_def
proof
  fix q assume s: "\<forall>q. size (filter_mset (\<lambda>x. eq x q) M) \<le> 1" and d: "\<forall>x\<in>#M. \<not> eq x d"
  show "size (filter_mset (\<lambda>x. eq x q) (add_mset d M)) \<le> 1"
  proof (cases "eq d q")
    case True
    with d have "\<forall>x\<in>#M. \<not> eq x q" using eq_sym eq_trans by blast
    then have "filter_mset (\<lambda>x. eq x q) M = {#}" by (simp add: filter_mset_eq_conv)
    with True show ?thesis by simp
  qed (use s in simp)
qed

lemma single_remove: "single (add_mset d M) \<Longrightarrow> single M \<and> (\<forall>x\<in>#M. \<not> eq x d)"
proof (intro conjI ballI notI)
  assume s: "single (add_mset d M)"
  show "single M"
    unfolding single_def
  proof
    fix q
    have "size (filter_mset (\<lambda>x. eq x q) M) \<le> size (filter_mset (\<lambda>x. eq x q) (add_mset d M))" by simp
    with s show "size (filter_mset (\<lambda>x. eq x q) M) \<le> 1" unfolding single_def using le_trans by blast
  qed
  fix x assume "x \<in># M" "eq x d"
  then have "x \<in># filter_mset (\<lambda>x. eq x d) M" by simp
  then have "filter_mset (\<lambda>x. eq x d) M \<noteq> {#}" by auto
  then have "0 < size (filter_mset (\<lambda>x. eq x d) M)" by (simp only: nonempty_has_size)
  moreover have "size (filter_mset (\<lambda>x. eq x d) (add_mset d M)) = Suc (size (filter_mset (\<lambda>x. eq x d) M))"
    using eq_refl [of d] by simp
  ultimately show False using s [unfolded single_def, rule_format, of d] by linarith
qed

lemma single_replace: "single (add_mset d M) \<Longrightarrow> eq d e \<Longrightarrow> single (add_mset e M)"
  using single_remove [of d M] eq_sym eq_trans by (intro single_add) blast+

text \<open>The element stored for a key.\<close>

definition lookup :: "'a multiset \<Rightarrow> 'a \<Rightarrow> 'a option" where
  "lookup M q = (if \<exists>x\<in>#M. eq x q then Some (THE x. x \<in># M \<and> eq x q) else None)"

lemma lookup_Some: "single M \<Longrightarrow> lookup M q = Some x \<longleftrightarrow> x \<in># M \<and> eq x q"
proof
  assume s: "single M"
  {
    assume "lookup M q = Some x"
    then obtain y where y: "y \<in># M" "eq y q" and x: "x = (THE x. x \<in># M \<and> eq x q)"
      by (auto simp: lookup_def split: if_splits)
    have "(THE x. x \<in># M \<and> eq x q) = y" using s y single_unique by blast
    with x y show "x \<in># M \<and> eq x q" by simp
  next
    assume x: "x \<in># M \<and> eq x q"
    then have "(THE x. x \<in># M \<and> eq x q) = x" using s single_unique by blast
    with x show "lookup M q = Some x" by (auto simp: lookup_def)
  }
qed

lemma lookup_None: "lookup M q = None \<longleftrightarrow> (\<forall>x\<in>#M. \<not> eq x q)"
  by (simp add: lookup_def)

lemma lookup_add:
  assumes "single (add_mset d M)"
  shows "lookup (add_mset d M) = (\<lambda>q. if eq d q then Some d else lookup M q)"
proof
  fix q
  note s = single_remove [OF assms]
  show "lookup (add_mset d M) q = (if eq d q then Some d else lookup M q)"
  proof (cases "eq d q")
    case True
    then show ?thesis using lookup_Some [OF assms, of q d] by simp
  next
    case False
    then show ?thesis
      using lookup_Some [OF assms, of q] lookup_Some [of M q] s lookup_None [of M q] lookup_None [of "add_mset d M" q]
      by (cases "lookup M q") auto
  qed
qed

lemma lookup_removed:
  assumes "single (add_mset d M)"
  shows "lookup M = (\<lambda>q. if eq d q then None else lookup (add_mset d M) q)"
proof
  fix q
  note s = single_remove [OF assms]
  show "lookup M q = (if eq d q then None else lookup (add_mset d M) q)"
  proof (cases "eq d q")
    case True
    then have "\<forall>x\<in>#M. \<not> eq x q" using s eq_sym eq_trans by blast
    with True show ?thesis by (simp add: lookup_None)
  qed (simp add: lookup_add [OF assms])
qed

end

section \<open>Buckets\<close>

definition placed :: "nat \<Rightarrow> 'a item list list \<Rightarrow> bool" where
  "placed n bs \<longleftrightarrow> length bs = n \<and> (\<forall>i<n. \<forall>it\<in>set (bs ! i). unat (it_hash it) mod n = i)"

lemma mset_concat_update:
  "i < length bs \<Longrightarrow> mset (concat (bs[i := c])) + mset (bs ! i) = mset (concat bs) + mset c"
  by (induction bs arbitrary: i) (auto split: nat.splits simp: ac_simps)

lemma rebucket_item_props:
  assumes "placed n bs" "0 < n"
  shows "placed n (rebucket_item n bs cur) \<and>
    mset (concat (rebucket_item n bs cur)) = add_mset cur (mset (concat bs))"
proof -
  let ?k = "unat (it_hash cur) mod n"
  have k: "?k < length bs" using assms by (simp add: placed_def)
  from mset_concat_update [OF this, of "cur # bs ! ?k"] assms k show ?thesis
    by (auto simp: rebucket_item_def placed_def Let_def nth_list_update)
qed

lemma rebucket_chain_props:
  "placed n bs \<Longrightarrow> 0 < n \<Longrightarrow> placed n (foldl (rebucket_item n) bs its) \<and>
    mset (concat (foldl (rebucket_item n) bs its)) = mset its + mset (concat bs)"
proof (induction its arbitrary: bs)
  case (Cons it its)
  from Cons.IH [of "rebucket_item n bs it"] rebucket_item_props [OF Cons.prems, of it] Cons.prems(2)
  show ?case by simp
qed simp

lemma rebucket_props:
  "placed n bs \<Longrightarrow> 0 < n \<Longrightarrow> placed n (foldl (foldl (rebucket_item n)) bs old) \<and>
    mset (concat (foldl (foldl (rebucket_item n)) bs old)) = mset (concat old) + mset (concat bs)"
proof (induction old arbitrary: bs)
  case (Cons its old)
  from Cons.IH [of "foldl (rebucket_item n) bs its"] rebucket_chain_props [OF Cons.prems, of its] Cons.prems(2)
  show ?case by (simp add: ac_simps)
qed simp

lemma placed_empty: "placed n (replicate n [])" "mset (concat (replicate n [])) = {#}"
  by (auto simp: placed_def)

section \<open>The invariant of the table\<close>

definition lh_eq :: "('c \<Rightarrow> 'a \<Rightarrow> 'a \<Rightarrow> int) \<Rightarrow> ('a, 'h, 'c) lhash \<Rightarrow> 'a \<Rightarrow> 'a \<Rightarrow> bool" where
  "lh_eq call_cmp lh a b \<longleftrightarrow> call_cmp (lh_comp lh) a b = 0"

lemma lh_eq_update [simp]:
  "lh_eq call_cmp (lh\<lparr>buckets := bs\<rparr>) = lh_eq call_cmp lh"
  "lh_eq call_cmp (lh\<lparr>num_items := n\<rparr>) = lh_eq call_cmp lh"
  "lh_eq call_cmp (lh\<lparr>callback_depth := k\<rparr>) = lh_eq call_cmp lh"
  by (simp_all add: lh_eq_def fun_eq_iff)

definition table_items :: "('a, 'h, 'c) lhash \<Rightarrow> 'a item multiset" where
  "table_items lh = mset (concat (buckets lh))"

lemma table_items_num [simp]: "table_items (lh\<lparr>num_items := n\<rparr>) = table_items lh"
  by (simp add: table_items_def)

definition stored :: "('a, 'h, 'c) lhash \<Rightarrow> 'a multiset" where
  "stored lh = image_mset it_data (table_items lh)"

definition lh_shape :: "('h \<Rightarrow> 'a \<Rightarrow> u32) \<Rightarrow> ('a, 'h, 'c) lhash \<Rightarrow> bool" where
  "lh_shape call_hash lh \<longleftrightarrow> placed (num_buckets lh) (buckets lh) \<and> kMinNumBuckets \<le> num_buckets lh \<and>
     num_items lh = size (table_items lh) \<and>
     (\<forall>it\<in>#table_items lh. it_hash it = call_hash (lh_hash lh) (it_data it))"

definition lh_ok :: "('h \<Rightarrow> 'a \<Rightarrow> u32) \<Rightarrow> ('c \<Rightarrow> 'a \<Rightarrow> 'a \<Rightarrow> int) \<Rightarrow> ('a, 'h, 'c) lhash \<Rightarrow> bool" where
  "lh_ok call_hash call_cmp lh \<longleftrightarrow> hash_keys (lh_eq call_cmp lh) (call_hash (lh_hash lh)) \<and>
     lh_shape call_hash lh \<and> hash_keys.single (lh_eq call_cmp lh) (stored lh)"

definition lh_map :: "('c \<Rightarrow> 'a \<Rightarrow> 'a \<Rightarrow> int) \<Rightarrow> ('a, 'h, 'c) lhash \<Rightarrow> 'a \<Rightarrow> 'a option" where
  "lh_map call_cmp lh = hash_keys.lookup (lh_eq call_cmp lh) (stored lh)"

text \<open>Resizing keeps the items and the functions.\<close>

definition same_items :: "('a, 'h, 'c) lhash \<Rightarrow> ('a, 'h, 'c) lhash \<Rightarrow> bool" where
  "same_items lh lh' \<longleftrightarrow> table_items lh' = table_items lh \<and> lh_comp lh' = lh_comp lh \<and>
     lh_hash lh' = lh_hash lh \<and> num_items lh' = num_items lh \<and> callback_depth lh' = callback_depth lh"

lemma same_items_refl [simp]: "same_items lh lh"
  by (simp add: same_items_def)

lemma lh_rebucket_props:
  assumes "lh_shape call_hash lh" "kMinNumBuckets \<le> n"
  shows "same_items lh (lh_rebucket alloc n lh) \<and> lh_shape call_hash (lh_rebucket alloc n lh)"
proof -
  have "0 < n" using assms(2) by (simp add: kMinNumBuckets_def)
  note props = rebucket_props [OF placed_empty(1) this, of "buckets lh"]
  show ?thesis
  proof (cases "lh_rebucket alloc n lh = lh")
    case False
    then have eq: "lh_rebucket alloc n lh =
        lh\<lparr>num_buckets := n, buckets := foldl (foldl (rebucket_item n)) (replicate n []) (buckets lh)\<rparr>"
      by (simp add: lh_rebucket_def Let_def split: if_splits)
    have "table_items (lh_rebucket alloc n lh) = table_items lh"
      unfolding eq table_items_def using props placed_empty(2) [of n] by simp
    with props assms show ?thesis by (simp add: same_items_def lh_shape_def eq)
  qed (use assms in simp)
qed

lemma lh_maybe_resize_props:
  assumes "lh_shape call_hash lh"
  shows "same_items lh (lh_maybe_resize alloc lh) \<and> lh_shape call_hash (lh_maybe_resize alloc lh)"
  unfolding lh_maybe_resize_def Let_def
  using assms lh_rebucket_props [OF assms] by (auto simp: lh_shape_def [of _ lh])

lemma same_items_ok:
  assumes "same_items lh lh'" "lh_shape call_hash lh'"
  shows "lh_ok call_hash call_cmp lh \<Longrightarrow> lh_ok call_hash call_cmp lh'" "lh_map call_cmp lh' = lh_map call_cmp lh"
proof -
  have "stored lh' = stored lh" "lh_eq call_cmp lh' = lh_eq call_cmp lh"
    using assms(1) by (simp_all add: same_items_def stored_def lh_eq_def fun_eq_iff)
  then show "lh_ok call_hash call_cmp lh \<Longrightarrow> lh_ok call_hash call_cmp lh'" "lh_map call_cmp lh' = lh_map call_cmp lh"
    using assms by (simp_all add: lh_ok_def lh_map_def same_items_def)
qed

section \<open>Finding the place of a key\<close>

lemma chain_pos_found: "chain_pos P its < length its \<longleftrightarrow> (\<exists>it\<in>set its. P (it_data it))"
  by (induction its) auto

lemma chain_pos_match: "chain_pos P its < length its \<Longrightarrow> P (it_data (its ! chain_pos P its))"
  by (induction its) (auto split: if_splits)

lemma chain_pos_le: "chain_pos P its \<le> length its"
  by (induction its) auto

lemma bucket_of:
  assumes "placed n bs" "it \<in> set (concat bs)"
  shows "it \<in> set (bs ! (unat (it_hash it) mod n))"
proof -
  from assms(2) obtain c where "c \<in> set bs" "it \<in> set c" by auto
  then obtain j where "j < length bs" "it \<in> set (bs ! j)" by (auto simp: in_set_conv_nth)
  with assms(1) show ?thesis by (auto simp: placed_def)
qed

lemma place_cases:
  assumes ok: "lh_ok call_hash call_cmp lh"
    and at: "get_next_ptr_and_hash call_hash call_cmp lh d = (h, i, pos)"
  obtains (found) it where "deref lh i pos = Some it" "i < length (buckets lh)" "pos < length (buckets lh ! i)"
      "it = buckets lh ! i ! pos" "it_data it \<in># stored lh" "lh_eq call_cmp lh (it_data it) d"
      "lh_map call_cmp lh d = Some (it_data it)" "h = call_hash (lh_hash lh) d"
  | (missing) "deref lh i pos = None" "i < length (buckets lh)" "\<forall>x\<in>#stored lh. \<not> lh_eq call_cmp lh x d"
      "lh_map call_cmp lh d = None" "h = call_hash (lh_hash lh) d" "i = unat h mod num_buckets lh"
proof -
  let ?P = "\<lambda>x. call_cmp (lh_comp lh) x d = 0"
  have shape: "placed (num_buckets lh) (buckets lh)" "0 < num_buckets lh"
    "\<forall>it\<in>#table_items lh. it_hash it = call_hash (lh_hash lh) (it_data it)"
    using ok by (auto simp: lh_ok_def lh_shape_def kMinNumBuckets_def)
  have keys: "hash_keys (lh_eq call_cmp lh) (call_hash (lh_hash lh))"
    and one: "hash_keys.single (lh_eq call_cmp lh) (stored lh)" using ok by (simp_all add: lh_ok_def)
  have h: "h = call_hash (lh_hash lh) d" "i = unat h mod num_buckets lh" "pos = chain_pos ?P (buckets lh ! i)"
    using at by (auto simp: get_next_ptr_and_hash_def Let_def)
  then have i: "i < length (buckets lh)" using shape(1,2) by (simp add: placed_def)
  show thesis
  proof (cases "pos < length (buckets lh ! i)")
    case True
    let ?it = "buckets lh ! i ! pos"
    have "?it \<in># table_items lh" using True i by (auto simp: table_items_def intro!: bexI [of _ "buckets lh ! i"])
    then have "it_data ?it \<in># stored lh" by (simp add: stored_def)
    moreover have eq: "lh_eq call_cmp lh (it_data ?it) d"
      using chain_pos_match True h(3) by (auto simp: lh_eq_def)
    moreover from calculation have "lh_map call_cmp lh d = Some (it_data ?it)"
      using hash_keys.lookup_Some [OF keys one] by (simp add: lh_map_def)
    ultimately show thesis using True i h(1) by (intro found [of ?it]) (simp_all add: deref_def)
  next
    case False
    have "\<not> lh_eq call_cmp lh x d" if "x \<in># stored lh" for x
    proof
      assume eq: "lh_eq call_cmp lh x d"
      from that obtain it where it: "it \<in># table_items lh" "x = it_data it" by (auto simp: stored_def)
      have "it_hash it = h" using hash_keys.hash_eq [OF keys eq] it shape(3) h(1) by simp
      then have "it \<in> set (buckets lh ! i)"
        using bucket_of [OF shape(1), of it] it(1) h(2) by (simp add: table_items_def del: set_concat)
      with eq it(2) have "pos < length (buckets lh ! i)"
        unfolding h(3) chain_pos_found by (auto simp: lh_eq_def)
      with False show False by simp
    qed
    then show thesis using False i h(1,2) hash_keys.lookup_None [OF keys, of "stored lh" d]
      by (intro missing) (simp_all add: deref_def lh_map_def)
  qed
qed

theorem lh_retrieve_lookup:
  assumes "lh_ok call_hash call_cmp lh"
  shows "lh_retrieve call_hash call_cmp lh d = lh_map call_cmp lh d"
proof -
  obtain h i pos where at: "get_next_ptr_and_hash call_hash call_cmp lh d = (h, i, pos)" by (rule prod_cases3)
  from assms at show ?thesis
    by (rule place_cases) (simp_all add: lh_retrieve_def at)
qed

section \<open>Insertion and removal\<close>

text \<open>Replacing a chain changes the items of the table by what the chain gains and loses.\<close>

lemma table_items_update:
  assumes "i < length (buckets lh)" "mset chain + A = mset (buckets lh ! i) + B"
    and "buckets lh' = (buckets lh)[i := chain]"
  shows "table_items lh' + A = table_items lh + B"
proof -
  have "table_items lh' + mset (buckets lh ! i) + A = table_items lh + (mset chain + A)"
    using mset_concat_update [OF assms(1), of chain] by (simp add: table_items_def assms(3) ac_simps)
  also have "\<dots> = table_items lh + B + mset (buckets lh ! i)" unfolding assms(2) by (simp add: ac_simps)
  finally show ?thesis by (simp add: ac_simps)
qed

lemma placed_update:
  "placed n bs \<Longrightarrow> \<forall>it\<in>set chain. unat (it_hash it) mod n = i \<Longrightarrow> placed n (bs[i := chain])"
  unfolding placed_def
proof (intro conjI allI impI)
  fix j assume pl: "length bs = n \<and> (\<forall>i<n. \<forall>it\<in>set (bs ! i). unat (it_hash it) mod n = i)" and "j < n"
    and c: "\<forall>it\<in>set chain. unat (it_hash it) mod n = i"
  then have "bs[i := chain] ! j = (if j = i then chain else bs ! j)" by (simp add: nth_list_update)
  then show "\<forall>it\<in>set (bs[i := chain] ! j). unat (it_hash it) mod n = j" using pl c \<open>j < n\<close> by simp
qed simp

lemma placed_nth: "placed n bs \<Longrightarrow> i < length bs \<Longrightarrow> it \<in> set (bs ! i) \<Longrightarrow> unat (it_hash it) mod n = i"
  by (simp add: placed_def)

lemma mset_chain_update: "pos < length c \<Longrightarrow> mset (c[pos := x]) + {#c ! pos#} = mset c + {#x#}"
  by (simp add: mset_update)

lemma mset_chain_remove: "pos < length c \<Longrightarrow> mset (take pos c @ drop (pos + 1) c) + {#c ! pos#} = mset c"
  by (metis Suc_eq_plus1 id_take_nth_drop mset_append mset.simps(2) union_mset_add_mset_right add_mset_add_single union_assoc)

lemma lh_insert_cases:
  assumes ok: "lh_ok call_hash call_cmp lh" and run: "lh_insert alloc call_hash call_cmp d lh = (r, lh')"
  obtains (succ) "r = Some (lh_map call_cmp lh d)" "lh_ok call_hash call_cmp lh'"
      "lh_map call_cmp lh' = (\<lambda>q. if lh_eq call_cmp lh d q then Some d else lh_map call_cmp lh q)"
      "lh_comp lh' = lh_comp lh" "lh_hash lh' = lh_hash lh"
  | (fail) "r = None" "lh' = lh" "\<not> alloc sizeof_LHASH_ITEM" "lh_map call_cmp lh d = None"
proof -
  have keys: "hash_keys (lh_eq call_cmp lh) (call_hash (lh_hash lh))"
    and one: "hash_keys.single (lh_eq call_cmp lh) (stored lh)"
    and shape: "lh_shape call_hash lh" using ok by (simp_all add: lh_ok_def)
  from shape have pl: "placed (num_buckets lh) (buckets lh)"
    and hashes: "\<forall>it\<in>#table_items lh. it_hash it = call_hash (lh_hash lh) (it_data it)"
    by (simp_all add: lh_shape_def)
  obtain h i pos where at: "get_next_ptr_and_hash call_hash call_cmp lh d = (h, i, pos)" by (rule prod_cases3)
  from ok at show thesis
  proof (cases rule: place_cases)
    case (found it)
    let ?new = "Item (it_hash it) d" and ?c = "buckets lh ! i"
    let ?lh = "lh\<lparr>buckets := (buckets lh)[i := ?c[pos := ?new]]\<rparr>"
    have res: "r = Some (Some (it_data it))" "lh' = ?lh" using run found at by (simp_all add: lh_insert_def)
    have "mset (?c[pos := ?new]) + {#it#} = mset ?c + {#?new#}"
      using mset_chain_update [OF found(3)] found(4) by simp
    from table_items_update [OF found(2) this, of ?lh] have items: "add_mset it (table_items lh') = add_mset ?new (table_items lh)"
      by (simp add: res(2))
    then have "image_mset it_data (add_mset it (table_items lh')) = image_mset it_data (add_mset ?new (table_items lh))"
      by simp
    then have st: "add_mset (it_data it) (stored lh') = add_mset d (stored lh)" by (simp add: stored_def)
    obtain N where N: "stored lh = add_mset (it_data it) N" using found(5) by (metis mset_add)
    then have N': "stored lh' = add_mset d N" using st by (simp add: add_mset_commute)
    have eq: "lh_eq call_cmp lh' = lh_eq call_cmp lh" by (simp add: res(2) lh_eq_def fun_eq_iff)
    have "hash_keys.single (lh_eq call_cmp lh) (stored lh')"
      unfolding N' using hash_keys.single_replace [OF keys one [unfolded N] found(6)] .
    moreover have "lh_shape call_hash lh'"
    proof -
      have it: "it \<in># table_items lh" using found(2-4) by (auto simp: table_items_def intro!: bexI [of _ ?c])
      have "it_hash it = call_hash (lh_hash lh) d"
        using hashes it hash_keys.hash_eq [OF keys found(6)] by simp
      moreover have "set_mset (table_items lh') \<subseteq> insert ?new (set_mset (table_items lh))"
        using arg_cong [OF items, of set_mset] by auto
      ultimately have "\<forall>x\<in>#table_items lh'. it_hash x = call_hash (lh_hash lh) (it_data x)" using hashes by auto
      moreover have "\<forall>x\<in>set (?c[pos := ?new]). unat (it_hash x) mod num_buckets lh = i"
        using placed_nth [OF pl found(2)] found(3,4) set_update_subset_insert [of ?c pos ?new] by fastforce
      moreover have "size (table_items lh') = size (table_items lh)"
        using arg_cong [OF items, of size] by simp
      ultimately show ?thesis using shape placed_update [OF pl] by (simp add: lh_shape_def res(2))
    qed
    moreover have "lh_map call_cmp lh' = (\<lambda>q. if lh_eq call_cmp lh d q then Some d else lh_map call_cmp lh q)"
    proof
      fix q
      have "hash_keys.single (lh_eq call_cmp lh) (add_mset d N)" using calculation(1) by (simp add: N')
      from hash_keys.lookup_add [OF keys this] hash_keys.lookup_add [OF keys one [unfolded N]]
      show "lh_map call_cmp lh' q = (if lh_eq call_cmp lh d q then Some d else lh_map call_cmp lh q)"
        using hash_keys.eq_cong [OF keys found(6), of q] by (simp add: lh_map_def eq N N')
    qed
    ultimately show thesis
      using keys found(7) res by (intro succ) (simp_all add: lh_ok_def eq)
  next
    case missing
    let ?new = "Item h d" and ?c = "buckets lh ! i"
    let ?lh = "lh\<lparr>buckets := (buckets lh)[i := ?c @ [?new]], num_items := num_items lh + 1\<rparr>"
    show thesis
    proof (cases "alloc sizeof_LHASH_ITEM")
      case False
      with run missing at show thesis by (intro fail) (simp_all add: lh_insert_def)
    next
      case True
      have res: "r = Some None" "lh' = lh_maybe_resize alloc ?lh"
        using run missing at True by (simp_all add: lh_insert_def)
      have "mset (?c @ [?new]) + {#} = mset ?c + {#?new#}" by simp
      from table_items_update [OF missing(2) this, of ?lh]
      have items: "table_items ?lh = add_mset ?new (table_items lh)" by simp
      then have st: "stored ?lh = add_mset d (stored lh)" by (simp add: stored_def)
      have eq: "lh_eq call_cmp ?lh = lh_eq call_cmp lh" by (simp add: lh_eq_def fun_eq_iff)
      have one': "hash_keys.single (lh_eq call_cmp lh) (add_mset d (stored lh))"
        using hash_keys.single_add [OF keys one missing(3)] .
      have "\<forall>x\<in>set (?c @ [?new]). unat (it_hash x) mod num_buckets lh = i"
        using placed_nth [OF pl missing(2)] missing(6) by auto
      then have sh: "lh_shape call_hash ?lh"
        using shape placed_update [OF pl] by (simp add: lh_shape_def items [unfolded table_items_num] missing(5) [symmetric])
      have ok': "lh_ok call_hash call_cmp ?lh" unfolding lh_ok_def st eq using keys one' sh by simp
      have "lh_map call_cmp ?lh = (\<lambda>q. if lh_eq call_cmp lh d q then Some d else lh_map call_cmp lh q)"
        unfolding lh_map_def st eq by (rule hash_keys.lookup_add [OF keys one'])
      with same_items_ok [OF lh_maybe_resize_props [OF sh, THEN conjunct1] lh_maybe_resize_props [OF sh, THEN conjunct2]]
        lh_maybe_resize_props [OF sh] ok' res missing(4)
      show thesis by (intro succ) (simp_all add: same_items_def)
    qed
  qed
qed

lemma lh_delete_cases:
  assumes ok: "lh_ok call_hash call_cmp lh" and run: "lh_delete alloc call_hash call_cmp d lh = (r, lh')"
  shows "r = lh_map call_cmp lh d \<and> lh_ok call_hash call_cmp lh' \<and>
    lh_map call_cmp lh' = (\<lambda>q. if lh_eq call_cmp lh d q then None else lh_map call_cmp lh q) \<and>
    lh_comp lh' = lh_comp lh \<and> lh_hash lh' = lh_hash lh"
proof -
  have keys: "hash_keys (lh_eq call_cmp lh) (call_hash (lh_hash lh))"
    and one: "hash_keys.single (lh_eq call_cmp lh) (stored lh)"
    and shape: "lh_shape call_hash lh" using ok by (simp_all add: lh_ok_def)
  from shape have pl: "placed (num_buckets lh) (buckets lh)" by (simp add: lh_shape_def)
  obtain h i pos where at: "get_next_ptr_and_hash call_hash call_cmp lh d = (h, i, pos)" by (rule prod_cases3)
  from ok at show ?thesis
  proof (cases rule: place_cases)
    case (found it)
    let ?c = "buckets lh ! i"
    let ?lh = "lh\<lparr>buckets := (buckets lh)[i := take pos ?c @ drop (pos + 1) ?c], num_items := num_items lh - 1\<rparr>"
    have res: "r = Some (it_data it)" "lh' = lh_maybe_resize alloc ?lh" using run found at by (simp_all add: lh_delete_def)
    have "mset (take pos ?c @ drop (pos + 1) ?c) + {#it#} = mset ?c + {#}"
      using mset_chain_remove [OF found(3)] found(4) by simp
    from table_items_update [OF found(2) this, of ?lh]
    have items: "table_items lh = add_mset it (table_items ?lh)" by simp
    then have st: "stored lh = add_mset (it_data it) (stored ?lh)" by (simp add: stored_def)
    note one' = one [unfolded st]
    have "\<forall>x\<in>set (take pos ?c @ drop (pos + 1) ?c). unat (it_hash x) mod num_buckets lh = i"
      using placed_nth [OF pl found(2)] by (auto dest: in_set_takeD in_set_dropD)
    then have sh: "lh_shape call_hash ?lh"
      using shape placed_update [OF pl] items by (simp add: lh_shape_def)
    then have ok': "lh_ok call_hash call_cmp ?lh"
      using keys hash_keys.single_remove [OF keys one'] by (simp add: lh_ok_def)
    define N where "N = stored ?lh"
    have maps: "lh_map call_cmp ?lh = hash_keys.lookup (lh_eq call_cmp lh) N"
      "lh_map call_cmp lh = hash_keys.lookup (lh_eq call_cmp lh) (add_mset (it_data it) N)"
      unfolding lh_map_def st N_def by simp_all
    have "lh_map call_cmp ?lh = (\<lambda>q. if lh_eq call_cmp lh d q then None else lh_map call_cmp lh q)"
    proof
      fix q
      have "hash_keys.lookup (lh_eq call_cmp lh) N q = (if lh_eq call_cmp lh (it_data it) q then None
          else hash_keys.lookup (lh_eq call_cmp lh) (add_mset (it_data it) N) q)"
        by (rule fun_cong [OF hash_keys.lookup_removed [OF keys one' [folded N_def]]])
      then show "lh_map call_cmp ?lh q = (if lh_eq call_cmp lh d q then None else lh_map call_cmp lh q)"
        unfolding maps hash_keys.eq_cong [OF keys found(6)] .
    qed
    with same_items_ok [OF lh_maybe_resize_props [OF sh, THEN conjunct1] lh_maybe_resize_props [OF sh, THEN conjunct2]]
      lh_maybe_resize_props [OF sh] ok' res found(7)
    show ?thesis by (simp add: same_items_def)
  next
    case missing
    then have "lh_map call_cmp lh = (\<lambda>q. if lh_eq call_cmp lh d q then None else lh_map call_cmp lh q)"
    proof -
      have "lh_map call_cmp lh q = None" if "lh_eq call_cmp lh d q" for q
      proof -
        have "\<not> lh_eq call_cmp lh x q" if "x \<in># stored lh" for x
          using missing(3) that hash_keys.eq_trans [OF keys, of x q d] hash_keys.eq_sym [OF keys \<open>lh_eq call_cmp lh d q\<close>]
          by blast
        then show ?thesis unfolding lh_map_def by (simp add: hash_keys.lookup_None [OF keys])
      qed
      then show ?thesis by auto
    qed
    with run at missing ok show ?thesis by (simp add: lh_delete_def)
  qed
qed

section \<open>Tables\<close>

text \<open>
  The interface of a table whose keys are its elements up to \<open>eq\<close>: a client sees a map, whatever
  the buckets do. An insertion that cannot get memory changes nothing.
\<close>

locale table =
  fixes ok :: "'t \<Rightarrow> bool" and eq :: "'x \<Rightarrow> 'x \<Rightarrow> bool" and get :: "'t \<Rightarrow> 'x \<Rightarrow> 'x option"
    and put :: "'x \<Rightarrow> ('t, 'x option) reader" and rem :: "'x \<Rightarrow> 't \<Rightarrow> 'x option \<times> 't"
  assumes put: "ok t \<Longrightarrow> put d t = (Some old, t') \<Longrightarrow>
      ok t' \<and> old = get t d \<and> get t' = (\<lambda>q. if eq d q then Some d else get t q)"
    and put_failed: "ok t \<Longrightarrow> put d t = (None, t') \<Longrightarrow> t' = t"
    and rem: "ok t \<Longrightarrow> rem d t = (r, t') \<Longrightarrow>
      ok t' \<and> r = get t d \<and> get t' = (\<lambda>q. if eq d q then None else get t q)"
begin

primrec put_all :: "'x list \<Rightarrow> ('t, unit) reader" where
  "put_all [] = returnR ()"
| "put_all (d # ds) = bindR (put d) (\<lambda>_. put_all ds)"

text \<open>After a series of insertions the last equal element is found.\<close>

lemma get_put_all:
  "ok t \<Longrightarrow> put_all ds t = (Some (), t') \<Longrightarrow>
   ok t' \<and> get t' q = (case find (\<lambda>d. eq d q) (rev ds) of None \<Rightarrow> get t q | Some d \<Rightarrow> Some d)"
proof (induction ds arbitrary: t)
  case Nil
  then show ?case by (simp add: returnR_def)
next
  case (Cons d ds)
  from Cons.prems(2) obtain old t1 where 1: "put d t = (Some old, t1)" "put_all ds t1 = (Some (), t')"
    by (auto elim: bindR_eq_SomeE)
  have app: "find P (xs @ [d]) = (case find P xs of None \<Rightarrow> if P d then Some d else None | Some x \<Rightarrow> Some x)" for P xs
    by (induction xs) auto
  from put [OF Cons.prems(1) 1(1)] Cons.IH [OF _ 1(2)] show ?case
    by (auto simp: app split: option.split)
qed

lemma rem_put: "ok t \<Longrightarrow> put d t = (Some old, t1) \<Longrightarrow> rem d t1 = (r, t2) \<Longrightarrow> eq d d \<Longrightarrow>
    r = Some d \<and> get t2 d = None"
  using put [of t d old t1] rem [of t1 d r t2] by simp

end

lemma lh_eq_comp: "lh_comp lh' = lh_comp lh \<Longrightarrow> lh_eq call_cmp lh' = lh_eq call_cmp lh"
  by (simp add: lh_eq_def fun_eq_iff)

interpretation lh_table: table "\<lambda>lh. lh_ok call_hash call_cmp lh \<and> lh_comp lh = c" "\<lambda>a b. call_cmp c a b = 0"
    "lh_retrieve call_hash call_cmp" "lh_insert alloc call_hash call_cmp" "lh_delete alloc call_hash call_cmp"
    for alloc call_hash call_cmp c
proof
  fix lh lh' :: "('a, 'b, 'c) lhash" and d old r
  assume pre: "lh_ok call_hash call_cmp lh \<and> lh_comp lh = c"
  then have ok: "lh_ok call_hash call_cmp lh" and c: "lh_comp lh = c"
    and get: "lh_retrieve call_hash call_cmp lh = lh_map call_cmp lh"
    by (simp_all add: lh_retrieve_lookup fun_eq_iff)
  {
    assume "lh_insert alloc call_hash call_cmp d lh = (Some old, lh')"
    from lh_insert_cases [OF ok this] c
    show "(lh_ok call_hash call_cmp lh' \<and> lh_comp lh' = c) \<and> old = lh_retrieve call_hash call_cmp lh d \<and>
        lh_retrieve call_hash call_cmp lh' = (\<lambda>q. if call_cmp c d q = 0 then Some d else lh_retrieve call_hash call_cmp lh q)"
      unfolding get by cases (auto simp: lh_eq_def lh_retrieve_lookup fun_eq_iff)
  next
    assume "lh_insert alloc call_hash call_cmp d lh = (None, lh')"
    from lh_insert_cases [OF ok this] show "lh' = lh" by cases simp_all
  next
    assume "lh_delete alloc call_hash call_cmp d lh = (r, lh')"
    from lh_delete_cases [OF ok this] c
    show "(lh_ok call_hash call_cmp lh' \<and> lh_comp lh' = c) \<and> r = lh_retrieve call_hash call_cmp lh d \<and>
        lh_retrieve call_hash call_cmp lh' = (\<lambda>q. if call_cmp c d q = 0 then None else lh_retrieve call_hash call_cmp lh q)"
      unfolding get by (auto simp: lh_eq_def lh_retrieve_lookup fun_eq_iff)
  }
qed

section \<open>Strings as keys\<close>

text \<open>C strings hashed with \<open>lh_strhash\<close> and compared like \<open>strcmp\<close>.\<close>

definition string_hash :: "unit \<Rightarrow> bytes \<Rightarrow> u32" where
  "string_hash _ s = (case lh_strhash (Some s) of None \<Rightarrow> 0 | Some h \<Rightarrow> h)"

definition string_cmp :: "unit \<Rightarrow> bytes \<Rightarrow> bytes \<Rightarrow> int" where
  "string_cmp _ a b = (if (c_string a \<longleftrightarrow> c_string b) \<and> c_text a = c_text b then 0 else 1)"

lemma take_c_text: "take (length (c_text s)) s = c_text s"
  by (simp add: c_text_def takeWhile_eq_take [symmetric])

interpretation string_keys: hash_keys "\<lambda>a b. string_cmp () a b = 0" "string_hash ()"
proof
  fix a b c :: bytes
  show "string_cmp () a a = 0" by (simp add: string_cmp_def)
  show "string_cmp () a b = 0 \<Longrightarrow> string_cmp () b a = 0"
    "string_cmp () a b = 0 \<Longrightarrow> string_cmp () b c = 0 \<Longrightarrow> string_cmp () a c = 0"
    by (auto simp: string_cmp_def split: if_splits)
  assume "string_cmp () a b = 0"
  then have "c_string a \<longleftrightarrow> c_string b" "c_text a = c_text b" by (auto simp: string_cmp_def split: if_splits)
  then show "string_hash () a = string_hash () b"
    using take_c_text [of a] take_c_text [of b]
    by (cases "c_string a")
      (simp_all add: string_hash_def lh_strhash_def c_strlen_text c_strlen_None [THEN iffD2] OPENSSL_hash32_def)
qed

lemma string_keys_table: "hash_keys (lh_eq string_cmp lh) (string_hash (lh_hash lh))"
  using string_keys.hash_keys_axioms by (simp add: lh_eq_def [abs_def])

lemma lh_new_ok:
  assumes "lh_new alloc h c = Some lh" "hash_keys (\<lambda>a b. call_cmp c a b = 0) (call_hash h)"
  shows "lh_ok call_hash call_cmp lh \<and> lh_comp lh = c \<and> lh_map call_cmp lh = (\<lambda>_. None)"
proof -
  have lh: "lh = \<lparr>num_items = 0, buckets = replicate kMinNumBuckets [], num_buckets = kMinNumBuckets,
      callback_depth = 0, lh_comp = c, lh_hash = h\<rparr>"
    using assms(1) by (simp add: lh_new_def split: if_splits)
  have st: "table_items lh = {#}" using placed_empty(2) by (simp add: lh table_items_def)
  have eq: "lh_eq call_cmp lh = (\<lambda>a b. call_cmp c a b = 0)" by (simp add: lh lh_eq_def fun_eq_iff)
  have "lh_shape call_hash lh" using placed_empty(1) [of kMinNumBuckets] st by (simp add: lh_shape_def) (simp add: lh)
  moreover have "hash_keys.single (lh_eq call_cmp lh) (stored lh)"
    unfolding eq hash_keys.single_def [OF assms(2)] by (simp add: stored_def st)
  moreover have "lh_map call_cmp lh q = None" for q
    unfolding lh_map_def eq by (simp add: hash_keys.lookup_None [OF assms(2)] stored_def st)
  ultimately show ?thesis using assms(2) eq by (auto simp: lh_ok_def lh)
qed

section \<open>What the table promises\<close>

text \<open>
  C18: the hash table refines a finite map. A new table is empty; an insertion that succeeds
  returns the element replaced and updates the map at the keys equal to the new element; one
  that fails changes nothing; a removal returns the element and removes it; and resizing, which
  both may do, keeps the invariant and cannot be seen.
\<close>

theorem lh_refines_map:
  assumes "lh_ok call_hash call_cmp lh"
  shows "lh_retrieve call_hash call_cmp lh = lh_map call_cmp lh \<and>
    (lh_insert alloc call_hash call_cmp d lh = (r, lh1) \<longrightarrow>
      r = None \<and> lh1 = lh \<or>
      r = Some (lh_map call_cmp lh d) \<and> lh_ok call_hash call_cmp lh1 \<and>
      lh_map call_cmp lh1 = (\<lambda>q. if lh_eq call_cmp lh d q then Some d else lh_map call_cmp lh q)) \<and>
    (lh_delete alloc call_hash call_cmp d lh = (x, lh2) \<longrightarrow>
      x = lh_map call_cmp lh d \<and> lh_ok call_hash call_cmp lh2 \<and>
      lh_map call_cmp lh2 = (\<lambda>q. if lh_eq call_cmp lh d q then None else lh_map call_cmp lh q))"
proof (intro conjI impI)
  show "lh_retrieve call_hash call_cmp lh = lh_map call_cmp lh"
    using lh_retrieve_lookup [OF assms] by (simp add: fun_eq_iff)
next
  assume "lh_insert alloc call_hash call_cmp d lh = (r, lh1)"
  from lh_insert_cases [OF assms this] show "r = None \<and> lh1 = lh \<or>
      r = Some (lh_map call_cmp lh d) \<and> lh_ok call_hash call_cmp lh1 \<and>
      lh_map call_cmp lh1 = (\<lambda>q. if lh_eq call_cmp lh d q then Some d else lh_map call_cmp lh q)"
    by cases simp_all
qed (use lh_delete_cases [OF assms] in blast)+

definition empty_table :: "(bytes, unit, unit) lhash" where
  "empty_table = \<lparr>num_items = 0, buckets = replicate kMinNumBuckets [], num_buckets = kMinNumBuckets,
     callback_depth = 0, lh_comp = (), lh_hash = ()\<rparr>"

lemma lh_new_empty: "lh_new (\<lambda>_. True) () () = Some empty_table"
  by (simp add: lh_new_def empty_table_def)

lemma empty_table_ok: "lh_ok string_hash string_cmp empty_table" "lh_map string_cmp empty_table = (\<lambda>_. None)"
  "lh_comp empty_table = ()"
  using lh_new_ok [of _ "()" "()" _ string_cmp string_hash, OF lh_new_empty string_keys.hash_keys_axioms] by simp_all

theorem lh_refines_map_witness:
  "\<exists>lh. lh_insert (\<lambda>_. True) string_hash string_cmp [65, 0] empty_table = (Some None, lh) \<and>
     lh_map string_cmp lh [65, 0, 7] = Some [65, 0] \<and> lh_map string_cmp lh [66, 0] = None"
proof -
  obtain r lh where run: "lh_insert (\<lambda>_. True) string_hash string_cmp [65, 0] empty_table = (r, lh)"
    by (rule prod.exhaust)
  have "r \<noteq> None"
    using lh_insert_cases [OF empty_table_ok(1) run] by (cases) auto
  with lh_refines_map [OF empty_table_ok(1), of "\<lambda>_. True" "[65, 0]" r lh, unfolded empty_table_ok(2)] run
  have "r = Some None"
    "lh_map string_cmp lh = (\<lambda>q. if lh_eq string_cmp empty_table [65, 0] q then Some [65, 0] else None)"
    by simp_all
  with run show ?thesis
    by (simp add: lh_eq_def string_cmp_def c_text_def c_string_def)
qed

definition insert_all :: "memory \<Rightarrow> ('h \<Rightarrow> 'a \<Rightarrow> u32) \<Rightarrow> ('c \<Rightarrow> 'a \<Rightarrow> 'a \<Rightarrow> int) \<Rightarrow> 'a list \<Rightarrow>
    (('a, 'h, 'c) lhash, unit) reader" where
  "insert_all alloc call_hash call_cmp ds =
     foldr (\<lambda>d k. bindR (lh_insert alloc call_hash call_cmp d) (\<lambda>_. k)) ds (returnR ())"

lemma insert_all_put_all: "insert_all alloc call_hash call_cmp ds = lh_table.put_all alloc call_hash call_cmp ds"
  by (induction ds) (simp_all add: insert_all_def)

text \<open>
  After inserting a series of elements into a table, a key finds the last of them that is
  equal to it, and otherwise what it found before, however often the table was resized on the
  way.
\<close>

theorem lh_insert_all_last:
  assumes "lh_ok call_hash call_cmp lh" "insert_all alloc call_hash call_cmp ds lh = (Some (), lh')"
  shows "lh_retrieve call_hash call_cmp lh' q =
    (case find (\<lambda>d. call_cmp (lh_comp lh) d q = 0) (rev ds) of
       None \<Rightarrow> lh_retrieve call_hash call_cmp lh q | Some d \<Rightarrow> Some d)"
  using lh_table.get_put_all [of call_hash call_cmp lh "lh_comp lh" alloc ds lh' q] assms
  by (simp add: insert_all_put_all)

theorem lh_insert_all_last_witness:
  "\<exists>lh. insert_all (\<lambda>_. True) string_hash string_cmp [[65, 0], [66, 0], [65, 0, 9]] empty_table = (Some (), lh) \<and>
     lh_retrieve string_hash string_cmp lh [65, 0] = Some [65, 0, 9]"
proof -
  let ?ds = "[[65, 0], [66, 0], [65, 0, 9]] :: bytes list"
  have "fst (insert_all (\<lambda>_. True) string_hash string_cmp ?ds empty_table) = Some ()" by code_simp
  then obtain lh where run: "insert_all (\<lambda>_. True) string_hash string_cmp ?ds empty_table = (Some (), lh)"
    by (metis prod.collapse)
  from lh_insert_all_last [OF empty_table_ok(1) this, of "[65, 0]"]
  have "lh_retrieve string_hash string_cmp lh [65, 0] = Some [65, 0, 9]"
    by (simp add: empty_table_ok(3) string_cmp_def c_text_def c_string_def)
  with run show ?thesis by blast
qed

section \<open>The load of the table\<close>

definition load_ok :: "('a, 'h, 'c) lhash \<Rightarrow> bool" where
  "load_ok lh \<longleftrightarrow> num_items lh < 3 * num_buckets lh"

lemma rebucket_succeeds:
  assumes "\<forall>n<OBJECT_LIMIT. alloc n" "8 * n < OBJECT_LIMIT"
  shows "lh_rebucket alloc n lh =
    lh\<lparr>num_buckets := n, buckets := foldl (foldl (rebucket_item n)) (replicate n []) (buckets lh)\<rparr>"
proof -
  have "8 * n mod SIZE_LIMIT = 8 * n" using assms(2) by simp
  with assms show ?thesis by (simp add: lh_rebucket_def sizeof_bucket_def)
qed

lemma resize_load:
  assumes mem: "\<forall>n<OBJECT_LIMIT. alloc n" and depth: "callback_depth lh = 0"
    and b: "16 \<le> num_buckets lh" "16 * num_buckets lh < OBJECT_LIMIT"
    and load: "num_items lh \<le> 3 * num_buckets lh"
  shows "load_ok (lh_maybe_resize alloc lh)"
proof -
  let ?n = "num_items lh" and ?b = "num_buckets lh"
  have "?b * 2 mod SIZE_LIMIT = ?b * 2" using b(2) by simp
  moreover have "8 * (?b * 2) < OBJECT_LIMIT" "8 * (?b div 2) < OBJECT_LIMIT" "(8 :: nat) * 16 < OBJECT_LIMIT"
    using b(2) by simp_all
  note re = this [THEN rebucket_succeeds [OF mem], of lh]
  have "2 < ?n div ?b \<longleftrightarrow> 3 * ?b \<le> ?n"
  proof -
    have "2 < ?n div ?b \<longleftrightarrow> 3 \<le> ?n div ?b" by linarith
    also have "\<dots> \<longleftrightarrow> 3 * ?b \<le> ?n" using b(1) by (simp add: less_eq_div_iff_mult_less_eq)
    finally show ?thesis .
  qed
  moreover have "?n div ?b < 1 \<longleftrightarrow> ?n < ?b" using b(1) by (auto simp: div_eq_0_iff)
  ultimately show ?thesis
    using depth b load re
    by (auto simp: lh_maybe_resize_def Let_def load_ok_def kMaxAverageChainLength_def kMinAverageChainLength_def
        kMinNumBuckets_def)
qed

text \<open>
  C19: with memory to spare and outside of callbacks, the average chain never gets longer than
  two: after an insertion or a removal there are fewer than three items for each bucket, and
  never fewer than sixteen buckets.
\<close>

theorem lh_load_bounded:
  assumes mem: "\<forall>n<OBJECT_LIMIT. alloc n" and ok: "lh_ok call_hash call_cmp lh" "load_ok lh"
    and depth: "callback_depth lh = 0" and size: "16 * num_buckets lh < OBJECT_LIMIT"
  shows "(lh_insert alloc call_hash call_cmp d lh = (r, lh1) \<longrightarrow> load_ok lh1 \<and> kMinNumBuckets \<le> num_buckets lh1) \<and>
    (lh_delete alloc call_hash call_cmp d lh = (x, lh2) \<longrightarrow> load_ok lh2 \<and> kMinNumBuckets \<le> num_buckets lh2)"
proof (intro conjI impI)
  have min: "lh_ok call_hash call_cmp t \<Longrightarrow> kMinNumBuckets \<le> num_buckets t" for t :: "('b, 'a, 'c) lhash"
    by (simp add: lh_ok_def lh_shape_def)
  from min [OF ok(1)] have b: "16 \<le> num_buckets lh" by (simp add: kMinNumBuckets_def)
  obtain h i pos where at: "get_next_ptr_and_hash call_hash call_cmp lh d = (h, i, pos)" by (rule prod_cases3)
  {
    assume run: "lh_insert alloc call_hash call_cmp d lh = (r, lh1)"
    then show "load_ok lh1"
      using ok(2) depth b size at
      by (auto simp: lh_insert_def load_ok_def intro!: resize_load [OF mem, unfolded load_ok_def] split: option.splits if_splits)
    from lh_insert_cases [OF ok(1) run] show "kMinNumBuckets \<le> num_buckets lh1"
      by cases (use min ok(1) in simp_all)
  next
    assume run: "lh_delete alloc call_hash call_cmp d lh = (x, lh2)"
    then show "load_ok lh2"
      using ok(2) depth b size at
      by (auto simp: lh_delete_def load_ok_def intro!: resize_load [OF mem, unfolded load_ok_def] split: option.splits)
    from lh_delete_cases [OF ok(1) run] show "kMinNumBuckets \<le> num_buckets lh2" using min by blast
  }
qed

theorem lh_load_bounded_witness:
  "\<exists>lh. lh_insert (\<lambda>_. True) string_hash string_cmp [65, 0] empty_table = (Some None, lh) \<and>
     num_items lh < 3 * num_buckets lh"
proof -
  have pre: "load_ok empty_table" "callback_depth empty_table = 0" "16 * num_buckets empty_table < OBJECT_LIMIT"
    by (simp_all add: load_ok_def empty_table_def kMinNumBuckets_def)
  have "fst (lh_insert (\<lambda>_. True) string_hash string_cmp [65, 0] empty_table) = Some None" by code_simp
  then obtain lh where run: "lh_insert (\<lambda>_. True) string_hash string_cmp [65, 0] empty_table = (Some None, lh)"
    by (metis prod.collapse)
  with lh_load_bounded [OF _ empty_table_ok(1) pre, of "\<lambda>_. True" "[65, 0]" "Some None" lh]
  show ?thesis by (simp add: load_ok_def)
qed

section \<open>Iteration\<close>

lemma UINT_MAX_code [code]: "UINT_MAX = 0xffffffff"
  by (simp add: UINT_MAX_def)

lemma fold_chains: "fold (fold (\<lambda>cur. f (it_data cur))) bs e = fold f (map it_data (concat bs)) e"
  by (induction bs arbitrary: e) (simp_all add: fold_map comp_def)

text \<open>
  Iterating calls the callback on every stored element exactly once, with resizing held off,
  and leaves the map and, below the saturation of the counter, the nesting depth as they were.
\<close>

theorem lh_doall_arg_exact:
  assumes "lh_ok call_hash call_cmp lh" "callback_depth lh < UINT_MAX - 1"
    and "lh_doall_arg alloc func (Some lh) e = (lh', e')"
  shows "\<exists>xs t. mset xs = stored lh \<and> e' = fold (func (lh\<lparr>callback_depth := callback_depth lh + 1\<rparr>)) xs e \<and>
    lh' = Some t \<and> lh_ok call_hash call_cmp t \<and> lh_map call_cmp t = lh_map call_cmp lh \<and>
    callback_depth t = callback_depth lh"
proof -
  let ?l = "lh\<lparr>callback_depth := callback_depth lh + 1\<rparr>"
  have d: "callback_depth lh < UINT_MAX" "callback_depth lh + 1 < UINT_MAX"
  proof -
    have "unat (callback_depth lh) < 2 ^ 32 - 2"
      using assms(2) by (simp add: UINT_MAX_code word_less_nat_alt)
    moreover from this have "unat (callback_depth lh + 1) = unat (callback_depth lh) + 1"
      by (simp add: unat_word_ariths)
    ultimately show "callback_depth lh < UINT_MAX" "callback_depth lh + 1 < UINT_MAX"
      by (simp_all add: UINT_MAX_code word_less_nat_alt)
  qed
  have shape: "lh_shape call_hash lh" using assms(1) by (simp add: lh_ok_def)
  have res: "lh' = Some (lh_maybe_resize alloc lh)" "e' = fold (func ?l) (map it_data (concat (buckets lh))) e"
    using assms(3) d by (auto simp: lh_doall_arg_def Let_def fold_chains)
  have "mset (map it_data (concat (buckets lh))) = stored lh" by (simp add: stored_def table_items_def del: mset_concat map_concat)
  with res same_items_ok [OF lh_maybe_resize_props [OF shape, THEN conjunct1] lh_maybe_resize_props [OF shape, THEN conjunct2]]
    lh_maybe_resize_props [OF shape, of alloc] assms(1)
  show ?thesis
    by (intro exI [of _ "map it_data (concat (buckets lh))"] exI [of _ "lh_maybe_resize alloc lh"])
      (auto simp: same_items_def)
qed

theorem lh_doall_arg_exact_witness:
  "snd (lh_doall_arg (\<lambda>_. True) (\<lambda>_ x n. n + 1) (Some empty_table) (0 :: nat)) = 0"
proof -
  obtain lh e where run: "lh_doall_arg (\<lambda>_. True) (\<lambda>_ x n. n + 1) (Some empty_table) (0 :: nat) = (lh, e)"
    by (rule prod.exhaust)
  have "callback_depth empty_table < UINT_MAX - 1" by (simp add: empty_table_def UINT_MAX_code)
  from lh_doall_arg_exact [OF empty_table_ok(1) this run] obtain xs where
    "mset xs = stored empty_table" "e = fold (\<lambda>x n. n + 1) xs 0" by blast
  moreover have "stored empty_table = {#}"
    by (simp add: stored_def table_items_def empty_table_def placed_empty(2) del: mset_concat)
  ultimately show ?thesis using run by simp
qed

end
