(* ===== verification/Constant_Time.thy ===== *)
theory Constant_Time
  imports Prelude
begin

text \<open>
  The constant-time masks of \<open>crypto/internal.h\<close>, on a machine whose \<open>crypto_word_t\<close> has 64
  bits. A mask is all ones for true and 0 for false. The value barriers are the identity: they
  only keep the compiler from rewriting the expression.
\<close>

section \<open>The code\<close>

definition value_barrier_w :: "u64 \<Rightarrow> u64" where
  "value_barrier_w a = a"

definition constant_time_msb_w :: "u64 \<Rightarrow> u64" where
  "constant_time_msb_w a = 0 - drop_bit 63 a"

definition constant_time_lt_w :: "u64 \<Rightarrow> u64 \<Rightarrow> u64" where
  "constant_time_lt_w a b = constant_time_msb_w (a XOR ((a XOR b) OR ((a - b) XOR a)))"

definition constant_time_lt_8 :: "u64 \<Rightarrow> u64 \<Rightarrow> u8" where
  "constant_time_lt_8 a b = ucast (constant_time_lt_w a b)"

definition constant_time_ge_w :: "u64 \<Rightarrow> u64 \<Rightarrow> u64" where
  "constant_time_ge_w a b = NOT (constant_time_lt_w a b)"

definition constant_time_ge_8 :: "u64 \<Rightarrow> u64 \<Rightarrow> u8" where
  "constant_time_ge_8 a b = ucast (constant_time_ge_w a b)"

definition constant_time_is_zero_w :: "u64 \<Rightarrow> u64" where
  "constant_time_is_zero_w a = constant_time_msb_w (NOT a AND (a - 1))"

definition constant_time_is_zero_8 :: "u64 \<Rightarrow> u8" where
  "constant_time_is_zero_8 a = ucast (constant_time_is_zero_w a)"

definition constant_time_eq_w :: "u64 \<Rightarrow> u64 \<Rightarrow> u64" where
  "constant_time_eq_w a b = constant_time_is_zero_w (a XOR b)"

definition constant_time_eq_8 :: "u64 \<Rightarrow> u64 \<Rightarrow> u8" where
  "constant_time_eq_8 a b = ucast (constant_time_eq_w a b)"

text \<open>An \<open>int\<close> is a 32-bit word, extended by its sign when it is converted.\<close>

definition constant_time_eq_int :: "u32 \<Rightarrow> u32 \<Rightarrow> u64" where
  "constant_time_eq_int a b = constant_time_eq_w (scast a) (scast b)"

definition constant_time_eq_int_8 :: "u32 \<Rightarrow> u32 \<Rightarrow> u8" where
  "constant_time_eq_int_8 a b = constant_time_eq_8 (scast a) (scast b)"

definition constant_time_select_w :: "u64 \<Rightarrow> u64 \<Rightarrow> u64 \<Rightarrow> u64" where
  "constant_time_select_w msk a b = (value_barrier_w msk AND a) OR (value_barrier_w (NOT msk) AND b)"

text \<open>The 8-bit mask is extended with zeros, and the result is truncated again.\<close>

definition constant_time_select_8 :: "u8 \<Rightarrow> u8 \<Rightarrow> u8 \<Rightarrow> u8" where
  "constant_time_select_8 msk a b = ucast (constant_time_select_w (ucast msk) (ucast a) (ucast b))"

definition constant_time_select_int :: "u64 \<Rightarrow> u32 \<Rightarrow> u32 \<Rightarrow> u32" where
  "constant_time_select_int msk a b = ucast (constant_time_select_w msk (scast a) (scast b))"

section \<open>What the masks are\<close>

lemma bit_63_iff: "bit (a :: u64) 63 \<longleftrightarrow> 2 ^ 63 \<le> unat a"
proof -
  have "unat a < 2 ^ 64" using unsigned_less [of a, where ?'a = nat] by simp
  then have "unat a div 2 ^ 63 = (if 2 ^ 63 \<le> unat a then 1 else 0)"
    by (auto simp: div_nat_eqI)
  moreover have "bit a 63 \<longleftrightarrow> odd (unat a div 2 ^ 63)"
    using bit_iff_odd [of "unat a" 63] by (simp add: bit_unsigned_iff)
  ultimately show ?thesis by simp
qed

lemma drop_bit_63: "drop_bit 63 (a :: u64) = (if bit a 63 then 1 else 0)"
proof (rule bit_word_eqI)
  fix n
  show "bit (drop_bit 63 a) n = bit (if bit a 63 then 1 else 0 :: u64) n"
    using bit_imp_le_length [of a "63 + n"] by (cases n) (auto simp: bit_simps bit_1_iff)
qed

lemma constant_time_msb_w_eq: "constant_time_msb_w a = (if bit a 63 then - 1 else 0)"
  by (simp add: constant_time_msb_w_def drop_bit_63)

lemma constant_time_lt_w_eq: "constant_time_lt_w a b = (if a < b then - 1 else 0)"
proof -
  have l: "unat a < 2 ^ 64" "unat b < 2 ^ 64"
    using unsigned_less [of a, where ?'a = nat] unsigned_less [of b, where ?'a = nat] by simp_all
  have d: "unat (a - b) = (if unat b \<le> unat a then unat a - unat b else 2 ^ 64 + unat a - unat b)"
    using unat_sub_if' [of a b] l by auto
  have "bit (a XOR ((a XOR b) OR ((a - b) XOR a))) 63 \<longleftrightarrow>
    (if bit a 63 = bit b 63 then bit (a - b) 63 else bit b 63)"
    by (auto simp: bit_simps)
  also have "\<dots> \<longleftrightarrow> a < b"
    using l d unfolding bit_63_iff word_less_nat_alt by (simp split: if_splits; linarith)
  finally show ?thesis by (simp add: constant_time_lt_w_def constant_time_msb_w_eq)
qed

lemma constant_time_is_zero_w_eq: "constant_time_is_zero_w a = (if a = 0 then - 1 else 0)"
proof -
  have "bit (NOT a AND (a - 1)) 63 \<longleftrightarrow> a = 0"
  proof (cases "a = 0")
    case False
    then have "unat (a - 1) = unat a - 1" by (simp add: unat_minus_one)
    then have "bit (a - 1) 63 \<Longrightarrow> bit a 63" unfolding bit_63_iff by simp
    with False show ?thesis by (auto simp: bit_simps)
  qed simp
  then show ?thesis by (simp add: constant_time_is_zero_w_def constant_time_msb_w_eq)
qed

lemma constant_time_eq_w_eq: "constant_time_eq_w a b = (if a = b then - 1 else 0)"
  by (auto simp: constant_time_eq_w_def constant_time_is_zero_w_eq xor_self_eq) (metis xor.left_neutral xor.assoc xor.right_neutral xor_self_eq)

lemma constant_time_select_w_eq [simp]:
  "constant_time_select_w (- 1) a b = a" "constant_time_select_w 0 a b = b"
  by (simp_all add: constant_time_select_w_def value_barrier_w_def)

lemma ucast_mask_8: "(ucast (- 1 :: u64) :: u8) = 0xff"
  by (simp add: unsigned_minus_1_eq_mask mask_eq_exp_minus_1)

lemma byte_ff: "(0xff :: u8) = - 1"
  by simp

lemma constant_time_select_8_eq [simp]:
  "constant_time_select_8 0xff a b = a" "constant_time_select_8 0 a b = b"
proof -
  show "constant_time_select_8 0xff a b = a" unfolding byte_ff
    by (rule bit_word_eqI) (auto simp: constant_time_select_8_def constant_time_select_w_def value_barrier_w_def bit_simps)
  show "constant_time_select_8 0 a b = b"
    by (rule bit_word_eqI) (auto simp: constant_time_select_8_def bit_simps)
qed

lemma constant_time_select_8_mask: "constant_time_select_8 (if c then 0xff else 0) a b = (if c then a else b)"
  by simp

lemma constant_time_eq_8_bytes: "constant_time_eq_8 (ucast a) (ucast b) = (if (a :: u8) = b then 0xff else 0)"
proof -
  have "(ucast a :: u64) = ucast b \<longleftrightarrow> a = b"
    by (metis unat_ucast_byte(3) word_unat_eq_iff)
  then show ?thesis by (simp add: constant_time_eq_8_def constant_time_eq_w_eq ucast_mask_8)
qed

lemma ucast_scast_int: "ucast (scast (a :: u32) :: u64) = a"
proof (rule bit_word_eqI)
  fix n
  assume "n < LENGTH(32)"
  then show "bit (ucast (scast a :: u64) :: u32) n = bit a n"
    by (cases "n = 31") (auto simp: bit_simps min_def)
qed

lemma scast_int_eq: "(scast (a :: u32) :: u64) = scast b \<longleftrightarrow> a = b"
proof
  assume "(scast a :: u64) = scast b"
  then have "(ucast (scast a :: u64) :: u32) = ucast (scast b :: u64)" by simp
  then show "a = b" by (simp only: ucast_scast_int)
qed simp

text \<open>
  C31: the masks computed with shifts and bitwise operations are the comparisons they stand for,
  on all 64-bit words, and selecting with one of them is the conditional of the C language.
\<close>

theorem constant_time_exact:
  "constant_time_select_w (constant_time_lt_w a b) x y = (if a < b then x else y) \<and>
   constant_time_select_w (constant_time_ge_w a b) x y = (if a \<ge> b then x else y) \<and>
   constant_time_select_w (constant_time_eq_w a b) x y = (if a = b then x else y) \<and>
   constant_time_select_8 (constant_time_lt_8 a b) u v = (if a < b then u else v) \<and>
   constant_time_select_8 (constant_time_ge_8 a b) u v = (if a \<ge> b then u else v) \<and>
   constant_time_select_8 (constant_time_is_zero_8 a) u v = (if a = 0 then u else v) \<and>
   constant_time_select_8 (constant_time_eq_int_8 i j) u v = (if i = j then u else v) \<and>
   constant_time_select_int (constant_time_eq_int i j) k l = (if i = j then k else l)"
  by (auto simp: constant_time_lt_w_eq constant_time_ge_w_def constant_time_eq_w_eq
      constant_time_lt_8_def constant_time_ge_8_def constant_time_is_zero_8_def constant_time_is_zero_w_eq
      constant_time_eq_int_8_def constant_time_eq_8_def constant_time_eq_int_def constant_time_select_int_def
      scast_int_eq ucast_scast_int ucast_mask_8 not_less)

end
