(* ===== verification/Streaming.thy ===== *)
theory Streaming
  imports Main
begin

text \<open>
  Operations that consume their input in chunks. An update takes a chunk and a state and gives
  output and a new state; what a client wants to know is that the chunks do not matter, only
  what they are when joined together. The contract relates the state to an abstraction on which
  a reference function does the work, and asks that the reference function does not depend on
  where its input is cut.
\<close>

primrec run_chunks :: "('x list \<Rightarrow> 's \<Rightarrow> 'y list \<times> 's) \<Rightarrow> 'x list list \<Rightarrow> 's \<Rightarrow> 'y list \<times> 's" where
  "run_chunks upd [] s = ([], s)"
| "run_chunks upd (xs # xss) s =
     (case upd xs s of (us, t) \<Rightarrow> (case run_chunks upd xss t of (vs, t') \<Rightarrow> (us @ vs, t')))"

locale chunked =
  fixes ok :: "'s \<Rightarrow> bool" and fits :: "'x list \<Rightarrow> bool" and abst :: "'s \<Rightarrow> 'a"
    and upd :: "'x list \<Rightarrow> 's \<Rightarrow> 'y list \<times> 's"
    and ref :: "'x list \<Rightarrow> 'a \<Rightarrow> 'y list \<times> 'a"
  assumes refines: "ok s \<Longrightarrow> fits xs \<Longrightarrow> upd xs s = (ys, t) \<Longrightarrow> ok t \<and> ref xs (abst s) = (ys, abst t)"
    and ref_Nil: "ok s \<Longrightarrow> ref [] (abst s) = ([], abst s)"
    and ref_append: "ref xs a = (us, b) \<Longrightarrow> ref zs b = (vs, c) \<Longrightarrow> ref (xs @ zs) a = (us @ vs, c)"
begin

lemma run_refines:
  assumes "ok s" "\<forall>xs\<in>set xss. fits xs" "run_chunks upd xss s = (ys, t)"
  shows "ok t \<and> ref (concat xss) (abst s) = (ys, abst t)"
  using assms
proof (induction xss arbitrary: s ys t)
  case Nil
  then show ?case by (simp add: ref_Nil)
next
  case (Cons xs xss)
  obtain us s' where u: "upd xs s = (us, s')" by (rule prod.exhaust)
  obtain vs t' where r: "run_chunks upd xss s' = (vs, t')" by (rule prod.exhaust)
  from refines [OF Cons.prems(1) _ u] Cons.prems(2) have s': "ok s'" "ref xs (abst s) = (us, abst s')" by simp_all
  from Cons.IH [OF s'(1) _ r] Cons.prems(2) have t: "ok t'" "ref (concat xss) (abst s') = (vs, abst t')" by simp_all
  from Cons.prems(3) u r have "ys = us @ vs" "t = t'" by simp_all
  with t(1) ref_append [OF s'(2) t(2)] show ?case by simp
qed

lemma chunks_irrelevant:
  assumes "ok s" "\<forall>xs\<in>set xss. fits xs" "\<forall>xs\<in>set zss. fits xs" "concat xss = concat zss"
    and "run_chunks upd xss s = (ys, t)" "run_chunks upd zss s = (zs, u)"
  shows "ys = zs \<and> abst t = abst u"
  using run_refines [OF assms(1,2,5)] run_refines [OF assms(1,3,6)] assms(4) by simp

end

end
