(* ===== verification/Base64.thy ===== *)
theory Base64
  imports Constant_Time
begin

text \<open>
  \<open>crypto/base64/base64.c\<close>: the base64 encoder and decoder. An input pointer with its length is
  the list of the bytes behind the pointer and the length. What a function stores through its
  output pointer is returned as the list of the bytes stored from there on, closing NUL
  included, next to the length it reports; the code trusts the caller that the buffer is large
  enough, so no bound is checked here either.
\<close>

section \<open>Constant-time helpers\<close>

definition constant_time_lt_args_8 :: "u8 \<Rightarrow> u8 \<Rightarrow> u8" where
  "constant_time_lt_args_8 a b = ucast (constant_time_msb_w (ucast a - ucast b))"

definition constant_time_in_range_8 :: "u8 \<Rightarrow> u8 \<Rightarrow> u8 \<Rightarrow> u8" where
  "constant_time_in_range_8 a lo hi = constant_time_lt_args_8 (a - lo) (hi - lo + 1)"

definition conv_bin2ascii :: "u8 \<Rightarrow> u8" where
  "conv_bin2ascii a =
     (let a = a AND 0x3f;
          ret = constant_time_select_8 (constant_time_eq_8 (ucast a) 62) 0x2b 0x2f;
          ret = constant_time_select_8 (constant_time_lt_args_8 a 62) (a - 52 + 0x30) ret;
          ret = constant_time_select_8 (constant_time_lt_args_8 a 52) (a - 26 + 0x61) ret
      in constant_time_select_8 (constant_time_lt_args_8 a 26) (a + 0x41) ret)"

definition base64_ascii_to_bin :: "u8 \<Rightarrow> u8" where
  "base64_ascii_to_bin a =
     (let is_upper = constant_time_in_range_8 a 0x41 0x5a;
          is_lower = constant_time_in_range_8 a 0x61 0x7a;
          is_digit = constant_time_in_range_8 a 0x30 0x39;
          is_plus = constant_time_eq_8 (ucast a) 0x2b;
          is_slash = constant_time_eq_8 (ucast a) 0x2f;
          is_equals = constant_time_eq_8 (ucast a) 0x3d;
          ret = 0xff;
          ret = constant_time_select_8 is_upper (a - 0x41) ret;
          ret = constant_time_select_8 is_lower (a - 0x61 + 26) ret;
          ret = constant_time_select_8 is_digit (a - 0x30 + 52) ret;
          ret = constant_time_select_8 is_plus 62 ret;
          ret = constant_time_select_8 is_slash 63 ret
      in constant_time_select_8 is_equals 0 ret)"

section \<open>Encoding\<close>

text \<open>\<open>data\<close> has 48 bytes; the two flags are only ever 0 or 1.\<close>

record evp_encode_ctx =
  data_used :: nat
  enc_data :: bytes
  eof_seen :: bool
  error_encountered :: bool

definition ENCODE_BLOCK :: nat where
  "ENCODE_BLOCK = 48"

definition EVP_EncodedLength :: "nat \<Rightarrow> nat option" where
  "EVP_EncodedLength len =
     (if (len + 2) mod SIZE_LIMIT < len then None
      else
        let len = (len + 2) mod SIZE_LIMIT div 3 in
        if len * 4 mod SIZE_LIMIT div 4 \<noteq> len then None
        else
          let len = len * 4 mod SIZE_LIMIT in
          if (len + 1) mod SIZE_LIMIT < len then None else Some ((len + 1) mod SIZE_LIMIT))"

definition EVP_EncodeInit :: evp_encode_ctx where
  "EVP_EncodeInit = \<lparr>data_used = 0, enc_data = replicate ENCODE_BLOCK 0, eof_seen = False, error_encountered = False\<rparr>"

fun encode_block_loop :: "bytes \<Rightarrow> nat \<Rightarrow> bytes" where
  "encode_block_loop src remaining =
     (if remaining = 0 then []
      else if remaining \<ge> 3 then
        let l = push_bit 16 (ucast (src ! 0)) OR push_bit 8 (ucast (src ! 1)) OR ucast (src ! 2) :: u32
        in [conv_bin2ascii (ucast (drop_bit 18 l)), conv_bin2ascii (ucast (drop_bit 12 l)),
            conv_bin2ascii (ucast (drop_bit 6 l)), conv_bin2ascii (ucast l)] @
           encode_block_loop (drop 3 src) (remaining - 3)
      else
        let l = push_bit 16 (ucast (src ! 0)) :: u32;
            l = (if remaining = 2 then l OR push_bit 8 (ucast (src ! 1)) else l)
        in [conv_bin2ascii (ucast (drop_bit 18 l)), conv_bin2ascii (ucast (drop_bit 12 l)),
            if remaining = 1 then 0x3d else conv_bin2ascii (ucast (drop_bit 6 l)), 0x3d])"

declare encode_block_loop.simps [simp del]

definition EVP_EncodeBlock :: "bytes \<Rightarrow> nat \<Rightarrow> nat \<times> bytes" where
  "EVP_EncodeBlock src src_len =
     (let dst = encode_block_loop src src_len in (length dst mod SIZE_LIMIT, dst @ [0]))"

text \<open>
  The full lines of one update; \<open>encode_rest\<close> is the loop and what follows it. \<open>dst\<close> is what lies before the output pointer; the NUL behind it
  is overwritten by the next line. The result starts with \<open>None\<close> when the total overflows.
\<close>

function encode_lines_loop :: "nat \<Rightarrow> bytes \<Rightarrow> bytes \<Rightarrow> nat \<Rightarrow> nat option \<times> bytes \<times> bytes \<times> nat" where
  "encode_lines_loop sofar dst inp in_len =
     (if in_len \<ge> ENCODE_BLOCK then
        case EVP_EncodeBlock inp ENCODE_BLOCK of
          (encoded, blk) \<Rightarrow>
            let dst = dst @ take encoded blk @ [0x0a] in
            if (sofar + encoded + 1) mod SIZE_LIMIT < sofar then (None, dst, drop ENCODE_BLOCK inp, in_len - ENCODE_BLOCK)
            else encode_lines_loop ((sofar + encoded + 1) mod SIZE_LIMIT) dst (drop ENCODE_BLOCK inp) (in_len - ENCODE_BLOCK)
      else (Some sofar, dst, inp, in_len))"
  by pat_completeness auto
termination
  by (relation "measure (\<lambda>(_, _, _, in_len). in_len)") (simp_all add: ENCODE_BLOCK_def)

declare encode_lines_loop.simps [simp del]

definition terminated :: "bytes \<Rightarrow> bytes" where
  "terminated dst = (if dst = [] then [] else dst @ [0])"

definition encode_rest :: "nat \<Rightarrow> bytes \<Rightarrow> bytes \<Rightarrow> nat \<Rightarrow> evp_encode_ctx \<Rightarrow> (nat \<times> bytes) \<times> evp_encode_ctx" where
  "encode_rest sofar dst inp in_len ctx =
     (case encode_lines_loop sofar dst inp in_len of
        (None, dst, _, _) \<Rightarrow> ((0, terminated dst), ctx)
      | (Some sofar, dst, inp, in_len) \<Rightarrow>
          let ctx = (if in_len \<noteq> 0 then ctx\<lparr>enc_data := store_at (enc_data ctx) 0 (take in_len inp)\<rparr> else ctx);
              sofar = (if sofar > INT_MAX then 0 else sofar)
          in ((sofar, terminated dst), ctx\<lparr>data_used := in_len\<rparr>))"

definition EVP_EncodeUpdate :: "bytes \<Rightarrow> nat \<Rightarrow> evp_encode_ctx \<Rightarrow> (nat \<times> bytes) \<times> evp_encode_ctx" where
  "EVP_EncodeUpdate inp in_len ctx =
     (if in_len = 0 then ((0, []), ctx)
      else if ENCODE_BLOCK - data_used ctx > in_len then
        ((0, []), ctx\<lparr>enc_data := store_at (enc_data ctx) (data_used ctx) (take in_len inp),
                      data_used := data_used ctx + in_len\<rparr>)
      else
        case (if data_used ctx \<noteq> 0 then
                let todo = ENCODE_BLOCK - data_used ctx;
                    ctx = ctx\<lparr>enc_data := store_at (enc_data ctx) (data_used ctx) (take todo inp)\<rparr>
                in case EVP_EncodeBlock (enc_data ctx) ENCODE_BLOCK of
                     (encoded, blk) \<Rightarrow>
                       (encoded + 1, take encoded blk @ [0x0a], drop todo inp, in_len - todo, ctx\<lparr>data_used := 0\<rparr>)
              else (0, [], inp, in_len, ctx)) of
          (sofar, dst, inp, in_len, ctx) \<Rightarrow> encode_rest sofar dst inp in_len ctx)"

definition EVP_EncodeFinal :: "evp_encode_ctx \<Rightarrow> (nat \<times> bytes) \<times> evp_encode_ctx" where
  "EVP_EncodeFinal ctx =
     (if data_used ctx = 0 then ((0, []), ctx)
      else case EVP_EncodeBlock (enc_data ctx) (data_used ctx) of
             (encoded, blk) \<Rightarrow>
               ((encoded + 1, take encoded blk @ [0x0a, 0]), ctx\<lparr>data_used := 0\<rparr>))"

section \<open>Decoding\<close>

definition EVP_DecodedLength :: "nat \<Rightarrow> nat option" where
  "EVP_DecodedLength len = (if len mod 4 \<noteq> 0 then None else Some (len div 4 * 3))"

definition EVP_DecodeInit :: evp_encode_ctx where
  "EVP_DecodeInit = \<lparr>data_used = 0, enc_data = replicate ENCODE_BLOCK 0, eof_seen = False, error_encountered = False\<rparr>"

text \<open>The bytes one group of four characters stands for: three, or less when it ends with padding.\<close>

definition base64_decode_quad :: "bytes \<Rightarrow> bytes option" where
  "base64_decode_quad inp =
     (let a = base64_ascii_to_bin (inp ! 0);
          b = base64_ascii_to_bin (inp ! 1);
          c = base64_ascii_to_bin (inp ! 2);
          d = base64_ascii_to_bin (inp ! 3)
      in if a = 0xff \<or> b = 0xff \<or> c = 0xff \<or> d = 0xff then None
         else
           let v = push_bit 18 (ucast a) OR push_bit 12 (ucast b) OR push_bit 6 (ucast c) OR ucast d :: u32;
               padding_pattern =
                 (if inp ! 0 = 0x3d then 8 else 0) + (if inp ! 1 = 0x3d then 4 else 0) +
                 (if inp ! 2 = 0x3d then 2 else 0) + (if inp ! 3 = 0x3d then 1 else 0) :: nat
           in if padding_pattern = 0 then Some [ucast (drop_bit 16 v), ucast (drop_bit 8 v), ucast v]
              else if padding_pattern = 1 then Some [ucast (drop_bit 16 v), ucast (drop_bit 8 v)]
              else if padding_pattern = 3 then Some [ucast (drop_bit 16 v)]
              else None)"

text \<open>The loop of an update; the first component is \<open>False\<close> when it fails.\<close>

fun decode_loop :: "bytes \<Rightarrow> bytes \<Rightarrow> evp_encode_ctx \<Rightarrow> bool \<times> bytes \<times> evp_encode_ctx" where
  "decode_loop [] dst ctx = (True, dst, ctx)"
| "decode_loop (c # inp) dst ctx =
     (if c = 0x20 \<or> c = 0x09 \<or> c = 0x0d \<or> c = 0x0a then decode_loop inp dst ctx
      else if eof_seen ctx then (False, dst, ctx\<lparr>error_encountered := True\<rparr>)
      else
        let ctx = ctx\<lparr>enc_data := (enc_data ctx)[data_used ctx := c], data_used := data_used ctx + 1\<rparr> in
        if data_used ctx = 4 then
          case base64_decode_quad (enc_data ctx) of
            None \<Rightarrow> (False, dst, ctx\<lparr>error_encountered := True\<rparr>)
          | Some bs \<Rightarrow>
              let ctx = ctx\<lparr>data_used := 0\<rparr>;
                  ctx = (if length bs < 3 then ctx\<lparr>eof_seen := True\<rparr> else ctx)
              in decode_loop inp (dst @ bs) ctx
        else decode_loop inp dst ctx)"

text \<open>The result: the return value, the length reported, the bytes stored, and the state.\<close>

definition EVP_DecodeUpdate :: "bytes \<Rightarrow> nat \<Rightarrow> evp_encode_ctx \<Rightarrow> (int \<times> nat \<times> bytes) \<times> evp_encode_ctx" where
  "EVP_DecodeUpdate inp in_len ctx =
     (if error_encountered ctx then ((- 1, 0, []), ctx)
      else case decode_loop (take in_len inp) [] ctx of
             (False, dst, ctx) \<Rightarrow> ((- 1, 0, dst), ctx)
           | (True, dst, ctx) \<Rightarrow>
               if length dst > INT_MAX then ((- 1, 0, dst), ctx\<lparr>error_encountered := True\<rparr>)
               else ((if eof_seen ctx then 0 else 1, length dst, dst), ctx))"

definition EVP_DecodeFinal :: "evp_encode_ctx \<Rightarrow> int \<times> nat" where
  "EVP_DecodeFinal ctx = (if error_encountered ctx \<or> data_used ctx \<noteq> 0 then (- 1, 0) else (1, 0))"

fun decode_base64_loop :: "bytes \<Rightarrow> nat \<Rightarrow> bytes \<Rightarrow> bytes option" where
  "decode_base64_loop inp remaining dst =
     (if remaining = 0 then Some dst
      else case base64_decode_quad inp of
             None \<Rightarrow> None
           | Some bs \<Rightarrow>
               if length bs \<noteq> 3 \<and> remaining \<noteq> 4 then None
               else decode_base64_loop (drop 4 inp) (remaining - 4) (dst @ bs))"

declare decode_base64_loop.simps [simp del]

definition EVP_DecodeBase64 :: "nat \<Rightarrow> bytes \<Rightarrow> nat \<Rightarrow> bytes option" where
  "EVP_DecodeBase64 max_out inp in_len =
     (if in_len mod 4 \<noteq> 0 then None
      else case EVP_DecodedLength in_len of
             None \<Rightarrow> None
           | Some max_len \<Rightarrow> if max_out < max_len then None else decode_base64_loop inp in_len [])"

fun trim_front :: "bytes \<Rightarrow> nat \<Rightarrow> bytes \<times> nat" where
  "trim_front src 0 = (src, 0)"
| "trim_front src (Suc src_len) =
     (if src ! 0 \<noteq> 0x20 \<and> src ! 0 \<noteq> 0x09 then (src, Suc src_len) else trim_front (drop 1 src) src_len)"

fun trim_end :: "bytes \<Rightarrow> nat \<Rightarrow> nat" where
  "trim_end src 0 = 0"
| "trim_end src (Suc src_len) =
     (if src ! src_len = 0x20 \<or> src ! src_len = 0x09 \<or> src ! src_len = 0x0d \<or> src ! src_len = 0x0a
      then trim_end src src_len else Suc src_len)"

function pad_block :: "bytes \<Rightarrow> bytes" where
  "pad_block dst = (if length dst mod 3 \<noteq> 0 then pad_block (dst @ [0]) else dst)"
  by pat_completeness auto
termination
  by (relation "measure (\<lambda>dst. (3 - length dst mod 3) mod 3)") (simp_all add: mod_Suc, presburger)

declare pad_block.simps [simp del]

definition EVP_DecodeBlock :: "bytes \<Rightarrow> nat \<Rightarrow> int \<times> bytes" where
  "EVP_DecodeBlock src src_len =
     (case trim_front src src_len of
        (src, src_len) \<Rightarrow>
          let src_len = trim_end src src_len in
          case EVP_DecodedLength src_len of
            None \<Rightarrow> (- 1, [])
          | Some dst_len \<Rightarrow>
              if dst_len > INT_MAX then (- 1, [])
              else case EVP_DecodeBase64 dst_len src src_len of
                     None \<Rightarrow> (- 1, [])
                   | Some dst \<Rightarrow> let dst = pad_block dst in (int (length dst), dst))"

end
