(* ===== verification/Base64_Spec.thy ===== *)
theory Base64_Spec
  imports Base64 Streaming
begin

text \<open>
  What the base64 coder promises. The reference encoder works on triples of bytes as numbers;
  the streaming encoder breaks its output into lines of 64 characters wherever its input is cut,
  and both decoders give back what was encoded.
\<close>

section \<open>The alphabet\<close>

definition b64_char :: "nat \<Rightarrow> u8" where
  "b64_char n =
     (if n < 26 then word_of_nat n + 0x41
      else if n < 52 then word_of_nat n - 26 + 0x61
      else if n < 62 then word_of_nat n - 52 + 0x30
      else if n = 62 then 0x2b
      else 0x2f)"

lemma lt_args_8_eq: "constant_time_lt_args_8 a b = (if a < b then 0xff else 0)"
proof -
  have l: "unat a < 256" "unat b < 256" by simp_all
  have "unat (ucast a - ucast b :: u64) =
    (if unat b \<le> unat a then unat a - unat b else 2 ^ 64 + unat a - unat b)"
    using unat_sub_if' [of "ucast a :: u64" "ucast b"] l by auto
  then have "bit (ucast a - ucast b :: u64) 63 \<longleftrightarrow> a < b"
    using l unfolding bit_63_iff word_less_nat_alt by (simp split: if_splits; linarith)
  then show ?thesis by (simp add: constant_time_lt_args_8_def constant_time_msb_w_eq ucast_mask_8)
qed

lemma eq_8_byte: "constant_time_eq_8 (ucast (a :: u8)) 0x2b = (if a = 0x2b then 0xff else 0)"
  "constant_time_eq_8 (ucast a) 0x2f = (if a = 0x2f then 0xff else 0)"
  "constant_time_eq_8 (ucast a) 0x3d = (if a = 0x3d then 0xff else 0)"
  "constant_time_eq_8 (ucast a) 62 = (if a = 62 then 0xff else 0)"
  using constant_time_eq_8_bytes [where a = a and b = "0x2b"] constant_time_eq_8_bytes [where a = a and b = "0x2f"]
    constant_time_eq_8_bytes [where a = a and b = "0x3d"] constant_time_eq_8_bytes [where a = a and b = "62"] by simp_all

lemma conv_bin2ascii_if:
  "conv_bin2ascii a =
     (let a = a AND 0x3f in
      if a < 26 then a + 0x41 else if a < 52 then a - 26 + 0x61 else if a < 62 then a - 52 + 0x30
      else if a = 62 then 0x2b else 0x2f)"
  by (simp add: conv_bin2ascii_def Let_def eq_8_byte lt_args_8_eq)

lemma base64_ascii_to_bin_if:
  "base64_ascii_to_bin a =
     (if a = 0x3d then 0 else if a = 0x2f then 63 else if a = 0x2b then 62
      else if a - 0x30 < 10 then a - 0x30 + 52
      else if a - 0x61 < 26 then a - 0x61 + 26
      else if a - 0x41 < 26 then a - 0x41 else 0xff)"
  by (simp add: base64_ascii_to_bin_def Let_def eq_8_byte constant_time_in_range_8_def lt_args_8_eq)

lemma and_0x3f: "unat (a AND 0x3f :: u8) = unat a mod 64"
  using unat_and_push_mask [of a 0 6] by (simp add: mask_eq_exp_minus_1)

lemma conv_bin2ascii_eq: "conv_bin2ascii a = b64_char (unat a mod 64)"
proof -
  have 1: "a AND 0x3f = word_of_nat (unat a mod 64)" by (rule unat_eq_word_of_nat [OF and_0x3f])
  have 2: "unat (word_of_nat (unat a mod 64) :: u8) = unat a mod 64"
    by (simp add: unat_of_nat)
  show ?thesis unfolding conv_bin2ascii_if 1 Let_def
    by (simp add: b64_char_def word_less_nat_alt word_unat_eq_iff 2)
qed

lemma alphabet:
  assumes "n < 64"
  shows "base64_ascii_to_bin (b64_char n) = word_of_nat n \<and>
    b64_char n \<noteq> 0x3d \<and> b64_char n \<noteq> 0x20 \<and> b64_char n \<noteq> 0x09 \<and> b64_char n \<noteq> 0x0d \<and> b64_char n \<noteq> 0x0a"
proof -
  have "\<forall>n\<in>set [0..<64]. base64_ascii_to_bin (b64_char n) = word_of_nat n \<and>
    b64_char n \<noteq> 0x3d \<and> b64_char n \<noteq> 0x20 \<and> b64_char n \<noteq> 0x09 \<and> b64_char n \<noteq> 0x0d \<and> b64_char n \<noteq> 0x0a"
    unfolding base64_ascii_to_bin_if by code_simp
  with assms show ?thesis by simp
qed

section \<open>Groups\<close>

definition sextet :: "nat \<Rightarrow> nat \<Rightarrow> nat" where
  "sextet k n = n div 64 ^ k mod 64"

definition triple :: "u8 \<Rightarrow> u8 \<Rightarrow> u8 \<Rightarrow> nat" where
  "triple a b c = unat a * 65536 + unat b * 256 + unat c"

fun encode64 :: "bytes \<Rightarrow> bytes" where
  "encode64 (a # b # c # bs) = map (\<lambda>k. b64_char (sextet k (triple a b c))) [3, 2, 1, 0] @ encode64 bs"
| "encode64 [a, b] = map (\<lambda>k. b64_char (sextet k (triple a b 0))) [3, 2, 1] @ [0x3d]"
| "encode64 [a] = map (\<lambda>k. b64_char (sextet k (triple a 0 0))) [3, 2] @ [0x3d, 0x3d]"
| "encode64 [] = []"

lemma unat_group:
  "unat (push_bit 16 (ucast a) OR push_bit 8 (ucast b) OR ucast c :: u32) = triple a b c"
proof -
  have l: "unat a < 256" "unat b < 256" "unat c < 256" by simp_all
  then have m: "unat b * 256 + unat c < 65536" by linarith
  from l have m': "unat a * 65536 + (unat b * 256 + unat c) < 4294967296" by linarith
  have 1: "unat (push_bit 8 (ucast b) OR ucast c :: u32) = unat b * 256 + unat c"
    using l m by (subst unat_push_bit_or) simp_all
  show ?thesis unfolding or.assoc
    using l m m' by (subst unat_push_bit_or) (simp_all add: 1 triple_def)
qed

lemmas unat_short_group =
  unat_group [of a b 0 for a b, simplified] unat_group [of a 0 0 for a, simplified]

lemma sextet_byte: "conv_bin2ascii (ucast (drop_bit (6 * k) (l :: u32))) = b64_char (sextet k (unat l))"
proof -
  have "unat l mod 2 ^ 32 = unat l"
    using unsigned_less [of l, where ?'a = nat] by simp
  then show ?thesis
    unfolding conv_bin2ascii_eq unsigned_ucast_eq unsigned_drop_bit_eq
    by (simp add: drop_bit_eq_div take_bit_eq_mod mod_mod_cancel sextet_def power_mult)
qed

lemmas sextet_bytes =
  sextet_byte [of 3, simplified] sextet_byte [of 2, simplified] sextet_byte [of 1, simplified] sextet_byte [of 0, simplified]

lemma encode_block_loop_eq: "encode_block_loop (bs @ t) (length bs) = encode64 bs"
proof (induction bs rule: encode64.induct)
  case (1 a b c bs)
  obtain l :: u32 where l: "l = push_bit 16 (ucast a) OR push_bit 8 (ucast b) OR ucast c" by simp
  have u: "unat l = triple a b c" unfolding l by (rule unat_group)
  show ?case
    by (subst encode_block_loop.simps) (simp add: Let_def 1 del: drop_bit_or flip: l sextet_bytes u)
next
  case (2 a b)
  obtain l :: u32 where l: "l = push_bit 16 (ucast a) OR push_bit 8 (ucast b)" by simp
  have u: "unat l = triple a b 0" unfolding l by (rule unat_short_group)
  show ?case
    by (subst encode_block_loop.simps) (simp add: Let_def del: drop_bit_or flip: l sextet_bytes u)
next
  case (3 a)
  obtain l :: u32 where l: "l = push_bit 16 (ucast a)" by simp
  have u: "unat l = triple a 0 0" unfolding l by (rule unat_short_group)
  show ?case
    by (subst encode_block_loop.simps) (simp add: Let_def del: drop_bit_or flip: l sextet_bytes u)
next
  case 4
  then show ?case by (simp add: encode_block_loop.simps)
qed

section \<open>Decoding one group\<close>

lemma sextet_less [simp]: "sextet k n < 64"
  by (simp add: sextet_def)

lemma triple_less: "triple a b c < 16777216"
  using unat_byte_lt [of a] unat_byte_lt [of b] unat_byte_lt [of c] unfolding triple_def by linarith

lemma sextet_sum:
  assumes "n < 16777216"
  shows "sextet 3 n * 262144 + sextet 2 n * 4096 + sextet 1 n * 64 + sextet 0 n = n"
proof -
  have "n div 262144 < 64" using assms by (simp add: less_mult_imp_div_less)
  moreover have "n div 64 = n div 4096 * 64 + n div 64 mod 64" "n div 4096 = n div 262144 * 64 + n div 4096 mod 64"
    by (simp_all add: div_mult2_eq [of n 64 64, simplified] div_mult2_eq [of n 4096 64, simplified])
  moreover have "n = n div 64 * 64 + n mod 64" by simp
  ultimately have "n div 262144 * 262144 + n div 4096 mod 64 * 4096 + n div 64 mod 64 * 64 + n mod 64 = n"
    by linarith
  with \<open>n div 262144 < 64\<close> show ?thesis by (simp add: sextet_def)
qed

lemma sextet_short: "sextet 0 (triple a b 0) = 0" "sextet 1 (triple a 0 0) = 0"
proof -
  have "triple a b 0 = 64 * (unat a * 1024 + unat b * 4)" "triple a 0 0 div 64 = 64 * (unat a * 16)"
    by (simp_all add: triple_def)
  then show "sextet 0 (triple a b 0) = 0" "sextet 1 (triple a 0 0) = 0"
    by (simp_all add: sextet_def)
qed

lemma unat_quad:
  assumes "i < 64" "j < 64" "k < 64" "l < 64"
  shows "unat (push_bit 18 (ucast (word_of_nat i :: u8)) OR push_bit 12 (ucast (word_of_nat j :: u8)) OR
    push_bit 6 (ucast (word_of_nat k :: u8)) OR ucast (word_of_nat l :: u8) :: u32) = i * 262144 + j * 4096 + k * 64 + l"
proof -
  have u: "unat (word_of_nat n :: u8) = n" if "n < 64" for n
    using that by (simp add: unat_of_nat)
  have m: "k * 64 + l < 4096" "j * 4096 + (k * 64 + l) < 262144" "i * 262144 + (j * 4096 + (k * 64 + l)) < 4294967296"
    using assms by linarith+
  have 1: "unat (push_bit 6 (ucast (word_of_nat k :: u8)) OR ucast (word_of_nat l :: u8) :: u32) = k * 64 + l"
    using assms m by (subst unat_push_bit_or) (simp_all add: u)
  have 2: "unat (push_bit 12 (ucast (word_of_nat j :: u8)) OR (push_bit 6 (ucast (word_of_nat k :: u8)) OR
    ucast (word_of_nat l :: u8)) :: u32) = j * 4096 + (k * 64 + l)"
    using assms m by (subst unat_push_bit_or) (simp_all add: 1 u)
  show ?thesis unfolding or.assoc
    using assms m by (subst unat_push_bit_or) (simp_all add: 2 u)
qed

lemma triple_bytes:
  assumes "unat (v :: u32) = triple a b c"
  shows "ucast (drop_bit 16 v) = a" "ucast (drop_bit 8 v) = b" "ucast v = c"
proof -
  have l: "unat a < 256" "unat b < 256" "unat c < 256" by simp_all
  then have "unat b * 256 + unat c < 65536" by linarith
  moreover have t: "triple a b c = (unat b * 256 + unat c) + unat a * 65536"
    "triple a b c = unat c + (unat a * 256 + unat b) * 256" by (simp_all add: triple_def)
  ultimately have d: "triple a b c div 65536 = unat a" "triple a b c div 256 = unat a * 256 + unat b"
    using l by (metis div_less div_mult_self1 add.right_neutral zero_neq_numeral)+
  have "triple a b c mod 256 = unat c mod 256" unfolding t(2) by (rule mod_mult_self1)
  then have m: "triple a b c mod 256 = unat c" "unat a mod 256 = unat a"
    using l by simp_all
  have m': "(unat a * 256 + unat b) mod 256 = unat b" using l by simp
  have v: "triple a b c mod 4294967296 = triple a b c"
    using triple_less [of a b c] by simp
  have "unat (ucast (drop_bit 16 v) :: u8) = unat a" "unat (ucast (drop_bit 8 v) :: u8) = unat b"
    "unat (ucast v :: u8) = unat c"
    unfolding unsigned_ucast_eq unsigned_drop_bit_eq
    by (simp_all add: drop_bit_eq_div take_bit_eq_mod assms d m m' v)
  then show "ucast (drop_bit 16 v) = a" "ucast (drop_bit 8 v) = b" "ucast v = c"
    by (simp_all add: word_unat_eq_iff)
qed

lemma word_small_ff: "n < 64 \<Longrightarrow> (word_of_nat n :: u8) \<noteq> 0xff"
  by (simp add: word_unat_eq_iff unat_of_nat)

lemma pad_to_bin: "base64_ascii_to_bin 0x3d = 0"
  by (simp add: base64_ascii_to_bin_if)

lemmas alphabet_simps = conjunct1 [OF alphabet] conjunct1 [OF conjunct2 [OF alphabet]]

lemma decode_quad:
  "base64_decode_quad (map (\<lambda>k. b64_char (sextet k (triple a b c))) [3, 2, 1, 0] @ t) = Some [a, b, c]"
  "base64_decode_quad (map (\<lambda>k. b64_char (sextet k (triple a b 0))) [3, 2, 1] @ 0x3d # t) = Some [a, b]"
  "base64_decode_quad (map (\<lambda>k. b64_char (sextet k (triple a 0 0))) [3, 2] @ 0x3d # 0x3d # t) = Some [a]"
proof -
  note sum = sextet_sum [OF triple_less]
  have 1: "unat (push_bit 18 (ucast (word_of_nat (sextet 3 n) :: u8)) OR push_bit 12 (ucast (word_of_nat (sextet 2 n) :: u8)) OR
    push_bit 6 (ucast (word_of_nat (sextet 1 n) :: u8)) OR ucast (word_of_nat (sextet 0 n) :: u8) :: u32) = n"
    if "n = triple a b c" for n a b c
    unfolding that by (subst unat_quad) (simp_all only: sextet_less sum)
  show "base64_decode_quad (map (\<lambda>k. b64_char (sextet k (triple a b c))) [3, 2, 1, 0] @ t) = Some [a, b, c]"
    using triple_bytes [OF 1 [OF refl, of a b c]]
    by (simp add: base64_decode_quad_def alphabet_simps word_small_ff del: drop_bit_or)
  show "base64_decode_quad (map (\<lambda>k. b64_char (sextet k (triple a b 0))) [3, 2, 1] @ 0x3d # t) = Some [a, b]"
    using triple_bytes [OF 1 [OF refl, of a b 0]]
    by (simp add: base64_decode_quad_def alphabet_simps word_small_ff pad_to_bin sextet_short sextet_short(2) [unfolded One_nat_def] del: drop_bit_or)
  show "base64_decode_quad (map (\<lambda>k. b64_char (sextet k (triple a 0 0))) [3, 2] @ 0x3d # 0x3d # t) = Some [a]"
    using triple_bytes [OF 1 [OF refl, of a 0 0]] sextet_short(1) [of a 0]
    by (simp add: base64_decode_quad_def alphabet_simps word_small_ff pad_to_bin sextet_short sextet_short(2) [unfolded One_nat_def] del: drop_bit_or)
qed

section \<open>Streaming decoder\<close>

definition small :: "bytes \<Rightarrow> bool" where
  "small d \<longleftrightarrow> length d < 2 ^ 29"

definition ref_decode :: "bytes \<Rightarrow> evp_encode_ctx \<Rightarrow> bytes \<times> evp_encode_ctx" where
  "ref_decode xs ctx = (if error_encountered ctx then ([], ctx) else snd (decode_loop xs [] ctx))"

text \<open>What an update stores, and what it reports as stored.\<close>

definition decode_stored :: "bytes \<Rightarrow> evp_encode_ctx \<Rightarrow> bytes \<times> evp_encode_ctx" where
  "decode_stored d ctx = (case EVP_DecodeUpdate d (length d) ctx of ((r, n, w), c) \<Rightarrow> (w, c))"

definition decode_seen :: "bytes \<Rightarrow> evp_encode_ctx \<Rightarrow> bytes \<times> evp_encode_ctx" where
  "decode_seen d ctx = (case EVP_DecodeUpdate d (length d) ctx of ((r, n, w), c) \<Rightarrow> (take n w, c))"

lemma quad_length: "base64_decode_quad q = Some bs \<Longrightarrow> length bs \<le> 3"
  by (auto simp: base64_decode_quad_def Let_def split: if_splits)

lemma decode_loop_prefix:
  "decode_loop xs (p @ dst) ctx = (case decode_loop xs dst ctx of (b, w, c) \<Rightarrow> (b, p @ w, c))"
  by (induction xs dst ctx rule: decode_loop.induct) (auto simp: Let_def split: option.splits)

lemmas decode_loop_acc = decode_loop_prefix [where dst = "[]", simplified]

lemma decode_loop_append:
  "decode_loop (xs @ ys) dst ctx =
    (case decode_loop xs dst ctx of (b, w, c) \<Rightarrow> if b then decode_loop ys w c else (False, w, c))"
  by (induction xs dst ctx rule: decode_loop.induct) (auto simp: Let_def split: option.splits)

lemma decode_loop_step:
  obtains (skip) "\<And>dst. decode_loop (x # xs) dst ctx = decode_loop xs dst ctx"
    | (stop) ctx' where "\<And>dst. decode_loop (x # xs) dst ctx = (False, dst, ctx'\<lparr>error_encountered := True\<rparr>)"
    | (go) bs ctx' where "length bs \<le> 3" "error_encountered ctx' = error_encountered ctx"
        "\<And>dst. decode_loop (x # xs) dst ctx = decode_loop xs (dst @ bs) ctx'"
proof -
  let ?q = "base64_decode_quad ((enc_data ctx)[data_used ctx := x])"
  consider "x = 0x20 \<or> x = 0x09 \<or> x = 0x0d \<or> x = 0x0a"
    | "\<not> (x = 0x20 \<or> x = 0x09 \<or> x = 0x0d \<or> x = 0x0a)" "eof_seen ctx"
    | "\<not> (x = 0x20 \<or> x = 0x09 \<or> x = 0x0d \<or> x = 0x0a)" "\<not> eof_seen ctx" "data_used ctx \<noteq> 3"
    | "\<not> (x = 0x20 \<or> x = 0x09 \<or> x = 0x0d \<or> x = 0x0a)" "\<not> eof_seen ctx" "data_used ctx = 3" "?q = None"
    | bs where "\<not> (x = 0x20 \<or> x = 0x09 \<or> x = 0x0d \<or> x = 0x0a)" "\<not> eof_seen ctx" "data_used ctx = 3" "?q = Some bs"
    by auto
  then show thesis
  proof cases
    case 1
    then show thesis by (intro skip) auto
  next
    case 2
    then show thesis by (intro stop [of ctx]) auto
  next
    case 3
    then show thesis
      by (intro go [of "[]" "ctx\<lparr>enc_data := (enc_data ctx)[data_used ctx := x], data_used := data_used ctx + 1\<rparr>"])
        (auto simp: Let_def)
  next
    case 4
    then show thesis
      by (intro stop [of "ctx\<lparr>enc_data := (enc_data ctx)[data_used ctx := x], data_used := data_used ctx + 1\<rparr>"])
        (auto simp: Let_def)
  next
    case 5
    then show thesis using quad_length [of _ bs]
      by (intro go [of bs "(if length bs < 3 then
            ctx\<lparr>enc_data := (enc_data ctx)[data_used ctx := x], data_used := 0, eof_seen := True\<rparr>
          else ctx\<lparr>enc_data := (enc_data ctx)[data_used ctx := x], data_used := 0\<rparr>)"])
        (auto simp: Let_def)
  qed
qed

lemma decode_loop_props:
  assumes "decode_loop xs dst ctx = (b, w, c)" "\<not> error_encountered ctx"
  shows "(error_encountered c \<longleftrightarrow> \<not> b) \<and> length w \<le> length dst + 3 * length xs"
  using assms
proof (induction xs arbitrary: dst ctx)
  case (Cons x xs)
  show ?case
  proof (cases rule: decode_loop_step [of x xs ctx])
    case (go bs ctx')
    with Cons.IH [of "dst @ bs" ctx'] Cons.prems show ?thesis by simp
  next
    case skip
    with Cons.IH [of dst ctx] Cons.prems show ?thesis by simp
  next
    case (stop ctx')
    with Cons.prems show ?thesis by auto
  qed
qed auto

lemma decode_stored_eq:
  assumes "small d"
  shows "decode_stored d ctx = ref_decode d ctx"
    and "\<not> error_encountered (snd (decode_stored d ctx)) \<Longrightarrow> decode_seen d ctx = decode_stored d ctx"
proof -
  obtain b w c where r: "decode_loop d [] ctx = (b, w, c)" by (rule prod_cases3)
  have "\<not> error_encountered ctx \<Longrightarrow> (error_encountered c \<longleftrightarrow> \<not> b) \<and> \<not> INT_MAX < length w"
    using decode_loop_props [OF r] assms by (auto simp: small_def INT_MAX_def)
  then show "decode_stored d ctx = ref_decode d ctx"
    and "\<not> error_encountered (snd (decode_stored d ctx)) \<Longrightarrow> decode_seen d ctx = decode_stored d ctx"
    using r by (auto simp: decode_stored_def decode_seen_def ref_decode_def EVP_DecodeUpdate_def split: bool.splits)
qed

lemma ref_decode_error: "error_encountered ctx \<Longrightarrow> ref_decode xs ctx = ([], ctx)"
  by (simp add: ref_decode_def)

interpretation b64_decoder: chunked "\<lambda>_. True" small id decode_stored ref_decode
proof
  fix xs zs us vs :: bytes and a b c
  assume 1: "ref_decode xs a = (us, b)" "ref_decode zs b = (vs, c)"
  obtain x w d where r: "decode_loop xs [] a = (x, w, d)" by (rule prod_cases3)
  show "ref_decode (xs @ zs) a = (us @ vs, c)"
  proof (cases "error_encountered a")
    case False
    from decode_loop_props [OF r this] 1 r False show ?thesis
      by (auto simp: ref_decode_def decode_loop_append decode_loop_acc [of zs us] split: prod.splits)
  qed (use 1 in \<open>simp add: ref_decode_def\<close>)
qed (auto simp: decode_stored_eq ref_decode_def)

lemma run_decode_seen:
  assumes "\<forall>d\<in>set ds. small d" "run_chunks decode_stored ds s = (w, c)" "\<not> error_encountered c"
  shows "run_chunks decode_seen ds s = (w, c)"
  using assms
proof (induction ds arbitrary: s w)
  case (Cons d ds)
  obtain u t where u: "decode_stored d s = (u, t)" by (rule prod.exhaust)
  obtain v t' where v: "run_chunks decode_stored ds t = (v, t')" by (rule prod.exhaust)
  from Cons.prems u v have c: "w = u @ v" "t' = c" "\<forall>d\<in>set ds. small d" "small d" by simp_all
  have "\<not> error_encountered t"
  proof
    assume "error_encountered t"
    with b64_decoder.run_refines [OF TrueI c(3) v] have "t' = t" by (simp add: ref_decode_error)
    with \<open>error_encountered t\<close> Cons.prems(3) c(2) show False by simp
  qed
  then have "decode_seen d s = (u, t)" using decode_stored_eq(2) [OF c(4), of s] u by simp
  with Cons.IH [OF c(3) v [unfolded c(2)] Cons.prems(3)] c(1) show ?case by simp
qed simp

section \<open>Streaming encoder\<close>

text \<open>Lines of 64 characters for every 48 bytes, and what is left over.\<close>

function full_lines :: "bytes \<Rightarrow> bytes \<times> bytes" where
  "full_lines d =
     (if ENCODE_BLOCK \<le> length d
      then (case full_lines (drop ENCODE_BLOCK d) of (t, r) \<Rightarrow> (encode64 (take ENCODE_BLOCK d) @ 0x0a # t, r))
      else ([], d))"
  by pat_completeness auto
termination by (relation "measure length") (simp_all add: ENCODE_BLOCK_def)

declare full_lines.simps [simp del]

definition last_line :: "bytes \<Rightarrow> bytes" where
  "last_line r = (if r = [] then [] else encode64 r @ [0x0a])"

definition b64_lines :: "bytes \<Rightarrow> bytes" where
  "b64_lines d = (case full_lines d of (t, r) \<Rightarrow> t @ last_line r)"

definition ref_encode :: "bytes \<Rightarrow> bytes \<Rightarrow> bytes \<times> bytes" where
  "ref_encode d p = full_lines (p @ d)"

definition pending :: "evp_encode_ctx \<Rightarrow> bytes" where
  "pending ctx = take (data_used ctx) (enc_data ctx)"

definition enc_ok :: "evp_encode_ctx \<Rightarrow> bool" where
  "enc_ok ctx \<longleftrightarrow> data_used ctx < ENCODE_BLOCK \<and> length (enc_data ctx) = ENCODE_BLOCK"

definition encode_seen :: "bytes \<Rightarrow> evp_encode_ctx \<Rightarrow> bytes \<times> evp_encode_ctx" where
  "encode_seen d ctx = (case EVP_EncodeUpdate d (length d) ctx of ((n, w), c) \<Rightarrow> (take n w, c))"

lemma length_encode64: "length (encode64 bs) = (length bs + 2) div 3 * 4"
proof (induction bs rule: encode64.induct)
  case (1 a b c bs)
  have "(length (a # b # c # bs) + 2) div 3 = (length bs + 2 + 3) div 3" by simp
  also have "\<dots> = (length bs + 2) div 3 + 1" by (rule div_add_self2) simp
  finally show ?case using 1 by simp
qed simp_all

lemma encode64_append: "length xs mod 3 = 0 \<Longrightarrow> encode64 (xs @ ys) = encode64 xs @ encode64 ys"
  by (induction xs rule: encode64.induct) (auto simp: mod_Suc split: if_splits)

lemma EVP_EncodeBlock_eq:
  assumes "n \<le> length inp" "n < 2 ^ 32"
  shows "EVP_EncodeBlock inp n = (length (encode64 (take n inp)), encode64 (take n inp) @ [0])"
proof -
  have "encode_block_loop inp n = encode64 (take n inp)"
    using encode_block_loop_eq [of "take n inp" "drop n inp"] assms by (simp add: min_absorb2)
  moreover have "length (encode64 (take n inp)) < SIZE_LIMIT"
    using assms by (simp add: length_encode64 min_def)
  ultimately show ?thesis by (simp add: EVP_EncodeBlock_def Let_def)
qed

lemma EVP_EncodeBlock_line:
  assumes "ENCODE_BLOCK \<le> length inp"
  shows "EVP_EncodeBlock inp ENCODE_BLOCK = (64, encode64 (take ENCODE_BLOCK inp) @ [0])"
  using assms by (simp add: EVP_EncodeBlock_eq length_encode64 ENCODE_BLOCK_def min_def)

lemma length_line: "ENCODE_BLOCK \<le> length inp \<Longrightarrow> length (encode64 (take ENCODE_BLOCK inp)) = 64"
  by (simp add: length_encode64 ENCODE_BLOCK_def min_def)

lemma full_lines_append:
  "full_lines (d @ z) = (case full_lines d of (t, r) \<Rightarrow> (case full_lines (r @ z) of (t', r') \<Rightarrow> (t @ t', r')))"
proof (induction d rule: full_lines.induct)
  case (1 d)
  show ?case
  proof (cases "ENCODE_BLOCK \<le> length d")
    case True
    then show ?thesis using 1 [OF True]
      by (subst (1 2) full_lines.simps) (auto split: prod.splits)
  next
    case False
    then show ?thesis by (subst (2) full_lines.simps) (auto split: prod.splits)
  qed
qed

lemma full_lines_rest: "full_lines d = (t, r) \<Longrightarrow> length r < ENCODE_BLOCK \<and> length t + length r \<le> 2 * length d"
proof (induction d arbitrary: t rule: full_lines.induct)
  case (1 d)
  then show ?case
    by (subst (asm) (2) full_lines.simps) (auto simp: length_line [unfolded ENCODE_BLOCK_def] ENCODE_BLOCK_def split: if_splits prod.splits)
qed

lemma encode_lines_loop_eq:
  assumes "full_lines inp = (t, r)" "sofar + 2 * length inp < SIZE_LIMIT" "sofar = length dst"
  shows "encode_lines_loop sofar dst inp (length inp) = (Some (length (dst @ t)), dst @ t, r, length r)"
  using assms
proof (induction inp arbitrary: t sofar dst rule: full_lines.induct)
  case (1 d)
  show ?case
  proof (cases "ENCODE_BLOCK \<le> length d")
    case True
    obtain t' r' where f: "full_lines (drop ENCODE_BLOCK d) = (t', r')" by (rule prod.exhaust)
    with 1(2) True have t: "t = encode64 (take ENCODE_BLOCK d) @ 0x0a # t'" "r' = r"
      by (simp_all add: full_lines.simps [of d])
    let ?dst = "dst @ encode64 (take ENCODE_BLOCK d) @ [0x0a]"
    have s: "(sofar + 64 + 1) mod SIZE_LIMIT = sofar + 65" "sofar + 65 + 2 * length (drop ENCODE_BLOCK d) < SIZE_LIMIT"
      using 1(3) True by (simp_all add: ENCODE_BLOCK_def)
    have "encode_lines_loop (sofar + 65) ?dst (drop ENCODE_BLOCK d) (length (drop ENCODE_BLOCK d)) =
      (Some (length (?dst @ t')), ?dst @ t', r, length r)"
      using 1(1) [OF True f [unfolded t(2)] s(2), of ?dst] 1(4) True by (simp add: length_line)
    then show ?thesis using True s(1) t
      by (subst encode_lines_loop.simps) (simp add: EVP_EncodeBlock_line length_line Let_def)
  next
    case False
    then show ?thesis using 1 by (simp add: encode_lines_loop.simps full_lines.simps [of d])
  qed
qed

lemma take_terminated [simp]: "take (length dst) (terminated dst) = dst"
  by (simp add: terminated_def)

lemma length_pending: "enc_ok ctx \<Longrightarrow> length (pending ctx) = data_used ctx"
  by (simp add: enc_ok_def pending_def)

lemma store_pending:
  assumes "enc_ok ctx" "data_used ctx + length bs \<le> ENCODE_BLOCK"
  shows "take (data_used ctx + length bs) (store_at (enc_data ctx) (data_used ctx) bs) = pending ctx @ bs"
    and "length (store_at (enc_data ctx) (data_used ctx) bs) = ENCODE_BLOCK"
  using assms take_store_at_end [of "data_used ctx" bs "enc_data ctx"] by (simp_all add: enc_ok_def pending_def)

lemma encode_rest_eq:
  assumes "full_lines inp = (t, r)" "length (enc_data ctx) = ENCODE_BLOCK" "length dst \<le> 65" "length inp < 2 ^ 29"
    and "encode_rest (length dst) dst inp (length inp) ctx = ((n, w), c)"
  shows "take n w = dst @ t" "enc_ok c" "pending c = r"
proof -
  have r: "length r < ENCODE_BLOCK" "length t + length r \<le> 2 * length inp" using full_lines_rest [OF assms(1)] by simp_all
  have loop: "encode_lines_loop (length dst) dst inp (length inp) = (Some (length (dst @ t)), dst @ t, r, length r)"
    using assms(1,3,4) by (intro encode_lines_loop_eq) simp_all
  have "\<not> INT_MAX < length (dst @ t)" using r(2) assms(3,4) by (simp add: INT_MAX_def)
  then have "n = length (dst @ t)" "w = terminated (dst @ t)"
    "c = (if length r \<noteq> 0 then ctx\<lparr>enc_data := store_at (enc_data ctx) 0 (take (length r) r)\<rparr> else ctx)\<lparr>data_used := length r\<rparr>"
    using assms(5) unfolding encode_rest_def loop by (simp_all add: Let_def)
  then show "take n w = dst @ t" "enc_ok c" "pending c = r"
    using r(1) assms(2) by (simp_all only: take_terminated) (simp_all add: enc_ok_def pending_def store_at_def)
qed

lemma full_lines_short: "length d < ENCODE_BLOCK \<Longrightarrow> full_lines d = ([], d)"
  by (simp add: full_lines.simps)

lemma encode_seen_refines:
  assumes ok: "enc_ok ctx" and d: "small d" and run: "encode_seen d ctx = (ys, c)"
  shows "enc_ok c \<and> ref_encode d (pending ctx) = (ys, pending c)"
proof -
  let ?n = "data_used ctx"
  note n = length_pending [OF ok]
  have lt: "?n < ENCODE_BLOCK" "length (enc_data ctx) = ENCODE_BLOCK" using ok by (simp_all add: enc_ok_def)
  obtain k w where upd: "EVP_EncodeUpdate d (length d) ctx = ((k, w), c)" "ys = take k w"
    using run by (auto simp: encode_seen_def split: prod.splits)
  consider (empty) "d = []" | (part) "d \<noteq> []" "length d < ENCODE_BLOCK - ?n"
    | (none) "d \<noteq> []" "\<not> length d < ENCODE_BLOCK - ?n" "?n = 0"
    | (full) "d \<noteq> []" "\<not> length d < ENCODE_BLOCK - ?n" "?n \<noteq> 0"
    by blast
  then show ?thesis
  proof cases
    case empty
    with upd ok n lt show ?thesis
      by (auto simp: EVP_EncodeUpdate_def ref_encode_def full_lines_short)
  next
    case part
    then have c: "ys = []" "c = ctx\<lparr>enc_data := store_at (enc_data ctx) ?n d, data_used := ?n + length d\<rparr>"
      using upd by (auto simp: EVP_EncodeUpdate_def)
    have "pending c = pending ctx @ d" "enc_ok c"
      using store_pending [OF ok, of d] part(2) lt
      by (simp_all add: c(2) pending_def [of "ctx\<lparr>enc_data := x, data_used := y\<rparr>" for x y] enc_ok_def)
    then show ?thesis using c(1) part(2) n by (simp add: ref_encode_def full_lines_short)
  next
    case none
    obtain t r where f: "full_lines d = (t, r)" by (rule prod.exhaust)
    from none upd(1) have "encode_rest (length ([] :: bytes)) [] d (length d) ctx = ((k, w), c)"
      by (simp add: EVP_EncodeUpdate_def)
    from encode_rest_eq [OF f lt(2) _ _ this] d f upd(2) none n show ?thesis
      by (simp add: small_def ref_encode_def)
  next
    case full
    let ?todo = "ENCODE_BLOCK - ?n"
    let ?e = "store_at (enc_data ctx) ?n (take ?todo d)"
    have e: "?e = pending ctx @ take ?todo d" "length ?e = ENCODE_BLOCK"
      using store_pending [OF ok, of "take ?todo d"] full(2) lt by (simp_all add: min_absorb2)
    obtain t r where f: "full_lines (drop ?todo d) = (t, r)" by (rule prod.exhaust)
    let ?dst = "encode64 ?e @ [0x0a]"
    have line: "EVP_EncodeBlock ?e ENCODE_BLOCK = (64, encode64 ?e @ [0])" "length (encode64 ?e) = 64"
      using EVP_EncodeBlock_line [of ?e] length_line [of ?e] e(2) by simp_all
    have "encode_rest (length ?dst) ?dst (drop ?todo d) (length (drop ?todo d)) (ctx\<lparr>enc_data := ?e, data_used := 0\<rparr>) = ((k, w), c)"
      using upd(1) full line by (simp add: EVP_EncodeUpdate_def Let_def)
    from encode_rest_eq [OF f _ _ _ this] e(2) line(2) d
    have c: "ys = ?dst @ t" "enc_ok c" "pending c = r" by (simp_all add: upd(2) small_def)
    have "take ENCODE_BLOCK (pending ctx @ d) = ?e" "drop ENCODE_BLOCK (pending ctx @ d) = drop ?todo d"
      using n lt by (simp_all add: e(1))
    then have "full_lines (pending ctx @ d) = (?dst @ t, r)"
      using full(2) n lt f by (subst full_lines.simps) simp
    with c show ?thesis by (simp add: ref_encode_def)
  qed
qed

interpretation b64_encoder: chunked enc_ok small pending encode_seen ref_encode
proof
  fix s t and xs ys :: bytes
  assume "enc_ok s" "small xs" "encode_seen xs s = (ys, t)"
  then show "enc_ok t \<and> ref_encode xs (pending s) = (ys, pending t)" by (rule encode_seen_refines)
next
  fix s
  assume "enc_ok s"
  then show "ref_encode [] (pending s) = ([], pending s)"
    by (simp add: ref_encode_def full_lines_short length_pending enc_ok_def [of s])
next
  fix xs zs us vs a b c :: bytes
  assume "ref_encode xs a = (us, b)" "ref_encode zs b = (vs, c)"
  then show "ref_encode (xs @ zs) a = (us @ vs, c)"
    using full_lines_append [of "a @ xs" zs] by (simp add: ref_encode_def)
qed

section \<open>Round trips\<close>

definition encode_stream :: "bytes list \<Rightarrow> bytes" where
  "encode_stream ds =
     (case run_chunks encode_seen ds EVP_EncodeInit of
        (t, ctx) \<Rightarrow> (case EVP_EncodeFinal ctx of ((n, w), _) \<Rightarrow> t @ take n w))"

definition decode_stream :: "bytes list \<Rightarrow> bytes option" where
  "decode_stream ts =
     (case run_chunks decode_seen ts EVP_DecodeInit of
        (w, ctx) \<Rightarrow> if EVP_DecodeFinal ctx = (1, 0) then Some w else None)"

lemma encode_stream_lines:
  assumes "\<forall>d\<in>set ds. small d"
  shows "encode_stream ds = b64_lines (concat ds)"
proof -
  obtain t ctx where run: "run_chunks encode_seen ds EVP_EncodeInit = (t, ctx)" by (rule prod.exhaust)
  have "enc_ok EVP_EncodeInit" "pending EVP_EncodeInit = []"
    by (simp_all add: enc_ok_def pending_def EVP_EncodeInit_def ENCODE_BLOCK_def)
  with b64_encoder.run_refines [OF _ assms run] have ok: "enc_ok ctx" "full_lines (concat ds) = (t, pending ctx)"
    by (simp_all add: ref_encode_def)
  then have "EVP_EncodeBlock (enc_data ctx) (data_used ctx) =
    (length (encode64 (pending ctx)), encode64 (pending ctx) @ [0])"
    by (simp add: EVP_EncodeBlock_eq enc_ok_def pending_def ENCODE_BLOCK_def)
  moreover have "pending ctx = [] \<longleftrightarrow> data_used ctx = 0" using length_pending [OF ok(1)] by auto
  ultimately show ?thesis
    using ok(2) by (simp add: encode_stream_def run b64_lines_def EVP_EncodeFinal_def last_line_def)
qed

text \<open>A decoder between two groups.\<close>

definition clean :: "evp_encode_ctx \<Rightarrow> bool" where
  "clean ctx \<longleftrightarrow> data_used ctx = 0 \<and> length (enc_data ctx) = ENCODE_BLOCK \<and> \<not> error_encountered ctx"

lemma quad_cong:
  "p ! 0 = q ! 0 \<Longrightarrow> p ! 1 = q ! 1 \<Longrightarrow> p ! 2 = q ! 2 \<Longrightarrow> p ! 3 = q ! 3 \<Longrightarrow>
    base64_decode_quad p = base64_decode_quad q"
  by (simp only: base64_decode_quad_def)

lemma decode_loop_quad:
  assumes "clean ctx" "\<not> eof_seen ctx" "base64_decode_quad [w, x, y, z] = Some bs"
    and "\<And>c. c \<in> {w, x, y, z} \<Longrightarrow> c \<noteq> 0x20 \<and> c \<noteq> 0x09 \<and> c \<noteq> 0x0d \<and> c \<noteq> 0x0a"
  shows "\<exists>c. decode_loop (w # x # y # z # inp) dst ctx = decode_loop inp (dst @ bs) c \<and> clean c \<and>
    (eof_seen c \<longleftrightarrow> length bs < 3)"
proof -
  have nw: "w \<noteq> 0x20 \<and> w \<noteq> 0x09 \<and> w \<noteq> 0x0d \<and> w \<noteq> 0x0a" "x \<noteq> 0x20 \<and> x \<noteq> 0x09 \<and> x \<noteq> 0x0d \<and> x \<noteq> 0x0a"
    "y \<noteq> 0x20 \<and> y \<noteq> 0x09 \<and> y \<noteq> 0x0d \<and> y \<noteq> 0x0a" "z \<noteq> 0x20 \<and> z \<noteq> 0x09 \<and> z \<noteq> 0x0d \<and> z \<noteq> 0x0a"
    using assms(4) by simp_all
  let ?e = "(enc_data ctx)[0 := w, 1 := x, 2 := y, 3 := z]"
  have e: "?e ! 0 = w" "?e ! 1 = x" "?e ! 2 = y" "?e ! 3 = z" "length ?e = ENCODE_BLOCK"
    using assms(1) by (simp_all add: clean_def ENCODE_BLOCK_def)
  have q: "base64_decode_quad ?e = Some bs"
    using assms(3) quad_cong [of ?e "[w, x, y, z]"] e by simp
  have "decode_loop (w # x # y # z # inp) dst ctx = decode_loop inp (dst @ bs)
    (if length bs < 3 then ctx\<lparr>enc_data := ?e, data_used := 0, eof_seen := True\<rparr> else ctx\<lparr>enc_data := ?e, data_used := 0\<rparr>)"
    using assms(1,2) nw q by (simp add: clean_def Let_def numeral_2_eq_2 numeral_3_eq_3)
  then show ?thesis using assms(1,2) e(5)
    by (intro exI [of _ "if length bs < 3 then ctx\<lparr>enc_data := ?e, data_used := 0, eof_seen := True\<rparr>
        else ctx\<lparr>enc_data := ?e, data_used := 0\<rparr>"]) (simp add: clean_def)
qed

lemmas alphabet_white = conjunct2 [OF conjunct2 [OF alphabet]]

lemma decode_loop_encode64:
  assumes "clean ctx" "\<not> eof_seen ctx"
  shows "\<exists>c. decode_loop (encode64 bs @ inp) dst ctx = decode_loop inp (dst @ bs) c \<and> clean c \<and>
    (eof_seen c \<longleftrightarrow> length bs mod 3 \<noteq> 0)"
  using assms
proof (induction bs arbitrary: dst ctx rule: encode64.induct)
  case (1 a b c bs)
  have "\<exists>ctx'. decode_loop (encode64 (a # b # c # bs) @ inp) dst ctx =
    decode_loop (encode64 bs @ inp) (dst @ [a, b, c]) ctx' \<and> clean ctx' \<and> (eof_seen ctx' \<longleftrightarrow> length [a, b, c] < 3)"
    using decode_quad(1) [of a b c "[]"] alphabet_white [OF sextet_less]
    by (simp only: encode64.simps list.map append.simps) (rule decode_loop_quad [OF 1(2,3)], auto)
  then obtain ctx' where s: "decode_loop (encode64 (a # b # c # bs) @ inp) dst ctx =
    decode_loop (encode64 bs @ inp) (dst @ [a, b, c]) ctx'" "clean ctx'" "\<not> eof_seen ctx'" by auto
  have "length (a # b # c # bs) mod 3 = length bs mod 3"
    using mod_add_self2 [of "length bs" 3] by simp
  with 1(1) [OF s(2,3), of "dst @ [a, b, c]"] show ?case unfolding s(1) by simp
next
  case (2 a b)
  have "\<exists>c. decode_loop (encode64 [a, b] @ inp) dst ctx = decode_loop inp (dst @ [a, b]) c \<and> clean c \<and>
    (eof_seen c \<longleftrightarrow> length [a, b] < 3)"
    using decode_quad(2) [of a b "[]"] alphabet_white [OF sextet_less]
    by (simp only: encode64.simps list.map append.simps) (rule decode_loop_quad [OF 2], auto)
  then show ?case by simp
next
  case (3 a)
  have "\<exists>c. decode_loop (encode64 [a] @ inp) dst ctx = decode_loop inp (dst @ [a]) c \<and> clean c \<and>
    (eof_seen c \<longleftrightarrow> length [a] < 3)"
    using decode_quad(3) [of a "[]"] alphabet_white [OF sextet_less]
    by (simp only: encode64.simps list.map append.simps) (rule decode_loop_quad [OF 3], auto)
  then show ?case by simp
next
  case 4
  then show ?case by auto
qed

lemma decode_loop_newline: "decode_loop (0x0a # inp) dst ctx = decode_loop inp dst ctx"
  by simp

lemma decode_full_lines:
  assumes "clean ctx" "\<not> eof_seen ctx" "full_lines d = (t, r)"
  shows "\<exists>c. decode_loop (t @ inp) dst ctx = decode_loop inp (dst @ take (length d - length r) d) c \<and>
    clean c \<and> \<not> eof_seen c \<and> length r \<le> length d \<and> r = drop (length d - length r) d"
  using assms
proof (induction d arbitrary: t dst ctx rule: full_lines.induct)
  case (1 d)
  show ?case
  proof (cases "ENCODE_BLOCK \<le> length d")
    case True
    obtain t' where f: "full_lines (drop ENCODE_BLOCK d) = (t', r)" "t = encode64 (take ENCODE_BLOCK d) @ 0x0a # t'"
      using 1(4) True by (auto simp: full_lines.simps [of d] split: prod.splits)
    have "length (take ENCODE_BLOCK d) mod 3 = 0" using True by (simp add: ENCODE_BLOCK_def)
    with decode_loop_encode64 [OF 1(2,3), of "take ENCODE_BLOCK d" "0x0a # t' @ inp" dst] obtain c where
      c: "decode_loop (t @ inp) dst ctx = decode_loop (t' @ inp) (dst @ take ENCODE_BLOCK d) c" "clean c" "\<not> eof_seen c"
      unfolding decode_loop_newline by (auto simp: f(2))
    from 1(1) [OF True c(2,3) f(1), of "dst @ take ENCODE_BLOCK d"] obtain c' where
      c': "decode_loop (t' @ inp) (dst @ take ENCODE_BLOCK d) c = decode_loop inp ((dst @ take ENCODE_BLOCK d) @
          take (length d - ENCODE_BLOCK - length r) (drop ENCODE_BLOCK d)) c'" "clean c'" "\<not> eof_seen c'"
        "length r \<le> length d - ENCODE_BLOCK" "r = drop (length d - ENCODE_BLOCK - length r) (drop ENCODE_BLOCK d)" by auto
    have l: "ENCODE_BLOCK + (length d - ENCODE_BLOCK - length r) = length d - length r" using c'(4) True by simp
    have "take ENCODE_BLOCK d @ take (length d - ENCODE_BLOCK - length r) (drop ENCODE_BLOCK d) = take (length d - length r) d"
      using take_add [of ENCODE_BLOCK "length d - ENCODE_BLOCK - length r" d] l by simp
    moreover have "r = drop (length d - length r) d"
      using c'(5) c'(4) True by simp
    ultimately show ?thesis using c(1) c'(1-4) by auto
  qed (use 1 in \<open>auto simp: full_lines_short\<close>)
qed

lemma decode_lines:
  assumes "clean ctx" "\<not> eof_seen ctx"
  shows "\<exists>c. decode_loop (b64_lines d) [] ctx = (True, d, c) \<and> clean c"
proof -
  obtain t r where f: "full_lines d = (t, r)" by (rule prod.exhaust)
  from decode_full_lines [OF assms f, of "last_line r" "[]"] obtain c where
    c: "decode_loop (t @ last_line r) [] ctx = decode_loop (last_line r) (take (length d - length r) d) c" "clean c" "\<not> eof_seen c"
      "r = drop (length d - length r) d" by auto
  have d: "take (length d - length r) d @ r = d" using c(4) by (metis append_take_drop_id)
  have "\<exists>c'. decode_loop (last_line r) (take (length d - length r) d) c = (True, d, c') \<and> clean c'"
  proof (cases "r = []")
    case False
    then show ?thesis
      using decode_loop_encode64 [OF c(2,3), of r "[0x0a]" "take (length d - length r) d"] d by (auto simp: last_line_def)
  qed (use c d in \<open>simp add: last_line_def\<close>)
  then show ?thesis using c(1) by (simp add: b64_lines_def f)
qed

text \<open>
  C25: the streaming encoder does not depend on how its input is cut into updates: it writes the
  base64 lines of the whole input. The streaming decoder gives back exactly that input,
  however the lines are cut into updates, newlines and padding included.
\<close>

theorem base64_stream_roundtrip:
  assumes "\<forall>d\<in>set ds. small d" "\<forall>t\<in>set ts. small t" "concat ts = encode_stream ds"
  shows "encode_stream ds = b64_lines (concat ds) \<and> decode_stream ts = Some (concat ds)"
proof -
  have lines: "encode_stream ds = b64_lines (concat ds)" using assms(1) by (rule encode_stream_lines)
  obtain w c where run: "run_chunks decode_stored ts EVP_DecodeInit = (w, c)" by (rule prod.exhaust)
  have "clean EVP_DecodeInit" "\<not> eof_seen EVP_DecodeInit" by (simp_all add: clean_def EVP_DecodeInit_def)
  from decode_lines [OF this, of "concat ds"] b64_decoder.run_refines [OF TrueI assms(2) run]
  have c: "w = concat ds" "clean c"
    by (auto simp: assms(3) lines ref_decode_def EVP_DecodeInit_def)
  from c(2) have "run_chunks decode_seen ts EVP_DecodeInit = (w, c)"
    by (intro run_decode_seen [OF assms(2) run]) (simp add: clean_def)
  with c show ?thesis by (simp add: lines decode_stream_def EVP_DecodeFinal_def clean_def)
qed

theorem base64_stream_roundtrip_witness:
  "decode_stream [[0x41, 0x51], [0x49, 0x44, 0x0a]] = Some [1, 2, 3]"
proof -
  have e: "encode_stream [[1, 2], [3]] = [0x41, 0x51, 0x49, 0x44, 0x0a]" by code_simp
  show ?thesis using base64_stream_roundtrip [of "[[1, 2], [3]]" "[[0x41, 0x51], [0x49, 0x44, 0x0a]]"] e
    by (simp add: small_def)
qed

section \<open>One-shot coding\<close>

lemma decode_base64_loop_encode:
  "decode_base64_loop (encode64 d @ t) (length (encode64 d)) dst = Some (dst @ d)"
proof (induction d arbitrary: dst rule: encode64.induct)
  case (1 a b c bs)
  show ?case using decode_quad(1) [of a b c "encode64 bs @ t"] 1
    by (subst decode_base64_loop.simps) simp
next
  case (2 a b)
  show ?case using decode_quad(2) [of a b t]
    by (subst decode_base64_loop.simps) (simp add: decode_base64_loop.simps [of _ 0])
next
  case (3 a)
  show ?case using decode_quad(3) [of a t]
    by (subst decode_base64_loop.simps) (simp add: decode_base64_loop.simps [of _ 0])
next
  case 4
  show ?case by (simp add: decode_base64_loop.simps)
qed

lemma encode64_not_white:
  "c \<in> set (encode64 d) \<Longrightarrow> c \<noteq> 0x20 \<and> c \<noteq> 0x09 \<and> c \<noteq> 0x0d \<and> c \<noteq> 0x0a"
  using alphabet_white [OF sextet_less] by (induction d rule: encode64.induct) auto

lemma trim_encode64:
  "trim_front (encode64 d @ t) (length (encode64 d)) = (encode64 d @ t, length (encode64 d))"
  "trim_end (encode64 d @ t) (length (encode64 d)) = length (encode64 d)"
proof -
  show "trim_front (encode64 d @ t) (length (encode64 d)) = (encode64 d @ t, length (encode64 d))"
    using encode64_not_white [of "hd (encode64 d)" d] by (cases "encode64 d") auto
  show "trim_end (encode64 d @ t) (length (encode64 d)) = length (encode64 d)"
    using encode64_not_white [of "last (encode64 d)" d]
    by (cases "encode64 d" rule: rev_cases) (auto simp: nth_append)
qed

lemma pad_block_eq: "pad_block d = d @ replicate ((3 - length d mod 3) mod 3) 0"
proof -
  have e: "length d mod 3 = 0 \<Longrightarrow> pad_block d = d" for d by (simp add: pad_block.simps)
  consider "length d mod 3 = 0" | "length d mod 3 = 1" | "length d mod 3 = 2" by linarith
  then show ?thesis
  proof cases
    case 2
    then have "length (d @ [0]) mod 3 = 2" "length (d @ [0, 0]) mod 3 = 0" by (simp_all add: mod_Suc)
    with 2 show ?thesis using e [of "d @ [0, 0]"]
      by (subst pad_block.simps, subst pad_block.simps) (simp add: numeral_2_eq_2)
  next
    case 3
    then have "length (d @ [0]) mod 3 = 0" by (simp add: mod_Suc)
    with 3 show ?thesis using e [of "d @ [0]"] by (subst pad_block.simps) simp
  qed (simp add: e)
qed

text \<open>
  C26: encoding a block fills exactly the space that \<open>EVP_EncodedLength\<close> asks for, closing NUL
  included; decoding it needs the space of \<open>EVP_DecodedLength\<close> and gives back the block, which
  \<open>EVP_DecodeBlock\<close> fills up with zeros to a multiple of three bytes.
\<close>

theorem base64_block_roundtrip:
  assumes "EVP_EncodeBlock d (length d) = (n, w)" "length d < 2 ^ 29"
  shows "EVP_EncodedLength (length d) = Some (length w) \<and> length w = n + 1 \<and>
    EVP_DecodeBase64 max_out w n = (if (n div 4) * 3 \<le> max_out then Some d else None) \<and>
    EVP_DecodeBlock w n = (let p = d @ replicate ((3 - length d mod 3) mod 3) 0 in (int (length p), p))"
proof -
  have w: "n = length (encode64 d)" "w = encode64 d @ [0]"
    using assms by (simp_all add: EVP_EncodeBlock_eq)
  have n: "n = (length d + 2) div 3 * 4" unfolding w(1) by (rule length_encode64)
  have l: "EVP_EncodedLength (length d) = Some (length w)"
    using assms(2) by (simp add: EVP_EncodedLength_def w length_encode64 Let_def)
  have k: "length w = n + 1" by (simp add: w)
  have loop: "decode_base64_loop w n [] = Some d"
    using decode_base64_loop_encode [of d "[0]" "[]"] by (simp add: w)
  have m: "EVP_DecodedLength n = Some (n div 4 * 3)" "n mod 4 = 0" "\<not> INT_MAX < n div 4 * 3"
    using assms(2) by (simp_all add: n EVP_DecodedLength_def INT_MAX_def)
  show ?thesis
    using l m loop trim_encode64 [of d "[0]"] k
    by (simp add: EVP_DecodeBase64_def EVP_DecodeBlock_def pad_block_eq Let_def flip: w)
qed

theorem base64_block_roundtrip_witness:
  "EVP_DecodeBlock [0x41, 0x51, 0x49, 0x3d, 0] 4 = (3, [1, 2, 0])"
proof -
  have run: "EVP_EncodeBlock [1, 2] (length [1, 2 :: u8]) = (4, [0x41, 0x51, 0x49, 0x3d, 0])" by code_simp
  have pad: "(let p = [1, 2 :: u8] @ replicate ((3 - length [1, 2 :: u8] mod 3) mod 3) 0 in (int (length p), p)) = (3, [1, 2, 0])"
    by code_simp
  have "length [1, 2 :: u8] < 2 ^ 29" by simp
  from base64_block_roundtrip [OF run this, unfolded pad] show ?thesis by blast
qed

end
