(* ===== verification/Time_Support.thy ===== *)
theory Time_Support
  imports Main "HOL-Library.Signed_Division"
begin

text \<open>
  \<open>crypto/asn1/time_support.c\<close>: shifting a broken-down time and taking the difference of two.
  C's \<open>int\<close> has 32 bits and \<open>long\<close> 64; both are modelled by the integers they stand for. An
  \<open>int\<close> operation whose result has no \<open>int\<close> value is undefined in C and is the error \<open>Overflow\<close>
  here: \<open>checked\<close> lists the intermediate results of an expression. Operations on \<open>long\<close> stay far
  below their bound. A conversion to \<open>int\<close> wraps around. Division truncates towards zero (\<open>sdiv\<close>).
\<close>

section \<open>The code\<close>

datatype time_error = Overflow | Refused

type_synonym 'a timed = "time_error + 'a"

definition INT_LIMIT :: int where
  "INT_LIMIT = 2 ^ 31"

definition is_int :: "int \<Rightarrow> bool" where
  "is_int x \<longleftrightarrow> - INT_LIMIT \<le> x \<and> x < INT_LIMIT"

definition checked :: "int list \<Rightarrow> 'a \<Rightarrow> 'a timed" where
  "checked xs v = (if list_all is_int xs then Inr v else Inl Overflow)"

definition bindT :: "'a timed \<Rightarrow> ('a \<Rightarrow> 'b timed) \<Rightarrow> 'b timed" where
  "bindT x f = (case x of Inl e \<Rightarrow> Inl e | Inr v \<Rightarrow> f v)"

definition to_int :: "int \<Rightarrow> int" where
  "to_int x = signed_take_bit 31 x"

record tm =
  tm_sec :: int
  tm_min :: int
  tm_hour :: int
  tm_mday :: int
  tm_mon :: int
  tm_year :: int

definition SECS_PER_DAY :: int where
  "SECS_PER_DAY = 24 * 60 * 60"

definition date_to_julian :: "int \<Rightarrow> int \<Rightarrow> int \<Rightarrow> int timed" where
  "date_to_julian y m d =
     (let a = (m - 14) sdiv 12;
          p = 1461 * (y + 4800 + a);
          q = 367 * (m - 2 - 12 * a);
          r = 3 * ((y + 4900 + a) sdiv 100)
      in checked [m - 14, y + 4800, y + 4800 + a, p, m - 2, 12 * a, m - 2 - 12 * a, q, y + 4900, y + 4900 + a, r,
                  p sdiv 4 + q sdiv 12, p sdiv 4 + q sdiv 12 - r sdiv 4, p sdiv 4 + q sdiv 12 - r sdiv 4 + d,
                  p sdiv 4 + q sdiv 12 - r sdiv 4 + d - 32075]
           (p sdiv 4 + q sdiv 12 - r sdiv 4 + d - 32075))"

definition julian_to_date :: "int \<Rightarrow> int \<times> int \<times> int" where
  "julian_to_date jd =
     (let L = jd + 68569;
          n = (4 * L) sdiv 146097;
          L = L - (146097 * n + 3) sdiv 4;
          i = (4000 * (L + 1)) sdiv 1461001;
          L = L - (1461 * i) sdiv 4 + 31;
          j = (80 * L) sdiv 2447;
          d = L - (2447 * j) sdiv 80;
          L = j sdiv 11;
          m = j + 2 - (12 * L);
          y = 100 * (n - 49) + i + L
      in (to_int y, to_int m, to_int d))"

text \<open>The result is the Julian day and the second of that day.\<close>

definition julian_adj :: "tm \<Rightarrow> int \<Rightarrow> int \<Rightarrow> (int \<times> int) timed" where
  "julian_adj tm off_day offset_sec =
     (let offset_day = to_int (offset_sec sdiv SECS_PER_DAY) in
      bindT (checked [offset_day * SECS_PER_DAY] (to_int (offset_sec - offset_day * SECS_PER_DAY))) (\<lambda>offset_hms.
      bindT (checked [offset_day + off_day] (offset_day + off_day)) (\<lambda>offset_day.
      bindT (let h = tm_hour tm * 3600; m = tm_min tm * 60 in
             checked [h, m, h + m, h + m + tm_sec tm, offset_hms + (h + m + tm_sec tm)] (offset_hms + (h + m + tm_sec tm))) (\<lambda>offset_hms.
      bindT (if offset_hms \<ge> SECS_PER_DAY then checked [offset_day + 1] (offset_day + 1, offset_hms - SECS_PER_DAY)
             else if offset_hms < 0 then checked [offset_day - 1] (offset_day - 1, offset_hms + SECS_PER_DAY)
             else Inr (offset_day, offset_hms)) (\<lambda>(offset_day, offset_hms).
      bindT (checked [tm_year tm + 1900, tm_mon tm + 1] ()) (\<lambda>_.
      bindT (date_to_julian (tm_year tm + 1900) (tm_mon tm + 1) (tm_mday tm)) (\<lambda>time_jd.
        let time_jd = time_jd + offset_day in
        if time_jd < 0 then Inl Refused else Inr (time_jd, offset_hms))))))))"

definition OPENSSL_gmtime_adj :: "tm \<Rightarrow> int \<Rightarrow> int \<Rightarrow> tm timed" where
  "OPENSSL_gmtime_adj tm off_day offset_sec =
     bindT (julian_adj tm off_day offset_sec) (\<lambda>(time_jd, time_sec).
       case julian_to_date time_jd of
         (time_year, time_month, time_day) \<Rightarrow>
           if time_year < 1900 \<or> time_year > 9999 then Inl Refused
           else Inr (tm\<lparr>tm_year := time_year - 1900, tm_mon := time_month - 1, tm_mday := time_day,
                        tm_hour := time_sec sdiv 3600, tm_min := (time_sec sdiv 60) smod 60,
                        tm_sec := time_sec smod 60\<rparr>))"

text \<open>Both output pointers are given; the result is the days and the seconds.\<close>

definition OPENSSL_gmtime_diff :: "tm \<Rightarrow> tm \<Rightarrow> (int \<times> int) timed" where
  "OPENSSL_gmtime_diff from to =
     bindT (julian_adj from 0 0) (\<lambda>(from_jd, from_sec).
     bindT (julian_adj to 0 0) (\<lambda>(to_jd, to_sec).
       let diff_day = to_jd - from_jd;
           diff_sec = to_sec - from_sec;
           (diff_day, diff_sec) = (if diff_day > 0 \<and> diff_sec < 0 then (diff_day - 1, diff_sec + SECS_PER_DAY)
                                   else (diff_day, diff_sec));
           (diff_day, diff_sec) = (if diff_day < 0 \<and> diff_sec > 0 then (diff_day + 1, diff_sec - SECS_PER_DAY)
                                   else (diff_day, diff_sec))
       in Inr (to_int diff_day, diff_sec)))"

section \<open>The calendar\<close>

definition leap :: "int \<Rightarrow> bool" where
  "leap y \<longleftrightarrow> y mod 4 = 0 \<and> (y mod 100 \<noteq> 0 \<or> y mod 400 = 0)"

definition month_lengths :: "int \<Rightarrow> int list" where
  "month_lengths y = [31, if leap y then 29 else 28, 31, 30, 31, 30, 31, 31, 30, 31, 30, 31]"

definition valid_date :: "int \<Rightarrow> int \<Rightarrow> int \<Rightarrow> bool" where
  "valid_date y m d \<longleftrightarrow> 1 \<le> m \<and> m \<le> 12 \<and> 1 \<le> d \<and> d \<le> month_lengths y ! nat (m - 1)"

text \<open>The number of days since the first of January of the year 1, in the Gregorian calendar.\<close>

definition gregorian :: "int \<Rightarrow> int \<Rightarrow> int \<Rightarrow> int" where
  "gregorian y m d =
     365 * (y - 1) + (y - 1) div 4 - (y - 1) div 100 + (y - 1) div 400 +
     sum_list (take (nat (m - 1)) (month_lengths y)) + d - 1"

lemma in_months:
  assumes "1 \<le> m" "m \<le> (12 :: int)"
  obtains "m = 1" | "m = 2" | "m = 3" | "m = 4" | "m = 5" | "m = 6" | "m = 7" | "m = 8" | "m = 9" | "m = 10"
    | "m = 11" | "m = 12"
proof -
  from assms have "m = 1 \<or> m = 2 \<or> m = 3 \<or> m = 4 \<or> m = 5 \<or> m = 6 \<or> m = 7 \<or> m = 8 \<or> m = 9 \<or> m = 10 \<or> m = 11 \<or> m = 12"
    by arith
  then show thesis using that by blast
qed

lemma sdiv_nonneg: "0 \<le> a \<Longrightarrow> 0 < b \<Longrightarrow> a sdiv b = a div (b :: int)"
  by (cases "a = 0") (simp_all add: signed_divide_int_def)

definition month_shift :: "int \<Rightarrow> int" where
  "month_shift m = (if m \<le> 2 then - 1 else 0)"

definition month_start :: "int \<Rightarrow> int" where
  "month_start m = 367 * (m - 2 - 12 * month_shift m) div 12"

lemma month_shift_sdiv: "1 \<le> m \<Longrightarrow> m \<le> 12 \<Longrightarrow> (m - 14) sdiv 12 = month_shift m"
  by (rule in_months [of m], assumption+) (simp_all add: month_shift_def signed_divide_int_def)

text \<open>The value of \<open>date_to_julian\<close> for the years that matter.\<close>

definition julian :: "int \<Rightarrow> int \<Rightarrow> int \<Rightarrow> int" where
  "julian y m d =
     (let z = y + 4900 + month_shift m in 1461 * (z - 100) div 4 + month_start m - 3 * (z div 100) div 4 + d - 32075)"

lemma month_start_bounds: "1 \<le> m \<Longrightarrow> m \<le> 12 \<Longrightarrow> 30 \<le> month_start m \<and> month_start m \<le> 367"
  by (rule in_months [of m], assumption+) (simp_all add: month_shift_def month_start_def)

lemma julian_checks:
  assumes "- 4799 \<le> y" "y \<le> 10000" "1 \<le> m" "m \<le> 12" "1 \<le> d" "d \<le> 31" "- 1 \<le> a" "a \<le> 0"
    and "0 \<le> P" "P \<le> 6000000" "0 \<le> Q" "Q \<le> 367" "0 \<le> R" "R \<le> 120" "0 \<le> z" "z \<le> 149"
  shows "list_all is_int [m - 14, y + 4800, y + 4800 + a, 1461 * (y + 4800 + a), m - 2, 12 * a, m - 2 - 12 * a,
    367 * (m - 2 - 12 * a), y + 4900, y + 4900 + a, 3 * z, P + Q, P + Q - R, P + Q - R + d, P + Q - R + d - 32075]"
  using assms by (simp add: is_int_def INT_LIMIT_def)

lemma date_to_julian_eq:
  assumes "- 4799 \<le> y" "y \<le> 10000" "1 \<le> m" "m \<le> 12" "1 \<le> d" "d \<le> 31"
  shows "date_to_julian y m d = Inr (julian y m d)"
proof -
  let ?a = "month_shift m" and ?z = "y + 4900 + month_shift m"
  have a: "- 1 \<le> ?a" "?a \<le> 0" "0 \<le> m - 2 - 12 * ?a" "m - 2 - 12 * ?a \<le> 12"
    using assms(3,4) by (simp_all add: month_shift_def)
  have z: "100 \<le> ?z" "?z \<le> 14900" using assms(1,2) a by linarith+
  have z': "0 \<le> ?z div 100" "?z div 100 \<le> 149" using z by linarith+
  have s: "(1461 * (y + 4800 + ?a)) sdiv 4 = 1461 * (?z - 100) div 4"
    "(367 * (m - 2 - 12 * ?a)) sdiv 12 = month_start m" "(y + 4900 + ?a) sdiv 100 = ?z div 100"
    "(3 * (?z div 100)) sdiv 4 = 3 * (?z div 100) div 4"
    using a z z' by (simp_all add: sdiv_nonneg month_start_def algebra_simps)
  have b: "0 \<le> 1461 * (?z - 100) div 4" "1461 * (?z - 100) div 4 \<le> 6000000"
    "0 \<le> 3 * (?z div 100) div 4" "3 * (?z div 100) div 4 \<le> 120"
    using z z' zdiv_mono1 [of "1461 * (?z - 100)" 24000000 4] zdiv_mono1 [of "3 * (?z div 100)" 447 4] by simp_all
  note m = month_start_bounds [OF assms(3,4)]
  have "0 \<le> month_start m" "month_start m \<le> 367" using m by simp_all
  note julian_checks [OF assms a(1,2) b(1,2) this b(3,4) z']
  then show ?thesis
    unfolding date_to_julian_def Let_def month_shift_sdiv [OF assms(3,4)] s checked_def julian_def by simp
qed

lemma quarter_days: "1461 * x div 4 = 365 * x + x div (4 :: int)"
proof -
  have "1461 * x = x + 365 * x * 4" by simp
  then show ?thesis by (simp only: div_mult_self1)
qed

lemma three_quarters: "3 * c div 4 = c - (c + 3) div (4 :: int)"
  by presburger

definition leap_days :: "int \<Rightarrow> int" where
  "leap_days y = y div 4 - y div 100 + y div 400"

lemma leap_step: "leap_days y = leap_days (y - 1) + (if leap y then 1 else 0)"
proof -
  have *: "y div n = (y - 1) div n + (if y mod n = 0 then 1 else 0)" if n: "0 < n" for n
  proof (cases "y mod n = 0")
    case True
    then have "y - 1 = n * (y div n - 1) + (n - 1)"
      using div_mult_mod_eq [of y n] by (simp add: algebra_simps)
    from int_div_pos_eq [OF this] n True show ?thesis by simp
  next
    case False
    have "y - 1 = n * (y div n) + (y mod n - 1)" by simp
    moreover have "0 \<le> y mod n - 1" "y mod n - 1 < n" using n False pos_mod_bound [of n y] pos_mod_sign [of n y] by linarith+
    ultimately have "(y - 1) div n = y div n" by (rule int_div_pos_eq)
    with False show ?thesis by simp
  qed
  have if3: "(c \<Longrightarrow> b) \<Longrightarrow> (b \<Longrightarrow> a) \<Longrightarrow> (if a then 1 else 0) - (if b then 1 else 0) + (if c then 1 else 0) =
    (if a \<and> (\<not> b \<or> c) then 1 else (0 :: int))" for a b c by (cases a; cases b; cases c) simp_all
  have l: "(if y mod 4 = 0 then 1 else 0) - (if y mod 100 = 0 then 1 else 0) + (if y mod 400 = 0 then 1 else 0) =
    (if leap y then 1 else (0 :: int))"
    unfolding leap_def mod_eq_0_iff_dvd by (rule if3; erule dvd_trans [rotated]) simp_all
  have sum: "u' = u + a \<Longrightarrow> v' = v + b \<Longrightarrow> w' = w + c \<Longrightarrow> a - b + c = l \<Longrightarrow> u' - v' + w' = u - v + w + l"
    for u u' v v' w w' a b c l :: int by simp
  have p: "0 < (4 :: int)" "0 < (100 :: int)" "0 < (400 :: int)" by simp_all
  show ?thesis unfolding leap_days_def by (rule sum [OF * [OF p(1)] * [OF p(2)] * [OF p(3)] l])
qed

lemma march_days:
  "1461 * (y + 4800) div 4 - 3 * ((y + 4900) div 100) div 4 = 365 * y + leap_days y + 1753164"
proof -
  have "(y + 4800) div 4 = y div 4 + 1200" "(y + 4900) div 100 = y div 100 + 49" by linarith+
  moreover have "(y div 100 + 52) div 4 = y div 400 + 13"
    by (simp add: zdiv_zmult2_eq [of 4 y 100, simplified])
  ultimately show ?thesis unfolding quarter_days three_quarters leap_days_def by (simp add: add.commute [of 52])
qed

lemma julian_march:
  "julian y m d = (let z = y + month_shift m in 365 * z + leap_days z + 1721089 + month_start m + d)"
proof -
  have "y + 4900 + month_shift m = y + month_shift m + 4900" "y + 4900 + month_shift m - 100 = y + month_shift m + 4800"
    by simp_all
  moreover have "p - q = k \<Longrightarrow> p + u - q + d - 32075 = k - 32075 + u + d" for p q k u :: int by simp
  ultimately show ?thesis
    unfolding julian_def Let_def by (simp only: march_days [of "y + month_shift m"])
qed

lemma julian_gregorian:
  assumes "1 \<le> m" "m \<le> 12"
  shows "julian y m d = gregorian y m d + 1721426"
proof -
  have g: "gregorian y m d = 365 * (y - 1) + leap_days (y - 1) + sum_list (take (nat (m - 1)) (month_lengths y)) + d - 1"
    by (simp only: gregorian_def leap_days_def)
  show ?thesis unfolding g julian_march Let_def
    by (rule in_months [OF assms])
      (simp_all add: month_shift_def month_start_def month_lengths_def leap_step [of y])
qed

section \<open>From Julian days to dates\<close>

text \<open>The month and the day from the day of a year that starts in March, by inspection.\<close>

definition from_march :: "int \<Rightarrow> int \<times> int \<times> int" where
  "from_march r =
     (let L = r + 31; j = (80 * L) div 2447 in (j div 11, j + 2 - 12 * (j div 11), L - (2447 * j) div 80))"

lemma from_march_table:
  assumes "0 \<le> r" "r \<le> 365" "from_march r = (k, m, d)"
  shows "1 \<le> m \<and> m \<le> 12 \<and> 1 \<le> d \<and> d \<le> [31, 29, 31, 30, 31, 30, 31, 31, 30, 31, 30, 31] ! nat (m - 1) \<and>
    month_shift m = - k \<and> 0 \<le> k \<and> k \<le> 1 \<and> month_start m + d - 31 = r \<and> (m = 2 \<and> d = 29 \<longleftrightarrow> r = 365)"
proof -
  obtain j where j: "j = (80 * (r + 31)) div 2447" by simp
  then have "2447 * j \<le> 80 * (r + 31)" "80 * (r + 31) < 2447 * j + 2447" by linarith+
  then have b: "2447 * j \<le> 80 * r + 2480" "80 * r + 2480 < 2447 * j + 2447" by simp_all
  then have "0 < j" "j < 13" using assms(1,2) by linarith+
  then have "j \<in> {1, 2, 3, 4, 5, 6, 7, 8, 9, 10, 11, 12}"
    unfolding insert_iff empty_iff by presburger
  moreover have "k = j div 11" "m = j + 2 - 12 * (j div 11)" "d = r + 31 - (2447 * j) div 80"
    using assms(3) unfolding from_march_def Let_def j [symmetric] by simp_all
  ultimately show ?thesis
    using b assms(1,2) by (elim insertE emptyE) (simp_all add: month_shift_def month_start_def)
qed

definition century_start :: "int \<Rightarrow> int" where
  "century_start n = (146097 * n + 3) div 4"

definition year_start :: "int \<Rightarrow> int" where
  "year_start i = (1461 * i) div 4"

lemma century_start_eq: "century_start n = 36524 * n + (n + 3) div 4"
proof -
  have "146097 * n + 3 = (n + 3) + 36524 * n * 4" by simp
  then show ?thesis unfolding century_start_def by (simp only: div_mult_self1)
qed

lemma century_cases:
  assumes "n = (4 * L) div 146097"
  shows "0 \<le> L - century_start n" "L - century_start n \<le> (if n mod 4 = 0 then 36524 else 36523)"
proof -
  have n: "146097 * n \<le> 4 * L" "4 * L < 146097 * n + 146097" using assms by linarith+
  have "4 * century_start n \<le> 146097 * n + 3" "146097 * n \<le> 4 * century_start n"
    unfolding century_start_def by linarith+
  then show "0 \<le> L - century_start n" using n by linarith
  have "(n + 4) div 4 = (n + 3) div 4 + (if n mod 4 = 0 then 1 else 0)" by presburger
  then have "century_start (n + 1) = century_start n + 36524 + (if n mod 4 = 0 then 1 else 0)"
    unfolding century_start_eq by (simp add: ac_simps)
  moreover have "146097 * k \<le> 4 * century_start k" for k unfolding century_start_def by linarith
  from this [of "n + 1"] have "146097 * n + 146097 \<le> 4 * century_start (n + 1)" by simp
  ultimately show "L - century_start n \<le> (if n mod 4 = 0 then 36524 else 36523)" using n by (auto split: if_splits)
qed

lemma year_cases:
  assumes "i = (4000 * (L + 1)) div 1461001" "0 \<le> L" "L \<le> 36524"
  shows "0 \<le> i" "i \<le> 99" "0 \<le> L - year_start i" "L - year_start i \<le> 365"
    "L - year_start i = 365 \<Longrightarrow> i mod 4 = 3"
proof -
  have "1461001 * i \<le> 4000 * (L + 1)" "4000 * (L + 1) < 1461001 * i + 1461001" using assms(1) by linarith+
  then have i: "1461001 * i \<le> 4000 * L + 4000" "4000 * L + 4000 < 1461001 * i + 1461001" by simp_all
  show i0: "0 \<le> i" using assms(2) i by linarith
  show i99: "i \<le> 99" using assms(3) i by linarith
  have y: "4 * year_start i \<le> 1461 * i" "1461 * i \<le> 4 * year_start i + 3" unfolding year_start_def by linarith+
  have "1461 * i < 4 * L + 4 \<or> i = 0"
    using i(1) i0 by linarith
  then show "0 \<le> L - year_start i" using y assms(2) by linarith
  have "4 * L + 4 \<le> 1461 * i + 1461"
    using i(2) i99 by linarith
  then show l: "L - year_start i \<le> 365" using y by linarith
  show "i mod 4 = 3" if "L - year_start i = 365"
  proof -
    from that \<open>4 * L + 4 \<le> 1461 * i + 1461\<close> have "4 * year_start i + 3 \<le> 1461 * i" by linarith
    with y have q: "i + 365 * i * 4 = 3 + year_start i * 4" by linarith
    have "i mod 4 = (i + 365 * i * 4) mod 4" by (rule mod_mult_self1 [symmetric])
    also have "\<dots> = 3 mod 4" unfolding q by (rule mod_mult_self1)
    finally show ?thesis by simp
  qed
qed

lemma to_int_code [code]: "to_int x = (x + 2147483648) mod 4294967296 - 2147483648"
  by (simp add: to_int_def signed_take_bit_eq_take_bit_shift take_bit_eq_mod)

lemma to_int_id: "is_int x \<Longrightarrow> to_int x = x"
  by (simp add: is_int_def to_int_def INT_LIMIT_def signed_take_bit_int_eq_self)

lemma leap_of_parts:
  assumes "0 \<le> i" "i \<le> 99" "i mod 4 = 3" "i = 99 \<Longrightarrow> n mod 4 = 0"
  shows "leap (100 * (n - 49) + i + 1)"
proof -
  let ?y = "100 * (n - 49) + i + 1"
  have e: "?y = 4 * (25 * (n - 49) + i div 4 + 1)" using div_mult_mod_eq [of i 4] assms(3) by simp
  then have y4: "?y mod 4 = 0" by (simp only: mod_mult_self1_is_0)
  show ?thesis
  proof (cases "i = 99")
    case True
    with assms(4) have "?y = 400 * (n div 4 - 12)" using div_mult_mod_eq [of n 4] by simp
    then have "?y mod 400 = 0" by (simp only: mod_mult_self1_is_0)
    with y4 show ?thesis unfolding leap_def by (intro conjI disjI2)
  next
    case False
    have "?y mod 100 = (i + 1) mod 100" using mod_mult_self1 [of "i + 1" "n - 49" 100] by (simp add: ac_simps)
    also have "\<dots> = i + 1" using assms(1,2) False by (intro mod_pos_pos_trivial) linarith+
    finally have "?y mod 100 \<noteq> 0" using assms(1) by simp
    with y4 show ?thesis unfolding leap_def by (intro conjI disjI1)
  qed
qed

lemma julian_of_parts:
  assumes "0 \<le> i" "i \<le> 99" "month_shift m = - k"
  shows "julian (100 * (n - 49) + i + k) m d = century_start n + year_start i + month_start m + d - 68600"
proof -
  have z: "100 * (n - 49) + i + k + 4900 + month_shift m = i + n * 100" using assms(3) by simp
  have q: "(i + n * 100) div 100 = n" using assms(1,2) by simp
  have "1461 * (i + n * 100 - 100) = 1461 * i + 36525 * (n - 1) * 4" by simp
  then have y: "1461 * (i + n * 100 - 100) div 4 = year_start i + 36525 * (n - 1)"
    unfolding year_start_def by (simp only: div_mult_self1)
  show ?thesis unfolding julian_def Let_def z q y three_quarters century_start_eq by simp
qed

lemma day_bound:
  assumes "1 \<le> m" "m \<le> 12" "d \<le> [31, 29, 31, 30, 31, 30, 31, 31, 30, 31, 30, 31] ! nat (m - 1)"
    and "m = 2 \<Longrightarrow> d = 29 \<Longrightarrow> leap y"
  shows "d \<le> 31 \<and> d \<le> month_lengths y ! nat (m - 1)"
  by (rule in_months [OF assms(1,2)];
      use assms(3,4) in \<open>cases "leap y"; cases "d = 29"; simp add: month_lengths_def\<close>)

lemma julian_to_date_correct:
  assumes "0 \<le> jd" "jd \<le> 2 ^ 32" "julian_to_date jd = (y, m, d)"
  shows "valid_date y m d \<and> julian y m d = jd \<and> - 4800 \<le> y"
proof -
  obtain n where n: "n = (4 * (jd + 68569)) div 146097" by simp
  obtain L where L: "L = jd + 68569 - century_start n" by simp
  obtain i where i: "i = (4000 * (L + 1)) div 1461001" by simp
  obtain r where r: "r = L - year_start i" by simp
  obtain k m' d' where p: "from_march r = (k, m', d')" by (rule prod_cases3)
  have "146097 * n \<le> 4 * (jd + 68569)" "4 * (jd + 68569) < 146097 * n + 146097" using n by linarith+
  then have "146097 * n \<le> 4 * jd + 274276" "4 * jd + 274276 < 146097 * n + 146097" "jd \<le> 4294967296"
    using assms(2) by simp_all
  then have nb: "0 < n" "n < 200000" using assms(1) by linarith+
  have Lb: "0 \<le> L" "L \<le> 36524" "n mod 4 \<noteq> 0 \<Longrightarrow> L \<le> 36523"
    using century_cases [OF n] by (auto simp: L split: if_splits)
  note y = year_cases [OF i Lb(1,2), folded r]
  note t = from_march_table [OF y(3,4) p]
  obtain j where j: "j = (80 * (r + 31)) div 2447" by simp
  have j0: "0 \<le> j" using y(3) unfolding j by simp
  have parts: "m' = j + 2 - 12 * (j div 11)" "k = j div 11" "d' = r + 31 - (2447 * j) div 80"
    using p unfolding from_march_def Let_def j [symmetric] by simp_all
  have eq: "jd + 68569 - century_start n = L" "L - year_start i + 31 = r + 31" by (simp_all add: r L)
  have n': "(4 * (jd + 68569)) sdiv 146097 = n" unfolding n by (rule sdiv_nonneg) (use assms(1) in simp_all)
  have c': "(146097 * n + 3) sdiv 4 = century_start n"
    unfolding century_start_def by (rule sdiv_nonneg) (use nb in simp_all)
  have i': "(4000 * (L + 1)) sdiv 1461001 = i" unfolding i by (rule sdiv_nonneg) (use Lb in simp_all)
  have y': "(1461 * i) sdiv 4 = year_start i" unfolding year_start_def by (rule sdiv_nonneg) (use y in simp_all)
  have j': "(80 * (r + 31)) sdiv 2447 = j" unfolding j by (rule sdiv_nonneg) (use y in simp_all)
  have d': "(2447 * j) sdiv 80 = (2447 * j) div 80" "j sdiv 11 = j div 11"
    by (rule sdiv_nonneg; use j0 in simp)+
  have ymd: "y = to_int (100 * (n - 49) + i + k)" "m = to_int m'" "d = to_int d'"
    using assms(3) unfolding julian_to_date_def Let_def n' c' eq(1) i' y' eq(2) j' d' by (simp_all add: parts)
  have feb: "m' = 2 \<Longrightarrow> d' = 29 \<Longrightarrow> leap (100 * (n - 49) + i + k)"
  proof -
    assume f: "m' = 2" "d' = 29"
    with t have "r = 365" by blast
    moreover from t f have "k = 1" by (simp add: month_shift_def)
    moreover have "n mod 4 = 0" if "i = 99"
    proof (rule ccontr)
      assume "n mod 4 \<noteq> 0"
      from Lb(3) [OF this] \<open>r = 365\<close> that show False by (simp add: r year_start_def)
    qed
    ultimately show ?thesis using leap_of_parts [OF y(1,2) y(5)] by simp
  qed
  have mb: "1 \<le> m'" "m' \<le> 12" "1 \<le> d'" "d' \<le> [31, 29, 31, 30, 31, 30, 31, 31, 30, 31, 30, 31] ! nat (m' - 1)"
    "month_shift m' = - k" "0 \<le> k" "k \<le> 1" "month_start m' + d' - 31 = r"
    using t by simp_all
  note db = day_bound [OF mb(1,2,4) feb]
  have id: "y = 100 * (n - 49) + i + k" "m = m'" "d = d'"
    unfolding ymd using nb y(1,2) mb db by (simp_all add: to_int_id is_int_def INT_LIMIT_def)
  have "julian y m d = jd"
    unfolding id julian_of_parts [OF y(1,2) mb(5)] using mb(8) by (simp add: r L)
  with mb(1-3) db nb y(1) mb(6) show ?thesis unfolding id valid_date_def by simp
qed

section \<open>Times as seconds\<close>

definition valid_tm :: "tm \<Rightarrow> bool" where
  "valid_tm t \<longleftrightarrow> 0 \<le> tm_year t \<and> tm_year t \<le> 8099 \<and> valid_date (tm_year t + 1900) (tm_mon t + 1) (tm_mday t) \<and>
    0 \<le> tm_hour t \<and> tm_hour t \<le> 23 \<and> 0 \<le> tm_min t \<and> tm_min t \<le> 59 \<and> 0 \<le> tm_sec t \<and> tm_sec t \<le> 59"

definition day_seconds :: "tm \<Rightarrow> int" where
  "day_seconds t = tm_hour t * 3600 + tm_min t * 60 + tm_sec t"

text \<open>Seconds since the beginning of the year 1.\<close>

definition tm_seconds :: "tm \<Rightarrow> int" where
  "tm_seconds t = gregorian (tm_year t + 1900) (tm_mon t + 1) (tm_mday t) * 86400 + day_seconds t"

definition first_second :: int where
  "first_second = gregorian 1900 1 1 * 86400"

definition last_second :: int where
  "last_second = gregorian 10000 1 1 * 86400 - 1"

definition year_days :: "int \<Rightarrow> int" where
  "year_days y = 365 * y + leap_days y"

lemma year_days_mono: "x \<le> y \<Longrightarrow> year_days x \<le> year_days y"
proof (induction y rule: int_ge_induct)
  case (step y)
  then show ?case using leap_step [of "y + 1"] by (auto simp: year_days_def split: if_splits)
qed simp

lemma gregorian_year:
  assumes "valid_date y m d"
  shows "year_days (y - 1) \<le> gregorian y m d" "gregorian y m d < year_days y"
proof -
  have m: "1 \<le> m" "m \<le> 12" and d: "1 \<le> d" "d \<le> month_lengths y ! nat (m - 1)"
    using assms by (simp_all add: valid_date_def)
  have g: "gregorian y m d = year_days (y - 1) + sum_list (take (nat (m - 1)) (month_lengths y)) + d - 1"
    by (simp only: gregorian_def leap_days_def year_days_def)
  have y: "year_days y = year_days (y - 1) + 365 + (if leap y then 1 else 0)"
    using leap_step [of y] by (simp add: year_days_def)
  have "0 \<le> sum_list (take (nat (m - 1)) (month_lengths y)) + d - 1 \<and>
    sum_list (take (nat (m - 1)) (month_lengths y)) + d - 1 < 365 + (if leap y then 1 else 0)"
    by (rule in_months [OF m]; use d in \<open>cases "leap y"; simp add: month_lengths_def\<close>)
  then show "year_days (y - 1) \<le> gregorian y m d" "gregorian y m d < year_days y"
    unfolding g y by simp_all
qed

lemma year_range:
  assumes "valid_date y m d"
  shows "y < 1900 \<longleftrightarrow> gregorian y m d < 693595" "9999 < y \<longleftrightarrow> 3652059 \<le> gregorian y m d"
proof -
  have v: "year_days 1899 = 693595" "year_days 9999 = 3652059" by (simp_all add: year_days_def leap_days_def)
  note b = gregorian_year [OF assms]
  show "y < 1900 \<longleftrightarrow> gregorian y m d < 693595"
    using b year_days_mono [of y 1899] year_days_mono [of 1899 "y - 1"] v by linarith
  show "9999 < y \<longleftrightarrow> 3652059 \<le> gregorian y m d"
    using b year_days_mono [of y 9999] year_days_mono [of 9999 "y - 1"] v by linarith
qed

lemma seconds_range: "first_second = 693595 * 86400" "last_second = 3652059 * 86400 - 1"
  by (simp_all add: first_second_def last_second_def gregorian_def month_lengths_def)

lemma split_offset:
  assumes "\<bar>x\<bar> < 2147397248"
  shows "is_int (x sdiv 86400)" "is_int (x sdiv 86400 * 86400)" "\<bar>x - x sdiv 86400 * 86400\<bar> < 86400"
    "\<bar>x sdiv 86400\<bar> \<le> 24856"
proof -
  have "x sdiv 86400 * 86400 \<le> x \<and> x < x sdiv 86400 * 86400 + 86400 \<and> 0 \<le> x sdiv 86400 \<or>
    x \<le> x sdiv 86400 * 86400 \<and> x sdiv 86400 * 86400 < x + 86400 \<and> x sdiv 86400 \<le> 0"
  proof (cases "0 \<le> x")
    case True
    then show ?thesis using sdiv_nonneg [of x 86400] by (simp, linarith)
  next
    case False
    then have "x sdiv 86400 = - ((- x) div 86400)" by (simp add: signed_divide_int_def)
    with False show ?thesis by (simp, linarith)
  qed
  then show "is_int (x sdiv 86400)" "is_int (x sdiv 86400 * 86400)" "\<bar>x - x sdiv 86400 * 86400\<bar> < 86400"
    "\<bar>x sdiv 86400\<bar> \<le> 24856"
    using assms by (auto simp: is_int_def INT_LIMIT_def)
qed

lemma smod_nonneg: "0 \<le> a \<Longrightarrow> 0 < b \<Longrightarrow> a smod b = a mod (b :: int)"
  using minus_sdiv_mult_eq_smod [of a b] minus_div_mult_eq_mod [of a b] by (simp add: sdiv_nonneg)

lemma checked_ok: "list_all is_int xs \<Longrightarrow> checked xs v = Inr v"
  by (simp add: checked_def)

lemma bindT_simps [simp]: "bindT (Inr v) f = f v" "bindT (Inl e) f = Inl e"
  by (simp_all add: bindT_def)

lemma day_seconds_bounds: "valid_tm t \<Longrightarrow> 0 \<le> day_seconds t \<and> day_seconds t \<le> 86399"
  by (simp add: valid_tm_def day_seconds_def)

lemma valid_date_bounds:
  assumes "valid_date y m d"
  shows "1 \<le> m" "m \<le> 12" "1 \<le> d" "d \<le> 31"
proof -
  show m: "1 \<le> m" "m \<le> 12" "1 \<le> d" using assms by (simp_all add: valid_date_def)
  show "d \<le> 31"
    by (rule in_months [OF m(1,2)]; use assms in \<open>cases "leap y"; simp add: valid_date_def month_lengths_def\<close>)
qed

lemma julian_adj_eq:
  assumes tm: "valid_tm t" and off: "\<bar>off_day\<bar> \<le> 10 ^ 9" "\<bar>offset_sec\<bar> < 2147397248"
  obtains jd s where "0 \<le> s" "s < 86400" "jd < 2 ^ 32"
    "jd * 86400 + s = tm_seconds t + off_day * 86400 + offset_sec + 1721426 * 86400"
    "julian_adj t off_day offset_sec = (if jd < 0 then Inl Refused else Inr (jd, s))"
proof -
  let ?q = "offset_sec sdiv 86400" and ?tod = "day_seconds t"
  let ?r = "offset_sec - ?q * 86400"
  let ?g = "gregorian (tm_year t + 1900) (tm_mon t + 1) (tm_mday t)"
  note q = split_offset [OF off(2)]
  have rr: "is_int ?r" using q(3) by (auto simp: is_int_def INT_LIMIT_def)
  note tod = day_seconds_bounds [OF tm]
  have date: "valid_date (tm_year t + 1900) (tm_mon t + 1) (tm_mday t)" and y: "0 \<le> tm_year t" "tm_year t \<le> 8099"
    using tm by (simp_all add: valid_tm_def)
  note m = valid_date_bounds [OF date]
  have greg: "693595 \<le> ?g" "?g < 3652059" using year_range [OF date] y by simp_all
  have dj: "date_to_julian (tm_year t + 1900) (tm_mon t + 1) (tm_mday t) = Inr (?g + 1721426)"
    using date_to_julian_eq [of "tm_year t + 1900" "tm_mon t + 1" "tm_mday t"] y m julian_gregorian [OF m(1,2)] by simp
  have c: "list_all is_int [?q * 86400]" "list_all is_int [?q + off_day]"
    "list_all is_int [tm_hour t * 3600, tm_min t * 60, tm_hour t * 3600 + tm_min t * 60, ?tod, ?r + ?tod]"
    "list_all is_int [tm_year t + 1900, tm_mon t + 1]" "is_int (?q + off_day + 1)" "is_int (?q + off_day - 1)"
    using q off(1) tod tm m unfolding valid_tm_def by (auto simp: is_int_def INT_LIMIT_def)
  obtain b where b: "b = (if ?r + ?tod \<ge> 86400 then 1 else if ?r + ?tod < 0 then - 1 else 0 :: int)" by simp
  let ?s = "?r + ?tod - b * 86400" and ?jd = "?g + 1721426 + (?q + off_day + b)"
  have s: "0 \<le> ?s" "?s < 86400" "\<bar>b\<bar> \<le> 1" using q(3) tod by (auto simp: b)
  have adjust: "(if ?r + ?tod \<ge> 86400 then checked [?q + off_day + 1] (?q + off_day + 1, ?r + ?tod - 86400)
     else if ?r + ?tod < 0 then checked [?q + off_day - 1] (?q + off_day - 1, ?r + ?tod + 86400)
     else Inr (?q + off_day, ?r + ?tod)) = Inr (?q + off_day + b, ?s)"
    using c(5,6) by (simp add: b checked_ok)
  have fold: "tm_hour t * 3600 + tm_min t * 60 + tm_sec t = ?tod" by (simp add: day_seconds_def)
  have secs: "SECS_PER_DAY = 86400" by (simp add: SECS_PER_DAY_def)
  have "julian_adj t off_day offset_sec = (if ?jd < 0 then Inl Refused else Inr (?jd, ?s))"
    unfolding julian_adj_def secs Let_def to_int_id [OF q(1)] checked_ok [OF c(1)] bindT_simps to_int_id [OF rr]
      checked_ok [OF c(2)] fold checked_ok [OF c(3)] adjust prod.case checked_ok [OF c(4)] dj ..
  moreover have "?jd * 86400 + ?s = tm_seconds t + off_day * 86400 + offset_sec + 1721426 * 86400"
    by (simp add: tm_seconds_def algebra_simps)
  moreover have "?jd < 2 ^ 32" using greg q(4) off(1) s(3) by simp
  ultimately show thesis using that [of ?s ?jd] s(1,2) by blast
qed


lemma split_day:
  assumes "0 \<le> s" "s < (86400 :: int)"
  shows "s div 3600 * 3600 + s div 60 mod 60 * 60 + s mod 60 = s" "0 \<le> s div 3600" "s div 3600 \<le> 23"
    "s div 60 mod 60 \<le> 59" "s mod 60 \<le> 59"
proof -
  have "s div 3600 = s div 60 div 60" using zdiv_zmult2_eq [of 60 s 60] by simp
  moreover have "s = s div 60 * 60 + s mod 60" "s div 60 = s div 60 div 60 * 60 + s div 60 mod 60"
    by (simp_all only: div_mult_mod_eq)
  ultimately show "s div 3600 * 3600 + s div 60 mod 60 * 60 + s mod 60 = s" by linarith
  show "s div 60 mod 60 \<le> 59" "s mod 60 \<le> 59" using pos_mod_bound [of 60 "s div 60"] pos_mod_bound [of 60 s] by simp_all
  show "0 \<le> s div 3600" using assms by simp
  show "s div 3600 \<le> 23" using assms zdiv_mono1 [of s 86399 3600] by simp
qed

text \<open>
  C27: shifting a valid time between the years 1900 and 9999 by at most \<open>10 ^ 9\<close> days and less than
  2147397248 seconds, either way, moves it by exactly that many seconds on the Gregorian calendar and gives a
  valid time again; it is refused exactly when the result would leave those years. Within these
  bounds no \<open>int\<close> operation overflows; a larger number of seconds can overflow one, as
  \<open>OPENSSL_gmtime_adj_overflow\<close> shows.
\<close>

theorem OPENSSL_gmtime_adj_exact:
  assumes "valid_tm t" "\<bar>off_day\<bar> \<le> 10 ^ 9" "\<bar>offset_sec\<bar> < 2147397248"
    and "target = tm_seconds t + off_day * 86400 + offset_sec"
  shows "if first_second \<le> target \<and> target \<le> last_second
    then \<exists>t'. OPENSSL_gmtime_adj t off_day offset_sec = Inr t' \<and> valid_tm t' \<and> tm_seconds t' = target
    else OPENSSL_gmtime_adj t off_day offset_sec = Inl Refused"
proof -
  obtain jd s where s: "0 \<le> s" "s < 86400" "jd < 2 ^ 32" and sum: "jd * 86400 + s = target + 1721426 * 86400"
    and adj: "julian_adj t off_day offset_sec = (if jd < 0 then Inl Refused else Inr (jd, s))"
    using julian_adj_eq [OF assms(1-3)] assms(4) by metis
  have in_range: "first_second \<le> target \<and> target \<le> last_second \<longleftrightarrow> 693595 \<le> jd - 1721426 \<and> jd - 1721426 < 3652059"
    using s sum by (simp add: seconds_range; linarith)
  show ?thesis
  proof (cases "jd < 0")
    case True
    with adj in_range show ?thesis by (simp add: OPENSSL_gmtime_adj_def)
  next
    case False
    obtain y m d where date: "julian_to_date jd = (y, m, d)" by (rule prod_cases3)
    from julian_to_date_correct [OF _ _ this] False s(3)
    have v: "valid_date y m d" "julian y m d = jd" by simp_all
    from julian_gregorian [OF valid_date_bounds(1,2) [OF v(1)]] v(2) have g: "gregorian y m d = jd - 1721426" by simp
    from year_range [OF v(1)] in_range g
    have yr: "first_second \<le> target \<and> target \<le> last_second \<longleftrightarrow> \<not> (y < 1900 \<or> 9999 < y)" by auto
    let ?t' = "t\<lparr>tm_year := y - 1900, tm_mon := m - 1, tm_mday := d,
        tm_hour := s div 3600, tm_min := s div 60 mod 60, tm_sec := s mod 60\<rparr>"
    have run: "OPENSSL_gmtime_adj t off_day offset_sec = (if y < 1900 \<or> y > 9999 then Inl Refused else Inr ?t')"
      using False adj date s(1) by (simp add: OPENSSL_gmtime_adj_def sdiv_nonneg smod_nonneg)
    note hms = split_day [OF s(1,2)]
    have secs: "tm_seconds ?t' = target" using g sum hms(1) unfolding tm_seconds_def day_seconds_def by simp
    have valid: "valid_tm ?t'" if "\<not> (y < 1900 \<or> 9999 < y)"
      using v(1) that hms(2-5) by (simp add: valid_tm_def)
    show ?thesis unfolding yr run using secs valid by simp
  qed
qed

lemmas run_defs = OPENSSL_gmtime_adj_def julian_adj_def date_to_julian_def checked_def is_int_def INT_LIMIT_def
  SECS_PER_DAY_def to_int_code

theorem OPENSSL_gmtime_adj_exact_witness:
  "OPENSSL_gmtime_adj \<lparr>tm_sec = 58, tm_min = 59, tm_hour = 23, tm_mday = 31, tm_mon = 2, tm_year = 100\<rparr> 365 2 =
    Inr \<lparr>tm_sec = 0, tm_min = 0, tm_hour = 0, tm_mday = 1, tm_mon = 3, tm_year = 101\<rparr>"
proof -
  let ?t = "\<lparr>tm_sec = 58, tm_min = 59, tm_hour = 23, tm_mday = 31, tm_mon = 2, tm_year = 100\<rparr>"
  have v: "valid_tm ?t" "\<bar>365 :: int\<bar> \<le> 10 ^ 9" "\<bar>2 :: int\<bar> < 2147397248"
    by (simp_all add: valid_tm_def valid_date_def month_lengths_def leap_def)
  have adj: "julian_adj ?t 365 2 = Inr (2452001, 0)" unfolding run_defs by simp
  have date: "julian_to_date 2452001 = (2001, 4, 1)" unfolding julian_to_date_def to_int_code by simp
  have "first_second \<le> tm_seconds ?t + 365 * 86400 + 2" "tm_seconds ?t + 365 * 86400 + 2 \<le> last_second"
    by (simp_all add: seconds_range tm_seconds_def day_seconds_def gregorian_def month_lengths_def leap_def)
  with OPENSSL_gmtime_adj_exact [OF v refl] show ?thesis by (simp add: OPENSSL_gmtime_adj_def adj date)
qed

text \<open>
  The difference of two valid times, in days and seconds of the same sign with less than a
  day of seconds, is exactly the difference in seconds of the two times on the calendar.
\<close>

theorem OPENSSL_gmtime_diff_exact:
  assumes "valid_tm t" "valid_tm u"
  shows "\<exists>days secs. OPENSSL_gmtime_diff t u = Inr (days, secs) \<and> \<bar>secs\<bar> < 86400 \<and>
    days * 86400 + secs = tm_seconds u - tm_seconds t \<and> (0 < days \<longrightarrow> 0 \<le> secs) \<and> (days < 0 \<longrightarrow> secs \<le> 0)"
proof -
  have z: "\<bar>0 :: int\<bar> \<le> 10 ^ 9" "\<bar>0 :: int\<bar> < 2147397248" by simp_all
  have pos: "0 \<le> tm_seconds x" "tm_seconds x < 3652059 * 86400" if "valid_tm x" for x
    using that year_range [of "tm_year x + 1900" "tm_mon x + 1" "tm_mday x"] day_seconds_bounds [OF that]
    by (auto simp: valid_tm_def tm_seconds_def; linarith)+
  obtain jd s where t: "0 \<le> s" "s < 86400" "jd < 2 ^ 32"
    "jd * 86400 + s = tm_seconds t + 1721426 * 86400" "julian_adj t 0 0 = (if jd < 0 then Inl Refused else Inr (jd, s))"
    using julian_adj_eq [OF assms(1) z] by (metis add.right_neutral mult_zero_left)
  obtain kd r where u: "0 \<le> r" "r < 86400" "kd < 2 ^ 32"
    "kd * 86400 + r = tm_seconds u + 1721426 * 86400" "julian_adj u 0 0 = (if kd < 0 then Inl Refused else Inr (kd, r))"
    using julian_adj_eq [OF assms(2) z] by (metis add.right_neutral mult_zero_left)
  have nn: "0 \<le> jd" "0 \<le> kd" "jd \<le> 10000000" "kd \<le> 10000000"
    using t(1,2,4) u(1,2,4) pos [OF assms(1)] pos [OF assms(2)] by linarith+
  let ?d = "kd - jd" and ?s = "r - s"
  obtain d e where de: "(d, e) = (if ?d > 0 \<and> ?s < 0 then (?d - 1, ?s + 86400)
    else if ?d < 0 \<and> ?s > 0 then (?d + 1, ?s - 86400) else (?d, ?s))" by (metis surj_pair)
  have "OPENSSL_gmtime_diff t u = Inr (to_int d, e)"
    using t(5) u(5) nn de by (auto simp: OPENSSL_gmtime_diff_def SECS_PER_DAY_def Let_def split: if_splits)
  moreover have "to_int d = d" using nn de by (intro to_int_id) (auto simp: is_int_def INT_LIMIT_def split: if_splits)
  moreover have "\<bar>e\<bar> < 86400 \<and> d * 86400 + e = ?d * 86400 + ?s \<and> (0 < d \<longrightarrow> 0 \<le> e) \<and> (d < 0 \<longrightarrow> e \<le> 0)"
    using de t(1,2) u(1,2) by (auto split: if_splits)
  moreover have "?d * 86400 + ?s = tm_seconds u - tm_seconds t" using t(4) u(4) by simp
  ultimately show ?thesis by auto
qed

theorem OPENSSL_gmtime_diff_exact_witness:
  "OPENSSL_gmtime_diff \<lparr>tm_sec = 0, tm_min = 0, tm_hour = 12, tm_mday = 28, tm_mon = 1, tm_year = 100\<rparr>
    \<lparr>tm_sec = 0, tm_min = 0, tm_hour = 6, tm_mday = 1, tm_mon = 2, tm_year = 100\<rparr> = Inr (1, 64800)"
proof -
  let ?t = "\<lparr>tm_sec = 0, tm_min = 0, tm_hour = 12, tm_mday = 28, tm_mon = 1, tm_year = 100\<rparr>"
  let ?u = "\<lparr>tm_sec = 0, tm_min = 0, tm_hour = 6, tm_mday = 1, tm_mon = 2, tm_year = 100\<rparr>"
  have v: "valid_tm ?t" "valid_tm ?u" by (simp_all add: valid_tm_def valid_date_def month_lengths_def leap_def)
  have "tm_seconds ?u - tm_seconds ?t = 151200"
    by (simp add: tm_seconds_def day_seconds_def gregorian_def month_lengths_def leap_def)
  with OPENSSL_gmtime_diff_exact [OF v] obtain d e where r: "OPENSSL_gmtime_diff ?t ?u = Inr (d, e)" "\<bar>e\<bar> < 86400"
    "d * 86400 + e = 151200" "d < 0 \<longrightarrow> e \<le> 0" "0 < d \<longrightarrow> 0 \<le> e" by auto
  from r(2,3) have "0 < d" by linarith
  with r(5) have "0 \<le> e" by simp
  with r(2,3) \<open>0 < d\<close> have "d = 1" by linarith
  with r(1,3) show ?thesis by simp
qed

text \<open>Beyond the bound on the seconds, the product of days and seconds per day overflows.\<close>

lemma OPENSSL_gmtime_adj_overflow:
  "OPENSSL_gmtime_adj \<lparr>tm_sec = 0, tm_min = 0, tm_hour = 0, tm_mday = 1, tm_mon = 0, tm_year = 70\<rparr> 0 2147558400 =
    Inl Overflow"
  unfolding run_defs by simp

end
