(* ===== verification/RC4.thy ===== *)
theory RC4
  imports Prelude Streaming "HOL-Library.Multiset"
begin

text \<open>
  \<open>crypto/rc4/rc4.c\<close>: the RC4 stream cipher. The state is a permutation of the bytes and two
  indices, all kept in 32-bit words. The cipher may work in place: every output byte is stored
  after the input byte at its position has been read.
\<close>

section \<open>The code\<close>

record rc4_key =
  rc4_x :: u32
  rc4_y :: u32
  rc4_data :: "u32 list"

text \<open>One round: the output byte and the new state.\<close>

definition rc4_step :: "u32 \<Rightarrow> u32 \<Rightarrow> u32 list \<Rightarrow> u8 \<Rightarrow> u8 \<times> u32 \<times> u32 \<times> u32 list" where
  "rc4_step x y d c =
     (let x = (x + 1) AND 0xff;
          tx = d ! unat x;
          y = (tx + y) AND 0xff;
          ty = d ! unat y;
          d = d[unat x := ty];
          d = d[unat y := tx]
      in (ucast (d ! unat ((tx + ty) AND 0xff) XOR ucast c), x, y, d))"

fun rc4_loop :: "u32 \<Rightarrow> u32 \<Rightarrow> u32 list \<Rightarrow> bytes \<Rightarrow> bytes \<times> u32 \<times> u32 \<times> u32 list" where
  "rc4_loop x y d [] = ([], x, y, d)"
| "rc4_loop x y d (c # inp) =
     (case rc4_step x y d c of
        (b, x, y, d) \<Rightarrow> (case rc4_loop x y d inp of (out, st) \<Rightarrow> (b # out, st)))"

definition RC4 :: "nat \<Rightarrow> bytes \<Rightarrow> rc4_key \<Rightarrow> bytes \<times> rc4_key" where
  "RC4 len inp key =
     (case rc4_loop (rc4_x key) (rc4_y key) (rc4_data key) (take len inp) of
        (out, x, y, d) \<Rightarrow> (out, key\<lparr>rc4_x := x, rc4_y := y, rc4_data := d\<rparr>))"

text \<open>The second loop of the key schedule, from round \<open>i\<close> on; \<open>len\<close> is an \<open>unsigned\<close>.\<close>

function set_key_loop :: "nat \<Rightarrow> nat \<Rightarrow> nat \<Rightarrow> u32 \<Rightarrow> bytes \<Rightarrow> u32 list \<Rightarrow> u32 list" where
  "set_key_loop i len id1 id2 key d =
     (if i < 256 then
        let tmp = d ! i;
            id2 = (ucast (key ! id1) + tmp + id2) AND 0xff;
            id1 = (if id1 + 1 = len then 0 else id1 + 1);
            d = d[i := d ! unat id2];
            d = d[unat id2 := tmp]
        in set_key_loop (i + 1) len id1 id2 key d
      else d)"
  by pat_completeness auto
termination by (relation "measure (\<lambda>(i, _). 256 - i)") simp_all

declare set_key_loop.simps [simp del]

definition RC4_set_key :: "nat \<Rightarrow> bytes \<Rightarrow> rc4_key" where
  "RC4_set_key len key =
     \<lparr>rc4_x = 0, rc4_y = 0, rc4_data = set_key_loop 0 len 0 0 key (map word_of_nat [0..<256])\<rparr>"

section \<open>The state is a permutation\<close>

definition rc4_ok :: "rc4_key \<Rightarrow> bool" where
  "rc4_ok key \<longleftrightarrow> mset (rc4_data key) = mset (map word_of_nat [0..<256]) \<and> rc4_x key < 256 \<and> rc4_y key < 256"

lemma and_ff: "unat (w AND 0xff :: u32) < 256" "(w AND 0xff :: u32) < 256"
proof -
  have "unat (w AND 0xff) = unat w mod 256"
    using unat_and_push_mask [of w 0 8] by (simp add: mask_eq_exp_minus_1 mod_mod_trivial)
  then show "unat (w AND 0xff) < 256" by simp
  then show "(w AND 0xff :: u32) < 256" by (simp add: word_less_nat_alt)
qed

lemma mset_exchange:
  "i < length d \<Longrightarrow> j < length d \<Longrightarrow> mset (d[i := d ! j, j := d ! i]) = mset d"
  by (rule mset_swap)

lemma length_perm: "mset d = mset (map word_of_nat [0..<256] :: u32 list) \<Longrightarrow> length d = 256"
  by (drule mset_eq_length) simp

lemma rc4_step_ok:
  assumes "rc4_step x y d c = (b, x', y', d')" "mset d = mset (map word_of_nat [0..<256])"
  shows "mset d' = mset (map word_of_nat [0..<256]) \<and> x' < 256 \<and> y' < 256"
proof -
  let ?x = "(x + 1) AND 0xff"
  let ?y = "(d ! unat ?x + y) AND 0xff"
  have e: "x' = ?x" "y' = ?y" "d' = d[unat ?x := d ! unat ?y, unat ?y := d ! unat ?x]"
    using sym [OF assms(1) [unfolded rc4_step_def Let_def]] by (simp_all only: prod.inject)
  have "mset d' = mset d" unfolding e(3) using and_ff length_perm [OF assms(2)] by (intro mset_exchange) simp_all
  then show ?thesis using assms(2) and_ff(2) by (simp add: e(1,2))
qed

lemma rc4_loop_ok:
  assumes "rc4_loop x y d inp = (out, x', y', d')" "mset d = mset (map word_of_nat [0..<256])" "x < 256" "y < 256"
  shows "mset d' = mset (map word_of_nat [0..<256]) \<and> x' < 256 \<and> y' < 256"
  using assms
proof (induction inp arbitrary: x y d out)
  case (Cons c inp)
  obtain b x1 y1 d1 where s: "rc4_step x y d c = (b, x1, y1, d1)" by (rule prod_cases4)
  obtain o' st where r: "rc4_loop x1 y1 d1 inp = (o', st)" by (rule prod.exhaust)
  with Cons.prems(1) s have "st = (x', y', d')" by simp
  with Cons.IH [OF r [unfolded this]] rc4_step_ok [OF s Cons.prems(2)] show ?case by simp
qed simp

lemma set_key_loop_mset: "length d = 256 \<Longrightarrow> mset (set_key_loop i len id1 id2 key d) = mset d"
proof (induction i len id1 id2 key d rule: set_key_loop.induct)
  case (1 i len id1 id2 key d)
  show ?case
  proof (cases "i < 256")
    case True
    let ?j = "(ucast (key ! id1) + d ! i + id2) AND 0xff"
    let ?d = "d[i := d ! unat ?j, unat ?j := d ! i]"
    have "mset ?d = mset d" using and_ff 1(2) True by (intro mset_exchange) simp_all
    with 1(1) [OF True refl refl refl refl refl] 1(2) True show ?thesis
      by (subst set_key_loop.simps) (simp add: Let_def)
  qed (simp add: set_key_loop.simps)
qed

lemma RC4_set_key_ok: "rc4_ok (RC4_set_key len key)"
  by (simp add: rc4_ok_def RC4_set_key_def set_key_loop_mset)

section \<open>Encryption and decryption\<close>

definition rc4_update :: "bytes \<Rightarrow> rc4_key \<Rightarrow> bytes \<times> rc4_key" where
  "rc4_update inp key = RC4 (length inp) inp key"

lemma rc4_loop_append:
  "rc4_loop x y d (inp @ rest) =
    (case rc4_loop x y d inp of (out, x, y, d) \<Rightarrow>
      (case rc4_loop x y d rest of (out', st) \<Rightarrow> (out @ out', st)))"
  by (induction inp arbitrary: x y d) (simp_all add: split_beta)

lemma xor_byte_twice: "ucast (k XOR ucast (ucast (k XOR ucast c :: u32) :: u8) :: u32) = (c :: u8)"
  by (rule bit_word_eqI) (auto simp: bit_simps)

lemma ucast_xor_byte: "unat (k :: u32) = n \<Longrightarrow> ucast (k XOR ucast (c :: u8)) = c XOR word_of_nat n"
  by (rule bit_word_eqI) (auto simp: bit_simps)

lemma rc4_step_involution: "rc4_step x y d c = (b, st) \<Longrightarrow> rc4_step x y d b = (c, st)"
  unfolding rc4_step_def Let_def using xor_byte_twice by auto

lemma rc4_loop_involution: "rc4_loop x y d inp = (out, st) \<Longrightarrow> rc4_loop x y d out = (inp, st)"
proof (induction inp arbitrary: x y d out st)
  case (Cons c inp)
  obtain b x1 y1 d1 where s: "rc4_step x y d c = (b, x1, y1, d1)" by (rule prod_cases4)
  obtain o' st' where r: "rc4_loop x1 y1 d1 inp = (o', st')" by (rule prod.exhaust)
  with Cons.prems s have "out = b # o'" "st' = st" by simp_all
  with Cons.IH [OF r] rc4_step_involution [OF s] show ?case by simp
qed simp

interpretation rc4_stream: chunked rc4_ok "\<lambda>_. True" id rc4_update rc4_update
proof
  fix s t and xs ys :: bytes
  assume "rc4_ok s" "rc4_update xs s = (ys, t)"
  then show "rc4_ok t \<and> rc4_update xs (id s) = (ys, id t)"
    by (auto simp: rc4_update_def RC4_def rc4_ok_def dest!: rc4_loop_ok split: prod.splits)
next
  fix xs zs us vs :: bytes and a b c
  assume "rc4_update xs a = (us, b)" "rc4_update zs b = (vs, c)"
  then show "rc4_update (xs @ zs) a = (us @ vs, c)"
    by (auto simp: rc4_update_def RC4_def rc4_loop_append split: prod.splits)
qed (auto simp: rc4_update_def RC4_def)

lemma rc4_update_involution: "rc4_update inp key = (out, key') \<Longrightarrow> rc4_update out key = (inp, key')"
proof -
  assume run: "rc4_update inp key = (out, key')"
  obtain o' x y d where l: "rc4_loop (rc4_x key) (rc4_y key) (rc4_data key) inp = (o', x, y, d)" by (rule prod_cases4)
  with run have "out = o'" "key' = key\<lparr>rc4_x := x, rc4_y := y, rc4_data := d\<rparr>"
    by (simp_all add: rc4_update_def RC4_def)
  with rc4_loop_involution [OF l] show ?thesis by (simp add: rc4_update_def RC4_def)
qed

section \<open>The cipher as the textbooks give it\<close>

text \<open>
  The cipher in the notation of the literature, independent of the code: \<open>S\<close> is a function on
  numbers, starting from the identity; the key schedule exchanges \<open>S i\<close> with \<open>S j\<close> for
  \<open>i = 0, \<dots>, 255\<close>, where \<open>j\<close> collects \<open>S i\<close> and the key byte at \<open>i\<close> modulo the key's length; the
  generator steps \<open>i\<close>, collects \<open>S i\<close> in \<open>j\<close>, exchanges, and puts out \<open>S (S i + S j)\<close>.
\<close>

definition exchange :: "(nat \<Rightarrow> nat) \<Rightarrow> nat \<Rightarrow> nat \<Rightarrow> nat \<Rightarrow> nat" where
  "exchange S i j = S(i := S j, j := S i)"

primrec key_schedule :: "bytes \<Rightarrow> nat \<Rightarrow> (nat \<Rightarrow> nat) \<times> nat" where
  "key_schedule key 0 = (\<lambda>i. i, 0)"
| "key_schedule key (Suc i) =
     (let (S, j) = key_schedule key i; j = (j + S i + unat (key ! (i mod length key))) mod 256
      in (exchange S i j, j))"

primrec generator :: "(nat \<Rightarrow> nat) \<Rightarrow> nat \<Rightarrow> (nat \<Rightarrow> nat) \<times> nat" where
  "generator S 0 = (S, 0)"
| "generator S (Suc n) =
     (let (S, j) = generator S n; i = Suc n mod 256; j = (j + S i) mod 256
      in (exchange S i j, j))"

definition stream_byte :: "(nat \<Rightarrow> nat) \<Rightarrow> nat \<Rightarrow> nat" where
  "stream_byte S n = (let (S, j) = generator S (Suc n) in S ((S (Suc n mod 256) + S j) mod 256))"

definition rc4_keystream :: "bytes \<Rightarrow> nat \<Rightarrow> bytes" where
  "rc4_keystream key n = map (\<lambda>i. word_of_nat (stream_byte (fst (key_schedule key 256)) i)) [0..<n]"

text \<open>The code's table holds the function \<open>S\<close>.\<close>

definition holds :: "u32 list \<Rightarrow> (nat \<Rightarrow> nat) \<Rightarrow> bool" where
  "holds d S \<longleftrightarrow> length d = 256 \<and> (\<forall>i<256. unat (d ! i) = S i)"

lemma holdsD: "holds d S \<Longrightarrow> i < 256 \<Longrightarrow> unat (d ! i) = S i"
  by (simp add: holds_def)

lemma holds_exchange:
  assumes "holds d S" "i < 256" "j < 256"
  shows "holds (d[i := d ! j, j := d ! i]) (exchange S i j)"
  using assms unfolding holds_def exchange_def by (auto simp: nth_list_update)

lemma and_ff_mod: "unat (w AND 0xff :: u32) = unat w mod 256"
  using unat_and_push_mask [of w 0 8] by (simp add: mask_eq_exp_minus_1 mod_mod_trivial)

lemma add_and_ff: "unat ((v + w) AND 0xff :: u32) = (unat v + unat w) mod 256"
  by (simp add: and_ff_mod unat_word_ariths mod_mod_cancel)

lemma unat_ucast_u32: "unat (ucast (b :: u8) :: u32) = unat b"
  by (simp add: unsigned_ucast_eq)

lemma add3_and_ff: "unat ((u + v + w) AND 0xff :: u32) = (unat u + unat v + unat w) mod 256"
proof -
  have "unat (u + v) mod 256 = (unat u + unat v) mod 256" by (simp add: unat_word_ariths mod_mod_cancel)
  then show ?thesis unfolding add_and_ff by (rule mod_add_cong) simp
qed

lemma set_key_loop_holds:
  assumes "holds d (fst (key_schedule key i))" "unat id2 = snd (key_schedule key i)" "id1 = i mod length key"
    and "0 < length key" "i \<le> 256" "length key \<le> length key'" "take (length key) key' = key"
  shows "holds (set_key_loop i (length key) id1 id2 key' d) (fst (key_schedule key 256))"
  using assms
proof (induction i "length key" id1 id2 key' d rule: set_key_loop.induct)
  case (1 i id1 id2 key' d)
  obtain S j where S: "key_schedule key i = (S, j)" by (rule prod.exhaust)
  show ?case
  proof (cases "i < 256")
    case True
    let ?w = "(ucast (key' ! id1) + d ! i + id2) AND 0xff"
    let ?j = "(j + S i + unat (key ! (i mod length key))) mod 256"
    have "key' ! id1 = key ! (i mod length key)"
      using 1(4,5,8) by (metis mod_less_divisor nth_take)
    then have j: "unat ?w = ?j"
      unfolding add3_and_ff using 1(2,3) True holdsD [of d S i] by (simp add: S unat_ucast_u32 ac_simps)
    have "holds (d[i := d ! unat ?w, unat ?w := d ! i]) (exchange S i ?j)"
      unfolding j by (rule holds_exchange) (use 1(2) True S in simp_all)
    moreover have "(if id1 + 1 = length key then 0 else id1 + 1) = Suc i mod length key"
      using 1(4,5) by (simp add: mod_Suc)
    ultimately show ?thesis
      using 1(1) [OF True refl refl refl refl refl] 1(2-) True j S
      by (subst set_key_loop.simps) (simp add: Let_def)
  next
    case False
    with 1(6) have "i = 256" by simp
    with 1(2) show ?thesis by (simp add: set_key_loop.simps)
  qed
qed

lemma RC4_set_key_holds:
  assumes "0 < len" "len \<le> length key"
  shows "holds (rc4_data (RC4_set_key len key)) (fst (key_schedule (take len key) 256))"
proof -
  have "holds (map word_of_nat [0..<256]) (\<lambda>i. i)"
    by (auto simp: holds_def unat_of_nat)
  with assms show ?thesis
    using set_key_loop_holds [of "map word_of_nat [0..<256]" "take len key" 0 0 0 key]
    by (simp add: RC4_set_key_def min_absorb2)
qed

lemma rc4_step_generator:
  assumes "holds d (fst (generator S n))" "unat y = snd (generator S n)" "unat x = n mod 256"
    and "rc4_step x y d c = (b, x', y', d')"
  shows "b = c XOR word_of_nat (stream_byte S n) \<and> unat x' = Suc n mod 256 \<and>
    holds d' (fst (generator S (Suc n))) \<and> unat y' = snd (generator S (Suc n))"
proof -
  obtain T j where T: "generator S n = (T, j)" by (rule prod.exhaust)
  let ?i = "Suc n mod 256" and ?x = "(x + 1) AND 0xff"
  let ?j = "(j + T ?i) mod 256" and ?y = "(d ! unat ?x + y) AND 0xff"
  let ?d = "d[unat ?x := d ! unat ?y, unat ?y := d ! unat ?x]"
  have e: "x' = ?x" "y' = ?y" "d' = ?d"
    "b = ucast (?d ! unat ((d ! unat ?x + d ! unat ?y) AND 0xff) XOR ucast c)"
    using sym [OF assms(4) [unfolded rc4_step_def Let_def]] by (simp_all only: prod.inject)
  have x: "unat ?x = ?i" using assms(3) by (simp add: add_and_ff mod_Suc_eq)
  have t: "unat (d ! ?i) = T ?i" using assms(1) T by (simp add: holdsD)
  have y: "unat ?y = ?j" using assms(2) T t x by (simp add: add_and_ff add.commute)
  then have y': "unat ((d ! ?i + y) AND 0xff) = ?j" unfolding x .
  have t': "unat (d ! ?j) = T ?j" using assms(1) T by (simp add: holdsD)
  have g: "generator S (Suc n) = (exchange T ?i ?j, ?j)" using T by (simp add: Let_def)
  have h: "holds ?d (exchange T ?i ?j)"
    unfolding x y' by (rule holds_exchange) (use assms(1) T in simp_all)
  have s: "exchange T ?i ?j ?i + exchange T ?i ?j ?j = T ?i + T ?j" by (simp add: exchange_def)
  have "unat ((d ! unat ?x + d ! unat ?y) AND 0xff) = (T ?i + T ?j) mod 256"
    unfolding x y' by (simp add: add_and_ff t t')
  then have "unat (?d ! unat ((d ! unat ?x + d ! unat ?y) AND 0xff)) = stream_byte S n"
    using holdsD [OF h, of "(T ?i + T ?j) mod 256"] by (simp add: stream_byte_def g s del: generator.simps)
  then have "b = c XOR word_of_nat (stream_byte S n)"
    unfolding e(4) by (metis (no_types, lifting) ucast_xor_byte)
  with e x y g h show ?thesis by simp
qed

lemma rc4_loop_generator:
  assumes "holds d (fst (generator S n))" "unat y = snd (generator S n)" "unat x = n mod 256"
  shows "fst (rc4_loop x y d inp) = map2 (XOR) inp (map (\<lambda>i. word_of_nat (stream_byte S i)) [n..<n + length inp])"
  using assms
proof (induction inp arbitrary: x y d n)
  case (Cons c inp)
  obtain b x1 y1 d1 where s: "rc4_step x y d c = (b, x1, y1, d1)" by (rule prod_cases4)
  note st = rc4_step_generator [OF Cons.prems s]
  have "[n..<n + length (c # inp)] = n # [Suc n..<Suc n + length inp]" by (simp add: upt_conv_Cons del: upt_Suc)
  with Cons.IH [of d1 "Suc n" y1 x1] st s show ?case
    by (simp add: split_beta del: upt_Suc generator.simps)
qed simp

text \<open>
  C28: RC4 is the cipher of the literature. Encrypting a message, cut into any pieces, adds to it
  the key stream that the textbook's key schedule and generator compute from the first \<open>len\<close> bytes of
  the key; decrypting the result, cut into any pieces, gives back the message, and both sides end
  in the same state, in which the table is still a permutation of the bytes and both indices are in
  range. The key has at least the announced length, which is not zero.
\<close>

theorem RC4_exact:
  assumes "0 < len" "len \<le> length key" "run_chunks rc4_update ds (RC4_set_key len key) = (ct, k)"
    and "concat cs = ct" "run_chunks rc4_update cs (RC4_set_key len key) = (pt, k')"
  shows "ct = map2 (XOR) (concat ds) (rc4_keystream (take len key) (length (concat ds))) \<and>
    pt = concat ds \<and> k' = k \<and> rc4_ok k"
proof -
  let ?K = "RC4_set_key len key" and ?S = "fst (key_schedule (take len key) 256)"
  have e: "rc4_ok k" "rc4_update (concat ds) ?K = (ct, k)"
    using rc4_stream.run_refines [OF RC4_set_key_ok _ assms(3)] by simp_all
  have "rc4_update ct ?K = (pt, k')"
    using rc4_stream.run_refines [OF RC4_set_key_ok _ assms(5)] assms(4) by simp
  with rc4_update_involution [OF e(2)] have d: "pt = concat ds" "k' = k" by simp_all
  have "ct = fst (rc4_loop 0 0 (rc4_data ?K) (concat ds))"
    using e(2) by (simp add: rc4_update_def RC4_def RC4_set_key_def split: prod.splits)
  also have "\<dots> = map2 (XOR) (concat ds) (rc4_keystream (take len key) (length (concat ds)))"
    using rc4_loop_generator [of "rc4_data ?K" ?S 0 0 0 "concat ds"] RC4_set_key_holds [OF assms(1,2)]
    by (simp add: rc4_keystream_def)
  finally show ?thesis using d e(1) by blast
qed

theorem RC4_exact_witness:
  "\<exists>ct k. run_chunks rc4_update [[1, 2], [3]] (RC4_set_key 2 [7, 9]) = (ct, k) \<and>
    ct = map2 (XOR) [1, 2, 3] (rc4_keystream [7, 9] 3) \<and>
    run_chunks rc4_update [ct] (RC4_set_key 2 [7, 9]) = ([1, 2, 3], k)"
proof -
  obtain ct k where e: "run_chunks rc4_update [[1, 2], [3]] (RC4_set_key 2 [7, 9]) = (ct, k)" by (rule prod.exhaust)
  obtain pt k' where d: "run_chunks rc4_update [ct] (RC4_set_key 2 [7, 9]) = (pt, k')" by (rule prod.exhaust)
  have "0 < (2 :: nat)" "2 \<le> length [7, 9 :: u8]" "concat [ct] = ct" by simp_all
  from RC4_exact [OF this(1,2) e this(3) d]
  have "ct = map2 (XOR) [1, 2, 3] (rc4_keystream [7, 9] 3)" "pt = [1, 2, 3]" "k' = k"
    by (simp_all add: take_Cons' eval_nat_numeral)
  with e d show ?thesis by blast
qed

end
