(* ===== verification/ChaCha.thy ===== *)
theory ChaCha
  imports Prelude
begin

text \<open>
  \<open>crypto/chacha/chacha.c\<close> without assembly: the ChaCha20 stream cipher and the HChaCha20 key
  derivation. The machine is little-endian, so that copying bytes into words reads them as
  \<open>U8TO32_LITTLE\<close> does. The sixteen words of the state are a list.
\<close>

section \<open>The code\<close>

definition U8TO32_LITTLE :: "bytes \<Rightarrow> u32" where
  "U8TO32_LITTLE p =
     ucast (p ! 0) OR push_bit 8 (ucast (p ! 1)) OR push_bit 16 (ucast (p ! 2)) OR push_bit 24 (ucast (p ! 3))"

definition U32TO8_LITTLE :: "u32 \<Rightarrow> bytes" where
  "U32TO8_LITTLE v = [ucast v, ucast (drop_bit 8 v), ucast (drop_bit 16 v), ucast (drop_bit 24 v)]"

text \<open>The characters of \<open>expand 32-byte k\<close>.\<close>

definition sigma :: bytes where
  "sigma = [0x65, 0x78, 0x70, 0x61, 0x6e, 0x64, 0x20, 0x33, 0x32, 0x2d, 0x62, 0x79, 0x74, 0x65, 0x20, 0x6b]"

definition ROTATE :: "u32 \<Rightarrow> nat \<Rightarrow> u32" where
  "ROTATE v n = push_bit n v OR drop_bit (32 - n) v"

definition QUARTERROUND :: "nat \<Rightarrow> nat \<Rightarrow> nat \<Rightarrow> nat \<Rightarrow> u32 list \<Rightarrow> u32 list" where
  "QUARTERROUND a b c d x =
     (let x = x[a := x ! a + x ! b]; x = x[d := ROTATE (x ! d XOR x ! a) 16];
          x = x[c := x ! c + x ! d]; x = x[b := ROTATE (x ! b XOR x ! c) 12];
          x = x[a := x ! a + x ! b]; x = x[d := ROTATE (x ! d XOR x ! a) 8];
          x = x[c := x ! c + x ! d]
      in x[b := ROTATE (x ! b XOR x ! c) 7])"

definition double_round :: "u32 list \<Rightarrow> u32 list" where
  "double_round x =
     (let x = QUARTERROUND 0 4 8 12 x; x = QUARTERROUND 1 5 9 13 x;
          x = QUARTERROUND 2 6 10 14 x; x = QUARTERROUND 3 7 11 15 x;
          x = QUARTERROUND 0 5 10 15 x; x = QUARTERROUND 1 6 11 12 x;
          x = QUARTERROUND 2 7 8 13 x
      in QUARTERROUND 3 4 9 14 x)"

definition words_at :: "bytes \<Rightarrow> nat list \<Rightarrow> u32 list" where
  "words_at bs is = map (\<lambda>i. U8TO32_LITTLE (drop i bs)) is"

definition CRYPTO_hchacha20 :: "bytes \<Rightarrow> bytes \<Rightarrow> bytes" where
  "CRYPTO_hchacha20 key nonce =
     (let x = words_at sigma [0, 4, 8, 12] @ words_at key [0, 4, 8, 12, 16, 20, 24, 28] @ words_at nonce [0, 4, 8, 12];
          x = (double_round ^^ 10) x
      in concat (map U32TO8_LITTLE (take 4 x)) @ concat (map U32TO8_LITTLE (take 4 (drop 12 x))))"

definition chacha_core :: "u32 list \<Rightarrow> bytes" where
  "chacha_core inp =
     (let x = (double_round ^^ 10) inp;
          x = map (\<lambda>i. x ! i + inp ! i) [0..<16]
      in concat (map U32TO8_LITTLE x))"

text \<open>The loop over the message; \<open>st\<close> is the array \<open>input\<close> of the code.\<close>

function chacha_loop :: "u32 list \<Rightarrow> bytes \<Rightarrow> nat \<Rightarrow> bytes" where
  "chacha_loop st inp in_len =
     (if in_len > 0 then
        let todo = (if in_len < 64 then in_len else 64);
            buf = chacha_core st
        in map (\<lambda>i. inp ! i XOR buf ! i) [0..<todo] @
           chacha_loop (st[12 := st ! 12 + 1]) (drop todo inp) (in_len - todo)
      else [])"
  by pat_completeness auto
termination by (relation "measure (\<lambda>(_, _, in_len). in_len)") auto

declare chacha_loop.simps [simp del]

definition chacha_state :: "bytes \<Rightarrow> bytes \<Rightarrow> u32 \<Rightarrow> u32 list" where
  "chacha_state key nonce counter =
     words_at sigma [0, 4, 8, 12] @ words_at key [0, 4, 8, 12, 16, 20, 24, 28] @ [counter] @ words_at nonce [0, 4, 8]"

definition CRYPTO_chacha_20 :: "bytes \<Rightarrow> nat \<Rightarrow> bytes \<Rightarrow> bytes \<Rightarrow> u32 \<Rightarrow> bytes" where
  "CRYPTO_chacha_20 inp in_len key nonce counter = chacha_loop (chacha_state key nonce counter) inp in_len"

section \<open>The key stream\<close>

definition keystream_block :: "bytes \<Rightarrow> bytes \<Rightarrow> u32 \<Rightarrow> nat \<Rightarrow> bytes" where
  "keystream_block key nonce counter i = chacha_core (chacha_state key nonce (counter + word_of_nat i))"

definition keystream :: "bytes \<Rightarrow> bytes \<Rightarrow> u32 \<Rightarrow> nat \<Rightarrow> bytes" where
  "keystream key nonce counter n = take n (concat (map (keystream_block key nonce counter) [0..<(n + 63) div 64]))"

lemma length_chacha_core [simp]: "length (chacha_core st) = 64"
  by (simp add: chacha_core_def U32TO8_LITTLE_def length_concat comp_def sum_list_triv Let_def)

lemma chacha_state_step: "(chacha_state key nonce c)[12 := chacha_state key nonce c ! 12 + 1] = chacha_state key nonce (c + 1)"
  by (simp add: chacha_state_def words_at_def)

lemma keystream_block_Suc: "keystream_block key nonce c (Suc i) = keystream_block key nonce (c + 1) i"
  by (simp add: keystream_block_def ac_simps)

lemma keystream_step:
  assumes "0 < n"
  shows "keystream key nonce c n = take n (keystream_block key nonce c 0) @ keystream key nonce (c + 1) (n - 64)"
proof -
  have "(n + 63) div 64 = Suc ((n - 1) div 64)" using assms by (simp add: div_if)
  moreover have "(n - 1) div 64 = (n - 64 + 63) div 64" by (cases "n \<le> 64") (use assms in simp_all)
  ultimately have "(n + 63) div 64 = Suc ((n - 64 + 63) div 64)" by simp
  then have "[0..<(n + 63) div 64] = 0 # map Suc [0..<(n - 64 + 63) div 64]"
    by (simp add: upt_conv_Cons map_Suc_upt del: upt_Suc)
  then show ?thesis
    by (simp add: keystream_def comp_def keystream_block_Suc) (simp add: keystream_block_def)
qed

lemma length_keystream [simp]: "length (keystream key nonce c n) = n"
proof (induction n arbitrary: c rule: less_induct)
  case (less n)
  show ?case
  proof (cases "n = 0")
    case False
    then show ?thesis using less [of "n - 64" "c + 1"] by (simp add: keystream_step keystream_block_def)
  qed (simp add: keystream_def)
qed

lemma chacha_loop_eq:
  "length inp = n \<Longrightarrow> chacha_loop (chacha_state key nonce c) inp n = map2 (XOR) inp (keystream key nonce c n)"
proof (induction n arbitrary: inp c rule: less_induct)
  case (less n)
  show ?case
  proof (cases "n = 0")
    case False
    let ?todo = "if n < 64 then n else 64"
    have r: "chacha_loop (chacha_state key nonce (c + 1)) (drop ?todo inp) (n - ?todo) =
      map2 (XOR) (drop ?todo inp) (keystream key nonce (c + 1) (n - 64))"
      using less(1) [of "n - ?todo" "drop ?todo inp" "c + 1"] less(2) False by simp
    have m: "map (\<lambda>i. inp ! i XOR keystream_block key nonce c 0 ! i) [0..<?todo] =
      map2 (XOR) (take ?todo inp) (take n (keystream_block key nonce c 0))"
      by (rule nth_equalityI) (use less(2) in \<open>auto simp: keystream_block_def\<close>)
    have "map2 (XOR) inp (keystream key nonce c n) =
      map2 (XOR) (take ?todo inp) (take n (keystream_block key nonce c 0)) @
      map2 (XOR) (drop ?todo inp) (keystream key nonce (c + 1) (n - 64))"
      using zip_append [of "take ?todo inp" "take n (keystream_block key nonce c 0)" "drop ?todo inp"
          "keystream key nonce (c + 1) (n - 64)"] less(2) False
      by (simp add: keystream_step keystream_block_def)
    then show ?thesis using False r m
      by (subst chacha_loop.simps) (simp add: Let_def chacha_state_step keystream_block_def)
  qed (use less in \<open>simp add: chacha_loop.simps\<close>)
qed

lemma keystream_append:
  "keystream key nonce c (64 * k + m) =
    keystream key nonce c (64 * k) @ keystream key nonce (c + word_of_nat k) m"
proof (induction k arbitrary: c)
  case 0
  then show ?case by (simp add: keystream_def [of key nonce c 0])
next
  case (Suc k)
  have "keystream key nonce c (64 * Suc k + m) = keystream_block key nonce c 0 @ keystream key nonce (c + 1) (64 * k + m)"
    "keystream key nonce c (64 * Suc k) = keystream_block key nonce c 0 @ keystream key nonce (c + 1) (64 * k)"
    by (simp_all add: keystream_step keystream_block_def)
  with Suc [of "c + 1"] show ?case by (simp add: ac_simps)
qed

lemma map2_xor_twice: "length k = length m \<Longrightarrow> map2 (XOR) (map2 (XOR) m k) k = (m :: bytes)"
  by (rule nth_equalityI) (simp_all add: xor.assoc)

section \<open>The cipher of RFC 8439\<close>

text \<open>
  The specification, written from the RFC and independent of the code: the state is a matrix of
  four rows of four words; a column round is the quarter round on every column, a diagonal round
  the same after turning row \<open>i\<close> by \<open>i\<close> places; bytes and words are related by arithmetic.
\<close>

fun quarter_round :: "u32 list \<Rightarrow> u32 list" where
  "quarter_round [a, b, c, d] =
     (let a = a + b; d = word_rotl 16 (xor d a);
          c = c + d; b = word_rotl 12 (xor b c);
          a = a + b; d = word_rotl 8 (xor d a);
          c = c + d; b = word_rotl 7 (xor b c)
      in [a, b, c, d])"
| "quarter_round _ = []"

definition column_round :: "u32 list list \<Rightarrow> u32 list list" where
  "column_round m = transpose (map quarter_round (transpose m))"

definition diagonal_round :: "u32 list list \<Rightarrow> u32 list list" where
  "diagonal_round m = map2 (\<lambda>i. rotate (4 - i)) [0..<4] (column_round (map2 rotate [0..<4] m))"

definition twenty_rounds :: "u32 list list \<Rightarrow> u32 list list" where
  "twenty_rounds = (diagonal_round \<circ> column_round) ^^ 10"

fun words_of_le :: "bytes \<Rightarrow> u32 list" where
  "words_of_le (a # b # c # d # bs) =
     word_of_nat (unat a + 256 * unat b + 65536 * unat c + 16777216 * unat d) # words_of_le bs"
| "words_of_le _ = []"

definition le_bytes :: "u32 list \<Rightarrow> bytes" where
  "le_bytes ws = concat (map (\<lambda>w. map (\<lambda>k. word_of_nat (unat w div 256 ^ k)) [0..<4]) ws)"

definition rfc_constants :: "u32 list" where
  "rfc_constants = [0x61707865, 0x3320646e, 0x79622d32, 0x6b206574]"

definition chacha20_block :: "bytes \<Rightarrow> u32 \<Rightarrow> bytes \<Rightarrow> bytes" where
  "chacha20_block key counter nonce =
     (let m = [rfc_constants, words_of_le (take 16 key), words_of_le (drop 16 key), counter # words_of_le nonce]
      in le_bytes (map2 (+) (concat (twenty_rounds m)) (concat m)))"

definition chacha20_keystream :: "bytes \<Rightarrow> u32 \<Rightarrow> bytes \<Rightarrow> nat \<Rightarrow> bytes" where
  "chacha20_keystream key counter nonce n =
     take n (concat (map (\<lambda>i. chacha20_block key (counter + word_of_nat i) nonce) [0..<(n + 63) div 64]))"

definition hchacha20 :: "bytes \<Rightarrow> bytes \<Rightarrow> bytes" where
  "hchacha20 key nonce =
     (let m = twenty_rounds [rfc_constants, words_of_le (take 16 key), words_of_le (drop 16 key), words_of_le nonce]
      in le_bytes (m ! 0 @ m ! 3))"

text \<open>The quarter round of section 2.1.1 of the RFC.\<close>

lemma quarter_round_vector:
  "quarter_round [0x11111111, 0x01020304, 0x9b8d6f43, 0x01234567] =
    [0xea2a92f4, 0xcb1cf8ce, 0x4581472e, 0x5881c4bb]"
  by code_simp

section \<open>The code computes it\<close>

lemma ROTATE_rotl:
  assumes "0 < n" "n < 32"
  shows "ROTATE v n = word_rotl n v"
proof (rule bit_word_eqI)
  fix k assume "k < LENGTH(32)"
  then have k: "k < 32" by simp
  show "bit (ROTATE v n) k = bit (word_rotl n v) k"
  proof (cases "k < n")
    case True
    then have "(k + (32 - n)) mod 32 = k + (32 - n)" using assms by simp
    then have "bit (word_rotl n v) k = bit v (k + (32 - n))" using k assms by (simp add: bit_word_rotl_iff)
    then show ?thesis using True k by (simp add: ROTATE_def bit_simps add.commute)
  next
    case False
    then have "(k + (32 - n)) mod 32 = k - n" using k assms by (simp add: mod_if)
    then have "bit (word_rotl n v) k = bit v (k - n)" using k assms by (simp add: bit_word_rotl_iff)
    moreover have "\<not> bit v (k + (32 - n))" using False assms k bit_imp_le_length [of v "k + (32 - n)"] by auto
    ultimately show ?thesis using False k by (simp add: ROTATE_def bit_simps add.commute)
  qed
qed

lemma QUARTERROUND_eq:
  assumes "quarter_round [x ! a, x ! b, x ! c, x ! d] = [p, q, r, s]"
    and "distinct [a, b, c, d]" "set [a, b, c, d] \<subseteq> {..<length x}"
  shows "QUARTERROUND a b c d x = x[a := p, b := q, c := r, d := s]"
proof -
  have ne: "a \<noteq> b" "a \<noteq> c" "a \<noteq> d" "b \<noteq> c" "b \<noteq> d" "c \<noteq> d" "b \<noteq> a" "c \<noteq> a" "d \<noteq> a" "c \<noteq> b" "d \<noteq> b" "d \<noteq> c"
    using assms(2) by auto
  have lt: "a < length x" "b < length x" "c < length x" "d < length x" using assms(3) by auto
  let ?y = "quarter_round [x ! a, x ! b, x ! c, x ! d]"
  have "QUARTERROUND a b c d x = x[a := ?y ! 0, b := ?y ! 1, c := ?y ! 2, d := ?y ! 3]"
    using lt ne
    by (simp add: QUARTERROUND_def ROTATE_rotl Let_def list_update_swap [of d c] list_update_swap [of d b]
        list_update_swap [of d a] list_update_swap [of c b] list_update_swap [of c a] list_update_swap [of b a])
  then show ?thesis unfolding assms(1) by simp
qed

text \<open>A list of sixteen words, and its rows.\<close>

lemma list16:
  assumes "length (x :: 'a list) = 16"
  obtains x0 x1 x2 x3 x4 x5 x6 x7 x8 x9 x10 x11 x12 x13 x14 x15
  where "x = [x0, x1, x2, x3, x4, x5, x6, x7, x8, x9, x10, x11, x12, x13, x14, x15]"
  using assms by (auto simp: length_Suc_conv eval_nat_numeral)

lemma quarter_round_ex: "\<exists>p q r s. quarter_round [a, b, c, d] = [p, q, r, s]"
  by (simp add: Let_def)

definition rows :: "'a list \<Rightarrow> 'a list list" where
  "rows x = [take 4 x, take 4 (drop 4 x), take 4 (drop 8 x), take 4 (drop 12 x)]"

lemma double_round_rows:
  fixes x :: "u32 list"
  assumes "length x = 16"
  shows "rows (double_round x) = (diagonal_round \<circ> column_round) (rows x) \<and> length (double_round x) = 16"
proof -
  obtain x0 x1 x2 x3 x4 x5 x6 x7 x8 x9 x10 x11 x12 x13 x14 x15
    where x: "x = [x0, x1, x2, x3, x4, x5, x6, x7, x8, x9, x10, x11, x12, x13, x14, x15]"
    using list16 [OF assms] .
  obtain y0 y4 y8 y12 where c0: "quarter_round [x0, x4, x8, x12] = [y0, y4, y8, y12]" using quarter_round_ex by blast
  obtain y1 y5 y9 y13 where c1: "quarter_round [x1, x5, x9, x13] = [y1, y5, y9, y13]" using quarter_round_ex by blast
  obtain y2 y6 y10 y14 where c2: "quarter_round [x2, x6, x10, x14] = [y2, y6, y10, y14]" using quarter_round_ex by blast
  obtain y3 y7 y11 y15 where c3: "quarter_round [x3, x7, x11, x15] = [y3, y7, y11, y15]" using quarter_round_ex by blast
  obtain z0 z5 z10 z15 where d0: "quarter_round [y0, y5, y10, y15] = [z0, z5, z10, z15]" using quarter_round_ex by blast
  obtain z1 z6 z11 z12 where d1: "quarter_round [y1, y6, y11, y12] = [z1, z6, z11, z12]" using quarter_round_ex by blast
  obtain z2 z7 z8 z13 where d2: "quarter_round [y2, y7, y8, y13] = [z2, z7, z8, z13]" using quarter_round_ex by blast
  obtain z3 z4 z9 z14 where d3: "quarter_round [y3, y4, y9, y14] = [z3, z4, z9, z14]" using quarter_round_ex by blast
  let ?y = "[y0, y1, y2, y3, y4, y5, y6, y7, y8, y9, y10, y11, y12, y13, y14, y15]"
  let ?z = "[z0, z1, z2, z3, z4, z5, z6, z7, z8, z9, z10, z11, z12, z13, z14, z15]"
  have "QUARTERROUND 0 4 8 12 x = [y0, x1, x2, x3, y4, x5, x6, x7, y8, x9, x10, x11, y12, x13, x14, x15]"
    using QUARTERROUND_eq [of x 0 4 8 12] c0 by (simp add: x)
  moreover have "QUARTERROUND 1 5 9 13 [y0, x1, x2, x3, y4, x5, x6, x7, y8, x9, x10, x11, y12, x13, x14, x15] =
    [y0, y1, x2, x3, y4, y5, x6, x7, y8, y9, x10, x11, y12, y13, x14, x15]"
    using QUARTERROUND_eq [of _ 1 5 9 13] c1 by simp
  moreover have "QUARTERROUND 2 6 10 14 [y0, y1, x2, x3, y4, y5, x6, x7, y8, y9, x10, x11, y12, y13, x14, x15] =
    [y0, y1, y2, x3, y4, y5, y6, x7, y8, y9, y10, x11, y12, y13, y14, x15]"
    using QUARTERROUND_eq [of _ 2 6 10 14] c2 by simp
  moreover have "QUARTERROUND 3 7 11 15 [y0, y1, y2, x3, y4, y5, y6, x7, y8, y9, y10, x11, y12, y13, y14, x15] = ?y"
    using QUARTERROUND_eq [of _ 3 7 11 15] c3 by simp
  moreover have "QUARTERROUND 0 5 10 15 ?y = [z0, y1, y2, y3, y4, z5, y6, y7, y8, y9, z10, y11, y12, y13, y14, z15]"
    using QUARTERROUND_eq [of _ 0 5 10 15] d0 by simp
  moreover have "QUARTERROUND 1 6 11 12 [z0, y1, y2, y3, y4, z5, y6, y7, y8, y9, z10, y11, y12, y13, y14, z15] =
    [z0, z1, y2, y3, y4, z5, z6, y7, y8, y9, z10, z11, z12, y13, y14, z15]"
    using QUARTERROUND_eq [of _ 1 6 11 12] d1 by simp
  moreover have "QUARTERROUND 2 7 8 13 [z0, z1, y2, y3, y4, z5, z6, y7, y8, y9, z10, z11, z12, y13, y14, z15] =
    [z0, z1, z2, y3, y4, z5, z6, z7, z8, y9, z10, z11, z12, z13, y14, z15]"
    using QUARTERROUND_eq [of _ 2 7 8 13] d2 by simp
  moreover have "QUARTERROUND 3 4 9 14 [z0, z1, z2, y3, y4, z5, z6, z7, z8, y9, z10, z11, z12, z13, y14, z15] = ?z"
    using QUARTERROUND_eq [of _ 3 4 9 14] d3 by simp
  ultimately have z: "double_round x = ?z" by (simp only: double_round_def Let_def)
  have "column_round (rows x) = rows ?y"
    by (simp add: rows_def column_round_def x c0 c1 c2 c3 del: quarter_round.simps)
  moreover have "diagonal_round (rows ?y) = rows ?z"
    by (simp add: rows_def column_round_def diagonal_round_def d0 d1 d2 d3 upt_rec rotate1_def eval_nat_numeral del: quarter_round.simps)
  ultimately show ?thesis using z by simp
qed

lemma twenty_rounds_rows:
  "length x = 16 \<Longrightarrow> rows ((double_round ^^ n) x) = ((diagonal_round \<circ> column_round) ^^ n) (rows x) \<and>
    length ((double_round ^^ n) x) = 16"
  by (induction n) (simp_all add: double_round_rows)

lemma concat_rows: "length x = 16 \<Longrightarrow> concat (rows x) = x"
  by (erule list16) (simp add: rows_def)

text \<open>Words and bytes, little-endian.\<close>

lemma U8TO32_LITTLE_eq:
  "U8TO32_LITTLE (a # b # c # d # bs) = word_of_nat (unat a + 256 * unat b + 65536 * unat c + 16777216 * unat d)"
proof (rule unat_eq_word_of_nat)
  have l: "unat a < 256" "unat b < 256" "unat c < 256" "unat d < 256" by simp_all
  then have m: "unat b * 256 + unat a < 65536" "unat c * 65536 + (unat b * 256 + unat a) < 16777216"
    "unat d * 16777216 + (unat c * 65536 + (unat b * 256 + unat a)) < 4294967296" by linarith+
  have 1: "unat (push_bit 8 (ucast b) OR ucast a :: u32) = unat b * 256 + unat a"
    using l m(1) by (subst unat_push_bit_or) simp_all
  have 2: "unat (push_bit 16 (ucast c) OR (push_bit 8 (ucast b) OR ucast a) :: u32) =
    unat c * 65536 + (unat b * 256 + unat a)"
    using l m(1,2) by (subst unat_push_bit_or) (simp_all add: 1)
  have "U8TO32_LITTLE (a # b # c # d # bs) =
    push_bit 24 (ucast d) OR (push_bit 16 (ucast c) OR (push_bit 8 (ucast b) OR ucast a))"
    by (simp add: U8TO32_LITTLE_def ac_simps)
  moreover have "unat (push_bit 24 (ucast d) OR (push_bit 16 (ucast c) OR (push_bit 8 (ucast b) OR ucast a)) :: u32) =
    unat d * 16777216 + (unat c * 65536 + (unat b * 256 + unat a))"
    using l m by (subst unat_push_bit_or) (simp_all add: 2)
  ultimately show "unat (U8TO32_LITTLE (a # b # c # d # bs)) =
    unat a + 256 * unat b + 65536 * unat c + 16777216 * unat d" by simp
qed

lemma ucast_drop_bit_byte: "ucast (drop_bit k (w :: u32)) = (word_of_nat (unat w div 2 ^ k) :: u8)"
proof -
  have "ucast (drop_bit k w) = (word_of_nat (unat (drop_bit k w)) :: u8)" by simp
  moreover have "unat (drop_bit k w) = unat w div 2 ^ k" unfolding unat_drop_bit_eq by (rule drop_bit_eq_div)
  ultimately show ?thesis by (simp only:)
qed

lemma U32TO8_LITTLE_eq: "U32TO8_LITTLE w = map (\<lambda>k. word_of_nat (unat w div 256 ^ k)) [0..<4]"
proof -
  have e: "[0..<4] = [0, 1, 2, 3]" by (simp add: upt_rec)
  have "ucast w = (word_of_nat (unat w div 2 ^ 0) :: u8)" by simp
  then show ?thesis
    unfolding U32TO8_LITTLE_def e list.map ucast_drop_bit_byte by simp
qed

lemma le_bytes_eq: "concat (map U32TO8_LITTLE ws) = le_bytes ws"
  unfolding le_bytes_def U32TO8_LITTLE_eq ..

lemma le_words_step: "4 \<le> length bs \<Longrightarrow> words_of_le bs = U8TO32_LITTLE bs # words_of_le (drop 4 bs)"
  by (cases bs rule: words_of_le.cases) (simp_all add: U8TO32_LITTLE_eq)

lemma words_at_key: "length key = 32 \<Longrightarrow>
  words_at key [0, 4, 8, 12, 16, 20, 24, 28] = words_of_le (take 16 key) @ words_of_le (drop 16 key)"
  by (simp add: words_at_def le_words_step) (simp add: U8TO32_LITTLE_def)

lemma words_at_nonce: "length nonce = 12 \<Longrightarrow> words_at nonce [0, 4, 8] = words_of_le nonce"
  "length n16 = 16 \<Longrightarrow> words_at n16 [0, 4, 8, 12] = words_of_le n16"
  by (simp_all add: words_at_def le_words_step)

lemma words_at_sigma: "words_at sigma [0, 4, 8, 12] = rfc_constants"
  by code_simp

lemma chacha_core_eq:
  assumes "length inp = 16"
  shows "chacha_core inp = le_bytes (map2 (+) (concat (twenty_rounds (rows inp))) (concat (rows inp)))"
proof -
  let ?x = "(double_round ^^ 10) inp"
  have r: "rows ?x = twenty_rounds (rows inp)" "length ?x = 16"
    using twenty_rounds_rows [OF assms, of 10] by (simp_all add: twenty_rounds_def)
  have "map (\<lambda>i. ?x ! i + inp ! i) [0..<16] = map2 (+) ?x inp"
    by (rule nth_equalityI) (use assms r(2) in simp_all)
  then show ?thesis
    using concat_rows [OF r(2)] concat_rows [OF assms] r(1) by (simp add: chacha_core_def le_bytes_eq Let_def)
qed

lemma length_le_words: "length bs = 4 * n \<Longrightarrow> length (words_of_le bs) = n"
  by (induction n arbitrary: bs) (simp_all add: le_words_step)

lemma rows_append:
  "length a = 4 \<Longrightarrow> length b = 4 \<Longrightarrow> length c = 4 \<Longrightarrow> length d = 4 \<Longrightarrow> rows (a @ b @ c @ d) = [a, b, c, d]"
  by (simp add: rows_def)

lemma rfc_rows:
  assumes "length key = 32" "length d = 4"
  shows "rows (rfc_constants @ (words_of_le (take 16 key) @ words_of_le (drop 16 key)) @ d) =
    [rfc_constants, words_of_le (take 16 key), words_of_le (drop 16 key), d]"
  unfolding append_assoc
  by (rule rows_append) (use assms length_le_words [of _ 4] in \<open>simp_all add: rfc_constants_def\<close>)

lemma keystream_block_eq:
  assumes "length key = 32" "length nonce = 12"
  shows "keystream_block key nonce c i = chacha20_block key (c + word_of_nat i) nonce"
proof -
  let ?d = "(c + word_of_nat i) # words_of_le nonce"
  let ?s = "rfc_constants @ (words_of_le (take 16 key) @ words_of_le (drop 16 key)) @ ?d"
  have d: "length ?d = 4" using length_le_words [of nonce 3] assms(2) by simp
  then have "length ?s = 16"
    using length_le_words [of _ 4] assms(1) by (simp add: rfc_constants_def)
  moreover have "chacha_state key nonce (c + word_of_nat i) = ?s"
    using assms by (simp add: chacha_state_def words_at_sigma words_at_key words_at_nonce)
  ultimately show ?thesis
    using rfc_rows [OF assms(1) d] by (simp add: keystream_block_def chacha_core_eq chacha20_block_def Let_def)
qed

lemma keystream_eq:
  "length key = 32 \<Longrightarrow> length nonce = 12 \<Longrightarrow> keystream key nonce c n = chacha20_keystream key c nonce n"
  by (simp add: keystream_def chacha20_keystream_def keystream_block_eq cong: map_cong)

lemma CRYPTO_hchacha20_eq:
  assumes "length key = 32" "length n16 = 16"
  shows "CRYPTO_hchacha20 key n16 = hchacha20 key n16"
proof -
  let ?s = "rfc_constants @ (words_of_le (take 16 key) @ words_of_le (drop 16 key)) @ words_of_le n16"
  have d: "length (words_of_le n16) = 4" using length_le_words [of n16 4] assms(2) by simp
  then have l: "length ?s = 16" using length_le_words [of _ 4] assms(1) by (simp add: rfc_constants_def)
  let ?x = "(double_round ^^ 10) ?s"
  have x: "rows ?x = twenty_rounds (rows ?s)" "length ?x = 16"
    using twenty_rounds_rows [OF l, of 10] by (simp_all add: twenty_rounds_def)
  have "take 4 ?x = rows ?x ! 0" "take 4 (drop 12 ?x) = rows ?x ! 3" by (simp_all add: rows_def)
  then have "CRYPTO_hchacha20 key n16 = le_bytes (rows ?x ! 0 @ rows ?x ! 3)"
    using assms by (simp add: CRYPTO_hchacha20_def words_at_sigma words_at_key words_at_nonce le_bytes_eq Let_def) (simp add: le_bytes_def)
  then show ?thesis
    unfolding x(1) rfc_rows [OF assms(1) d] by (simp add: hchacha20_def Let_def)
qed

text \<open>
  C29: ChaCha20 is the cipher of RFC 8439. With a key of 32 bytes and a nonce of 12, encryption adds
  the RFC's key stream, whose 64-byte blocks come from consecutive values of the block counter, which
  wraps around. Encrypting twice gives back the message, and a message cut at a block boundary may
  be encrypted in two calls, the counter advanced by the blocks done. HChaCha20 on a nonce of 16 bytes is the
  first and the last row of the state after the twenty rounds, without the final addition.
\<close>

theorem CRYPTO_chacha_20_exact:
  assumes "length key = 32" "length nonce = 12" "length n16 = 16"
  shows "CRYPTO_chacha_20 inp (length inp) key nonce c = map2 (XOR) inp (chacha20_keystream key c nonce (length inp)) \<and>
    CRYPTO_chacha_20 (CRYPTO_chacha_20 inp (length inp) key nonce c) (length inp) key nonce c = inp \<and>
    (length inp mod 64 = 0 \<longrightarrow>
      CRYPTO_chacha_20 (inp @ rest) (length (inp @ rest)) key nonce c =
      CRYPTO_chacha_20 inp (length inp) key nonce c @
      CRYPTO_chacha_20 rest (length rest) key nonce (c + word_of_nat (length inp div 64))) \<and>
    CRYPTO_hchacha20 key n16 = hchacha20 key n16"
proof -
  have e: "CRYPTO_chacha_20 m (length m) key nonce c = map2 (XOR) m (keystream key nonce c (length m))" for m c
    by (simp add: CRYPTO_chacha_20_def chacha_loop_eq)
  have "CRYPTO_chacha_20 (CRYPTO_chacha_20 inp (length inp) key nonce c) (length inp) key nonce c = inp"
    using e [of "map2 (XOR) inp (keystream key nonce c (length inp))" c] by (simp add: e map2_xor_twice)
  moreover have "CRYPTO_chacha_20 (inp @ rest) (length (inp @ rest)) key nonce c =
      CRYPTO_chacha_20 inp (length inp) key nonce c @
      CRYPTO_chacha_20 rest (length rest) key nonce (c + word_of_nat (length inp div 64))" if "length inp mod 64 = 0"
  proof -
    have k: "64 * (length inp div 64) = length inp" using that mult_div_mod_eq [of 64 "length inp"] by simp
    have "keystream key nonce c (length inp + length rest) =
      keystream key nonce c (length inp) @ keystream key nonce (c + word_of_nat (length inp div 64)) (length rest)"
      using keystream_append [of key nonce c "length inp div 64" "length rest"] by (simp only: k)
    then show ?thesis unfolding e by (simp add: zip_append)
  qed
  ultimately show ?thesis
    using e keystream_eq [OF assms(1,2)] CRYPTO_hchacha20_eq [OF assms(1,3)] by simp
qed

theorem CRYPTO_chacha_20_exact_witness:
  "CRYPTO_chacha_20 (replicate 64 0 @ [1, 2]) 66 (replicate 32 0) (replicate 12 0) 0xffffffff =
    CRYPTO_chacha_20 (replicate 64 0) 64 (replicate 32 0) (replicate 12 0) 0xffffffff @
    CRYPTO_chacha_20 [1, 2] 2 (replicate 32 0) (replicate 12 0) 0"
proof -
  have l: "length (replicate 32 0 :: bytes) = 32" "length (replicate 12 0 :: bytes) = 12" "length (replicate 16 0 :: bytes) = 16"
    by simp_all
  have "(0xffffffff + word_of_nat (64 div 64) :: u32) = 0" by simp
  moreover have "length (replicate 64 0 @ [1, 2 :: u8]) = 66" "length [1, 2 :: u8] = 2" by simp_all
  ultimately show ?thesis
    using CRYPTO_chacha_20_exact [OF l, of "replicate 64 0" "0xffffffff" "[1, 2]"]
    by (simp only: length_replicate mod_self simp_thms)
qed

end
