(* ===== verification/SipHash.thy ===== *)
theory SipHash
  imports Prelude
begin

text \<open>
  \<open>crypto/siphash/siphash.c\<close>: SipHash-2-4 on a little-endian machine, where copying eight bytes
  into a word reads them as a little-endian number. The four words of the state are a tuple.
\<close>

section \<open>The code\<close>

definition rotl64 :: "u64 \<Rightarrow> nat \<Rightarrow> u64" where
  "rotl64 v n = push_bit n v OR drop_bit (64 - n) v"

type_synonym sip_state = "u64 \<times> u64 \<times> u64 \<times> u64"

definition siphash_round :: "sip_state \<Rightarrow> sip_state" where
  "siphash_round v =
     (case v of (v0, v1, v2, v3) \<Rightarrow>
        let v0 = v0 + v1; v2 = v2 + v3;
            v1 = rotl64 v1 13; v3 = rotl64 v3 16;
            v1 = v1 XOR v0; v3 = v3 XOR v2;
            v0 = rotl64 v0 32;
            v2 = v2 + v1; v0 = v0 + v3;
            v1 = rotl64 v1 17; v3 = rotl64 v3 21;
            v1 = v1 XOR v2; v3 = v3 XOR v0;
            v2 = rotl64 v2 32
        in (v0, v1, v2, v3))"

text \<open>The word that \<open>memcpy\<close> reads from eight bytes.\<close>

definition load64 :: "bytes \<Rightarrow> u64" where
  "load64 bs = word_of_nat (be_nat (rev (take 8 bs)))"

definition absorb :: "u64 \<Rightarrow> sip_state \<Rightarrow> sip_state" where
  "absorb m v =
     (case v of (v0, v1, v2, v3) \<Rightarrow>
        case siphash_round (siphash_round (v0, v1, v2, v3 XOR m)) of
          (v0, v1, v2, v3) \<Rightarrow> (v0 XOR m, v1, v2, v3))"

text \<open>The loop leaves the state, the rest of the input and its length.\<close>

fun absorb_loop :: "bytes \<Rightarrow> nat \<Rightarrow> sip_state \<Rightarrow> sip_state \<times> bytes \<times> nat" where
  "absorb_loop input input_len v =
     (if input_len \<ge> 8 then absorb_loop (drop 8 input) (input_len - 8) (absorb (load64 input) v)
      else (v, input, input_len))"

declare absorb_loop.simps [simp del]

definition SIPHASH_24 :: "u64 \<times> u64 \<Rightarrow> bytes \<Rightarrow> nat \<Rightarrow> u64" where
  "SIPHASH_24 key input input_len =
     (case key of (k0, k1) \<Rightarrow>
      case absorb_loop input input_len
             (k0 XOR 0x736f6d6570736575, k1 XOR 0x646f72616e646f6d, k0 XOR 0x6c7967656e657261, k1 XOR 0x7465646279746573) of
        (v, rest, rest_len) \<Rightarrow>
          let last_block = replicate 8 0;
              last_block = store_at last_block 0 (take rest_len rest);
              last_block = last_block[7 := word_of_nat input_len AND 0xff]
          in case absorb (load64 last_block) v of
               (v0, v1, v2, v3) \<Rightarrow>
                 (case (siphash_round ^^ 4) (v0, v1, v2 XOR 0xff, v3) of
                    (v0, v1, v2, v3) \<Rightarrow> v0 XOR v1 XOR v2 XOR v3))"

section \<open>The specification\<close>

text \<open>
  The message is padded with zeros to one byte short of a multiple of eight, and closed by its
  length modulo 256; its words are absorbed one after the other.
\<close>

definition padded :: "bytes \<Rightarrow> bytes" where
  "padded msg = msg @ replicate (7 - length msg mod 8) 0 @ [word_of_nat (length msg)]"

fun le_words :: "bytes \<Rightarrow> u64 list" where
  "le_words bs = (if bs = [] then [] else load64 bs # le_words (drop 8 bs))"

declare le_words.simps [simp del]

definition siphash_spec :: "u64 \<times> u64 \<Rightarrow> bytes \<Rightarrow> u64" where
  "siphash_spec key msg =
     (case key of (k0, k1) \<Rightarrow>
      case fold absorb (le_words (padded msg))
             (k0 XOR 0x736f6d6570736575, k1 XOR 0x646f72616e646f6d, k0 XOR 0x6c7967656e657261, k1 XOR 0x7465646279746573) of
        (v0, v1, v2, v3) \<Rightarrow>
          (case (siphash_round ^^ 4) (v0, v1, v2 XOR 0xff, v3) of (v0, v1, v2, v3) \<Rightarrow> v0 XOR v1 XOR v2 XOR v3))"

lemma load64_append: "8 \<le> length bs \<Longrightarrow> load64 (bs @ t) = load64 bs"
  by (simp add: load64_def)

lemma absorb_loop_eq:
  assumes "length input = n" "absorb_loop input n v = (w, rest, k)"
  shows "k = length rest \<and> k = n mod 8 \<and> fold absorb (le_words (input @ t)) v = fold absorb (le_words (rest @ t)) w"
  using assms
proof (induction input n v rule: absorb_loop.induct)
  case (1 input n v)
  show ?case
  proof (cases "8 \<le> n")
    case True
    with 1(3) have run: "absorb_loop (drop 8 input) (n - 8) (absorb (load64 input) v) = (w, rest, k)"
      by (simp add: absorb_loop.simps [of input n v])
    have "length (drop 8 input) = n - 8" using 1(2) by simp
    moreover have "input @ t \<noteq> []" using True 1(2) by auto
    ultimately show ?thesis using 1(1) [OF True _ run] True 1(2)
      by (auto simp: le_words.simps [of "input @ t"] load64_append le_mod_geq)
  next
    case False
    with 1 show ?thesis by (simp add: absorb_loop.simps [of input n v])
  qed
qed

theorem SIPHASH_24_spec: "SIPHASH_24 key msg (length msg) = siphash_spec key msg"
proof -
  obtain k0 k1 where key: "key = (k0, k1)" by (rule prod.exhaust)
  let ?v = "(k0 XOR 0x736f6d6570736575, k1 XOR 0x646f72616e646f6d, k0 XOR 0x6c7967656e657261, k1 XOR 0x7465646279746573)"
  obtain w rest k where run: "absorb_loop msg (length msg) ?v = (w, rest, k)" by (rule prod_cases3)
  note a = absorb_loop_eq [OF refl run]
  have k: "k = length rest" "k = length msg mod 8" "k \<le> 7" using a [of "[]"] by auto
  let ?t = "replicate (7 - length msg mod 8) 0 @ [word_of_nat (length msg) :: u8]"
  have "(store_at (replicate 8 0) 0 (take k rest))[7 := word_of_nat (length msg) AND 0xff] = rest @ ?t"
  proof -
    have "store_at (replicate 8 0) 0 (take k rest) = (rest @ replicate (7 - k) 0) @ [0]"
      using k(1,3) Suc_diff_le [OF k(3)] by (simp add: store_at_def replicate_append_same)
    moreover have "(0xff :: u8) = - 1" by simp
    then have "(word_of_nat (length msg) AND 0xff :: u8) = word_of_nat (length msg)"
      by (simp only: and.right_neutral)
    ultimately show ?thesis using k by (simp add: list_update_append)
  qed
  moreover have "le_words (rest @ ?t) = [load64 (rest @ ?t)]"
  proof -
    have "length (rest @ ?t) = 8" using k by simp
    then show ?thesis by (simp add: le_words.simps [of "rest @ ?t"] le_words.simps [of "[]"])
  qed
  ultimately show ?thesis using a [of ?t]
    by (simp add: SIPHASH_24_def siphash_spec_def key run padded_def Let_def)
qed

end
