(* ===== verification/Poly1305.thy ===== *)
theory Poly1305
  imports Prelude
begin

text \<open>
  \<open>crypto/poly1305/poly1305.c\<close>, the portable implementation: a number below \<open>2 ^ 130\<close> is five
  words of 26 bits, and all arithmetic is on 32-bit words with 64-bit products. The opaque
  \<open>poly1305_state\<close> that callers allocate is only aligned to the structure modelled here.
\<close>

section \<open>The code\<close>

definition U8TO32_LE :: "bytes \<Rightarrow> u32" where
  "U8TO32_LE m = word_of_nat (be_nat (rev (take 4 m)))"

definition U32TO8_LE :: "u32 \<Rightarrow> bytes" where
  "U32TO8_LE v = rev (be_bytes 4 (unat v))"

definition mul32x32_64 :: "u32 \<Rightarrow> u32 \<Rightarrow> u64" where
  "mul32x32_64 a b = ucast a * ucast b"

record poly1305_state =
  r0 :: u32
  r1 :: u32
  r2 :: u32
  r3 :: u32
  r4 :: u32
  s1 :: u32
  s2 :: u32
  s3 :: u32
  s4 :: u32
  h0 :: u32
  h1 :: u32
  h2 :: u32
  h3 :: u32
  h4 :: u32
  buf :: bytes
  buf_used :: nat
  key :: bytes

text \<open>The two words \<open>lo\<close> and \<open>hi\<close> as one of 64 bits, shifted, and 26 bits of it.\<close>

definition limb_between :: "u32 \<Rightarrow> u32 \<Rightarrow> nat \<Rightarrow> u32" where
  "limb_between hi lo n = ucast (drop_bit n (push_bit 32 (ucast hi) OR ucast lo :: u64) AND 0x3ffffff)"

text \<open>
  Adding sixteen bytes to the accumulator; \<open>hibit\<close> is the bit above a full block, which is absent
  from the final, padded one.
\<close>

definition add_block :: "poly1305_state \<Rightarrow> bytes \<Rightarrow> u32 \<Rightarrow> poly1305_state" where
  "add_block state m hibit =
     (let t0 = U8TO32_LE m;
          t1 = U8TO32_LE (drop 4 m);
          t2 = U8TO32_LE (drop 8 m);
          t3 = U8TO32_LE (drop 12 m)
      in state\<lparr>h0 := h0 state + (t0 AND 0x3ffffff),
               h1 := h1 state + limb_between t1 t0 26,
               h2 := h2 state + limb_between t2 t1 20,
               h3 := h3 state + limb_between t3 t2 14,
               h4 := h4 state + (drop_bit 8 t3 OR hibit)\<rparr>)"

text \<open>The five column sums of the product, and the carries.\<close>

definition mul_columns :: "poly1305_state \<Rightarrow> u64 \<times> u64 \<times> u64 \<times> u64 \<times> u64" where
  "mul_columns state =
     (mul32x32_64 (h0 state) (r0 state) + mul32x32_64 (h1 state) (s4 state) + mul32x32_64 (h2 state) (s3 state) +
        mul32x32_64 (h3 state) (s2 state) + mul32x32_64 (h4 state) (s1 state),
      mul32x32_64 (h0 state) (r1 state) + mul32x32_64 (h1 state) (r0 state) + mul32x32_64 (h2 state) (s4 state) +
        mul32x32_64 (h3 state) (s3 state) + mul32x32_64 (h4 state) (s2 state),
      mul32x32_64 (h0 state) (r2 state) + mul32x32_64 (h1 state) (r1 state) + mul32x32_64 (h2 state) (r0 state) +
        mul32x32_64 (h3 state) (s4 state) + mul32x32_64 (h4 state) (s3 state),
      mul32x32_64 (h0 state) (r3 state) + mul32x32_64 (h1 state) (r2 state) + mul32x32_64 (h2 state) (r1 state) +
        mul32x32_64 (h3 state) (r0 state) + mul32x32_64 (h4 state) (s4 state),
      mul32x32_64 (h0 state) (r4 state) + mul32x32_64 (h1 state) (r3 state) + mul32x32_64 (h2 state) (r2 state) +
        mul32x32_64 (h3 state) (r1 state) + mul32x32_64 (h4 state) (r0 state))"

definition poly1305_donna_mul :: "poly1305_state \<Rightarrow> poly1305_state" where
  "poly1305_donna_mul state =
     (case mul_columns state of (t0, t1, t2, t3, t4) \<Rightarrow>
      let x0 = ucast t0 AND 0x3ffffff; c = drop_bit 26 t0;
          t1 = t1 + c;
          x1 = ucast t1 AND 0x3ffffff; b = ucast (drop_bit 26 t1) :: u32;
          t2 = t2 + ucast b;
          x2 = ucast t2 AND 0x3ffffff; b = ucast (drop_bit 26 t2) :: u32;
          t3 = t3 + ucast b;
          x3 = ucast t3 AND 0x3ffffff; b = ucast (drop_bit 26 t3) :: u32;
          t4 = t4 + ucast b;
          x4 = ucast t4 AND 0x3ffffff; b = ucast (drop_bit 26 t4) :: u32
      in state\<lparr>h0 := x0 + b * 5, h1 := x1, h2 := x2, h3 := x3, h4 := x4\<rparr>)"

text \<open>The loop by \<open>goto\<close> over the blocks of the input, then its final bytes.\<close>

function poly1305_update :: "poly1305_state \<Rightarrow> bytes \<Rightarrow> nat \<Rightarrow> poly1305_state" where
  "poly1305_update state inp len =
     (if len \<ge> 16 then
        poly1305_update (poly1305_donna_mul (add_block state inp (push_bit 24 1))) (drop 16 inp) (len - 16)
      else if len = 0 then state
      else poly1305_donna_mul (add_block state (take len inp @ [1] @ replicate (15 - len) 0) 0))"
  by pat_completeness auto

termination
  by (relation "measure (\<lambda>(state, inp, len). len)") auto

declare poly1305_update.simps [simp del]

text \<open>Initialising overwrites every field but the buffer, whose old content is the argument.\<close>

definition CRYPTO_poly1305_init :: "bytes \<Rightarrow> bytes \<Rightarrow> poly1305_state" where
  "CRYPTO_poly1305_init old_buf k =
     (let t0 = U8TO32_LE k;
          t1 = U8TO32_LE (drop 4 k);
          t2 = U8TO32_LE (drop 8 k);
          t3 = U8TO32_LE (drop 12 k);
          x0 = t0 AND 0x3ffffff;
          t0 = drop_bit 26 t0; t0 = t0 OR push_bit 6 t1;
          x1 = t0 AND 0x3ffff03;
          t1 = drop_bit 20 t1; t1 = t1 OR push_bit 12 t2;
          x2 = t1 AND 0x3ffc0ff;
          t2 = drop_bit 14 t2; t2 = t2 OR push_bit 18 t3;
          x3 = t2 AND 0x3f03fff;
          t3 = drop_bit 8 t3;
          x4 = t3 AND 0x00fffff
      in \<lparr>r0 = x0, r1 = x1, r2 = x2, r3 = x3, r4 = x4,
          s1 = x1 * 5, s2 = x2 * 5, s3 = x3 * 5, s4 = x4 * 5,
          h0 = 0, h1 = 0, h2 = 0, h3 = 0, h4 = 0,
          buf = old_buf, buf_used = 0, key = take 16 (drop 16 k)\<rparr>)"

text \<open>Filling the buffer first, then whole blocks from the input, then keeping the rest.\<close>

definition fill_buffer :: "poly1305_state \<Rightarrow> bytes \<Rightarrow> nat \<Rightarrow> poly1305_state \<times> bytes \<times> nat" where
  "fill_buffer state inp in_len =
     (if buf_used state \<noteq> 0 then
        let todo = min (16 - buf_used state) in_len;
            state = state\<lparr>buf := store_at (buf state) (buf_used state) (take todo inp),
                          buf_used := buf_used state + todo\<rparr>;
            state = (if buf_used state = 16 then (poly1305_update state (buf state) 16)\<lparr>buf_used := 0\<rparr> else state)
        in (state, drop todo inp, in_len - todo)
      else (state, inp, in_len))"

definition absorb_rest :: "poly1305_state \<Rightarrow> bytes \<Rightarrow> nat \<Rightarrow> poly1305_state" where
  "absorb_rest state inp in_len =
     (case (if in_len \<ge> 16 then
              let todo = in_len - in_len mod 16
              in (poly1305_update state inp todo, drop todo inp, in_len mod 16)
            else (state, inp, in_len)) of (state, inp, in_len) \<Rightarrow>
        if in_len \<noteq> 0 then state\<lparr>buf := store_at (buf state) 0 (take in_len inp), buf_used := in_len\<rparr>
        else state)"

definition CRYPTO_poly1305_update :: "poly1305_state \<Rightarrow> bytes \<Rightarrow> nat \<Rightarrow> poly1305_state" where
  "CRYPTO_poly1305_update state inp in_len =
     (case fill_buffer state inp in_len of (state, inp, in_len) \<Rightarrow> absorb_rest state inp in_len)"

text \<open>The carries of the end, the subtraction of the modulus, and the choice between the two.\<close>

definition carry_all :: "poly1305_state \<Rightarrow> poly1305_state" where
  "carry_all state =
     (let b = drop_bit 26 (h0 state); x0 = h0 state AND 0x3ffffff;
          x1 = h1 state + b; b = drop_bit 26 x1; x1 = x1 AND 0x3ffffff;
          x2 = h2 state + b; b = drop_bit 26 x2; x2 = x2 AND 0x3ffffff;
          x3 = h3 state + b; b = drop_bit 26 x3; x3 = x3 AND 0x3ffffff;
          x4 = h4 state + b; b = drop_bit 26 x4; x4 = x4 AND 0x3ffffff
      in state\<lparr>h0 := x0 + b * 5, h1 := x1, h2 := x2, h3 := x3, h4 := x4\<rparr>)"

definition subtract_modulus :: "poly1305_state \<Rightarrow> poly1305_state" where
  "subtract_modulus state =
     (let g0 = h0 state + 5; b = drop_bit 26 g0; g0 = g0 AND 0x3ffffff;
          g1 = h1 state + b; b = drop_bit 26 g1; g1 = g1 AND 0x3ffffff;
          g2 = h2 state + b; b = drop_bit 26 g2; g2 = g2 AND 0x3ffffff;
          g3 = h3 state + b; b = drop_bit 26 g3; g3 = g3 AND 0x3ffffff;
          g4 = h4 state + b - push_bit 26 1;
          b = drop_bit 31 g4 - 1;
          nb = NOT b
      in state\<lparr>h0 := (h0 state AND nb) OR (g0 AND b),
               h1 := (h1 state AND nb) OR (g1 AND b),
               h2 := (h2 state AND nb) OR (g2 AND b),
               h3 := (h3 state AND nb) OR (g3 AND b),
               h4 := (h4 state AND nb) OR (g4 AND b)\<rparr>)"

text \<open>The tag: the limbs packed into four words, to which the second half of the key is added.\<close>

definition poly1305_tag :: "poly1305_state \<Rightarrow> bytes" where
  "poly1305_tag state =
     (let f0 = ucast (h0 state OR push_bit 26 (h1 state)) + ucast (U8TO32_LE (key state)) :: u64;
          f1 = ucast (drop_bit 6 (h1 state) OR push_bit 20 (h2 state)) + ucast (U8TO32_LE (drop 4 (key state))) :: u64;
          f2 = ucast (drop_bit 12 (h2 state) OR push_bit 14 (h3 state)) + ucast (U8TO32_LE (drop 8 (key state))) :: u64;
          f3 = ucast (drop_bit 18 (h3 state) OR push_bit 8 (h4 state)) + ucast (U8TO32_LE (drop 12 (key state))) :: u64;
          m0 = U32TO8_LE (ucast f0);
          f1 = f1 + drop_bit 32 f0; m1 = U32TO8_LE (ucast f1);
          f2 = f2 + drop_bit 32 f1; m2 = U32TO8_LE (ucast f2);
          f3 = f3 + drop_bit 32 f2; m3 = U32TO8_LE (ucast f3)
      in m0 @ m1 @ m2 @ m3)"

definition CRYPTO_poly1305_finish :: "poly1305_state \<Rightarrow> bytes" where
  "CRYPTO_poly1305_finish state =
     (let state = (if buf_used state \<noteq> 0 then poly1305_update state (buf state) (buf_used state) else state)
      in poly1305_tag (subtract_modulus (carry_all state)))"

section \<open>The specification\<close>

text \<open>
  RFC 8439: the first half of the key, with some bits cleared, is the multiplier; the blocks of
  the message, each closed by a byte one, are the coefficients of a polynomial modulo
  \<open>2 ^ 130 - 5\<close>; the second half of the key is added to its value.
\<close>

abbreviation le_nat :: "bytes \<Rightarrow> nat" where
  "le_nat m \<equiv> be_nat (rev m)"

definition P1305 :: nat where
  "P1305 = 2 ^ 130 - 5"

definition clamped :: "bytes \<Rightarrow> nat" where
  "clamped k = le_nat (take 16 k) AND 0x0ffffffc0ffffffc0ffffffc0fffffff"

definition eat_block :: "nat \<Rightarrow> nat \<Rightarrow> bytes \<Rightarrow> nat" where
  "eat_block r acc m = (acc + le_nat (m @ [1])) * r mod P1305"

fun eat :: "nat \<Rightarrow> nat \<Rightarrow> bytes \<Rightarrow> nat" where
  "eat r acc m = (if m = [] then acc else eat r (eat_block r acc (take 16 m)) (drop 16 m))"

declare eat.simps [simp del]

definition poly1305_sum :: "bytes \<Rightarrow> bytes \<Rightarrow> nat" where
  "poly1305_sum k m = eat (clamped k) 0 m"

definition tag_of :: "bytes \<Rightarrow> nat \<Rightarrow> bytes" where
  "tag_of k acc = rev (be_bytes 16 (acc + le_nat (take 16 (drop 16 k))))"

definition poly1305_spec :: "bytes \<Rightarrow> bytes \<Rightarrow> bytes" where
  "poly1305_spec k m = tag_of k (poly1305_sum k m)"

end
