(* ===== verification/Poly1305_Limbs.thy ===== *)
theory Poly1305_Limbs
  imports Poly1305
begin

text \<open>
  The arithmetic of \<open>poly1305.c\<close> on limbs of 26 bits: the bounds under which no 32-bit or 64-bit
  operation wraps around, the multiplication as multiplication modulo \<open>2 ^ 130 - 5\<close>, the blocks of
  the message and the clamped key as limbs.
\<close>

section \<open>Limbs\<close>

definition limb_val :: "nat \<Rightarrow> nat \<Rightarrow> nat \<Rightarrow> nat \<Rightarrow> nat \<Rightarrow> nat" where
  "limb_val a0 a1 a2 a3 a4 = a0 + 2 ^ 26 * a1 + 2 ^ 52 * a2 + 2 ^ 78 * a3 + 2 ^ 104 * a4"

definition acc_val :: "poly1305_state \<Rightarrow> nat" where
  "acc_val s = limb_val (unat (h0 s)) (unat (h1 s)) (unat (h2 s)) (unat (h3 s)) (unat (h4 s))"

definition r_val :: "poly1305_state \<Rightarrow> nat" where
  "r_val s = limb_val (unat (r0 s)) (unat (r1 s)) (unat (r2 s)) (unat (r3 s)) (unat (r4 s))"

lemma product_columns:
  fixes h0 h1 h2 h3 h4 r0 r1 r2 r3 r4 :: nat
  shows "limb_val h0 h1 h2 h3 h4 * limb_val r0 r1 r2 r3 r4 =
    limb_val (h0 * r0 + h1 * (5 * r4) + h2 * (5 * r3) + h3 * (5 * r2) + h4 * (5 * r1))
      (h0 * r1 + h1 * r0 + h2 * (5 * r4) + h3 * (5 * r3) + h4 * (5 * r2))
      (h0 * r2 + h1 * r1 + h2 * r0 + h3 * (5 * r4) + h4 * (5 * r3))
      (h0 * r3 + h1 * r2 + h2 * r1 + h3 * r0 + h4 * (5 * r4))
      (h0 * r4 + h1 * r3 + h2 * r2 + h3 * r1 + h4 * r0) +
    P1305 * (h1 * r4 + h2 * r3 + h3 * r2 + h4 * r1 + 2 ^ 26 * (h2 * r4 + h3 * r3 + h4 * r2) +
      2 ^ 52 * (h3 * r4 + h4 * r3) + 2 ^ 78 * (h4 * r4))"
  unfolding limb_val_def P1305_def by (simp add: algebra_simps)

lemma columns_carried:
  assumes "t0 = x0 + 2 ^ 26 * c0" "t1 + c0 = x1 + 2 ^ 26 * c1" "t2 + c1 = x2 + 2 ^ 26 * c2"
    "t3 + c2 = x3 + 2 ^ 26 * c3" "t4 + c3 = x4 + 2 ^ 26 * (c4 :: nat)"
  shows "limb_val t0 t1 t2 t3 t4 = limb_val (x0 + c4 * 5) x1 x2 x3 x4 + P1305 * c4"
  using assms unfolding limb_val_def P1305_def by simp

lemma unat_add_no_overflow: "unat (a :: 'a::len word) + unat b < 2 ^ LENGTH('a) \<Longrightarrow> unat (a + b) = unat a + unat b"
  by (simp add: unat_word_ariths(1))

lemma unat_mul32x32_64 [simp]: "unat (mul32x32_64 a b) = unat a * unat b"
proof -
  have "unat a * unat b < 2 ^ 32 * 2 ^ 32"
    using unsigned_less [of a] unsigned_less [of b] by (intro mult_strict_mono) simp_all
  then show ?thesis by (simp add: mul32x32_64_def unat_word_ariths(2) unsigned_ucast_eq take_bit_nat_eq_self order_less_trans [OF unsigned_less])
qed

lemma unat_sum5:
  assumes "unat a + unat b + unat c + unat d + unat e < 2 ^ 64"
  shows "unat (a + b + c + d + e :: u64) = unat a + unat b + unat c + unat d + unat e"
  using assms by (simp add: unat_add_no_overflow)

lemma unat_and26 [simp]: "unat (w AND 0x3ffffff :: u32) = unat w mod 2 ^ 26"
proof -
  have "unat (w AND mask 26) = unat w mod 2 ^ 26"
    by (simp only: take_bit_eq_mask [symmetric] unsigned_take_bit_eq) (simp add: take_bit_eq_mod)
  then show ?thesis by (simp add: mask_eq_exp_minus_1)
qed

lemma unat_low26 [simp]: "unat (ucast (t :: u64) AND 0x3ffffff :: u32) = unat t mod 2 ^ 26"
  by (simp add: unsigned_ucast_eq take_bit_eq_mod mod_mod_cancel)

lemma unat_carry:
  assumes "unat (t :: u64) < 2 ^ 58"
  shows "unat (ucast (drop_bit 26 t) :: u32) = unat t div 2 ^ 26"
proof -
  have "unat (drop_bit 26 t) = unat t div 2 ^ 26" by (simp only: unat_drop_bit_eq) (simp only: drop_bit_eq_div)
  moreover have "unat t div 2 ^ 26 < 2 ^ 32" using assms by (simp add: less_mult_imp_div_less)
  ultimately show ?thesis by (simp only: unsigned_ucast_eq) (simp add: take_bit_nat_eq_self)
qed

text \<open>
  The bounds that keep every 32-bit and 64-bit operation from wrapping around: the multiplier
  has the bits of the clamp, and the lowest limb of the accumulator may exceed 26 bits.
\<close>

definition key_ok :: "poly1305_state \<Rightarrow> bool" where
  "key_ok s \<longleftrightarrow> unat (r0 s) \<le> 0x3ffffff \<and> unat (r1 s) \<le> 0x3ffff03 \<and> unat (r2 s) \<le> 0x3ffc0ff \<and>
    unat (r3 s) \<le> 0x3f03fff \<and> unat (r4 s) \<le> 0xfffff \<and>
    unat (s1 s) = 5 * unat (r1 s) \<and> unat (s2 s) = 5 * unat (r2 s) \<and> unat (s3 s) = 5 * unat (r3 s) \<and>
    unat (s4 s) = 5 * unat (r4 s)"

definition acc_ok :: "poly1305_state \<Rightarrow> bool" where
  "acc_ok s \<longleftrightarrow> unat (h0 s) \<le> 2800000000 \<and> unat (h1 s) < 2 ^ 26 \<and> unat (h2 s) < 2 ^ 26 \<and>
    unat (h3 s) < 2 ^ 26 \<and> unat (h4 s) < 2 ^ 26"

definition sum_ok :: "poly1305_state \<Rightarrow> bool" where
  "sum_ok s \<longleftrightarrow> unat (h0 s) \<le> 2867108863 \<and> unat (h1 s) \<le> 134217726 \<and> unat (h2 s) \<le> 134217726 \<and>
    unat (h3 s) \<le> 134217726 \<and> unat (h4 s) \<le> 100663294"

text \<open>The columns as natural numbers, with their bounds.\<close>

lemma column:
  assumes "unat a \<le> A" "unat b \<le> B" "unat c \<le> C" "unat d \<le> D" "unat e \<le> E"
    and "unat a' \<le> A'" "unat b' \<le> B'" "unat c' \<le> C'" "unat d' \<le> D'" "unat e' \<le> E'"
    and "A * A' + B * B' + C * C' + D * D' + E * E' < 2 ^ 64"
  shows "unat (mul32x32_64 a a' + mul32x32_64 b b' + mul32x32_64 c c' + mul32x32_64 d d' + mul32x32_64 e e') =
      unat a * unat a' + unat b * unat b' + unat c * unat c' + unat d * unat d' + unat e * unat e'"
    and "unat a * unat a' + unat b * unat b' + unat c * unat c' + unat d * unat d' + unat e * unat e'
      \<le> A * A' + B * B' + C * C' + D * D' + E * E'"
proof -
  show le: "unat a * unat a' + unat b * unat b' + unat c * unat c' + unat d * unat d' + unat e * unat e'
      \<le> A * A' + B * B' + C * C' + D * D' + E * E'"
    by (intro add_mono mult_le_mono assms)
  then show "unat (mul32x32_64 a a' + mul32x32_64 b b' + mul32x32_64 c c' + mul32x32_64 d d' + mul32x32_64 e e') =
      unat a * unat a' + unat b * unat b' + unat c * unat c' + unat d * unat d' + unat e * unat e'"
    by (subst unat_sum5; simp only: unat_mul32x32_64 order_le_less_trans [OF le assms(11)])
qed

lemma mul_columns_nat:
  assumes "key_ok s" "sum_ok s" "mul_columns s = (t0, t1, t2, t3, t4)"
  shows "acc_val s * r_val s mod P1305 = limb_val (unat t0) (unat t1) (unat t2) (unat t3) (unat t4) mod P1305"
    and "unat t0 \<le> 316257446078931969" and "unat t1 \<le> 280230760287423261" and "unat t2 \<le> 244337702868428049"
    and "unat t3 \<le> 216996172601730057" and "unat t4 \<le> 36642637891724289"
proof -
  note b = assms(1,2) [unfolded key_ok_def sum_ok_def]
  have s: "unat (s1 s) = 5 * unat (r1 s)" "unat (s2 s) = 5 * unat (r2 s)" "unat (s3 s) = 5 * unat (r3 s)"
    "unat (s4 s) = 5 * unat (r4 s)" using b by simp_all
  have sb: "unat (s1 s) \<le> 335543055" "unat (s2 s) \<le> 335463675" "unat (s3 s) \<le> 330383355"
    "unat (s4 s) \<le> 5242875" using b by simp_all
  have rb: "unat (r0 s) \<le> 67108863" "unat (r1 s) \<le> 67108611" "unat (r2 s) \<le> 67092735"
    "unat (r3 s) \<le> 66076671" "unat (r4 s) \<le> 1048575" using b by simp_all
  have hb: "unat (h0 s) \<le> 2867108863" "unat (h1 s) \<le> 134217726" "unat (h2 s) \<le> 134217726"
    "unat (h3 s) \<le> 134217726" "unat (h4 s) \<le> 100663294" using b by simp_all
  note cols = assms(3) [unfolded mul_columns_def prod.inject]
  note c0 = column [OF hb rb(1) sb(4,3,2,1), simplified]
  note c1 = column [OF hb rb(2,1) sb(4,3,2), simplified]
  note c2 = column [OF hb rb(3,2,1) sb(4,3), simplified]
  note c3 = column [OF hb rb(4,3,2,1) sb(4), simplified]
  note c4 = column [OF hb rb(5,4,3,2,1), simplified]
  note t = c0(1) [unfolded conjunct1 [OF cols]] c1(1) [unfolded conjunct1 [OF conjunct2 [OF cols]]]
    c2(1) [unfolded conjunct1 [OF conjunct2 [OF conjunct2 [OF cols]]]]
    c3(1) [unfolded conjunct1 [OF conjunct2 [OF conjunct2 [OF conjunct2 [OF cols]]]]]
    c4(1) [unfolded conjunct2 [OF conjunct2 [OF conjunct2 [OF conjunct2 [OF cols]]]]]
  show "acc_val s * r_val s mod P1305 = limb_val (unat t0) (unat t1) (unat t2) (unat t3) (unat t4) mod P1305"
    unfolding acc_val_def r_val_def product_columns t s by simp
  show "unat t0 \<le> 316257446078931969" using c0(2) t(1) by simp
  show "unat t1 \<le> 280230760287423261" using c1(2) t(2) by simp
  show "unat t2 \<le> 244337702868428049" using c2(2) t(3) by simp
  show "unat t3 \<le> 216996172601730057" using c3(2) t(4) by simp
  show "unat t4 \<le> 36642637891724289" using c4(2) t(5) by simp
qed


text \<open>One carry: what stays in the limb and what goes to the next one.\<close>

lemma carry_step:
  assumes "unat (t :: u64) + unat (c :: u64) < 2 ^ 58"
    and "x = ucast (t + c) AND 0x3ffffff" "b = ucast (drop_bit 26 (t + c))"
  shows "unat t + unat c = unat (x :: u32) + 2 ^ 26 * unat (b :: u32)" "unat x < 2 ^ 26"
    and "unat (ucast b :: u64) * 2 ^ 26 \<le> unat t + unat c" "unat (ucast b :: u64) = unat b"
proof -
  have t: "unat (t + c) = unat t + unat c" using assms(1) by (simp add: unat_add_no_overflow)
  have x: "unat x = (unat t + unat c) mod 2 ^ 26" unfolding assms(2) unat_low26 t by simp
  have b: "unat b = (unat t + unat c) div 2 ^ 26" unfolding assms(3) using assms(1) t by (simp only: unat_carry)
  show "unat (ucast b :: u64) = unat b"
    by (simp add: unsigned_ucast_eq take_bit_nat_eq_self order_less_trans [OF unsigned_less])
  then show "unat (ucast b :: u64) * 2 ^ 26 \<le> unat t + unat c" unfolding b by simp
  show "unat t + unat c = unat x + 2 ^ 26 * unat b" "unat x < 2 ^ 26" unfolding x b by simp_all
qed

lemma poly1305_donna_mul_correct:
  assumes "key_ok s" "sum_ok s"
  shows "acc_ok (poly1305_donna_mul s)" "acc_val (poly1305_donna_mul s) mod P1305 = acc_val s * r_val s mod P1305"
proof -
  obtain t0 t1 t2 t3 t4 where t: "mul_columns s = (t0, t1, t2, t3, t4)" by (rule prod_cases5)
  note cols = mul_columns_nat [OF assms t]
  define c0 where "c0 = drop_bit 26 t0"
  define x0 :: u32 where "x0 = ucast t0 AND 0x3ffffff"
  have x0: "unat t0 = unat x0 + 2 ^ 26 * unat c0" "unat x0 < 2 ^ 26"
  proof -
    have "unat c0 = unat t0 div 2 ^ 26" unfolding c0_def by (simp only: unat_drop_bit_eq) (simp only: drop_bit_eq_div)
    then show "unat t0 = unat x0 + 2 ^ 26 * unat c0" "unat x0 < 2 ^ 26" unfolding x0_def unat_low26 by simp_all
  qed
  define x1 b1 where "x1 = (ucast (t1 + c0) AND 0x3ffffff :: u32)" and "b1 = (ucast (drop_bit 26 (t1 + c0)) :: u32)"
  have s1: "unat t1 + unat c0 < 2 ^ 58" using x0(1) cols(2,3) by simp
  note k1 = carry_step [OF s1 x1_def b1_def]
  define x2 b2 where "x2 = (ucast (t2 + ucast b1) AND 0x3ffffff :: u32)" and "b2 = (ucast (drop_bit 26 (t2 + ucast b1)) :: u32)"
  have s2: "unat t2 + unat (ucast b1 :: u64) < 2 ^ 58" using k1(3) s1 cols(4) by simp
  note k2 = carry_step [OF s2 x2_def b2_def]
  define x3 b3 where "x3 = (ucast (t3 + ucast b2) AND 0x3ffffff :: u32)" and "b3 = (ucast (drop_bit 26 (t3 + ucast b2)) :: u32)"
  have s3: "unat t3 + unat (ucast b2 :: u64) < 2 ^ 58" using k2(3) s2 cols(5) by simp
  note k3 = carry_step [OF s3 x3_def b3_def]
  define x4 b4 where "x4 = (ucast (t4 + ucast b3) AND 0x3ffffff :: u32)" and "b4 = (ucast (drop_bit 26 (t4 + ucast b3)) :: u32)"
  have b3: "unat (ucast b3 :: u64) < 2 ^ 32" using k3(3) s3 by simp
  have s4: "unat t4 + unat (ucast b3 :: u64) < 2 ^ 58" using b3 cols(6) by simp
  note k4 = carry_step [OF s4 x4_def b4_def]
  have b4: "unat b4 \<le> 546020000" using k4(3,4) b3 cols(6) by simp
  have m: "poly1305_donna_mul s = s\<lparr>h0 := x0 + b4 * 5, h1 := x1, h2 := x2, h3 := x3, h4 := x4\<rparr>"
    unfolding poly1305_donna_mul_def t by (simp add: Let_def x0_def c0_def x1_def b1_def x2_def b2_def x3_def b3_def x4_def b4_def)
  have b5: "unat (b4 * 5) = unat b4 * 5" using b4 by (simp add: unat_word_ariths(2))
  have h: "unat (x0 + b4 * 5) = unat x0 + unat b4 * 5"
    by (subst unat_add_no_overflow) (use b4 b5 x0(2) in simp_all)
  show "acc_ok (poly1305_donna_mul s)"
    using b4 x0(2) k1(2) k2(2) k3(2) k4(2) by (simp add: m acc_ok_def h)
  have "limb_val (unat t0) (unat t1) (unat t2) (unat t3) (unat t4) =
      limb_val (unat x0 + unat b4 * 5) (unat x1) (unat x2) (unat x3) (unat x4) + P1305 * unat b4"
    using columns_carried [OF x0(1) k1(1) k2(1) [unfolded k1(4)] k3(1) [unfolded k2(4)] k4(1) [unfolded k3(4)]] .
  then show "acc_val (poly1305_donna_mul s) mod P1305 = acc_val s * r_val s mod P1305"
    unfolding cols(1) by (simp add: m acc_val_def h)
qed

section \<open>Blocks of bytes as limbs\<close>

lemma unat_U8TO32_LE: "unat (U8TO32_LE m) = le_nat (take 4 m)"
proof -
  have "be_nat (rev (take 4 m)) < 256 ^ 4"
    using be_nat_less [of "rev (take 4 m)"] by (rule order_less_le_trans) (rule power_increasing; simp)
  then show ?thesis by (simp add: U8TO32_LE_def unat_of_nat)
qed

lemma le_nat_words:
  assumes "16 \<le> length m"
  shows "le_nat (take 16 m) = unat (U8TO32_LE m) + 2 ^ 32 * unat (U8TO32_LE (drop 4 m)) +
    2 ^ 64 * unat (U8TO32_LE (drop 8 m)) + 2 ^ 96 * unat (U8TO32_LE (drop 12 m))"
proof -
  have "take 16 m = take 4 m @ take 4 (drop 4 m) @ take 4 (drop 8 m) @ take 4 (drop 12 m)"
    using take_add [of 12 4 m] take_add [of 8 4 m] take_add [of 4 4 m] by simp
  then show ?thesis using assms by (simp add: unat_U8TO32_LE be_nat_append)
qed

lemma unat_limb_between: "unat (limb_between hi lo n) = (unat hi * 2 ^ 32 + unat lo) div 2 ^ n mod 2 ^ 26"
proof -
  let ?w = "push_bit 32 (ucast hi) OR ucast lo :: u64"
  have lo: "unat (ucast lo :: u64) = unat lo" and hi: "unat (ucast hi :: u64) = unat hi"
    by (simp_all add: unsigned_ucast_eq take_bit_nat_eq_self order_less_trans [OF unsigned_less])
  have b: "unat lo < 2 ^ 32" "unat hi < 2 ^ 32" using unsigned_less [of lo] unsigned_less [of hi] by simp_all
  have "unat ?w = (unat hi * 2 ^ 32 + unat lo) mod 2 ^ 64"
    using unat_push_bit_or [of "ucast lo :: u64" 32 "ucast hi"] b by (simp add: lo hi)
  then have w: "unat ?w = unat hi * 2 ^ 32 + unat lo" using b by simp
  have "unat (drop_bit n ?w) = (unat hi * 2 ^ 32 + unat lo) div 2 ^ n"
    by (simp only: unat_drop_bit_eq w) (simp only: drop_bit_eq_div)
  moreover have "ucast (x AND 0x3ffffff) = (ucast x AND 0x3ffffff :: u32)" for x :: u64
    by (rule bit_word_eqI) (auto simp: bit_simps)
  ultimately show ?thesis unfolding limb_between_def by (simp only: unat_low26)
qed

lemma between_part:
  fixes lo hi N K L :: nat
  assumes "lo < K * N" "0 < N"
  shows "(hi * (K * N) + lo) div N mod (K * L) = hi mod L * K + lo div N"
proof -
  have q: "lo div N < K" using assms by (simp add: less_mult_imp_div_less)
  have "(hi * (K * N) + lo) div N = hi * K + lo div N"
    using assms(2) div_mult_self4 [of N "hi * K" lo] by (simp add: ac_simps)
  then show ?thesis using q by (simp add: mod_mult2_eq)
qed

lemma between_parts:
  fixes lo hi :: nat
  assumes "lo < 2 ^ 32"
  shows "(hi * 2 ^ 32 + lo) div 2 ^ 26 mod 2 ^ 26 = (hi mod 2 ^ 20) * 2 ^ 6 + lo div 2 ^ 26"
    and "(hi * 2 ^ 32 + lo) div 2 ^ 20 mod 2 ^ 26 = (hi mod 2 ^ 14) * 2 ^ 12 + lo div 2 ^ 20"
    and "(hi * 2 ^ 32 + lo) div 2 ^ 14 mod 2 ^ 26 = (hi mod 2 ^ 8) * 2 ^ 18 + lo div 2 ^ 14"
proof -
  have p: "(2 :: nat) ^ 32 = 2 ^ 6 * 2 ^ 26" "(2 :: nat) ^ 32 = 2 ^ 12 * 2 ^ 20" "(2 :: nat) ^ 32 = 2 ^ 18 * 2 ^ 14"
    "(2 :: nat) ^ 26 = 2 ^ 6 * 2 ^ 20" "(2 :: nat) ^ 26 = 2 ^ 12 * 2 ^ 14" "(2 :: nat) ^ 26 = 2 ^ 18 * 2 ^ 8"
    by (simp_all flip: power_add)
  show "(hi * 2 ^ 32 + lo) div 2 ^ 26 mod 2 ^ 26 = (hi mod 2 ^ 20) * 2 ^ 6 + lo div 2 ^ 26"
    using between_part [of lo "2 ^ 6" "2 ^ 26" hi "2 ^ 20"] assms unfolding p(1,4) [symmetric] by (simp only: zero_less_power zero_less_numeral)
  show "(hi * 2 ^ 32 + lo) div 2 ^ 20 mod 2 ^ 26 = (hi mod 2 ^ 14) * 2 ^ 12 + lo div 2 ^ 20"
    using between_part [of lo "2 ^ 12" "2 ^ 20" hi "2 ^ 14"] assms unfolding p(2,5) [symmetric] by (simp only: zero_less_power zero_less_numeral)
  show "(hi * 2 ^ 32 + lo) div 2 ^ 14 mod 2 ^ 26 = (hi mod 2 ^ 8) * 2 ^ 18 + lo div 2 ^ 14"
    using between_part [of lo "2 ^ 18" "2 ^ 14" hi "2 ^ 8"] assms unfolding p(3,6) [symmetric] by (simp only: zero_less_power zero_less_numeral)
qed

lemma limbs_of_words:
  fixes t0 t1 t2 t3 :: nat
  assumes "t0 < 2 ^ 32" "t1 < 2 ^ 32" "t2 < 2 ^ 32"
  shows "limb_val (t0 mod 2 ^ 26) ((t1 * 2 ^ 32 + t0) div 2 ^ 26 mod 2 ^ 26) ((t2 * 2 ^ 32 + t1) div 2 ^ 20 mod 2 ^ 26)
      ((t3 * 2 ^ 32 + t2) div 2 ^ 14 mod 2 ^ 26) (t3 div 2 ^ 8) = t0 + 2 ^ 32 * t1 + 2 ^ 64 * t2 + 2 ^ 96 * t3"
proof -
  have d: "t0 = t0 div 2 ^ 26 * 2 ^ 26 + t0 mod 2 ^ 26" "t1 = t1 div 2 ^ 20 * 2 ^ 20 + t1 mod 2 ^ 20"
    "t2 = t2 div 2 ^ 14 * 2 ^ 14 + t2 mod 2 ^ 14" "t3 = t3 div 2 ^ 8 * 2 ^ 8 + t3 mod 2 ^ 8" by simp_all
  define a0 b0 a1 b1 a2 b2 a3 b3 where "a0 = t0 div 2 ^ 26" "b0 = t0 mod 2 ^ 26" "a1 = t1 div 2 ^ 20" "b1 = t1 mod 2 ^ 20"
    "a2 = t2 div 2 ^ 14" "b2 = t2 mod 2 ^ 14" "a3 = t3 div 2 ^ 8" "b3 = t3 mod 2 ^ 8"
  note f = this
  from d have e: "t0 = a0 * 2 ^ 26 + b0" "t1 = a1 * 2 ^ 20 + b1" "t2 = a2 * 2 ^ 14 + b2" "t3 = a3 * 2 ^ 8 + b3"
    unfolding f by simp_all
  show ?thesis unfolding between_parts(1) [OF assms(1)] between_parts(2) [OF assms(2)] between_parts(3) [OF assms(3)]
    unfolding f [symmetric] limb_val_def using e by simp
qed

lemma add_mod_bounds:
  fixes a N x :: nat
  shows "a + 67108864 \<le> N \<Longrightarrow> a + x mod 67108864 < N" "a + 67108863 \<le> N \<Longrightarrow> a + x mod 67108864 \<le> N"
  using mod_less_divisor [of 67108864 x] by linarith+

text \<open>The block and the bit above it, added to the accumulator without overflow.\<close>

lemma add_block_correct:
  assumes "acc_ok s" "16 \<le> length m" "hibit = 0 \<or> hibit = push_bit 24 1"
  shows "sum_ok (add_block s m hibit)"
    "acc_val (add_block s m hibit) = acc_val s + le_nat (take 16 m) + 2 ^ 104 * unat hibit"
proof -
  let ?t0 = "U8TO32_LE m" and ?t1 = "U8TO32_LE (drop 4 m)" and ?t2 = "U8TO32_LE (drop 8 m)" and ?t3 = "U8TO32_LE (drop 12 m)"
  have lt: "unat w < 2 ^ 32" for w :: u32 using unsigned_less [of w] by simp
  have l0: "unat (?t0 AND 0x3ffffff) = unat ?t0 mod 2 ^ 26"
    by (rule unat_and26)
  have dl: "unat (drop_bit 8 ?t3) = unat ?t3 div 2 ^ 8" by (simp only: unat_drop_bit_eq) (simp only: drop_bit_eq_div)
  have d: "unat (drop_bit 8 ?t3) < 2 ^ 24" unfolding dl using lt [of ?t3] by (simp add: less_mult_imp_div_less)
  have hb: "unat hibit \<le> 2 ^ 24" using assms(3) by (auto simp: push_bit_eq_mult)
  have l4: "unat (drop_bit 8 ?t3 OR hibit) = unat ?t3 div 2 ^ 8 + unat hibit"
    using assms(3) unat_push_bit_or [OF d, of 1] d by (auto simp: dl or.commute push_bit_eq_mult)
  note b = assms(1) [unfolded acc_ok_def]
  have h: "unat (h0 s + (?t0 AND 0x3ffffff)) = unat (h0 s) + unat ?t0 mod 2 ^ 26"
    "unat (h1 s + limb_between ?t1 ?t0 26) = unat (h1 s) + (unat ?t1 * 2 ^ 32 + unat ?t0) div 2 ^ 26 mod 2 ^ 26"
    "unat (h2 s + limb_between ?t2 ?t1 20) = unat (h2 s) + (unat ?t2 * 2 ^ 32 + unat ?t1) div 2 ^ 20 mod 2 ^ 26"
    "unat (h3 s + limb_between ?t3 ?t2 14) = unat (h3 s) + (unat ?t3 * 2 ^ 32 + unat ?t2) div 2 ^ 14 mod 2 ^ 26"
    "unat (h4 s + (drop_bit 8 ?t3 OR hibit)) = unat (h4 s) + (unat ?t3 div 2 ^ 8 + unat hibit)"
    subgoal by (subst unat_add_no_overflow; simp only: l0) (use b in \<open>simp add: add_mod_bounds\<close>)
    subgoal by (subst unat_add_no_overflow; simp only: unat_limb_between) (use b in \<open>simp add: add_mod_bounds\<close>)
    subgoal by (subst unat_add_no_overflow; simp only: unat_limb_between) (use b in \<open>simp add: add_mod_bounds\<close>)
    subgoal by (subst unat_add_no_overflow; simp only: unat_limb_between) (use b in \<open>simp add: add_mod_bounds\<close>)
    subgoal by (subst unat_add_no_overflow; simp only: l4) (use b d hb in \<open>simp add: dl\<close>)
    done
  show "sum_ok (add_block s m hibit)"
    using b d [unfolded dl] hb
    by (simp add: add_mod_bounds add_block_def sum_ok_def Let_def h)
  show "acc_val (add_block s m hibit) = acc_val s + le_nat (take 16 m) + 2 ^ 104 * unat hibit"
    unfolding le_nat_words [OF assms(2)] limbs_of_words [OF lt lt lt, symmetric]
    by (simp add: add_block_def acc_val_def Let_def h) (simp add: limb_val_def)
qed

section \<open>The key\<close>

lemma nat_and_split:
  assumes "a < 2 ^ n" "c < (2 :: nat) ^ n"
  shows "(a + 2 ^ n * b) AND (c + 2 ^ n * d) = (a AND c) + 2 ^ n * (b AND d)"
proof -
  have p: "drop_bit n (x + 2 ^ n * y) = y" "take_bit n (x + 2 ^ n * y) = x" if "x < 2 ^ n" for x y :: nat
    using that by (simp_all add: drop_bit_eq_div take_bit_eq_mod)
  have "push_bit n (drop_bit n ((a + 2 ^ n * b) AND (c + 2 ^ n * d))) + take_bit n ((a + 2 ^ n * b) AND (c + 2 ^ n * d)) =
    push_bit n (b AND d) + (a AND c)"
    by (simp only: drop_bit_and take_bit_and p assms)
  then show ?thesis unfolding bits_ident by (simp add: push_bit_eq_mult ac_simps)
qed

lemma bits32I:
  assumes "list_all (\<lambda>n. bit a n \<longleftrightarrow> bit b n)
    [0, 1, 2, 3, 4, 5, 6, 7, 8, 9, 10, 11, 12, 13, 14, 15, 16, 17, 18, 19, 20, 21, 22, 23, 24, 25, 26, 27, 28, 29, 30, 31]"
  shows "a = (b :: u32)"
proof (rule bit_word_eqI)
  have "[0, 1, 2, 3, 4, 5, 6, 7, 8, 9, 10, 11, 12, 13, 14, 15, 16, 17, 18, 19, 20, 21, 22, 23, 24, 25, 26, 27, 28, 29, 30, 31]
    = [0..<32]" by (simp add: upt_rec)
  from assms [unfolded this] have "list_all (\<lambda>n. bit a n \<longleftrightarrow> bit b n) [0..<32]" .
  then show "bit a n \<longleftrightarrow> bit b n" if "n < LENGTH(32)" for n using that by (auto simp: list_all_iff)
qed

lemma not_bit32: "32 \<le> n \<Longrightarrow> \<not> bit (w :: u32) n"
  using bit_imp_le_length [of w n] by auto

lemma clamped_limbs:
  fixes t0 t1 t2 t3 :: u32
  shows "t0 AND 0x3ffffff = (t0 AND 0x0fffffff) AND 0x3ffffff"
    and "(drop_bit 26 t0 OR push_bit 6 t1) AND 0x3ffff03 = limb_between (t1 AND 0x0ffffffc) (t0 AND 0x0fffffff) 26"
    and "(drop_bit 20 t1 OR push_bit 12 t2) AND 0x3ffc0ff = limb_between (t2 AND 0x0ffffffc) (t1 AND 0x0ffffffc) 20"
    and "(drop_bit 14 t2 OR push_bit 18 t3) AND 0x3f03fff = limb_between (t3 AND 0x0ffffffc) (t2 AND 0x0ffffffc) 14"
    and "drop_bit 8 t3 AND 0xfffff = drop_bit 8 (t3 AND 0x0ffffffc)"
  by (rule bits32I; simp only: list.pred_inject; simp add: bit_simps limb_between_def not_bit32)+

lemma unat_and_le: "unat (w AND c :: u32) \<le> unat c"
  using word_and_le1 [of w c] by (simp add: word_le_nat_alt)


text \<open>The multiplier read from the key is the clamped number of its first sixteen bytes.\<close>

lemma CRYPTO_poly1305_init_correct:
  assumes "length k = 32"
  shows "key_ok (CRYPTO_poly1305_init ob k)" "acc_ok (CRYPTO_poly1305_init ob k)"
    "acc_val (CRYPTO_poly1305_init ob k) = 0" "r_val (CRYPTO_poly1305_init ob k) = clamped k"
proof -
  let ?s = "CRYPTO_poly1305_init ob k"
  let ?t0 = "U8TO32_LE k" and ?t1 = "U8TO32_LE (drop 4 k)" and ?t2 = "U8TO32_LE (drop 8 k)" and ?t3 = "U8TO32_LE (drop 12 k)"
  let ?c0 = "?t0 AND 0x0fffffff" and ?c1 = "?t1 AND 0x0ffffffc" and ?c2 = "?t2 AND 0x0ffffffc" and ?c3 = "?t3 AND 0x0ffffffc"
  have r: "r0 ?s = ?t0 AND 0x3ffffff" "r1 ?s = (drop_bit 26 ?t0 OR push_bit 6 ?t1) AND 0x3ffff03"
    "r2 ?s = (drop_bit 20 ?t1 OR push_bit 12 ?t2) AND 0x3ffc0ff" "r3 ?s = (drop_bit 14 ?t2 OR push_bit 18 ?t3) AND 0x3f03fff"
    "r4 ?s = drop_bit 8 ?t3 AND 0xfffff"
    by (simp_all add: CRYPTO_poly1305_init_def Let_def)
  have s: "s1 ?s = r1 ?s * 5" "s2 ?s = r2 ?s * 5" "s3 ?s = r3 ?s * 5" "s4 ?s = r4 ?s * 5"
    by (simp_all add: CRYPTO_poly1305_init_def Let_def)
  have b: "unat (r0 ?s) \<le> 0x3ffffff" "unat (r1 ?s) \<le> 0x3ffff03" "unat (r2 ?s) \<le> 0x3ffc0ff"
    "unat (r3 ?s) \<le> 0x3f03fff" "unat (r4 ?s) \<le> 0xfffff"
    unfolding r by (rule order_trans [OF unat_and_le]; simp)+
  have five: "unat (w * 5) = 5 * unat w" if "unat w \<le> 0x3ffffff" for w :: u32
    using that by (simp add: unat_word_ariths(2))
  show "key_ok ?s" using b unfolding key_ok_def s by (simp add: five)
  show "acc_ok ?s" "acc_val ?s = 0" by (simp_all add: CRYPTO_poly1305_init_def Let_def acc_ok_def acc_val_def limb_val_def)
  have lt: "unat w < 2 ^ 32" for w :: u32 using unsigned_less [of w] by simp
  have d: "unat (drop_bit 8 w) = unat w div 2 ^ 8" for w :: u32
    by (simp only: unat_drop_bit_eq) (simp only: drop_bit_eq_div)
  have c: "r0 ?s = ?c0 AND 0x3ffffff" "r1 ?s = limb_between ?c1 ?c0 26" "r2 ?s = limb_between ?c2 ?c1 20"
    "r3 ?s = limb_between ?c3 ?c2 14" "r4 ?s = drop_bit 8 ?c3"
    unfolding r by (rule clamped_limbs)+
  have "r_val ?s = unat ?c0 + 2 ^ 32 * unat ?c1 + 2 ^ 64 * unat ?c2 + 2 ^ 96 * unat ?c3"
    unfolding r_val_def c unat_and26 unat_limb_between d by (rule limbs_of_words [OF lt lt lt])
  also have "\<dots> = unat ?c0 + 2 ^ 32 * (unat ?c1 + 2 ^ 32 * (unat ?c2 + 2 ^ 32 * unat ?c3))" by simp
  also have "\<dots> = (unat ?t0 + 2 ^ 32 * (unat ?t1 + 2 ^ 32 * (unat ?t2 + 2 ^ 32 * unat ?t3))) AND
      (0x0fffffff + 2 ^ 32 * (0x0ffffffc + 2 ^ 32 * (0x0ffffffc + 2 ^ 32 * 0x0ffffffc)))"
    by (subst nat_and_split [OF lt], simp)+ (simp only: unsigned_and_eq, simp)
  also have "unat ?t0 + 2 ^ 32 * (unat ?t1 + 2 ^ 32 * (unat ?t2 + 2 ^ 32 * unat ?t3)) = le_nat (take 16 k)"
    using le_nat_words [of k] assms by simp
  also have "0x0fffffff + 2 ^ 32 * (0x0ffffffc + 2 ^ 32 * (0x0ffffffc + 2 ^ 32 * 0x0ffffffc)) =
      (0x0ffffffc0ffffffc0ffffffc0fffffff :: nat)" by simp
  also have "le_nat (take 16 k) AND 0x0ffffffc0ffffffc0ffffffc0fffffff = clamped k" by (simp only: clamped_def)
  finally show "r_val ?s = clamped k" .
qed

end
