(* ===== verification/Poly1305_Finish.thy ===== *)
theory Poly1305_Finish
  imports Poly1305_Limbs
begin

text \<open>
  The end of the computation: the carries, the reduction by a masked choice, and the packing of
  the limbs into the bytes of the tag, which loses a carry left in the lowest limb.
\<close>

section \<open>The end\<close>

lemma unat_carry32: "unat (w AND 0x3ffffff :: u32) + 2 ^ 26 * unat (drop_bit 26 w) = unat w"
proof -
  have "unat (drop_bit 26 w) = unat w div 2 ^ 26" by (simp only: unat_drop_bit_eq) (simp only: drop_bit_eq_div)
  then show ?thesis by (simp add: mod_mult_div_eq)
qed

text \<open>Adding a carry to a limb and splitting the sum again.\<close>

lemma limb_carry:
  assumes "unat (h :: u32) < 2 ^ 26" "unat (b :: u32) < 2 ^ 26" "x = (h + b) AND 0x3ffffff" "c = drop_bit 26 (h + b)"
  shows "unat h + unat b = unat x + 2 ^ 26 * unat c" "unat x < 2 ^ 26" "unat c \<le> 1"
proof -
  have s: "unat (h + b) = unat h + unat b" using assms(1,2) by (simp add: unat_add_no_overflow)
  show e: "unat h + unat b = unat x + 2 ^ 26 * unat c"
    using unat_carry32 [of "h + b"] unfolding assms(3,4) s by simp
  show "unat x < 2 ^ 26" unfolding assms(3) by simp
  show "unat c \<le> 1" using e assms(1,2) by simp
qed

definition normal :: "poly1305_state \<Rightarrow> bool" where
  "normal s \<longleftrightarrow> unat (h0 s) < 2 ^ 26 \<and> unat (h1 s) < 2 ^ 26 \<and> unat (h2 s) < 2 ^ 26 \<and> unat (h3 s) < 2 ^ 26 \<and> unat (h4 s) < 2 ^ 26"

text \<open>The carry out of the top limb goes into the lowest, and not further.\<close>

definition spilled :: "poly1305_state \<Rightarrow> bool" where
  "spilled s \<longleftrightarrow> 2 ^ 26 \<le> unat (h0 s) \<and> unat (h0 s) < 2 ^ 26 + 5 \<and> unat (h1 s) \<le> 40 \<and> h2 s = 0 \<and> h3 s = 0 \<and> h4 s = 0"

lemma carry_all_correct:
  assumes "acc_ok s"
  shows "normal (carry_all s) \<or> spilled (carry_all s)" "acc_val (carry_all s) mod P1305 = acc_val s mod P1305"
proof -
  note ok = assms [unfolded acc_ok_def]
  define x0 b0 where "x0 = h0 s AND 0x3ffffff" and "b0 = drop_bit 26 (h0 s)"
  have k0: "unat (h0 s) = unat x0 + 2 ^ 26 * unat b0" "unat x0 < 2 ^ 26"
    using unat_carry32 [of "h0 s"] unfolding x0_def b0_def by simp_all
  have b0: "unat b0 \<le> 41" using k0(1) ok by simp
  define x1 b1 where "x1 = (h1 s + b0) AND 0x3ffffff" and "b1 = drop_bit 26 (h1 s + b0)"
  note k1 = limb_carry [OF _ _ x1_def b1_def]
  define x2 b2 where "x2 = (h2 s + b1) AND 0x3ffffff" and "b2 = drop_bit 26 (h2 s + b1)"
  note k2 = limb_carry [OF _ _ x2_def b2_def]
  define x3 b3 where "x3 = (h3 s + b2) AND 0x3ffffff" and "b3 = drop_bit 26 (h3 s + b2)"
  note k3 = limb_carry [OF _ _ x3_def b3_def]
  define x4 b4 where "x4 = (h4 s + b3) AND 0x3ffffff" and "b4 = drop_bit 26 (h4 s + b3)"
  note k4 = limb_carry [OF _ _ x4_def b4_def]
  have l1: "unat (h1 s) + unat b0 = unat x1 + 2 ^ 26 * unat b1" "unat x1 < 2 ^ 26" "unat b1 \<le> 1"
    using k1 ok b0 by simp_all
  have l2: "unat (h2 s) + unat b1 = unat x2 + 2 ^ 26 * unat b2" "unat x2 < 2 ^ 26" "unat b2 \<le> 1"
    using k2 ok l1(3) by simp_all
  have l3: "unat (h3 s) + unat b2 = unat x3 + 2 ^ 26 * unat b3" "unat x3 < 2 ^ 26" "unat b3 \<le> 1"
    using k3 ok l2(3) by simp_all
  have l4: "unat (h4 s) + unat b3 = unat x4 + 2 ^ 26 * unat b4" "unat x4 < 2 ^ 26" "unat b4 \<le> 1"
    using k4 ok l3(3) by simp_all
  have c: "carry_all s = s\<lparr>h0 := x0 + b4 * 5, h1 := x1, h2 := x2, h3 := x3, h4 := x4\<rparr>"
    by (simp add: carry_all_def Let_def x0_def b0_def x1_def b1_def x2_def b2_def x3_def b3_def x4_def b4_def)
  have b5: "unat (b4 * 5) = unat b4 * 5" using l4(3) by (simp add: unat_word_ariths(2))
  have h: "unat (x0 + b4 * 5) = unat x0 + unat b4 * 5"
    by (subst unat_add_no_overflow) (use l4(3) b5 k0(2) in simp_all)
  have "limb_val (unat (h0 s)) (unat (h1 s)) (unat (h2 s)) (unat (h3 s)) (unat (h4 s)) =
      limb_val (unat x0 + unat b4 * 5) (unat x1) (unat x2) (unat x3) (unat x4) + P1305 * unat b4"
    by (rule columns_carried [OF k0(1) l1(1) l2(1) l3(1) l4(1)])
  then show "acc_val (carry_all s) mod P1305 = acc_val s mod P1305" by (simp add: c acc_val_def h)
  have z: "unat b4 = 1 \<Longrightarrow> unat x1 \<le> 40 \<and> unat x2 = 0 \<and> unat x3 = 0 \<and> unat x4 = 0"
    using ok b0 l1 l2 l3 l4 by auto
  show "normal (carry_all s) \<or> spilled (carry_all s)"
  proof (cases "unat b4 = 1")
    case True
    with z have "unat x1 \<le> 40" "x2 = 0" "x3 = 0" "x4 = 0" by (simp_all add: unat_eq_0)
    with k0(2) True show ?thesis by (auto simp: c normal_def spilled_def h)
  next
    case False
    with l4(3) have "unat b4 = 0" by simp
    with k0(2) l1(2) l2(2) l3(2) l4(2) show ?thesis by (simp add: c normal_def h)
  qed
qed

text \<open>The choice by masks: all ones keeps the difference, zero the accumulator.\<close>

definition keep_with :: "u32 \<Rightarrow> poly1305_state \<Rightarrow> u32 \<Rightarrow> u32 \<Rightarrow> u32 \<Rightarrow> u32 \<Rightarrow> u32 \<Rightarrow> poly1305_state" where
  "keep_with b s g0 g1 g2 g3 g4 =
     s\<lparr>h0 := (h0 s AND NOT b) OR (g0 AND b), h1 := (h1 s AND NOT b) OR (g1 AND b), h2 := (h2 s AND NOT b) OR (g2 AND b),
       h3 := (h3 s AND NOT b) OR (g3 AND b), h4 := (h4 s AND NOT b) OR (g4 AND b)\<rparr>"

lemma keep_with_simps:
  "keep_with 0 s g0 g1 g2 g3 g4 = s" "keep_with (- 1) s g0 g1 g2 g3 g4 = s\<lparr>h0 := g0, h1 := g1, h2 := g2, h3 := g3, h4 := g4\<rparr>"
  by (simp_all add: keep_with_def)

lemma top_bit_mask:
  assumes "unat (w :: u32) \<le> 2 ^ 26"
  shows "drop_bit 31 (w - push_bit 26 1) - 1 = (if unat w = 2 ^ 26 then - 1 else 0 :: u32)"
proof (cases "unat w = 2 ^ 26")
  case True
  then have "w = 2 ^ 26" by (metis unat_eq_word_of_nat of_nat_numeral of_nat_power)
  with True show ?thesis by (simp add: push_bit_eq_mult)
next
  case False
  with assms have lt: "unat w < 2 ^ 26" by simp
  have "unat (w - push_bit 26 1) = unat w + (2 ^ 32 - 2 ^ 26)"
    using lt by (simp add: unat_sub_if' word_le_nat_alt push_bit_eq_mult)
  then have "unat (drop_bit 31 (w - push_bit 26 1)) = (unat w + (2 ^ 32 - 2 ^ 26)) div 2 ^ 31"
    by (simp only: unat_drop_bit_eq) (simp only: drop_bit_eq_div)
  also have "\<dots> = 1" using lt by (simp add: div_nat_eqI)
  finally have "drop_bit 31 (w - push_bit 26 1) = 1" by (metis unat_eq_word_of_nat of_nat_1)
  with False show ?thesis by simp
qed

lemma subtract_modulus_correct:
  assumes "normal s \<or> spilled s"
  shows "normal (subtract_modulus s) \<or> spilled (subtract_modulus s)" "acc_val (subtract_modulus s) = acc_val s mod P1305"
proof -
  define a0 where "a0 = h0 s + 5"
  have a0: "unat a0 = unat (h0 s) + 5" using assms unfolding a0_def
    by (auto simp: normal_def spilled_def unat_add_no_overflow)
  define y0 c0 where "y0 = a0 AND 0x3ffffff" and "c0 = drop_bit 26 a0"
  have k0: "unat a0 = unat y0 + 2 ^ 26 * unat c0" "unat y0 < 2 ^ 26"
    using unat_carry32 [of a0] unfolding y0_def c0_def by simp_all
  have c0: "unat c0 \<le> 1" using k0(1) a0 assms by (auto simp: normal_def spilled_def)
  define y1 c1 where "y1 = (h1 s + c0) AND 0x3ffffff" and "c1 = drop_bit 26 (h1 s + c0)"
  define y2 c2 where "y2 = (h2 s + c1) AND 0x3ffffff" and "c2 = drop_bit 26 (h2 s + c1)"
  define y3 c3 where "y3 = (h3 s + c2) AND 0x3ffffff" and "c3 = drop_bit 26 (h3 s + c2)"
  have hs: "unat (h1 s) < 2 ^ 26" "unat (h2 s) < 2 ^ 26" "unat (h3 s) < 2 ^ 26" "unat (h4 s) < 2 ^ 26"
    using assms by (auto simp: normal_def spilled_def)
  have l1: "unat (h1 s) + unat c0 = unat y1 + 2 ^ 26 * unat c1" "unat y1 < 2 ^ 26" "unat c1 \<le> 1"
    using limb_carry [OF hs(1) _ y1_def c1_def] c0 by simp_all
  have l2: "unat (h2 s) + unat c1 = unat y2 + 2 ^ 26 * unat c2" "unat y2 < 2 ^ 26" "unat c2 \<le> 1"
    using limb_carry [OF hs(2) _ y2_def c2_def] l1(3) by simp_all
  have l3: "unat (h3 s) + unat c2 = unat y3 + 2 ^ 26 * unat c3" "unat y3 < 2 ^ 26" "unat c3 \<le> 1"
    using limb_carry [OF hs(3) _ y3_def c3_def] l2(3) by simp_all
  define w where "w = h4 s + c3"
  have w: "unat w = unat (h4 s) + unat c3" using hs(4) l3(3) unfolding w_def by (simp add: unat_add_no_overflow)
  have s: "subtract_modulus s = keep_with (drop_bit 31 (w - push_bit 26 1) - 1) s y0 y1 y2 y3 (w - push_bit 26 1)"
    by (simp add: subtract_modulus_def keep_with_def Let_def a0_def y0_def c0_def y1_def c1_def y2_def c2_def y3_def c3_def w_def)
  have le: "unat w \<le> 2 ^ 26" using w hs(4) l3(3) by simp
  have sum: "acc_val s + 5 = limb_val (unat y0) (unat y1) (unat y2) (unat y3) (unat w)"
    using k0(1) a0 l1(1) l2(1) l3(1) w unfolding acc_val_def limb_val_def by simp
  have small: "limb_val (unat y0) (unat y1) (unat y2) (unat y3) 0 < 2 ^ 104"
    using k0(2) l1(2) l2(2) l3(2) unfolding limb_val_def by simp
  show "normal (subtract_modulus s) \<or> spilled (subtract_modulus s)"
  proof (cases "unat w = 2 ^ 26")
    case True
    then have "w = 2 ^ 26" by (metis unat_eq_word_of_nat of_nat_numeral of_nat_power)
    with True k0(2) l1(2) l2(2) l3(2) show ?thesis
      unfolding s top_bit_mask [OF le] by (simp add: keep_with_simps normal_def push_bit_eq_mult)
  next
    case False
    with assms show ?thesis unfolding s top_bit_mask [OF le] by (simp add: keep_with_simps)
  qed
  show "acc_val (subtract_modulus s) = acc_val s mod P1305"
  proof (cases "unat w = 2 ^ 26")
    case True
    then have w0: "w = 2 ^ 26" by (metis unat_eq_word_of_nat of_nat_numeral of_nat_power)
    have "acc_val (subtract_modulus s) = limb_val (unat y0) (unat y1) (unat y2) (unat y3) 0"
      unfolding s top_bit_mask [OF le] using True w0 by (simp add: keep_with_simps push_bit_eq_mult acc_val_def)
    moreover have "acc_val s = P1305 + limb_val (unat y0) (unat y1) (unat y2) (unat y3) 0"
      using sum True by (simp add: limb_val_def P1305_def)
    moreover have "(2 :: nat) ^ 104 < P1305" by (simp add: P1305_def)
    ultimately show ?thesis using small by simp
  next
    case False
    then have "unat w < 2 ^ 26" using le by simp
    then have "acc_val s < P1305" using sum k0(2) l1(2) l2(2) l3(2) by (simp add: limb_val_def P1305_def)
    with False show ?thesis unfolding s top_bit_mask [OF le] by (simp add: keep_with_simps)
  qed
qed

section \<open>The tag\<close>

lemma le_bytes_add: "rev (be_bytes (m + n) v) = rev (be_bytes n v) @ rev (be_bytes m (v div 256 ^ n))"
  by (induction n arbitrary: v) (simp_all add: div_mult2_eq mult.commute)

lemma be_bytes_mod: "be_bytes n (v + 256 ^ n * q) = be_bytes n v"
proof (induction n arbitrary: v)
  case (Suc n)
  have "(v + 256 ^ Suc n * q) div 256 = v div 256 + 256 ^ n * q" by simp
  moreover have "(v + 256 ^ Suc n * q) mod 256 = v mod 256" by (simp add: mult.assoc)
  ultimately show ?case using Suc by simp
qed simp

lemma U32TO8_LE_ucast: "U32TO8_LE (ucast (f :: u64)) = rev (be_bytes 4 (unat f))"
proof -
  have "be_bytes 4 (unat f mod 2 ^ 32) = be_bytes 4 (unat f mod 256 ^ 4 + 256 ^ 4 * (unat f div 256 ^ 4))"
    by (simp only: be_bytes_mod) simp
  also have "unat f mod 256 ^ 4 + 256 ^ 4 * (unat f div 256 ^ 4) = unat f" by (rule mod_mult_div_eq)
  finally show ?thesis by (simp add: U32TO8_LE_def unsigned_ucast_eq take_bit_eq_mod)
qed

text \<open>Adding four words with carries, and writing the sum as sixteen bytes.\<close>

lemma words_with_carries:
  fixes w0 w1 w2 w3 c0 c1 c2 c3 :: u32 and f0 f1 f2 f3 :: u64
  assumes "f0 = ucast w0 + ucast c0" "f1 = ucast w1 + ucast c1 + drop_bit 32 f0"
    "f2 = ucast w2 + ucast c2 + drop_bit 32 f1" "f3 = ucast w3 + ucast c3 + drop_bit 32 f2"
  shows "U32TO8_LE (ucast f0) @ U32TO8_LE (ucast f1) @ U32TO8_LE (ucast f2) @ U32TO8_LE (ucast f3) =
    rev (be_bytes 16 (unat w0 + 2 ^ 32 * unat w1 + 2 ^ 64 * unat w2 + 2 ^ 96 * unat w3 +
      (unat c0 + 2 ^ 32 * unat c1 + 2 ^ 64 * unat c2 + 2 ^ 96 * unat c3)))"
proof -
  have uc: "unat (ucast w :: u64) = unat w" for w :: u32
    by (simp add: unsigned_ucast_eq take_bit_nat_eq_self order_less_trans [OF unsigned_less])
  have lt: "unat w < 2 ^ 32" for w :: u32 using unsigned_less [of w] by simp
  have d: "unat (drop_bit 32 f) = unat f div 2 ^ 32" for f :: u64
    by (simp only: unat_drop_bit_eq) (simp only: drop_bit_eq_div)
  have dlt: "unat f div 2 ^ 32 < 2 ^ 32" for f :: u64
    using unsigned_less [of f, where ?'a = nat] by (simp add: less_mult_imp_div_less)
  have s: "unat (ucast w + ucast c :: u64) = unat w + unat c" for w c :: u32
    using lt [of w] lt [of c] by (subst unat_add_no_overflow) (simp_all add: uc)
  have s3: "unat (ucast w + ucast c + drop_bit 32 f :: u64) = unat w + unat c + unat f div 2 ^ 32" for w c :: u32 and f
    using lt [of w] lt [of c] dlt [of f] by (subst unat_add_no_overflow) (simp_all add: s d)
  have f: "unat f0 = unat w0 + unat c0" "unat f1 = unat w1 + unat c1 + unat f0 div 2 ^ 32"
    "unat f2 = unat w2 + unat c2 + unat f1 div 2 ^ 32" "unat f3 = unat w3 + unat c3 + unat f2 div 2 ^ 32"
    by (simp_all only: assms(1) s s3 assms(2-4))
  have cut: "rev (be_bytes (4 + n) (x + 2 ^ 32 * y)) = rev (be_bytes 4 x) @ rev (be_bytes n (x div 2 ^ 32 + y))" for n x y :: nat
    using le_bytes_add [of n 4 "x + 2 ^ 32 * y"] be_bytes_mod [of 4 x y] by (simp add: ac_simps)
  let ?sum = "unat w0 + 2 ^ 32 * unat w1 + 2 ^ 64 * unat w2 + 2 ^ 96 * unat w3 +
      (unat c0 + 2 ^ 32 * unat c1 + 2 ^ 64 * unat c2 + 2 ^ 96 * unat c3)"
  let ?y3 = "unat w3 + unat c3" let ?y2 = "unat w2 + unat c2 + 2 ^ 32 * ?y3" let ?y1 = "unat w1 + unat c1 + 2 ^ 32 * ?y2"
  have sum: "?sum = unat f0 + 2 ^ 32 * ?y1" by (simp add: f(1))
  have "rev (be_bytes 16 ?sum) = rev (be_bytes (4 + 12) (unat f0 + 2 ^ 32 * ?y1))" unfolding sum by simp
  also have "\<dots> = rev (be_bytes 4 (unat f0)) @ rev (be_bytes 12 (unat f0 div 2 ^ 32 + ?y1))" by (rule cut)
  also have "unat f0 div 2 ^ 32 + ?y1 = unat f1 + 2 ^ 32 * ?y2" by (simp only: f(2))
  also have "rev (be_bytes 12 (unat f1 + 2 ^ 32 * ?y2)) = rev (be_bytes 4 (unat f1)) @ rev (be_bytes 8 (unat f1 div 2 ^ 32 + ?y2))"
    by (rule cut [of 8, simplified numeral_plus_numeral semiring_norm])
  also have "unat f1 div 2 ^ 32 + ?y2 = unat f2 + 2 ^ 32 * ?y3" by (simp only: f(3))
  also have "rev (be_bytes 8 (unat f2 + 2 ^ 32 * ?y3)) = rev (be_bytes 4 (unat f2)) @ rev (be_bytes 4 (unat f2 div 2 ^ 32 + ?y3))"
    by (rule cut [of 4, simplified numeral_plus_numeral semiring_norm])
  also have "unat f2 div 2 ^ 32 + ?y3 = unat f3" by (simp only: f(4))
  finally show ?thesis by (simp only: U32TO8_LE_ucast)
qed

text \<open>The limbs packed into words; only the lowest word depends on whether a carry was left in it.\<close>

lemma packed_limbs:
  assumes "unat a1 < 2 ^ 26" "unat a2 < 2 ^ 26" "unat a3 < 2 ^ 26" "unat a4 < 2 ^ 26"
  shows "n + unat a1 mod 2 ^ 6 * 2 ^ 26 + 2 ^ 32 * unat (drop_bit 6 a1 OR push_bit 20 a2 :: u32) +
      2 ^ 64 * unat (drop_bit 12 a2 OR push_bit 14 a3 :: u32) + 2 ^ 96 * unat (drop_bit 18 a3 OR push_bit 8 a4 :: u32) +
      256 ^ 16 * (unat a4 div 2 ^ 24) = limb_val n (unat a1) (unat a2) (unat a3) (unat a4)"
proof -
  have d: "unat (drop_bit n w) = unat w div 2 ^ n" for n and w :: u32
    by (simp only: unat_drop_bit_eq) (simp only: drop_bit_eq_div)
  have mm: "(q * 2 ^ k + r) mod 2 ^ 32 = q mod 2 ^ (32 - k) * 2 ^ k + r" if "r < 2 ^ k" "k \<le> 32" for q r k :: nat
  proof -
    have "(2 :: nat) ^ 32 = 2 ^ k * 2 ^ (32 - k)" using that(2) by (simp flip: power_add)
    then show ?thesis using that(1) mod_mult2_eq [of "q * 2 ^ k + r" "2 ^ k" "2 ^ (32 - k)"] by simp
  qed
  have w: "unat (drop_bit (26 - k) a OR push_bit k b :: u32) = unat b mod 2 ^ (32 - k) * 2 ^ k + unat a div 2 ^ (26 - k)"
    if "unat a < 2 ^ 26" "k \<le> 26" for a b :: u32 and k
  proof -
    have "2 ^ 26 = 2 ^ k * (2 :: nat) ^ (26 - k)" using that(2) by (simp flip: power_add)
    with that(1) have lt: "unat a div 2 ^ (26 - k) < 2 ^ k" by (simp add: less_mult_imp_div_less)
    then have "unat (push_bit k b OR drop_bit (26 - k) a) = (unat b * 2 ^ k + unat a div 2 ^ (26 - k)) mod 2 ^ 32"
      using unat_push_bit_or [of "drop_bit (26 - k) a" k b] by (simp add: d)
    also have "\<dots> = unat b mod 2 ^ (32 - k) * 2 ^ k + unat a div 2 ^ (26 - k)" using that(2) by (intro mm lt) simp
    finally show ?thesis by (simp only: or.commute)
  qed
  note w1 = w [OF assms(1), of 20 a2, simplified] and w2 = w [OF assms(2), of 14 a3, simplified] and w3 = w [OF assms(3), of 8 a4, simplified]
  define q1 r1 q2 r2 q3 r3 q4 r4 where "q1 = unat a1 div 64" "r1 = unat a1 mod 64" "q2 = unat a2 div 4096" "r2 = unat a2 mod 4096"
    "q3 = unat a3 div 262144" "r3 = unat a3 mod 262144" "q4 = unat a4 div 16777216" "r4 = unat a4 mod 16777216"
  note f = this
  have e: "unat a1 = q1 * 64 + r1" "unat a2 = q2 * 4096 + r2" "unat a3 = q3 * 262144 + r3" "unat a4 = q4 * 16777216 + r4"
    unfolding f by (simp_all only: div_mult_mod_eq)
  show ?thesis by (simp add: w1 w2 w3 f [symmetric] limb_val_def) (simp add: e)
qed


lemma poly1305_tag_limbs:
  assumes "normal s \<or> spilled s" "length (key s) = 16"
    and low: "unat (h0 s OR push_bit 26 (h1 s)) = n + unat (h1 s) mod 2 ^ 6 * 2 ^ 26"
  shows "poly1305_tag s = rev (be_bytes 16 (limb_val n (unat (h1 s)) (unat (h2 s)) (unat (h3 s)) (unat (h4 s)) + le_nat (key s)))"
proof -
  have b: "unat (h1 s) < 2 ^ 26" "unat (h2 s) < 2 ^ 26" "unat (h3 s) < 2 ^ 26" "unat (h4 s) < 2 ^ 26"
    using assms(1) by (auto simp: normal_def spilled_def)
  let ?w0 = "h0 s OR push_bit 26 (h1 s)" and ?w1 = "drop_bit 6 (h1 s) OR push_bit 20 (h2 s)"
    and ?w2 = "drop_bit 12 (h2 s) OR push_bit 14 (h3 s)" and ?w3 = "drop_bit 18 (h3 s) OR push_bit 8 (h4 s)"
  have k: "le_nat (key s) = unat (U8TO32_LE (key s)) + 2 ^ 32 * unat (U8TO32_LE (drop 4 (key s))) +
    2 ^ 64 * unat (U8TO32_LE (drop 8 (key s))) + 2 ^ 96 * unat (U8TO32_LE (drop 12 (key s)))"
    using le_nat_words [of "key s"] assms(2) by simp
  have "poly1305_tag s = rev (be_bytes 16 (unat ?w0 + 2 ^ 32 * unat ?w1 + 2 ^ 64 * unat ?w2 + 2 ^ 96 * unat ?w3 + le_nat (key s)))"
    unfolding k poly1305_tag_def Let_def by (rule words_with_carries) (rule refl)+
  also have "be_bytes 16 (unat ?w0 + 2 ^ 32 * unat ?w1 + 2 ^ 64 * unat ?w2 + 2 ^ 96 * unat ?w3 + le_nat (key s)) =
      be_bytes 16 (unat ?w0 + 2 ^ 32 * unat ?w1 + 2 ^ 64 * unat ?w2 + 2 ^ 96 * unat ?w3 + le_nat (key s)
        + 256 ^ 16 * (unat (h4 s) div 2 ^ 24))"
    by (simp only: be_bytes_mod)
  also have "\<dots> = be_bytes 16 (limb_val n (unat (h1 s)) (unat (h2 s)) (unat (h3 s)) (unat (h4 s)) + le_nat (key s))"
    unfolding packed_limbs [OF b, of n, symmetric] low by (simp only: ac_simps)
  finally show ?thesis .
qed

lemma low_word:
  assumes "unat (a :: u32) < 2 ^ 26"
  shows "unat (a OR push_bit 26 (b :: u32)) = unat a + unat b mod 2 ^ 6 * 2 ^ 26"
proof -
  have "unat (push_bit 26 b OR a) = (unat b * 2 ^ 26 + unat a) mod 2 ^ 32"
    using unat_push_bit_or [OF assms, of b] by simp
  also have "\<dots> = unat b mod 2 ^ 6 * 2 ^ 26 + unat a"
    using assms mod_mult2_eq [of "unat b * 2 ^ 26 + unat a" "2 ^ 26" "2 ^ 6"] by simp
  finally show ?thesis by (simp only: or.commute add.commute)
qed

text \<open>With a carry left in the lowest limb, the bit is lost when the next limb is odd.\<close>

lemma low_word_spilled:
  assumes "2 ^ 26 \<le> unat a" "unat a < 2 ^ 26 + 5" "unat b \<le> 40"
  shows "unat (a OR push_bit 26 (b :: u32)) = (if even (unat b) then unat a else unat a - 2 ^ 26) + unat b mod 2 ^ 6 * 2 ^ 26"
proof -
  define e :: u32 where "e = word_of_nat (unat a - 2 ^ 26)"
  have e: "unat e = unat a - 2 ^ 26" using assms by (simp add: e_def unat_sub_if' word_le_nat_alt)
  then have "unat a = unat (push_bit 26 1 OR e)" using assms unat_push_bit_or [of e 26 1] by simp
  from unat_eq_word_of_nat [OF this] have a: "a = push_bit 26 1 OR e" by simp
  have even_unat_word: "even (unat b) \<longleftrightarrow> even b" using bit_unsigned_iff [of b 0, where ?'a = nat] by (simp add: bit_0)
  have odd1: "1 OR b = (if even (unat b) then b + 1 else b)"
    by (simp add: one_or_eq even_unat_word)
  have "a OR push_bit 26 b = e OR push_bit 26 (1 OR b)"
    unfolding a by (rule bit_word_eqI) (auto simp: bit_simps)
  then have "unat (a OR push_bit 26 b) = unat e + unat (1 OR b) mod 2 ^ 6 * 2 ^ 26"
    using low_word [of e "1 OR b"] e assms by simp
  moreover have "unat (b + 1) = unat b + 1" using assms(3) by (simp add: unat_add_no_overflow)
  ultimately show ?thesis unfolding odd1 using assms by (simp add: e)
qed

end
