(* ===== verification/Poly1305_Spec.thy ===== *)
theory Poly1305_Spec
  imports Poly1305_Finish Streaming
begin

text \<open>
  The whole computation against RFC 8439: the buffering of \<open>CRYPTO_poly1305_update\<close> is an instance
  of the contract of \<open>Streaming\<close>; the tag is the specified one except for the lost carry.
\<close>

section \<open>The blocks of a message\<close>

lemma eat_Nil [simp]: "eat r acc [] = acc"
  by (simp add: eat.simps)

lemma eat_append: "16 dvd length x \<Longrightarrow> eat r acc (x @ y) = eat r (eat r acc x) y"
proof (induction r acc x rule: eat.induct)
  case (1 r acc x)
  show ?case
  proof (cases "x = []")
    case False
    with 1(2) have l: "16 \<le> length x" by (auto dest: dvd_imp_le)
    with 1(2) have "16 dvd length (drop 16 x)" by (simp add: dvd_minus_self)
    with 1(1) [OF False] l False show ?thesis by (simp add: eat.simps [of r acc "x @ y"] eat.simps [of r acc x])
  qed simp
qed

lemma eat_short: "m \<noteq> [] \<Longrightarrow> length m < 16 \<Longrightarrow> eat r acc m = eat_block r acc m"
  by (simp add: eat.simps)

text \<open>What absorbing bytes leaves alone.\<close>

definition same_key :: "poly1305_state \<Rightarrow> poly1305_state \<Rightarrow> bool" where
  "same_key s t \<longleftrightarrow> (key_ok s \<longrightarrow> key_ok t) \<and> r_val t = r_val s \<and> key t = key s \<and> buf t = buf s \<and> buf_used t = buf_used s"

lemma same_key_trans: "same_key s t \<Longrightarrow> same_key t u \<Longrightarrow> same_key s u"
  by (simp add: same_key_def)

lemma same_key_add_block: "same_key s (add_block s m b)"
  by (simp add: same_key_def add_block_def Let_def key_ok_def r_val_def)

lemma same_key_mul: "same_key s (poly1305_donna_mul s)"
  by (simp add: same_key_def poly1305_donna_mul_def Let_def key_ok_def r_val_def split: prod.splits)

lemma mod_add_mult: "(a + x) * r mod p = (a mod p + x) * r mod (p :: nat)"
  by (metis mod_add_left_eq mod_mult_left_eq)

lemma absorb_block:
  assumes "key_ok s" "acc_ok s" "16 \<le> length m" "hibit = 0 \<or> hibit = push_bit 24 1" "t = poly1305_donna_mul (add_block s m hibit)"
  shows "same_key s t" "acc_ok t"
    "acc_val t mod P1305 = (acc_val s mod P1305 + (le_nat (take 16 m) + 2 ^ 104 * unat hibit)) * r_val s mod P1305"
proof -
  note b = add_block_correct [OF assms(2,3,4)]
  have k: "key_ok (add_block s m hibit)" using same_key_add_block [of s m hibit] assms(1) by (simp add: same_key_def)
  note c = poly1305_donna_mul_correct [OF k b(1)]
  show "same_key s t" unfolding assms(5) by (rule same_key_trans [OF same_key_add_block same_key_mul])
  show "acc_ok t" unfolding assms(5) by (rule c(1))
  have r: "r_val (add_block s m hibit) = r_val s" using same_key_add_block [of s m hibit] by (simp add: same_key_def)
  show "acc_val t mod P1305 = (acc_val s mod P1305 + (le_nat (take 16 m) + 2 ^ 104 * unat hibit)) * r_val s mod P1305"
    unfolding assms(5) c(2) r b(2) by (simp only: mod_add_mult [of "acc_val s"] add.assoc)
qed

lemma be_nat_zeros: "be_nat (replicate n 0 @ m) = be_nat m"
  by (induction n) (simp_all add: be_simps)

lemma poly1305_update_correct:
  assumes "key_ok s" "acc_ok s" "len \<le> length m" "t = poly1305_update s m len"
  shows "same_key s t \<and> acc_ok t \<and> acc_val t mod P1305 = eat (r_val s) (acc_val s mod P1305) (take len m)"
  using assms
proof (induction s m len arbitrary: t rule: poly1305_update.induct)
  case (1 s m len)
  show ?case
  proof (cases "16 \<le> len")
    case True
    let ?u = "poly1305_donna_mul (add_block s m (push_bit 24 1))"
    from True 1(4) have l: "16 \<le> length m" by simp
    note a = absorb_block [OF 1(2,3) l disjI2 [OF refl] refl]
    have k: "key_ok ?u" "r_val ?u = r_val s" using a(1) 1(2) by (simp_all add: same_key_def)
    have t: "t = poly1305_update ?u (drop 16 m) (len - 16)" using True 1(5) by (simp add: poly1305_update.simps [of s])
    have hb: "unat (push_bit 24 1 :: u32) = 2 ^ 24" by simp
    have v: "acc_val ?u mod P1305 = eat_block (r_val s) (acc_val s mod P1305) (take 16 m)"
      using a(3) l unfolding hb by (simp add: eat_block_def be_simps add.commute)
    have "take 16 m \<noteq> []" "take len m \<noteq> []" "take 16 (take len m) = take 16 m" "drop 16 (take len m) = take (len - 16) (drop 16 m)"
      using l True by (auto simp: drop_take min_def)
    then have e: "eat (r_val s) (acc_val s mod P1305) (take len m) = eat (r_val ?u) (acc_val ?u mod P1305) (take (len - 16) (drop 16 m))"
      unfolding v k(2) by (simp add: eat.simps [of _ _ "take len m"])
    show ?thesis unfolding e using 1(1) [OF True k(1) a(2) _ t] 1(4) same_key_trans [OF a(1)] by auto
  next
    case False
    show ?thesis
    proof (cases "len = 0")
      case True
      with 1 show ?thesis by (simp add: poly1305_update.simps [of s] same_key_def)
    next
      case nz: False
      let ?m = "take len m @ [1] @ replicate (15 - len) 0"
      have t: "t = poly1305_donna_mul (add_block s ?m 0)" using nz False 1(5) by (simp add: poly1305_update.simps [of s])
      have l: "16 \<le> length ?m" "take 16 ?m = ?m" using False 1(4) by simp_all
      note a = absorb_block [OF 1(2,3) l(1) _ t, simplified]
      have "le_nat ?m = le_nat (take len m @ [1])" by (simp add: be_nat_zeros)
      moreover have "take len m \<noteq> []" "length (take len m) < 16" using nz False 1(4) by auto
      ultimately show ?thesis using a l(2) by (simp add: eat_short eat_block_def)
    qed
  qed
qed


section \<open>Messages in pieces\<close>

definition state_ok :: "poly1305_state \<Rightarrow> bool" where
  "state_ok s \<longleftrightarrow> key_ok s \<and> acc_ok s \<and> length (buf s) = 16 \<and> buf_used s < 16 \<and> length (key s) = 16"

lemma buffer_simps [simp]:
  "key_ok (s\<lparr>buf := b\<rparr>) = key_ok s" "acc_ok (s\<lparr>buf := b\<rparr>) = acc_ok s"
  "r_val (s\<lparr>buf := b\<rparr>) = r_val s" "acc_val (s\<lparr>buf := b\<rparr>) = acc_val s"
  "key_ok (s\<lparr>buf_used := n\<rparr>) = key_ok s" "acc_ok (s\<lparr>buf_used := n\<rparr>) = acc_ok s"
  "r_val (s\<lparr>buf_used := n\<rparr>) = r_val s" "acc_val (s\<lparr>buf_used := n\<rparr>) = acc_val s"
  by (simp_all add: key_ok_def acc_ok_def r_val_def acc_val_def)

type_synonym absorbed = "nat \<times> bytes \<times> nat \<times> bytes"

text \<open>What a state stands for: the multiplier, the rest of the key, the sum, the bytes that wait.\<close>

definition absorbed_of :: "poly1305_state \<Rightarrow> absorbed" where
  "absorbed_of s = (r_val s, key s, acc_val s mod P1305, take (buf_used s) (buf s))"

definition absorb_all :: "bytes \<Rightarrow> absorbed \<Rightarrow> unit list \<times> absorbed" where
  "absorb_all m a =
     (case a of (r, k, acc, pending) \<Rightarrow>
        let d = pending @ m; q = length d - length d mod 16
        in ([], r, k, eat r acc (take q d), drop q d))"

definition update_op :: "bytes \<Rightarrow> poly1305_state \<Rightarrow> unit list \<times> poly1305_state" where
  "update_op m s = ([], CRYPTO_poly1305_update s m (length m))"

lemma absorb_rest_correct:
  assumes "key_ok s" "acc_ok s" "length (buf s) = 16" "length (key s) = 16" "buf_used s = 0" "t = absorb_rest s m (length m)"
  shows "state_ok t \<and> (absorb_all m (absorbed_of s) :: unit list \<times> absorbed) = ([], absorbed_of t)"
proof -
  let ?q = "length m - length m mod 16"
  define u where "u = (if 16 \<le> length m then poly1305_update s m ?q else s)"
  have u: "same_key s u \<and> acc_ok u \<and> acc_val u mod P1305 = eat (r_val s) (acc_val s mod P1305) (take ?q m)"
    using poly1305_update_correct [OF assms(1,2) _ refl, of ?q m] assms(2) by (simp add: u_def same_key_def)
  have t: "t = (if drop ?q m = [] then u else u\<lparr>buf := store_at (buf u) 0 (drop ?q m), buf_used := length (drop ?q m)\<rparr>)"
    unfolding assms(6) absorb_rest_def u_def by (auto simp: Let_def not_le)
  have l: "length (drop ?q m) < 16" by simp
  show ?thesis
  proof (cases "drop ?q m = []")
    case True
    then have "t = u" unfolding t by simp
    with True u assms show ?thesis by (auto simp: state_ok_def absorbed_of_def absorb_all_def Let_def same_key_def)
  next
    case False
    then have tu: "t = u\<lparr>buf := store_at (buf u) 0 (drop ?q m), buf_used := length (drop ?q m)\<rparr>" unfolding t by simp
    have "take (length (drop ?q m)) (store_at (buf u) 0 (drop ?q m)) = drop ?q m"
      using take_store_at_end [of 0 "buf u" "drop ?q m"] by (simp add: store_at_def)
    with u assms(1-5) l show ?thesis unfolding tu
      by (simp add: state_ok_def absorbed_of_def absorb_all_def Let_def same_key_def)
  qed
qed


lemma absorb_all_eq:
  "d = p @ m \<Longrightarrow> q = length d - length d mod 16 \<Longrightarrow>
    absorb_all m (r, k, acc, p) = ([], r, k, eat r acc (take q d), drop q d)"
  by (simp only: absorb_all_def Let_def prod.case)

lemma absorb_all_append:
  assumes "(absorb_all m a :: unit list \<times> absorbed) = (us, b)" "absorb_all n b = (vs, c)"
  shows "absorb_all (m @ n) a = (us @ vs, c)"
proof -
  obtain r k acc p where a: "a = (r, k, acc, p)" by (rule prod_cases4)
  define d q where "d = p @ m" and "q = length d - length d mod 16"
  define d' q' where "d' = drop q d @ n" and "q' = length d' - length d' mod 16"
  have b: "us = []" "b = (r, k, eat r acc (take q d), drop q d)"
    using assms(1) unfolding a absorb_all_eq [OF d_def q_def] by simp_all
  have c: "vs = []" "c = (r, k, eat r (eat r acc (take q d)) (take q' d'), drop q' d')"
    using assms(2) unfolding b(2) absorb_all_eq [OF d'_def q'_def] by simp_all
  have q: "16 dvd q" "q \<le> length d" by (simp_all add: q_def dvd_minus_mod)
  have w: "take q d @ d' = d @ n" by (simp add: d'_def)
  have lt: "length (take q d) = q" using q(2) by simp
  have len: "length (d @ n) = q + length d'" unfolding w [symmetric] length_append lt by simp
  then have "length (d @ n) mod 16 = length d' mod 16" using q(1) by (metis dvd_imp_mod_0 mod_add_left_eq add_0)
  with len have Q: "q + q' = length (d @ n) - length (d @ n) mod 16" by (simp add: q'_def)
  have t: "take (q + q') (d @ n) = take q d @ take q' d'" "drop (q + q') (d @ n) = drop q' d'"
    unfolding w [symmetric] take_append drop_append lt by simp_all
  have "d @ n = p @ m @ n" by (simp add: d_def)
  from absorb_all_eq [OF this Q, of r k acc]
  have "absorb_all (m @ n) a = ([], r, k, eat r acc (take q d @ take q' d'), drop q' d')" unfolding a t .
  also have "eat r acc (take q d @ take q' d') = eat r (eat r acc (take q d)) (take q' d')"
    using q(1) lt by (intro eat_append) simp
  finally show ?thesis unfolding b c by simp
qed

lemma update_op_correct:
  assumes "state_ok s" "update_op m s = (ys :: unit list, t)"
  shows "state_ok t \<and> absorb_all m (absorbed_of s) = (ys, absorbed_of t)"
proof (cases "buf_used s = 0")
  case True
  with assms(2) have "t = absorb_rest s m (length m)" "ys = []"
    by (auto simp: update_op_def CRYPTO_poly1305_update_def fill_buffer_def)
  with absorb_rest_correct [of s t m] assms(1) True show ?thesis by (simp add: state_ok_def)
next
  case False
  note ok = assms(1) [unfolded state_ok_def]
  let ?todo = "min (16 - buf_used s) (length m)"
  let ?b = "store_at (buf s) (buf_used s) (take ?todo m)"
  let ?n = "buf_used s + ?todo"
  let ?f = "s\<lparr>buf := ?b, buf_used := ?n\<rparr>"
  have b: "take ?n ?b = take (buf_used s) (buf s) @ take ?todo m" "length ?b = 16"
    using take_store_at_end [of "buf_used s" "take ?todo m" "buf s"] ok by (auto simp: min_def)
  show ?thesis
  proof (cases "?n = 16")
    case full: True
    let ?u = "(poly1305_update ?f ?b 16)\<lparr>buf_used := 0\<rparr>"
    have t: "ys = []" "t = absorb_rest ?u (drop ?todo m) (length (drop ?todo m))"
      using assms(2) False full by (auto simp: update_op_def CRYPTO_poly1305_update_def fill_buffer_def Let_def)
    have u: "same_key ?f (poly1305_update ?f ?b 16) \<and> acc_ok (poly1305_update ?f ?b 16) \<and>
      acc_val (poly1305_update ?f ?b 16) mod P1305 = eat (r_val s) (acc_val s mod P1305) ?b"
      using poly1305_update_correct [of ?f 16 ?b, OF _ _ _ refl] ok b(2) by simp
    have uo: "key_ok ?u" "acc_ok ?u" "length (buf ?u) = 16" "length (key ?u) = 16" "buf_used ?u = 0" "r_val ?u = r_val s" "key ?u = key s"
      using u ok b(2) by (simp_all add: same_key_def)
    have a1: "absorb_all (take ?todo m) (absorbed_of s) = ([] :: unit list, absorbed_of ?u)"
      using u uo(6,7) b full by (simp add: absorb_all_def absorbed_of_def Let_def)
    note a2 = absorb_rest_correct [OF uo(1-5) t(2)]
    from absorb_all_append [OF a1 conjunct2 [OF a2]] a2 t(1) show ?thesis by simp
  next
    case part: False
    then have n: "?todo = length m" "?n < 16" using ok by auto
    have t: "ys = []" "t = ?f"
      using assms(2) False part n by (auto simp: update_op_def CRYPTO_poly1305_update_def fill_buffer_def Let_def absorb_rest_def)
    have d: "length (take (buf_used s) (buf s) @ m) < 16" using ok n by simp
    have "absorb_all m (absorbed_of s) = ([] :: unit list, r_val s, key s, acc_val s mod P1305, take (buf_used s) (buf s) @ m)"
      using d by (simp add: absorb_all_def absorbed_of_def Let_def)
    with b n t show ?thesis using ok by (simp add: state_ok_def absorbed_of_def)
  qed
qed

interpretation poly1305_stream: chunked state_ok "\<lambda>_. True" absorbed_of update_op absorb_all
proof
  fix s t and m :: bytes and ys :: "unit list"
  assume "state_ok s" "update_op m s = (ys, t)"
  then show "state_ok t \<and> absorb_all m (absorbed_of s) = (ys, absorbed_of t)" by (rule update_op_correct)
next
  fix s
  assume "state_ok s"
  then show "absorb_all [] (absorbed_of s) = ([], absorbed_of s)"
    by (simp add: absorb_all_def absorbed_of_def state_ok_def)
qed (rule absorb_all_append)

section \<open>The whole computation\<close>

text \<open>
  The sums for which the end may leave a carry in the lowest limb: a hundred of the
  \<open>2 ^ 130 - 5\<close> residues.
\<close>

definition critical :: "nat \<Rightarrow> bool" where
  "critical acc \<longleftrightarrow> acc mod 2 ^ 26 < 5 \<and> even (acc div 2 ^ 26) \<and> acc div 2 ^ 26 \<in> {2..40}"

lemma tag_of_state:
  assumes "normal s \<or> spilled s" "length (key s) = 16" "key s = take 16 (drop 16 k)"
  shows "poly1305_tag s = tag_of k (acc_val s) \<or> critical (acc_val s) \<and> poly1305_tag s = tag_of k (acc_val s - 2 ^ 26)"
proof (cases "unat (h0 s) < 2 ^ 26 \<or> even (unat (h1 s))")
  case True
  have "unat (h0 s OR push_bit 26 (h1 s)) = unat (h0 s) + unat (h1 s) mod 2 ^ 6 * 2 ^ 26"
  proof (cases "unat (h0 s) < 2 ^ 26")
    case True
    then show ?thesis by (rule low_word)
  next
    case False
    with True assms(1) show ?thesis using low_word_spilled [of "h0 s" "h1 s"] by (auto simp: normal_def spilled_def)
  qed
  from poly1305_tag_limbs [OF assms(1,2) this] show ?thesis by (simp add: tag_of_def acc_val_def assms(3))
next
  case False
  with assms(1) have sp: "2 ^ 26 \<le> unat (h0 s)" "unat (h0 s) < 2 ^ 26 + 5" "unat (h1 s) \<le> 40" "h2 s = 0" "h3 s = 0" "h4 s = 0"
    and odd: "odd (unat (h1 s))" by (auto simp: normal_def spilled_def)
  define e where "e = unat (h0 s) - 2 ^ 26"
  have e: "unat (h0 s) = e + 2 ^ 26" "e < 5" using sp(1,2) by (simp_all add: e_def)
  have acc: "acc_val s = e + 2 ^ 26 * (unat (h1 s) + 1)" by (simp add: acc_val_def limb_val_def sp(4-6) e(1))
  have "acc_val s mod 2 ^ 26 = e" "acc_val s div 2 ^ 26 = unat (h1 s) + 1"
    unfolding acc mod_mult_self2 using e(2) by simp_all
  moreover have "unat (h1 s) + 1 \<in> {2..40}" using odd sp(3) by (auto elim: oddE)
  ultimately have "critical (acc_val s)" using e(2) odd by (simp add: critical_def)
  moreover have "unat (h0 s OR push_bit 26 (h1 s)) = e + unat (h1 s) mod 2 ^ 6 * 2 ^ 26"
    using low_word_spilled [OF sp(1-3)] odd by (simp add: e_def)
  from poly1305_tag_limbs [OF assms(1,2) this] have "poly1305_tag s = tag_of k (acc_val s - 2 ^ 26)"
    unfolding acc tag_of_def assms(3) by (simp add: limb_val_def sp(4-6))
  ultimately show ?thesis by simp
qed

lemma CRYPTO_poly1305_finish_correct:
  assumes "state_ok s" "absorbed_of s = (r, take 16 (drop 16 k), acc, pending)" "fin = eat r acc pending"
  shows "CRYPTO_poly1305_finish s = tag_of k fin \<or> critical fin \<and> CRYPTO_poly1305_finish s = tag_of k (fin - 2 ^ 26)"
proof -
  define t where "t = (if buf_used s \<noteq> 0 then poly1305_update s (buf s) (buf_used s) else s)"
  note ok = assms(1) [unfolded state_ok_def]
  have t: "same_key s t" "acc_ok t" "acc_val t mod P1305 = fin"
    using poly1305_update_correct [of s "buf_used s" "buf s" t] ok assms(2,3) by (auto simp: t_def absorbed_of_def same_key_def)
  let ?c = "carry_all t"
  note c = carry_all_correct [OF t(2)]
  note u = subtract_modulus_correct [OF c(1)]
  have "key (subtract_modulus ?c) = key t" by (simp add: subtract_modulus_def carry_all_def Let_def)
  moreover have "key t = take 16 (drop 16 k)" "length (key t) = 16" using t(1) assms(2) ok by (auto simp: same_key_def absorbed_of_def)
  ultimately have k: "length (key (subtract_modulus ?c)) = 16" "key (subtract_modulus ?c) = take 16 (drop 16 k)" by simp_all
  have "CRYPTO_poly1305_finish s = poly1305_tag (subtract_modulus ?c)" by (simp add: CRYPTO_poly1305_finish_def t_def)
  moreover have "acc_val (subtract_modulus ?c) = fin" using u(2) c(2) t(3) by simp
  ultimately show ?thesis using tag_of_state [OF u(1) k] by simp
qed

text \<open>
  C30: for a key of 32 bytes and a message given in any pieces, the tag computed is the one of
  RFC 8439, except that for a hundred values of the final sum, where a carry is left in the lowest
  limb, it may be the tag of that sum less \<open>2 ^ 26\<close>. No 32-bit or 64-bit operation before the
  end wraps around, whatever the message.
\<close>

theorem CRYPTO_poly1305_exact:
  assumes "length k = 32" "length ob = 16" "run_chunks update_op ms (CRYPTO_poly1305_init ob k) = (out, s)"
  shows "let acc = poly1305_sum k (concat ms); tag = CRYPTO_poly1305_finish s in
    if critical acc then tag = poly1305_spec k (concat ms) \<or> tag = tag_of k (acc - 2 ^ 26)
    else tag = poly1305_spec k (concat ms)"
proof -
  let ?i = "CRYPTO_poly1305_init ob k" and ?m = "concat ms"
  note i = CRYPTO_poly1305_init_correct [OF assms(1), of ob]
  have f: "buf ?i = ob" "buf_used ?i = 0" "key ?i = take 16 (drop 16 k)" by (simp_all add: CRYPTO_poly1305_init_def Let_def)
  have ok: "state_ok ?i" using i f assms by (simp add: state_ok_def)
  from poly1305_stream.run_refines [OF ok _ assms(3)]
  have s: "state_ok s" "absorb_all ?m (absorbed_of ?i) = (out, absorbed_of s)" by simp_all
  define q where "q = length ?m - length ?m mod 16"
  have a: "absorbed_of ?i = (clamped k, take 16 (drop 16 k), 0, [])" using i f by (simp add: absorbed_of_def P1305_def)
  have d: "?m = [] @ ?m" by simp
  from s(2) have "absorbed_of s = (clamped k, take 16 (drop 16 k), eat (clamped k) 0 (take q ?m), drop q ?m)"
    unfolding a absorb_all_eq [OF d q_def] by simp
  moreover have "poly1305_sum k ?m = eat (clamped k) (eat (clamped k) 0 (take q ?m)) (drop q ?m)"
    using eat_append [of "take q ?m" "clamped k" 0 "drop q ?m"] by (simp add: poly1305_sum_def q_def dvd_minus_mod)
  ultimately show ?thesis using CRYPTO_poly1305_finish_correct [OF s(1)]
    by (auto simp: Let_def poly1305_spec_def)
qed

definition example_key :: bytes where
  "example_key = [0x81, 0xac, 0xe0, 0x0d, 0x10, 0xf3, 0x28, 0x0b, 0x14, 0x61, 0x76, 0x0c, 0xf8, 0xf9, 0x75, 0x04]
    @ replicate 16 0"

definition lost_carry_message :: bytes where
  "lost_carry_message = [0x6a, 0xd2, 0xec, 0x7e, 0x8a, 0xb2, 0xf7, 0x7b, 0x0a, 0x6b, 0xa4, 0x1a, 0x83, 0x59, 0x82, 0xc8]"

lemma poly1305_sum_example: "poly1305_sum example_key lost_carry_message = 2 ^ 27"
  by (simp add: poly1305_sum_def eat.simps eat_block_def clamped_def be_nat_def example_key_def lost_carry_message_def P1305_def)


theorem CRYPTO_poly1305_exact_witness:
  "CRYPTO_poly1305_finish (snd (run_chunks update_op [[1, 2, 3], [4]] (CRYPTO_poly1305_init (replicate 16 0) example_key))) =
    poly1305_spec example_key [1, 2, 3, 4]"
proof -
  obtain out s where run: "run_chunks update_op [[1, 2, 3], [4]] (CRYPTO_poly1305_init (replicate 16 0) example_key) = (out, s)"
    by (rule prod.exhaust)
  have l: "length example_key = 32" "length (replicate 16 0 :: bytes) = 16" by (simp_all add: example_key_def)
  have "\<not> critical (poly1305_sum example_key [1, 2, 3, 4])"
    by (simp add: critical_def poly1305_sum_def eat.simps eat_block_def clamped_def be_nat_def example_key_def P1305_def)
  with CRYPTO_poly1305_exact [OF l run] show ?thesis unfolding run by (simp add: Let_def)
qed

lemma lost_carry_init:
  "CRYPTO_poly1305_init (replicate 16 0) example_key =
    \<lparr>r0 = 31501441, r1 = 37536771, r2 = 34685106, r3 = 65024473, r4 = 292345,
      s1 = 187683855, s2 = 173425530, s3 = 325122365, s4 = 1461725,
      h0 = 0, h1 = 0, h2 = 0, h3 = 0, h4 = 0, buf = replicate 16 0, buf_used = 0, key = replicate 16 0\<rparr>"
  unfolding CRYPTO_poly1305_init_def U8TO32_LE_def be_nat_def example_key_def Let_def by simp

lemma lost_carry_block:
  "poly1305_donna_mul (add_block (CRYPTO_poly1305_init (replicate 16 0) example_key) lost_carry_message (push_bit 24 1)) =
    \<lparr>r0 = 31501441, r1 = 37536771, r2 = 34685106, r3 = 65024473, r4 = 292345,
      s1 = 187683855, s2 = 173425530, s3 = 325122365, s4 = 1461725,
      h0 = 469762043, h1 = 67108859, h2 = 67108863, h3 = 67108863, h4 = 67108863,
      buf = replicate 16 0, buf_used = 0, key = replicate 16 0\<rparr>"
proof -
  have m: "U8TO32_LE lost_carry_message = 0x7eecd26a" "U8TO32_LE (drop 4 lost_carry_message) = 0x7bf7b28a"
    "U8TO32_LE (drop 8 lost_carry_message) = 0x1aa46b0a" "U8TO32_LE (drop 12 lost_carry_message) = 0xc8825983"
    by (simp_all add: U8TO32_LE_def be_nat_def lost_carry_message_def)
  show ?thesis unfolding lost_carry_init add_block_def m Let_def limb_between_def
    poly1305_donna_mul_def mul_columns_def mul32x32_64_def by simp
qed


lemma be_bytes_numeral: "be_bytes (numeral k) v = be_bytes (pred_numeral k) (v div 256) @ [word_of_nat (v mod 256)]"
  unfolding numeral_eq_Suc [of k] by (rule be_bytes.simps)

lemma lost_carry_end:
  "CRYPTO_poly1305_finish
      \<lparr>r0 = 31501441, r1 = 37536771, r2 = 34685106, r3 = 65024473, r4 = 292345,
        s1 = 187683855, s2 = 173425530, s3 = 325122365, s4 = 1461725,
        h0 = 469762043, h1 = 67108859, h2 = 67108863, h3 = 67108863, h4 = 67108863,
        buf = replicate 16 0, buf_used = 0, key = replicate 16 0\<rparr> = [0, 0, 0, 4, 0, 0, 0, 0, 0, 0, 0, 0, 0, 0, 0, 0]"
  (is "CRYPTO_poly1305_finish ?s = _")
proof -
  have c: "carry_all ?s = ?s\<lparr>h0 := 67108864, h1 := 1, h2 := 0, h3 := 0, h4 := 0\<rparr>"
    unfolding carry_all_def Let_def by simp
  have d: "subtract_modulus (carry_all ?s) = carry_all ?s"
    unfolding c subtract_modulus_def Let_def by simp
  have k: "U8TO32_LE (replicate n 0) = 0" for n
    using be_nat_zeros [of "min 4 n" "[]"] by (simp add: U8TO32_LE_def)
  have o: "U32TO8_LE 0 = [0, 0, 0, 0]" "U32TO8_LE 67108864 = [0, 0, 0, 4]"
    by (simp_all add: U32TO8_LE_def be_bytes_numeral)
  show ?thesis unfolding CRYPTO_poly1305_finish_def by (simp add: d) (simp add: c poly1305_tag_def k o)
qed

text \<open>
  The sum \<open>2 ^ 27\<close> is critical, and the tag computed is that of \<open>2 ^ 26\<close>: the code omits the
  last carry, from the lowest limb to the next, before it packs them with \<open>OR\<close>.
\<close>

theorem CRYPTO_poly1305_finish_loses_carry:
  "CRYPTO_poly1305_finish (CRYPTO_poly1305_update (CRYPTO_poly1305_init (replicate 16 0) example_key) lost_carry_message 16)
    \<noteq> poly1305_spec example_key lost_carry_message"
proof -
  have spec: "poly1305_spec example_key lost_carry_message = [0, 0, 0, 8, 0, 0, 0, 0, 0, 0, 0, 0, 0, 0, 0, 0]"
    unfolding poly1305_spec_def poly1305_sum_example
    using be_nat_zeros [of 16 "[]"] by (simp add: tag_of_def example_key_def be_bytes_numeral)
  have upd: "CRYPTO_poly1305_update (CRYPTO_poly1305_init (replicate 16 0) example_key) lost_carry_message 16 =
      poly1305_donna_mul (add_block (CRYPTO_poly1305_init (replicate 16 0) example_key) lost_carry_message (push_bit 24 1))"
    by (simp add: CRYPTO_poly1305_update_def fill_buffer_def absorb_rest_def poly1305_update.simps [of _ _ 16]
      poly1305_update.simps [of _ _ 0] lost_carry_init)
  show ?thesis unfolding upd lost_carry_block lost_carry_end spec by simp
qed

end
