(* ===== verification/BN_Words.thy ===== *)
theory BN_Words
  imports Prelude
begin

text \<open>
  \<open>crypto/fipsmodule/bn/generic.c\<close>, the portable loops on arrays of 64-bit words, with 128-bit
  intermediate results (\<open>BN_ULLONG\<close>). A loop that stores \<open>n\<close> words returns them as a list; each
  word of an operand is read before the word of the result at its place is stored, so that the
  result may be one of the operands.
\<close>

section \<open>The code\<close>

type_synonym u128 = "128 word"

definition BN_BITS2 :: nat where
  "BN_BITS2 = 64"

definition Lw :: "u128 \<Rightarrow> u64" where
  "Lw t = ucast t"

definition Hw :: "u128 \<Rightarrow> u64" where
  "Hw t = ucast (drop_bit BN_BITS2 t)"

definition mul_add :: "u64 \<Rightarrow> u64 \<times> u64 \<Rightarrow> u64 \<Rightarrow> u64 \<times> u64" where
  "mul_add w ra c = (case ra of (r, a) \<Rightarrow> let t = ucast w * ucast a + ucast r + ucast c in (Lw t, Hw t))"

definition mul_word :: "u64 \<Rightarrow> u64 \<Rightarrow> u64 \<Rightarrow> u64 \<times> u64" where
  "mul_word w a c = (let t = ucast w * ucast a + ucast c in (Lw t, Hw t))"

definition sqr :: "u64 \<Rightarrow> u64 \<times> u64" where
  "sqr a = (let t = ucast a * ucast a in (Lw t, Hw t))"

definition add_step :: "u64 \<times> u64 \<Rightarrow> u128 \<Rightarrow> u64 \<times> u128" where
  "add_step ab ll = (case ab of (a, b) \<Rightarrow> let ll = ll + (ucast a + ucast b) in (ucast ll, drop_bit BN_BITS2 ll))"

definition sub_step :: "u64 \<times> u64 \<Rightarrow> u64 \<Rightarrow> u64 \<times> u64" where
  "sub_step ab c = (case ab of (t1, t2) \<Rightarrow> (t1 - t2 - c, if t1 \<noteq> t2 then (if t1 < t2 then 1 else 0) else c))"

text \<open>The shape of the loops: four words at a time while there are four, then one at a time.\<close>

function unrolled :: "('x \<Rightarrow> 'c \<Rightarrow> u64 \<times> 'c) \<Rightarrow> 'x list \<Rightarrow> nat \<Rightarrow> 'c \<Rightarrow> u64 list \<times> 'c" where
  "unrolled step xs n c =
     (if n \<ge> 4 then
        case step (xs ! 0) c of (r0, c) \<Rightarrow>
        case step (xs ! 1) c of (r1, c) \<Rightarrow>
        case step (xs ! 2) c of (r2, c) \<Rightarrow>
        case step (xs ! 3) c of (r3, c) \<Rightarrow>
        case unrolled step (drop 4 xs) (n - 4) c of (rs, c) \<Rightarrow> (r0 # r1 # r2 # r3 # rs, c)
      else if n > 0 then
        case step (xs ! 0) c of (r0, c) \<Rightarrow>
        case unrolled step (drop 1 xs) (n - 1) c of (rs, c) \<Rightarrow> (r0 # rs, c)
      else ([], c))"
  by pat_completeness auto

termination
  by (relation "measure (\<lambda>(step, xs, n, c). n)") auto

declare unrolled.simps [simp del]

definition bn_mul_add_words :: "u64 list \<Rightarrow> u64 list \<Rightarrow> nat \<Rightarrow> u64 \<Rightarrow> u64 list \<times> u64" where
  "bn_mul_add_words rp ap num w =
     (if num = 0 then ([], 0) else unrolled (mul_add w) (zip rp ap) num 0)"

definition bn_mul_words :: "u64 list \<Rightarrow> nat \<Rightarrow> u64 \<Rightarrow> u64 list \<times> u64" where
  "bn_mul_words ap num w = (if num = 0 then ([], 0) else unrolled (mul_word w) ap num 0)"

function bn_sqr_words :: "u64 list \<Rightarrow> nat \<Rightarrow> u64 list" where
  "bn_sqr_words a n =
     (if n \<ge> 4 then
        case sqr (a ! 0) of (r0, r1) \<Rightarrow>
        case sqr (a ! 1) of (r2, r3) \<Rightarrow>
        case sqr (a ! 2) of (r4, r5) \<Rightarrow>
        case sqr (a ! 3) of (r6, r7) \<Rightarrow>
          r0 # r1 # r2 # r3 # r4 # r5 # r6 # r7 # bn_sqr_words (drop 4 a) (n - 4)
      else if n > 0 then
        case sqr (a ! 0) of (r0, r1) \<Rightarrow> r0 # r1 # bn_sqr_words (drop 1 a) (n - 1)
      else [])"
  by pat_completeness auto

termination
  by (relation "measure (\<lambda>(a, n). n)") auto

declare bn_sqr_words.simps [simp del]

definition bn_add_words :: "u64 list \<Rightarrow> u64 list \<Rightarrow> nat \<Rightarrow> u64 list \<times> u64" where
  "bn_add_words a b n =
     (if n = 0 then ([], 0) else case unrolled add_step (zip a b) n 0 of (r, ll) \<Rightarrow> (r, ucast ll))"

definition bn_sub_words :: "u64 list \<Rightarrow> u64 list \<Rightarrow> nat \<Rightarrow> u64 list \<times> u64" where
  "bn_sub_words a b n = (if n = 0 then ([], 0) else unrolled sub_step (zip a b) n 0)"

text \<open>
  The comba multiplications keep a sum of three words, whose names rotate after each column of
  products; \<open>acc\<close> lists them from the lowest.
\<close>

type_synonym acc3 = "u64 \<times> u64 \<times> u64"

definition mul_add_c :: "u64 \<Rightarrow> u64 \<Rightarrow> acc3 \<Rightarrow> acc3" where
  "mul_add_c a b acc =
     (case acc of (c0, c1, c2) \<Rightarrow>
        let t = ucast a * ucast b + ucast c0; c0 = Lw t; hi = Hw t; c1 = c1 + hi
        in (c0, c1, if c1 < hi then c2 + 1 else c2))"

definition mul_add_c2 :: "u64 \<Rightarrow> u64 \<Rightarrow> acc3 \<Rightarrow> acc3" where
  "mul_add_c2 a b acc =
     (case acc of (c0, c1, c2) \<Rightarrow>
        let t = ucast a * ucast b;
            tt = t + ucast c0; c0 = Lw tt; hi = Hw tt; c1 = c1 + hi;
            c2 = (if c1 < hi then c2 + 1 else c2);
            t = t + ucast c0; c0 = Lw t; hi = Hw t; c1 = c1 + hi
        in (c0, c1, if c1 < hi then c2 + 1 else c2))"

definition sqr_add_c :: "u64 list \<Rightarrow> nat \<Rightarrow> acc3 \<Rightarrow> acc3" where
  "sqr_add_c a i = mul_add_c (a ! i) (a ! i)"

definition sqr_add_c2 :: "u64 list \<Rightarrow> nat \<Rightarrow> nat \<Rightarrow> acc3 \<Rightarrow> acc3" where
  "sqr_add_c2 a i j = mul_add_c2 (a ! i) (a ! j)"

text \<open>The columns one after the other: the lowest word is stored, and zero comes in at the top.\<close>

fun columns :: "(acc3 \<Rightarrow> acc3) list list \<Rightarrow> acc3 \<Rightarrow> u64 list" where
  "columns [] acc = (case acc of (c0, c1, c2) \<Rightarrow> [c0])"
| "columns (ops # opss) acc =
     (case fold (\<lambda>f. f) ops acc of (c0, c1, c2) \<Rightarrow> c0 # columns opss (c1, c2, 0))"

definition bn_mul_comba8 :: "u64 list \<Rightarrow> u64 list \<Rightarrow> u64 list" where
  "bn_mul_comba8 a b =
     (let m = (\<lambda>i j. mul_add_c (a ! i) (b ! j)) in
      columns
        [[m 0 0],
         [m 0 1, m 1 0],
         [m 2 0, m 1 1, m 0 2],
         [m 0 3, m 1 2, m 2 1, m 3 0],
         [m 4 0, m 3 1, m 2 2, m 1 3, m 0 4],
         [m 0 5, m 1 4, m 2 3, m 3 2, m 4 1, m 5 0],
         [m 6 0, m 5 1, m 4 2, m 3 3, m 2 4, m 1 5, m 0 6],
         [m 0 7, m 1 6, m 2 5, m 3 4, m 4 3, m 5 2, m 6 1, m 7 0],
         [m 7 1, m 6 2, m 5 3, m 4 4, m 3 5, m 2 6, m 1 7],
         [m 2 7, m 3 6, m 4 5, m 5 4, m 6 3, m 7 2],
         [m 7 3, m 6 4, m 5 5, m 4 6, m 3 7],
         [m 4 7, m 5 6, m 6 5, m 7 4],
         [m 7 5, m 6 6, m 5 7],
         [m 6 7, m 7 6],
         [m 7 7]] (0, 0, 0))"

definition bn_mul_comba4 :: "u64 list \<Rightarrow> u64 list \<Rightarrow> u64 list" where
  "bn_mul_comba4 a b =
     (let m = (\<lambda>i j. mul_add_c (a ! i) (b ! j)) in
      columns
        [[m 0 0],
         [m 0 1, m 1 0],
         [m 2 0, m 1 1, m 0 2],
         [m 0 3, m 1 2, m 2 1, m 3 0],
         [m 3 1, m 2 2, m 1 3],
         [m 2 3, m 3 2],
         [m 3 3]] (0, 0, 0))"

definition bn_sqr_comba8 :: "u64 list \<Rightarrow> u64 list" where
  "bn_sqr_comba8 a =
     (let s = sqr_add_c a; t = sqr_add_c2 a in
      columns
        [[s 0],
         [t 1 0],
         [s 1, t 2 0],
         [t 3 0, t 2 1],
         [s 2, t 3 1, t 4 0],
         [t 5 0, t 4 1, t 3 2],
         [s 3, t 4 2, t 5 1, t 6 0],
         [t 7 0, t 6 1, t 5 2, t 4 3],
         [s 4, t 5 3, t 6 2, t 7 1],
         [t 7 2, t 6 3, t 5 4],
         [s 5, t 6 4, t 7 3],
         [t 7 4, t 6 5],
         [s 6, t 7 5],
         [t 7 6],
         [s 7]] (0, 0, 0))"

definition bn_sqr_comba4 :: "u64 list \<Rightarrow> u64 list" where
  "bn_sqr_comba4 a =
     (let s = sqr_add_c a; t = sqr_add_c2 a in
      columns
        [[s 0],
         [t 1 0],
         [s 1, t 2 0],
         [t 3 0, t 2 1],
         [s 2, t 3 1],
         [t 3 2],
         [s 3]] (0, 0, 0))"

end
