(* ===== verification/BN_Words_Spec.thy ===== *)
theory BN_Words_Spec
  imports BN_Words
begin

text \<open>
  Arrays of words as numbers, least significant word first. The locale \<open>carry_chain\<close> is the contract
  of one step of a loop with a carry; every loop of \<open>generic.c\<close> is an instance, and so are those of
  \<open>add.c\<close>. The comba multiplications are columns of operations that each add a product.
\<close>

section \<open>Arrays of words as numbers\<close>

abbreviation WORD :: int where
  "WORD \<equiv> 18446744073709551616"

primrec words_val :: "u64 list \<Rightarrow> int" where
  "words_val [] = 0"
| "words_val (w # ws) = uint w + WORD * words_val ws"

lemma uint64_bounds: "0 \<le> uint (w :: u64)" "uint (w :: u64) < WORD"
  using uint_bounded [of w] by simp_all

lemma word_le_1_cases:
  assumes "uint (w :: 'a::len word) \<le> 1"
  shows "w = 0 \<or> w = 1"
proof -
  have "0 \<le> uint w" by simp
  with assms have "uint w = 0 \<or> uint w = 1" by linarith
  then show ?thesis by (metis uint_0_iff uint_1_eq word_uint_eqI)
qed

lemma words_val_append: "words_val (xs @ ys) = words_val xs + WORD ^ length xs * words_val ys"
  by (induction xs) (simp_all add: algebra_simps)

lemma words_val_nonneg [simp]: "0 \<le> words_val ws"
  by (induction ws) simp_all

lemma words_val_less: "words_val ws < WORD ^ length ws"
proof (induction ws)
  case (Cons w ws)
  have "words_val ws + 1 \<le> WORD ^ length ws" using Cons by simp
  then have "WORD * (words_val ws + 1) \<le> WORD * WORD ^ length ws" by (intro mult_left_mono) simp_all
  with uint64_bounds [of w] show ?case by simp
qed simp

lemma words_val_replicate [simp]: "words_val (replicate n 0) = 0"
  by (induction n) simp_all

lemma words_val_eq_0_iff: "words_val ws = 0 \<longleftrightarrow> ws = replicate (length ws) 0"
proof (induction ws)
  case (Cons w ws)
  have "words_val (w # ws) = 0 \<longleftrightarrow> uint w = 0 \<and> words_val ws = 0"
    using uint64_bounds(1) [of w] words_val_nonneg [of ws] by (auto; linarith)
  with Cons show ?case by (simp add: uint_0_iff)
qed simp

lemma words_val_inj: "length xs = length ys \<Longrightarrow> words_val xs = words_val ys \<Longrightarrow> xs = ys"
proof (induction xs ys rule: list_induct2)
  case (Cons x xs y ys)
  have "uint v = words_val (v # vs) mod WORD" "words_val vs = words_val (v # vs) div WORD" for v vs
    using uint64_bounds [of v] by simp_all
  with Cons show ?case by (metis word_uint_eqI)
qed simp

section \<open>Carry chains\<close>

text \<open>The loops without unrolling.\<close>

primrec plain :: "('x \<Rightarrow> 'c \<Rightarrow> u64 \<times> 'c) \<Rightarrow> 'x list \<Rightarrow> 'c \<Rightarrow> u64 list \<times> 'c" where
  "plain step [] c = ([], c)"
| "plain step (x # xs) c = (case step x c of (r, c) \<Rightarrow> case plain step xs c of (rs, c) \<Rightarrow> (r # rs, c))"

lemma take_four:
  assumes "4 \<le> n" "n \<le> length xs"
  shows "take n xs = xs ! 0 # xs ! 1 # xs ! 2 # xs ! 3 # take (n - 4) (drop 4 xs)"
proof -
  from assms have "4 \<le> length xs" by simp
  then obtain a b c d ys where "xs = a # b # c # d # ys"
    by (auto simp: numeral_eq_Suc Suc_le_length_iff)
  with assms(1) show ?thesis by (auto simp: numeral_eq_Suc take_Cons' gr0_conv_Suc split: nat.splits)
qed

lemma unrolled_plain:
  "n \<le> length xs \<Longrightarrow> unrolled step xs n c = plain step (take n xs) c"
proof (induction step xs n c rule: unrolled.induct)
  case (1 step xs n c)
  consider "4 \<le> n" | "0 < n" "\<not> 4 \<le> n" | "n = 0" by linarith
  then show ?case
  proof cases
    case 1
    with "1.IH"(1) "1.prems" show ?thesis
      by (simp add: unrolled.simps [of step xs n] take_four split: prod.splits)
  next
    case 2
    with "1.prems" obtain x ys k where "xs = x # ys" "n = Suc k" by (cases xs; cases n) auto
    with "1.IH"(2) "1.prems" 2 show ?thesis
      by (subst unrolled.simps) (simp split: prod.splits)
  next
    case 3
    then show ?thesis by (simp add: unrolled.simps)
  qed
qed

primrec digits_val :: "int list \<Rightarrow> int" where
  "digits_val [] = 0"
| "digits_val (x # xs) = x + WORD * digits_val xs"

text \<open>
  The contract of one step of a loop: it adds what the operands at this place are worth to the
  carry, keeps the low word of the sum, and hands on the rest.
\<close>

locale carry_chain =
  fixes step :: "'x \<Rightarrow> 'c \<Rightarrow> u64 \<times> 'c" and worth :: "'x \<Rightarrow> int" and carry :: "'c \<Rightarrow> int" and ok :: "'c \<Rightarrow> bool"
  assumes step: "ok c \<Longrightarrow> step x c = (r, c') \<Longrightarrow> ok c' \<and> uint r + WORD * carry c' = worth x + carry c"
begin

lemma plain_exact:
  assumes "ok c" "plain step xs c = (rs, c')"
  shows "length rs = length xs \<and> ok c' \<and>
    words_val rs + WORD ^ length xs * carry c' = digits_val (map worth xs) + carry c"
  using assms
proof (induction xs arbitrary: c rs c')
  case (Cons x xs)
  obtain r d where s: "step x c = (r, d)" by (rule prod.exhaust)
  obtain qs e where p: "plain step xs d = (qs, e)" by (rule prod.exhaust)
  from Cons.prems(2) s p have rs: "rs = r # qs" "c' = e" by simp_all
  note st = step [OF Cons.prems(1) s]
  note ih = Cons.IH [OF conjunct1 [OF st] p]
  have "words_val rs + WORD ^ length (x # xs) * carry c' =
      uint r + WORD * (words_val qs + WORD ^ length xs * carry e)"
    by (simp add: rs algebra_simps)
  also have "\<dots> = uint r + WORD * carry d + WORD * digits_val (map worth xs)" using ih by (simp add: algebra_simps)
  also have "\<dots> = digits_val (map worth (x # xs)) + carry c" using st by simp
  finally show ?case using ih rs by simp
qed simp

lemma unrolled_exact:
  assumes "n \<le> length xs" "ok c" "unrolled step xs n c = (rs, c')"
  shows "length rs = n \<and> ok c' \<and> words_val rs + WORD ^ n * carry c' = digits_val (map worth (take n xs)) + carry c"
  using plain_exact [OF assms(2), of "take n xs" rs c'] assms(1,3) unrolled_plain [OF assms(1), of step c]
  by (simp add: min_absorb2)

end

section \<open>The steps of the code\<close>

lemma uint_ucast_up [simp]: "uint (ucast (w :: u64) :: u128) = uint w"
  by (simp add: unsigned_ucast_eq take_bit_int_eq_self order_less_trans [OF uint64_bounds(2)])

lemma uint_drop_bit: "uint (drop_bit n w) = uint (w :: 'a::len word) div 2 ^ n"
proof -
  have "take_bit LENGTH('a) (uint w) = uint w" using uint_bounded [of w] by (intro take_bit_int_eq_self) simp_all
  then show ?thesis by (simp only: unsigned_drop_bit_eq) (simp add: drop_bit_eq_div)
qed

lemma uint_add_no_overflow: "uint (a :: 'a::len word) + uint b < 2 ^ LENGTH('a) \<Longrightarrow> uint (a + b) = uint a + uint b"
  using uint_bounded [of a] uint_bounded [of b] by (simp add: uint_word_ariths(1))

lemma Lw_Hw: "uint (Lw t) = uint t mod WORD" "uint (Hw t) = uint t div WORD"
proof -
  show "uint (Lw t) = uint t mod WORD" by (simp add: Lw_def unsigned_ucast_eq take_bit_eq_mod)
  have "uint (drop_bit 64 t) = uint t div WORD" by (simp add: uint_drop_bit)
  moreover have "uint t div WORD < WORD" using uint_bounded [of t] by (simp add: div_less_iff_less_mult)
  ultimately show "uint (Hw t) = uint t div WORD"
    by (simp add: Hw_def BN_BITS2_def unsigned_ucast_eq take_bit_int_eq_self pos_imp_zdiv_nonneg_iff)
qed


lemma word_split: "uint (Lw t) + WORD * uint (Hw t) = uint t"
  by (simp add: Lw_Hw)

text \<open>The product of two words plus two more words fits in 128 bits.\<close>

lemma uint_product: "uint (ucast a * ucast b :: u128) = uint (a :: u64) * uint (b :: u64)"
    and uint_product_add: "uint (ucast a * ucast b + ucast c :: u128) = uint a * uint b + uint (c :: u64)"
    and uint_product_add2: "uint (ucast a * ucast b + ucast c + ucast d :: u128) = uint a * uint b + uint c + uint (d :: u64)"
    and product_bound: "uint a * uint b \<le> 340282366920938463426481119284349108225"
proof -
  have "uint a * uint b \<le> (WORD - 1) * (WORD - 1)"
    using uint64_bounds [of a] uint64_bounds [of b] by (intro mult_mono) simp_all
  then show b: "uint a * uint b \<le> 340282366920938463426481119284349108225" by simp
  then show p: "uint (ucast a * ucast b :: u128) = uint a * uint b" by (simp add: uint_word_ariths(3))
  show q: "uint (ucast a * ucast b + ucast c :: u128) = uint a * uint b + uint c"
    using b uint64_bounds(2) [of c] by (subst uint_add_no_overflow) (simp_all add: p)
  show "uint (ucast a * ucast b + ucast c + ucast d :: u128) = uint a * uint b + uint c + uint d"
    using b uint64_bounds(2) [of c] uint64_bounds(2) [of d] by (subst uint_add_no_overflow) (simp_all add: q)
qed

interpretation mul_add_chain: carry_chain "mul_add w" "\<lambda>(r, a). uint r + uint w * uint a" uint "\<lambda>_. True" for w
  by unfold_locales (auto simp: mul_add_def Let_def word_split uint_product_add2)

interpretation mul_chain: carry_chain "mul_word w" "\<lambda>a. uint w * uint a" uint "\<lambda>_. True" for w
  by unfold_locales (auto simp: mul_word_def Let_def word_split uint_product_add)

interpretation add_chain: carry_chain add_step "\<lambda>(a, b). uint a + uint b" uint "\<lambda>ll. uint ll \<le> 1"
proof
  fix x c r c'
  assume ok: "uint c \<le> 1" and step: "add_step x c = (r, c')"
  obtain a b where x: "x = (a, b)" by (rule prod.exhaust)
  have ab: "uint (ucast a + ucast b :: u128) = uint a + uint b"
    using uint64_bounds(2) [of a] uint64_bounds(2) [of b] by (subst uint_add_no_overflow) simp_all
  define t where "t = c + (ucast a + ucast b)"
  have t: "uint t = uint c + (uint a + uint b)"
    using ok uint64_bounds(2) [of a] uint64_bounds(2) [of b] unfolding t_def by (subst uint_add_no_overflow) (simp_all add: ab)
  have rc: "r = Lw t" "c' = drop_bit 64 t" using step by (simp_all add: add_step_def x Let_def t_def Lw_def BN_BITS2_def)
  have "uint c' = uint t div WORD" by (simp add: rc uint_drop_bit)
  then have "uint r + WORD * uint c' = uint t" by (simp add: rc Lw_Hw)
  moreover have "uint c' \<le> 1"
    using \<open>uint c' = uint t div WORD\<close> t ok uint64_bounds(2) [of a] uint64_bounds(2) [of b] by linarith
  ultimately show "uint c' \<le> 1 \<and> uint r + WORD * uint c' = (case x of (a, b) \<Rightarrow> uint a + uint b) + uint c"
    by (simp add: x t)
qed

interpretation sub_chain: carry_chain sub_step "\<lambda>(a, b). uint a - uint b" "\<lambda>c. - uint c" "\<lambda>c. uint c \<le> 1"
proof
  fix x c r c'
  assume ok: "uint c \<le> 1" and step: "sub_step x c = (r, c')"
  obtain a b where x: "x = (a, b)" by (rule prod.exhaust)
  note c = word_le_1_cases [OF ok]
  have rc: "r = a - b - c" "c' = (if a \<noteq> b then (if a < b then 1 else 0) else c)"
    using step by (simp_all add: sub_step_def x split: if_splits)
  let ?d = "uint a - uint b - uint c"
  have r: "uint r = ?d mod WORD" unfolding rc(1) by (simp add: uint_word_ariths(2) mod_simps)
  have d: "- WORD \<le> ?d" "?d < WORD"
    using uint64_bounds [of a] uint64_bounds [of b] uint64_bounds(1) [of c] ok by linarith+
  have "?d mod WORD = (if ?d < 0 then ?d + WORD else ?d)"
    using d mod_pos_pos_trivial [of "?d + WORD" WORD] by (auto simp: not_less)
  moreover have "c' = (if ?d < 0 then 1 else 0)"
  proof (cases "a = b")
    case True
    with c show ?thesis by (auto simp: rc(2))
  next
    case False
    then have "uint a \<noteq> uint b" by (metis word_uint_eqI)
    with False c show ?thesis by (auto simp: rc(2) word_less_def)
  qed
  ultimately show "uint c' \<le> 1 \<and> uint r + WORD * - uint c' = (case x of (a, b) \<Rightarrow> uint a - uint b) + - uint c"
    using r by (simp add: x)
qed


section \<open>What the loops compute\<close>

lemma digits_val_uint: "digits_val (map uint ws) = words_val ws"
  by (induction ws) simp_all

lemma digits_val_add: "digits_val (map (\<lambda>(a, b). uint a + uint b) (zip as bs)) = words_val (take (length bs) as) + words_val (take (length as) bs)"
  by (induction as bs rule: list_induct2') (simp_all add: algebra_simps)

lemma digits_val_sub: "digits_val (map (\<lambda>(a, b). uint a - uint b) (zip as bs)) = words_val (take (length bs) as) - words_val (take (length as) bs)"
  by (induction as bs rule: list_induct2') (simp_all add: algebra_simps)

lemma digits_val_mul_add:
  "digits_val (map (\<lambda>(r, a). uint r + uint w * uint a) (zip rs as)) =
    words_val (take (length as) rs) + uint w * words_val (take (length rs) as)"
  by (induction rs as rule: list_induct2') (simp_all add: algebra_simps)

lemma digits_val_mul: "digits_val (map (\<lambda>a. uint w * uint a) as) = uint w * words_val as"
  by (induction as) (simp_all add: algebra_simps)

lemma bn_add_words_exact:
  assumes "n \<le> length a" "n \<le> length b" "bn_add_words a b n = (r, carry)"
  shows "length r = n" "carry = 0 \<or> carry = 1"
    "words_val r + WORD ^ n * uint carry = words_val (take n a) + words_val (take n b)"
proof -
  obtain rs ll where u: "unrolled add_step (zip a b) n 0 = (rs, ll)" by (rule prod.exhaust)
  note e = add_chain.unrolled_exact [of n "zip a b" 0 rs ll, OF _ _ u, simplified]
  have rc: "r = rs" "carry = ucast ll"
    using assms(3) u by (auto simp: bn_add_words_def unrolled.simps split: if_splits)
  show "length r = n" using e assms(1,2) rc by simp
  have ll: "ll = 0 \<or> ll = 1" using e assms(1,2) by (intro word_le_1_cases) simp
  then show "carry = 0 \<or> carry = 1" using rc by auto
  have "uint carry = uint ll" using rc e \<open>carry = 0 \<or> carry = 1\<close> ll by auto
  then show "words_val r + WORD ^ n * uint carry = words_val (take n a) + words_val (take n b)"
    using e assms(1,2) rc by (simp add: take_zip digits_val_add min_absorb1 min_absorb2)
qed

lemma bn_sub_words_exact:
  assumes "n \<le> length a" "n \<le> length b" "bn_sub_words a b n = (r, borrow)"
  shows "length r = n" "borrow = 0 \<or> borrow = 1"
    "words_val r - WORD ^ n * uint borrow = words_val (take n a) - words_val (take n b)"
proof -
  have u: "unrolled sub_step (zip a b) n 0 = (r, borrow)"
    using assms(3) by (auto simp: bn_sub_words_def unrolled.simps split: if_splits)
  note e = sub_chain.unrolled_exact [of n "zip a b" 0 r borrow, OF _ _ u, simplified]
  show "length r = n" using e assms(1,2) by simp
  show "borrow = 0 \<or> borrow = 1" using e assms(1,2) by (intro word_le_1_cases) simp
  show "words_val r - WORD ^ n * uint borrow = words_val (take n a) - words_val (take n b)"
    using e assms(1,2) by (simp add: take_zip digits_val_sub min_absorb1 min_absorb2)
qed

lemma bn_mul_add_words_exact:
  assumes "n \<le> length rp" "n \<le> length ap" "bn_mul_add_words rp ap n w = (r, carry)"
  shows "length r = n" "words_val r + WORD ^ n * uint carry = words_val (take n rp) + uint w * words_val (take n ap)"
proof -
  have u: "unrolled (mul_add w) (zip rp ap) n 0 = (r, carry)"
    using assms(3) by (auto simp: bn_mul_add_words_def unrolled.simps split: if_splits)
  note e = mul_add_chain.unrolled_exact [of n "zip rp ap" w 0 r carry, OF _ _ u, simplified]
  show "length r = n" using e assms(1,2) by simp
  show "words_val r + WORD ^ n * uint carry = words_val (take n rp) + uint w * words_val (take n ap)"
    using e assms(1,2) by (simp add: take_zip digits_val_mul_add min_absorb1 min_absorb2)
qed

lemma bn_mul_words_exact:
  assumes "n \<le> length ap" "bn_mul_words ap n w = (r, carry)"
  shows "length r = n" "words_val r + WORD ^ n * uint carry = uint w * words_val (take n ap)"
proof -
  have u: "unrolled (mul_word w) ap n 0 = (r, carry)"
    using assms(2) by (auto simp: bn_mul_words_def unrolled.simps split: if_splits)
  note e = mul_chain.unrolled_exact [of n ap w 0 r carry, OF _ _ u, simplified]
  show "length r = n" using e assms(1) by simp
  show "words_val r + WORD ^ n * uint carry = uint w * words_val (take n ap)"
    using e assms(1) by (simp add: digits_val_mul)
qed

section \<open>Comba multiplication\<close>

definition acc_val :: "acc3 \<Rightarrow> int" where
  "acc_val acc = (case acc of (c0, c1, c2) \<Rightarrow> uint c0 + WORD * uint c1 + WORD ^ 2 * uint c2)"

lemma add_with_carry:
  "uint (x + y :: u64) + WORD * (if x + y < y then 1 else 0) = uint x + uint y"
proof -
  have "uint (x + y) = (if uint x + uint y < WORD then uint x + uint y else uint x + uint y - WORD)"
    using uint64_bounds [of x] uint64_bounds [of y] mod_pos_pos_trivial [of "uint x + uint y - WORD" WORD]
    by (simp add: uint_word_ariths(1))
  then show ?thesis using uint64_bounds [of x] uint64_bounds [of y] by (auto simp: word_less_def)
qed

definition adds :: "(acc3 \<Rightarrow> acc3) \<Rightarrow> int \<Rightarrow> bool" where
  "adds f v \<longleftrightarrow> 0 \<le> v \<and> (\<forall>acc. acc_val acc + v < WORD ^ 3 \<longrightarrow> acc_val (f acc) = acc_val acc + v)"

lemma addsD: "adds f v \<Longrightarrow> acc_val acc + v < WORD ^ 3 \<Longrightarrow> acc_val (f acc) = acc_val acc + v"
  and adds_nonneg: "adds f v \<Longrightarrow> 0 \<le> v"
  unfolding adds_def by blast+

lemma adds_mul_add_c: "adds (mul_add_c a b) (uint a * uint b)"
  unfolding adds_def
proof (intro conjI allI impI)
  fix acc
  assume bound: "acc_val acc + uint a * uint b < WORD ^ 3"
  obtain c0 c1 c2 where acc: "acc = (c0, c1, c2)" by (rule prod_cases3)
  define t :: u128 where "t = ucast a * ucast b + ucast c0"
  have t: "uint (Lw t) + WORD * uint (Hw t) = uint a * uint b + uint c0"
    unfolding t_def by (simp only: word_split uint_product_add)
  define d where "d = (if c1 + Hw t < Hw t then 1 else 0 :: int)"
  have s: "uint (c1 + Hw t) + WORD * d = uint c1 + uint (Hw t)" unfolding d_def by (rule add_with_carry)
  have v: "acc_val acc + uint a * uint b = uint (Lw t) + WORD * uint (c1 + Hw t) + WORD ^ 2 * (uint c2 + d)"
    using s t by (simp add: acc acc_val_def)
  have "uint c2 + d < WORD"
    using bound unfolding v by simp (use uint64_bounds(1) [of "Lw t"] uint64_bounds(1) [of "c1 + Hw t"] in linarith)
  then have "uint (if c1 + Hw t < Hw t then c2 + 1 else c2) = uint c2 + d"
    unfolding d_def by (auto simp: uint_add_no_overflow split: if_splits)
  moreover have "mul_add_c a b acc = (Lw t, c1 + Hw t, if c1 + Hw t < Hw t then c2 + 1 else c2)"
    by (simp add: mul_add_c_def acc Let_def t_def)
  ultimately show "acc_val (mul_add_c a b acc) = acc_val acc + uint a * uint b" unfolding v by (simp add: acc_val_def)
qed simp

lemma adds_twice:
  assumes "adds f v"
  shows "adds (\<lambda>acc. f (f acc)) (2 * v)"
  unfolding adds_def
proof (intro conjI allI impI)
  show "0 \<le> 2 * v" using adds_nonneg [OF assms] by simp
  fix acc
  assume b: "acc_val acc + 2 * v < WORD ^ 3"
  have f: "acc_val (f acc) = acc_val acc + v" using b adds_nonneg [OF assms] by (intro addsD [OF assms]) linarith
  with addsD [OF assms, of "f acc"] b show "acc_val (f (f acc)) = acc_val acc + 2 * v" by linarith
qed

lemma mul_add_c2_twice: "mul_add_c2 a b = (\<lambda>acc. mul_add_c a b (mul_add_c a b acc))"
  by (rule ext) (simp add: mul_add_c2_def mul_add_c_def Let_def split: prod.splits)

lemma adds_mul_add_c2: "adds (mul_add_c2 a b) (2 * (uint a * uint b))"
  unfolding mul_add_c2_twice by (rule adds_twice) (rule adds_mul_add_c)

lemma fold_adds:
  assumes "list_all2 adds ops vs" "acc_val acc + sum_list vs < WORD ^ 3"
  shows "acc_val (fold (\<lambda>f. f) ops acc) = acc_val acc + sum_list vs"
  using assms
proof (induction ops vs arbitrary: acc rule: list_all2_induct)
  case (Cons f fs v vs)
  have "0 \<le> sum_list vs" using Cons.hyps(2) by (induction rule: list_all2_induct) (auto simp: adds_def)
  then have f: "acc_val (f acc) = acc_val acc + v" using Cons.prems by (intro addsD [OF Cons.hyps(1)]) simp
  then have "acc_val (fold (\<lambda>f. f) fs (f acc)) = acc_val (f acc) + sum_list vs"
    using Cons.prems by (intro Cons.IH) simp
  with f show ?case by simp
qed simp

lemma low_digit_mod: "0 \<le> c \<Longrightarrow> c < w \<Longrightarrow> 0 \<le> m \<Longrightarrow> c + w * (x mod m) = (c + w * x) mod (w * m :: int)"
  by (simp add: zmod_zmult2_eq)

lemma columns_exact:
  assumes "list_all2 (list_all2 adds) opss vss" "\<forall>vs\<in>set vss. sum_list vs \<le> WORD ^ 3 - WORD ^ 2" "acc_val acc < WORD ^ 2"
  shows "words_val (columns opss acc) = (acc_val acc + digits_val (map sum_list vss)) mod WORD ^ Suc (length vss)"
  using assms
proof (induction opss vss arbitrary: acc rule: list_all2_induct)
  case Nil
  obtain c0 c1 c2 where acc: "acc = (c0, c1, c2)" by (rule prod_cases3)
  have v: "acc_val acc = uint c0 + WORD * (uint c1 + WORD * uint c2)" by (simp add: acc acc_val_def)
  have "acc_val acc mod WORD = uint c0" unfolding v mod_mult_self2 using uint64_bounds [of c0] by simp
  then show ?case by (simp add: acc)
next
  case (Cons ops opss vs vss)
  obtain c0 c1 c2 where c: "fold (\<lambda>f. f) ops acc = (c0, c1, c2)" by (rule prod_cases3)
  have "acc_val (c0, c1, c2) = acc_val acc + sum_list vs"
    using fold_adds [OF Cons.hyps(1), of acc] Cons.prems c by simp
  then have v: "acc_val acc + sum_list vs = uint c0 + WORD * acc_val (c1, c2, 0)" by (simp add: acc_val_def)
  have b: "acc_val (c1, c2, 0) < WORD ^ 2" using uint64_bounds [of c1] uint64_bounds [of c2] by (simp add: acc_val_def)
  have "words_val (columns (ops # opss) acc) =
      uint c0 + WORD * ((acc_val (c1, c2, 0) + digits_val (map sum_list vss)) mod WORD ^ Suc (length vss))"
    using Cons.IH [OF _ b] Cons.prems by (simp add: c)
  also have "\<dots> = (uint c0 + WORD * (acc_val (c1, c2, 0) + digits_val (map sum_list vss))) mod (WORD * WORD ^ Suc (length vss))"
    by (rule low_digit_mod [OF uint64_bounds]) simp
  also have "uint c0 + WORD * (acc_val (c1, c2, 0) + digits_val (map sum_list vss)) =
      acc_val acc + digits_val (map sum_list (vs # vss))"
    using v by (simp add: algebra_simps)
  finally show ?case by simp
qed


lemma product_small:
  assumes "length a = n" "length b = n"
  shows "words_val a * words_val b mod WORD ^ (n + n) = words_val a * words_val b"
proof (rule mod_pos_pos_trivial)
  show "words_val a * words_val b < WORD ^ (n + n)"
    unfolding power_add using words_val_less [of a] words_val_less [of b] assms by (intro mult_strict_mono) simp_all
qed simp

lemma comba_exact:
  assumes "list_all2 (list_all2 adds) opss (map f ijss)" "\<And>ijs. ijs \<in> set ijss \<Longrightarrow> sum_list (f ijs) \<le> WORD ^ 3 - WORD ^ 2"
    and "digits_val (map (\<lambda>ijs. sum_list (f ijs)) ijss) = words_val a * words_val b"
    and "length a = n" "length b = n" "Suc (length ijss) = n + n"
  shows "words_val (columns opss (0, 0, 0)) = words_val a * words_val b"
proof -
  have "words_val (columns opss (0, 0, 0)) = digits_val (map (\<lambda>ijs. sum_list (f ijs)) ijss) mod WORD ^ Suc (length ijss)"
    using columns_exact [OF assms(1), of "(0, 0, 0)"] assms(2) by (simp add: acc_val_def comp_def)
  then show ?thesis unfolding assms(3,6) product_small [OF assms(4,5)] .
qed

text \<open>A column as the pairs of its indices; the sum of a column is below eight times \<open>WORD ^ 2\<close>.\<close>

definition column_of :: "u64 list \<Rightarrow> u64 list \<Rightarrow> (nat \<times> nat) list \<Rightarrow> int list" where
  "column_of a b ijs = map (\<lambda>(i, j). uint (a ! i) * uint (b ! j)) ijs"

lemma column_bound:
  assumes "length ijs \<le> 8"
  shows "sum_list (column_of a b ijs) \<le> WORD ^ 3 - WORD ^ 2"
proof -
  have "sum_list (column_of a b ijs) \<le> int (length ijs) * 340282366920938463426481119284349108225"
  proof (induction ijs)
    case (Cons ij ijs)
    obtain i j where "ij = (i, j)" by (rule prod.exhaust)
    with Cons product_bound [of "a ! i" "b ! j"] show ?case by (simp add: column_of_def algebra_simps)
  qed (simp add: column_of_def)
  also have "\<dots> \<le> 8 * 340282366920938463426481119284349108225" using assms by simp
  finally show ?thesis by simp
qed

definition square_column :: "u64 list \<Rightarrow> (nat \<times> nat) list \<Rightarrow> int list" where
  "square_column a ijs = map (\<lambda>(i, j). if i = j then uint (a ! i) * uint (a ! i) else 2 * (uint (a ! i) * uint (a ! j))) ijs"

lemma square_column_bound:
  assumes "length ijs \<le> 4"
  shows "sum_list (square_column a ijs) \<le> WORD ^ 3 - WORD ^ 2"
proof -
  have "sum_list (square_column a ijs) \<le> int (length ijs) * (2 * 340282366920938463426481119284349108225)"
  proof (induction ijs)
    case (Cons ij ijs)
    obtain i j where "ij = (i, j)" by (rule prod.exhaust)
    with Cons product_bound [of "a ! i" "a ! j"] show ?case by (auto simp: square_column_def algebra_simps)
  qed (simp add: square_column_def)
  also have "\<dots> \<le> 4 * (2 * 340282366920938463426481119284349108225)" using assms by simp
  finally show ?thesis by simp
qed

abbreviation columns8 :: "(nat \<times> nat) list list" where
  "columns8 \<equiv> [[(0, 0)], [(0, 1), (1, 0)], [(2, 0), (1, 1), (0, 2)], [(0, 3), (1, 2), (2, 1), (3, 0)], [(4, 0), (3, 1), (2, 2), (1, 3), (0, 4)], [(0, 5), (1, 4), (2, 3), (3, 2), (4, 1), (5, 0)], [(6, 0), (5, 1), (4, 2), (3, 3), (2, 4), (1, 5), (0, 6)], [(0, 7), (1, 6), (2, 5), (3, 4), (4, 3), (5, 2), (6, 1), (7, 0)], [(7, 1), (6, 2), (5, 3), (4, 4), (3, 5), (2, 6), (1, 7)], [(2, 7), (3, 6), (4, 5), (5, 4), (6, 3), (7, 2)], [(7, 3), (6, 4), (5, 5), (4, 6), (3, 7)], [(4, 7), (5, 6), (6, 5), (7, 4)], [(7, 5), (6, 6), (5, 7)], [(6, 7), (7, 6)], [(7, 7)]]"

abbreviation columns4 :: "(nat \<times> nat) list list" where
  "columns4 \<equiv> [[(0, 0)], [(0, 1), (1, 0)], [(2, 0), (1, 1), (0, 2)], [(0, 3), (1, 2), (2, 1), (3, 0)], [(3, 1), (2, 2), (1, 3)], [(2, 3), (3, 2)], [(3, 3)]]"

lemma words8:
  assumes "length a = 8"
  shows "words_val a = digits_val [uint (a ! 0), uint (a ! 1), uint (a ! 2), uint (a ! 3),
    uint (a ! 4), uint (a ! 5), uint (a ! 6), uint (a ! 7)]"
proof -
  from assms obtain a0 a1 a2 a3 a4 a5 a6 a7 where "a = [a0, a1, a2, a3, a4, a5, a6, a7]"
    by (auto simp: numeral_eq_Suc length_Suc_conv)
  then show ?thesis by simp
qed

lemma words4:
  assumes "length a = 4"
  shows "words_val a = digits_val [uint (a ! 0), uint (a ! 1), uint (a ! 2), uint (a ! 3)]"
proof -
  from assms obtain a0 a1 a2 a3 where "a = [a0, a1, a2, a3]" by (auto simp: numeral_eq_Suc length_Suc_conv)
  then show ?thesis by simp
qed

lemma word_product_columns:
  "length a = 8 \<Longrightarrow> length b = 8 \<Longrightarrow> digits_val (map (\<lambda>ijs. sum_list (column_of a b ijs)) columns8) = words_val a * words_val b"
  "length a = 4 \<Longrightarrow> length b = 4 \<Longrightarrow> digits_val (map (\<lambda>ijs. sum_list (column_of a b ijs)) columns4) = words_val a * words_val b"
  by (simp_all add: words8 words4 column_of_def algebra_simps)

lemma length_columns [simp]: "length (columns opss acc) = Suc (length opss)"
  by (induction opss acc rule: columns.induct) (simp_all split: prod.splits)

lemma bn_mul_comba8_exact:
  assumes "length a = 8" "length b = 8"
  shows "length (bn_mul_comba8 a b) = 16" "words_val (bn_mul_comba8 a b) = words_val a * words_val b"
proof -
  show "words_val (bn_mul_comba8 a b) = words_val a * words_val b"
    unfolding bn_mul_comba8_def Let_def
    by (rule comba_exact [OF _ column_bound word_product_columns(1) [OF assms] assms])
      (auto simp: column_of_def adds_mul_add_c)
  show "length (bn_mul_comba8 a b) = 16" unfolding bn_mul_comba8_def Let_def length_columns by simp
qed

lemma bn_mul_comba4_exact:
  assumes "length a = 4" "length b = 4"
  shows "length (bn_mul_comba4 a b) = 8" "words_val (bn_mul_comba4 a b) = words_val a * words_val b"
proof -
  show "words_val (bn_mul_comba4 a b) = words_val a * words_val b"
    unfolding bn_mul_comba4_def Let_def
    by (rule comba_exact [OF _ column_bound word_product_columns(2) [OF assms] assms])
      (auto simp: column_of_def adds_mul_add_c)
  show "length (bn_mul_comba4 a b) = 8" unfolding bn_mul_comba4_def Let_def length_columns by simp
qed

abbreviation squares8 :: "(nat \<times> nat) list list" where
  "squares8 \<equiv> [[(0, 0)], [(1, 0)], [(1, 1), (2, 0)], [(3, 0), (2, 1)], [(2, 2), (3, 1), (4, 0)], [(5, 0), (4, 1), (3, 2)], [(3, 3), (4, 2), (5, 1), (6, 0)], [(7, 0), (6, 1), (5, 2), (4, 3)], [(4, 4), (5, 3), (6, 2), (7, 1)], [(7, 2), (6, 3), (5, 4)], [(5, 5), (6, 4), (7, 3)], [(7, 4), (6, 5)], [(6, 6), (7, 5)], [(7, 6)], [(7, 7)]]"

abbreviation squares4 :: "(nat \<times> nat) list list" where
  "squares4 \<equiv> [[(0, 0)], [(1, 0)], [(1, 1), (2, 0)], [(3, 0), (2, 1)], [(2, 2), (3, 1)], [(3, 2)], [(3, 3)]]"

lemma square_columns:
  "length a = 8 \<Longrightarrow> digits_val (map (\<lambda>ijs. sum_list (square_column a ijs)) squares8) = words_val a * words_val a"
  "length a = 4 \<Longrightarrow> digits_val (map (\<lambda>ijs. sum_list (square_column a ijs)) squares4) = words_val a * words_val a"
  by (simp_all add: words8 words4 square_column_def algebra_simps)

lemma adds_sqr: "adds (sqr_add_c a i) (uint (a ! i) * uint (a ! i))" "adds (sqr_add_c2 a i j) (2 * (uint (a ! i) * uint (a ! j)))"
  unfolding sqr_add_c_def sqr_add_c2_def by (rule adds_mul_add_c adds_mul_add_c2)+

lemma bn_sqr_comba8_exact:
  assumes "length a = 8"
  shows "length (bn_sqr_comba8 a) = 16" "words_val (bn_sqr_comba8 a) = words_val a * words_val a"
proof -
  show "words_val (bn_sqr_comba8 a) = words_val a * words_val a"
    unfolding bn_sqr_comba8_def Let_def
    by (rule comba_exact [OF _ square_column_bound square_columns(1) [OF assms] assms assms])
      (auto simp: square_column_def adds_sqr)
  show "length (bn_sqr_comba8 a) = 16" unfolding bn_sqr_comba8_def Let_def length_columns by simp
qed

lemma bn_sqr_comba4_exact:
  assumes "length a = 4"
  shows "length (bn_sqr_comba4 a) = 8" "words_val (bn_sqr_comba4 a) = words_val a * words_val a"
proof -
  show "words_val (bn_sqr_comba4 a) = words_val a * words_val a"
    unfolding bn_sqr_comba4_def Let_def
    by (rule comba_exact [OF _ square_column_bound square_columns(2) [OF assms] assms assms])
      (auto simp: square_column_def adds_sqr)
  show "length (bn_sqr_comba4 a) = 8" unfolding bn_sqr_comba4_def Let_def length_columns by simp
qed

section \<open>Squares of the words\<close>

primrec squares_val :: "u64 list \<Rightarrow> int" where
  "squares_val [] = 0"
| "squares_val (a # as) = uint a * uint a + WORD ^ 2 * squares_val as"

lemma sqr_exact: "sqr a = (lo, hi) \<Longrightarrow> uint lo + WORD * uint hi = uint a * uint a"
  by (auto simp: sqr_def Let_def word_split uint_product)

lemma bn_sqr_words_exact:
  "n \<le> length a \<Longrightarrow> length (bn_sqr_words a n) = 2 * n \<and> words_val (bn_sqr_words a n) = squares_val (take n a)"
proof (induction a n rule: bn_sqr_words.induct)
  case (1 a n)
  obtain l0 l1 l2 l3 h0 h1 h2 h3 where s: "sqr (a ! 0) = (l0, h0)" "sqr (a ! 1) = (l1, h1)" "sqr (a ! 2) = (l2, h2)" "sqr (a ! 3) = (l3, h3)"
    by (metis prod.exhaust)
  note e = s [THEN sqr_exact]
  consider "4 \<le> n" | "0 < n" "\<not> 4 \<le> n" | "n = 0" by linarith
  then show ?case
  proof cases
    case 1
    with "1.IH"(1) [OF 1 s [symmetric]] "1.prems" e show ?thesis
      by (simp add: bn_sqr_words.simps [of a n] s s(2) [simplified] take_four algebra_simps)
  next
    case 2
    with "1.prems" obtain x ys k where x: "a = x # ys" "n = Suc k" by (cases a; cases n) auto
    with "1.IH"(2) "1.prems" 2 e(1) s(1) show ?thesis
      by (subst bn_sqr_words.simps, subst bn_sqr_words.simps) (simp add: algebra_simps)
  next
    case 3
    then show ?thesis by (simp add: bn_sqr_words.simps)
  qed
qed

section \<open>The properties\<close>

text \<open>
  Adding and subtracting arrays of words, and multiplying one by a word with and without adding,
  are exact: the words stored with the carry or borrow returned are the number on paper, and the
  carry of an addition and the borrow of a subtraction are 0 or 1.
\<close>

theorem bn_words_exact:
  assumes "n \<le> length a" "n \<le> length b"
  shows "(case bn_add_words a b n of (r, c) \<Rightarrow>
      c \<in> {0, 1} \<and> words_val r + WORD ^ n * uint c = words_val (take n a) + words_val (take n b)) \<and>
    (case bn_sub_words a b n of (r, c) \<Rightarrow>
      c \<in> {0, 1} \<and> words_val r - WORD ^ n * uint c = words_val (take n a) - words_val (take n b)) \<and>
    (case bn_mul_words a n w of (r, c) \<Rightarrow> words_val r + WORD ^ n * uint c = uint w * words_val (take n a)) \<and>
    (case bn_mul_add_words a b n w of (r, c) \<Rightarrow>
      words_val r + WORD ^ n * uint c = words_val (take n a) + uint w * words_val (take n b))"
  using bn_add_words_exact [OF assms] bn_sub_words_exact [OF assms] bn_mul_words_exact [OF assms(1)]
    bn_mul_add_words_exact [OF assms]
  by (auto split: prod.splits)

theorem bn_words_exact_witness:
  "(case bn_add_words [0x8000000000000000] [0x8000000000000001] 1 of (r, c) \<Rightarrow> words_val r + WORD * uint c = WORD + 1) \<and>
   (case bn_sub_words [0] [1] 1 of (r, c) \<Rightarrow> words_val r - WORD * uint c = - 1)"
proof -
  have l: "(1 :: nat) \<le> length [0x8000000000000000 :: u64]" "(1 :: nat) \<le> length [0x8000000000000001 :: u64]"
    "(1 :: nat) \<le> length [0 :: u64]" "(1 :: nat) \<le> length [1 :: u64]" by simp_all
  note conjunct1 [OF bn_words_exact [OF l(1,2), of 0]]
  moreover note conjunct1 [OF conjunct2 [OF bn_words_exact [OF l(3,4), of 0]]]
  ultimately show ?thesis by (auto split: prod.splits)
qed

text \<open>
  C38: the unrolled comba multiplications and squarings of four and eight words, which keep a sum of
  three rotating words, give all words of the product.
\<close>

theorem bn_comba_exact:
  assumes "length a = 8" "length b = 8" "length x = 4" "length y = 4"
  shows "words_val (bn_mul_comba8 a b) = words_val a * words_val b \<and>
    words_val (bn_sqr_comba8 a) = words_val a * words_val a \<and>
    words_val (bn_mul_comba4 x y) = words_val x * words_val y \<and>
    words_val (bn_sqr_comba4 x) = words_val x * words_val x"
  using bn_mul_comba8_exact [OF assms(1,2)] bn_mul_comba4_exact [OF assms(3,4)]
    bn_sqr_comba8_exact [OF assms(1)] bn_sqr_comba4_exact [OF assms(3)] by blast

theorem bn_comba_exact_witness:
  "words_val (bn_mul_comba4 [1, 2, 3, 4] [5, 6, 7, 8]) = words_val [1, 2, 3, 4] * words_val [5, 6, 7, 8]"
proof -
  have l: "length [1, 2, 3, 4, 5, 6, 7, 8 :: u64] = 8" "length [1, 2, 3, 4 :: u64] = 4" "length [5, 6, 7, 8 :: u64] = 4" by simp_all
  show ?thesis by (rule conjunct1 [OF conjunct2 [OF conjunct2 [OF bn_comba_exact [OF l(1) l(1) l(2) l(3)]]]])
qed

end
