(* ===== verification/BN.thy ===== *)
theory BN
  imports BN_Words Constant_Time Mem
begin

text \<open>
  \<open>crypto/fipsmodule/bn\<close>: the files \<open>bn.c\<close>, \<open>cmp.c\<close>, \<open>bytes.c\<close>, \<open>add.c\<close> and \<open>shift.c\<close> on a 64-bit
  machine. A function that writes a \<open>BIGNUM *r\<close> takes the old value of \<open>*r\<close> and returns whether it
  succeeded with the new one. The code lets \<open>r\<close> be one of the operands: each loop reads the words of
  an operand before it stores a word at their place, so the result is the same.
\<close>

section \<open>\<open>bn.c\<close>\<close>

record bignum =
  bn_d :: "u64 list"
  bn_width :: nat
  bn_dmax :: nat
  bn_neg :: bool
  bn_flags :: u32

definition BN_FLG_MALLOCED :: u32 where
  "BN_FLG_MALLOCED = 0x01"

definition BN_FLG_STATIC_DATA :: u32 where
  "BN_FLG_STATIC_DATA = 0x02"

definition BN_BYTES :: nat where
  "BN_BYTES = 8"

definition BN_MASK2 :: u64 where
  "BN_MASK2 = 0xffffffffffffffff"

text \<open>The allocator hands out words; the prefix of \<open>OPENSSL_malloc\<close> takes the first.\<close>

type_synonym word_alloc = "nat \<Rightarrow> u64 list option"

definition malloc_words :: "word_alloc \<Rightarrow> nat \<Rightarrow> u64 list option" where
  "malloc_words alloc sz =
     (case alloc ((sz + OPENSSL_MALLOC_PREFIX) mod SIZE_LIMIT) of
        None \<Rightarrow> None
      | Some p \<Rightarrow> Some (drop (OPENSSL_MALLOC_PREFIX div BN_BYTES) p))"

definition BN_init :: bignum where
  "BN_init = \<lparr>bn_d = [], bn_width = 0, bn_dmax = 0, bn_neg = False, bn_flags = 0\<rparr>"

text \<open>\<open>obj_ok\<close> tells whether the allocation of the structure itself succeeds.\<close>

definition BN_new :: "bool \<Rightarrow> bignum option" where
  "BN_new obj_ok = (if obj_ok then Some (BN_init\<lparr>bn_flags := BN_FLG_MALLOCED\<rparr>) else None)"

definition bn_wexpand :: "word_alloc \<Rightarrow> bignum \<Rightarrow> nat \<Rightarrow> bool \<times> bignum" where
  "bn_wexpand alloc bn words =
     (if words \<le> bn_dmax bn then (True, bn)
      else if words > INT_MAX div (4 * BN_BITS2) then (False, bn)
      else if bn_flags bn AND BN_FLG_STATIC_DATA \<noteq> 0 then (False, bn)
      else case malloc_words alloc (8 * words) of
             None \<Rightarrow> (False, bn)
           | Some a \<Rightarrow> (True, bn\<lparr>bn_d := store_at a 0 (take (bn_width bn) (bn_d bn)), bn_dmax := words\<rparr>))"

definition bn_expand :: "word_alloc \<Rightarrow> bignum \<Rightarrow> nat \<Rightarrow> bool \<times> bignum" where
  "bn_expand alloc bn bits =
     (if (bits + BN_BITS2 - 1) mod SIZE_LIMIT < bits then (False, bn)
      else bn_wexpand alloc bn ((bits + BN_BITS2 - 1) div BN_BITS2))"

definition BN_copy :: "word_alloc \<Rightarrow> bignum \<Rightarrow> bignum \<Rightarrow> bool \<times> bignum" where
  "BN_copy alloc dest src =
     (case bn_wexpand alloc dest (bn_width src) of
        (False, dest) \<Rightarrow> (False, dest)
      | (True, dest) \<Rightarrow>
          (True, dest\<lparr>bn_d := store_at (bn_d dest) 0 (take (bn_width src) (bn_d src)),
                      bn_width := bn_width src, bn_neg := bn_neg src\<rparr>))"

definition BN_dup :: "bool \<Rightarrow> word_alloc \<Rightarrow> bignum option \<Rightarrow> bignum option" where
  "BN_dup obj_ok alloc src =
     (case src of None \<Rightarrow> None
      | Some src \<Rightarrow> (case BN_new obj_ok of None \<Rightarrow> None
        | Some cpy \<Rightarrow> (case BN_copy alloc cpy src of (False, cpy) \<Rightarrow> None | (True, cpy) \<Rightarrow> Some cpy)))"

definition BN_clear :: "bignum \<Rightarrow> bignum" where
  "BN_clear bn = bn\<lparr>bn_d := replicate (bn_dmax bn) 0, bn_width := 0, bn_neg := False\<rparr>"

definition BN_value_one :: bignum where
  "BN_value_one = \<lparr>bn_d = [1], bn_width = 1, bn_dmax = 1, bn_neg = False, bn_flags = BN_FLG_STATIC_DATA\<rparr>"

text \<open>One block of the count: if the upper half is not zero, count the lower half in full.\<close>

definition num_bits_block :: "nat \<Rightarrow> u64 \<times> nat \<Rightarrow> u64 \<times> nat" where
  "num_bits_block n lb =
     (case lb of (l, bits) \<Rightarrow>
        let x = drop_bit n l; m = 0 - x; m = 0 - drop_bit (BN_BITS2 - 1) m
        in (l XOR ((x XOR l) AND m), bits + unat (word_of_nat n AND m)))"

definition BN_num_bits_word :: "u64 \<Rightarrow> nat" where
  "BN_num_bits_word l =
     snd (num_bits_block 1 (num_bits_block 2 (num_bits_block 4 (num_bits_block 8 (num_bits_block 16
       (num_bits_block 32 (l, if l \<noteq> 0 then 1 else 0)))))))"

primrec minimal_width_loop :: "u64 list \<Rightarrow> nat \<Rightarrow> nat" where
  "minimal_width_loop d 0 = 0"
| "minimal_width_loop d (Suc ret) = (if d ! ret = 0 then minimal_width_loop d ret else Suc ret)"

definition bn_minimal_width :: "bignum \<Rightarrow> nat" where
  "bn_minimal_width bn = minimal_width_loop (bn_d bn) (bn_width bn)"

definition bn_set_minimal_width :: "bignum \<Rightarrow> bignum" where
  "bn_set_minimal_width bn =
     (let bn = bn\<lparr>bn_width := bn_minimal_width bn\<rparr>
      in if bn_width bn = 0 then bn\<lparr>bn_neg := False\<rparr> else bn)"

definition BN_num_bits :: "bignum \<Rightarrow> nat" where
  "BN_num_bits bn =
     (let width = bn_minimal_width bn
      in if width = 0 then 0 else (width - 1) * BN_BITS2 + BN_num_bits_word (bn_d bn ! (width - 1)))"

definition BN_num_bytes :: "bignum \<Rightarrow> nat" where
  "BN_num_bytes bn = (BN_num_bits bn + 7) div 8"

definition BN_zero :: "bignum \<Rightarrow> bignum" where
  "BN_zero bn = bn\<lparr>bn_width := 0, bn_neg := False\<rparr>"

definition BN_set_word :: "word_alloc \<Rightarrow> bignum \<Rightarrow> u64 \<Rightarrow> bool \<times> bignum" where
  "BN_set_word alloc bn val =
     (if val = 0 then (True, BN_zero bn)
      else case bn_wexpand alloc bn 1 of
             (False, bn) \<Rightarrow> (False, bn)
           | (True, bn) \<Rightarrow> (True, bn\<lparr>bn_neg := False, bn_d := (bn_d bn)[0 := val], bn_width := 1\<rparr>))"

definition BN_one :: "word_alloc \<Rightarrow> bignum \<Rightarrow> bool \<times> bignum" where
  "BN_one alloc bn = BN_set_word alloc bn 1"

definition BN_set_u64 :: "word_alloc \<Rightarrow> bignum \<Rightarrow> u64 \<Rightarrow> bool \<times> bignum" where
  "BN_set_u64 alloc bn val = BN_set_word alloc bn val"

definition bn_set_words :: "word_alloc \<Rightarrow> bignum \<Rightarrow> u64 list \<Rightarrow> nat \<Rightarrow> bool \<times> bignum" where
  "bn_set_words alloc bn words num =
     (case bn_wexpand alloc bn num of
        (False, bn) \<Rightarrow> (False, bn)
      | (True, bn) \<Rightarrow> (True, bn\<lparr>bn_d := store_at (bn_d bn) 0 (take num words), bn_width := num, bn_neg := False\<rparr>))"

definition or_words :: "u64 list \<Rightarrow> nat \<Rightarrow> nat \<Rightarrow> u64" where
  "or_words d i n = fold (\<lambda>k m. m OR d ! k) [i..<n] 0"

definition bn_fits_in_words :: "bignum \<Rightarrow> nat \<Rightarrow> bool" where
  "bn_fits_in_words bn num \<longleftrightarrow> or_words (bn_d bn) num (bn_width bn) = 0"

text \<open>The words stored to \<open>out\<close>, when the call succeeds.\<close>

definition bn_copy_words :: "nat \<Rightarrow> bignum \<Rightarrow> u64 list option" where
  "bn_copy_words num bn =
     (if bn_neg bn then None
      else if bn_width bn > num \<and> \<not> bn_fits_in_words bn num then None
      else let width = min (bn_width bn) num
           in Some (store_at (replicate num 0) 0 (take width (bn_d bn))))"

definition BN_is_negative :: "bignum \<Rightarrow> bool" where
  "BN_is_negative bn \<longleftrightarrow> bn_neg bn"

definition bn_resize_words :: "word_alloc \<Rightarrow> bignum \<Rightarrow> nat \<Rightarrow> bool \<times> bignum" where
  "bn_resize_words alloc bn words =
     (if bn_width bn \<le> words then
        case bn_wexpand alloc bn words of
          (False, bn) \<Rightarrow> (False, bn)
        | (True, bn) \<Rightarrow>
            (True, bn\<lparr>bn_d := store_at (bn_d bn) (bn_width bn) (replicate (words - bn_width bn) 0), bn_width := words\<rparr>)
      else if \<not> bn_fits_in_words bn words then (False, bn)
      else (True, bn\<lparr>bn_width := words\<rparr>))"

definition bn_select_words :: "u64 \<Rightarrow> u64 list \<Rightarrow> u64 list \<Rightarrow> nat \<Rightarrow> u64 list" where
  "bn_select_words m a b num = map (\<lambda>i. constant_time_select_w m (a ! i) (b ! i)) [0..<num]"

section \<open>\<open>cmp.c\<close>\<close>

definition cmp_step :: "u64 list \<Rightarrow> u64 list \<Rightarrow> nat \<Rightarrow> u32 \<Rightarrow> u32" where
  "cmp_step a b i ret =
     (let eq = constant_time_eq_w (a ! i) (b ! i); lt = constant_time_lt_w (a ! i) (b ! i)
      in constant_time_select_int eq ret (constant_time_select_int lt (- 1) 1))"

definition bn_cmp_words_consttime :: "u64 list \<Rightarrow> nat \<Rightarrow> u64 list \<Rightarrow> nat \<Rightarrow> u32" where
  "bn_cmp_words_consttime a a_len b b_len =
     (let ret = fold (cmp_step a b) [0..<min a_len b_len] 0
      in if a_len < b_len then
           constant_time_select_int (constant_time_is_zero_w (or_words b a_len b_len)) ret (- 1)
         else if b_len < a_len then
           constant_time_select_int (constant_time_is_zero_w (or_words a b_len a_len)) ret 1
         else ret)"

definition BN_ucmp :: "bignum \<Rightarrow> bignum \<Rightarrow> u32" where
  "BN_ucmp a b = bn_cmp_words_consttime (bn_d a) (bn_width a) (bn_d b) (bn_width b)"

definition BN_cmp :: "bignum option \<Rightarrow> bignum option \<Rightarrow> u32" where
  "BN_cmp a b =
     (case (a, b) of
        (Some a, Some b) \<Rightarrow>
          if bn_neg a \<noteq> bn_neg b then (if bn_neg a then - 1 else 1)
          else let ret = BN_ucmp a b in if bn_neg a then - ret else ret
      | (Some a, None) \<Rightarrow> - 1
      | (None, Some b) \<Rightarrow> 1
      | (None, None) \<Rightarrow> 0)"

definition bn_less_than_words :: "u64 list \<Rightarrow> u64 list \<Rightarrow> nat \<Rightarrow> bool" where
  "bn_less_than_words a b len \<longleftrightarrow> sint (bn_cmp_words_consttime a len b len) < 0"

definition BN_abs_is_word :: "bignum \<Rightarrow> u64 \<Rightarrow> bool" where
  "BN_abs_is_word bn w \<longleftrightarrow>
     (if bn_width bn = 0 then w = 0
      else fold (\<lambda>i m. m OR bn_d bn ! i) [1..<bn_width bn] (bn_d bn ! 0 XOR w) = 0)"

definition BN_cmp_word :: "bignum option \<Rightarrow> u64 \<Rightarrow> u32" where
  "BN_cmp_word a b =
     BN_cmp a (Some (BN_init\<lparr>bn_d := [b], bn_width := (if b > 0 then 1 else 0), bn_dmax := 1,
                            bn_flags := BN_FLG_STATIC_DATA\<rparr>))"

definition BN_is_zero :: "bignum \<Rightarrow> bool" where
  "BN_is_zero bn \<longleftrightarrow> bn_fits_in_words bn 0"

definition BN_is_one :: "bignum \<Rightarrow> bool" where
  "BN_is_one bn \<longleftrightarrow> \<not> bn_neg bn \<and> BN_abs_is_word bn 1"

definition BN_is_word :: "bignum \<Rightarrow> u64 \<Rightarrow> bool" where
  "BN_is_word bn w \<longleftrightarrow> BN_abs_is_word bn w \<and> (w = 0 \<or> \<not> bn_neg bn)"

definition BN_is_odd :: "bignum \<Rightarrow> bool" where
  "BN_is_odd bn \<longleftrightarrow> bn_width bn > 0 \<and> bn_d bn ! 0 AND 1 = 1"

definition BN_is_pow2 :: "bignum \<Rightarrow> bool" where
  "BN_is_pow2 bn \<longleftrightarrow>
     (let width = bn_minimal_width bn
      in if width = 0 \<or> bn_neg bn then False
         else if \<not> list_all (\<lambda>i. bn_d bn ! i = 0) [0..<width - 1] then False
         else bn_d bn ! (width - 1) AND (bn_d bn ! (width - 1) - 1) = 0)"

definition BN_equal_consttime :: "bignum \<Rightarrow> bignum \<Rightarrow> bool" where
  "BN_equal_consttime a b \<longleftrightarrow>
     (let m = fold (\<lambda>i m. m OR bn_d b ! i) [bn_width a..<bn_width b] 0;
          m = fold (\<lambda>i m. m OR bn_d a ! i) [bn_width b..<bn_width a] m;
          m = fold (\<lambda>i m. m OR (bn_d a ! i XOR bn_d b ! i)) [0..<min (bn_width a) (bn_width b)] m;
          m = m OR (if bn_neg a = bn_neg b then 0 else 1)
      in m = 0)"

definition BN_set_negative :: "bignum \<Rightarrow> bool \<Rightarrow> bignum" where
  "BN_set_negative bn sign = bn\<lparr>bn_neg := (sign \<and> \<not> BN_is_zero bn)\<rparr>"

section \<open>\<open>bytes.c\<close>\<close>

fun bin2bn_loop :: "bytes \<Rightarrow> nat \<Rightarrow> nat \<Rightarrow> u64 \<Rightarrow> u64 list \<Rightarrow> u64 list" where
  "bin2bn_loop [] m num_words word d = d"
| "bin2bn_loop (b # inp) m num_words word d =
     (let word = push_bit 8 word OR ucast b
      in if m = 0 then bin2bn_loop inp (BN_BYTES - 1) (num_words - 1) 0 (d[num_words - 1 := word])
         else bin2bn_loop inp (m - 1) num_words word d)"

definition bin2bn_into :: "word_alloc \<Rightarrow> bytes \<Rightarrow> nat \<Rightarrow> bignum \<Rightarrow> bool \<times> bignum" where
  "bin2bn_into alloc inp len ret =
     (if len = 0 then (True, ret\<lparr>bn_width := 0\<rparr>)
      else let num_words = (len - 1) div BN_BYTES + 1; m = (len - 1) mod BN_BYTES
           in case bn_wexpand alloc ret num_words of
                (False, ret) \<Rightarrow> (False, ret)
              | (True, ret) \<Rightarrow>
                  (True, ret\<lparr>bn_width := num_words, bn_neg := False,
                             bn_d := bin2bn_loop (take len inp) m num_words 0 (bn_d ret)\<rparr>))"

text \<open>
  With a \<open>ret\<close> the number is written there, otherwise a new one is made, and released again on
  failure; the result is whether a number is returned, and the object behind \<open>ret\<close>.
\<close>

definition BN_bin2bn :: "bool \<Rightarrow> word_alloc \<Rightarrow> bytes \<Rightarrow> nat \<Rightarrow> bignum option \<Rightarrow> bool \<times> bignum option" where
  "BN_bin2bn obj_ok alloc inp len ret =
     (case ret of
        Some ret \<Rightarrow> (case bin2bn_into alloc inp len ret of (ok, ret) \<Rightarrow> (ok, Some ret))
      | None \<Rightarrow>
          (case BN_new obj_ok of
             None \<Rightarrow> (False, None)
           | Some bn \<Rightarrow> (case bin2bn_into alloc inp len bn of (ok, bn) \<Rightarrow> (ok, if ok then Some bn else None))))"

text \<open>The bytes of an array of words in memory, and an array from its bytes.\<close>

definition word_bytes :: "u64 \<Rightarrow> bytes" where
  "word_bytes w = rev (be_bytes BN_BYTES (unat w))"

definition words_bytes :: "u64 list \<Rightarrow> bytes" where
  "words_bytes ws = concat (map word_bytes ws)"

fun bytes_words :: "bytes \<Rightarrow> u64 list" where
  "bytes_words bs = (if bs = [] then [] else word_of_nat (be_nat (rev (take 8 bs))) # bytes_words (drop 8 bs))"

declare bytes_words.simps [simp del]

definition le2bn_into :: "word_alloc \<Rightarrow> bytes \<Rightarrow> nat \<Rightarrow> bignum \<Rightarrow> bool \<times> bignum" where
  "le2bn_into alloc inp len ret =
     (if len = 0 then (True, ret\<lparr>bn_width := 0, bn_neg := False\<rparr>)
      else let num_words = (len - 1) div BN_BYTES + 1
           in case bn_wexpand alloc ret num_words of
                (False, ret) \<Rightarrow> (False, ret)
              | (True, ret) \<Rightarrow>
                  let d = (bn_d ret)[num_words - 1 := 0]
                  in (True, ret\<lparr>bn_width := num_words, bn_d := bytes_words (store_at (words_bytes d) 0 (take len inp))\<rparr>))"

definition BN_le2bn :: "bool \<Rightarrow> word_alloc \<Rightarrow> bytes \<Rightarrow> nat \<Rightarrow> bignum option \<Rightarrow> bool \<times> bignum option" where
  "BN_le2bn obj_ok alloc inp len ret =
     (case ret of
        Some ret \<Rightarrow> (case le2bn_into alloc inp len ret of (ok, ret) \<Rightarrow> (ok, Some ret))
      | None \<Rightarrow>
          (case BN_new obj_ok of
             None \<Rightarrow> (False, None)
           | Some bn \<Rightarrow> (case le2bn_into alloc inp len bn of (ok, bn) \<Rightarrow> (ok, if ok then Some bn else None))))"

primrec bn2bin_loop :: "u64 list \<Rightarrow> nat \<Rightarrow> bytes" where
  "bn2bin_loop d 0 = []"
| "bn2bin_loop d (Suc i) = ucast (drop_bit (8 * (i mod BN_BYTES)) (d ! (i div BN_BYTES)) AND 0xff) # bn2bin_loop d i"

text \<open>The bytes written to \<open>out\<close>; their number is the return value.\<close>

definition BN_bn2bin :: "bignum \<Rightarrow> bytes" where
  "BN_bn2bin bn = bn2bin_loop (bn_d bn) (BN_num_bytes bn)"

definition fits_in_bytes :: "bytes \<Rightarrow> nat \<Rightarrow> nat \<Rightarrow> bool" where
  "fits_in_bytes bs num_bytes len \<longleftrightarrow> fold (\<lambda>i m. m OR bs ! i) [len..<num_bytes] 0 = 0"

definition BN_bn2le_padded :: "nat \<Rightarrow> bignum \<Rightarrow> bytes option" where
  "BN_bn2le_padded len bn =
     (let bs = words_bytes (bn_d bn); num_bytes = bn_width bn * BN_BYTES
      in if len < num_bytes \<and> \<not> fits_in_bytes bs num_bytes len then None
         else let num_bytes = min num_bytes len
              in Some (take num_bytes bs @ replicate (len - num_bytes) 0))"

definition BN_bn2bin_padded :: "nat \<Rightarrow> bignum \<Rightarrow> bytes option" where
  "BN_bn2bin_padded len bn =
     (let bs = words_bytes (bn_d bn); num_bytes = bn_width bn * BN_BYTES
      in if len < num_bytes \<and> \<not> fits_in_bytes bs num_bytes len then None
         else let num_bytes = min num_bytes len
              in Some (replicate (len - num_bytes) 0 @ rev (take num_bytes bs)))"

definition BN_get_word :: "bignum \<Rightarrow> u64" where
  "BN_get_word bn =
     (let width = bn_minimal_width bn
      in if width = 0 then 0 else if width = 1 then bn_d bn ! 0 else BN_MASK2)"

definition BN_get_u64 :: "bignum \<Rightarrow> u64 option" where
  "BN_get_u64 bn =
     (let width = bn_minimal_width bn
      in if width = 0 then Some 0 else if width = 1 then Some (bn_d bn ! 0) else None)"

section \<open>\<open>add.c\<close>\<close>

text \<open>The words of \<open>a\<close> from \<open>i\<close> on with the carry, and with the borrow.\<close>

function carry_loop :: "u64 list \<Rightarrow> nat \<Rightarrow> nat \<Rightarrow> u64 \<Rightarrow> u64 list \<times> u64" where
  "carry_loop a i n carry =
     (if i < n then
        let tmp = carry + a ! i; carry = (if tmp < a ! i then 1 else 0)
        in case carry_loop a (i + 1) n carry of (r, carry) \<Rightarrow> (tmp # r, carry)
      else ([], carry))"
  by pat_completeness auto

termination
  by (relation "measure (\<lambda>(a, i, n, carry). n - i)") auto

function borrow_loop :: "u64 list \<Rightarrow> nat \<Rightarrow> nat \<Rightarrow> u64 \<Rightarrow> u64 list \<times> u64" where
  "borrow_loop a i n borrow =
     (if i < n then
        let tmp = a ! i; r0 = a ! i - borrow; borrow = (if tmp < r0 then 1 else 0)
        in case borrow_loop a (i + 1) n borrow of (r, borrow) \<Rightarrow> (r0 # r, borrow)
      else ([], borrow))"
  by pat_completeness auto

termination
  by (relation "measure (\<lambda>(a, i, n, borrow). n - i)") auto

declare carry_loop.simps [simp del] borrow_loop.simps [simp del]

definition bn_uadd_consttime :: "word_alloc \<Rightarrow> bignum \<Rightarrow> bignum \<Rightarrow> bignum \<Rightarrow> bool \<times> bignum" where
  "bn_uadd_consttime alloc r a b =
     (let (a, b) = (if bn_width a < bn_width b then (b, a) else (a, b));
          mx = bn_width a; mn = bn_width b
      in case bn_wexpand alloc r (mx + 1) of
           (False, r) \<Rightarrow> (False, r)
         | (True, r) \<Rightarrow>
             (case bn_add_words (bn_d a) (bn_d b) mn of (lo, carry) \<Rightarrow>
              case carry_loop (bn_d a) mn mx carry of (hi, carry) \<Rightarrow>
                (True, r\<lparr>bn_width := mx + 1, bn_d := store_at (bn_d r) 0 (lo @ hi @ [carry])\<rparr>)))"

definition BN_uadd :: "word_alloc \<Rightarrow> bignum \<Rightarrow> bignum \<Rightarrow> bignum \<Rightarrow> bool \<times> bignum" where
  "BN_uadd alloc r a b =
     (case bn_uadd_consttime alloc r a b of
        (False, r) \<Rightarrow> (False, r)
      | (True, r) \<Rightarrow> (True, bn_set_minimal_width r))"

definition bn_usub_consttime :: "word_alloc \<Rightarrow> bignum \<Rightarrow> bignum \<Rightarrow> bignum \<Rightarrow> bool \<times> bignum" where
  "bn_usub_consttime alloc r a b =
     (if bn_width b > bn_width a \<and> \<not> bn_fits_in_words b (bn_width a) then (False, r)
      else let b_width = min (bn_width b) (bn_width a)
           in case bn_wexpand alloc r (bn_width a) of
                (False, r) \<Rightarrow> (False, r)
              | (True, r) \<Rightarrow>
                  (case bn_sub_words (bn_d a) (bn_d b) b_width of (lo, borrow) \<Rightarrow>
                   case borrow_loop (bn_d a) b_width (bn_width a) borrow of (hi, borrow) \<Rightarrow>
                     let r = r\<lparr>bn_d := store_at (bn_d r) 0 (lo @ hi)\<rparr>
                     in if borrow \<noteq> 0 then (False, r)
                        else (True, r\<lparr>bn_width := bn_width a, bn_neg := False\<rparr>)))"

definition BN_usub :: "word_alloc \<Rightarrow> bignum \<Rightarrow> bignum \<Rightarrow> bignum \<Rightarrow> bool \<times> bignum" where
  "BN_usub alloc r a b =
     (case bn_usub_consttime alloc r a b of
        (False, r) \<Rightarrow> (False, r)
      | (True, r) \<Rightarrow> (True, bn_set_minimal_width r))"

definition with_sign :: "bool \<Rightarrow> bool \<times> bignum \<Rightarrow> bool \<times> bignum" where
  "with_sign sign res = (case res of (False, r) \<Rightarrow> (False, r) | (True, r) \<Rightarrow> (True, r\<lparr>bn_neg := sign\<rparr>))"

text \<open>\<open>a - b\<close> of the absolute values, as both \<open>BN_add\<close> and \<open>BN_sub\<close> compute it.\<close>

definition sub_signed :: "word_alloc \<Rightarrow> bignum \<Rightarrow> bignum \<Rightarrow> bignum \<Rightarrow> bool \<times> bignum" where
  "sub_signed alloc r a b =
     (if sint (BN_ucmp a b) < 0 then with_sign True (BN_usub alloc r b a)
      else with_sign False (BN_usub alloc r a b))"

definition BN_add :: "word_alloc \<Rightarrow> bignum \<Rightarrow> bignum \<Rightarrow> bignum \<Rightarrow> bool \<times> bignum" where
  "BN_add alloc r a b =
     (if bn_neg a \<noteq> bn_neg b then
        if bn_neg a then sub_signed alloc r b a else sub_signed alloc r a b
      else case BN_uadd alloc r a b of (ret, r) \<Rightarrow> (ret, r\<lparr>bn_neg := bn_neg a\<rparr>))"

definition BN_sub :: "word_alloc \<Rightarrow> bignum \<Rightarrow> bignum \<Rightarrow> bignum \<Rightarrow> bool \<times> bignum" where
  "BN_sub alloc r a b =
     (if bn_neg a \<and> \<not> bn_neg b then with_sign True (BN_uadd alloc r a b)
      else if \<not> bn_neg a \<and> bn_neg b then with_sign False (BN_uadd alloc r a b)
      else if bn_neg a then sub_signed alloc r b a
      else sub_signed alloc r a b)"

function add_word_loop :: "u64 list \<Rightarrow> nat \<Rightarrow> nat \<Rightarrow> u64 \<Rightarrow> u64 list \<times> nat \<times> u64" where
  "add_word_loop d width i w =
     (if w \<noteq> 0 \<and> i < width then
        let l = d ! i + w in add_word_loop (d[i := l]) width (i + 1) (if w > l then 1 else 0)
      else (d, i, w))"
  by pat_completeness auto

termination
  by (relation "measure (\<lambda>(d, width, i, w). width - i)") auto

text \<open>The unbounded loop of \<open>BN_sub_word\<close>: \<open>None\<close> when it would leave the array.\<close>

function sub_word_loop :: "u64 list \<Rightarrow> nat \<Rightarrow> u64 \<Rightarrow> (u64 list \<times> nat) option" where
  "sub_word_loop d i w =
     (if i < length d then
        if d ! i \<ge> w then Some (d[i := d ! i - w], i)
        else sub_word_loop (d[i := d ! i - w]) (i + 1) 1
      else None)"
  by pat_completeness auto

termination
  by (relation "measure (\<lambda>(d, i, w). length d - i)") auto

declare add_word_loop.simps [simp del] sub_word_loop.simps [simp del]

text \<open>Adding a word to a negative number subtracts it from its absolute value, and conversely.\<close>

function BN_add_word :: "word_alloc \<Rightarrow> bignum \<Rightarrow> u64 \<Rightarrow> (bool \<times> bignum) option"
  and BN_sub_word :: "word_alloc \<Rightarrow> bignum \<Rightarrow> u64 \<Rightarrow> (bool \<times> bignum) option" where
  "BN_add_word alloc a w =
     (if w = 0 then Some (True, a)
      else if BN_is_zero a then Some (BN_set_word alloc a w)
      else if bn_neg a then
        case BN_sub_word alloc (a\<lparr>bn_neg := False\<rparr>) w of
          None \<Rightarrow> None
        | Some (i, a) \<Rightarrow> Some (i, if \<not> BN_is_zero a then a\<lparr>bn_neg := \<not> bn_neg a\<rparr> else a)
      else case add_word_loop (bn_d a) (bn_width a) 0 w of (d, i, w) \<Rightarrow>
        let a = a\<lparr>bn_d := d\<rparr>
        in if w \<noteq> 0 \<and> i = bn_width a then
             case bn_wexpand alloc a (bn_width a + 1) of
               (False, a) \<Rightarrow> Some (False, a)
             | (True, a) \<Rightarrow> Some (True, a\<lparr>bn_width := bn_width a + 1, bn_d := (bn_d a)[i := w]\<rparr>)
           else Some (True, a))"
| "BN_sub_word alloc a w =
     (if w = 0 then Some (True, a)
      else if BN_is_zero a then
        case BN_set_word alloc a w of
          (False, a) \<Rightarrow> Some (False, a)
        | (True, a) \<Rightarrow> Some (True, BN_set_negative a True)
      else if bn_neg a then
        case BN_add_word alloc (a\<lparr>bn_neg := False\<rparr>) w of
          None \<Rightarrow> None
        | Some (i, a) \<Rightarrow> Some (i, a\<lparr>bn_neg := True\<rparr>)
      else if bn_minimal_width a = 1 \<and> bn_d a ! 0 < w then
        Some (True, a\<lparr>bn_d := (bn_d a)[0 := w - bn_d a ! 0], bn_neg := True\<rparr>)
      else
        case sub_word_loop (bn_d a) 0 w of
          None \<Rightarrow> None
        | Some (d, i) \<Rightarrow>
            let a = a\<lparr>bn_d := d\<rparr>
            in Some (True, if bn_d a ! i = 0 \<and> i = bn_width a - 1 then a\<lparr>bn_width := bn_width a - 1\<rparr> else a))"
  by pat_completeness auto

termination
  by (relation "measure (\<lambda>x. case x of Inl (alloc, a, w) \<Rightarrow> (if bn_neg a then 1 else 0) | Inr (alloc, a, w) \<Rightarrow> (if bn_neg a then 1 else 0))")
    (auto simp: BN_is_zero_def)

declare BN_add_word.simps [simp del] BN_sub_word.simps [simp del]

section \<open>\<open>shift.c\<close>\<close>

primrec lshift_words_loop :: "u64 list \<Rightarrow> nat \<Rightarrow> u64 list \<Rightarrow> nat \<Rightarrow> u64 list" where
  "lshift_words_loop f nw t 0 = t"
| "lshift_words_loop f nw t (Suc i) = lshift_words_loop f nw (t[nw + i := f ! i]) i"

primrec lshift_bits_loop :: "u64 list \<Rightarrow> nat \<Rightarrow> nat \<Rightarrow> u64 list \<Rightarrow> nat \<Rightarrow> u64 list" where
  "lshift_bits_loop f nw lb t 0 = t"
| "lshift_bits_loop f nw lb t (Suc i) =
     (let l = f ! i;
          t = t[nw + i + 1 := t ! (nw + i + 1) OR drop_bit (BN_BITS2 - lb) l];
          t = t[nw + i := push_bit lb l]
      in lshift_bits_loop f nw lb t i)"

definition BN_lshift :: "word_alloc \<Rightarrow> bignum \<Rightarrow> bignum \<Rightarrow> int \<Rightarrow> bool \<times> bignum" where
  "BN_lshift alloc r a n =
     (if n < 0 then (False, r)
      else let r = r\<lparr>bn_neg := bn_neg a\<rparr>; nw = nat n div BN_BITS2; lb = nat n mod BN_BITS2
           in case bn_wexpand alloc r (bn_width a + nw + 1) of
                (False, r) \<Rightarrow> (False, r)
              | (True, r) \<Rightarrow>
                  let t = (bn_d r)[bn_width a + nw := 0];
                      t = (if lb = 0 then lshift_words_loop (bn_d a) nw t (bn_width a)
                           else lshift_bits_loop (bn_d a) nw lb t (bn_width a));
                      t = store_at t 0 (replicate nw 0)
                  in (True, bn_set_minimal_width (r\<lparr>bn_d := t, bn_width := bn_width a + nw + 1\<rparr>)))"

text \<open>The words shifted out of each word go into the next.\<close>

fun lshift1_loop :: "u64 list \<Rightarrow> u64 \<Rightarrow> u64 list \<times> u64" where
  "lshift1_loop [] c = ([], c)"
| "lshift1_loop (t # ap) c =
     (case lshift1_loop ap (drop_bit (BN_BITS2 - 1) t) of (rp, c') \<Rightarrow> ((push_bit 1 t OR c) # rp, c'))"

text \<open>For \<open>r \<noteq> a\<close>; when they are the same object the two assignments before the loop change nothing.\<close>

definition BN_lshift1 :: "word_alloc \<Rightarrow> bignum \<Rightarrow> bignum \<Rightarrow> bool \<times> bignum" where
  "BN_lshift1 alloc r a =
     (case bn_wexpand alloc (r\<lparr>bn_neg := bn_neg a\<rparr>) (bn_width a + 1) of
        (False, r) \<Rightarrow> (False, r)
      | (True, r) \<Rightarrow>
          (case lshift1_loop (take (bn_width a) (bn_d a)) 0 of (rp, c) \<Rightarrow>
             let r = r\<lparr>bn_width := bn_width a, bn_d := store_at (bn_d r) 0 rp\<rparr>
             in (True, if c \<noteq> 0 then r\<lparr>bn_d := (bn_d r)[bn_width a := 1], bn_width := bn_width r + 1\<rparr> else r)))"

text \<open>The first \<open>num\<close> words of the result.\<close>

definition bn_rshift_words :: "u64 list \<Rightarrow> nat \<Rightarrow> nat \<Rightarrow> u64 list" where
  "bn_rshift_words a shift num =
     (let shift_bits = shift mod BN_BITS2; shift_words = shift div BN_BITS2
      in if shift_words \<ge> num then replicate num 0
         else (if shift_bits = 0 then take (num - shift_words) (drop shift_words a)
               else map (\<lambda>i. drop_bit shift_bits (a ! i) OR push_bit (BN_BITS2 - shift_bits) (a ! (i + 1)))
                      [shift_words..<num - 1] @ [drop_bit shift_bits (a ! (num - 1))])
              @ replicate shift_words 0)"

definition BN_rshift :: "word_alloc \<Rightarrow> bignum \<Rightarrow> bignum \<Rightarrow> int \<Rightarrow> bool \<times> bignum" where
  "BN_rshift alloc r a n =
     (if n < 0 then (False, r)
      else case bn_wexpand alloc r (bn_width a) of
             (False, r) \<Rightarrow> (False, r)
           | (True, r) \<Rightarrow>
               (True, bn_set_minimal_width (r\<lparr>bn_d := store_at (bn_d r) 0 (bn_rshift_words (bn_d a) (nat n) (bn_width a)),
                        bn_neg := bn_neg a, bn_width := bn_width a\<rparr>)))"

definition bn_rshift1_words :: "u64 list \<Rightarrow> nat \<Rightarrow> u64 list" where
  "bn_rshift1_words a num =
     (if num = 0 then []
      else map (\<lambda>i. drop_bit 1 (a ! i) OR push_bit (BN_BITS2 - 1) (a ! (i + 1))) [0..<num - 1]
           @ [drop_bit 1 (a ! (num - 1))])"

definition BN_rshift1 :: "word_alloc \<Rightarrow> bignum \<Rightarrow> bignum \<Rightarrow> bool \<times> bignum" where
  "BN_rshift1 alloc r a =
     (case bn_wexpand alloc r (bn_width a) of
        (False, r) \<Rightarrow> (False, r)
      | (True, r) \<Rightarrow>
          (True, bn_set_minimal_width (r\<lparr>bn_d := store_at (bn_d r) 0 (bn_rshift1_words (bn_d a) (bn_width a)),
                   bn_width := bn_width a, bn_neg := bn_neg a\<rparr>)))"

definition BN_set_bit :: "word_alloc \<Rightarrow> bignum \<Rightarrow> int \<Rightarrow> bool \<times> bignum" where
  "BN_set_bit alloc a n =
     (if n < 0 then (False, a)
      else let i = nat n div BN_BITS2; j = nat n mod BN_BITS2
           in case (if bn_width a \<le> i then
                      case bn_wexpand alloc a (i + 1) of
                        (False, a) \<Rightarrow> (False, a)
                      | (True, a) \<Rightarrow> (True, a\<lparr>bn_d := store_at (bn_d a) (bn_width a) (replicate (i + 1 - bn_width a) 0),
                                             bn_width := i + 1\<rparr>)
                    else (True, a)) of
                (False, a) \<Rightarrow> (False, a)
              | (True, a) \<Rightarrow> (True, a\<lparr>bn_d := (bn_d a)[i := bn_d a ! i OR push_bit j 1]\<rparr>))"

definition BN_clear_bit :: "bignum \<Rightarrow> int \<Rightarrow> bool \<times> bignum" where
  "BN_clear_bit a n =
     (if n < 0 then (False, a)
      else let i = nat n div BN_BITS2; j = nat n mod BN_BITS2
           in if bn_width a \<le> i then (False, a)
              else (True, bn_set_minimal_width (a\<lparr>bn_d := (bn_d a)[i := bn_d a ! i AND NOT (push_bit j 1)]\<rparr>)))"

definition bn_is_bit_set_words :: "u64 list \<Rightarrow> nat \<Rightarrow> nat \<Rightarrow> bool" where
  "bn_is_bit_set_words a num n =
     (let i = n div BN_BITS2; j = n mod BN_BITS2
      in if i \<ge> num then False else drop_bit j (a ! i) AND 1 \<noteq> 0)"

definition BN_is_bit_set :: "bignum \<Rightarrow> int \<Rightarrow> bool" where
  "BN_is_bit_set a n = (if n < 0 then False else bn_is_bit_set_words (bn_d a) (bn_width a) (nat n))"

definition BN_mask_bits :: "bignum \<Rightarrow> int \<Rightarrow> bool \<times> bignum" where
  "BN_mask_bits a n =
     (if n < 0 then (False, a)
      else let w = nat n div BN_BITS2; b = nat n mod BN_BITS2
           in if w \<ge> bn_width a then (True, a)
              else (True, bn_set_minimal_width
                      (if b = 0 then a\<lparr>bn_width := w\<rparr>
                       else a\<lparr>bn_width := w + 1, bn_d := (bn_d a)[w := bn_d a ! w AND NOT (push_bit b BN_MASK2)]\<rparr>)))"

text \<open>One block of the count: if the lower half is zero, skip it.\<close>

definition low_zeros_block :: "nat \<Rightarrow> u64 \<times> nat \<Rightarrow> u64 \<times> nat" where
  "low_zeros_block n lb =
     (case lb of (l, bits) \<Rightarrow>
        let m = constant_time_is_zero_w (push_bit (BN_BITS2 - n) l)
        in (constant_time_select_w m (drop_bit n l) l, bits + unat (word_of_nat n AND m)))"

definition bn_count_low_zero_bits_word :: "u64 \<Rightarrow> nat" where
  "bn_count_low_zero_bits_word l =
     snd (low_zeros_block 1 (low_zeros_block 2 (low_zeros_block 4 (low_zeros_block 8 (low_zeros_block 16
       (low_zeros_block 32 (l, 0)))))))"

definition count_step :: "u64 list \<Rightarrow> nat \<Rightarrow> u64 \<times> u64 \<Rightarrow> u64 \<times> u64" where
  "count_step d i st =
     (case st of (ret, saw_nonzero) \<Rightarrow>
        let nonzero = NOT (constant_time_is_zero_w (d ! i));
            first_nonzero = NOT saw_nonzero AND nonzero;
            saw_nonzero = saw_nonzero OR nonzero;
            bits = bn_count_low_zero_bits_word (d ! i)
        in (ret OR (first_nonzero AND word_of_nat (i * BN_BITS2 + bits)), saw_nonzero))"

definition BN_count_low_zero_bits :: "bignum \<Rightarrow> nat" where
  "BN_count_low_zero_bits bn = unat (fst (fold (count_step (bn_d bn)) [0..<bn_width bn] (0, 0)))"

end
