(* ===== verification/BN_Numbers.thy ===== *)
theory BN_Numbers
  imports BN BN_Words_Spec
begin

text \<open>
  Numbers as integers: the value of a \<open>BIGNUM\<close>, its well-formedness, what expanding and dropping
  superfluous words do, and that the constant-time comparisons and the bit count mean what they say.
\<close>

section \<open>Numbers\<close>

text \<open>The words in use, the magnitude and the value; the structure and the sign of a well-formed number.\<close>

definition bn_words :: "bignum \<Rightarrow> u64 list" where
  "bn_words bn = take (bn_width bn) (bn_d bn)"

definition bn_mag :: "bignum \<Rightarrow> int" where
  "bn_mag bn = words_val (bn_words bn)"

definition bn_val :: "bignum \<Rightarrow> int" where
  "bn_val bn = (if bn_neg bn then - bn_mag bn else bn_mag bn)"

definition bn_ok :: "bignum \<Rightarrow> bool" where
  "bn_ok bn \<longleftrightarrow> length (bn_d bn) = bn_dmax bn \<and> bn_width bn \<le> bn_dmax bn \<and> bn_dmax bn \<le> INT_MAX div (4 * BN_BITS2)"

definition sign_ok :: "bignum \<Rightarrow> bool" where
  "sign_ok bn \<longleftrightarrow> (bn_neg bn \<longrightarrow> bn_mag bn \<noteq> 0)"

definition word_alloc_ok :: "word_alloc \<Rightarrow> bool" where
  "word_alloc_ok alloc \<longleftrightarrow> (\<forall>n p. alloc n = Some p \<longrightarrow> length p = n div BN_BYTES)"

lemma bn_mag_nonneg [simp]: "0 \<le> bn_mag bn"
  by (simp add: bn_mag_def)

lemma length_bn_words: "bn_ok bn \<Longrightarrow> length (bn_words bn) = bn_width bn"
  by (simp add: bn_ok_def bn_words_def)

lemma bn_mag_less: "bn_ok bn \<Longrightarrow> bn_mag bn < WORD ^ bn_width bn"
  using words_val_less [of "bn_words bn"] by (simp add: bn_mag_def length_bn_words)

lemma bn_words_nth: "i < bn_width bn \<Longrightarrow> bn_words bn ! i = bn_d bn ! i"
  by (simp add: bn_words_def)

lemma bn_words_updates [simp]:
  "bn_words (bn\<lparr>bn_neg := s\<rparr>) = bn_words bn" "bn_words (bn\<lparr>bn_flags := f\<rparr>) = bn_words bn"
  "bn_mag (bn\<lparr>bn_neg := s\<rparr>) = bn_mag bn" "bn_mag (bn\<lparr>bn_flags := f\<rparr>) = bn_mag bn"
  "bn_ok (bn\<lparr>bn_neg := s\<rparr>) = bn_ok bn" "bn_ok (bn\<lparr>bn_flags := f\<rparr>) = bn_ok bn"
  by (simp_all add: bn_words_def bn_mag_def bn_ok_def)

lemma bn_width_d_swap [simp]: "bn\<lparr>bn_width := w, bn_d := d\<rparr> = bn\<lparr>bn_d := d, bn_width := w\<rparr>"
  by simp

section \<open>Allocation\<close>

lemma INT_MAX_div: "INT_MAX div (4 * BN_BITS2) = 8388607"
  by (simp add: INT_MAX_def BN_BITS2_def)

text \<open>Expanding keeps the number, succeeds or not; on success there is room for the words asked for.\<close>

lemma bn_wexpand_correct:
  assumes "word_alloc_ok alloc" "bn_ok bn" "bn_wexpand alloc bn n = (ok, bn')"
  shows "bn_ok bn'" "bn_words bn' = bn_words bn" "bn_width bn' = bn_width bn" "bn_neg bn' = bn_neg bn"
    "bn_flags bn' = bn_flags bn" "ok \<Longrightarrow> n \<le> bn_dmax bn'" "\<not> ok \<Longrightarrow> bn' = bn"
proof -
  note k = assms(2) [unfolded bn_ok_def]
  have "bn_ok bn' \<and> bn_words bn' = bn_words bn \<and> bn_width bn' = bn_width bn \<and> bn_neg bn' = bn_neg bn \<and>
    bn_flags bn' = bn_flags bn \<and> (ok \<longrightarrow> n \<le> bn_dmax bn') \<and> (\<not> ok \<longrightarrow> bn' = bn)"
  proof (cases "\<exists>a. bn' = bn\<lparr>bn_d := store_at a 0 (take (bn_width bn) (bn_d bn)), bn_dmax := n\<rparr> \<and> ok \<and>
      malloc_words alloc (8 * n) = Some a \<and> \<not> n \<le> bn_dmax bn \<and> n \<le> INT_MAX div (4 * BN_BITS2)")
    case True
    then obtain a where a: "bn' = bn\<lparr>bn_d := store_at a 0 (take (bn_width bn) (bn_d bn)), bn_dmax := n\<rparr>" "ok"
      "malloc_words alloc (8 * n) = Some a" "bn_dmax bn < n" "n \<le> INT_MAX div (4 * BN_BITS2)" by auto
    have "(8 * n + 8) mod SIZE_LIMIT = 8 * n + 8" using a(5) by (simp add: INT_MAX_div)
    with a(3) obtain p where "alloc (8 * n + 8) = Some p" "a = drop 1 p"
      by (auto simp: malloc_words_def OPENSSL_MALLOC_PREFIX_def BN_BYTES_def split: option.splits)
    with assms(1) have l: "length a = n" by (auto simp: word_alloc_ok_def BN_BYTES_def)
    with k a show ?thesis by (simp add: bn_ok_def bn_words_def store_at_def)
  next
    case False
    with assms(3) have "bn' = bn" "ok \<longrightarrow> n \<le> bn_dmax bn"
      by (auto simp: bn_wexpand_def split: if_splits option.splits)
    with assms(2) show ?thesis by simp
  qed
  then show "bn_ok bn'" "bn_words bn' = bn_words bn" "bn_width bn' = bn_width bn" "bn_neg bn' = bn_neg bn"
    "bn_flags bn' = bn_flags bn" "ok \<Longrightarrow> n \<le> bn_dmax bn'" "\<not> ok \<Longrightarrow> bn' = bn" by simp_all
qed

text \<open>Storing words at the front of a number with room for them, and taking them all into use.\<close>

lemma store_words:
  assumes "bn_ok bn" "length ws \<le> bn_dmax bn"
  shows "bn_ok (bn\<lparr>bn_d := store_at (bn_d bn) 0 ws, bn_width := length ws\<rparr>)"
    "bn_words (bn\<lparr>bn_d := store_at (bn_d bn) 0 ws, bn_width := length ws\<rparr>) = ws"
  using assms by (simp_all add: bn_ok_def bn_words_def store_at_def)

section \<open>Minimal width\<close>

lemma minimal_width_loop_le: "minimal_width_loop d n \<le> n"
  by (induction n) simp_all

lemma minimal_width_loop_top: "minimal_width_loop d n \<noteq> 0 \<Longrightarrow> d ! (minimal_width_loop d n - 1) \<noteq> 0"
  by (induction n) (auto split: if_splits)

lemma words_val_snoc: "words_val (ws @ [w]) = words_val ws + WORD ^ length ws * uint w"
  by (simp add: words_val_append)

lemma minimal_width_loop_val: "n \<le> length d \<Longrightarrow> words_val (take (minimal_width_loop d n) d) = words_val (take n d)"
proof (induction n)
  case (Suc n)
  then show ?case by (auto simp: take_Suc_conv_app_nth words_val_snoc)
qed simp

lemma bn_minimal_width_props:
  assumes "bn_ok bn"
  shows "bn_minimal_width bn \<le> bn_width bn" "words_val (take (bn_minimal_width bn) (bn_d bn)) = bn_mag bn"
    "bn_minimal_width bn = 0 \<longleftrightarrow> bn_mag bn = 0"
    "bn_minimal_width bn \<noteq> 0 \<Longrightarrow> WORD ^ (bn_minimal_width bn - 1) \<le> bn_mag bn"
    "bn_mag bn < WORD ^ bn_minimal_width bn"
proof -
  let ?m = "bn_minimal_width bn"
  show le: "?m \<le> bn_width bn" unfolding bn_minimal_width_def by (rule minimal_width_loop_le)
  show v: "words_val (take ?m (bn_d bn)) = bn_mag bn"
    using assms minimal_width_loop_val [of "bn_width bn" "bn_d bn"] by (simp add: bn_minimal_width_def bn_mag_def bn_words_def bn_ok_def)
  have len: "?m \<le> length (bn_d bn)" using le assms by (simp add: bn_ok_def)
  show "bn_mag bn < WORD ^ ?m" using words_val_less [of "take ?m (bn_d bn)"] len v by (simp add: min_absorb2)
  show top: "?m \<noteq> 0 \<Longrightarrow> WORD ^ (?m - 1) \<le> bn_mag bn"
  proof -
    assume nz: "?m \<noteq> 0"
    then obtain k where k: "?m = Suc k" by (cases ?m) auto
    have "bn_d bn ! k \<noteq> 0" using minimal_width_loop_top [of "bn_d bn" "bn_width bn"] nz k by (simp add: bn_minimal_width_def)
    then have "1 \<le> uint (bn_d bn ! k)" using uint64_bounds(1) [of "bn_d bn ! k"] by (simp add: uint_0_iff int_one_le_iff_zero_less order_less_le)
    then have "WORD ^ k * 1 \<le> WORD ^ k * uint (bn_d bn ! k)" by (rule mult_left_mono) simp
    moreover have "bn_mag bn = words_val (take k (bn_d bn)) + WORD ^ k * uint (bn_d bn ! k)"
      using v k len by (simp add: take_Suc_conv_app_nth words_val_snoc min_absorb2)
    ultimately show "WORD ^ (?m - 1) \<le> bn_mag bn" using words_val_nonneg [of "take k (bn_d bn)"] unfolding k diff_Suc_1 by linarith
  qed
  show "?m = 0 \<longleftrightarrow> bn_mag bn = 0"
  proof
    show "?m = 0 \<Longrightarrow> bn_mag bn = 0" using v by simp
    assume z: "bn_mag bn = 0"
    have p: "0 < WORD ^ (?m - 1)" by simp
    show "?m = 0"
    proof (rule ccontr)
      assume "?m \<noteq> 0"
      from top [OF this] z p show False by linarith
    qed
  qed
qed

text \<open>Two widths bound the same magnitude; the minimal one is determined by it.\<close>

definition minimal :: "bignum \<Rightarrow> bool" where
  "minimal bn \<longleftrightarrow> bn_width bn = bn_minimal_width bn"

lemma bn_set_minimal_width_correct:
  assumes "bn_ok bn"
  shows "bn_ok (bn_set_minimal_width bn)" "bn_mag (bn_set_minimal_width bn) = bn_mag bn" "bn_val (bn_set_minimal_width bn) = bn_val bn"
    "sign_ok (bn_set_minimal_width bn)" "minimal (bn_set_minimal_width bn)"
proof -
  note m = bn_minimal_width_props [OF assms]
  let ?b = "bn\<lparr>bn_width := bn_minimal_width bn\<rparr>"
  have b: "bn_set_minimal_width bn = (if bn_minimal_width bn = 0 then ?b\<lparr>bn_neg := False\<rparr> else ?b)"
    by (simp add: bn_set_minimal_width_def Let_def)
  have ok: "bn_ok ?b" using assms m(1) by (simp add: bn_ok_def)
  have mag: "bn_mag ?b = bn_mag bn" using m(2) by (simp add: bn_mag_def bn_words_def)
  show "bn_ok (bn_set_minimal_width bn)" "bn_mag (bn_set_minimal_width bn) = bn_mag bn" using ok mag
    by (cases "bn_minimal_width bn = 0"; simp add: b)+
  show "bn_val (bn_set_minimal_width bn) = bn_val bn" using mag m(3) by (simp add: b bn_val_def)
  show "sign_ok (bn_set_minimal_width bn)" using mag m(3) by (simp add: b sign_ok_def)
  have "minimal_width_loop (bn_d bn) (bn_minimal_width bn) = bn_minimal_width bn"
    using minimal_width_loop_top [of "bn_d bn" "bn_width bn"] unfolding bn_minimal_width_def
    by (cases "minimal_width_loop (bn_d bn) (bn_width bn)") auto
  then show "minimal (bn_set_minimal_width bn)" by (simp add: b minimal_def bn_minimal_width_def)
qed

section \<open>Comparison\<close>

lemma or_eq_0: "(a OR b :: 'a::len word) = 0 \<longleftrightarrow> a = 0 \<and> b = 0"
  by (auto simp: or_eq_0_iff)

lemma fold_or_eq_0: "fold (\<lambda>k m. m OR f k) ks m0 = (0 :: 'a::len word) \<longleftrightarrow> m0 = 0 \<and> (\<forall>k\<in>set ks. f k = 0)"
  by (induction ks arbitrary: m0) (auto simp: or_eq_0)

lemma words_val_split: "words_val ws = words_val (take n ws) + WORD ^ min n (length ws) * words_val (drop n ws)"
  using words_val_append [of "take n ws" "drop n ws"] by (simp add: min.commute)

lemma words_val_zero_iff: "words_val ws = 0 \<longleftrightarrow> (\<forall>i<length ws. ws ! i = 0)"
proof
  assume "words_val ws = 0"
  then have r: "ws = replicate (length ws) 0" by (simp only: words_val_eq_0_iff)
  show "\<forall>i<length ws. ws ! i = 0" by (subst r) simp
next
  assume "\<forall>i<length ws. ws ! i = 0"
  then have "ws = replicate (length ws) 0" by (simp add: list_eq_iff_nth_eq)
  then show "words_val ws = 0" by (simp only: words_val_eq_0_iff)
qed

text \<open>The words of an array from \<open>n\<close> to \<open>w\<close> are zero exactly when its number fits in \<open>n\<close> words.\<close>

lemma or_words_zero_iff:
  assumes "w \<le> length d" "n \<le> w"
  shows "or_words d n w = 0 \<longleftrightarrow> words_val (take w d) = words_val (take n d)"
proof -
  have "or_words d n w = 0 \<longleftrightarrow> (\<forall>i\<in>{n..<w}. d ! i = 0)" by (simp add: or_words_def fold_or_eq_0)
  also have "\<dots> \<longleftrightarrow> (\<forall>i<length (drop n (take w d)). drop n (take w d) ! i = 0)"
  proof
    assume z: "\<forall>i\<in>{n..<w}. d ! i = 0"
    show "\<forall>i<length (drop n (take w d)). drop n (take w d) ! i = 0" using z assms by simp
  next
    assume z: "\<forall>i<length (drop n (take w d)). drop n (take w d) ! i = 0"
    show "\<forall>i\<in>{n..<w}. d ! i = 0"
    proof
      fix i assume "i \<in> {n..<w}"
      then have i: "n \<le> i" "i < w" "i - n < w - n" by auto
      then show "d ! i = 0" using z [rule_format, of "i - n"] assms by simp
    qed
  qed
  also have "\<dots> \<longleftrightarrow> words_val (drop n (take w d)) = 0" by (simp only: words_val_zero_iff)
  also have "\<dots> \<longleftrightarrow> words_val (take w d) = words_val (take n d)"
    using words_val_split [of "take w d" n] assms by (simp add: min_absorb1 min_absorb2)
  finally show ?thesis .
qed

lemma bn_fits_in_words_iff:
  assumes "bn_ok bn"
  shows "bn_fits_in_words bn n \<longleftrightarrow> bn_mag bn < WORD ^ n"
proof (cases "n \<le> bn_width bn")
  case True
  have l: "bn_width bn \<le> length (bn_d bn)" using assms by (simp add: bn_ok_def)
  have lt: "words_val (take n (bn_d bn)) < WORD ^ n" using words_val_less [of "take n (bn_d bn)"] True l by (simp add: min_absorb2)
  have sp: "bn_mag bn = words_val (take n (bn_d bn)) + WORD ^ n * words_val (drop n (bn_words bn))"
    using words_val_split [of "bn_words bn" n] True l by (simp add: bn_mag_def bn_words_def min_absorb1 min_absorb2)
  have "bn_mag bn < WORD ^ n \<longleftrightarrow> words_val (drop n (bn_words bn)) = 0"
  proof
    assume b: "bn_mag bn < WORD ^ n"
    show "words_val (drop n (bn_words bn)) = 0"
    proof (rule ccontr)
      assume "words_val (drop n (bn_words bn)) \<noteq> 0"
      then have "1 \<le> words_val (drop n (bn_words bn))" using words_val_nonneg [of "drop n (bn_words bn)"] by linarith
      then have "WORD ^ n * 1 \<le> WORD ^ n * words_val (drop n (bn_words bn))" by (rule mult_left_mono) simp
      with b sp words_val_nonneg [of "take n (bn_d bn)"] show False by linarith
    qed
  qed (simp add: sp lt)
  then show ?thesis using or_words_zero_iff [OF l True] sp by (simp add: bn_fits_in_words_def bn_mag_def bn_words_def)
next
  case False
  then have "WORD ^ bn_width bn \<le> WORD ^ n" by (intro power_increasing) simp_all
  with bn_mag_less [OF assms] have "bn_mag bn < WORD ^ n" by linarith
  with False show ?thesis by (simp add: bn_fits_in_words_def or_words_def)
qed

lemma BN_is_zero_iff: "bn_ok bn \<Longrightarrow> BN_is_zero bn \<longleftrightarrow> bn_mag bn = 0" (is "_ \<Longrightarrow> ?thesis")
proof -
  have "bn_mag bn < 1 \<longleftrightarrow> bn_mag bn = 0" using bn_mag_nonneg [of bn] by linarith
  then show "bn_ok bn \<Longrightarrow> ?thesis" by (simp add: BN_is_zero_def bn_fits_in_words_iff)
qed

definition cmp_result :: "int \<Rightarrow> int \<Rightarrow> u32" where
  "cmp_result x y = (if x < y then - 1 else if x = y then 0 else 1)"

lemma constant_time_select_int_eq [simp]:
  "constant_time_select_int (- 1) a b = a" "constant_time_select_int 0 a b = b"
  by (simp_all add: constant_time_select_int_def ucast_scast_int)

lemma high_digit:
  assumes "0 \<le> x" "x < p" "0 \<le> y" "y < p"
  shows "cmp_result (x + p * h) (y + p * k) = (if h = k then cmp_result x y else cmp_result h k)"
proof -
  have lt: "x + p * h < y + p * k" if "h < k" "0 \<le> y" "x < p" for x y h k
  proof -
    have "p * (h + 1) \<le> p * k" using that(1) assms(1,2) by (intro mult_left_mono) simp_all
    with that(2,3) show ?thesis by (simp add: algebra_simps)
  qed
  consider "h < k" | "h = k" | "k < h" by linarith
  then show ?thesis
  proof cases
    case 1
    from lt [OF 1 assms(3,2)] 1 show ?thesis by (simp add: cmp_result_def)
  next
    case 2
    then show ?thesis by (simp add: cmp_result_def)
  next
    case 3
    from lt [OF 3 assms(1,4)] 3 show ?thesis by (simp add: cmp_result_def)
  qed
qed

lemma cmp_fold:
  assumes "k \<le> length a" "k \<le> length b"
  shows "fold (cmp_step a b) [0..<k] 0 = cmp_result (words_val (take k a)) (words_val (take k b))"
  using assms
proof (induction k)
  case (Suc k)
  have b: "words_val (take k a) < WORD ^ k" "words_val (take k b) < WORD ^ k"
    using words_val_less [of "take k a"] words_val_less [of "take k b"] Suc.prems by (simp_all add: min_absorb2)
  have t: "words_val (take (Suc k) a) = words_val (take k a) + WORD ^ k * uint (a ! k)"
    "words_val (take (Suc k) b) = words_val (take k b) + WORD ^ k * uint (b ! k)"
    using Suc.prems by (simp_all add: take_Suc_conv_app_nth words_val_snoc min_absorb2)
  have "cmp_step a b k ret = (if uint (a ! k) = uint (b ! k) then ret else cmp_result (uint (a ! k)) (uint (b ! k)))" for ret
    by (auto simp: cmp_step_def Let_def constant_time_eq_w_eq constant_time_lt_w_eq cmp_result_def word_less_def
        dest: word_uint_eqI)
  then show ?case using Suc by (simp add: t high_digit b)
qed (simp add: cmp_result_def)

lemma bn_cmp_words_consttime_eq:
  assumes "n \<le> length a" "m \<le> length b"
  shows "bn_cmp_words_consttime a n b m = cmp_result (words_val (take n a)) (words_val (take m b))"
proof -
  let ?k = "min n m"
  have b: "words_val (take ?k a) < WORD ^ ?k" "words_val (take ?k b) < WORD ^ ?k"
    using words_val_less [of "take ?k a"] words_val_less [of "take ?k b"] assms by (simp_all add: min_absorb2)
  have f: "fold (cmp_step a b) [0..<?k] 0 = cmp_result (words_val (take ?k a)) (words_val (take ?k b))"
    using assms by (intro cmp_fold) simp_all
  have pos: "words_val ws \<noteq> 0 \<Longrightarrow> 0 < words_val ws" for ws using words_val_nonneg [of ws] by linarith
  consider "n < m" | "m < n" | "n = m" by linarith
  then show ?thesis
  proof cases
    case 1
    have sp: "words_val (take m b) = words_val (take n b) + WORD ^ n * words_val (drop n (take m b))"
      using words_val_split [of "take m b" n] assms 1 by (simp add: min_absorb1 min_absorb2)
    have h: "cmp_result (words_val (take n a)) (words_val (take m b)) =
        (if words_val (drop n (take m b)) = 0 then cmp_result (words_val (take n a)) (words_val (take n b)) else - 1)"
      using high_digit [of "words_val (take n a)" "WORD ^ n" "words_val (take n b)" 0 "words_val (drop n (take m b))"] b 1
        pos [of "drop n (take m b)"] unfolding sp by (cases "words_val (drop n (take m b)) = 0") (simp_all add: cmp_result_def [of 0])
    have z: "or_words b n m = 0 \<longleftrightarrow> words_val (drop n (take m b)) = 0"
      using 1 or_words_zero_iff [OF assms(2), of n] sp by simp
    show ?thesis using 1 f z by (simp add: bn_cmp_words_consttime_def constant_time_is_zero_w_eq h)
  next
    case 2
    have sp: "words_val (take n a) = words_val (take m a) + WORD ^ m * words_val (drop m (take n a))"
      using words_val_split [of "take n a" m] assms 2 by (simp add: min_absorb1 min_absorb2)
    have h: "cmp_result (words_val (take n a)) (words_val (take m b)) =
        (if words_val (drop m (take n a)) = 0 then cmp_result (words_val (take m a)) (words_val (take m b)) else 1)"
      using high_digit [of "words_val (take m a)" "WORD ^ m" "words_val (take m b)" "words_val (drop m (take n a))" 0] b 2
        pos [of "drop m (take n a)"] unfolding sp by (cases "words_val (drop m (take n a)) = 0") (simp_all add: cmp_result_def [of _ 0])
    have z: "or_words a m n = 0 \<longleftrightarrow> words_val (drop m (take n a)) = 0"
      using 2 or_words_zero_iff [OF assms(1), of m] sp by simp
    show ?thesis using 2 f z by (simp add: bn_cmp_words_consttime_def constant_time_is_zero_w_eq h)
  next
    case 3
    with f show ?thesis by (simp add: bn_cmp_words_consttime_def)
  qed
qed

lemma BN_ucmp_eq: "bn_ok a \<Longrightarrow> bn_ok b \<Longrightarrow> BN_ucmp a b = cmp_result (bn_mag a) (bn_mag b)"
  by (simp add: BN_ucmp_def bn_cmp_words_consttime_eq bn_ok_def bn_mag_def bn_words_def)

lemma sint_cmp_result: "sint (cmp_result x y) < 0 \<longleftrightarrow> x < y" "- cmp_result x y = cmp_result (- x) (- y)"
  by (auto simp: cmp_result_def)

lemma BN_cmp_eq:
  assumes "bn_ok a" "bn_ok b" "sign_ok a" "sign_ok b"
  shows "BN_cmp (Some a) (Some b) = cmp_result (bn_val a) (bn_val b)"
proof (cases "bn_neg a = bn_neg b")
  case True
  then show ?thesis using assms by (auto simp: BN_cmp_def BN_ucmp_eq Let_def bn_val_def sint_cmp_result)
next
  case False
  have "bn_neg x \<Longrightarrow> sign_ok x \<Longrightarrow> bn_val x < 0" for x
    using bn_mag_nonneg [of x] by (simp add: sign_ok_def bn_val_def less_le)
  moreover have "\<not> bn_neg x \<Longrightarrow> 0 \<le> bn_val x" for x by (simp add: bn_val_def)
  ultimately show ?thesis using False assms by (auto simp: BN_cmp_def cmp_result_def; force)
qed

section \<open>The number of bits\<close>

lemma uint_pos: "x \<noteq> 0 \<Longrightarrow> 1 \<le> uint (x :: 'a::len word)"
  by (simp add: uint_0_iff int_one_le_iff_zero_less order_less_le)

lemma msb_of_minus:
  assumes "uint (x :: u64) < 2 ^ 63"
  shows "0 - drop_bit 63 (0 - x) = (if x = 0 then 0 else - 1 :: u64)"
proof (cases "x = 0")
  case False
  note p = uint_pos [OF this]
  have "uint (0 - x) = (0 - uint x) mod WORD" by (simp add: uint_word_ariths)
  also have "\<dots> = (WORD - uint x) mod WORD" using mod_add_self1 [of WORD "- uint x"] by (simp del: mod_add_self1)
  also have "\<dots> = WORD - uint x" using p assms by (intro mod_pos_pos_trivial) simp_all
  finally have m: "uint (0 - x) = WORD - uint x" .
  have "uint (drop_bit 63 (0 - x)) = (WORD - uint x) div 2 ^ 63" by (simp only: uint_drop_bit m)
  also have "\<dots> = 1" using p assms by (intro int_div_pos_eq [of _ _ _ "2 ^ 63 - uint x"]) simp_all
  finally have "drop_bit 63 (0 - x) = 1" by (simp add: word_uint_eq_iff)
  with False show ?thesis by simp
qed simp

lemma int_div_less: "a < b * c \<Longrightarrow> 0 < b \<Longrightarrow> a div b < (c :: int)"
proof (rule ccontr)
  assume a: "a < b * c" "0 < b" "\<not> a div b < c"
  then have "b * c \<le> b * (a div b)" by simp
  also have "\<dots> \<le> a" using mult_div_mod_eq [of b a] pos_mod_sign [OF a(2), of a] by linarith
  finally show False using a(1) by simp
qed

definition bits_state :: "u64 \<Rightarrow> nat \<Rightarrow> u64 \<times> nat \<Rightarrow> bool" where
  "bits_state l0 n lb \<longleftrightarrow> (case lb of (l, bits) \<Rightarrow>
     1 \<le> bits \<and> l \<noteq> 0 \<and> uint l = uint l0 div 2 ^ (bits - 1) \<and> uint l < 2 ^ n)"

lemma num_bits_block_state:
  assumes "bits_state l0 (2 * n) lb" "1 \<le> n" "n < 64"
  shows "bits_state l0 n (num_bits_block n lb)"
proof -
  obtain l bits where lb: "lb = (l, bits)" by (rule prod.exhaust)
  have s: "1 \<le> bits" "l \<noteq> 0" "uint l = uint l0 div 2 ^ (bits - 1)" "uint l < 2 ^ (2 * n)"
    using assms(1) by (simp_all add: bits_state_def lb)
  let ?x = "drop_bit n l"
  have x: "uint ?x = uint l div 2 ^ n" by (rule uint_drop_bit)
  have xn: "uint ?x < 2 ^ n" unfolding x using s(4) by (intro int_div_less) (simp_all add: mult_2 power_add)
  have "uint ?x < 2 ^ 63" unfolding x
  proof (rule int_div_less)
    have "uint l < 2 ^ 64" using uint_bounded [of l] by simp
    also have "(2 :: int) ^ 64 \<le> 2 ^ (n + 63)" using assms(2) by (intro power_increasing) simp_all
    finally show "uint l < 2 ^ n * 2 ^ 63" by (simp add: power_add)
  qed simp
  note m = msb_of_minus [OF this]
  have b: "num_bits_block n lb = (if ?x = 0 then (l, bits) else (?x, bits + n))"
    using assms(3) unfolding lb num_bits_block_def
    by (simp add: Let_def BN_BITS2_def m [simplified] unat_of_nat xor.assoc [symmetric] xor.commute [of _ l])
  have "uint l < 2 ^ n" if "?x = 0"
  proof -
    have "uint l div 2 ^ n = 0" using x that by simp
    then show ?thesis using mult_div_mod_eq [of "2 ^ n" "uint l"] pos_mod_bound [of "2 ^ n" "uint l"] by simp
  qed
  moreover have "uint ?x = uint l0 div 2 ^ (bits + n - 1)"
  proof -
    have "(2 :: int) ^ (bits + n - 1) = 2 ^ (bits - 1) * 2 ^ n" using s(1) by (simp flip: power_add)
    then show ?thesis unfolding x s(3) by (simp add: zdiv_zmult2_eq)
  qed
  ultimately show ?thesis using s xn by (simp add: b bits_state_def)
qed

lemma num_bits_chain:
  "bits_state l0 64 lb \<Longrightarrow> bits_state l0 32 (num_bits_block 32 lb)"
  "bits_state l0 32 lb \<Longrightarrow> bits_state l0 16 (num_bits_block 16 lb)"
  "bits_state l0 16 lb \<Longrightarrow> bits_state l0 8 (num_bits_block 8 lb)"
  "bits_state l0 8 lb \<Longrightarrow> bits_state l0 4 (num_bits_block 4 lb)"
  "bits_state l0 4 lb \<Longrightarrow> bits_state l0 2 (num_bits_block 2 lb)"
  "bits_state l0 2 lb \<Longrightarrow> bits_state l0 1 (num_bits_block 1 lb)"
  using num_bits_block_state [of l0 32 lb] num_bits_block_state [of l0 16 lb] num_bits_block_state [of l0 8 lb]
    num_bits_block_state [of l0 4 lb] num_bits_block_state [of l0 2 lb] num_bits_block_state [of l0 1 lb] by simp_all

lemma BN_num_bits_word_exact:
  shows "BN_num_bits_word 0 = 0" "l \<noteq> 0 \<Longrightarrow> 1 \<le> BN_num_bits_word l \<and> 2 ^ (BN_num_bits_word l - 1) \<le> uint l \<and> uint l < 2 ^ BN_num_bits_word l"
proof -
  show "BN_num_bits_word 0 = 0" by (simp add: BN_num_bits_word_def num_bits_block_def BN_BITS2_def)
  assume l: "l \<noteq> 0"
  then have s: "bits_state l 64 (l, if l \<noteq> 0 then 1 else 0)" using uint_bounded [of l] by (simp add: bits_state_def)
  define r where "r = num_bits_block 1 (num_bits_block 2 (num_bits_block 4 (num_bits_block 8 (num_bits_block 16
       (num_bits_block 32 (l, if l \<noteq> 0 then 1 else 0))))))"
  have r: "bits_state l 1 r" unfolding r_def by (intro num_bits_chain s)
  obtain m where "r = (m, BN_num_bits_word l)" unfolding BN_num_bits_word_def r_def by (metis prod.collapse)
  with r have m: "1 \<le> BN_num_bits_word l" "m \<noteq> 0" "uint m = uint l div 2 ^ (BN_num_bits_word l - 1)" "uint m < 2"
    by (simp_all add: bits_state_def)
  have "uint m = 1" using uint_pos [OF m(2)] m(4) by linarith
  then have d: "uint l = 2 ^ (BN_num_bits_word l - 1) + uint l mod 2 ^ (BN_num_bits_word l - 1)"
    using mult_div_mod_eq [of "2 ^ (BN_num_bits_word l - 1)" "uint l"] m(3) by simp
  have b: "uint l mod 2 ^ (BN_num_bits_word l - 1) < 2 ^ (BN_num_bits_word l - 1)"
    "0 \<le> uint l mod 2 ^ (BN_num_bits_word l - 1)" by simp_all
  have "(2 :: int) ^ BN_num_bits_word l = 2 ^ (BN_num_bits_word l - 1) + 2 ^ (BN_num_bits_word l - 1)"
    using m(1) by (cases "BN_num_bits_word l") simp_all
  with d b m(1) show "1 \<le> BN_num_bits_word l \<and> 2 ^ (BN_num_bits_word l - 1) \<le> uint l \<and> uint l < 2 ^ BN_num_bits_word l"
    by linarith
qed

lemma WORD_power: "WORD ^ n = 2 ^ (n * BN_BITS2)"
  unfolding BN_BITS2_def mult.commute [of n] power_mult by simp

lemma BN_num_bits_exact:
  assumes "bn_ok bn"
  shows "bn_mag bn < 2 ^ BN_num_bits bn" "bn_mag bn \<noteq> 0 \<Longrightarrow> 1 \<le> BN_num_bits bn \<and> 2 ^ (BN_num_bits bn - 1) \<le> bn_mag bn"
    "BN_num_bits bn = 0 \<longleftrightarrow> bn_mag bn = 0"
proof -
  note w = bn_minimal_width_props [OF assms]
  have "bn_mag bn < 2 ^ BN_num_bits bn \<and> (bn_mag bn \<noteq> 0 \<longrightarrow> 1 \<le> BN_num_bits bn \<and> 2 ^ (BN_num_bits bn - 1) \<le> bn_mag bn) \<and>
    (BN_num_bits bn = 0 \<longleftrightarrow> bn_mag bn = 0)"
  proof (cases "bn_minimal_width bn")
    case 0
    then show ?thesis using w(3) by (simp add: BN_num_bits_def)
  next
    case (Suc k)
    define t where "t = bn_d bn ! k"
    have k: "k < length (bn_d bn)" using w(1) assms Suc by (simp add: bn_ok_def)
    have tz: "t \<noteq> 0" using minimal_width_loop_top [of "bn_d bn" "bn_width bn"] Suc by (simp add: t_def bn_minimal_width_def)
    note nb = BN_num_bits_word_exact(2) [OF tz]
    have n: "BN_num_bits bn = k * BN_BITS2 + BN_num_bits_word t" by (simp add: BN_num_bits_def Suc t_def)
    have v: "bn_mag bn = words_val (take k (bn_d bn)) + WORD ^ k * uint t"
      using w(2) k by (simp add: Suc take_Suc_conv_app_nth words_val_snoc min_absorb2 t_def)
    have lo: "words_val (take k (bn_d bn)) < WORD ^ k" using words_val_less [of "take k (bn_d bn)"] k by (simp add: min_absorb2)
    have "bn_mag bn < WORD ^ k * (uint t + 1)" using v lo by (simp add: algebra_simps)
    also have "\<dots> \<le> WORD ^ k * 2 ^ BN_num_bits_word t" using nb by (intro mult_left_mono) simp_all
    also have "\<dots> = 2 ^ BN_num_bits bn" by (simp only: n WORD_power power_add)
    finally have less: "bn_mag bn < 2 ^ BN_num_bits bn" .
    have "BN_num_bits bn - 1 = k * BN_BITS2 + (BN_num_bits_word t - 1)" using nb by (simp add: n)
    then have "(2 :: int) ^ (BN_num_bits bn - 1) = WORD ^ k * 2 ^ (BN_num_bits_word t - 1)" by (simp only: WORD_power power_add)
    also have "\<dots> \<le> WORD ^ k * uint t" using nb by (intro mult_left_mono) simp_all
    also have "\<dots> \<le> bn_mag bn" using v by simp
    finally have le: "2 ^ (BN_num_bits bn - 1) \<le> bn_mag bn" .
    have "bn_mag bn \<noteq> 0" using w(3) Suc by simp
    with less le nb n show ?thesis by simp
  qed
  then show "bn_mag bn < 2 ^ BN_num_bits bn" "bn_mag bn \<noteq> 0 \<Longrightarrow> 1 \<le> BN_num_bits bn \<and> 2 ^ (BN_num_bits bn - 1) \<le> bn_mag bn"
    "BN_num_bits bn = 0 \<longleftrightarrow> bn_mag bn = 0" by blast+
qed

end
