(* ===== verification/BN_Arith.thy ===== *)
theory BN_Arith
  imports BN_Numbers
begin

text \<open>
  \<open>add.c\<close> on integers. The carry and borrow loops are further instances of the locale \<open>carry_chain\<close>.
\<close>

section \<open>Carries and borrows through one operand\<close>

definition carry_step :: "u64 \<Rightarrow> u64 \<Rightarrow> u64 \<times> u64" where
  "carry_step a c = (c + a, if c + a < a then 1 else 0)"

definition borrow_step :: "u64 \<Rightarrow> u64 \<Rightarrow> u64 \<times> u64" where
  "borrow_step a c = (a - c, if a < a - c then 1 else 0)"

lemma drop_take_step: "i < n \<Longrightarrow> n \<le> length a \<Longrightarrow> take (n - i) (drop i a) = a ! i # take (n - Suc i) (drop (Suc i) a)"
proof -
  assume "i < n" "n \<le> length a"
  then have "drop i a = a ! i # drop (Suc i) a" "n - i = Suc (n - Suc i)" by (simp_all add: Cons_nth_drop_Suc)
  then show ?thesis by simp
qed

lemma carry_loop_plain: "n \<le> length a \<Longrightarrow> carry_loop a i n c = plain carry_step (take (n - i) (drop i a)) c"
proof (induction a i n c rule: carry_loop.induct)
  case (1 a i n c)
  show ?case
  proof (cases "i < n")
    case True
    with "1.IH" [OF True refl refl] "1.prems" show ?thesis
      by (subst carry_loop.simps) (simp add: carry_step_def [of "a ! i" c] Let_def drop_take_step [OF True])
  qed (simp add: carry_loop.simps)
qed

lemma borrow_loop_plain: "n \<le> length a \<Longrightarrow> borrow_loop a i n c = plain borrow_step (take (n - i) (drop i a)) c"
proof (induction a i n c rule: borrow_loop.induct)
  case (1 a i n c)
  show ?case
  proof (cases "i < n")
    case True
    with "1.IH" [OF True refl refl refl] "1.prems" show ?thesis
      by (subst borrow_loop.simps) (simp add: borrow_step_def [of "a ! i" c] Let_def drop_take_step [OF True])
  qed (simp add: borrow_loop.simps)
qed

interpretation carry1: carry_chain carry_step uint uint "\<lambda>c. uint c \<le> 1"
proof
  fix a c r c' :: u64
  assume "uint c \<le> 1" "carry_step a c = (r, c')"
  then have "r = c + a" "c' = (if c + a < a then 1 else 0)" by (auto simp: carry_step_def)
  then show "uint c' \<le> 1 \<and> uint r + WORD * uint c' = uint a + uint c" using add_with_carry [of c a] by auto
qed

interpretation borrow1: carry_chain borrow_step uint "\<lambda>c. - uint c" "\<lambda>c. uint c \<le> 1"
proof
  fix a c r c' :: u64
  assume ok: "uint c \<le> 1" and s: "borrow_step a c = (r, c')"
  let ?d = "uint a - uint c"
  have r: "uint r = ?d mod WORD" using s by (auto simp: borrow_step_def uint_word_ariths(2))
  have d: "- WORD \<le> ?d" "?d < WORD" using uint64_bounds [of a] uint64_bounds(1) [of c] ok by linarith+
  have m: "?d mod WORD = (if ?d < 0 then ?d + WORD else ?d)"
    using d mod_pos_pos_trivial [of "?d + WORD" WORD] by (auto simp: not_less)
  have "c' = (if uint a < uint r then 1 else 0)" using s by (auto simp: borrow_step_def word_less_def)
  then show "uint c' \<le> 1 \<and> uint r + WORD * - uint c' = uint a + - uint c"
    using r m d uint64_bounds [of a] uint64_bounds(1) [of c] ok by (auto split: if_splits)
qed

section \<open>Addition and subtraction of magnitudes\<close>

text \<open>
  There is room for \<open>n\<close> words in a result: its array has them already, or it is not static data, the
  size is below the limit of \<open>bn_wexpand\<close>, and the allocator never refuses.
\<close>

definition bn_room :: "word_alloc \<Rightarrow> bignum \<Rightarrow> nat \<Rightarrow> bool" where
  "bn_room alloc r n \<longleftrightarrow> n \<le> bn_dmax r \<or>
     n \<le> INT_MAX div (4 * BN_BITS2) \<and> bn_flags r AND BN_FLG_STATIC_DATA = 0 \<and> (\<forall>sz. alloc sz \<noteq> None)"

lemma bn_room_wexpand: "bn_room alloc r n \<Longrightarrow> m \<le> n \<Longrightarrow> fst (bn_wexpand alloc r m)"
  unfolding bn_room_def bn_wexpand_def malloc_words_def by (auto split: option.splits simp: not_le) (metis option.distinct(1))+

lemma words_val_parts:
  "n \<le> w \<Longrightarrow> w \<le> length d \<Longrightarrow> words_val (take w d) = words_val (take n d) + WORD ^ n * words_val (take (w - n) (drop n d))"
  using words_val_split [of "take w d" n] by (simp add: min_absorb1 min_absorb2 drop_take)

lemma bn_uadd_words:
  assumes "m \<le> n" "n \<le> length a" "m \<le> length b" "bn_add_words a b m = (lo, c)" "carry_loop a m n c = (hi, c')"
  shows "length (lo @ hi @ [c']) = n + 1" "words_val (lo @ hi @ [c']) = words_val (take n a) + words_val (take m b)"
proof -
  have ma: "m \<le> length a" using assms(1,2) by simp
  note l = bn_add_words_exact [OF ma assms(3,4)]
  have p: "plain carry_step (take (n - m) (drop m a)) c = (hi, c')"
    using carry_loop_plain [OF assms(2), of m c] assms(5) by simp
  have "uint c \<le> 1" using l(2) by auto
  note h = carry1.plain_exact [OF this p]
  have len: "length (take (n - m) (drop m a)) = n - m" using assms(2) by simp
  show "length (lo @ hi @ [c']) = n + 1" using l(1) h assms(1,2) by simp
  have "words_val (lo @ hi @ [c']) = words_val lo + WORD ^ m * (words_val hi + WORD ^ (n - m) * uint c')"
    using l(1) h len by (simp add: words_val_append)
  also have "\<dots> = words_val lo + WORD ^ m * uint c + WORD ^ m * words_val (take (n - m) (drop m a))"
    using h len by (simp add: digits_val_uint algebra_simps)
  also have "\<dots> = words_val (take n a) + words_val (take m b)"
    using l(3) words_val_parts [OF assms(1,2)] by simp
  finally show "words_val (lo @ hi @ [c']) = words_val (take n a) + words_val (take m b)" .
qed

lemma bn_usub_words:
  assumes "m \<le> n" "n \<le> length a" "m \<le> length b" "bn_sub_words a b m = (lo, c)" "borrow_loop a m n c = (hi, c')"
  shows "length (lo @ hi) = n" "words_val (lo @ hi) - WORD ^ n * uint c' = words_val (take n a) - words_val (take m b)"
    "c' = 0 \<or> c' = 1"
proof -
  have ma: "m \<le> length a" using assms(1,2) by simp
  note l = bn_sub_words_exact [OF ma assms(3,4)]
  have p: "plain borrow_step (take (n - m) (drop m a)) c = (hi, c')"
    using borrow_loop_plain [OF assms(2), of m c] assms(5) by simp
  have "uint c \<le> 1" using l(2) by auto
  note h = borrow1.plain_exact [OF this p]
  have len: "length (take (n - m) (drop m a)) = n - m" using assms(2) by simp
  show "length (lo @ hi) = n" using l(1) h assms(1,2) by simp
  show "c' = 0 \<or> c' = 1" using h by (intro word_le_1_cases) simp
  have pw: "WORD ^ n = WORD ^ m * WORD ^ (n - m)" using assms(1) by (simp flip: power_add)
  have "words_val (lo @ hi) - WORD ^ n * uint c' = words_val lo + WORD ^ m * (words_val hi + WORD ^ (n - m) * - uint c')"
    using l(1) by (simp add: words_val_append pw algebra_simps)
  also have "words_val hi + WORD ^ (n - m) * - uint c' = words_val (take (n - m) (drop m a)) - uint c"
    using h len by (simp add: digits_val_uint)
  also have "words_val lo + WORD ^ m * (words_val (take (n - m) (drop m a)) - uint c) =
      words_val lo - WORD ^ m * uint c + WORD ^ m * words_val (take (n - m) (drop m a))"
    by (simp add: right_diff_distrib)
  also have "\<dots> = words_val (take n a) - words_val (take m b)"
    using l(3) words_val_parts [OF assms(1,2)] by simp
  finally show "words_val (lo @ hi) - WORD ^ n * uint c' = words_val (take n a) - words_val (take m b)" .
qed

lemma BN_uadd_correct:
  assumes "word_alloc_ok alloc" "bn_ok r" "bn_ok a" "bn_ok b" "BN_uadd alloc r a b = (ok, s)"
  shows "bn_ok s" "ok \<Longrightarrow> bn_mag s = bn_mag a + bn_mag b" "ok \<Longrightarrow> sign_ok s" "ok \<Longrightarrow> minimal s" "\<not> ok \<Longrightarrow> s = r"
    "ok \<longleftrightarrow> fst (bn_wexpand alloc r (max (bn_width a) (bn_width b) + 1))"
proof -
  obtain x y where xy: "(if bn_width a < bn_width b then (b, a) else (a, b)) = (x, y)" by (rule prod.exhaust)
  then have w: "bn_width y \<le> bn_width x" "bn_ok x" "bn_ok y" "bn_mag x + bn_mag y = bn_mag a + bn_mag b"
    using assms(3,4) by (auto split: if_splits)
  obtain e r' where ex: "bn_wexpand alloc r (bn_width x + 1) = (e, r')" by (rule prod.exhaust)
  note rx = bn_wexpand_correct [OF assms(1,2) ex]
  obtain lo c where lo: "bn_add_words (bn_d x) (bn_d y) (bn_width y) = (lo, c)" by (rule prod.exhaust)
  obtain hi c' where hi: "carry_loop (bn_d x) (bn_width y) (bn_width x) c = (hi, c')" by (rule prod.exhaust)
  have l: "bn_width x \<le> length (bn_d x)" "bn_width y \<le> length (bn_d y)" using w(2,3) by (simp_all add: bn_ok_def)
  note ws = bn_uadd_words [OF w(1) l lo hi]
  let ?s = "r'\<lparr>bn_width := bn_width x + 1, bn_d := store_at (bn_d r') 0 (lo @ hi @ [c'])\<rparr>"
  have s: "(ok, s) = (if e then (True, bn_set_minimal_width ?s) else (False, r'))"
    using assms(5) ex lo hi xy by (auto simp: BN_uadd_def bn_uadd_consttime_def Let_def)
  have st: "bn_ok ?s" "bn_mag ?s = bn_mag a + bn_mag b" if e
    using store_words [OF rx(1), of "lo @ hi @ [c']"] rx(6) that ws w(4) by (simp_all add: bn_mag_def bn_words_def)
  show "bn_ok s" using s st(1) rx bn_set_minimal_width_correct(1) [OF st(1)] by (cases e) simp_all
  show "ok \<Longrightarrow> bn_mag s = bn_mag a + bn_mag b" "ok \<Longrightarrow> sign_ok s" "ok \<Longrightarrow> minimal s"
    using s st bn_set_minimal_width_correct [OF st(1)] by (cases e; simp)+
  show "\<not> ok \<Longrightarrow> s = r" using s rx(7) by (cases e) simp_all
  have "bn_width x = max (bn_width a) (bn_width b)" using xy by (auto split: if_splits)
  then show "ok \<longleftrightarrow> fst (bn_wexpand alloc r (max (bn_width a) (bn_width b) + 1))" using s ex by (cases e) simp_all
qed

lemma BN_usub_correct:
  assumes "word_alloc_ok alloc" "bn_ok r" "bn_ok a" "bn_ok b" "BN_usub alloc r a b = (ok, s)"
  shows "bn_ok s" "ok \<Longrightarrow> bn_mag s = bn_mag a - bn_mag b" "ok \<Longrightarrow> \<not> bn_neg s" "ok \<Longrightarrow> minimal s"
    "ok \<longleftrightarrow> bn_mag b \<le> bn_mag a \<and> fst (bn_wexpand alloc r (bn_width a))"
proof -
  let ?m = "min (bn_width b) (bn_width a)"
  have l: "bn_width a \<le> length (bn_d a)" "?m \<le> length (bn_d b)" using assms(3,4) by (auto simp: bn_ok_def)
  have "bn_ok s \<and> (ok \<longrightarrow> bn_mag s = bn_mag a - bn_mag b \<and> \<not> bn_neg s \<and> minimal s) \<and>
    (ok \<longleftrightarrow> bn_mag b \<le> bn_mag a \<and> fst (bn_wexpand alloc r (bn_width a)))"
  proof (cases "bn_width a < bn_width b \<and> \<not> bn_fits_in_words b (bn_width a)")
    case True
    then have "ok = False" "s = r" using assms(5) by (simp_all add: BN_usub_def bn_usub_consttime_def)
    moreover have "bn_mag a < bn_mag b"
      using True bn_fits_in_words_iff [OF assms(4)] bn_mag_less [OF assms(3)] by (simp add: not_less)
    ultimately show ?thesis using assms(2) by simp
  next
    case fits: False
    have mb: "words_val (take ?m (bn_d b)) = bn_mag b"
    proof (cases "bn_width a < bn_width b")
      case True
      with fits have "or_words (bn_d b) (bn_width a) (bn_width b) = 0" by (simp add: bn_fits_in_words_def)
      with or_words_zero_iff [of "bn_width b" "bn_d b" "bn_width a"] True assms(4) show ?thesis
        by (simp add: bn_ok_def bn_mag_def bn_words_def)
    qed (simp add: bn_mag_def bn_words_def min_absorb1)
    obtain e r' where ex: "bn_wexpand alloc r (bn_width a) = (e, r')" by (rule prod.exhaust)
    note rx = bn_wexpand_correct [OF assms(1,2) ex]
    obtain lo c where lo: "bn_sub_words (bn_d a) (bn_d b) ?m = (lo, c)" by (rule prod.exhaust)
    obtain hi c' where hi: "borrow_loop (bn_d a) ?m (bn_width a) c = (hi, c')" by (rule prod.exhaust)
    note ws = bn_usub_words [OF _ l lo hi, simplified, unfolded mb]
    let ?s = "r'\<lparr>bn_d := store_at (bn_d r') 0 (lo @ hi)\<rparr>"
    have s: "(ok, s) = (if \<not> e then (False, r') else if c' \<noteq> 0 then (False, ?s)
        else (True, bn_set_minimal_width (?s\<lparr>bn_width := bn_width a, bn_neg := False\<rparr>)))"
      using assms(5) ex lo hi fits by (auto simp: BN_usub_def bn_usub_consttime_def Let_def)
    have mag: "bn_mag a = words_val (take (bn_width a) (bn_d a))" by (simp add: bn_mag_def bn_words_def)
    consider "\<not> e" | "e" "c' = 1" | "e" "c' = 0" using ws(3) by blast
    then show ?thesis
    proof cases
      case 1
      with s rx(1) ex show ?thesis by simp
    next
      case 2
      have "bn_ok ?s" using rx(1,6) 2 ws(1) by (simp add: bn_ok_def)
      moreover have "bn_mag a < bn_mag b" using ws(2) 2 words_val_less [of "lo @ hi"] ws(1) mag by simp
      ultimately show ?thesis using 2 s by simp
    next
      case 3
      have st: "bn_ok (?s\<lparr>bn_width := bn_width a\<rparr>)" "bn_mag (?s\<lparr>bn_width := bn_width a\<rparr>) = bn_mag a - bn_mag b"
        using store_words [OF rx(1), of "lo @ hi"] rx(6) 3 ws by (simp_all add: bn_mag_def bn_words_def)
      let ?t = "?s\<lparr>bn_width := bn_width a, bn_neg := False\<rparr>"
      have t: "bn_ok ?t" "bn_mag ?t = bn_mag a - bn_mag b" using st by simp_all
      note m = bn_set_minimal_width_correct [OF t(1)]
      have "\<not> bn_neg (bn_set_minimal_width ?t)" by (simp add: bn_set_minimal_width_def Let_def)
      moreover have "0 \<le> bn_mag a - bn_mag b" unfolding t(2) [symmetric] by simp
      ultimately show ?thesis using s 3 m t(2) ex by simp
    qed
  qed
  then show "bn_ok s" "ok \<Longrightarrow> bn_mag s = bn_mag a - bn_mag b" "ok \<Longrightarrow> \<not> bn_neg s" "ok \<Longrightarrow> minimal s"
    "ok \<longleftrightarrow> bn_mag b \<le> bn_mag a \<and> fst (bn_wexpand alloc r (bn_width a))" by blast+
qed

lemma minimal_neg [simp]: "minimal (bn\<lparr>bn_neg := s\<rparr>) = minimal bn"
  by (simp add: minimal_def bn_minimal_width_def)

lemma sub_signed_correct:
  assumes "word_alloc_ok alloc" "bn_ok r" "bn_ok a" "bn_ok b" "sub_signed alloc r a b = (ok, s)"
  shows "bn_ok s \<and> (ok \<longrightarrow> bn_val s = bn_mag a - bn_mag b \<and> sign_ok s \<and> minimal s) \<and>
    (bn_room alloc r (max (bn_width a) (bn_width b)) \<longrightarrow> ok)"
proof (cases "bn_mag a < bn_mag b")
  case True
  obtain ok' s' where u: "BN_usub alloc r b a = (ok', s')" by (rule prod.exhaust)
  note c = BN_usub_correct [OF assms(1,2,4,3) u]
  have "(ok, s) = (if ok' then (True, s'\<lparr>bn_neg := True\<rparr>) else (False, s'))"
    using assms(5) u True by (auto simp: sub_signed_def BN_ucmp_eq assms(3,4) sint_cmp_result with_sign_def)
  with c True bn_room_wexpand [of alloc r "max (bn_width a) (bn_width b)" "bn_width b"] show ?thesis
    by (auto simp: bn_val_def sign_ok_def split: if_splits)
next
  case False
  obtain ok' s' where u: "BN_usub alloc r a b = (ok', s')" by (rule prod.exhaust)
  note c = BN_usub_correct [OF assms(1-4) u]
  have "(ok, s) = (if ok' then (True, s'\<lparr>bn_neg := False\<rparr>) else (False, s'))"
    using assms(5) u False by (auto simp: sub_signed_def BN_ucmp_eq assms(3,4) sint_cmp_result with_sign_def)
  with c False bn_room_wexpand [of alloc r "max (bn_width a) (bn_width b)" "bn_width a"] show ?thesis
    by (auto simp: bn_val_def sign_ok_def split: if_splits)
qed

lemma with_sign_uadd:
  assumes "word_alloc_ok alloc" "bn_ok r" "bn_ok a" "bn_ok b" "with_sign sign (BN_uadd alloc r a b) = (ok, s)"
    and "sign \<Longrightarrow> bn_mag a \<noteq> 0"
  shows "bn_ok s \<and> (ok \<longrightarrow> bn_val s = (if sign then - (bn_mag a + bn_mag b) else bn_mag a + bn_mag b) \<and> sign_ok s \<and> minimal s) \<and>
    (bn_room alloc r (max (bn_width a) (bn_width b) + 1) \<longrightarrow> ok)"
proof -
  obtain ok' s' where u: "BN_uadd alloc r a b = (ok', s')" by (rule prod.exhaust)
  note c = BN_uadd_correct [OF assms(1-4) u]
  have "(ok, s) = (if ok' then (True, s'\<lparr>bn_neg := sign\<rparr>) else (False, s'))"
    using assms(5) u by (auto simp: with_sign_def)
  moreover have "bn_mag a + bn_mag b \<noteq> 0" if sign
    using assms(6) [OF that] bn_mag_nonneg [of a] bn_mag_nonneg [of b] by linarith
  ultimately show ?thesis using c bn_room_wexpand [of alloc r "max (bn_width a) (bn_width b) + 1", OF _ order.refl]
    by (auto simp: bn_val_def sign_ok_def split: if_splits)
qed

lemma bn_room_less: "bn_room alloc r (n + 1) \<Longrightarrow> bn_room alloc r n"
  by (auto simp: bn_room_def)

lemma BN_add_correct:
  assumes "word_alloc_ok alloc" "bn_ok r" "bn_ok a" "bn_ok b" "sign_ok a" "sign_ok b" "BN_add alloc r a b = (ok, s)"
  shows "bn_ok s \<and> (ok \<longrightarrow> bn_val s = bn_val a + bn_val b \<and> sign_ok s \<and> minimal s) \<and>
    (bn_room alloc r (max (bn_width a) (bn_width b) + 1) \<longrightarrow> ok)"
proof (cases "bn_neg a = bn_neg b")
  case False
  then show ?thesis
    using assms sub_signed_correct [OF assms(1,2,4,3), of ok s] sub_signed_correct [OF assms(1-4), of ok s]
      bn_room_less [of alloc r "max (bn_width a) (bn_width b)"]
    by (auto simp: BN_add_def bn_val_def max.commute split: if_splits)
next
  case True
  obtain ok' s' where u: "BN_uadd alloc r a b = (ok', s')" by (rule prod.exhaust)
  note c = BN_uadd_correct [OF assms(1-4) u]
  have s: "ok = ok'" "s = s'\<lparr>bn_neg := bn_neg a\<rparr>" using assms(7) u True by (simp_all add: BN_add_def)
  have "bn_mag a + bn_mag b \<noteq> 0" if "bn_neg a"
    using that assms(5) bn_mag_nonneg [of a] bn_mag_nonneg [of b] unfolding sign_ok_def by linarith
  with c s True bn_room_wexpand [of alloc r "max (bn_width a) (bn_width b) + 1", OF _ order.refl]
  show ?thesis by (auto simp: bn_val_def sign_ok_def)
qed

lemma BN_sub_correct:
  assumes "word_alloc_ok alloc" "bn_ok r" "bn_ok a" "bn_ok b" "sign_ok a" "sign_ok b" "BN_sub alloc r a b = (ok, s)"
  shows "bn_ok s \<and> (ok \<longrightarrow> bn_val s = bn_val a - bn_val b \<and> sign_ok s \<and> minimal s) \<and>
    (bn_room alloc r (max (bn_width a) (bn_width b) + 1) \<longrightarrow> ok)"
proof (cases "bn_neg a = bn_neg b")
  case False
  then show ?thesis
    using assms with_sign_uadd [OF assms(1-4), of "bn_neg a" ok s]
    by (auto simp: BN_sub_def bn_val_def sign_ok_def split: if_splits)
next
  case True
  then show ?thesis
    using assms sub_signed_correct [OF assms(1,2,4,3), of ok s] sub_signed_correct [OF assms(1-4), of ok s]
      bn_room_less [of alloc r "max (bn_width a) (bn_width b)"]
    by (auto simp: BN_sub_def bn_val_def max.commute split: if_splits)
qed

section \<open>Addition and subtraction\<close>

text \<open>
  C32: \<open>BN_add\<close> and \<open>BN_sub\<close> compute the sum and the difference of any two numbers exactly, of any
  signs and widths and over any old value of the result, and succeed whenever the result has room, or can
  get it, for one word more than the wider operand; on failure the result is still a
  well-formed number. A result has no superfluous words and zero is never negative.
\<close>

theorem BN_add_sub_exact:
  assumes "word_alloc_ok alloc" "bn_ok r" "bn_ok a" "bn_ok b" "sign_ok a" "sign_ok b"
  shows "(case BN_add alloc r a b of (ok, s) \<Rightarrow>
      bn_ok s \<and> (ok \<longrightarrow> bn_val s = bn_val a + bn_val b \<and> sign_ok s \<and> minimal s) \<and>
      (bn_room alloc r (max (bn_width a) (bn_width b) + 1) \<longrightarrow> ok)) \<and>
    (case BN_sub alloc r a b of (ok, s) \<Rightarrow>
      bn_ok s \<and> (ok \<longrightarrow> bn_val s = bn_val a - bn_val b \<and> sign_ok s \<and> minimal s) \<and>
      (bn_room alloc r (max (bn_width a) (bn_width b) + 1) \<longrightarrow> ok))"
  using BN_add_correct [OF assms] BN_sub_correct [OF assms] by (auto split: prod.splits)

definition full_words :: word_alloc where
  "full_words n = Some (replicate (n div BN_BYTES) 0xdead)"

lemma word_alloc_ok_full: "word_alloc_ok full_words"
  by (simp add: word_alloc_ok_def full_words_def)

theorem BN_add_sub_exact_witness:
  "case BN_sub full_words BN_init (BN_value_one\<lparr>bn_neg := True\<rparr>) (BN_init\<lparr>bn_d := [0xffffffffffffffff], bn_width := 1, bn_dmax := 1\<rparr>) of
     (ok, s) \<Rightarrow> ok \<and> bn_val s = - WORD"
proof -
  let ?a = "BN_value_one\<lparr>bn_neg := True\<rparr>" and ?b = "BN_init\<lparr>bn_d := [0xffffffffffffffff], bn_width := 1, bn_dmax := 1\<rparr>"
  have ok: "bn_ok BN_init" "bn_ok ?a" "bn_ok ?b" "sign_ok ?a" "sign_ok ?b"
    by (simp_all add: bn_ok_def BN_init_def BN_value_one_def sign_ok_def bn_mag_def bn_words_def INT_MAX_div)
  have v: "bn_val ?a = - 1" "bn_val ?b = WORD - 1"
    by (simp_all add: BN_init_def BN_value_one_def bn_val_def bn_mag_def bn_words_def)
  have room: "bn_room full_words BN_init (max (bn_width ?a) (bn_width ?b) + 1)"
    by (simp add: bn_room_def BN_init_def BN_value_one_def INT_MAX_div full_words_def)
  show ?thesis using BN_add_sub_exact [OF word_alloc_ok_full ok] room by (auto simp: v [simplified] split: prod.splits)
qed

section \<open>Comparison\<close>

lemma fold_xor_or_eq_0:
  "fold (\<lambda>i m. m OR (a ! i XOR b ! i)) ks m0 = (0 :: 'a::len word) \<longleftrightarrow> m0 = 0 \<and> (\<forall>i\<in>set ks. a ! i = b ! i)"
  by (simp add: fold_or_eq_0)

lemma words_val_take_zero:
  assumes "w \<le> length d" "n \<le> w" "\<forall>i\<in>{n..<w}. d ! i = 0"
  shows "words_val (take w d) = words_val (take n d)"
  using or_words_zero_iff [OF assms(1,2)] assms(3) by (simp add: or_words_def fold_or_eq_0)

lemma bn_equal_words:
  assumes "bn_ok a" "bn_ok b" "bn_width a \<le> bn_width b"
  shows "bn_mag a = bn_mag b \<longleftrightarrow> (\<forall>i\<in>{bn_width a..<bn_width b}. bn_d b ! i = 0) \<and> (\<forall>i<bn_width a. bn_d a ! i = bn_d b ! i)"
proof -
  let ?n = "bn_width a" and ?w = "bn_width b"
  have l: "?n \<le> length (bn_d a)" "?w \<le> length (bn_d b)" using assms(1,2) by (simp_all add: bn_ok_def)
  have t: "words_val (take ?n (bn_d a)) = words_val (take ?n (bn_d b)) \<longleftrightarrow> (\<forall>i<?n. bn_d a ! i = bn_d b ! i)"
  proof
    assume "words_val (take ?n (bn_d a)) = words_val (take ?n (bn_d b))"
    then have "take ?n (bn_d a) = take ?n (bn_d b)" using l assms(3) by (intro words_val_inj) simp_all
    then show "\<forall>i<?n. bn_d a ! i = bn_d b ! i" by (metis nth_take)
  next
    assume "\<forall>i<?n. bn_d a ! i = bn_d b ! i"
    then have "take ?n (bn_d a) = take ?n (bn_d b)" using l assms(3) by (simp add: list_eq_iff_nth_eq)
    then show "words_val (take ?n (bn_d a)) = words_val (take ?n (bn_d b))" by simp
  qed
  have lt: "bn_mag a < WORD ^ ?n" by (rule bn_mag_less [OF assms(1)])
  have z: "bn_mag b = words_val (take ?n (bn_d b)) \<longleftrightarrow> (\<forall>i\<in>{?n..<?w}. bn_d b ! i = 0)"
    using or_words_zero_iff [OF l(2) assms(3)] by (simp add: or_words_def fold_or_eq_0 bn_mag_def bn_words_def)
  have "bn_mag b < WORD ^ ?n \<longleftrightarrow> bn_mag b = words_val (take ?n (bn_d b))"
    using bn_fits_in_words_iff [OF assms(2), of ?n] or_words_zero_iff [OF l(2) assms(3)]
    by (simp add: bn_fits_in_words_def bn_mag_def bn_words_def)
  with lt z t show ?thesis by (auto simp: bn_mag_def bn_words_def)
qed

lemma bn_val_eq_iff:
  assumes "sign_ok a" "sign_ok b"
  shows "bn_val a = bn_val b \<longleftrightarrow> bn_neg a = bn_neg b \<and> bn_mag a = bn_mag b"
  using assms bn_mag_nonneg [of a] bn_mag_nonneg [of b] unfolding bn_val_def sign_ok_def by (cases "bn_neg a"; cases "bn_neg b"; simp; linarith)

lemma BN_equal_consttime_iff:
  assumes "bn_ok a" "bn_ok b" "sign_ok a" "sign_ok b"
  shows "BN_equal_consttime a b \<longleftrightarrow> bn_val a = bn_val b"
proof -
  have e: "BN_equal_consttime a b \<longleftrightarrow> (\<forall>i\<in>{bn_width a..<bn_width b}. bn_d b ! i = 0) \<and> (\<forall>i\<in>{bn_width b..<bn_width a}. bn_d a ! i = 0) \<and>
      (\<forall>i<min (bn_width a) (bn_width b). bn_d a ! i = bn_d b ! i) \<and> bn_neg a = bn_neg b"
    by (simp add: BN_equal_consttime_def Let_def or_eq_0 fold_or_eq_0 fold_xor_or_eq_0 Ball_def conj_ac)
  show ?thesis
  proof (cases "bn_width a \<le> bn_width b")
    case True
    then show ?thesis using bn_equal_words [OF assms(1,2) True] by (auto simp: e bn_val_eq_iff assms)
  next
    case False
    then show ?thesis using bn_equal_words [OF assms(2,1)] by (auto simp: e bn_val_eq_iff assms)
  qed
qed

text \<open>
  C34: the constant-time comparisons are those of the integers, whatever the widths of the arrays:
  \<open>BN_cmp\<close> orders the values, \<open>BN_ucmp\<close> the magnitudes, \<open>BN_equal_consttime\<close>, \<open>BN_is_zero\<close> and
  \<open>bn_fits_in_words\<close> decide what their names say.
\<close>

theorem BN_cmp_exact:
  assumes "bn_ok a" "bn_ok b" "sign_ok a" "sign_ok b"
  shows "BN_cmp (Some a) (Some b) = cmp_result (bn_val a) (bn_val b) \<and>
    BN_ucmp a b = cmp_result (bn_mag a) (bn_mag b) \<and>
    (BN_equal_consttime a b \<longleftrightarrow> bn_val a = bn_val b) \<and>
    (BN_is_zero a \<longleftrightarrow> bn_val a = 0) \<and>
    (bn_fits_in_words a n \<longleftrightarrow> bn_mag a < WORD ^ n)"
proof -
  have "BN_is_zero a \<longleftrightarrow> bn_val a = 0" using assms(1) by (simp add: BN_is_zero_iff bn_val_def)
  then show ?thesis using BN_cmp_eq [OF assms] BN_ucmp_eq [OF assms(1,2)] BN_equal_consttime_iff [OF assms] bn_fits_in_words_iff [OF assms(1), of n]
    by blast
qed

theorem BN_cmp_exact_witness:
  "BN_cmp (Some (BN_value_one\<lparr>bn_neg := True\<rparr>)) (Some (BN_init\<lparr>bn_d := [0, 0], bn_width := 2, bn_dmax := 2\<rparr>)) = - 1"
proof -
  let ?a = "BN_value_one\<lparr>bn_neg := True\<rparr>" and ?b = "BN_init\<lparr>bn_d := [0, 0], bn_width := 2, bn_dmax := 2\<rparr>"
  have ok: "bn_ok ?a" "bn_ok ?b" "sign_ok ?a" "sign_ok ?b" and v: "bn_val ?a = - 1" "bn_val ?b = 0"
    by (simp_all add: bn_ok_def BN_init_def BN_value_one_def sign_ok_def bn_mag_def bn_val_def bn_words_def INT_MAX_div)
  show ?thesis using BN_cmp_exact [OF ok] unfolding v by (simp add: cmp_result_def)
qed

section \<open>Adding and subtracting a word\<close>

lemma words_val_update:
  "i < n \<Longrightarrow> n \<le> length d \<Longrightarrow> words_val (take n (d[i := v])) = words_val (take n d) + WORD ^ i * (uint v - uint (d ! i))"
proof (induction d arbitrary: i n)
  case (Cons x xs)
  have "words_val (take m (xs[k := v])) = words_val (take m xs) + WORD ^ k * (uint v - uint (xs ! k))" if "k < m" "m \<le> length xs" for k m
    using that by (rule Cons.IH)
  with Cons.prems show ?case by (cases n; cases i) (simp_all add: ring_distribs)
qed simp

lemma add_word_loop_exact:
  assumes "add_word_loop d n i w = (d', i', w')" "i \<le> n" "n \<le> length d"
  shows "length d' = length d \<and> i' \<le> n \<and> (w' = 0 \<or> i' = n) \<and>
    words_val (take n d') + WORD ^ i' * uint w' = words_val (take n d) + WORD ^ i * uint w"
  using assms
proof (induction d n i w rule: add_word_loop.induct)
  case (1 d n i w)
  show ?case
  proof (cases "w \<noteq> 0 \<and> i < n")
    case True
    let ?l = "d ! i + w" and ?c = "if w > d ! i + w then 1 else 0 :: u64"
    have "add_word_loop (d[i := ?l]) n (i + 1) ?c = (d', i', w')"
      using "1.prems"(1) True by (subst (asm) add_word_loop.simps) (simp add: Let_def)
    with "1.IH" [OF True refl] "1.prems" True
    have ih: "length d' = length d" "i' \<le> n" "w' = 0 \<or> i' = n"
      "words_val (take n d') + WORD ^ i' * uint w' = words_val (take n (d[i := ?l])) + WORD ^ (i + 1) * uint ?c" by auto
    have "uint ?l + WORD * uint ?c = uint (d ! i) + uint w" using add_with_carry [of "d ! i" w] by auto
    then have e: "uint ?l - uint (d ! i) + WORD * uint ?c = uint w" by linarith
    have "words_val (take n (d[i := ?l])) + WORD ^ (i + 1) * uint ?c =
        words_val (take n d) + WORD ^ i * (uint ?l - uint (d ! i) + WORD * uint ?c)"
      using words_val_update [of i n d ?l] True "1.prems"(3) by (simp add: algebra_simps)
    then show ?thesis using ih unfolding e by simp
  next
    case False
    then have "d' = d" "i' = i" "w' = w" using "1.prems"(1) by (subst (asm) add_word_loop.simps, auto)+
    with False "1.prems" show ?thesis by auto
  qed
qed

lemma sub_word_loop_exact:
  assumes "w \<noteq> 0" "i \<le> n" "n \<le> length d" "uint w \<le> words_val (drop i (take n d))"
  shows "\<exists>d' j. sub_word_loop d i w = Some (d', j) \<and> length d' = length d \<and> j < n \<and>
    words_val (take n d') = words_val (take n d) - WORD ^ i * uint w"
  using assms
proof (induction d i w rule: sub_word_loop.induct)
  case (1 d i w)
  have i: "i < n" using "1.prems" uint_pos [of w] by (cases "i = n") simp_all
  then have il: "i < length d" using "1.prems"(3) by simp
  have sp: "drop i (take n d) = d ! i # drop (i + 1) (take n d)"
    using i "1.prems"(3) Cons_nth_drop_Suc [of i "take n d"] by simp
  let ?u = "d[i := d ! i - w]"
  show ?case
  proof (cases "d ! i \<ge> w")
    case True
    then have "uint (d ! i - w) = uint (d ! i) - uint w" by (simp add: uint_sub_lem word_le_def)
    then show ?thesis using True i il words_val_update [OF i "1.prems"(3), of "d ! i - w"] by (subst sub_word_loop.simps) simp
  next
    case False
    then have lt: "uint (d ! i) < uint w" by (simp add: word_le_def)
    have "uint (d ! i - w) = (uint (d ! i) - uint w) mod WORD" by (simp add: uint_word_ariths)
    also have "\<dots> = (uint (d ! i) - uint w + WORD) mod WORD" by simp
    also have "\<dots> = uint (d ! i) - uint w + WORD"
      using lt uint64_bounds [of "d ! i"] uint64_bounds [of w] by (intro mod_pos_pos_trivial) linarith+
    finally have u: "uint (d ! i - w) = uint (d ! i) - uint w + WORD" .
    have "drop (i + 1) (take n ?u) = drop (i + 1) (take n d)" by (simp add: drop_take)
    moreover have "uint (1 :: u64) \<le> words_val (drop (i + 1) (take n d))"
    proof (rule ccontr)
      assume "\<not> uint (1 :: u64) \<le> words_val (drop (i + 1) (take n d))"
      then have "words_val (drop (i + 1) (take n d)) < 1" by simp
      then have "words_val (drop (i + 1) (take n d)) = 0" using words_val_nonneg [of "drop (i + 1) (take n d)"] by linarith
      then show False using "1.prems"(4) lt unfolding sp by simp
    qed
    ultimately obtain d' j where r: "sub_word_loop ?u (i + 1) 1 = Some (d', j)" "length d' = length d" "j < n"
      "words_val (take n d') = words_val (take n ?u) - WORD ^ (i + 1) * uint (1 :: u64)"
      using "1.IH" [OF il False] i "1.prems"(3) by auto
    have "words_val (take n ?u) = words_val (take n d) + WORD ^ i * (WORD - uint w)"
      using words_val_update [OF i "1.prems"(3), of "d ! i - w"] unfolding u by simp
    then have "words_val (take n d') = words_val (take n d) - WORD ^ i * uint w" unfolding r(4) by (simp add: algebra_simps)
    then show ?thesis using r il False by (subst sub_word_loop.simps) simp
  qed
qed

lemma BN_set_word_correct:
  assumes "word_alloc_ok alloc" "bn_ok a" "BN_set_word alloc a w = (ok, s)"
  shows "bn_ok s \<and> (ok \<longrightarrow> bn_val s = uint w \<and> \<not> bn_neg s) \<and> (\<not> ok \<longrightarrow> s = a)"
proof (cases "w = 0")
  case True
  with assms show ?thesis by (auto simp: BN_set_word_def BN_zero_def bn_ok_def bn_val_def bn_mag_def bn_words_def)
next
  case False
  obtain e r where ex: "bn_wexpand alloc a 1 = (e, r)" by (rule prod.exhaust)
  note rx = bn_wexpand_correct [OF assms(1,2) ex]
  have s: "(ok, s) = (if e then (True, r\<lparr>bn_neg := False, bn_d := (bn_d r)[0 := w], bn_width := 1\<rparr>) else (False, r))"
    using assms(3) False ex by (cases e) (simp_all add: BN_set_word_def)
  show ?thesis
  proof (cases e)
    case True
    then have "bn_d r \<noteq> []" using rx(1,6) by (auto simp: bn_ok_def)
    then show ?thesis using True s rx(1,6) by (cases "bn_d r") (auto simp: bn_ok_def bn_val_def bn_mag_def bn_words_def)
  next
    case e: False
    with s rx(1,7) show ?thesis by simp
  qed
qed

lemma BN_word_0: "BN_add_word alloc a 0 = Some (True, a)" "BN_sub_word alloc a 0 = Some (True, a)"
  by (subst BN_add_word.simps, simp) (subst BN_sub_word.simps, simp)

text \<open>On a non-negative number: the sum with a word, the difference with a word.\<close>

lemma BN_add_word_nonneg:
  assumes "word_alloc_ok alloc" "bn_ok a" "\<not> bn_neg a"
  shows "\<exists>ok s. BN_add_word alloc a w = Some (ok, s) \<and> bn_ok s \<and> \<not> bn_neg s \<and> (ok \<longrightarrow> bn_mag s = bn_mag a + uint w)"
proof -
  consider "w = 0" | "w \<noteq> 0" "BN_is_zero a" | "w \<noteq> 0" "\<not> BN_is_zero a" by blast
  then show ?thesis
  proof cases
    case 1
    with assms show ?thesis by (subst BN_add_word.simps) auto
  next
    case 2
    obtain ok s where s: "BN_set_word alloc a w = (ok, s)" by (rule prod.exhaust)
    from BN_set_word_correct [OF assms(1,2) s] 2 assms show ?thesis
      by (cases ok; subst BN_add_word.simps) (auto simp: s BN_is_zero_iff bn_val_def)
  next
    case 3
    obtain d i w' where l: "add_word_loop (bn_d a) (bn_width a) 0 w = (d, i, w')" by (rule prod_cases3)
    have wl: "bn_width a \<le> length (bn_d a)" using assms(2) by (simp add: bn_ok_def)
    note e = add_word_loop_exact [OF l _ wl, simplified]
    let ?a = "a\<lparr>bn_d := d\<rparr>"
    have a: "bn_ok ?a" "bn_words ?a = take (bn_width a) d" using assms(2) e by (simp_all add: bn_ok_def bn_words_def)
    show ?thesis
    proof (cases "w' = 0")
      case True
      then show ?thesis using 3 assms e a by (subst BN_add_word.simps) (auto simp: l bn_mag_def bn_words_def)
    next
      case False
      then have i: "i = bn_width a" using e by simp
      obtain x r where ex: "bn_wexpand alloc ?a (bn_width a + 1) = (x, r)" by (rule prod.exhaust)
      note rx = bn_wexpand_correct [OF assms(1) a(1) ex]
      have res: "BN_add_word alloc a w =
          Some (if x then (True, r\<lparr>bn_width := bn_width r + 1, bn_d := (bn_d r)[i := w']\<rparr>) else (False, r))"
        using 3 assms(3) False i ex by (cases x; subst BN_add_word.simps) (simp_all add: l)
      show ?thesis
      proof (cases x)
        case True
        let ?r = "r\<lparr>bn_width := bn_width r + 1, bn_d := (bn_d r)[i := w']\<rparr>"
        have ok: "bn_ok ?r" "i < length (bn_d r)" using True rx(1,3,6) i by (simp_all add: bn_ok_def)
        have "bn_words ?r = bn_words r @ [w']" using ok(2) rx(3) i by (simp add: bn_words_def take_Suc_conv_app_nth)
        then have "bn_mag ?r = words_val (take (bn_width a) d) + WORD ^ bn_width a * uint w'"
          using rx(2) a(2) wl e by (simp add: bn_mag_def words_val_snoc)
        then show ?thesis using True res ok(1) rx(4) assms(3) e i by (auto simp: bn_mag_def [of a] bn_words_def [of a])
      next
        case x: False
        with res rx(1,4) assms(3) show ?thesis by auto
      qed
    qed
  qed
qed

lemma BN_is_zero_neg [simp]: "BN_is_zero (a\<lparr>bn_neg := s\<rparr>) = BN_is_zero a"
  by (simp add: BN_is_zero_def bn_fits_in_words_def)

lemma bn_minimal_width_1:
  assumes "bn_ok a" "bn_minimal_width a = 1"
  shows "bn_mag a = uint (bn_d a ! 0)" "0 < bn_width a" "bn_d a \<noteq> []"
proof -
  show w: "0 < bn_width a" using bn_minimal_width_props(1) [OF assms(1)] assms(2) by simp
  then show d: "bn_d a \<noteq> []" using assms(1) by (auto simp: bn_ok_def)
  show "bn_mag a = uint (bn_d a ! 0)"
    using bn_minimal_width_props(2) [OF assms(1)] assms(2) d by (cases "bn_d a") simp_all
qed

lemma bn_mag_ge_word:
  assumes "bn_ok a" "bn_mag a \<noteq> 0" "\<not> (bn_minimal_width a = 1 \<and> bn_d a ! 0 < w)"
  shows "uint w \<le> bn_mag a"
proof (cases "bn_minimal_width a = 1")
  case True
  then show ?thesis using assms bn_minimal_width_1 [OF assms(1)] by (simp add: word_less_def not_less)
next
  case False
  then have "1 \<le> bn_minimal_width a - 1" "bn_minimal_width a \<noteq> 0"
    using bn_minimal_width_props(3) [OF assms(1)] assms(2) by auto
  from this(1) have "WORD ^ 1 \<le> WORD ^ (bn_minimal_width a - 1)" by (intro power_increasing) simp_all
  with bn_minimal_width_props(4) [OF assms(1) \<open>bn_minimal_width a \<noteq> 0\<close>] uint64_bounds(2) [of w]
  show ?thesis by simp
qed

lemma BN_sub_word_nonneg:
  assumes "word_alloc_ok alloc" "bn_ok a" "\<not> bn_neg a"
  shows "\<exists>ok s. BN_sub_word alloc a w = Some (ok, s) \<and> bn_ok s \<and> (ok \<longrightarrow> bn_val s = bn_mag a - uint w \<and> sign_ok s) \<and>
    (bn_mag a \<noteq> 0 \<longrightarrow> ok)"
proof -
  consider "w = 0" | "w \<noteq> 0" "BN_is_zero a" | "w \<noteq> 0" "\<not> BN_is_zero a" "bn_minimal_width a = 1 \<and> bn_d a ! 0 < w"
    | "w \<noteq> 0" "\<not> BN_is_zero a" "\<not> (bn_minimal_width a = 1 \<and> bn_d a ! 0 < w)" by blast
  then show ?thesis
  proof cases
    case 1
    with assms show ?thesis by (subst BN_sub_word.simps) (auto simp: bn_val_def sign_ok_def)
  next
    case 2
    obtain ok s where s: "BN_set_word alloc a w = (ok, s)" by (rule prod.exhaust)
    note c = BN_set_word_correct [OF assms(1,2) s]
    have z: "bn_mag a = 0" using 2(2) assms(2) by (simp add: BN_is_zero_iff)
    show ?thesis
    proof (cases ok)
      case True
      then have "bn_mag s = uint w" "bn_ok s" using c by (auto simp: bn_val_def)
      moreover from this have "\<not> BN_is_zero s" using 2(1) by (simp add: BN_is_zero_iff uint_0_iff)
      ultimately show ?thesis using True 2 z
        by (subst BN_sub_word.simps) (auto simp: s BN_set_negative_def bn_val_def sign_ok_def uint_0_iff)
    next
      case False
      then show ?thesis using 2 z c by (subst BN_sub_word.simps) (auto simp: s)
    qed
  next
    case 3
    note m = bn_minimal_width_1 [OF assms(2) conjunct1 [OF 3(3)]]
    let ?v = "w - bn_d a ! 0"
    let ?s = "a\<lparr>bn_d := (bn_d a)[0 := ?v], bn_neg := True\<rparr>"
    have v: "uint ?v = uint w - uint (bn_d a ! 0)" using 3(3) by (intro uint_sub_lem [THEN iffD1]) (simp add: word_less_def)
    have "words_val (take (bn_width a) ((bn_d a)[0 := ?v])) = uint ?v"
      using words_val_update [of 0 "bn_width a" "bn_d a" ?v] m assms(2) by (simp add: bn_mag_def bn_words_def bn_ok_def)
    then have "bn_mag ?s = uint ?v" by (simp add: bn_mag_def bn_words_def)
    moreover have "uint ?v \<noteq> 0" using v 3(3) by (simp add: word_less_def)
    moreover have "bn_ok ?s" using assms(2) by (simp add: bn_ok_def)
    moreover have "BN_sub_word alloc a w = Some (True, ?s)" using 3 assms(3) by (subst BN_sub_word.simps) simp
    ultimately show ?thesis using v m(1) by (auto simp: bn_val_def sign_ok_def)
  next
    case 4
    have nz: "bn_mag a \<noteq> 0" using 4(2) assms(2) by (simp add: BN_is_zero_iff)
    have le: "uint w \<le> words_val (drop 0 (take (bn_width a) (bn_d a)))"
      using bn_mag_ge_word [OF assms(2) nz 4(3)] by (simp add: bn_mag_def bn_words_def)
    have wl: "bn_width a \<le> length (bn_d a)" using assms(2) by (simp add: bn_ok_def)
    obtain d i where l: "sub_word_loop (bn_d a) 0 w = Some (d, i)" "length d = length (bn_d a)" "i < bn_width a"
      "words_val (take (bn_width a) d) = bn_mag a - uint w"
      using sub_word_loop_exact [OF 4(1) _ wl le] by (auto simp: bn_mag_def bn_words_def)
    let ?a = "a\<lparr>bn_d := d\<rparr>"
    let ?b = "?a\<lparr>bn_width := bn_width a - 1\<rparr>"
    have res: "BN_sub_word alloc a w = Some (True, if d ! i = 0 \<and> i = bn_width a - 1 then ?b else ?a)"
      using 4 assms(3) l(1) by (subst BN_sub_word.simps) auto
    have "bn_ok ?a" "bn_mag ?a = bn_mag a - uint w" using assms(2) l by (simp_all add: bn_ok_def bn_mag_def bn_words_def)
    moreover have "bn_ok ?b" using assms(2) l(2) unfolding bn_ok_def by simp arith
    moreover have "bn_mag ?b = bn_mag a - uint w" if "d ! i = 0" "i = bn_width a - 1"
    proof -
      have "take (bn_width a) d = take i d @ [d ! i]"
        using that(2) l(2,3) wl take_Suc_conv_app_nth [of i d] by simp
      then show ?thesis using l(4) that by (simp add: words_val_snoc bn_mag_def bn_words_def)
    qed
    moreover define s where "s = (if d ! i = 0 \<and> i = bn_width a - 1 then ?b else ?a)"
    ultimately have "bn_ok s" "bn_mag s = bn_mag a - uint w" "\<not> bn_neg s" using assms(3) by auto
    with res [folded s_def] show ?thesis by (auto simp: bn_val_def sign_ok_def)
  qed
qed

text \<open>
  C33: \<open>BN_add_word\<close> and \<open>BN_sub_word\<close> add and subtract a word from a number of any sign, across zero
  in both directions; the borrow loop, which tests no bound, never leaves the array.
\<close>

theorem BN_word_exact:
  assumes "word_alloc_ok alloc" "bn_ok a" "sign_ok a"
  shows "(\<exists>ok s. BN_add_word alloc a w = Some (ok, s) \<and> bn_ok s \<and> (ok \<longrightarrow> bn_val s = bn_val a + uint w \<and> sign_ok s)) \<and>
    (\<exists>ok s. BN_sub_word alloc a w = Some (ok, s) \<and> bn_ok s \<and> (ok \<longrightarrow> bn_val s = bn_val a - uint w \<and> sign_ok s))"
proof (cases "bn_neg a")
  case False
  then have v: "bn_val a = bn_mag a" by (simp add: bn_val_def)
  have "\<not> bn_neg s \<Longrightarrow> bn_val s = bn_mag s \<and> sign_ok s" for s by (simp add: bn_val_def sign_ok_def)
  then show ?thesis using BN_add_word_nonneg [OF assms(1,2) False, of w] BN_sub_word_nonneg [OF assms(1,2) False, of w]
    unfolding v by metis
next
  case True
  let ?p = "a\<lparr>bn_neg := False\<rparr>"
  have p: "bn_ok ?p" "\<not> bn_neg ?p" "bn_mag ?p = bn_mag a" "bn_val a = - bn_mag a" "bn_mag a \<noteq> 0"
    using assms True by (simp_all add: bn_val_def sign_ok_def)
  have nz: "\<not> BN_is_zero a" using p(5) assms(2) by (simp add: BN_is_zero_iff)
  show ?thesis
  proof (cases "w = 0")
    case True
    then show ?thesis using assms by (auto simp: BN_word_0)
  next
    case w: False
    obtain ok s where s: "BN_sub_word alloc ?p w = Some (ok, s)" "bn_ok s" "ok" "bn_val s = bn_mag a - uint w" "sign_ok s"
      using BN_sub_word_nonneg [OF assms(1) p(1,2), of w] p(3,5) by auto
    have add: "BN_add_word alloc a w = Some (ok, if \<not> BN_is_zero s then s\<lparr>bn_neg := \<not> bn_neg s\<rparr> else s)"
      by (subst BN_add_word.simps) (simp add: w nz True s(1))
    obtain ok' t where t: "BN_add_word alloc ?p w = Some (ok', t)" "bn_ok t" "\<not> bn_neg t" "ok' \<longrightarrow> bn_mag t = bn_mag a + uint w"
      using BN_add_word_nonneg [OF assms(1) p(1,2), of w] p(3) by auto
    have sub: "BN_sub_word alloc a w = Some (ok', t\<lparr>bn_neg := True\<rparr>)"
      by (subst BN_sub_word.simps) (simp add: w nz True t(1))
    have "bn_mag a + uint w \<noteq> 0" using p(5) bn_mag_nonneg [of a] uint64_bounds(1) [of w] by linarith
    then have t': "bn_ok (t\<lparr>bn_neg := True\<rparr>)" "ok' \<longrightarrow> bn_val (t\<lparr>bn_neg := True\<rparr>) = bn_val a - uint w \<and> sign_ok (t\<lparr>bn_neg := True\<rparr>)"
      using t(2,4) p(4) by (auto simp: bn_val_def sign_ok_def)
    define s' where "s' = (if \<not> BN_is_zero s then s\<lparr>bn_neg := \<not> bn_neg s\<rparr> else s)"
    have "bn_ok s'" "bn_val s' = bn_val a + uint w" "sign_ok s'"
      using s(2,4,5) p(4) by (auto simp: s'_def BN_is_zero_iff bn_val_def sign_ok_def)
    with add [folded s'_def] sub t' show ?thesis by blast
  qed
qed

theorem BN_word_exact_witness:
  "\<exists>s. BN_sub_word full_words BN_value_one 3 = Some (True, s) \<and> bn_val s = - 2"
proof -
  have ok: "bn_ok BN_value_one" "sign_ok BN_value_one" "bn_val BN_value_one = 1"
    by (simp_all add: bn_ok_def BN_value_one_def sign_ok_def bn_mag_def bn_val_def bn_words_def INT_MAX_div)
  have "\<exists>s. BN_sub_word full_words BN_value_one 3 = Some (True, s)"
    by (subst BN_sub_word.simps) (simp add: BN_value_one_def BN_is_zero_def bn_fits_in_words_def or_words_def bn_minimal_width_def)
  then show ?thesis using BN_word_exact [OF word_alloc_ok_full ok(1,2), of 3] unfolding ok(3) by auto
qed

end
