(* ===== verification/BN_Bytes.thy ===== *)
theory BN_Bytes
  imports BN_Arith
begin

text \<open>
  \<open>bytes.c\<close>: numbers as big-endian and little-endian byte strings.
\<close>

section \<open>Bytes in memory\<close>

definition le_nat :: "bytes \<Rightarrow> nat" where
  "le_nat bs = be_nat (rev bs)"

lemma le_nat_Nil [simp]: "le_nat [] = 0"
  by (simp add: le_nat_def)

lemma le_nat_append: "le_nat (as @ bs) = le_nat as + 256 ^ length as * le_nat bs"
  by (simp add: le_nat_def be_nat_append)

lemma le_nat_less: "le_nat bs < 256 ^ length bs"
  using be_nat_less [of "rev bs"] by (simp add: le_nat_def)

lemma le_nat_zeros [simp]: "le_nat (replicate n 0) = 0"
  by (induction n) (simp_all add: le_nat_def be_simps flip: replicate_append_same)

lemma le_nat_take: "le_nat (take n bs) = le_nat bs mod 256 ^ n"
proof (cases "n \<le> length bs")
  case True
  then have "le_nat bs = le_nat (take n bs) + 256 ^ n * le_nat (drop n bs)"
    using le_nat_append [of "take n bs" "drop n bs"] by (simp add: min_absorb2)
  moreover have "le_nat (take n bs) < 256 ^ n" using le_nat_less [of "take n bs"] True by (simp add: min_absorb2)
  ultimately show ?thesis by simp
next
  case False
  then have "(256 :: nat) ^ length bs \<le> 256 ^ n" by (intro power_increasing) simp_all
  with le_nat_less [of bs] have "le_nat bs < 256 ^ n" by linarith
  with False show ?thesis by simp
qed

lemma rev_take_be_bytes: "n \<le> length bs \<Longrightarrow> rev (take n bs) = be_bytes n (le_nat bs)"
proof -
  assume n: "n \<le> length bs"
  have "be_nat (rev (take n bs)) = be_nat (be_bytes n (le_nat bs))"
    using le_nat_take [of n bs] by (simp add: be_nat_be_bytes le_nat_def)
  with n show ?thesis by (intro be_nat_inj) simp_all
qed

lemma length_word_bytes [simp]: "length (word_bytes w) = 8"
  by (simp add: word_bytes_def BN_BYTES_def)

lemma le_nat_word_bytes [simp]: "le_nat (word_bytes w) = unat w"
proof -
  have "unat w < 256 ^ 8" using unsigned_less [of w, where 'a = nat] by simp
  then show ?thesis by (simp add: le_nat_def word_bytes_def BN_BYTES_def be_nat_be_bytes)
qed

lemma words_bytes_simps [simp]: "words_bytes [] = []" "words_bytes (w # ws) = word_bytes w @ words_bytes ws"
  by (simp_all add: words_bytes_def)

lemma length_words_bytes [simp]: "length (words_bytes ws) = 8 * length ws"
  by (induction ws) simp_all

lemma WORD_256: "(WORD :: int) ^ n = 256 ^ (8 * n)"
proof -
  have "(256 :: int) ^ 8 = WORD" by simp
  then show ?thesis by (simp only: power_mult)
qed

lemma le_nat_words_bytes: "int (le_nat (words_bytes ws)) = words_val ws"
  by (induction ws) (simp_all add: le_nat_append)

lemma take_words_bytes: "take (8 * n) (words_bytes ws) = words_bytes (take n ws)"
proof (induction ws arbitrary: n)
  case (Cons w ws)
  then show ?case by (cases n) simp_all
qed simp

lemma drop_words_bytes: "drop (8 * n) (words_bytes ws) = words_bytes (drop n ws)"
proof (induction ws arbitrary: n)
  case (Cons w ws)
  then show ?case by (cases n) simp_all
qed simp

lemma bytes_words_bytes: "length bs = 8 * n \<Longrightarrow> words_val (bytes_words bs) = int (le_nat bs) \<and> length (bytes_words bs) = n"
proof (induction n arbitrary: bs)
  case 0
  then show ?case by (simp add: bytes_words.simps)
next
  case (Suc n)
  have l: "length (drop 8 bs) = 8 * n" "length (take 8 bs) = 8" using Suc.prems by simp_all
  have "le_nat (take 8 bs) < 256 ^ 8" using le_nat_less [of "take 8 bs"] l(2) by simp
  then have "uint (word_of_nat (le_nat (take 8 bs)) :: u64) = int (le_nat (take 8 bs))"
    by (simp add: uint_nat unat_of_nat)
  moreover have "le_nat bs = le_nat (take 8 bs) + 256 ^ 8 * le_nat (drop 8 bs)"
    using le_nat_append [of "take 8 bs" "drop 8 bs"] l(2) by simp
  moreover have "bs \<noteq> []" using Suc.prems by auto
  ultimately show ?case using Suc.IH [OF l(1)] by (subst (1 2) bytes_words.simps) (simp add: le_nat_def)
qed

section \<open>Writing bytes\<close>

lemma be_bytes_lead: "be_bytes (Suc n) v = word_of_nat (v div 256 ^ n mod 256) # be_bytes n v"
proof (induction n arbitrary: v)
  case (Suc n)
  have "be_bytes (Suc (Suc n)) v = be_bytes (Suc n) (v div 256) @ [word_of_nat (v mod 256)]" by simp
  also have "\<dots> = word_of_nat (v div 256 div 256 ^ n mod 256) # be_bytes n (v div 256) @ [word_of_nat (v mod 256)]"
    by (simp only: Suc.IH append_Cons)
  also have "\<dots> = word_of_nat (v div 256 ^ Suc n mod 256) # be_bytes (Suc n) v" by (simp add: div_mult2_eq)
  finally show ?case .
qed simp

lemma byte_of_sum:
  assumes "a < 256 ^ (8 * q)" "r < 8"
  shows "(a + 256 ^ (8 * q) * (w + 256 ^ 8 * b)) div 256 ^ (8 * q + r) mod 256 = w div 256 ^ r mod (256 :: nat)"
proof -
  have "(a + 256 ^ (8 * q) * (w + 256 ^ 8 * b)) div 256 ^ (8 * q) = w + 256 ^ 8 * b" using assms(1) by simp
  then have "(a + 256 ^ (8 * q) * (w + 256 ^ 8 * b)) div 256 ^ (8 * q + r) = (w + 256 ^ 8 * b) div 256 ^ r"
    by (simp only: power_add div_mult2_eq)
  also have e: "(256 :: nat) ^ 8 = 256 ^ r * (256 * 256 ^ (7 - r))" using assms(2) by (simp flip: power_Suc power_add)
  also have "(w + 256 ^ r * (256 * 256 ^ (7 - r)) * b) div 256 ^ r = w div 256 ^ r + 256 * (256 ^ (7 - r) * b)"
    by (simp only: mult.assoc) simp
  finally have "(a + 256 ^ (8 * q) * (w + 256 ^ 8 * b)) div 256 ^ (8 * q + r) = w div 256 ^ r + 256 * (256 ^ (7 - r) * b)" unfolding e .
  then show ?thesis by (simp only: mod_mult_self2)
qed

lemma byte_of_word: "ucast (drop_bit (8 * r) w AND 0xff) = (word_of_nat (unat (w :: u64) div 256 ^ r mod 256) :: u8)"
proof -
  have "unat (drop_bit (8 * r) w) = unat w div 256 ^ r"
    unfolding unat_drop_bit_eq by (simp add: drop_bit_eq_div power_mult)
  moreover have "unat (ucast v :: u8) = unat v mod 256" for v :: u64
    by (simp add: unsigned_ucast_eq take_bit_eq_mod)
  moreover have "unat (v AND 0xff) = unat v mod 256" for v :: u64
  proof -
    have e: "v AND 0xff = take_bit 8 v" by (simp add: take_bit_eq_mask mask_eq_exp_minus_1)
    show ?thesis unfolding e unsigned_take_bit_eq by (simp add: take_bit_eq_mod)
  qed
  ultimately show ?thesis
    by (intro word_unat_eq_iff [THEN iffD2]) (simp add: unat_of_nat)
qed

lemma byte_of_words:
  assumes "i < 8 * length d"
  shows "ucast (drop_bit (8 * (i mod 8)) (d ! (i div 8)) AND 0xff) = (word_of_nat (le_nat (words_bytes d) div 256 ^ i mod 256) :: u8)"
proof -
  let ?q = "i div 8" and ?r = "i mod 8"
  have q: "?q < length d" using assms by (simp add: div_less_iff_less_mult)
  then have "d = take ?q d @ d ! ?q # drop (Suc ?q) d" by (rule id_take_nth_drop)
  then have "le_nat (words_bytes d) = le_nat (words_bytes (take ?q d @ d ! ?q # drop (Suc ?q) d))" by simp
  also have "\<dots> = le_nat (words_bytes (take ?q d)) + 256 ^ (8 * ?q) * (unat (d ! ?q) + 256 ^ 8 * le_nat (words_bytes (drop (Suc ?q) d)))"
    using q by (simp add: words_bytes_def le_nat_append [of "concat (map word_bytes (take ?q d))"] le_nat_append [of "word_bytes (d ! ?q)"] min_absorb2
        length_words_bytes [unfolded words_bytes_def])
  finally have v: "le_nat (words_bytes d) = \<dots>" .
  have "le_nat (words_bytes (take ?q d)) < 256 ^ (8 * ?q)" using le_nat_less [of "words_bytes (take ?q d)"] q by (simp add: min_absorb2)
  from byte_of_sum [OF this, of ?r] show ?thesis unfolding v by (simp add: byte_of_word)
qed

lemma bn2bin_loop_bytes: "n \<le> 8 * length d \<Longrightarrow> bn2bin_loop d n = be_bytes n (le_nat (words_bytes d))"
  by (induction n) (simp_all add: be_bytes_lead byte_of_words BN_BYTES_def del: be_bytes.simps(2))

lemma BN_bn2bin_eq:
  assumes "bn_ok bn"
  shows "BN_bn2bin bn = be_bytes (BN_num_bytes bn) (nat (bn_mag bn))" "bn_mag bn < 256 ^ BN_num_bytes bn"
    "be_nat (BN_bn2bin bn) = nat (bn_mag bn)"
    "k < BN_num_bytes bn \<Longrightarrow> 256 ^ k \<le> bn_mag bn"
proof -
  note b = BN_num_bits_exact [OF assms]
  have l: "bn_width bn \<le> length (bn_d bn)" using assms by (simp add: bn_ok_def)
  have p: "(256 :: int) ^ n = 2 ^ (8 * n)" for n unfolding power_mult by simp
  have "(2 :: int) ^ BN_num_bits bn \<le> 256 ^ BN_num_bytes bn"
    unfolding p by (intro power_increasing) (simp_all add: BN_num_bytes_def)
  with b(1) show less: "bn_mag bn < 256 ^ BN_num_bytes bn" by linarith
  show "256 ^ k \<le> bn_mag bn" if "k < BN_num_bytes bn" for k
  proof -
    have "8 * k \<le> BN_num_bits bn - 1" "BN_num_bits bn \<noteq> 0" using that by (auto simp: BN_num_bytes_def)
    then have "(2 :: int) ^ (8 * k) \<le> 2 ^ (BN_num_bits bn - 1)" by (intro power_increasing) simp_all
    with b(2,3) \<open>BN_num_bits bn \<noteq> 0\<close> show ?thesis unfolding p by linarith
  qed
  have "BN_num_bits bn \<le> 64 * bn_width bn"
  proof (cases "BN_num_bits bn = 0")
    case False
    then have "bn_mag bn \<noteq> 0" using b(3) by simp
    from b(2) [OF this] have "2 ^ (BN_num_bits bn - 1) \<le> bn_mag bn" by blast
    also have "\<dots> < 2 ^ (64 * bn_width bn)" using bn_mag_less [OF assms] unfolding WORD_256 p by simp
    finally have "2 ^ (BN_num_bits bn - 1) < (2 :: int) ^ (64 * bn_width bn)" .
    then have "BN_num_bits bn - 1 < 64 * bn_width bn" by (rule power_less_imp_less_exp [rotated]) simp
    then show ?thesis by linarith
  qed simp
  then have n: "BN_num_bytes bn \<le> 8 * bn_width bn" by (simp add: BN_num_bytes_def)
  have "BN_bn2bin bn = rev (take (BN_num_bytes bn) (words_bytes (bn_d bn)))"
    using n l by (simp add: BN_bn2bin_def bn2bin_loop_bytes rev_take_be_bytes)
  also have "take (BN_num_bytes bn) (words_bytes (bn_d bn)) = take (BN_num_bytes bn) (words_bytes (bn_words bn))"
    unfolding bn_words_def take_words_bytes [symmetric] using n by (simp add: min_absorb1)
  also have "rev (take (BN_num_bytes bn) (words_bytes (bn_words bn))) = be_bytes (BN_num_bytes bn) (le_nat (words_bytes (bn_words bn)))"
    using n l by (intro rev_take_be_bytes) (simp add: length_bn_words [OF assms])
  also have "le_nat (words_bytes (bn_words bn)) = nat (bn_mag bn)" by (simp add: bn_mag_def flip: le_nat_words_bytes)
  finally show e: "BN_bn2bin bn = be_bytes (BN_num_bytes bn) (nat (bn_mag bn))" .
  have "nat (bn_mag bn) < 256 ^ BN_num_bytes bn" using less by (simp add: nat_less_iff)
  then show "be_nat (BN_bn2bin bn) = nat (bn_mag bn)" by (simp add: e be_nat_be_bytes)
qed

section \<open>Reading bytes\<close>

lemma push_byte:
  assumes "uint (word :: u64) < 256 ^ k" "k \<le> 7"
  shows "uint (push_bit 8 word OR ucast (b :: u8)) = 256 * uint word + uint b" "uint (push_bit 8 word OR ucast b) < 256 ^ Suc k"
proof -
  have "(256 :: int) ^ k \<le> 256 ^ 7" using assms(2) by (intro power_increasing) simp_all
  then have w: "uint word < 2 ^ 56" using assms(1) by simp
  have p: "uint (push_bit 8 word) = 256 * uint word"
    using w by (simp add: push_bit_eq_mult uint_word_ariths mult.commute)
  have u: "uint (ucast b :: u64) = uint b"
    using uint_bounded [of b] by (simp add: unsigned_ucast_eq take_bit_int_eq_self)
  have "push_bit 8 word AND ucast b = 0"
  proof (rule bit_word_eqI)
    fix n assume "n < LENGTH(64)"
    have "bit b n \<Longrightarrow> n < 8" using bit_imp_le_length [of b n] by simp
    then show "bit (push_bit 8 word AND ucast b) n = bit (0 :: u64) n" by (auto simp: bit_simps)
  qed
  then have "push_bit 8 word OR ucast b = push_bit 8 word + ucast b" by (simp add: disjunctive_add_eq_or)
  moreover have "uint (push_bit 8 word + ucast b) = uint (push_bit 8 word) + uint (ucast b :: u64)"
    using w uint_bounded [of b] by (intro uint_add_no_overflow) (simp add: p u)
  ultimately show e: "uint (push_bit 8 word OR ucast b) = 256 * uint word + uint b" by (simp add: p u)
  have "uint b < 256" using uint_bounded [of b] by simp
  with assms(1) show "uint (push_bit 8 word OR ucast b) < 256 ^ Suc k" unfolding e power_Suc by linarith
qed

lemma bin2bn_loop_value:
  assumes "length inp + 7 = 8 * n + m" "m \<le> 7" "uint word < 256 ^ (7 - m)" "n \<le> length d"
  shows "length (bin2bn_loop inp m n word d) = length d" "drop n (bin2bn_loop inp m n word d) = drop n d"
    "words_val (take n (bin2bn_loop inp m n word d)) = uint word * 256 ^ length inp + int (be_nat inp)"
proof -
  have "length (bin2bn_loop inp m n word d) = length d \<and> drop n (bin2bn_loop inp m n word d) = drop n d \<and>
    words_val (take n (bin2bn_loop inp m n word d)) = uint word * 256 ^ length inp + int (be_nat inp)"
    using assms
  proof (induction inp m n word d rule: bin2bn_loop.induct)
    case (1 m n word d)
    then have "n = 0" "m = 7" by simp_all arith+
    moreover have "uint word < 1" using "1.prems"(3) \<open>m = 7\<close> by simp
    then have "uint word = 0" using uint64_bounds(1) [of word] by linarith
    ultimately show ?case by simp
  next
    case (2 b inp m n word d)
    let ?w = "push_bit 8 word OR ucast b :: u64"
    obtain k where n: "n = Suc k" using "2.prems"(1,2) by (cases n) auto
    have w: "uint ?w = 256 * uint word + uint b" "uint ?w < 256 ^ Suc (7 - m)"
      using push_byte [OF "2.prems"(3)] by simp_all
    show ?case
    proof (cases "m = 0")
      case True
      have l: "length inp = 8 * k" using "2.prems"(1) n True by simp
      let ?d = "d[k := ?w]" and ?r = "bin2bn_loop inp 7 k 0 (d[k := ?w])"
      have ih: "length ?r = length d" "drop k ?r = drop k ?d" "words_val (take k ?r) = int (be_nat inp)"
        using "2.IH"(1) [OF refl True] "2.prems"(4) l by (simp_all add: n BN_BYTES_def)
      have k: "k < length d" using "2.prems"(4) n by simp
      have "?r ! k = drop k ?r ! 0" using k ih(1) by simp
      then have top: "?r ! k = ?w" unfolding ih(2) using k by simp
      have "drop n ?r = drop 1 (drop k ?r)" by (simp add: n)
      then have dr: "drop n ?r = drop n d" unfolding ih(2) by (simp add: n)
      have "take n ?r = take k ?r @ [?w]" using k ih(1) top by (simp add: n take_Suc_conv_app_nth)
      then have "words_val (take n ?r) = int (be_nat inp) + WORD ^ k * uint ?w"
        using k ih(1,3) by (simp add: words_val_snoc min_absorb2)
      then show ?thesis using True ih(1) dr w(1) l
        by (simp add: n Let_def BN_BYTES_def WORD_256 be_nat_Cons algebra_simps)
    next
      case False
      have "7 - (m - 1) = Suc (7 - m)" using False "2.prems"(2) by simp
      then show ?thesis using "2.IH"(2) [OF refl False] "2.prems"(1,2,4) w False
        by (simp add: Let_def be_nat_Cons algebra_simps)
    qed
  qed
  then show "length (bin2bn_loop inp m n word d) = length d" "drop n (bin2bn_loop inp m n word d) = drop n d"
    "words_val (take n (bin2bn_loop inp m n word d)) = uint word * 256 ^ length inp + int (be_nat inp)" by blast+
qed

lemma bin2bn_into_correct:
  assumes "word_alloc_ok alloc" "bn_ok r" "len \<le> length inp" "bin2bn_into alloc inp len r = (ok, s)"
  shows "bn_ok s" "ok \<Longrightarrow> bn_mag s = int (be_nat (take len inp))" "ok \<Longrightarrow> len \<noteq> 0 \<Longrightarrow> \<not> bn_neg s" "\<not> ok \<Longrightarrow> s = r"
    "len = 0 \<Longrightarrow> ok \<and> bn_neg s = bn_neg r"
proof -
  have "bn_ok s \<and> (ok \<longrightarrow> bn_mag s = int (be_nat (take len inp))) \<and> (ok \<longrightarrow> len \<noteq> 0 \<longrightarrow> \<not> bn_neg s) \<and> (\<not> ok \<longrightarrow> s = r) \<and>
    (len = 0 \<longrightarrow> ok \<and> bn_neg s = bn_neg r)"
  proof (cases "len = 0")
    case True
    then have "ok" "s = r\<lparr>bn_width := 0\<rparr>" using assms(4) by (simp_all add: bin2bn_into_def)
    with True assms(2) show ?thesis by (simp add: bn_ok_def bn_mag_def bn_words_def)
  next
    case False
    define n where "n = (len - 1) div 8 + 1"
    define m where "m = (len - 1) mod 8"
    have nm: "length (take len inp) + 7 = 8 * n + m" "m \<le> 7"
      using assms(3) False by (simp_all add: n_def m_def min_absorb2)
    obtain e r' where ex: "bn_wexpand alloc r n = (e, r')" by (rule prod.exhaust)
    note rx = bn_wexpand_correct [OF assms(1,2) ex]
    let ?d = "bin2bn_loop (take len inp) m n 0 (bn_d r')"
    have s: "(ok, s) = (if e then (True, r'\<lparr>bn_width := n, bn_neg := False, bn_d := ?d\<rparr>) else (False, r'))"
      using assms(4) False ex by (cases e) (simp_all add: bin2bn_into_def BN_BYTES_def n_def m_def Let_def)
    show ?thesis
    proof (cases e)
      case True
      then have n: "n \<le> length (bn_d r')" using rx(1,6) by (simp add: bn_ok_def)
      have "uint (0 :: u64) < 256 ^ (7 - m)" by simp
      note v = bin2bn_loop_value [OF nm this n]
      have "bn_ok s" using True s rx(1,6) v(1) by (simp add: bn_ok_def)
      moreover have "bn_mag s = int (be_nat (take len inp))" using True s v(3) by (simp add: bn_mag_def bn_words_def)
      ultimately show ?thesis using True s False by simp
    next
      case e: False
      with s rx(1,7) False show ?thesis by simp
    qed
  qed
  then show "bn_ok s" "ok \<Longrightarrow> bn_mag s = int (be_nat (take len inp))" "ok \<Longrightarrow> len \<noteq> 0 \<Longrightarrow> \<not> bn_neg s" "\<not> ok \<Longrightarrow> s = r"
    "len = 0 \<Longrightarrow> ok \<and> bn_neg s = bn_neg r" by blast+
qed

lemma words_bytes_words: "length bs = 8 * n \<Longrightarrow> words_bytes (bytes_words bs) = bs \<and> length (bytes_words bs) = n"
proof (induction n arbitrary: bs)
  case 0
  then show ?case by (simp add: bytes_words.simps)
next
  case (Suc n)
  have l: "length (drop 8 bs) = 8 * n" "length (take 8 bs) = 8" using Suc.prems by simp_all
  have "le_nat (take 8 bs) < 256 ^ 8" using le_nat_less [of "take 8 bs"] l(2) by simp
  then have "unat (word_of_nat (le_nat (take 8 bs)) :: u64) = le_nat (take 8 bs)" by (simp add: unat_of_nat)
  then have "word_bytes (word_of_nat (le_nat (take 8 bs))) = take 8 bs"
    using be_bytes_be_nat [of "rev (take 8 bs)"] l(2) by (simp add: word_bytes_def BN_BYTES_def le_nat_def)
  moreover have "bs \<noteq> []" using Suc.prems by auto
  ultimately show ?case using Suc.IH [OF l(1)] by (subst (1 2) bytes_words.simps) (simp add: le_nat_def)
qed

text \<open>Reading little-endian bytes leaves the sign of the old number as it was.\<close>

lemma le2bn_into_correct:
  assumes "word_alloc_ok alloc" "bn_ok r" "len \<le> length inp" "le2bn_into alloc inp len r = (True, s)" "len \<noteq> 0"
  shows "bn_ok s" "bn_mag s = int (le_nat (take len inp))" "bn_neg s = bn_neg r"
proof -
  define n where "n = (len - 1) div 8 + 1"
  have n: "len \<le> 8 * n" "8 * (n - 1) < len" "n \<noteq> 0" using assms(5) by (simp_all add: n_def)
  obtain r' where ex: "bn_wexpand alloc r n = (True, r')" and
    s: "s = r'\<lparr>bn_width := n, bn_d := bytes_words (store_at (words_bytes ((bn_d r')[n - 1 := 0])) 0 (take len inp))\<rparr>"
    using assms(4,5) by (auto simp: le2bn_into_def BN_BYTES_def n_def Let_def split: prod.splits bool.splits)
  note rx = bn_wexpand_correct [OF assms(1,2) ex]
  define d where "d = (bn_d r')[n - 1 := 0]"
  define m where "m = store_at (words_bytes d) 0 (take len inp)"
  have nd: "n \<le> length d" using rx(1,6) by (simp add: d_def bn_ok_def)
  have lm: "length m = 8 * length d" using nd n(1) assms(3) by (simp add: m_def min_absorb2)
  note b = words_bytes_words [OF lm]
  show "bn_ok s" using rx(1,6) b by (simp add: s bn_ok_def d_def m_def)
  show "bn_neg s = bn_neg r" using rx(4) by (simp add: s)
  have "drop (8 * (n - 1)) (take (8 * n) (words_bytes d)) = words_bytes (drop (n - 1) (take n d))"
    by (simp only: take_words_bytes drop_words_bytes)
  also have "drop (n - 1) (take n d) = [0]"
    using nd n(3) by (cases n) (simp_all add: d_def take_Suc_conv_app_nth)
  also have "words_bytes [0] = replicate 8 0" 
    using be_bytes_be_nat [of "replicate 8 0"] le_nat_zeros [of 8] by (simp add: word_bytes_def BN_BYTES_def le_nat_def)
  finally have z: "drop (8 * (n - 1)) (take (8 * n) (words_bytes d)) = replicate 8 0" .
  have "drop len (take (8 * n) (words_bytes d)) = drop (len - 8 * (n - 1)) (drop (8 * (n - 1)) (take (8 * n) (words_bytes d)))"
    using n(2) by (simp only: drop_drop) simp
  also have "\<dots> = replicate (8 - (len - 8 * (n - 1))) 0" unfolding z by simp
  finally have z: "drop len (take (8 * n) (words_bytes d)) = replicate (8 - (len - 8 * (n - 1))) 0" .
  have "take (8 * n) m = take len inp @ drop len (take (8 * n) (words_bytes d))"
    using n(1) assms(3) nd by (simp add: m_def store_at_def drop_take min_absorb2)
  then have t: "le_nat (take (8 * n) m) = le_nat (take len inp)" by (simp add: z le_nat_append)
  have "bn_mag s = words_val (take n (bytes_words m))" by (simp add: s bn_mag_def bn_words_def m_def d_def)
  also have "\<dots> = int (le_nat (take (8 * n) (words_bytes (bytes_words m))))" by (simp only: le_nat_words_bytes take_words_bytes)
  finally show "bn_mag s = int (le_nat (take len inp))" using b t by simp
qed

section \<open>Shortest and padded output\<close>

lemma power_256_interval:
  assumes "\<And>k. k < n \<Longrightarrow> (256 :: int) ^ k \<le> v" "v < 256 ^ n" "\<And>k. k < m \<Longrightarrow> 256 ^ k \<le> v" "v < 256 ^ m"
  shows "n = m"
  using assms(1) [of m] assms(2) assms(3) [of n] assms(4) by (cases n m rule: linorder_cases) auto

lemma BN_bn2bin_unique:
  assumes "bn_ok bn" "bn_mag bn = int (be_nat bs)" "bs = [] \<or> hd bs \<noteq> 0"
  shows "BN_bn2bin bn = bs"
proof -
  note o = BN_bn2bin_eq [OF assms(1)]
  have less: "int (be_nat bs) < 256 ^ length bs"
    using be_nat_less [of bs] by (metis of_nat_less_iff of_nat_numeral of_nat_power)
  have "256 ^ k \<le> int (be_nat bs)" if k: "k < length bs" for k
  proof -
    obtain b bt where bs: "bs = b # bt" "b \<noteq> 0" using assms(3) k by (cases bs) auto
    then have "1 \<le> unat b" by (simp add: Suc_le_eq unat_gt_0)
    then have "1 * 256 ^ length bt \<le> unat b * 256 ^ length bt" by (rule mult_right_mono) simp
    then have le: "256 ^ length bt \<le> be_nat bs" by (simp only: bs be_nat_Cons mult_1 trans_le_add1)
    have "(256 :: nat) ^ k \<le> 256 ^ length bt" using k bs by (intro power_increasing) simp_all
    with le have "256 ^ k \<le> be_nat bs" by linarith
    then show ?thesis by (metis of_nat_le_iff of_nat_numeral of_nat_power)
  qed
  then have "BN_num_bytes bn = length bs"
    using power_256_interval [of "BN_num_bytes bn" "bn_mag bn" "length bs"] o(2,4) less assms(2) by simp
  then show ?thesis using o(1) be_bytes_be_nat [of bs] assms(2) by simp
qed

lemma be_nat_dropWhile: "be_nat (dropWhile (\<lambda>b. b = 0) bs) = be_nat bs"
  by (induction bs) (simp_all add: be_nat_Cons)

lemma le_nat_eq_0_iff: "le_nat bs = 0 \<longleftrightarrow> (\<forall>i<length bs. bs ! i = 0)"
  by (induction bs) (auto simp: le_nat_append [of "[_]", simplified] le_nat_def All_less_Suc2 unat_eq_0 be_nat_append)

lemma BN_padded_exact:
  assumes "bn_ok bn"
  shows "BN_bn2bin_padded len bn = (if bn_mag bn < 256 ^ len then Some (be_bytes len (nat (bn_mag bn))) else None)"
    "BN_bn2le_padded len bn = (if bn_mag bn < 256 ^ len then Some (rev (be_bytes len (nat (bn_mag bn)))) else None)"
proof -
  define bs where "bs = words_bytes (bn_d bn)"
  define nb where "nb = 8 * bn_width bn"
  have l: "nb \<le> length bs" using assms by (simp add: bs_def nb_def bn_ok_def)
  have v: "int (le_nat (take nb bs)) = bn_mag bn"
    by (simp add: bs_def nb_def take_words_bytes le_nat_words_bytes bn_mag_def bn_words_def)
  then have mag: "bn_mag bn < 256 ^ len \<longleftrightarrow> le_nat (take nb bs) < 256 ^ len" "nat (bn_mag bn) = le_nat (take nb bs)"
    unfolding v [symmetric] by (metis of_nat_less_iff of_nat_numeral of_nat_power) simp
  have fits: "fits_in_bytes bs nb len \<longleftrightarrow> bn_mag bn < 256 ^ len" if "len < nb"
  proof -
    have "fits_in_bytes bs nb len \<longleftrightarrow> (\<forall>i\<in>{len..<nb}. bs ! i = 0)" by (simp add: fits_in_bytes_def fold_or_eq_0)
    also have "\<dots> \<longleftrightarrow> (\<forall>i<length (drop len (take nb bs)). drop len (take nb bs) ! i = 0)"
    proof
      show "\<forall>i\<in>{len..<nb}. bs ! i = 0 \<Longrightarrow> \<forall>i<length (drop len (take nb bs)). drop len (take nb bs) ! i = 0" using l that by simp
    next
      assume z: "\<forall>i<length (drop len (take nb bs)). drop len (take nb bs) ! i = 0"
      show "\<forall>i\<in>{len..<nb}. bs ! i = 0"
      proof
        fix i assume "i \<in> {len..<nb}"
        then have "i - len < nb - len" "len + (i - len) = i" by auto
        then show "bs ! i = 0" using z [rule_format, of "i - len"] l by simp
      qed
    qed
    also have "\<dots> \<longleftrightarrow> le_nat (drop len (take nb bs)) = 0" by (simp only: le_nat_eq_0_iff)
    also have "\<dots> \<longleftrightarrow> le_nat (take nb bs) < 256 ^ len"
    proof -
      have sp: "le_nat (take nb bs) = le_nat (take len bs) + 256 ^ len * le_nat (drop len (take nb bs))"
      proof -
        have e: "take nb bs = take len bs @ drop len (take nb bs)"
          using that by (metis append_take_drop_id min.absorb1 order_less_imp_le take_take)
        have "length (take len bs) = len" using l that by simp
        then show ?thesis using le_nat_append [of "take len bs" "drop len (take nb bs)"] by (simp flip: e)
      qed
      have "le_nat (take len bs) < 256 ^ len" using le_nat_less [of "take len bs"] l that by (simp add: min_absorb2)
      then show ?thesis unfolding sp by (cases "le_nat (drop len (take nb bs))") simp_all
    qed
    finally show ?thesis unfolding mag .
  qed
  define k where "k = min nb len"
  have out: "replicate (len - k) 0 @ rev (take k bs) = be_bytes len (nat (bn_mag bn))" if "bn_mag bn < 256 ^ len"
  proof (rule be_nat_inj)
    have "be_nat (replicate (len - k) 0 @ rev (take k bs)) = le_nat (take k bs @ replicate (len - k) 0)" by (simp add: le_nat_def)
    also have "\<dots> = le_nat (take k bs)" by (simp add: le_nat_append)
    also have "\<dots> = le_nat (take nb bs) mod 256 ^ len"
    proof (cases "nb \<le> len")
      case True
      then show ?thesis using that mag by (simp add: k_def)
    next
      case False
      then show ?thesis using le_nat_take [of len "take nb bs"] by (simp add: k_def min_absorb1 min_absorb2)
    qed
    finally show "be_nat (replicate (len - k) 0 @ rev (take k bs)) = be_nat (be_bytes len (nat (bn_mag bn)))"
      by (simp add: be_nat_be_bytes mag(2))
    show "length (replicate (len - k) 0 @ rev (take k bs)) = length (be_bytes len (nat (bn_mag bn)))"
      using l by (simp add: k_def)
  qed
  have m: "\<not> bn_mag bn < 256 ^ len \<Longrightarrow> len < nb"
  proof (rule ccontr)
    assume a: "\<not> bn_mag bn < 256 ^ len" "\<not> len < nb"
    have "(256 :: int) ^ nb \<le> 256 ^ len" using a(2) by (intro power_increasing) simp_all
    then show False using a(1) bn_mag_less [OF assms] unfolding WORD_256 nb_def by linarith
  qed
  have w: "bn_width bn * BN_BYTES = nb" by (simp add: nb_def BN_BYTES_def)
  show "BN_bn2bin_padded len bn = (if bn_mag bn < 256 ^ len then Some (be_bytes len (nat (bn_mag bn))) else None)"
    using fits m out by (auto simp: BN_bn2bin_padded_def Let_def w k_def [symmetric] bs_def [symmetric])
  have out_le: "take k bs @ replicate (len - k) 0 = rev (be_bytes len (nat (bn_mag bn)))" if "bn_mag bn < 256 ^ len"
    using arg_cong [OF out [OF that], of rev] by simp
  show "BN_bn2le_padded len bn = (if bn_mag bn < 256 ^ len then Some (rev (be_bytes len (nat (bn_mag bn)))) else None)"
    using fits m out_le by (auto simp: BN_bn2le_padded_def Let_def w k_def [symmetric] bs_def [symmetric])
qed

text \<open>
  C35: a big-endian byte string of any length, leading zeros or not, is read as its number;
  \<open>BN_bn2bin\<close> writes the shortest string of a number, so that reading and writing drops exactly the
  leading zeros; \<open>BN_bn2bin_padded\<close> and \<open>BN_bn2le_padded\<close> write a string of a given length exactly
  when the number fits.
\<close>

theorem BN_bytes_roundtrip:
  assumes "word_alloc_ok alloc" "bn_ok r" "bn_ok a"
  shows "(case BN_bin2bn obj_ok alloc bs (length bs) (Some r) of (ok, s) \<Rightarrow>
      \<exists>s'. s = Some s' \<and> bn_ok s' \<and> (ok \<longrightarrow> bn_mag s' = int (be_nat bs) \<and> (bs \<noteq> [] \<longrightarrow> bn_val s' = int (be_nat bs)) \<and>
        BN_bn2bin s' = dropWhile (\<lambda>b. b = 0) bs)) \<and>
    be_nat (BN_bn2bin a) = nat (bn_mag a) \<and>
    BN_bn2bin_padded len a = (if bn_mag a < 256 ^ len then Some (be_bytes len (nat (bn_mag a))) else None) \<and>
    BN_bn2le_padded len a = (if bn_mag a < 256 ^ len then Some (rev (be_bytes len (nat (bn_mag a)))) else None)"
proof -
  obtain ok s where r: "bin2bn_into alloc bs (length bs) r = (ok, s)" by (rule prod.exhaust)
  note c = bin2bn_into_correct [OF assms(1,2) order_refl r]
  have "BN_bn2bin s = dropWhile (\<lambda>b. b = 0) bs" if ok
  proof (rule BN_bn2bin_unique)
    show "bn_ok s" by (rule c(1))
    show "bn_mag s = int (be_nat (dropWhile (\<lambda>b. b = 0) bs))" using c(2) [OF that] by (simp add: be_nat_dropWhile)
    show "dropWhile (\<lambda>b. b = 0) bs = [] \<or> hd (dropWhile (\<lambda>b. b = 0) bs) \<noteq> 0"
      using hd_dropWhile [of "\<lambda>b. b = 0" bs] by blast
  qed
  then have "case BN_bin2bn obj_ok alloc bs (length bs) (Some r) of (ok, s) \<Rightarrow>
      \<exists>s'. s = Some s' \<and> bn_ok s' \<and> (ok \<longrightarrow> bn_mag s' = int (be_nat bs) \<and> (bs \<noteq> [] \<longrightarrow> bn_val s' = int (be_nat bs)) \<and>
        BN_bn2bin s' = dropWhile (\<lambda>b. b = 0) bs)"
    using c by (simp add: BN_bin2bn_def r bn_val_def)
  then show ?thesis using BN_bn2bin_eq(3) [OF assms(3)] BN_padded_exact [OF assms(3), of len] by blast
qed

theorem BN_bytes_roundtrip_witness:
  "case BN_bin2bn True full_words [0, 1, 2] 3 (Some BN_init) of (ok, s) \<Rightarrow>
     ok \<and> bn_val (the s) = 258 \<and> BN_bn2bin (the s) = [1, 2]"
proof -
  have i: "bn_ok BN_init" by (simp add: bn_ok_def BN_init_def)
  have l: "length [0, 1, 2 :: u8] = 3" by simp
  have "fst (BN_bin2bn True full_words [0, 1, 2] 3 (Some BN_init))"
    by (simp add: BN_bin2bn_def bin2bn_into_def BN_BYTES_def BN_init_def bn_wexpand_def INT_MAX_div malloc_words_def full_words_def
        OPENSSL_MALLOC_PREFIX_def BN_FLG_STATIC_DATA_def)
  then show ?thesis using BN_bytes_roundtrip [OF word_alloc_ok_full i i, where obj_ok = True and bs = "[0, 1, 2]" and len = 0, unfolded l]
    by (auto simp: be_nat_Cons split: prod.splits)
qed

text \<open>An empty string leaves the sign of the old number: the result is a negative zero.\<close>

lemma BN_bin2bn_keeps_sign:
  "BN_bin2bn True full_words [] 0 (Some (BN_value_one\<lparr>bn_neg := True\<rparr>)) = (True, Some (BN_value_one\<lparr>bn_neg := True, bn_width := 0\<rparr>))"
  by (simp add: BN_bin2bn_def bin2bn_into_def BN_value_one_def)

end
