(* ===== verification/BN_Shift.thy ===== *)
theory BN_Shift
  imports BN_Arith
begin

text \<open>
  \<open>shift.c\<close>: shifts as multiplication and division by powers of two, and single bits.
\<close>

section \<open>Shifting right\<close>

text \<open>The words of a number shifted right by fewer bits than a word has.\<close>

fun shr_words :: "nat \<Rightarrow> u64 list \<Rightarrow> u64 list" where
  "shr_words b [] = []"
| "shr_words b [w] = [drop_bit b w]"
| "shr_words b (w # v # ws) = (drop_bit b w OR push_bit (64 - b) v) # shr_words b (v # ws)"

lemma length_shr_words [simp]: "length (shr_words b ws) = length ws"
  by (induction b ws rule: shr_words.induct) simp_all

lemma shr_words_eq:
  "ws \<noteq> [] \<Longrightarrow> shr_words b ws =
    map (\<lambda>i. drop_bit b (ws ! i) OR push_bit (64 - b) (ws ! (i + 1))) [0..<length ws - 1] @ [drop_bit b (ws ! (length ws - 1))]"
proof (induction b ws rule: shr_words.induct)
  case (3 b w v ws)
  have "[0..<Suc (length ws)] = 0 # map Suc [0..<length ws]" by (simp add: upt_conv_Cons map_Suc_upt del: upt_Suc)
  with 3 show ?case by (simp add: comp_def del: upt_Suc)
qed simp_all

lemma or_disjoint_words:
  assumes "0 < b" "b < 64"
  shows "uint (drop_bit b w OR push_bit (64 - b) v) = uint w div 2 ^ b + (uint (v :: u64) mod 2 ^ b) * 2 ^ (64 - b)"
proof -
  have "drop_bit b w AND push_bit (64 - b) v = 0"
  proof (rule bit_word_eqI)
    fix n assume "n < LENGTH(64)"
    have "bit w (b + n) \<Longrightarrow> b + n < 64" using bit_imp_le_length [of w "b + n"] by simp
    then show "bit (drop_bit b w AND push_bit (64 - b) v) n = bit (0 :: u64) n" using assms by (auto simp: bit_simps)
  qed
  then have o: "drop_bit b w OR push_bit (64 - b) v = drop_bit b w + push_bit (64 - b) v" by (simp add: disjunctive_add_eq_or)
  have d: "uint (drop_bit b w) = uint w div 2 ^ b" by (rule uint_drop_bit)
  have pw: "(2 :: int) ^ b * 2 ^ (64 - b) = WORD" using assms by (simp flip: power_add)
  have "uint (push_bit (64 - b) v) = (uint v * 2 ^ (64 - b)) mod WORD"
    unfolding unsigned_push_bit_eq by (simp add: take_bit_eq_mod push_bit_eq_mult)
  also have "\<dots> = (uint v mod 2 ^ b) * 2 ^ (64 - b)"
    unfolding pw [symmetric] by (rule mod_mult_mult2)
  finally have p: "uint (push_bit (64 - b) v) = (uint v mod 2 ^ b) * 2 ^ (64 - b)" .
  have "uint w div 2 ^ b < 2 ^ (64 - b)" using uint64_bounds(2) [of w] by (intro int_div_less) (simp_all add: pw)
  moreover have "uint v mod 2 ^ b < 2 ^ b" by simp
  then have "uint v mod 2 ^ b + 1 \<le> 2 ^ b" by linarith
  then have "(uint v mod 2 ^ b + 1) * 2 ^ (64 - b) \<le> 2 ^ b * 2 ^ (64 - b)" by (rule mult_right_mono) simp
  ultimately have "uint w div 2 ^ b + (uint v mod 2 ^ b) * 2 ^ (64 - b) < WORD" unfolding pw by (simp add: distrib_right)
  then have "uint (drop_bit b w + push_bit (64 - b) v) = uint (drop_bit b w) + uint (push_bit (64 - b) v)"
    by (intro uint_add_no_overflow) (simp add: d p)
  then show ?thesis by (simp only: o d p)
qed

lemma shr_words_val: "0 < b \<Longrightarrow> b < 64 \<Longrightarrow> words_val (shr_words b ws) = words_val ws div 2 ^ b"
proof (induction b ws rule: shr_words.induct)
  case (3 b w v ws)
  define X where "X = words_val (v # ws)"
  have pw: "WORD = 2 ^ b * 2 ^ (64 - b)" using 3(3) by (simp flip: power_add)
  have "(uint w + 2 ^ b * (2 ^ (64 - b) * X)) div 2 ^ b = 2 ^ (64 - b) * X + uint w div 2 ^ b"
    by (rule div_mult_self2) simp
  then have l: "words_val (w # v # ws) div 2 ^ b = 2 ^ (64 - b) * X + uint w div 2 ^ b"
    by (simp only: words_val.simps(2) [of w] X_def [symmetric] pw mult.assoc)
  have x: "X mod 2 ^ b = uint v mod 2 ^ b"
    unfolding X_def words_val.simps(2) [of v] pw mult.assoc by (rule mod_mult_self2)
  have "words_val (shr_words b (w # v # ws)) = uint w div 2 ^ b + X mod 2 ^ b * 2 ^ (64 - b) + WORD * (X div 2 ^ b)"
    using 3 by (simp only: shr_words.simps words_val.simps(2) [of "_ OR _"] or_disjoint_words x X_def [symmetric])
  also have "\<dots> = uint w div 2 ^ b + 2 ^ (64 - b) * (2 ^ b * (X div 2 ^ b) + X mod 2 ^ b)"
    unfolding pw by (simp only: ring_distribs mult_ac add_ac)
  finally show ?case unfolding l by simp
qed (simp_all add: uint_drop_bit)

lemma bn_rshift_words_eq:
  assumes "num \<le> length a" "n div 64 < num"
  shows "bn_rshift_words a n num =
    (if n mod 64 = 0 then drop (n div 64) (take num a) else shr_words (n mod 64) (drop (n div 64) (take num a))) @ replicate (n div 64) 0"
proof -
  let ?q = "n div 64" and ?b = "n mod 64"
  let ?ws = "drop ?q (take num a)"
  have l: "length ?ws = num - ?q" "?ws \<noteq> []" using assms by simp_all
  have nth: "i < num - ?q \<Longrightarrow> ?ws ! i = a ! (?q + i)" for i using assms by simp
  have "map (\<lambda>i. drop_bit ?b (a ! i) OR push_bit (64 - ?b) (a ! (i + 1))) [?q..<num - 1] @ [drop_bit ?b (a ! (num - 1))] = shr_words ?b ?ws"
    unfolding shr_words_eq [OF l(2)] l(1) using assms(2) nth
    by (intro arg_cong2 [where f = "(@)"] nth_equalityI) (simp_all add: ac_simps)
  then show ?thesis using assms by (simp add: bn_rshift_words_def Let_def BN_BITS2_def drop_take)
qed

lemma bn_rshift_words_val:
  assumes "num \<le> length a"
  shows "length (bn_rshift_words a n num) = num" "words_val (bn_rshift_words a n num) = words_val (take num a) div 2 ^ n"
proof -
  let ?q = "n div 64" and ?b = "n mod 64"
  have n: "(2 :: int) ^ n = WORD ^ ?q * 2 ^ ?b"
  proof -
    have "(2 :: int) ^ n = 2 ^ (?q * BN_BITS2 + ?b)" by (simp add: BN_BITS2_def)
    then show ?thesis by (simp only: power_add WORD_power)
  qed
  have "length (bn_rshift_words a n num) = num \<and> words_val (bn_rshift_words a n num) = words_val (take num a) div 2 ^ n"
  proof (cases "?q < num")
    case False
    have "words_val (take num a) < WORD ^ num" using words_val_less [of "take num a"] assms by (simp add: min_absorb2)
    also have "WORD ^ num \<le> WORD ^ ?q" using False by (intro power_increasing) simp_all
    also have "WORD ^ ?q \<le> 2 ^ n" unfolding n by (simp add: mult_le_cancel_left1)
    finally show ?thesis using False by (simp add: bn_rshift_words_def BN_BITS2_def div_pos_pos_trivial)
  next
    case True
    let ?ws = "drop ?q (take num a)"
    have "words_val (take num a) = words_val (take ?q a) + WORD ^ ?q * words_val ?ws"
      using words_val_split [of "take num a" ?q] True assms by (simp add: min_absorb1 min_absorb2)
    moreover have "words_val (take ?q a) < WORD ^ ?q" using words_val_less [of "take ?q a"] True assms by (simp add: min_absorb2)
    ultimately have d: "words_val (take num a) div WORD ^ ?q = words_val ?ws" by (simp add: div_pos_pos_trivial)
    have "words_val (take num a) div 2 ^ n = words_val ?ws div 2 ^ ?b" unfolding n d [symmetric] by (simp add: zdiv_zmult2_eq)
    then show ?thesis using True assms by (simp add: bn_rshift_words_eq shr_words_val words_val_append)
  qed
  then show "length (bn_rshift_words a n num) = num" "words_val (bn_rshift_words a n num) = words_val (take num a) div 2 ^ n" by simp_all
qed

lemma bn_neg_width_swap: "bn\<lparr>bn_neg := s, bn_width := w\<rparr> = bn\<lparr>bn_width := w, bn_neg := s\<rparr>"
  by simp

lemma BN_rshift_correct:
  assumes "word_alloc_ok alloc" "bn_ok r" "bn_ok a" "BN_rshift alloc r a n = (ok, s)"
  shows "bn_ok s \<and> (ok \<longleftrightarrow> 0 \<le> n \<and> fst (bn_wexpand alloc r (bn_width a))) \<and>
    (ok \<longrightarrow> bn_mag s = bn_mag a div 2 ^ nat n \<and> (bn_neg s \<longleftrightarrow> bn_neg a \<and> bn_mag s \<noteq> 0) \<and> minimal s)"
proof (cases "n < 0")
  case True
  then show ?thesis using assms by (simp add: BN_rshift_def)
next
  case False
  obtain e r' where ex: "bn_wexpand alloc r (bn_width a) = (e, r')" by (rule prod.exhaust)
  note rx = bn_wexpand_correct [OF assms(1,2) ex]
  show ?thesis
  proof (cases e)
    case e: False
    then show ?thesis using assms(4) False ex rx(1,7) by (simp add: BN_rshift_def)
  next
    case True
    have l: "bn_width a \<le> length (bn_d a)" using assms(3) by (simp add: bn_ok_def)
    let ?ws = "bn_rshift_words (bn_d a) (nat n) (bn_width a)"
    let ?t = "r'\<lparr>bn_d := store_at (bn_d r') 0 ?ws, bn_width := bn_width a\<rparr>"
    note v = bn_rshift_words_val [OF l, of "nat n"]
    have t: "bn_ok ?t" "bn_mag ?t = bn_mag a div 2 ^ nat n"
      using store_words [OF rx(1), of ?ws] rx(6) True v by (simp_all add: bn_mag_def bn_words_def)
    have s: "ok" "s = bn_set_minimal_width (?t\<lparr>bn_neg := bn_neg a\<rparr>)"
      using assms(4) False ex True by (simp_all add: BN_rshift_def bn_neg_width_swap)
    have tn: "bn_ok (?t\<lparr>bn_neg := bn_neg a\<rparr>)" "bn_mag (?t\<lparr>bn_neg := bn_neg a\<rparr>) = bn_mag a div 2 ^ nat n" using t by simp_all
    note m = bn_set_minimal_width_correct [OF tn(1)]
    have "bn_neg s \<longleftrightarrow> bn_neg a \<and> bn_minimal_width (?t\<lparr>bn_neg := bn_neg a\<rparr>) \<noteq> 0"
      by (simp add: s(2) bn_set_minimal_width_def Let_def)
    also have "\<dots> \<longleftrightarrow> bn_neg a \<and> bn_mag s \<noteq> 0" using bn_minimal_width_props(3) [OF tn(1)] m(2) s(2) by simp
    finally show ?thesis using s m tn(2) False ex True by simp
  qed
qed

section \<open>Shifting left\<close>

lemma drop_update_less: "i < j \<Longrightarrow> drop j (xs[i := v]) = drop j xs"
  by simp

lemma lshift_words_loop_val:
  assumes "nw + k \<le> length t" "k \<le> length f"
  shows "length (lshift_words_loop f nw t k) = length t \<and> drop (nw + k) (lshift_words_loop f nw t k) = drop (nw + k) t \<and>
    take (nw + k) (lshift_words_loop f nw t k) = take nw t @ take k f"
  using assms
proof (induction k arbitrary: t)
  case (Suc k)
  let ?u = "t[nw + k := f ! k]" and ?r = "lshift_words_loop f nw (t[nw + k := f ! k]) k"
  have ih: "length ?r = length t" "drop (nw + k) ?r = drop (nw + k) ?u" "take (nw + k) ?r = take nw t @ take k f"
    using Suc.IH [of ?u] Suc.prems by simp_all
  have k: "nw + k < length t" using Suc.prems by simp
  have n: "?r ! (nw + k) = f ! k"
  proof -
    have "?r ! (nw + k) = drop (nw + k) ?r ! 0" using k ih(1) by simp
    then show ?thesis unfolding ih(2) using k by simp
  qed
  have "drop (nw + Suc k) ?r = drop 1 (drop (nw + k) ?r)" by simp
  then have "drop (nw + Suc k) ?r = drop (nw + Suc k) t" unfolding ih(2) by simp
  moreover have "take (nw + Suc k) ?r = take nw t @ take (Suc k) f"
    using k ih(1,3) n Suc.prems(2) by (simp add: take_Suc_conv_app_nth)
  ultimately show ?case using ih(1) by simp
qed simp

text \<open>The word at the current place has its low bits free; the word below fills them.\<close>

lemma shl_split:
  assumes "0 < b" "b < 64"
  shows "uint (push_bit b l) + WORD * uint (drop_bit (64 - b) l) = uint (l :: u64) * 2 ^ b" "uint (push_bit b l) mod 2 ^ b = 0"
proof -
  have pw: "WORD = 2 ^ b * 2 ^ (64 - b)" using assms by (simp flip: power_add)
  have "uint (push_bit b l) = (uint l * 2 ^ b) mod WORD"
    unfolding unsigned_push_bit_eq by (simp add: take_bit_eq_mod push_bit_eq_mult)
  also have "\<dots> = (uint l mod 2 ^ (64 - b)) * 2 ^ b"
    unfolding pw mult.commute [of "2 ^ b"] by (rule mod_mult_mult2)
  finally have p: "uint (push_bit b l) = (uint l mod 2 ^ (64 - b)) * 2 ^ b" .
  have d: "uint (drop_bit (64 - b) l) = uint l div 2 ^ (64 - b)" by (rule uint_drop_bit)
  have "uint (push_bit b l) + WORD * uint (drop_bit (64 - b) l) = (uint l mod 2 ^ (64 - b) + 2 ^ (64 - b) * (uint l div 2 ^ (64 - b))) * 2 ^ b"
    unfolding p d pw by (simp only: ring_distribs mult_ac)
  then show "uint (push_bit b l) + WORD * uint (drop_bit (64 - b) l) = uint l * 2 ^ b" by simp
  show "uint (push_bit b l) mod 2 ^ b = 0" unfolding p by simp
qed

lemma or_free_bits:
  assumes "uint (t :: u64) mod 2 ^ b = 0" "uint d < 2 ^ b" "b < 64"
  shows "uint (t OR d) = uint t + uint d"
proof -
  have "take_bit b t = 0"
    using assms(1,3) by (intro word_uint_eq_iff [THEN iffD2], unfold unsigned_take_bit_eq) (simp add: take_bit_eq_mod)
  then have t: "bit t n \<Longrightarrow> b \<le> n" for n by (metis bit_take_bit_iff bit_0_eq bot_apply bot_bool_def not_le)
  have "take_bit b d = d"
    using assms(2) by (intro word_uint_eq_iff [THEN iffD2], unfold unsigned_take_bit_eq) (simp add: take_bit_int_eq_self)
  then have d: "bit d n \<Longrightarrow> n < b" for n by (metis bit_take_bit_iff)
  have "t AND d = 0"
  proof (rule bit_word_eqI)
    fix n assume "n < LENGTH(64)"
    show "bit (t AND d) n = bit (0 :: u64) n" using t [of n] d [of n] by (auto simp: bit_and_iff)
  qed
  then have o: "t OR d = t + d" "t AND d = 0" by (simp_all add: disjunctive_add_eq_or)
  have t: "uint t = 2 ^ b * (uint t div 2 ^ b)" using assms(1) mult_div_mod_eq [of "2 ^ b" "uint t"] by simp
  have "uint t div 2 ^ b < 2 ^ (64 - b)" using uint64_bounds(2) [of t] assms(3) by (intro int_div_less) (simp_all flip: power_add)
  then have "2 ^ b * (uint t div 2 ^ b + 1) \<le> 2 ^ b * (2 :: int) ^ (64 - b)" by (intro mult_left_mono) simp_all
  also have "(2 :: int) ^ b * 2 ^ (64 - b) = WORD" using assms(3) by (simp flip: power_add)
  finally have "uint t + 2 ^ b \<le> WORD" using t by (simp add: distrib_left)
  with assms(2) have "uint t + uint d < WORD" by linarith
  then show ?thesis unfolding o(1) by (intro uint_add_no_overflow) simp
qed

lemma lshift_bits_loop_val:
  assumes "0 < b" "b < 64" "k \<le> length f" "nw + k < n" "n \<le> length t" "uint (t ! (nw + k)) mod 2 ^ b = 0"
  shows "length (lshift_bits_loop f nw b t k) = length t \<and> take nw (lshift_bits_loop f nw b t k) = take nw t \<and>
    words_val (drop nw (take n (lshift_bits_loop f nw b t k))) =
      words_val (take k f) * 2 ^ b + WORD ^ k * words_val (drop (nw + k) (take n t))"
  using assms(3-)
proof (induction k arbitrary: t)
  case (Suc k)
  let ?l = "f ! k"
  let ?t1 = "t[nw + k + 1 := t ! (nw + k + 1) OR drop_bit (64 - b) ?l]"
  let ?t2 = "?t1[nw + k := push_bit b ?l]"
  have b: "nw + k < n" "nw + Suc k < length t" "nw + k < length t" "nw + k + 1 < n" using Suc.prems by simp_all
  have dlt: "uint (drop_bit (64 - b) ?l) < 2 ^ b" unfolding uint_drop_bit
    using uint64_bounds(2) [of ?l] assms(2) by (intro int_div_less) (simp_all flip: power_add)
  have o: "uint (t ! (nw + k + 1) OR drop_bit (64 - b) ?l) = uint (t ! (nw + k + 1)) + uint (drop_bit (64 - b) ?l)"
    using Suc.prems(4) dlt assms(2) by (intro or_free_bits) simp_all
  have "drop (nw + k) (take n ?t2) = ?t2 ! (nw + k) # ?t2 ! (nw + k + 1) # drop (nw + k + 2) (take n ?t2)"
    using b Suc.prems(3) Cons_nth_drop_Suc [of "nw + k" "take n ?t2"] Cons_nth_drop_Suc [of "nw + k + 1" "take n ?t2"] by simp
  moreover have "drop (nw + k + 2) (take n ?t2) = drop (nw + k + 2) (take n t)" by (simp add: drop_take)
  moreover have "drop (nw + Suc k) (take n t) = t ! (nw + k + 1) # drop (nw + k + 2) (take n t)"
    using b Suc.prems(3) Cons_nth_drop_Suc [of "nw + k + 1" "take n t"] by simp
  ultimately have v: "words_val (drop (nw + k) (take n ?t2)) = uint ?l * 2 ^ b + WORD * words_val (drop (nw + Suc k) (take n t))"
    using b o shl_split(1) [OF assms(1,2), of ?l] by (simp add: ring_distribs)
  have "uint (?t2 ! (nw + k)) mod 2 ^ b = 0" using b shl_split(2) [OF assms(1,2), of ?l] by simp
  with Suc.IH [of ?t2] b Suc.prems
  have ih: "length (lshift_bits_loop f nw b ?t2 k) = length t" "take nw (lshift_bits_loop f nw b ?t2 k) = take nw t"
    "words_val (drop nw (take n (lshift_bits_loop f nw b ?t2 k))) =
      words_val (take k f) * 2 ^ b + WORD ^ k * words_val (drop (nw + k) (take n ?t2))" by simp_all
  have r: "lshift_bits_loop f nw b t (Suc k) = lshift_bits_loop f nw b ?t2 k" by (simp add: Let_def BN_BITS2_def)
  have "words_val (take (Suc k) f) = words_val (take k f) + WORD ^ k * uint ?l"
    using Suc.prems(1) by (simp add: take_Suc_conv_app_nth words_val_snoc min_absorb2)
  then show ?case unfolding r using ih v by (simp add: ring_distribs mult_ac)
qed simp

lemma BN_lshift_correct:
  assumes "word_alloc_ok alloc" "bn_ok r" "bn_ok a" "sign_ok a" "BN_lshift alloc r a n = (ok, s)"
  shows "bn_ok s \<and> (ok \<longrightarrow> 0 \<le> n \<and> bn_val s = bn_val a * 2 ^ nat n \<and> sign_ok s \<and> minimal s) \<and>
    (0 \<le> n \<and> bn_room alloc r (bn_width a + nat n div BN_BITS2 + 1) \<longrightarrow> ok)"
proof (cases "n < 0")
  case True
  then show ?thesis using assms by (simp add: BN_lshift_def)
next
  case False
  let ?nw = "nat n div 64" and ?b = "nat n mod 64" and ?w = "bn_width a"
  obtain e r' where ex: "bn_wexpand alloc (r\<lparr>bn_neg := bn_neg a\<rparr>) (?w + ?nw + 1) = (e, r')" by (rule prod.exhaust)
  have ro: "bn_ok (r\<lparr>bn_neg := bn_neg a\<rparr>)" using assms(2) by simp
  note rx = bn_wexpand_correct [OF assms(1) ro ex]
  show ?thesis
  proof (cases e)
    case e: False
    have "\<not> bn_room alloc r (?w + ?nw + 1)"
    proof
      assume "bn_room alloc r (?w + ?nw + 1)"
      then have "bn_room alloc (r\<lparr>bn_neg := bn_neg a\<rparr>) (?w + ?nw + 1)" by (simp add: bn_room_def)
      from bn_room_wexpand [OF this order.refl] ex e show False by simp
    qed
    with e show ?thesis using assms(5) False ex rx(1) by (simp add: BN_lshift_def Let_def BN_BITS2_def)
  next
    case True
    define f where "f = bn_d a"
    define t where "t = (bn_d r')[?w + ?nw := 0]"
    define u where "u = (if ?b = 0 then lshift_words_loop f ?nw t ?w else lshift_bits_loop f ?nw ?b t ?w)"
    let ?N = "?w + ?nw + 1"
    have fl: "?w \<le> length f" using assms(3) by (simp add: bn_ok_def f_def)
    have tl: "?N \<le> length t" "?w + ?nw < length (bn_d r')" using rx(1,6) True by (simp_all add: bn_ok_def t_def)
    have tz: "t ! (?nw + ?w) = 0" using tl by (simp add: t_def add.commute)
    have last: "drop (?nw + ?w) (take ?N t) = [0]"
      using tl tz Cons_nth_drop_Suc [of "?nw + ?w" "take ?N t"] by (simp add: add.commute)
    have u: "length u = length t \<and> words_val (drop ?nw (take ?N u)) = bn_mag a * 2 ^ ?b"
    proof (cases "?b = 0")
      case b0: True
      have l: "length u = length t" "drop (?nw + ?w) u = drop (?nw + ?w) t" "take (?nw + ?w) u = take ?nw t @ take ?w f"
        using lshift_words_loop_val [of ?nw ?w t f] tl fl by (simp_all add: u_def b0)
      have "take ?N u = take (?nw + ?w) u @ take 1 (drop (?nw + ?w) u)" by (simp only: take_add [symmetric]) (simp add: ac_simps)
      also have "take 1 (drop (?nw + ?w) u) = [0]" unfolding l(2) using last by (simp add: take_drop ac_simps)
      finally have "drop ?nw (take ?N u) = take ?w f @ [0]" using tl by (simp add: l(3))
      then show ?thesis using l(1) b0 by (simp add: words_val_append bn_mag_def bn_words_def f_def)
    next
      case b0: False
      then show ?thesis using lshift_bits_loop_val [of ?b ?w f ?nw ?N t] tl fl tz last
        by (simp add: u_def bn_mag_def bn_words_def f_def)
    qed
    let ?u = "store_at u 0 (replicate ?nw 0)"
    have ul: "?nw \<le> length u" using u tl by simp
    have "take ?N ?u = replicate ?nw 0 @ drop ?nw (take ?N u)" using ul by (simp add: store_at_def drop_take)
    then have uv: "words_val (take ?N ?u) = WORD ^ ?nw * (bn_mag a * 2 ^ ?b)" "length ?u = length t" using u ul by (simp_all add: words_val_append)
    have p: "WORD ^ ?nw * (bn_mag a * 2 ^ ?b) = bn_mag a * 2 ^ nat n"
    proof -
      have "(2 :: int) ^ nat n = 2 ^ (?nw * BN_BITS2 + ?b)" by (simp add: BN_BITS2_def)
      then show ?thesis by (simp only: power_add WORD_power mult_ac)
    qed
    let ?s = "r'\<lparr>bn_d := ?u, bn_width := ?N\<rparr>"
    have s: "ok" "s = bn_set_minimal_width ?s"
      using assms(5) False ex True by (auto simp: BN_lshift_def Let_def BN_BITS2_def u_def t_def f_def)
    have ok: "bn_ok ?s" "bn_mag ?s = bn_mag a * 2 ^ nat n"
      using rx(1,6) True uv(2) tl(1) uv(1) unfolding p by (simp_all add: bn_ok_def bn_mag_def bn_words_def t_def)
    have "bn_neg ?s = bn_neg a" using rx(4) by simp
    then have "bn_val ?s = bn_val a * 2 ^ nat n" using ok(2) by (simp add: bn_val_def)
    then show ?thesis using s bn_set_minimal_width_correct [OF ok(1)] False by simp
  qed
qed

section \<open>By one bit, and single bits\<close>

lemma bn_rshift1_words_eq: "bn_rshift1_words a num = bn_rshift_words a 1 num"
  by (simp add: bn_rshift1_words_def bn_rshift_words_def BN_BITS2_def)

lemma BN_rshift1_eq: "BN_rshift1 alloc r a = BN_rshift alloc r a 1"
  by (simp add: BN_rshift1_def BN_rshift_def bn_rshift1_words_eq bn_neg_width_swap split: prod.splits bool.splits)

lemma bn_is_bit_set_words_iff:
  assumes "num \<le> length a"
  shows "bn_is_bit_set_words a num n \<longleftrightarrow> odd (words_val (take num a) div 2 ^ n)"
proof (cases "n div 64 < num")
  case False
  have "words_val (take num a) < 2 ^ n"
  proof -
    have "words_val (take num a) < WORD ^ num" using words_val_less [of "take num a"] assms by (simp add: min_absorb2)
    also have "WORD ^ num \<le> 2 ^ n" using False unfolding WORD_power BN_BITS2_def by (intro power_increasing) auto
    finally show ?thesis .
  qed
  then show ?thesis using False by (simp add: bn_is_bit_set_words_def BN_BITS2_def div_pos_pos_trivial)
next
  case True
  let ?q = "n div 64" and ?b = "n mod 64"
  have q: "?q < num" "?q < length a" using True assms by simp_all
  let ?x = "words_val (drop (Suc ?q) (take num a))"
  have "drop ?q (take num a) = a ! ?q # drop (Suc ?q) (take num a)"
    using q Cons_nth_drop_Suc [of ?q "take num a"] by simp
  then have "words_val (take num a) = words_val (take ?q a) + WORD ^ ?q * (uint (a ! ?q) + WORD * ?x)"
    using words_val_split [of "take num a" ?q] q assms by (simp add: min_absorb1 min_absorb2)
  moreover have "words_val (take ?q a) < WORD ^ ?q" using words_val_less [of "take ?q a"] q by (simp add: min_absorb2)
  ultimately have d: "words_val (take num a) div WORD ^ ?q = uint (a ! ?q) + WORD * ?x" by (simp add: div_pos_pos_trivial)
  have n: "(2 :: int) ^ n = WORD ^ ?q * 2 ^ ?b"
  proof -
    have "(2 :: int) ^ n = 2 ^ (?q * BN_BITS2 + ?b)" by (simp add: BN_BITS2_def)
    then show ?thesis by (simp only: power_add WORD_power)
  qed
  have b: "?b < 64" by simp
  have pw: "WORD = 2 ^ ?b * (2 * 2 ^ (63 - ?b))"
  proof -
    have "(2 :: int) ^ ?b * (2 * 2 ^ (63 - ?b)) = 2 ^ (?b + Suc (63 - ?b))" by (simp only: power_add power_Suc)
    also have "?b + Suc (63 - ?b) = 64" using b by linarith
    finally show ?thesis by simp
  qed
  have "words_val (take num a) div 2 ^ n = (uint (a ! ?q) + WORD * ?x) div 2 ^ ?b"
    unfolding n by (simp add: zdiv_zmult2_eq d)
  also have "\<dots> = uint (a ! ?q) div 2 ^ ?b + 2 * (2 ^ (63 - ?b) * ?x)"
    unfolding pw mult.assoc by (simp add: add.commute)
  finally have o: "odd (words_val (take num a) div 2 ^ n) \<longleftrightarrow> odd (uint (a ! ?q) div 2 ^ ?b)" by simp
  have "bn_is_bit_set_words a num n \<longleftrightarrow> bit (a ! ?q) ?b"
    using q by (simp add: bn_is_bit_set_words_def BN_BITS2_def Let_def and_one_eq bit_iff_odd_drop_bit odd_iff_mod_2_eq_one)
  also have "\<dots> \<longleftrightarrow> bit (uint (a ! ?q)) ?b" using b by (simp add: bit_uint_iff)
  finally show ?thesis unfolding o bit_iff_odd .
qed

text \<open>
  C36: shifting left multiplies by a power of two and shifting right divides the magnitude, rounding
  towards zero, for shifts across any number of words; both succeed whenever the result has room, or
  can get it; a negative count is refused; the number of bits is the length of the magnitude, none
  for zero, and \<open>BN_is_bit_set\<close> reads its binary digits.
\<close>

theorem BN_shift_exact:
  assumes "word_alloc_ok alloc" "bn_ok r" "bn_ok a" "sign_ok a"
  shows "(case BN_lshift alloc r a n of (ok, s) \<Rightarrow>
      bn_ok s \<and> (ok \<longrightarrow> 0 \<le> n \<and> bn_val s = bn_val a * 2 ^ nat n \<and> sign_ok s \<and> minimal s) \<and>
      (0 \<le> n \<and> bn_room alloc r (bn_width a + nat n div BN_BITS2 + 1) \<longrightarrow> ok)) \<and>
    (case BN_rshift alloc r a n of (ok, s) \<Rightarrow>
      bn_ok s \<and> (ok \<longrightarrow> 0 \<le> n \<and> bn_val s = sgn (bn_val a) * (\<bar>bn_val a\<bar> div 2 ^ nat n) \<and> sign_ok s \<and> minimal s) \<and>
      (0 \<le> n \<and> bn_room alloc r (bn_width a) \<longrightarrow> ok)) \<and>
    BN_rshift1 alloc r a = BN_rshift alloc r a 1 \<and>
    \<bar>bn_val a\<bar> < 2 ^ BN_num_bits a \<and> (bn_val a \<noteq> 0 \<longrightarrow> 2 ^ (BN_num_bits a - 1) \<le> \<bar>bn_val a\<bar>) \<and>
    (bn_val a = 0 \<longrightarrow> BN_num_bits a = 0) \<and>
    (BN_is_bit_set a n \<longleftrightarrow> 0 \<le> n \<and> odd (\<bar>bn_val a\<bar> div 2 ^ nat n))"
proof -
  have m: "\<bar>bn_val a\<bar> = bn_mag a" by (simp add: bn_val_def)
  have sg: "sgn (bn_val a) * x = (if bn_neg a then - x else x)" if "bn_mag a = 0 \<Longrightarrow> x = 0" for x
  proof (cases "bn_mag a = 0")
    case False
    then have "0 < bn_mag a" using bn_mag_nonneg [of a] by linarith
    then show ?thesis by (simp add: bn_val_def)
  qed (simp add: that bn_val_def)
  have l: "bn_width a \<le> length (bn_d a)" using assms(3) by (simp add: bn_ok_def)
  have bit: "BN_is_bit_set a n \<longleftrightarrow> 0 \<le> n \<and> odd (bn_mag a div 2 ^ nat n)"
    using bn_is_bit_set_words_iff [OF l, of "nat n"] by (simp add: BN_is_bit_set_def bn_mag_def bn_words_def)
  obtain ok s where rs: "BN_rshift alloc r a n = (ok, s)" by (rule prod.exhaust)
  define D where "D = bn_mag a div 2 ^ nat n"
  have sD: "sgn (bn_val a) * D = (if bn_neg a then - D else D)" by (rule sg) (simp add: D_def)
  have "case BN_rshift alloc r a n of (ok, s) \<Rightarrow>
      bn_ok s \<and> (ok \<longrightarrow> 0 \<le> n \<and> bn_val s = sgn (bn_val a) * (bn_mag a div 2 ^ nat n) \<and> sign_ok s \<and> minimal s) \<and>
      (0 \<le> n \<and> bn_room alloc r (bn_width a) \<longrightarrow> ok)"
    using BN_rshift_correct [OF assms(1-3) rs] bn_room_wexpand [of alloc r "bn_width a", OF _ order.refl]
    unfolding rs D_def [symmetric] sD by (auto simp: bn_val_def sign_ok_def)
  then show ?thesis unfolding m using BN_lshift_correct [OF assms, of n] BN_rshift1_eq [of alloc r a] bit
      BN_num_bits_exact [OF assms(3)] by (auto simp: bn_val_def split: prod.splits)
qed

theorem BN_shift_exact_witness:
  "\<exists>s. BN_lshift full_words BN_init (BN_value_one\<lparr>bn_neg := True\<rparr>) 64 = (True, s) \<and> bn_val s = - WORD"
proof -
  let ?a = "BN_value_one\<lparr>bn_neg := True\<rparr>"
  have ok: "bn_ok BN_init" "bn_ok ?a" "sign_ok ?a" "bn_val ?a = - 1"
    by (simp_all add: bn_ok_def BN_init_def BN_value_one_def sign_ok_def bn_mag_def bn_val_def bn_words_def INT_MAX_div)
  have "fst (BN_lshift full_words BN_init ?a 64)"
    by (simp add: BN_lshift_def BN_init_def BN_value_one_def bn_wexpand_def INT_MAX_div malloc_words_def full_words_def
        OPENSSL_MALLOC_PREFIX_def BN_BYTES_def BN_FLG_STATIC_DATA_def BN_BITS2_def INT_MAX_def Let_def)
  then obtain s where s: "BN_lshift full_words BN_init ?a 64 = (True, s)" by (metis prod.collapse)
  with BN_shift_exact [OF word_alloc_ok_full ok(1-3), of 64] show ?thesis unfolding ok(4) by simp
qed

end
