(* ===== verification/BN_Invariant.thy ===== *)
theory BN_Invariant
  imports BN_Shift BN_Bytes
begin

text \<open>
  The invariant of a \<open>BIGNUM\<close> over any run of the operations of \<open>bn.c\<close>, \<open>bytes.c\<close>, \<open>add.c\<close> and
  \<open>shift.c\<close>, on success and on failure.
\<close>

section \<open>Every operation returns a well-formed number\<close>

text \<open>
  An operation of \<open>BIGNUM\<close>s: what it makes of the number at the place of its result, and of the
  numbers that are its operands.
\<close>

datatype bn_op =
    Op_copy bignum | Op_clear | Op_zero | Op_set_word u64 | Op_set_words "u64 list" nat | Op_resize nat | Op_minimal
  | Op_negative bool | Op_expand nat | Op_bin2bn bytes | Op_add bignum bignum | Op_sub bignum bignum
  | Op_uadd bignum bignum | Op_usub bignum bignum | Op_add_word u64 | Op_sub_word u64
  | Op_lshift bignum int | Op_lshift1 bignum | Op_rshift bignum int | Op_rshift1 bignum
  | Op_set_bit int | Op_clear_bit int | Op_mask_bits int

fun run_bn_op :: "word_alloc \<Rightarrow> bn_op \<Rightarrow> bignum \<Rightarrow> bignum option" where
  "run_bn_op alloc (Op_copy a) r = Some (snd (BN_copy alloc r a))"
| "run_bn_op alloc Op_clear r = Some (BN_clear r)"
| "run_bn_op alloc Op_zero r = Some (BN_zero r)"
| "run_bn_op alloc (Op_set_word w) r = Some (snd (BN_set_word alloc r w))"
| "run_bn_op alloc (Op_set_words ws n) r = Some (snd (bn_set_words alloc r ws n))"
| "run_bn_op alloc (Op_resize n) r = Some (snd (bn_resize_words alloc r n))"
| "run_bn_op alloc Op_minimal r = Some (bn_set_minimal_width r)"
| "run_bn_op alloc (Op_negative s) r = Some (BN_set_negative r s)"
| "run_bn_op alloc (Op_expand bits) r = Some (snd (bn_expand alloc r bits))"
| "run_bn_op alloc (Op_bin2bn bs) r = snd (BN_bin2bn True alloc bs (length bs) (Some r))"
| "run_bn_op alloc (Op_add a b) r = Some (snd (BN_add alloc r a b))"
| "run_bn_op alloc (Op_sub a b) r = Some (snd (BN_sub alloc r a b))"
| "run_bn_op alloc (Op_uadd a b) r = Some (snd (BN_uadd alloc r a b))"
| "run_bn_op alloc (Op_usub a b) r = Some (snd (BN_usub alloc r a b))"
| "run_bn_op alloc (Op_add_word w) r = map_option snd (BN_add_word alloc r w)"
| "run_bn_op alloc (Op_sub_word w) r = map_option snd (BN_sub_word alloc r w)"
| "run_bn_op alloc (Op_lshift a n) r = Some (snd (BN_lshift alloc r a n))"
| "run_bn_op alloc (Op_lshift1 a) r = Some (snd (BN_lshift1 alloc r a))"
| "run_bn_op alloc (Op_rshift a n) r = Some (snd (BN_rshift alloc r a n))"
| "run_bn_op alloc (Op_rshift1 a) r = Some (snd (BN_rshift1 alloc r a))"
| "run_bn_op alloc (Op_set_bit n) r = Some (snd (BN_set_bit alloc r n))"
| "run_bn_op alloc (Op_clear_bit n) r = Some (snd (BN_clear_bit r n))"
| "run_bn_op alloc (Op_mask_bits n) r = Some (snd (BN_mask_bits r n))"

fun bn_operands :: "bn_op \<Rightarrow> bignum list" where
  "bn_operands (Op_copy a) = [a]"
| "bn_operands (Op_add a b) = [a, b]"
| "bn_operands (Op_sub a b) = [a, b]"
| "bn_operands (Op_uadd a b) = [a, b]"
| "bn_operands (Op_usub a b) = [a, b]"
| "bn_operands (Op_lshift a n) = [a]"
| "bn_operands (Op_lshift1 a) = [a]"
| "bn_operands (Op_rshift a n) = [a]"
| "bn_operands (Op_rshift1 a) = [a]"
| "bn_operands _ = []"

text \<open>The words handed to \<open>bn_set_words\<close> are there.\<close>

fun bn_op_ok :: "bn_op \<Rightarrow> bool" where
  "bn_op_ok (Op_set_words ws n) \<longleftrightarrow> n \<le> length ws"
| "bn_op_ok op \<longleftrightarrow> list_all bn_ok (bn_operands op)"

lemma bn_wexpand_ok: "word_alloc_ok alloc \<Longrightarrow> bn_ok r \<Longrightarrow> bn_ok (snd (bn_wexpand alloc r n))"
  using bn_wexpand_correct(1) [of alloc r n] by (cases "bn_wexpand alloc r n") simp

text \<open>The shape of the operations that expand first and then store.\<close>

lemma expand_then_ok:
  assumes "word_alloc_ok alloc" "bn_ok r" "\<And>r'. bn_wexpand alloc r n = (True, r') \<Longrightarrow> bn_ok r' \<Longrightarrow> n \<le> bn_dmax r' \<Longrightarrow> bn_width r' = bn_width r \<Longrightarrow> bn_ok (f r')"
  shows "bn_ok (snd (case bn_wexpand alloc r n of (False, r) \<Rightarrow> (False, r) | (True, r) \<Rightarrow> (True, f r)))"
proof -
  obtain e r' where ex: "bn_wexpand alloc r n = (e, r')" by (rule prod.exhaust)
  show ?thesis using assms(3) bn_wexpand_correct [OF assms(1,2) ex] by (cases e) (simp_all add: ex)
qed

lemma lshift1_loop_length: "lshift1_loop ws c = (rs, c') \<Longrightarrow> length rs = length ws"
  by (induction ws c arbitrary: rs c' rule: lshift1_loop.induct) (auto split: prod.splits)

lemma bn_ok_width: "bn_ok r \<Longrightarrow> w \<le> bn_dmax r \<Longrightarrow> bn_ok (r\<lparr>bn_width := w\<rparr>)"
  by (simp add: bn_ok_def)

lemma bn_ok_words: "bn_ok r \<Longrightarrow> length d = length (bn_d r) \<Longrightarrow> bn_ok (r\<lparr>bn_d := d\<rparr>)"
  by (simp add: bn_ok_def)

lemma bn_ok_fields: "bn_ok r \<Longrightarrow> bn_width r \<le> length (bn_d r) \<and> length (bn_d r) = bn_dmax r"
  by (simp add: bn_ok_def)

lemma bn_set_minimal_width_ok: "bn_ok r \<Longrightarrow> bn_ok (bn_set_minimal_width r)"
  by (rule bn_set_minimal_width_correct)

lemma set_ops_ok:
  assumes "word_alloc_ok alloc" "bn_ok r"
  shows "bn_ok a \<Longrightarrow> bn_ok (snd (BN_copy alloc r a))" "bn_ok (BN_clear r)" "bn_ok (BN_zero r)" "bn_ok (snd (BN_set_word alloc r w))"
    "n \<le> length ws \<Longrightarrow> bn_ok (snd (bn_set_words alloc r ws n))" "bn_ok (snd (bn_resize_words alloc r n))"
    "bn_ok (BN_set_negative r s)" "bn_ok (snd (bn_expand alloc r bits))"
proof -
  show "bn_ok (snd (BN_copy alloc r a))" if "bn_ok a" unfolding BN_copy_def
    using that by (intro expand_then_ok assms) (auto simp: bn_ok_def store_at_def)
  show "bn_ok (BN_clear r)" "bn_ok (BN_zero r)" using assms(2) by (simp_all add: BN_clear_def BN_zero_def bn_ok_def)
  show "bn_ok (snd (BN_set_word alloc r w))" using BN_set_word_correct [OF assms] by (metis prod.collapse)
  show "bn_ok (snd (bn_set_words alloc r ws n))" if "n \<le> length ws" unfolding bn_set_words_def
    using that by (intro expand_then_ok assms) (auto simp: bn_ok_def store_at_def)
  show "bn_ok (snd (bn_resize_words alloc r n))"
  proof (cases "bn_width r \<le> n")
    case True
    then show ?thesis unfolding bn_resize_words_def
      using expand_then_ok [OF assms, of n "\<lambda>r. r\<lparr>bn_d := store_at (bn_d r) (bn_width r) (replicate (n - bn_width r) 0), bn_width := n\<rparr>"]
      by (auto simp: bn_ok_def)
  next
    case False
    then show ?thesis using assms(2) by (simp add: bn_resize_words_def bn_ok_def)
  qed
  show "bn_ok (BN_set_negative r s)" using assms(2) by (simp add: BN_set_negative_def)
  show "bn_ok (snd (bn_expand alloc r bits))" using assms bn_wexpand_ok by (simp add: bn_expand_def)
qed

lemma add_ops_ok:
  assumes "word_alloc_ok alloc" "bn_ok r" "bn_ok a" "bn_ok b"
  shows "bn_ok (snd (BN_uadd alloc r a b))" "bn_ok (snd (BN_usub alloc r a b))" "bn_ok (snd (BN_add alloc r a b))" "bn_ok (snd (BN_sub alloc r a b))"
proof -
  have u: "bn_ok (snd (BN_uadd alloc r x y))" "bn_ok (snd (BN_usub alloc r x y))" "bn_ok (snd (sub_signed alloc r x y))"
    if "bn_ok x" "bn_ok y" for x y
    using BN_uadd_correct(1) [OF assms(1,2) that] BN_usub_correct(1) [OF assms(1,2) that] sub_signed_correct [OF assms(1,2) that]
    by (metis prod.collapse)+
  have w: "bn_ok (snd (with_sign sign res))" if "bn_ok (snd res)" for sign res
    using that by (cases res) (auto simp: with_sign_def split: bool.splits)
  show "bn_ok (snd (BN_uadd alloc r a b))" "bn_ok (snd (BN_usub alloc r a b))" using u assms(3,4) by blast+
  show "bn_ok (snd (BN_add alloc r a b))" using u [OF assms(3,4)] u [OF assms(4,3)]
    by (auto simp: BN_add_def split: prod.splits)
  show "bn_ok (snd (BN_sub alloc r a b))" using u [OF assms(3,4)] u [OF assms(4,3)] w by (simp add: BN_sub_def)
qed

lemma word_ops_ok:
  assumes "word_alloc_ok alloc" "bn_ok r"
  shows "\<exists>s. run_bn_op alloc (Op_add_word w) r = Some s \<and> bn_ok s" "\<exists>s. run_bn_op alloc (Op_sub_word w) r = Some s \<and> bn_ok s"
proof -
  let ?p = "r\<lparr>bn_neg := False\<rparr>"
  have p: "bn_ok ?p" "\<not> bn_neg ?p" using assms(2) by simp_all
  have sw: "bn_ok (snd (BN_set_word alloc r w))" by (rule set_ops_ok [OF assms])
  have neg: "BN_add_word alloc r w = (if w = 0 then Some (True, r) else if BN_is_zero r then Some (BN_set_word alloc r w)
      else map_option (\<lambda>(i, a). (i, if \<not> BN_is_zero a then a\<lparr>bn_neg := \<not> bn_neg a\<rparr> else a)) (BN_sub_word alloc ?p w))"
    "BN_sub_word alloc r w = (if w = 0 then Some (True, r)
      else if BN_is_zero r then (case BN_set_word alloc r w of (False, a) \<Rightarrow> Some (False, a) | (True, a) \<Rightarrow> Some (True, BN_set_negative a True))
      else map_option (\<lambda>(i, a). (i, a\<lparr>bn_neg := True\<rparr>)) (BN_add_word alloc ?p w))" if "bn_neg r"
    using that by (subst BN_add_word.simps BN_sub_word.simps, simp split: option.splits)+
  obtain i a where s: "BN_sub_word alloc ?p w = Some (i, a)" "bn_ok a" using BN_sub_word_nonneg [OF assms(1) p, of w] by blast
  obtain j b where t: "BN_add_word alloc ?p w = Some (j, b)" "bn_ok b" using BN_add_word_nonneg [OF assms(1) p, of w] by blast
  have z: "BN_set_negative a s = a\<lparr>bn_neg := (s \<and> \<not> BN_is_zero a)\<rparr>" for a s by (simp add: BN_set_negative_def)
  show "\<exists>s. run_bn_op alloc (Op_add_word w) r = Some s \<and> bn_ok s"
  proof (cases "bn_neg r")
    case False
    then have "r = ?p" by simp
    then show ?thesis using t by simp
  next
    case True
    then show ?thesis using s sw assms(2) by (cases "BN_set_word alloc r w") (auto simp: neg)
  qed
  show "\<exists>s. run_bn_op alloc (Op_sub_word w) r = Some s \<and> bn_ok s"
  proof (cases "bn_neg r")
    case False
    then have "r = ?p" by simp
    then show ?thesis using s by simp
  next
    case True
    then show ?thesis using t sw assms(2) by (cases "BN_set_word alloc r w") (auto simp: neg z split: bool.splits)
  qed
qed

lemma bn_neg_ok: "bn_ok r \<Longrightarrow> bn_ok (r\<lparr>bn_neg := s\<rparr>)"
  by simp

lemma lshift_loop_lengths:
  "length (lshift_words_loop f nw t k) = length t" "length (lshift_bits_loop f nw lb t k) = length t"
  by (induction k arbitrary: t) (simp_all add: Let_def)

lemma shift_ops_ok:
  assumes "word_alloc_ok alloc" "bn_ok r" "bn_ok a"
  shows "bn_ok (snd (BN_lshift alloc r a n))" "bn_ok (snd (BN_lshift1 alloc r a))" "bn_ok (snd (BN_rshift alloc r a n))"
    "bn_ok (snd (BN_rshift1 alloc r a))"
proof -
  let ?r = "r\<lparr>bn_neg := bn_neg a\<rparr>"
  have ro: "bn_ok ?r" using assms(2) by simp
  show "bn_ok (snd (BN_lshift alloc r a n))"
  proof (cases "n < 0")
    case False
    let ?nw = "nat n div BN_BITS2" and ?lb = "nat n mod BN_BITS2"
    have "bn_ok (snd (case bn_wexpand alloc ?r (bn_width a + ?nw + 1) of (False, r) \<Rightarrow> (False, r) | (True, r) \<Rightarrow> (True,
      bn_set_minimal_width (r\<lparr>bn_d := store_at (if ?lb = 0 then lshift_words_loop (bn_d a) ?nw ((bn_d r)[bn_width a + ?nw := 0]) (bn_width a)
        else lshift_bits_loop (bn_d a) ?nw ?lb ((bn_d r)[bn_width a + ?nw := 0]) (bn_width a)) 0 (replicate ?nw 0), bn_width := bn_width a + ?nw + 1\<rparr>))))"
      by (intro expand_then_ok assms ro bn_set_minimal_width_ok bn_ok_width bn_ok_words)
        (auto simp: lshift_loop_lengths bn_ok_def)
    with False show ?thesis unfolding BN_lshift_def Let_def by (simp only: if_False)
  qed (simp add: BN_lshift_def assms(2))
  obtain e r' where ex: "bn_wexpand alloc ?r (bn_width a + 1) = (e, r')" by (rule prod.exhaust)
  note rx = bn_wexpand_correct [OF assms(1) ro ex]
  obtain rp c where lp: "lshift1_loop (take (bn_width a) (bn_d a)) 0 = (rp, c)" by (rule prod.exhaust)
  have "length rp = bn_width a" using lshift1_loop_length [OF lp] assms(3) by (simp add: bn_ok_def)
  then show "bn_ok (snd (BN_lshift1 alloc r a))" using rx(1,6)
    by (cases e) (simp_all add: BN_lshift1_def ex [simplified] lp Let_def bn_ok_def)
  show rs: "bn_ok (snd (BN_rshift alloc r a n))" for n
    using BN_rshift_correct [OF assms(1-3), of n] by (metis prod.collapse)
  show "bn_ok (snd (BN_rshift1 alloc r a))" unfolding BN_rshift1_eq by (rule rs)
qed

lemma bit_ops_ok:
  assumes "word_alloc_ok alloc" "bn_ok r"
  shows "bn_ok (snd (BN_set_bit alloc r n))" "bn_ok (snd (BN_clear_bit r n))" "bn_ok (snd (BN_mask_bits r n))"
proof -
  let ?i = "nat n div BN_BITS2"
  obtain e r' where ex: "bn_wexpand alloc r (?i + 1) = (e, r')" by (rule prod.exhaust)
  note rx = bn_wexpand_correct [OF assms ex]
  show "bn_ok (snd (BN_set_bit alloc r n))" using rx(1,3,6) assms(2)
    by (cases e) (auto simp: BN_set_bit_def Let_def ex [simplified] bn_ok_def)
  show "bn_ok (snd (BN_clear_bit r n))" using assms(2)
    by (auto simp: BN_clear_bit_def Let_def intro!: bn_set_minimal_width_ok bn_ok_words)
  show "bn_ok (snd (BN_mask_bits r n))" using assms(2)
    by (auto simp: BN_mask_bits_def Let_def intro!: bn_set_minimal_width_ok bn_ok_words bn_ok_width dest: bn_ok_fields)
qed

lemma run_bn_op_ok:
  assumes "word_alloc_ok alloc" "bn_ok r" "bn_op_ok op"
  shows "\<exists>s. run_bn_op alloc op r = Some s \<and> bn_ok s"
proof (cases op)
  case (Op_bin2bn bs)
  obtain ok s where s: "bin2bn_into alloc bs (length bs) r = (ok, s)" by (rule prod.exhaust)
  show ?thesis using bin2bn_into_correct(1) [OF assms(1,2) order_refl s] Op_bin2bn by (simp add: BN_bin2bn_def s)
qed (use assms word_ops_ok [OF assms(1,2)] in
  \<open>simp_all add: set_ops_ok add_ops_ok shift_ops_ok bit_ops_ok bn_set_minimal_width_ok\<close>)

fun run_bn_ops :: "word_alloc \<Rightarrow> bn_op list \<Rightarrow> bignum \<Rightarrow> bignum option" where
  "run_bn_ops alloc [] r = Some r"
| "run_bn_ops alloc (op # ops) r = (case run_bn_op alloc op r of None \<Rightarrow> None | Some r \<Rightarrow> run_bn_ops alloc ops r)"

text \<open>
  C37: from a well-formed number, any run of the operations on well-formed operands, whether they
  succeed or fail and whatever the allocator does, ends in a well-formed number: the array has the
  length the structure says, the words in use lie in it, and it is never longer than an \<open>int\<close> counts.
\<close>

theorem bignum_well_formed:
  assumes "word_alloc_ok alloc" "bn_ok r" "list_all bn_op_ok ops"
  shows "\<exists>s. run_bn_ops alloc ops r = Some s \<and> length (bn_d s) = bn_dmax s \<and> bn_width s \<le> bn_dmax s \<and>
    bn_dmax s \<le> INT_MAX div (4 * BN_BITS2)"
proof -
  have "\<exists>s. run_bn_ops alloc ops r = Some s \<and> bn_ok s"
    using assms(2,3)
  proof (induction ops arbitrary: r)
    case (Cons op ops)
    obtain s where "run_bn_op alloc op r = Some s" "bn_ok s" using run_bn_op_ok [OF assms(1) Cons.prems(1)] Cons.prems(2) by auto
    with Cons show ?case by simp
  qed simp
  then show ?thesis by (auto simp: bn_ok_def)
qed

theorem bignum_well_formed_witness:
  "\<exists>s. run_bn_ops full_words [Op_set_word 7, Op_lshift BN_value_one 70, Op_sub_word 9] BN_init = Some s \<and> bn_width s \<le> bn_dmax s"
proof -
  have "bn_ok BN_init" "list_all bn_op_ok [Op_set_word 7, Op_lshift BN_value_one 70, Op_sub_word 9]"
    by (simp_all add: bn_ok_def BN_init_def BN_value_one_def INT_MAX_div)
  from bignum_well_formed [OF word_alloc_ok_full this] show ?thesis by blast
qed

end
