(* ===== verification/Pb_Stream.thy ===== *)
theory Pb_Stream
  imports Prelude
begin

text \<open>
  \<open>nanopb\<close>, the protocol buffers library of the Firebase clients: the streams and the wire format of
  \<open>pb_decode.c\<close> and \<open>pb_encode.c\<close>, built as the pod builds it (\<open>PB_FIELD_32BIT\<close>, 64-bit integers, error
  messages). A stream has a callback, which is a function here, on a state of any type; the stream over
  a buffer is one instance, whose state is the memory from the read pointer on, or the bytes stored
  up to the write pointer. A function that returns \<open>false\<close> is a reader that fails.
\<close>

section \<open>Input streams\<close>

text \<open>
  The callback returns the bytes it read, or \<open>None\<close>, and its new state. \<open>i_is_buffer\<close> is the
  comparison of the callback with \<open>buf_read\<close>.
\<close>

record 's pb_istream =
  i_callback :: "'s \<Rightarrow> nat \<Rightarrow> bytes option \<times> 's"
  i_is_buffer :: bool
  i_state :: 's
  bytes_left :: nat
  i_errmsg :: "string option"

definition buf_read :: "bytes \<Rightarrow> nat \<Rightarrow> bytes option \<times> bytes" where
  "buf_read state count = (Some (take count state), drop count state)"

definition pb_istream_from_buffer :: "bytes \<Rightarrow> nat \<Rightarrow> bytes pb_istream" where
  "pb_istream_from_buffer buf bufsize =
     \<lparr>i_callback = buf_read, i_is_buffer = True, i_state = buf, bytes_left = bufsize, i_errmsg = None\<rparr>"

definition i_error :: "string \<Rightarrow> ('s pb_istream, 'a) reader" where
  "i_error msg stream = (None, stream\<lparr>i_errmsg := Some (case i_errmsg stream of None \<Rightarrow> msg | Some m \<Rightarrow> m)\<rparr>)"

definition call_read :: "nat \<Rightarrow> ('s pb_istream, bytes) reader" where
  "call_read count stream =
     (case i_callback stream (i_state stream) count of
        (None, st) \<Rightarrow> i_error ''io error'' (stream\<lparr>i_state := st\<rparr>)
      | (Some bs, st) \<Rightarrow> (Some bs, stream\<lparr>i_state := st, bytes_left := bytes_left stream - count\<rparr>))"

text \<open>With a \<open>NULL\<close> buffer the bytes are skipped, in pieces unless the stream is a buffer.\<close>

function pb_read :: "bool \<Rightarrow> nat \<Rightarrow> ('s pb_istream, bytes) reader" where
  "pb_read null count stream =
     (if count = 0 then (Some [], stream)
      else if null \<and> \<not> i_is_buffer stream then
        if count > 16 then
          case pb_read False 16 stream of
            (None, stream) \<Rightarrow> (None, stream)
          | (Some _, stream) \<Rightarrow> pb_read True (count - 16) stream
        else pb_read False count stream
      else if bytes_left stream < count then i_error ''end-of-stream'' stream
      else call_read count stream)"
  by pat_completeness auto

termination
  by (relation "measures [\<lambda>(null, count, stream). count, \<lambda>(null, count, stream). if null then 1 else 0]") auto

declare pb_read.simps [simp del]

definition pb_readbyte :: "('s pb_istream, u8) reader" where
  "pb_readbyte stream =
     (if bytes_left stream = 0 then i_error ''end-of-stream'' stream
      else bindR (call_read 1) (\<lambda>bs. returnR (bs ! 0)) stream)"

lemma call_read_shorter:
  "call_read n s = (Some bs, s') \<Longrightarrow> bytes_left s' = bytes_left s - n"
  by (auto simp: call_read_def i_error_def split: option.splits prod.splits)

lemma pb_readbyte_shorter: "pb_readbyte s = (Some b, s') \<Longrightarrow> bytes_left s' < bytes_left s"
  by (auto simp: pb_readbyte_def i_error_def returnR_def elim!: bindR_eq_SomeE dest!: call_read_shorter split: if_splits)

section \<open>Numbers on the wire\<close>

text \<open>\<open>bitpos\<close> is an \<open>uint_fast8_t\<close>, of eight bits: it wraps around in a very long varint.\<close>

function varint32_loop :: "nat \<Rightarrow> u32 \<Rightarrow> ('s pb_istream, u32) reader" where
  "varint32_loop bitpos result stream =
     (case pb_readbyte stream of
        (None, stream) \<Rightarrow> (None, stream)
      | (Some byte, stream) \<Rightarrow>
          if bitpos \<ge> 32 \<and> byte AND 0x7F \<noteq> 0 \<and>
             (drop_bit 31 result = 0 \<or> byte \<noteq> (if bitpos < 63 then 0xFF else 0x01))
          then i_error ''varint overflow'' stream
          else
            let result = (if bitpos \<ge> 32 then result else result OR push_bit bitpos (ucast (byte AND 0x7F)));
                bitpos = (bitpos + 7) mod 256
            in if byte AND 0x80 \<noteq> 0 then varint32_loop bitpos result stream
               else if bitpos = 35 \<and> byte AND 0x70 \<noteq> 0 then i_error ''varint overflow'' stream
               else (Some result, stream))"
  by pat_completeness auto

termination
  by (relation "measure (\<lambda>(bitpos, result, stream). bytes_left stream)") (auto dest!: pb_readbyte_shorter [OF sym])

declare varint32_loop.simps [simp del]

text \<open>The second result is what is stored to \<open>*eof\<close>, when the pointer is not \<open>NULL\<close>.\<close>

definition pb_decode_varint32_eof :: "'s pb_istream \<Rightarrow> u32 option \<times> bool \<times> 's pb_istream" where
  "pb_decode_varint32_eof stream =
     (case pb_readbyte stream of
        (None, stream) \<Rightarrow> (None, bytes_left stream = 0, stream)
      | (Some byte, stream) \<Rightarrow>
          if byte AND 0x80 = 0 then (Some (ucast byte), False, stream)
          else case varint32_loop 7 (ucast (byte AND 0x7F)) stream of (r, stream) \<Rightarrow> (r, False, stream))"

definition pb_decode_varint32 :: "('s pb_istream, u32) reader" where
  "pb_decode_varint32 stream = (case pb_decode_varint32_eof stream of (r, _, stream) \<Rightarrow> (r, stream))"

function varint_loop :: "nat \<Rightarrow> u64 \<Rightarrow> ('s pb_istream, u64) reader" where
  "varint_loop bitpos result stream =
     (if bitpos \<ge> 64 then i_error ''varint overflow'' stream
      else case pb_readbyte stream of
             (None, stream) \<Rightarrow> (None, stream)
           | (Some byte, stream) \<Rightarrow>
               let result = result OR push_bit bitpos (ucast (byte AND 0x7F)); bitpos = (bitpos + 7) mod 256
               in if byte AND 0x80 \<noteq> 0 then varint_loop bitpos result stream else (Some result, stream))"
  by pat_completeness auto

termination
  by (relation "measure (\<lambda>(bitpos, result, stream). bytes_left stream)") (auto dest!: pb_readbyte_shorter [OF sym])

declare varint_loop.simps [simp del]

definition pb_decode_varint :: "('s pb_istream, u64) reader" where
  "pb_decode_varint = varint_loop 0 0"

definition pb_decode_svarint :: "('s pb_istream, u64) reader" where
  "pb_decode_svarint =
     bindR pb_decode_varint (\<lambda>value.
       returnR (if value AND 1 \<noteq> 0 then NOT (drop_bit 1 value) else drop_bit 1 value))"

definition pb_decode_fixed32 :: "('s pb_istream, u32) reader" where
  "pb_decode_fixed32 =
     bindR (pb_read False 4) (\<lambda>bs.
       returnR (push_bit 0 (ucast (bs ! 0)) OR push_bit 8 (ucast (bs ! 1)) OR
                push_bit 16 (ucast (bs ! 2)) OR push_bit 24 (ucast (bs ! 3))))"

definition pb_decode_fixed64 :: "('s pb_istream, u64) reader" where
  "pb_decode_fixed64 =
     bindR (pb_read False 8) (\<lambda>bs.
       returnR (push_bit 0 (ucast (bs ! 0)) OR push_bit 8 (ucast (bs ! 1)) OR
                push_bit 16 (ucast (bs ! 2)) OR push_bit 24 (ucast (bs ! 3)) OR
                push_bit 32 (ucast (bs ! 4)) OR push_bit 40 (ucast (bs ! 5)) OR
                push_bit 48 (ucast (bs ! 6)) OR push_bit 56 (ucast (bs ! 7))))"

section \<open>Skipping and substreams\<close>

type_synonym pb_wire_type = u32

definition PB_WT_VARINT :: pb_wire_type where
  "PB_WT_VARINT = 0"

definition PB_WT_64BIT :: pb_wire_type where
  "PB_WT_64BIT = 1"

definition PB_WT_STRING :: pb_wire_type where
  "PB_WT_STRING = 2"

definition PB_WT_32BIT :: pb_wire_type where
  "PB_WT_32BIT = 5"

lemma pb_read_one: "pb_read False 1 s = (if bytes_left s = 0 then i_error ''end-of-stream'' s else call_read 1 s)"
  by (subst pb_read.simps) simp

lemma pb_read_one_shorter: "pb_read False 1 s = (Some bs, s') \<Longrightarrow> bytes_left s' < bytes_left s"
  unfolding pb_read_one by (auto simp: i_error_def dest!: call_read_shorter split: if_splits)

function pb_skip_varint :: "('s pb_istream, unit) reader" where
  "pb_skip_varint stream =
     (case pb_read False 1 stream of
        (None, stream) \<Rightarrow> (None, stream)
      | (Some bs, stream) \<Rightarrow> if bs ! 0 AND 0x80 \<noteq> 0 then pb_skip_varint stream else (Some (), stream))"
  by pat_completeness auto

termination
  by (relation "measure bytes_left") (auto dest!: pb_read_one_shorter [OF sym, simplified])

declare pb_skip_varint.simps [simp del]

definition pb_skip_string :: "('s pb_istream, unit) reader" where
  "pb_skip_string = bindR pb_decode_varint32 (\<lambda>length. bindR (pb_read True (unat length)) (\<lambda>_. returnR ()))"

text \<open>The tag and the wire type, what is stored to \<open>*eof\<close>, and the stream.\<close>

definition pb_decode_tag :: "'s pb_istream \<Rightarrow> (u32 \<times> pb_wire_type) option \<times> bool \<times> 's pb_istream" where
  "pb_decode_tag stream =
     (case pb_decode_varint32_eof stream of
        (None, eof, stream) \<Rightarrow> (None, eof, stream)
      | (Some temp, eof, stream) \<Rightarrow>
          if temp = 0 then (None, True, stream)
          else (Some (drop_bit 3 temp, temp AND 7), eof, stream))"

definition pb_skip_field :: "pb_wire_type \<Rightarrow> ('s pb_istream, unit) reader" where
  "pb_skip_field wire_type =
     (if wire_type = PB_WT_VARINT then pb_skip_varint
      else if wire_type = PB_WT_64BIT then bindR (pb_read True 8) (\<lambda>_. returnR ())
      else if wire_type = PB_WT_STRING then pb_skip_string
      else if wire_type = PB_WT_32BIT then bindR (pb_read True 4) (\<lambda>_. returnR ())
      else i_error ''invalid wire_type'')"

function raw_varint_loop :: "nat \<Rightarrow> nat \<Rightarrow> bytes \<Rightarrow> ('s pb_istream, bytes) reader" where
  "raw_varint_loop max_size sz buf stream =
     (if sz + 1 > max_size then (None, stream)
      else case pb_read False 1 stream of
             (None, stream) \<Rightarrow> (None, stream)
           | (Some bs, stream) \<Rightarrow>
               if bs ! 0 AND 0x80 \<noteq> 0 then raw_varint_loop max_size (sz + 1) (buf @ [bs ! 0]) stream
               else (Some (buf @ [bs ! 0]), stream))"
  by pat_completeness auto

termination
  by (relation "measure (\<lambda>(max_size, size, buf, stream). bytes_left stream)") (auto dest!: pb_read_one_shorter [OF sym, simplified])

declare raw_varint_loop.simps [simp del]

text \<open>The bytes stored to \<open>buf\<close>; their number is what is stored to \<open>*size\<close>.\<close>

definition read_raw_value :: "pb_wire_type \<Rightarrow> nat \<Rightarrow> ('s pb_istream, bytes) reader" where
  "read_raw_value wire_type max_size =
     (if wire_type = PB_WT_VARINT then raw_varint_loop max_size 0 []
      else if wire_type = PB_WT_64BIT then pb_read False 8
      else if wire_type = PB_WT_32BIT then pb_read False 4
      else i_error ''invalid wire_type'')"

text \<open>The substream shares the state of the stream until it is closed.\<close>

definition pb_make_string_substream :: "('s pb_istream, 's pb_istream) reader" where
  "pb_make_string_substream =
     bindR pb_decode_varint32 (\<lambda>size stream.
       if bytes_left stream < unat size then i_error ''parent stream too short'' stream
       else (Some (stream\<lparr>bytes_left := unat size\<rparr>), stream\<lparr>bytes_left := bytes_left stream - unat size\<rparr>))"

definition pb_close_string_substream :: "'s pb_istream \<Rightarrow> ('s pb_istream, unit) reader" where
  "pb_close_string_substream substream stream =
     (case (if bytes_left substream \<noteq> 0 then pb_read True (bytes_left substream) substream else (Some [], substream)) of
        (None, substream) \<Rightarrow> (None, stream)
      | (Some _, substream) \<Rightarrow> (Some (), stream\<lparr>i_state := i_state substream, i_errmsg := i_errmsg substream\<rparr>))"

section \<open>Integers of a field\<close>

text \<open>
  The integer stored to a member of \<open>data_size\<close> bytes, extended to 64 bits. A value that does not fit
  is an error.
\<close>

definition sign_extend_bytes :: "nat \<Rightarrow> u64 \<Rightarrow> u64 option" where
  "sign_extend_bytes data_size v =
     (if data_size = 8 then Some v
      else if data_size = 4 then Some (scast (ucast v :: u32))
      else if data_size = 2 then Some (scast (ucast v :: u16))
      else if data_size = 1 then Some (scast (ucast v :: u8))
      else None)"

definition zero_extend_bytes :: "nat \<Rightarrow> u64 \<Rightarrow> u64 option" where
  "zero_extend_bytes data_size v =
     (if data_size = 8 then Some v
      else if data_size = 4 then Some (ucast (ucast v :: u32))
      else if data_size = 2 then Some (ucast (ucast v :: u16))
      else if data_size = 1 then Some (ucast (ucast v :: u8))
      else None)"

definition store_clamped :: "u64 option \<Rightarrow> u64 \<Rightarrow> ('s pb_istream, u64) reader" where
  "store_clamped clamped v =
     (case clamped of
        None \<Rightarrow> i_error ''invalid data_size''
      | Some c \<Rightarrow> if c \<noteq> v then i_error ''integer too large'' else returnR c)"

definition pb_dec_bool :: "('s pb_istream, bool) reader" where
  "pb_dec_bool = bindR pb_decode_varint32 (\<lambda>value. returnR (value \<noteq> 0))"

definition pb_dec_varint :: "nat \<Rightarrow> ('s pb_istream, u64) reader" where
  "pb_dec_varint data_size =
     bindR pb_decode_varint (\<lambda>value.
       let svalue = (if data_size = 8 then value else scast (ucast value :: u32))
       in store_clamped (sign_extend_bytes data_size svalue) svalue)"

definition pb_dec_uvarint :: "nat \<Rightarrow> ('s pb_istream, u64) reader" where
  "pb_dec_uvarint data_size = bindR pb_decode_varint (\<lambda>value. store_clamped (zero_extend_bytes data_size value) value)"

definition pb_dec_svarint :: "nat \<Rightarrow> ('s pb_istream, u64) reader" where
  "pb_dec_svarint data_size = bindR pb_decode_svarint (\<lambda>value. store_clamped (sign_extend_bytes data_size value) value)"

section \<open>Output streams\<close>

text \<open>\<open>o_callback = None\<close> is a stream that only counts.\<close>

record 's pb_ostream =
  o_callback :: "('s \<Rightarrow> bytes \<Rightarrow> bool \<times> 's) option"
  o_state :: 's
  max_size :: nat
  bytes_written :: nat
  o_errmsg :: "string option"

definition buf_write :: "bytes \<Rightarrow> bytes \<Rightarrow> bool \<times> bytes" where
  "buf_write state buf = (True, state @ buf)"

definition pb_ostream_from_buffer :: "nat \<Rightarrow> bytes pb_ostream" where
  "pb_ostream_from_buffer bufsize =
     \<lparr>o_callback = Some buf_write, o_state = [], max_size = bufsize, bytes_written = 0, o_errmsg = None\<rparr>"

definition PB_OSTREAM_SIZING :: "'s \<Rightarrow> 's pb_ostream" where
  "PB_OSTREAM_SIZING state = \<lparr>o_callback = None, o_state = state, max_size = 0, bytes_written = 0, o_errmsg = None\<rparr>"

definition o_error :: "string \<Rightarrow> ('s pb_ostream, 'a) reader" where
  "o_error msg stream = (None, stream\<lparr>o_errmsg := Some (case o_errmsg stream of None \<Rightarrow> msg | Some m \<Rightarrow> m)\<rparr>)"

definition pb_write :: "bytes \<Rightarrow> nat \<Rightarrow> ('s pb_ostream, unit) reader" where
  "pb_write buf count stream =
     (case (if count > 0 then o_callback stream else None) of
        None \<Rightarrow> (Some (), stream\<lparr>bytes_written := (bytes_written stream + count) mod SIZE_LIMIT\<rparr>)
      | Some callback \<Rightarrow>
          if (bytes_written stream + count) mod SIZE_LIMIT > max_size stream then o_error ''stream full'' stream
          else case callback (o_state stream) (take count buf) of
                 (False, st) \<Rightarrow> o_error ''io error'' (stream\<lparr>o_state := st\<rparr>)
               | (True, st) \<Rightarrow> (Some (), stream\<lparr>o_state := st, bytes_written := (bytes_written stream + count) mod SIZE_LIMIT\<rparr>))"

lemma drop_7_less: "v \<noteq> 0 \<Longrightarrow> unat (drop_bit 7 (v :: u64)) < unat v"
proof -
  assume "v \<noteq> 0"
  then have "0 < unat v" by (simp add: unat_gt_0)
  then show ?thesis unfolding unat_drop_bit_eq by (simp add: drop_bit_eq_div)
qed

function encode_varint_loop :: "u64 \<Rightarrow> bytes" where
  "encode_varint_loop value =
     (if value \<noteq> 0 then ucast ((value AND 0x7F) OR 0x80) # encode_varint_loop (drop_bit 7 value) else [])"
  by pat_completeness auto

termination
  by (relation "measure unat") (auto dest: drop_7_less)

declare encode_varint_loop.simps [simp del]

definition pb_encode_varint :: "u64 \<Rightarrow> ('s pb_ostream, unit) reader" where
  "pb_encode_varint value =
     (if value \<le> 0x7F then pb_write [ucast value] 1
      else let buffer = encode_varint_loop value; i = length buffer
           in pb_write (buffer[i - 1 := buffer ! (i - 1) AND 0x7F]) i)"

definition pb_encode_svarint :: "u64 \<Rightarrow> ('s pb_ostream, unit) reader" where
  "pb_encode_svarint value =
     pb_encode_varint (if sint value < 0 then NOT (push_bit 1 value) else push_bit 1 value)"

definition pb_encode_fixed32 :: "u32 \<Rightarrow> ('s pb_ostream, unit) reader" where
  "pb_encode_fixed32 val =
     pb_write [ucast (val AND 0xFF), ucast (drop_bit 8 val AND 0xFF), ucast (drop_bit 16 val AND 0xFF),
               ucast (drop_bit 24 val AND 0xFF)] 4"

definition pb_encode_fixed64 :: "u64 \<Rightarrow> ('s pb_ostream, unit) reader" where
  "pb_encode_fixed64 val =
     pb_write [ucast (val AND 0xFF), ucast (drop_bit 8 val AND 0xFF), ucast (drop_bit 16 val AND 0xFF),
               ucast (drop_bit 24 val AND 0xFF), ucast (drop_bit 32 val AND 0xFF), ucast (drop_bit 40 val AND 0xFF),
               ucast (drop_bit 48 val AND 0xFF), ucast (drop_bit 56 val AND 0xFF)] 8"

definition pb_encode_tag :: "pb_wire_type \<Rightarrow> u32 \<Rightarrow> ('s pb_ostream, unit) reader" where
  "pb_encode_tag wiretype field_number =
     pb_encode_varint (push_bit 3 (ucast field_number) OR ucast wiretype)"

definition pb_encode_string :: "bytes \<Rightarrow> nat \<Rightarrow> ('s pb_ostream, unit) reader" where
  "pb_encode_string buffer sz =
     bindR (pb_encode_varint (word_of_nat sz)) (\<lambda>_. pb_write buffer sz)"

definition pb_enc_bool :: "u8 \<Rightarrow> ('s pb_ostream, unit) reader" where
  "pb_enc_bool src = pb_encode_varint (if src \<noteq> 0 then 1 else 0)"

definition with_data_size :: "u64 option \<Rightarrow> (u64 \<Rightarrow> ('s pb_ostream, unit) reader) \<Rightarrow> ('s pb_ostream, unit) reader" where
  "with_data_size value f = (case value of None \<Rightarrow> o_error ''invalid data_size'' | Some v \<Rightarrow> f v)"

definition pb_enc_varint :: "nat \<Rightarrow> u64 \<Rightarrow> ('s pb_ostream, unit) reader" where
  "pb_enc_varint data_size src = with_data_size (sign_extend_bytes data_size src) pb_encode_varint"

definition pb_enc_uvarint :: "nat \<Rightarrow> u64 \<Rightarrow> ('s pb_ostream, unit) reader" where
  "pb_enc_uvarint data_size src = with_data_size (zero_extend_bytes data_size src) pb_encode_varint"

definition pb_enc_svarint :: "nat \<Rightarrow> u64 \<Rightarrow> ('s pb_ostream, unit) reader" where
  "pb_enc_svarint data_size src = with_data_size (sign_extend_bytes data_size src) pb_encode_svarint"

end
