(* ===== verification/Pb_Wire.thy ===== *)
theory Pb_Wire
  imports Pb_Stream
begin

text \<open>
  What the streams and the number codecs of \<open>Pb_Stream\<close> do on a buffer: the bytes in view, what a read
  takes from them, the varints as groups of seven bits, and for every codec the bytes it writes
  and that it reads back.
\<close>

section \<open>A stream over a buffer\<close>

definition buffered :: "bytes pb_istream \<Rightarrow> bool" where
  "buffered s \<longleftrightarrow> i_callback s = buf_read \<and> i_is_buffer s \<and> bytes_left s \<le> length (i_state s)"

definition view :: "bytes pb_istream \<Rightarrow> bytes" where
  "view s = take (bytes_left s) (i_state s)"

definition advance :: "nat \<Rightarrow> bytes pb_istream \<Rightarrow> bytes pb_istream" where
  "advance n s = s\<lparr>i_state := drop n (i_state s), bytes_left := bytes_left s - n\<rparr>"

lemma length_view [simp]: "buffered s \<Longrightarrow> length (view s) = bytes_left s"
  by (simp add: buffered_def view_def)

lemma buffered_advance [simp]: "buffered s \<Longrightarrow> buffered (advance n s)"
  by (auto simp: buffered_def advance_def)

lemma view_advance [simp]: "view (advance n s) = drop n (view s)"
  by (simp add: view_def advance_def drop_take)

lemma advance_advance [simp]: "advance m (advance n s) = advance (n + m) s"
  by (simp add: advance_def add.commute)

lemma advance_0 [simp]: "advance 0 s = s"
  by (simp add: advance_def)

lemma buffered_from_buffer [simp]:
  "n \<le> length buf \<Longrightarrow> buffered (pb_istream_from_buffer buf n)" "view (pb_istream_from_buffer buf n) = take n buf"
  by (simp_all add: buffered_def view_def pb_istream_from_buffer_def)

lemma call_read_buffered:
  assumes "buffered s" "n \<le> bytes_left s"
  shows "call_read n s = (Some (take n (view s)), advance n s)"
  using assms by (simp add: call_read_def buffered_def buf_read_def view_def advance_def min_absorb1)

text \<open>A read takes as many bytes as it is asked for, or fails when there are not so many.\<close>

lemma pb_read_buffered:
  assumes "buffered s"
  shows "n \<le> length (view s) \<Longrightarrow> pb_read null n s = (Some (take n (view s)), advance n s)"
    "length (view s) < n \<Longrightarrow> fst (pb_read null n s) = None"
proof -
  have b: "i_is_buffer s" using assms by (simp add: buffered_def)
  show "n \<le> length (view s) \<Longrightarrow> pb_read null n s = (Some (take n (view s)), advance n s)"
    using assms b by (subst pb_read.simps) (simp add: call_read_buffered)
  show "length (view s) < n \<Longrightarrow> fst (pb_read null n s) = None"
    using assms b by (subst pb_read.simps) (simp add: i_error_def)
qed

lemma pb_readbyte_buffered:
  assumes "buffered s"
  shows "view s = b # bs \<Longrightarrow> pb_readbyte s = (Some b, advance 1 s)" "view s = [] \<Longrightarrow> pb_readbyte s = i_error ''end-of-stream'' s"
proof -
  have l: "bytes_left s = length (view s)" using assms by simp
  show "view s = b # bs \<Longrightarrow> pb_readbyte s = (Some b, advance 1 s)"
    using l call_read_buffered [OF assms, of 1] by (simp add: pb_readbyte_def bindR_def returnR_def)
  show "view s = [] \<Longrightarrow> pb_readbyte s = i_error ''end-of-stream'' s"
    using l by (simp add: pb_readbyte_def)
qed

section \<open>Varints\<close>

text \<open>Groups of seven bits, the lowest first; every byte but the last has its high bit set.\<close>

primrec leb_val :: "bytes \<Rightarrow> nat" where
  "leb_val [] = 0"
| "leb_val (b # bs) = unat b mod 128 + 128 * leb_val bs"

fun is_varint :: "bytes \<Rightarrow> bool" where
  "is_varint [] = False"
| "is_varint (b # bs) = (if unat b < 128 then bs = [] else is_varint bs)"

fun uleb :: "nat \<Rightarrow> bytes" where
  "uleb n = (if n < 128 then [word_of_nat n] else word_of_nat (n mod 128 + 128) # uleb (n div 128))"

declare uleb.simps [simp del]

lemma word_of_byte_or:
  assumes "unat (result :: u64) < 2 ^ n"
  shows "result OR push_bit n (ucast (byte AND 0x7F :: u8)) = result + word_of_nat ((unat byte mod 128) * 2 ^ n)"
proof -
  have "push_bit n (ucast (byte AND 0x7F)) OR result = push_bit n (ucast (byte AND 0x7F)) + result"
    by (rule push_bit_or_small [OF assms])
  moreover have "(ucast (byte AND 0x7F) :: u64) = word_of_nat (unat byte mod 128)"
    by (rule unat_eq_word_of_nat) (simp only: unat_ucast_byte and_0x7f_mod)
  ultimately show ?thesis by (simp add: push_bit_eq_mult or.commute add.commute)
qed

lemma varint_step_bound:
  assumes "unat (result :: u64) < 2 ^ (7 * k)" "k < 9"
  shows "unat (result + word_of_nat ((unat (b :: u8) mod 128) * 2 ^ (7 * k))) < 2 ^ (7 * Suc k)"
proof -
  let ?x = "(unat b mod 128) * 2 ^ (7 * k)"
  have "unat (result + word_of_nat ?x) \<le> unat result + unat (word_of_nat ?x :: u64)"
    by (simp add: unat_word_ariths)
  also have "unat (word_of_nat ?x :: u64) \<le> ?x" by (simp only: unat_of_nat mod_less_eq_dividend)
  also have "unat result + ?x < 2 ^ (7 * k) + 127 * 2 ^ (7 * k)"
  proof -
    have "unat b mod 128 \<le> 127" by (simp flip: less_Suc_eq_le)
    then have "?x \<le> 127 * 2 ^ (7 * k)" by (rule mult_right_mono) simp
    with assms(1) show ?thesis by linarith
  qed
  also have "\<dots> = 2 ^ (7 * Suc k)" by (simp add: power_add)
  finally show ?thesis by simp
qed

lemma varint_loop_bytes:
  assumes "is_varint bs" "buffered s" "view s = bs @ rest" "k + length bs \<le> 10" "unat result < 2 ^ (7 * k)"
  shows "varint_loop (7 * k) result s = (Some (result + word_of_nat (leb_val bs * 2 ^ (7 * k))), advance (length bs) s)"
  using assms
proof (induction bs arbitrary: k result s)
  case (Cons b bs)
  let ?r = "result + word_of_nat ((unat b mod 128) * 2 ^ (7 * k)) :: u64"
  have k: "\<not> 64 \<le> 7 * k" "(7 * k + 7) mod 256 = 7 * Suc k" using Cons.prems(4) by simp_all
  have rd: "pb_readbyte s = (Some b, advance 1 s)" using pb_readbyte_buffered(1) [OF Cons.prems(2)] Cons.prems(3) by simp
  have step: "varint_loop (7 * k) result s =
      (if 128 \<le> unat b then varint_loop (7 * Suc k) ?r (advance 1 s) else (Some ?r, advance 1 s))"
    using k word_of_byte_or [OF Cons.prems(5), of b] by (subst varint_loop.simps) (auto simp: rd Let_def and_0x80_eq_0 add.commute)
  show ?case
  proof (cases "unat b < 128")
    case True
    then show ?thesis using Cons.prems(1) step by simp
  next
    case False
    then have v: "is_varint bs" using Cons.prems(1) by simp
    then have "k < 9" using Cons.prems(4) by (cases bs) auto
    then have "unat ?r < 2 ^ (7 * Suc k)" by (rule varint_step_bound [OF Cons.prems(5)])
    moreover have "Suc k + length bs \<le> 10" using Cons.prems(4) by simp
    ultimately have "varint_loop (7 * Suc k) ?r (advance 1 s) =
        (Some (?r + word_of_nat (leb_val bs * 2 ^ (7 * Suc k))), advance (length bs) (advance 1 s))"
      using Cons.prems(2,3) v by (intro Cons.IH) simp_all
    moreover have "?r + word_of_nat (leb_val bs * 2 ^ (7 * Suc k)) = result + word_of_nat (leb_val (b # bs) * 2 ^ (7 * k))"
      by (simp add: power_add algebra_simps)
    ultimately show ?thesis using False step by simp
  qed
qed simp

lemma varint_loop_sound:
  assumes "varint_loop (7 * k) result s = (Some v, s')" "buffered s" "k \<le> 10"
  shows "\<exists>bs rest. view s = bs @ rest \<and> is_varint bs \<and> k + length bs \<le> 10"
  using assms
proof (induction "view s" arbitrary: k result s)
  case Nil
  then show ?case using pb_readbyte_buffered(2) [OF Nil(3)] by (subst (asm) varint_loop.simps) (simp add: i_error_def split: if_splits)
next
  case (Cons b vs)
  have k: "k < 10" "(7 * k + 7) mod 256 = 7 * Suc k" using Cons.prems(1,3) by (subst (asm) varint_loop.simps, auto simp: i_error_def split: if_splits)+
  have rd: "pb_readbyte s = (Some b, advance 1 s)" using pb_readbyte_buffered(1) [OF Cons.prems(2) Cons.hyps(2) [symmetric]] .
  show ?case
  proof (cases "unat b < 128")
    case True
    then show ?thesis using Cons.hyps(2) k by (intro exI [of _ "[b]"] exI [of _ vs]) simp
  next
    case False
    then obtain r where "varint_loop (7 * Suc k) r (advance 1 s) = (Some v, s')"
      using Cons.prems(1) k by (subst (asm) varint_loop.simps) (auto simp: rd Let_def and_0x80_eq_0 split: if_splits)
    moreover have vs: "vs = view (advance 1 s)" using arg_cong [OF Cons.hyps(2), of "drop 1"] by simp
    ultimately obtain bs rest where bs: "view (advance 1 s) = bs @ rest" "is_varint bs" "Suc k + length bs \<le> 10"
      using Cons.hyps(1) [of "advance 1 s" "Suc k" r] Cons.prems(2) k by auto
    have "view s = (b # bs) @ rest" using Cons.hyps(2) vs bs(1) by simp
    moreover have "is_varint (b # bs)" "k + length (b # bs) \<le> 10" using False bs(2,3) by simp_all
    ultimately show ?thesis by blast
  qed
qed

lemma varint_unique:
  assumes "is_varint as" "is_varint bs" "as @ xs = bs @ ys"
  shows "as = bs \<and> xs = ys"
  using assms
proof (induction as arbitrary: bs)
  case (Cons a as)
  then show ?case by (cases bs) (auto split: if_splits)
qed simp

lemma pb_decode_varint_bytes:
  assumes "is_varint bs" "buffered s" "view s = bs @ rest" "length bs \<le> 10"
  shows "pb_decode_varint s = (Some (word_of_nat (leb_val bs)), advance (length bs) s)"
  using varint_loop_bytes [of bs s rest 0 0] assms by (simp add: pb_decode_varint_def)

theorem pb_decode_varint_exact:
  assumes "buffered s"
  shows "pb_decode_varint s = (Some v, s') \<longleftrightarrow>
    (\<exists>bs rest. view s = bs @ rest \<and> is_varint bs \<and> length bs \<le> 10 \<and> v = word_of_nat (leb_val bs) \<and> s' = advance (length bs) s)"
proof
  assume d: "pb_decode_varint s = (Some v, s')"
  then obtain bs rest where "view s = bs @ rest" "is_varint bs" "length bs \<le> 10"
    using varint_loop_sound [of 0 0 s v s'] assms by (auto simp: pb_decode_varint_def)
  with d varint_loop_bytes [of bs s rest 0 0] assms
  show "\<exists>bs rest. view s = bs @ rest \<and> is_varint bs \<and> length bs \<le> 10 \<and> v = word_of_nat (leb_val bs) \<and> s' = advance (length bs) s"
    by (auto simp: pb_decode_varint_def)
next
  assume "\<exists>bs rest. view s = bs @ rest \<and> is_varint bs \<and> length bs \<le> 10 \<and> v = word_of_nat (leb_val bs) \<and> s' = advance (length bs) s"
  then show "pb_decode_varint s = (Some v, s')"
    using varint_loop_bytes [of _ s _ 0 0] assms by (auto simp: pb_decode_varint_def)
qed

section \<open>Writing to a buffer\<close>

text \<open>
  \<open>emits w bs\<close>: on a stream over a buffer \<open>w\<close> stores exactly \<open>bs\<close> and counts it, or fails when there is no room
  for all of it; on a stream that only counts it succeeds and counts the same.
\<close>

definition writable :: "bytes pb_ostream \<Rightarrow> bool" where
  "writable s \<longleftrightarrow> o_callback s = Some buf_write \<and> bytes_written s \<le> max_size s"

definition emits :: "(bytes pb_ostream, unit) reader \<Rightarrow> bytes \<Rightarrow> bool" where
  "emits w bs \<longleftrightarrow> (\<forall>s. bytes_written s + length bs < SIZE_LIMIT \<longrightarrow>
     (writable s \<longrightarrow> (if bytes_written s + length bs \<le> max_size s
        then w s = (Some (), s\<lparr>o_state := o_state s @ bs, bytes_written := bytes_written s + length bs\<rparr>)
        else fst (w s) = None)) \<and>
     (o_callback s = None \<longrightarrow> w s = (Some (), s\<lparr>bytes_written := bytes_written s + length bs\<rparr>)))"

lemma emitsD:
  assumes "emits w bs" "bytes_written s + length bs < SIZE_LIMIT"
  shows "writable s \<Longrightarrow> bytes_written s + length bs \<le> max_size s \<Longrightarrow>
      w s = (Some (), s\<lparr>o_state := o_state s @ bs, bytes_written := bytes_written s + length bs\<rparr>)"
    "writable s \<Longrightarrow> max_size s < bytes_written s + length bs \<Longrightarrow> fst (w s) = None"
    "o_callback s = None \<Longrightarrow> w s = (Some (), s\<lparr>bytes_written := bytes_written s + length bs\<rparr>)"
  using assms by (auto simp: emits_def)

lemma emits_pb_write: "n \<le> length buf \<Longrightarrow> emits (pb_write buf n) (take n buf)"
  by (auto simp: emits_def pb_write_def writable_def buf_write_def o_error_def min_absorb2 split: option.splits)

lemma emits_returnR: "emits (returnR ()) []"
  by (auto simp: emits_def returnR_def writable_def)

lemma emits_bindR:
  assumes "emits w bs" "emits w' bs'"
  shows "emits (bindR w (\<lambda>_. w')) (bs @ bs')"
  unfolding emits_def
proof (intro allI impI conjI)
  fix s :: "bytes pb_ostream"
  assume lim: "bytes_written s + length (bs @ bs') < SIZE_LIMIT"
  then have l: "bytes_written s + length bs < SIZE_LIMIT" by simp
  let ?t = "s\<lparr>o_state := o_state s @ bs, bytes_written := bytes_written s + length bs\<rparr>"
  show "bindR w (\<lambda>_. w') s = (Some (), s\<lparr>bytes_written := bytes_written s + length (bs @ bs')\<rparr>)" if "o_callback s = None"
    using emitsD(3) [OF assms(1) l that] emitsD(3) [OF assms(2), of "s\<lparr>bytes_written := bytes_written s + length bs\<rparr>"] lim that
    by (simp add: add.assoc)
  assume w: "writable s"
  show "if bytes_written s + length (bs @ bs') \<le> max_size s
      then bindR w (\<lambda>_. w') s = (Some (), s\<lparr>o_state := o_state s @ bs @ bs', bytes_written := bytes_written s + length (bs @ bs')\<rparr>)
      else fst (bindR w (\<lambda>_. w') s) = None"
  proof (cases "bytes_written s + length bs \<le> max_size s")
    case True
    have t: "writable ?t" "bytes_written ?t + length bs' < SIZE_LIMIT" using w True lim by (simp_all add: writable_def)
    from emitsD(1) [OF assms(1) l w True] have b: "bindR w (\<lambda>_. w') s = w' ?t" by simp
    show ?thesis
    proof (cases "bytes_written s + length (bs @ bs') \<le> max_size s")
      case fits: True
      then show ?thesis using emitsD(1) [OF assms(2) t(2) t(1)] b by (simp add: add.assoc)
    next
      case False
      then show ?thesis using emitsD(2) [OF assms(2) t(2) t(1)] b by (simp add: add.assoc)
    qed
  next
    case False
    then have "fst (w s) = None" using emitsD(2) [OF assms(1) l w] by simp
    with False show ?thesis by (cases "w s") simp
  qed
qed

lemma uleb_not_Nil [simp]: "uleb n \<noteq> []"
  by (subst uleb.simps) simp

lemma unat_continued: "unat (word_of_nat (n mod 128 + 128) :: u8) = n mod 128 + 128"
proof -
  have "n mod 128 < 128" by simp
  then have "n mod 128 + 128 < 2 ^ LENGTH(8)" by simp
  then show ?thesis by (simp only: unat_of_nat mod_less)
qed

lemma is_varint_uleb: "is_varint (uleb n)"
proof (induction n rule: uleb.induct)
  case (1 n)
  have "unat (word_of_nat n :: u8) = n" if "n < 128" using that by (simp add: unat_of_nat)
  then show ?case using 1 by (subst uleb.simps) (auto simp: unat_continued simp del: of_nat_add)
qed

lemma leb_val_uleb: "leb_val (uleb n) = n"
proof (induction n rule: uleb.induct)
  case (1 n)
  show ?case
  proof (cases "n < 128")
    case True
    then show ?thesis by (subst uleb.simps) (simp add: unat_of_nat)
  next
    case False
    then show ?thesis using 1 [OF False] by (subst uleb.simps) (simp add: unat_continued del: of_nat_add)
  qed
qed

lemma length_uleb_le: "n < 2 ^ (7 * k) \<Longrightarrow> 0 < k \<Longrightarrow> length (uleb n) \<le> k"
proof (induction k arbitrary: n)
  case (Suc k)
  show ?case
  proof (cases "n < 128")
    case True
    then show ?thesis by (subst uleb.simps) simp
  next
    case False
    then have k: "0 < k" using Suc.prems(1) by (cases k) simp_all
    have "n div 128 < 2 ^ (7 * k)" using Suc.prems(1) by (simp add: power_add div_less_iff_less_mult mult.commute)
    from Suc.IH [OF this k] False show ?thesis by (subst uleb.simps) simp
  qed
qed simp

lemma length_uleb_64: "length (uleb (unat (v :: u64))) \<le> 10"
proof (rule length_uleb_le)
  have "unat v < 2 ^ 64" using unsigned_less [of v] by simp
  also have "(2 :: nat) ^ 64 \<le> 2 ^ (7 * 10)" by simp
  finally show "unat v < 2 ^ (7 * 10)" .
qed simp

lemma encode_varint_loop_uleb:
  "v \<noteq> 0 \<Longrightarrow> let b = encode_varint_loop v; i = length b in b \<noteq> [] \<and> b[i - 1 := b ! (i - 1) AND 0x7F] = uleb (unat v)"
proof (induction v rule: encode_varint_loop.induct)
  case (1 v)
  let ?u = "drop_bit 7 v" and ?b = "ucast ((v AND 0x7F) OR 0x80) :: u8"
  have u: "unat ?u = unat v div 128" unfolding unat_drop_bit_eq by (simp add: drop_bit_eq_div)
  have low: "unat (v AND 0x7F) = unat v mod 128"
  proof -
    have e: "v AND 0x7F = take_bit 7 v" by (simp add: take_bit_eq_mask mask_eq_exp_minus_1)
    show ?thesis unfolding e unsigned_take_bit_eq by (simp add: take_bit_eq_mod)
  qed
  have "unat (push_bit 7 1 OR (v AND 0x7F)) = (unat (1 :: u64) * 2 ^ 7 + unat (v AND 0x7F)) mod 2 ^ LENGTH(64)"
    by (rule unat_push_bit_or) (simp add: low)
  then have "unat ((v AND 0x7F) OR 0x80) = 128 + unat v mod 128" by (simp add: low or.commute)
  then have b: "unat ?b = unat v mod 128 + 128" by (simp add: unsigned_ucast_eq take_bit_eq_mod)
  then have bw: "?b = word_of_nat (unat v mod 128 + 128)" by (rule unat_eq_word_of_nat)
  have e: "encode_varint_loop v = ?b # encode_varint_loop ?u" using 1(2) by (subst encode_varint_loop.simps) simp
  show ?case
  proof (cases "?u = 0")
    case True
    then have v: "unat v < 128" using u by (simp add: div_eq_0_iff)
    have "encode_varint_loop ?u = []" using True by (subst encode_varint_loop.simps) simp
    moreover have "?b AND 0x7F = word_of_nat (unat v)"
      by (rule unat_eq_word_of_nat) (simp only: and_0x7f_mod b, use v in simp)
    ultimately show ?thesis using v by (simp add: e uleb.simps)
  next
    case False
    then have "\<not> unat v < 128" using u by (auto simp: unat_eq_0)
    then have ul: "uleb (unat v) = word_of_nat (unat v mod 128 + 128) # uleb (unat v div 128)" by (subst uleb.simps) simp
    from 1(1) [OF 1(2) False] u
    have "encode_varint_loop ?u \<noteq> []" "(encode_varint_loop ?u)[length (encode_varint_loop ?u) - 1 :=
        encode_varint_loop ?u ! (length (encode_varint_loop ?u) - 1) AND 0x7F] = uleb (unat v div 128)" by (simp_all add: Let_def)
    then show ?thesis unfolding ul bw [symmetric]
      by (cases "encode_varint_loop ?u") (simp_all add: e Let_def)
  qed
qed

lemma emits_pb_encode_varint: "emits (pb_encode_varint v) (uleb (unat v))"
proof (cases "v \<le> 0x7F")
  case True
  then have v: "unat v < 128" by (simp add: word_le_nat_alt)
  have "(ucast v :: u8) = word_of_nat (unat v)" by (rule unat_eq_word_of_nat) (use v in \<open>simp add: unsigned_ucast_eq take_bit_eq_mod\<close>)
  then show ?thesis using True v emits_pb_write [of 1 "[ucast v]"] by (simp add: pb_encode_varint_def uleb.simps)
next
  case False
  then have "v \<noteq> 0" by auto
  from encode_varint_loop_uleb [OF this] have u: "(encode_varint_loop v)[length (encode_varint_loop v) - 1 :=
      encode_varint_loop v ! (length (encode_varint_loop v) - 1) AND 0x7F] = uleb (unat v)" by (simp add: Let_def)
  have l: "length (encode_varint_loop v) = length (uleb (unat v))" by (simp flip: u)
  have "(pb_encode_varint v :: (bytes pb_ostream, unit) reader) = pb_write (uleb (unat v)) (length (uleb (unat v)))"
    unfolding l [symmetric] using False by (simp only: pb_encode_varint_def Let_def u if_False)
  then show ?thesis using emits_pb_write [of "length (uleb (unat v))" "uleb (unat v)"] by simp
qed

section \<open>Varints of 32 bits\<close>

lemma word32_of_byte_or:
  assumes "unat (result :: u32) < 2 ^ n"
  shows "result OR push_bit n (ucast (byte AND 0x7F :: u8)) = result + word_of_nat ((unat byte mod 128) * 2 ^ n)"
proof -
  have "push_bit n (ucast (byte AND 0x7F)) OR result = push_bit n (ucast (byte AND 0x7F)) + result"
    by (rule push_bit_or_small [OF assms])
  moreover have "(ucast (byte AND 0x7F) :: u32) = word_of_nat (unat byte mod 128)"
    by (rule unat_eq_word_of_nat) (simp only: unat_ucast_byte and_0x7f_mod)
  ultimately show ?thesis by (simp add: push_bit_eq_mult or.commute add.commute)
qed

lemma and_70_byte: "unat (b :: u8) < 128 \<Longrightarrow> b AND 0x70 = 0 \<longleftrightarrow> unat b < 16"
proof -
  assume b: "unat b < 128"
  have "b AND push_bit 4 (mask 3) = push_bit 4 (take_bit 3 (drop_bit 4 b))" by (rule and_push_mask)
  then have e: "b AND 0x70 = push_bit 4 (take_bit 3 (drop_bit 4 b))" by (simp add: mask_eq_exp_minus_1)
  have "unat (b AND push_bit 4 (mask 3)) = unat b div 2 ^ 4 mod 2 ^ 3 * 2 ^ 4 mod 2 ^ LENGTH(8)" by (rule unat_and_push_mask)
  moreover have "unat b div 16 < 8" using b by (simp add: div_less_iff_less_mult)
  ultimately have "unat (b AND 0x70) = unat b div 16 * 16" by (simp add: mask_eq_exp_minus_1)
  then show ?thesis by (auto simp: unat_eq_0 [symmetric] div_eq_0_iff)
qed

lemma unat_32_sum:
  assumes "unat (result :: u32) + x < 2 ^ 32"
  shows "unat (result + word_of_nat x) = unat result + x"
  using assms by (simp add: unat_word_ariths unat_of_nat)

lemma varint32_loop_bytes:
  assumes "is_varint bs" "buffered s" "view s = bs @ rest" "k + length bs \<le> 5" "unat result < 2 ^ (7 * k)"
  shows "if unat result + leb_val bs * 2 ^ (7 * k) < 2 ^ 32
    then varint32_loop (7 * k) result s = (Some (word_of_nat (unat result + leb_val bs * 2 ^ (7 * k))), advance (length bs) s)
    else fst (varint32_loop (7 * k) result s) = None"
  using assms
proof (induction bs arbitrary: k result s)
  case (Cons b bs)
  let ?x = "(unat b mod 128) * 2 ^ (7 * k)"
  let ?r = "result + word_of_nat ?x"
  have k: "k \<le> 4" "\<not> 32 \<le> 7 * k" "(7 * k + 7) mod 256 = 7 * k + 7" "7 * Suc k = 7 * k + 7" using Cons.prems(4) by simp_all
  have rd: "pb_readbyte s = (Some b, advance 1 s)" using pb_readbyte_buffered(1) [OF Cons.prems(2)] Cons.prems(3) by simp
  have step: "varint32_loop (7 * k) result s =
      (if 128 \<le> unat b then varint32_loop (7 * k + 7) ?r (advance 1 s)
       else if k = 4 \<and> 16 \<le> unat b then i_error ''varint overflow'' (advance 1 s) else (Some ?r, advance 1 s))"
    using k word32_of_byte_or [OF Cons.prems(5), of b] and_70_byte [of b]
    by (subst varint32_loop.simps) (auto simp: rd Let_def and_0x80_eq_0 not_less)
  show ?case
  proof (cases "unat b < 128")
    case True
    then have e: "bs = []" "leb_val (b # bs) * 2 ^ (7 * k) = ?x" using Cons.prems(1) by simp_all
    show ?thesis
    proof (cases "k = 4")
      case k4: True
      have "unat result + ?x < 2 ^ 32 \<longleftrightarrow> unat b < 16"
        using Cons.prems(5) True by (auto simp: k4)
      then show ?thesis using True step e k4 unat_32_sum [of result ?x]
        by (auto simp: i_error_def unat_eq_word_of_nat not_less)
    next
      case False
      then have "k \<le> 3" using k(1) by simp
      have "?x \<le> 127 * 2 ^ (7 * k)" using True by (intro mult_right_mono) simp_all
      then have "unat result + ?x < 2 ^ (7 * k) + 127 * 2 ^ (7 * k)" using Cons.prems(5) by linarith
      also have "\<dots> = 2 ^ (7 * k + 7)" by (simp add: power_add)
      also have "(2 :: nat) ^ (7 * k + 7) \<le> 2 ^ 28" using \<open>k \<le> 3\<close> by (intro power_increasing) simp_all
      finally have "unat result + ?x < 2 ^ 32" by simp
      then show ?thesis using True step e False unat_32_sum [of result ?x] by (simp add: unat_eq_word_of_nat)
    qed
  next
    case False
    then have v: "is_varint bs" using Cons.prems(1) by simp
    then have k3: "k \<le> 3" using Cons.prems(4) by (cases bs) auto
    have "unat b mod 128 \<le> 127" by (simp flip: less_Suc_eq_le)
    then have "?x \<le> 127 * 2 ^ (7 * k)" by (rule mult_right_mono) simp
    then have "unat result + ?x < 2 ^ (7 * k) + 127 * 2 ^ (7 * k)" using Cons.prems(5) by linarith
    also have "\<dots> = 2 ^ (7 * Suc k)" by (simp add: power_add)
    finally have lt: "unat result + ?x < 2 ^ (7 * Suc k)" .
    also have "(2 :: nat) ^ (7 * Suc k) \<le> 2 ^ 28" using k3 by (intro power_increasing) simp_all
    finally have r: "unat ?r = unat result + ?x" by (intro unat_32_sum) simp
    have "unat ?r < 2 ^ (7 * Suc k)" using lt unfolding r .
    moreover have "Suc k + length bs \<le> 5" "view (advance 1 s) = bs @ rest" using Cons.prems(3,4) by simp_all
    ultimately have ih: "if unat ?r + leb_val bs * 2 ^ (7 * Suc k) < 2 ^ 32
      then varint32_loop (7 * Suc k) ?r (advance 1 s) = (Some (word_of_nat (unat ?r + leb_val bs * 2 ^ (7 * Suc k))), advance (length bs) (advance 1 s))
      else fst (varint32_loop (7 * Suc k) ?r (advance 1 s)) = None"
      using Cons.IH [OF v buffered_advance [OF Cons.prems(2)]] by blast
    have e: "unat ?r + leb_val bs * 2 ^ (7 * Suc k) = unat result + leb_val (b # bs) * 2 ^ (7 * k)"
      unfolding r by (simp add: power_add algebra_simps)
    have "varint32_loop (7 * k) result s = varint32_loop (7 * Suc k) ?r (advance 1 s)"
      using False step by (simp only: not_less if_True k(4))
    moreover have "advance (length bs) (advance 1 s) = advance (length (b # bs)) s" by simp
    ultimately show ?thesis using ih by (simp only: e)
  qed
qed simp

lemma pb_decode_varint32_eof_bytes:
  assumes "is_varint bs" "buffered s" "view s = bs @ rest" "length bs \<le> 5"
  shows "if leb_val bs < 2 ^ 32
    then pb_decode_varint32_eof s = (Some (word_of_nat (leb_val bs)), False, advance (length bs) s)
    else fst (pb_decode_varint32_eof s) = None"
proof -
  obtain b bt where bs: "bs = b # bt" using assms(1) by (cases bs) auto
  have rd: "pb_readbyte s = (Some b, advance 1 s)" using pb_readbyte_buffered(1) [OF assms(2)] assms(3) bs by simp
  show ?thesis
  proof (cases "unat b < 128")
    case True
    have "(ucast b :: u32) = word_of_nat (unat b)" by (rule unat_eq_word_of_nat) simp
    then show ?thesis using True assms(1) bs by (simp add: pb_decode_varint32_eof_def rd and_0x80_eq_0)
  next
    case False
    let ?r = "ucast (b AND 0x7F) :: u32"
    have r: "unat ?r = unat b mod 128" by (simp only: unat_ucast_byte and_0x7f_mod)
    have "unat ?r < 2 ^ (7 * 1)" by (simp only: r) simp
    moreover have "is_varint bt" "1 + length bt \<le> 5" "view (advance 1 s) = bt @ rest"
      using False assms bs by simp_all
    ultimately have "is_varint bt" "1 + length bt \<le> 5" "view (advance 1 s) = bt @ rest" "unat ?r < 2 ^ (7 * 1)" by blast+
    from varint32_loop_bytes [OF this(1) buffered_advance [OF assms(2)] this(3,2,4)]
    moreover have "unat ?r + leb_val bt * 2 ^ (7 * 1) = leb_val bs" using bs by (simp only: r leb_val.simps) simp
    moreover have "pb_decode_varint32_eof s = (case varint32_loop (7 * 1) ?r (advance 1 s) of (r, stream) \<Rightarrow> (r, False, stream))"
      using False by (simp add: pb_decode_varint32_eof_def rd and_0x80_eq_0)
    moreover have "advance (length bt) (advance 1 s) = advance (length bs) s" using bs by simp
    ultimately show ?thesis by (simp only: split: prod.split if_split) auto
  qed
qed

end
