(* ===== verification/Pb_Codec.thy ===== *)
theory Pb_Codec
  imports Pb_Wire
begin

text \<open>
  The contract of a pair of functions of \<open>nanopb\<close> that write and read one value, as the locale
  \<open>wire_codec\<close>: what is written, that it is read back and where reading stops. Every pair of
  the library is an interpretation. What follows from the contract alone is proved once: a value
  written to a buffer is read from it, and so is a sequence of values.
\<close>

locale wire_codec =
  fixes enc :: "'a \<Rightarrow> (bytes pb_ostream, unit) reader"
    and dec :: "(bytes pb_istream, 'b) reader"
    and wire :: "'a \<Rightarrow> bytes"
    and seen :: "'a \<Rightarrow> 'b"
    and ok :: "'a \<Rightarrow> bool"
  assumes writes: "ok v \<Longrightarrow> emits (enc v) (wire v)"
    and reads: "ok v \<Longrightarrow> buffered s \<Longrightarrow> view s = wire v @ rest \<Longrightarrow> dec s = (Some (seen v), advance (length (wire v)) s)"
    and wire_not_Nil: "ok v \<Longrightarrow> wire v \<noteq> []"
begin

lemma write_read:
  assumes "ok v" "length (wire v) \<le> n" "n < SIZE_LIMIT"
  shows "\<exists>t. enc v (pb_ostream_from_buffer n) = (Some (), t) \<and> bytes_written t = length (wire v) \<and>
    (\<exists>s. dec (pb_istream_from_buffer (o_state t @ junk) (bytes_written t)) = (Some (seen v), s) \<and> bytes_left s = 0)"
proof -
  let ?s = "pb_ostream_from_buffer n" and ?t = "(pb_ostream_from_buffer n)\<lparr>o_state := wire v, bytes_written := length (wire v)\<rparr>"
  have "writable ?s" by (simp add: writable_def pb_ostream_from_buffer_def)
  with emitsD(1) [OF writes [OF assms(1)], of ?s] assms(2,3) have e: "enc v ?s = (Some (), ?t)"
    by (simp add: pb_ostream_from_buffer_def)
  let ?i = "pb_istream_from_buffer (wire v @ junk) (length (wire v))"
  have "dec ?i = (Some (seen v), advance (length (wire v)) ?i)"
    by (rule reads [OF assms(1), of _ "[]"]) simp_all
  moreover have "bytes_left (advance (length (wire v)) ?i) = 0" by (simp add: advance_def pb_istream_from_buffer_def)
  ultimately show ?thesis using e by (intro exI [of _ ?t]) simp
qed

end

section \<open>The bytes of a word\<close>

lemma ucast_drop_bit_u8:
  assumes "8 \<le> LENGTH('a :: len)"
  shows "ucast (drop_bit k (w :: 'a word) AND 0xFF) = (word_of_nat (unat w div 2 ^ k mod 256) :: u8)"
proof (rule unat_eq_word_of_nat)
  have e: "drop_bit k w AND 0xFF = take_bit 8 (drop_bit k w)" by (simp add: take_bit_eq_mask mask_eq_exp_minus_1)
  have "unat (drop_bit k w AND 0xFF) = unat (drop_bit k w) mod 256"
    unfolding e unsigned_take_bit_eq by (simp add: take_bit_eq_mod)
  then show "unat (ucast (drop_bit k w AND 0xFF) :: u8) = unat w div 2 ^ k mod 256"
    unfolding unat_drop_bit_eq by (simp add: unsigned_ucast_eq take_bit_eq_mod drop_bit_eq_div)
qed

definition le32 :: "u32 \<Rightarrow> bytes" where
  "le32 v = rev (be_bytes 4 (unat v))"

definition le64 :: "u64 \<Rightarrow> bytes" where
  "le64 v = rev (be_bytes 8 (unat v))"

lemma be_bytes_4: "be_bytes 4 n = map (\<lambda>k. word_of_nat (n div 2 ^ k mod 256)) [24, 16, 8, 0]"
proof -
  have e: "(4 :: nat) = Suc (Suc (Suc (Suc 0)))" by simp
  show ?thesis unfolding e by (simp add: div_mult2_eq [symmetric])
qed

lemma be_bytes_eight: "be_bytes 8 n = map (\<lambda>k. word_of_nat (n div 2 ^ k mod 256)) [56, 48, 40, 32, 24, 16, 8, 0]"
proof -
  have e: "(8 :: nat) = Suc (Suc (Suc (Suc (Suc (Suc (Suc (Suc 0)))))))" by simp
  show ?thesis unfolding e by (simp add: div_mult2_eq [symmetric])
qed

lemma le32_bytes:
  "le32 v = [ucast (v AND 0xFF), ucast (drop_bit 8 v AND 0xFF), ucast (drop_bit 16 v AND 0xFF), ucast (drop_bit 24 v AND 0xFF)]"
  using ucast_drop_bit_u8 [of 0 v] ucast_drop_bit_u8 [of 8 v] ucast_drop_bit_u8 [of 16 v] ucast_drop_bit_u8 [of 24 v]
  by (simp add: le32_def be_bytes_4)

lemma le64_bytes:
  "le64 v = [ucast (v AND 0xFF), ucast (drop_bit 8 v AND 0xFF), ucast (drop_bit 16 v AND 0xFF), ucast (drop_bit 24 v AND 0xFF),
    ucast (drop_bit 32 v AND 0xFF), ucast (drop_bit 40 v AND 0xFF), ucast (drop_bit 48 v AND 0xFF), ucast (drop_bit 56 v AND 0xFF)]"
  using ucast_drop_bit_u8 [of 0 v] ucast_drop_bit_u8 [of 8 v] ucast_drop_bit_u8 [of 16 v] ucast_drop_bit_u8 [of 24 v]
    ucast_drop_bit_u8 [of 32 v] ucast_drop_bit_u8 [of 40 v] ucast_drop_bit_u8 [of 48 v] ucast_drop_bit_u8 [of 56 v]
  by (simp add: le64_def be_bytes_eight)

lemma length_le32_le64 [simp]: "length (le32 v) = 4" "length (le64 w) = 8"
  by (simp_all add: le32_def le64_def)

lemma bit_byte_up:
  assumes "n < LENGTH('a)"
  shows "bit (push_bit k (ucast (ucast (drop_bit k (w :: 'a :: len word) AND 0xFF) :: u8)) :: 'a word) n \<longleftrightarrow>
    k \<le> n \<and> n < k + 8 \<and> bit w n"
proof -
  have e: "drop_bit k w AND 0xFF = take_bit 8 (drop_bit k w)" by (simp add: take_bit_eq_mask mask_eq_exp_minus_1)
  show ?thesis unfolding e using assms by (auto simp: bit_simps dest: bit_imp_le_length)
qed

lemma le32_nth:
  "le32 v ! 0 = ucast (drop_bit 0 v AND 0xFF)" "le32 v ! 1 = ucast (drop_bit 8 v AND 0xFF)"
  "le32 v ! 2 = ucast (drop_bit 16 v AND 0xFF)" "le32 v ! 3 = ucast (drop_bit 24 v AND 0xFF)"
  by (simp_all add: le32_bytes)

lemma le64_nth:
  "le64 v ! 0 = ucast (drop_bit 0 v AND 0xFF)" "le64 v ! 1 = ucast (drop_bit 8 v AND 0xFF)"
  "le64 v ! 2 = ucast (drop_bit 16 v AND 0xFF)" "le64 v ! 3 = ucast (drop_bit 24 v AND 0xFF)"
  "le64 v ! 4 = ucast (drop_bit 32 v AND 0xFF)" "le64 v ! 5 = ucast (drop_bit 40 v AND 0xFF)"
  "le64 v ! 6 = ucast (drop_bit 48 v AND 0xFF)" "le64 v ! 7 = ucast (drop_bit 56 v AND 0xFF)"
  by (simp_all add: le64_bytes)

lemma le32_join:
  "push_bit 0 (ucast (le32 v ! 0)) OR push_bit 8 (ucast (le32 v ! 1)) OR push_bit 16 (ucast (le32 v ! 2)) OR
   push_bit 24 (ucast (le32 v ! 3)) = (v :: u32)"
proof (rule bit_word_eqI)
  fix n
  assume n: "n < LENGTH(32)"
  have b: "bit (push_bit k (ucast (ucast (drop_bit k v AND 0xFF) :: u8)) :: u32) n \<longleftrightarrow> k \<le> n \<and> n < k + 8 \<and> bit v n" for k
    by (rule bit_byte_up [OF n])
  show "bit (push_bit 0 (ucast (le32 v ! 0)) OR push_bit 8 (ucast (le32 v ! 1)) OR push_bit 16 (ucast (le32 v ! 2)) OR
      push_bit 24 (ucast (le32 v ! 3)) :: u32) n \<longleftrightarrow> bit v n"
    unfolding le32_nth bit_or_iff b using n by auto
qed

lemma le64_join:
  "push_bit 0 (ucast (le64 v ! 0)) OR push_bit 8 (ucast (le64 v ! 1)) OR push_bit 16 (ucast (le64 v ! 2)) OR
   push_bit 24 (ucast (le64 v ! 3)) OR push_bit 32 (ucast (le64 v ! 4)) OR push_bit 40 (ucast (le64 v ! 5)) OR
   push_bit 48 (ucast (le64 v ! 6)) OR push_bit 56 (ucast (le64 v ! 7)) = (v :: u64)"
proof (rule bit_word_eqI)
  fix n
  assume n: "n < LENGTH(64)"
  have b: "bit (push_bit k (ucast (ucast (drop_bit k v AND 0xFF) :: u8)) :: u64) n \<longleftrightarrow> k \<le> n \<and> n < k + 8 \<and> bit v n" for k
    by (rule bit_byte_up [OF n])
  show "bit (push_bit 0 (ucast (le64 v ! 0)) OR push_bit 8 (ucast (le64 v ! 1)) OR push_bit 16 (ucast (le64 v ! 2)) OR
      push_bit 24 (ucast (le64 v ! 3)) OR push_bit 32 (ucast (le64 v ! 4)) OR push_bit 40 (ucast (le64 v ! 5)) OR
      push_bit 48 (ucast (le64 v ! 6)) OR push_bit 56 (ucast (le64 v ! 7)) :: u64) n \<longleftrightarrow> bit v n"
    unfolding le64_nth bit_or_iff b using n by auto
qed

section \<open>The codecs\<close>

interpretation varint: wire_codec pb_encode_varint pb_decode_varint "\<lambda>v. uleb (unat v)" "\<lambda>v. v" "\<lambda>_. True"
proof unfold_locales
  fix v :: u64 and s rest
  assume "buffered s" "view s = uleb (unat v) @ rest"
  then show "pb_decode_varint s = (Some v, advance (length (uleb (unat v))) s)"
    using pb_decode_varint_bytes [OF is_varint_uleb _ _ length_uleb_64] by (simp add: leb_val_uleb)
qed (simp_all add: emits_pb_encode_varint)

text \<open>The code of a signed number: the numbers near zero have the short codes.\<close>

definition zigzag :: "int \<Rightarrow> nat" where
  "zigzag i = nat (if i < 0 then - 2 * i - 1 else 2 * i)"

lemma unat_zigzag:
  "unat (if sint (v :: u64) < 0 then NOT (push_bit 1 v) else push_bit 1 v) = zigzag (sint v)"
proof -
  have r: "- (2 ^ 63) \<le> sint v" "sint v < 2 ^ 63" using sint_range_size [of v] by (simp_all add: size_word.rep_eq)
  have p: "push_bit 1 v = word_of_int (2 * sint v)" by (simp add: push_bit_eq_mult)
  have n: "NOT (push_bit 1 v) = word_of_int (- 2 * sint v - 1)" unfolding p by (simp add: not_eq_complement)
  have "uint (if sint v < 0 then NOT (push_bit 1 v) else push_bit 1 v) = (if sint v < 0 then - 2 * sint v - 1 else 2 * sint v) mod 2 ^ LENGTH(64)"
  proof (cases "sint v < 0")
    case True
    then show ?thesis by (simp only: n if_True uint_word_of_int)
  next
    case False
    then show ?thesis by (simp only: p if_False uint_word_of_int)
  qed
  also have "\<dots> = (if sint v < 0 then - 2 * sint v - 1 else 2 * sint v)"
    by (rule mod_pos_pos_trivial) (use r in auto)
  finally show ?thesis by (simp add: zigzag_def unat_eq_nat_uint)
qed

lemma unzigzag:
  assumes "z = (if sint (v :: u64) < 0 then NOT (push_bit 1 v) else push_bit 1 v)"
  shows "(if z AND 1 \<noteq> 0 then NOT (drop_bit 1 z) else drop_bit 1 z) = v"
proof -
  have s: "sint v < 0 \<longleftrightarrow> bit v 63" using bit_last_iff [of v] by simp
  have low: "z AND 1 \<noteq> 0 \<longleftrightarrow> bit z 0" by (simp add: and_one_eq bit_0 odd_iff_mod_2_eq_one)
  have z: "bit z 0 \<longleftrightarrow> sint v < 0" unfolding assms by (simp add: bit_0)
  have q: "bit (push_bit 1 v) (Suc n) \<longleftrightarrow> bit v n" if "n < 63" for n
    using that unfolding bit_push_bit_iff by simp
  have neg: "NOT (drop_bit 1 (NOT q)) = v" if "\<And>n. n < 63 \<Longrightarrow> bit q (Suc n) \<longleftrightarrow> bit v n" "bit v 63" for q
  proof (rule bit_word_eqI)
    fix n
    assume "n < LENGTH(64)"
    then have "n < 63 \<or> n = 63" by auto
    then show "bit (NOT (drop_bit 1 (NOT q))) n \<longleftrightarrow> bit v n" using that by (auto simp: bit_simps)
  qed
  have pos: "drop_bit 1 q = v" if "\<And>n. n < 63 \<Longrightarrow> bit q (Suc n) \<longleftrightarrow> bit v n" "\<not> bit v 63" for q
  proof (rule bit_word_eqI)
    fix n
    assume "n < LENGTH(64)"
    then have "n < 63 \<or> n = 63" by auto
    then show "bit (drop_bit 1 q) n \<longleftrightarrow> bit v n" using that by (auto simp: bit_simps dest: bit_imp_le_length)
  qed
  show ?thesis
  proof (cases "bit v 63")
    case True
    then have "z = NOT (push_bit 1 v)" unfolding assms s by (simp only: if_True)
    moreover have "z AND 1 \<noteq> 0" using z True by (simp only: low s)
    ultimately show ?thesis using neg [OF q True] by (simp only: if_True not_False_eq_True)
  next
    case False
    then have "z = push_bit 1 v" unfolding assms s by (simp only: if_False)
    moreover have "\<not> z AND 1 \<noteq> 0" using z False by (simp only: low s not_False_eq_True)
    ultimately show ?thesis using pos [OF q False] by simp
  qed
qed

definition wire_svarint :: "u64 \<Rightarrow> bytes" where
  "wire_svarint v = uleb (zigzag (sint v))"

interpretation svarint: wire_codec pb_encode_svarint pb_decode_svarint wire_svarint "\<lambda>v. v" "\<lambda>_. True"
proof unfold_locales
  fix v :: u64
  let ?z = "if sint v < 0 then NOT (push_bit 1 v) else push_bit 1 v"
  have w: "wire_svarint v = uleb (unat ?z)" unfolding wire_svarint_def unat_zigzag ..
  show "emits (pb_encode_svarint v) (wire_svarint v)" unfolding pb_encode_svarint_def w by (rule varint.writes) simp
  show "wire_svarint v \<noteq> []" by (simp add: wire_svarint_def)
  fix s rest
  assume "buffered s" "view s = wire_svarint v @ rest"
  then have "pb_decode_varint s = (Some ?z, advance (length (wire_svarint v)) s)" unfolding w by (intro varint.reads) simp_all
  then show "pb_decode_svarint s = (Some v, advance (length (wire_svarint v)) s)"
    using unzigzag [OF refl, of v] by (simp only: pb_decode_svarint_def bindR_Some returnR_def)
qed

interpretation fixed32: wire_codec pb_encode_fixed32 pb_decode_fixed32 le32 "\<lambda>v. v" "\<lambda>_. True"
proof unfold_locales
  fix v :: u32
  show "emits (pb_encode_fixed32 v) (le32 v)"
    using emits_pb_write [of 4 "le32 v"] by (simp add: pb_encode_fixed32_def le32_bytes)
  show "le32 v \<noteq> []" by (simp add: le32_bytes)
  fix s rest
  assume s: "buffered s" "view s = le32 v @ rest"
  then have "pb_read False 4 s = (Some (le32 v), advance (length (le32 v)) s)" using pb_read_buffered(1) [OF s(1), of 4] by simp
  then show "pb_decode_fixed32 s = (Some v, advance (length (le32 v)) s)"
    using le32_join [of v] by (simp only: pb_decode_fixed32_def bindR_Some returnR_def)
qed

interpretation fixed64: wire_codec pb_encode_fixed64 pb_decode_fixed64 le64 "\<lambda>v. v" "\<lambda>_. True"
proof unfold_locales
  fix v :: u64
  show "emits (pb_encode_fixed64 v) (le64 v)"
    using emits_pb_write [of 8 "le64 v"] by (simp add: pb_encode_fixed64_def le64_bytes)
  show "le64 v \<noteq> []" by (simp add: le64_bytes)
  fix s rest
  assume s: "buffered s" "view s = le64 v @ rest"
  then have "pb_read False 8 s = (Some (le64 v), advance (length (le64 v)) s)" using pb_read_buffered(1) [OF s(1), of 8] by simp
  then show "pb_decode_fixed64 s = (Some v, advance (length (le64 v)) s)"
    using le64_join [of v] by (simp only: pb_decode_fixed64_def bindR_Some returnR_def)
qed

section \<open>Varints of 32 bits, booleans and tags\<close>

lemma length_uleb_32: "n < 2 ^ 32 \<Longrightarrow> length (uleb n) \<le> 5"
  by (rule length_uleb_le [of _ 5]) simp_all

lemma pb_decode_varint32_eof_uleb:
  assumes "n < 2 ^ 32" "buffered s" "view s = uleb n @ rest"
  shows "pb_decode_varint32_eof s = (Some (word_of_nat n), False, advance (length (uleb n)) s)"
  using pb_decode_varint32_eof_bytes [OF is_varint_uleb assms(2,3) length_uleb_32 [OF assms(1)]] assms(1)
  by (simp add: leb_val_uleb)

lemma pb_decode_varint32_uleb:
  assumes "n < 2 ^ 32" "buffered s" "view s = uleb n @ rest"
  shows "pb_decode_varint32 s = (Some (word_of_nat n), advance (length (uleb n)) s)"
  using pb_decode_varint32_eof_uleb [OF assms] by (simp add: pb_decode_varint32_def)

definition wire_bool :: "u8 \<Rightarrow> bytes" where
  "wire_bool b = [if b \<noteq> 0 then 1 else 0]"

lemma wire_bool_uleb: "wire_bool b = uleb (unat (if b \<noteq> 0 then 1 else 0 :: u64))"
  by (subst uleb.simps) (simp add: wire_bool_def)

interpretation pb_bool: wire_codec pb_enc_bool pb_dec_bool wire_bool "\<lambda>b. b \<noteq> 0" "\<lambda>_. True"
proof unfold_locales
  fix b :: u8
  show "emits (pb_enc_bool b) (wire_bool b)" unfolding pb_enc_bool_def wire_bool_uleb by (rule varint.writes) simp
  show "wire_bool b \<noteq> []" by (simp add: wire_bool_def)
  fix s rest
  assume s: "buffered s" "view s = wire_bool b @ rest"
  have "pb_decode_varint32 s = (Some (word_of_nat (if b \<noteq> 0 then 1 else 0)), advance (length (wire_bool b)) s)"
    using pb_decode_varint32_uleb [OF _ s(1), of "if b \<noteq> 0 then 1 else 0"] s(2) unfolding wire_bool_uleb by (auto split: if_splits)
  then show "pb_dec_bool s = (Some (b \<noteq> 0), advance (length (wire_bool b)) s)"
    by (simp add: pb_dec_bool_def returnR_def)
qed

text \<open>A tag: the field number, which is not zero for a field, and the wire type in the three low bits.\<close>

definition wire_tag :: "pb_wire_type \<Rightarrow> u32 \<Rightarrow> bytes" where
  "wire_tag wt tag = uleb (8 * unat tag + unat wt)"

lemma unat_wire_tag_word:
  assumes "unat (wt :: u32) < 8"
  shows "unat (push_bit 3 (ucast (tag :: u32)) OR ucast wt :: u64) = 8 * unat tag + unat wt"
proof -
  have u: "unat (ucast w :: u64) = unat w" for w :: u32
  proof -
    have "unat w < 2 ^ 32" using unsigned_less [of w] by simp
    then show ?thesis by (simp add: unsigned_ucast_eq take_bit_eq_mod)
  qed
  have "unat (push_bit 3 (ucast tag) OR ucast wt :: u64) = (unat (ucast tag :: u64) * 2 ^ 3 + unat (ucast wt :: u64)) mod 2 ^ LENGTH(64)"
    by (rule unat_push_bit_or) (simp add: u assms)
  moreover have "unat tag < 2 ^ 32" using unsigned_less [of tag] by simp
  ultimately show ?thesis using assms by (simp add: u)
qed

lemma emits_pb_encode_tag: "unat wt < 8 \<Longrightarrow> emits (pb_encode_tag wt tag) (wire_tag wt tag)"
  using varint.writes [of "push_bit 3 (ucast tag) OR ucast wt"] unat_wire_tag_word [of wt tag]
  by (simp add: pb_encode_tag_def wire_tag_def)

lemma pb_decode_tag_wire:
  assumes "unat wt < 8" "0 < unat tag" "unat tag < 2 ^ 29" "buffered s" "view s = wire_tag wt tag @ rest"
  shows "pb_decode_tag s = (Some (tag, wt), False, advance (length (wire_tag wt tag)) s)"
proof -
  let ?n = "8 * unat tag + unat wt"
  have n: "?n < 2 ^ 32" "0 < ?n" using assms(1-3) by simp_all
  have t: "unat (word_of_nat ?n :: u32) = ?n" unfolding unat_of_nat by (rule mod_less) (use n(1) in simp)
  have d: "pb_decode_varint32_eof s = (Some (word_of_nat ?n), False, advance (length (uleb ?n)) s)"
    using pb_decode_varint32_eof_uleb [OF n(1) assms(4)] assms(5) by (simp only: wire_tag_def)
  have "unat (drop_bit 3 (word_of_nat ?n :: u32)) = unat tag"
    unfolding unat_drop_bit_eq t using assms(1) by (simp add: drop_bit_eq_div)
  then have "drop_bit 3 (word_of_nat ?n :: u32) = tag" by (rule word_unat_eq_iff [THEN iffD2])
  moreover have e: "(word_of_nat ?n :: u32) AND 7 = take_bit 3 (word_of_nat ?n)" by (simp add: take_bit_eq_mask mask_eq_exp_minus_1)
  have "unat ((word_of_nat ?n :: u32) AND 7) = unat wt"
    unfolding e unsigned_take_bit_eq t using assms(1) by (simp add: take_bit_eq_mod)
  then have "(word_of_nat ?n :: u32) AND 7 = wt" by (rule word_unat_eq_iff [THEN iffD2])
  moreover have "(word_of_nat ?n :: u32) \<noteq> 0" using t n(2) by auto
  ultimately show ?thesis unfolding pb_decode_tag_def wire_tag_def d by simp
qed

end
