(* ===== verification/Pb_Fields.thy ===== *)
theory Pb_Fields
  imports Pb_Stream
begin

text \<open>
  \<open>nanopb\<close>, one field of a message: the field descriptors of \<open>pb.h\<close>, the encoding of arrays
  of \<open>pb_encode.c\<close> and the decoding of a field with static storage of \<open>pb_decode.c\<close>, and the
  field iterators of \<open>pb_common.c\<close>.
\<close>

section \<open>Descriptors\<close>

type_synonym pb_type = u8

text \<open>\<open>ptr\<close>, the fields of a submessage or a default value, is an argument of what uses it.\<close>

record pb_field =
  tag :: u32
  ftype :: pb_type
  data_offset :: u32
  size_offset :: u32
  data_size :: u32
  array_size :: u32

definition PB_LTYPE_BOOL :: pb_type where "PB_LTYPE_BOOL = 0x00"
definition PB_LTYPE_VARINT :: pb_type where "PB_LTYPE_VARINT = 0x01"
definition PB_LTYPE_UVARINT :: pb_type where "PB_LTYPE_UVARINT = 0x02"
definition PB_LTYPE_SVARINT :: pb_type where "PB_LTYPE_SVARINT = 0x03"
definition PB_LTYPE_FIXED32 :: pb_type where "PB_LTYPE_FIXED32 = 0x04"
definition PB_LTYPE_FIXED64 :: pb_type where "PB_LTYPE_FIXED64 = 0x05"
definition PB_LTYPE_LAST_PACKABLE :: pb_type where "PB_LTYPE_LAST_PACKABLE = 0x05"
definition PB_LTYPE_BYTES :: pb_type where "PB_LTYPE_BYTES = 0x06"
definition PB_LTYPE_STRING :: pb_type where "PB_LTYPE_STRING = 0x07"
definition PB_LTYPE_SUBMESSAGE :: pb_type where "PB_LTYPE_SUBMESSAGE = 0x08"
definition PB_LTYPE_EXTENSION :: pb_type where "PB_LTYPE_EXTENSION = 0x09"
definition PB_LTYPE_FIXED_LENGTH_BYTES :: pb_type where "PB_LTYPE_FIXED_LENGTH_BYTES = 0x0A"

definition PB_HTYPE_REQUIRED :: pb_type where "PB_HTYPE_REQUIRED = 0x00"
definition PB_HTYPE_OPTIONAL :: pb_type where "PB_HTYPE_OPTIONAL = 0x10"
definition PB_HTYPE_REPEATED :: pb_type where "PB_HTYPE_REPEATED = 0x20"
definition PB_HTYPE_ONEOF :: pb_type where "PB_HTYPE_ONEOF = 0x30"

definition PB_ATYPE_STATIC :: pb_type where "PB_ATYPE_STATIC = 0x00"
definition PB_ATYPE_POINTER :: pb_type where "PB_ATYPE_POINTER = 0x80"

definition PB_LTYPE :: "pb_type \<Rightarrow> pb_type" where "PB_LTYPE x = x AND 0x0F"
definition PB_HTYPE :: "pb_type \<Rightarrow> pb_type" where "PB_HTYPE x = x AND 0x30"
definition PB_ATYPE :: "pb_type \<Rightarrow> pb_type" where "PB_ATYPE x = x AND 0xC0"

section \<open>Encoding\<close>

definition pb_encode_tag_for_field :: "pb_field \<Rightarrow> ('s pb_ostream, unit) reader" where
  "pb_encode_tag_for_field field =
     (let ltype = PB_LTYPE (ftype field) in
      if ltype = PB_LTYPE_BOOL \<or> ltype = PB_LTYPE_VARINT \<or> ltype = PB_LTYPE_UVARINT \<or> ltype = PB_LTYPE_SVARINT
      then pb_encode_tag PB_WT_VARINT (tag field)
      else if ltype = PB_LTYPE_FIXED32 then pb_encode_tag PB_WT_32BIT (tag field)
      else if ltype = PB_LTYPE_FIXED64 then pb_encode_tag PB_WT_64BIT (tag field)
      else if ltype = PB_LTYPE_BYTES \<or> ltype = PB_LTYPE_STRING \<or> ltype = PB_LTYPE_SUBMESSAGE \<or>
              ltype = PB_LTYPE_FIXED_LENGTH_BYTES
      then pb_encode_tag PB_WT_STRING (tag field)
      else o_error ''invalid field type'')"

text \<open>
  The first six entries of \<open>PB_ENCODERS\<close>, the packable types: the argument is the member as it lies
  in memory, in the low bytes of a word.
\<close>

definition PB_ENCODERS :: "pb_field \<Rightarrow> u64 \<Rightarrow> ('s pb_ostream, unit) reader" where
  "PB_ENCODERS field src =
     [pb_enc_bool (ucast src),
      pb_enc_varint (unat (data_size field)) src,
      pb_enc_uvarint (unat (data_size field)) src,
      pb_enc_svarint (unat (data_size field)) src,
      pb_encode_fixed32 (ucast src),
      pb_encode_fixed64 src] ! unat (PB_LTYPE (ftype field))"

text \<open>
  \<open>items\<close> are the \<open>count\<close> entries of the array, and \<open>func\<close> the encoder of one of them: in an array of
  pointers to strings or bytes, an item is what the pointer points to.
\<close>

primrec encode_items :: "('v \<Rightarrow> ('s pb_ostream, unit) reader) \<Rightarrow> 'v list \<Rightarrow> ('s pb_ostream, unit) reader" where
  "encode_items func [] = returnR ()"
| "encode_items func (p # ps) = bindR (func p) (\<lambda>_. encode_items func ps)"

definition packed_size :: "pb_field \<Rightarrow> 'v list \<Rightarrow> ('v \<Rightarrow> ('s pb_ostream, unit) reader) \<Rightarrow> 's \<Rightarrow> nat option" where
  "packed_size field items func st =
     (if PB_LTYPE (ftype field) = PB_LTYPE_FIXED32 then Some (4 * length items mod SIZE_LIMIT)
      else if PB_LTYPE (ftype field) = PB_LTYPE_FIXED64 then Some (8 * length items mod SIZE_LIMIT)
      else case encode_items func items (PB_OSTREAM_SIZING st) of
             (None, _) \<Rightarrow> None
           | (Some _, sizestream) \<Rightarrow> Some (bytes_written sizestream))"

definition encode_array :: "pb_field \<Rightarrow> 'v list \<Rightarrow> ('v \<Rightarrow> ('s pb_ostream, unit) reader) \<Rightarrow> ('s pb_ostream, unit) reader" where
  "encode_array field items func =
     (if length items = 0 then returnR ()
      else if PB_ATYPE (ftype field) \<noteq> PB_ATYPE_POINTER \<and> length items > unat (array_size field)
      then o_error ''array max size exceeded''
      else if PB_LTYPE (ftype field) \<le> PB_LTYPE_LAST_PACKABLE then
        bindR (pb_encode_tag PB_WT_STRING (tag field)) (\<lambda>_ stream.
          case packed_size field items func (o_state stream) of
            None \<Rightarrow> (None, stream)
          | Some sz \<Rightarrow>
              bindR (pb_encode_varint (word_of_nat sz)) (\<lambda>_ stream.
                if o_callback stream = None then pb_write [] sz stream
                else encode_items func items stream) stream)
      else encode_items (\<lambda>p. bindR (pb_encode_tag_for_field field) (\<lambda>_. func p)) items)"

section \<open>Decoding a field with static storage\<close>

text \<open>
  The memory of the field: its entries, which is one unless the field is an array, and what \<open>pSize\<close>
  points to, a number of entries, a flag or the tag of the member of a union. \<open>func\<close> is given the old
  contents of the entry, and \<open>cleared\<close> is a submessage set to its defaults. The memory that a failing
  decoder leaves is not modelled.
\<close>

record 'v static_field =
  entries :: "'v list"
  size_field :: u32

definition decode_entry ::
  "('v \<Rightarrow> ('s pb_istream, 'v) reader) \<Rightarrow> nat \<Rightarrow> 'v static_field \<Rightarrow> ('s pb_istream, 'v static_field) reader" where
  "decode_entry func i m = bindR (func (entries m ! i)) (\<lambda>v. returnR (m\<lparr>entries := (entries m)[i := v]\<rparr>))"

lemma size_field_step: "(n :: u32) < k \<Longrightarrow> unat (n + 1) = unat n + 1"
proof -
  assume "n < k"
  then have "unat n + 1 \<le> unat k" by (simp add: word_less_nat_alt)
  also have "unat k < 2 ^ 32" using unsigned_less [of k] by simp
  finally show ?thesis by (simp add: unat_word_ariths)
qed

function packed_loop ::
  "pb_field \<Rightarrow> ('v \<Rightarrow> ('s pb_istream, 'v) reader) \<Rightarrow> 'v static_field \<Rightarrow> ('s pb_istream, 'v static_field) reader" where
  "packed_loop field func m substream =
     (if bytes_left substream > 0 \<and> size_field m < array_size field then
        case decode_entry func (unat (size_field m)) m substream of
          (None, substream) \<Rightarrow> (None, substream)
        | (Some m', substream) \<Rightarrow> packed_loop field func (m'\<lparr>size_field := size_field m + 1\<rparr>) substream
      else (Some m, substream))"
  by pat_completeness auto

termination
  by (relation "measure (\<lambda>(field, func, m, substream). unat (array_size field) - unat (size_field m))")
    (auto simp: size_field_step word_less_nat_alt)

declare packed_loop.simps [simp del]

definition decode_static_field ::
  "pb_field \<Rightarrow> 'v \<Rightarrow> ('v \<Rightarrow> ('s pb_istream, 'v) reader) \<Rightarrow> pb_wire_type \<Rightarrow> 'v static_field \<Rightarrow>
     ('s pb_istream, 'v static_field) reader" where
  "decode_static_field field cleared func wire_type m =
     (let htype = PB_HTYPE (ftype field); ltype = PB_LTYPE (ftype field) in
      if htype = PB_HTYPE_REQUIRED then decode_entry func 0 m
      else if htype = PB_HTYPE_OPTIONAL then
        decode_entry func 0 (if size_offset field \<noteq> 0 then m\<lparr>size_field := 1\<rparr> else m)
      else if htype = PB_HTYPE_REPEATED then
        if wire_type = PB_WT_STRING \<and> ltype \<le> PB_LTYPE_LAST_PACKABLE then
          bindR pb_make_string_substream (\<lambda>substream stream.
            case packed_loop field func m substream of
              (r, substream) \<Rightarrow>
                if bytes_left substream \<noteq> 0 then i_error ''array overflow'' stream
                else bindR (pb_close_string_substream substream) (\<lambda>_ stream. (r, stream)) stream)
        else if size_field m \<ge> array_size field then i_error ''array overflow''
        else decode_entry func (unat (size_field m)) (m\<lparr>size_field := size_field m + 1\<rparr>)
      else if htype = PB_HTYPE_ONEOF then
        decode_entry func 0
          (m\<lparr>size_field := tag field,
             entries := (if ltype = PB_LTYPE_SUBMESSAGE then (entries m)[0 := cleared] else entries m)\<rparr>)
      else i_error ''invalid field type'')"

text \<open>The first six entries of \<open>PB_DECODERS\<close>, storing the member as \<open>PB_ENCODERS\<close> reads it.\<close>

definition PB_DECODERS :: "pb_field \<Rightarrow> u64 \<Rightarrow> ('s pb_istream, u64) reader" where
  "PB_DECODERS field dest =
     [bindR pb_dec_bool (\<lambda>b. returnR (if b then 1 else 0)),
      pb_dec_varint (unat (data_size field)),
      pb_dec_uvarint (unat (data_size field)),
      pb_dec_svarint (unat (data_size field)),
      bindR pb_decode_fixed32 (\<lambda>v. returnR (ucast v)),
      pb_decode_fixed64] ! unat (PB_LTYPE (ftype field))"

text \<open>For evaluation, one entry after the other.\<close>

lemma PB_DECODERS_code [code]:
  "PB_DECODERS field dest stream =
     (if unat (PB_LTYPE (ftype field)) = 0 then bindR pb_dec_bool (\<lambda>b. returnR (if b then 1 else 0)) stream
      else if unat (PB_LTYPE (ftype field)) = 1 then pb_dec_varint (unat (data_size field)) stream
      else if unat (PB_LTYPE (ftype field)) = 2 then pb_dec_uvarint (unat (data_size field)) stream
      else if unat (PB_LTYPE (ftype field)) = 3 then pb_dec_svarint (unat (data_size field)) stream
      else if unat (PB_LTYPE (ftype field)) = 4 then bindR pb_decode_fixed32 (\<lambda>v. returnR (ucast v)) stream
      else if unat (PB_LTYPE (ftype field)) = 5 then pb_decode_fixed64 stream
      else ([] ! (unat (PB_LTYPE (ftype field)) - 6)) stream)"
  by (auto simp: PB_DECODERS_def nth_Cons' numeral_eq_Suc)

end
