(* ===== verification/Pb_Iter.thy ===== *)
theory Pb_Iter
  imports Pb_Fields
begin

text \<open>
  The field iterators of \<open>pb_common.c\<close>: a walk over the descriptors of a message that keeps the
  addresses of the current field in step. An array of descriptors ends with one whose tag is zero;
  \<open>start\<close> is the array, \<open>pos\<close> the index of the current descriptor in it.
\<close>

record pb_field_iter =
  start :: "pb_field list"
  pos :: nat
  required_field_index :: nat
  dest_struct :: int
  pData :: int
  pSize :: int

abbreviation PB_SIZE_MAX :: u32 where
  "PB_SIZE_MAX \<equiv> - 1"

abbreviation SIZEOF_POINTER :: int where
  "SIZEOF_POINTER \<equiv> 8"

definition current :: "pb_field_iter \<Rightarrow> pb_field" where
  "current iter = start iter ! pos iter"

definition pb_field_iter_begin :: "pb_field list \<Rightarrow> int \<Rightarrow> bool \<times> pb_field_iter" where
  "pb_field_iter_begin fs dest =
     (let f = fs ! 0; data = dest + uint (data_offset f) in
      (tag f \<noteq> 0,
       \<lparr>start = fs, pos = 0, required_field_index = 0, dest_struct = dest, pData = data,
        pSize = data + sint (size_offset f)\<rparr>))"

definition pb_field_iter_next :: "pb_field_iter \<Rightarrow> bool \<times> pb_field_iter" where
  "pb_field_iter_next iter =
     (let prev_field = current iter in
      if tag prev_field = 0 then (False, iter)
      else
        let iter = iter\<lparr>pos := pos iter + 1\<rparr> in
        if tag (current iter) = 0 then (False, snd (pb_field_iter_begin (start iter) (dest_struct iter)))
        else
          let prev_size = uint (data_size prev_field) in
          if PB_HTYPE (ftype prev_field) = PB_HTYPE_ONEOF \<and> PB_HTYPE (ftype (current iter)) = PB_HTYPE_ONEOF \<and>
             data_offset (current iter) = PB_SIZE_MAX
          then (True, iter)
          else
            let prev_size =
                  (if PB_ATYPE (ftype prev_field) = PB_ATYPE_STATIC \<and> PB_HTYPE (ftype prev_field) = PB_HTYPE_REPEATED
                   then prev_size * uint (array_size prev_field)
                   else if PB_ATYPE (ftype prev_field) = PB_ATYPE_POINTER then SIZEOF_POINTER
                   else prev_size);
                iter = (if PB_HTYPE (ftype prev_field) = PB_HTYPE_REQUIRED
                        then iter\<lparr>required_field_index := required_field_index iter + 1\<rparr> else iter);
                data = pData iter + prev_size + uint (data_offset (current iter))
            in (True, iter\<lparr>pData := data, pSize := data + sint (size_offset (current iter))\<rparr>))"

text \<open>The loops stop when they are back at the descriptor they began with.\<close>

partial_function (option) find_loop :: "(pb_field \<Rightarrow> bool) \<Rightarrow> nat \<Rightarrow> pb_field_iter \<Rightarrow> (bool \<times> pb_field_iter) option" where
  "find_loop wanted first iter =
     (if wanted (current iter) then Some (True, iter)
      else let iter = snd (pb_field_iter_next iter) in
           if pos iter \<noteq> first then find_loop wanted first iter else Some (False, iter))"

declare find_loop.simps [code]

definition pb_field_iter_find :: "pb_field_iter \<Rightarrow> u32 \<Rightarrow> (bool \<times> pb_field_iter) option" where
  "pb_field_iter_find iter t =
     find_loop (\<lambda>f. tag f = t \<and> PB_LTYPE (ftype f) \<noteq> PB_LTYPE_EXTENSION) (pos iter) iter"

definition find_extension_field :: "pb_field_iter \<Rightarrow> (bool \<times> pb_field_iter) option" where
  "find_extension_field iter = find_loop (\<lambda>f. PB_LTYPE (ftype f) = PB_LTYPE_EXTENSION) (pos iter) iter"

section \<open>The addresses are those of the field\<close>

text \<open>
  What the iterator should hold at a descriptor, without the walk: the address of a field from the one
  before it, the members of a union sharing theirs, and the number of required fields before it.
\<close>

definition field_extent :: "pb_field \<Rightarrow> int" where
  "field_extent f =
     (if PB_ATYPE (ftype f) = PB_ATYPE_STATIC \<and> PB_HTYPE (ftype f) = PB_HTYPE_REPEATED
      then uint (data_size f) * uint (array_size f)
      else if PB_ATYPE (ftype f) = PB_ATYPE_POINTER then 8 else uint (data_size f))"

definition same_union :: "pb_field \<Rightarrow> pb_field \<Rightarrow> bool" where
  "same_union f g \<longleftrightarrow> PB_HTYPE (ftype f) = PB_HTYPE_ONEOF \<and> PB_HTYPE (ftype g) = PB_HTYPE_ONEOF \<and> data_offset g = - 1"

fun address :: "pb_field list \<Rightarrow> int \<Rightarrow> nat \<Rightarrow> int" where
  "address fs base 0 = base + uint (data_offset (fs ! 0))"
| "address fs base (Suc i) =
     (if same_union (fs ! i) (fs ! Suc i) then address fs base i
      else address fs base i + field_extent (fs ! i) + uint (data_offset (fs ! Suc i)))"

fun size_address :: "pb_field list \<Rightarrow> int \<Rightarrow> nat \<Rightarrow> int" where
  "size_address fs base 0 = address fs base 0 + sint (size_offset (fs ! 0))"
| "size_address fs base (Suc i) =
     (if same_union (fs ! i) (fs ! Suc i) then size_address fs base i
      else address fs base (Suc i) + sint (size_offset (fs ! Suc i)))"

definition required_before :: "pb_field list \<Rightarrow> nat \<Rightarrow> nat" where
  "required_before fs i = length (filter (\<lambda>f. PB_HTYPE (ftype f) = PB_HTYPE_REQUIRED) (take i fs))"

definition iter_at :: "pb_field list \<Rightarrow> int \<Rightarrow> nat \<Rightarrow> pb_field_iter" where
  "iter_at fs base i =
     \<lparr>start = fs, pos = i, required_field_index = required_before fs i, dest_struct = base,
      pData = address fs base i, pSize = size_address fs base i\<rparr>"

definition message_fields :: "pb_field list \<Rightarrow> nat \<Rightarrow> bool" where
  "message_fields fs n \<longleftrightarrow> n < length fs \<and> tag (fs ! n) = 0 \<and> (\<forall>i<n. tag (fs ! i) \<noteq> 0)"

lemma iter_at_simps [simp]:
  "start (iter_at fs base i) = fs" "pos (iter_at fs base i) = i" "current (iter_at fs base i) = fs ! i"
  "dest_struct (iter_at fs base i) = base"
  by (simp_all add: iter_at_def current_def)

lemma begin_at: "message_fields fs n \<Longrightarrow> pb_field_iter_begin fs base = (n \<noteq> 0, iter_at fs base 0)"
  by (cases n) (auto simp: pb_field_iter_begin_def message_fields_def iter_at_def required_before_def Let_def)

lemma required_before_Suc:
  "i < length fs \<Longrightarrow> required_before fs (Suc i) =
     (if PB_HTYPE (ftype (fs ! i)) = PB_HTYPE_REQUIRED then required_before fs i + 1 else required_before fs i)"
  by (simp add: required_before_def take_Suc_conv_app_nth)

lemma required_not_oneof: "\<not> (PB_HTYPE t = PB_HTYPE_REQUIRED \<and> PB_HTYPE t = PB_HTYPE_ONEOF)"
  by (auto simp: PB_HTYPE_REQUIRED_def PB_HTYPE_ONEOF_def)

lemma next_at:
  assumes "message_fields fs n" "i < n"
  shows "pb_field_iter_next (iter_at fs base i) = (Suc i < n, iter_at fs base (Suc i mod n))"
proof -
  have t: "tag (fs ! i) \<noteq> 0" "i < length fs" using assms by (simp_all add: message_fields_def)
  show ?thesis
  proof (cases "Suc i < n")
    case True
    then have "tag (fs ! Suc i) \<noteq> 0" using assms(1) by (simp add: message_fields_def)
    with True t show ?thesis
      using required_not_oneof [of "ftype (fs ! i)"]
      by (auto simp: pb_field_iter_next_def current_def iter_at_def Let_def same_union_def field_extent_def required_before_Suc)
  next
    case False
    then have "Suc i = n" using assms(2) by simp
    with assms(1) t begin_at [OF assms(1), of base] show ?thesis
      by (simp add: pb_field_iter_next_def Let_def current_def message_fields_def iter_at_def)
  qed
qed

text \<open>The loop looks at the fields from the current one to the end, then at those before it.\<close>

lemma find_loop_at:
  assumes "message_fields fs n" "i < n" "k < n"
  shows "find_loop P i (iter_at fs base ((i + k) mod n)) =
    (case find (\<lambda>m. P (fs ! ((i + m) mod n))) [k..<n] of
       Some m \<Rightarrow> Some (True, iter_at fs base ((i + m) mod n)) | None \<Rightarrow> Some (False, iter_at fs base i))"
  using assms(3)
proof (induction "n - k" arbitrary: k)
  case (Suc d)
  let ?p = "(i + k) mod n"
  have p: "?p < n" using assms(2) by simp
  have s: "Suc ?p mod n = (i + Suc k) mod n" by (simp add: mod_Suc_eq)
  have u: "[k..<n] = k # [Suc k..<n]" using Suc.prems by (rule upt_conv_Cons)
  show ?case
  proof (cases "P (fs ! ?p)")
    case True
    then show ?thesis unfolding u by (subst find_loop.simps) simp
  next
    case False
    have step: "find_loop P i (iter_at fs base ?p) =
        (if (i + Suc k) mod n \<noteq> i then find_loop P i (iter_at fs base ((i + Suc k) mod n))
         else Some (False, iter_at fs base ((i + Suc k) mod n)))"
      using False by (subst find_loop.simps) (simp add: next_at [OF assms(1) p] s)
    show ?thesis
    proof (cases "Suc k < n")
      case True
      have "(i + Suc k) mod n \<noteq> i"
      proof (cases "i + Suc k < n")
        case False
        then have "(i + Suc k) mod n = i + Suc k - n" using True assms(2) by (simp add: le_mod_geq)
        then show ?thesis using False True by simp
      qed simp
      with step Suc.hyps(1) [of "Suc k"] Suc.hyps(2) True False u show ?thesis by simp
    next
      case last: False
      then have "Suc k = n" using Suc.prems by simp
      then have "(i + Suc k) mod n = i" using assms(2) by simp
      with step False u last show ?thesis by simp
    qed
  qed
qed simp

text \<open>
  From any field of a message the search for a tag ends, and gives the first field with the tag in
  cyclic order that is not the extension placeholder, with the addresses and the count of required
  fields which belong to that field, whatever the walk was; if there is none, it is back where it began.
\<close>

theorem pb_field_iter_find_exact:
  assumes "message_fields fs n" "i < n"
  shows "pb_field_iter_find (iter_at fs base i) t =
    (case find (\<lambda>k. tag (fs ! ((i + k) mod n)) = t \<and> PB_LTYPE (ftype (fs ! ((i + k) mod n))) \<noteq> PB_LTYPE_EXTENSION) [0..<n] of
       Some k \<Rightarrow> Some (True, iter_at fs base ((i + k) mod n)) | None \<Rightarrow> Some (False, iter_at fs base i))"
  using find_loop_at [OF assms, of 0 "\<lambda>f. tag f = t \<and> PB_LTYPE (ftype f) \<noteq> PB_LTYPE_EXTENSION" base] assms(2)
  by (simp add: pb_field_iter_find_def)

definition sample_fields :: "pb_field list" where
  "sample_fields =
     [\<lparr>tag = 1, ftype = 0x02, data_offset = 0, size_offset = 0, data_size = 4, array_size = 0\<rparr>,
      \<lparr>tag = 3, ftype = 0x22, data_offset = 4, size_offset = - 4, data_size = 8, array_size = 3\<rparr>,
      \<lparr>tag = 5, ftype = 0x31, data_offset = 4, size_offset = - 4, data_size = 8, array_size = 0\<rparr>,
      \<lparr>tag = 6, ftype = 0x37, data_offset = - 1, size_offset = - 4, data_size = 16, array_size = 0\<rparr>,
      \<lparr>tag = 0, ftype = 0, data_offset = 0, size_offset = 0, data_size = 0, array_size = 0\<rparr>]"

lemma message_fields_sample: "message_fields sample_fields 4"
proof -
  have "\<forall>i\<in>set [0..<4]. tag (sample_fields ! i) \<noteq> 0" by code_simp
  moreover have "4 < length sample_fields" "tag (sample_fields ! 4) = 0" by code_simp+
  ultimately show ?thesis by (simp add: message_fields_def)
qed

theorem pb_field_iter_find_exact_witness:
  "map_option (map_prod id pos) (pb_field_iter_find (iter_at sample_fields 1000 3) 3) = Some (True, 1) \<and>
   map_option (map_prod id pData) (pb_field_iter_find (iter_at sample_fields 1000 3) 3) = Some (True, 1008) \<and>
   map_option (map_prod id pos) (pb_field_iter_find (iter_at sample_fields 1000 2) 4) = Some (False, 2)"
proof -
  have "pb_field_iter_find (iter_at sample_fields 1000 3) 3 = Some (True, iter_at sample_fields 1000 1)"
    unfolding pb_field_iter_find_exact [OF message_fields_sample, of 3, simplified] by code_simp
  moreover have "pb_field_iter_find (iter_at sample_fields 1000 2) 4 = Some (False, iter_at sample_fields 1000 2)"
    unfolding pb_field_iter_find_exact [OF message_fields_sample, of 2, simplified] by code_simp
  moreover have "pData (iter_at sample_fields 1000 1) = 1008" by code_simp
  ultimately show ?thesis by simp
qed

text \<open>
  The descriptors of an empty message are the terminator alone, whose tag is zero: a field with the tag
  zero is found there.
\<close>

lemma pb_field_iter_find_terminator:
  assumes "message_fields fs 0" "PB_LTYPE (ftype (fs ! 0)) \<noteq> PB_LTYPE_EXTENSION"
  shows "pb_field_iter_find (iter_at fs base 0) 0 = Some (True, iter_at fs base 0)"
  using assms by (simp add: pb_field_iter_find_def find_loop.simps message_fields_def)

end
