(* ===== verification/Pb_Arrays.thy ===== *)
theory Pb_Arrays
  imports Pb_Codec Pb_Fields
begin

text \<open>
  Arrays of scalars of \<open>nanopb\<close>: what \<open>encode_array\<close> writes, and that \<open>decode_static_field\<close> reads a packed
  array back, for any pair of functions that meets the contract \<open>wire_codec\<close>; then the six packable types.
\<close>

section \<open>Writing an array\<close>

lemma emits_encode_items:
  assumes "\<And>v. v \<in> set vs \<Longrightarrow> emits (func v) (wire v)"
  shows "emits (encode_items func vs) (concat (map wire vs))"
  using assms
proof (induction vs)
  case Nil
  then show ?case by (simp add: emits_returnR)
next
  case (Cons v vs)
  then show ?case by (simp add: emits_bindR)
qed

lemma emits_eq:
  assumes "emits w bs" "\<And>s. bytes_written s + length bs < SIZE_LIMIT \<Longrightarrow> w' s = w s"
  shows "emits w' bs"
  using assms by (simp add: emits_def)

lemma emits_sizing_branch:
  assumes "emits w bs"
  shows "emits (\<lambda>stream. if o_callback stream = None then pb_write [] (length bs) stream else w stream) bs"
  using assms by (auto simp: emits_def writable_def pb_write_def)

definition packed_wire :: "u32 \<Rightarrow> bytes \<Rightarrow> bytes" where
  "packed_wire t body = wire_tag PB_WT_STRING t @ uleb (length body) @ body"

definition items_wire :: "('v \<Rightarrow> bytes) \<Rightarrow> 'v list \<Rightarrow> bytes" where
  "items_wire wire vs = concat (map wire vs)"

context wire_codec begin

lemma packed_size_body:
  assumes "\<forall>v\<in>set vs. ok v" "length (items_wire wire vs) < SIZE_LIMIT"
    and "PB_LTYPE (ftype field) = PB_LTYPE_FIXED32 \<Longrightarrow> \<forall>v\<in>set vs. length (wire v) = 4"
    and "PB_LTYPE (ftype field) = PB_LTYPE_FIXED64 \<Longrightarrow> \<forall>v\<in>set vs. length (wire v) = 8"
  shows "packed_size field vs enc st = Some (length (items_wire wire vs))"
proof -
  have c: "\<forall>v\<in>set vs. length (wire v) = c \<Longrightarrow> length (items_wire wire vs) = c * length vs" for c
    by (induction vs) (simp_all add: items_wire_def)
  have "emits (encode_items enc vs) (items_wire wire vs)" unfolding items_wire_def using assms(1) writes by (intro emits_encode_items) simp
  then have "encode_items enc vs (PB_OSTREAM_SIZING st) = (Some (), (PB_OSTREAM_SIZING st)\<lparr>bytes_written := length (items_wire wire vs)\<rparr>)"
    using emitsD(3) [of "encode_items enc vs" "items_wire wire vs" "PB_OSTREAM_SIZING st"] assms(2) by (simp add: PB_OSTREAM_SIZING_def)
  then show ?thesis using c [of 4] c [of 8] assms(2-4) by (auto simp: packed_size_def)
qed

lemma emits_packed:
  assumes "\<forall>v\<in>set vs. ok v" "vs \<noteq> []" "length vs \<le> unat (array_size field)"
    and "PB_LTYPE (ftype field) \<le> PB_LTYPE_LAST_PACKABLE"
    and "PB_LTYPE (ftype field) = PB_LTYPE_FIXED32 \<Longrightarrow> \<forall>v\<in>set vs. length (wire v) = 4"
    and "PB_LTYPE (ftype field) = PB_LTYPE_FIXED64 \<Longrightarrow> \<forall>v\<in>set vs. length (wire v) = 8"
  shows "emits (encode_array field vs enc) (packed_wire (tag field) (items_wire wire vs))"
proof -
  let ?w = "bindR (pb_encode_varint (word_of_nat (length (items_wire wire vs)))) (\<lambda>_ stream.
      if o_callback stream = None then pb_write [] (length (items_wire wire vs)) stream else encode_items enc vs stream)"
  have i: "emits (encode_items enc vs) (items_wire wire vs)" unfolding items_wire_def using assms(1) writes by (intro emits_encode_items) simp
  have t: "emits (pb_encode_tag PB_WT_STRING (tag field)) (wire_tag PB_WT_STRING (tag field))"
    by (rule emits_pb_encode_tag) (simp add: PB_WT_STRING_def)
  have w: "emits ?w (uleb (length (items_wire wire vs)) @ items_wire wire vs)" if "length (items_wire wire vs) < SIZE_LIMIT"
  proof -
    have "unat (word_of_nat (length (items_wire wire vs)) :: u64) = length (items_wire wire vs)" unfolding unat_of_nat using that by simp
    with varint.writes [of "word_of_nat (length (items_wire wire vs))"] emits_bindR [OF _ emits_sizing_branch [OF i]]
    show ?thesis by simp
  qed
  show ?thesis
  proof (cases "length (items_wire wire vs) < SIZE_LIMIT")
    case True
    let ?v = "bindR (pb_encode_tag PB_WT_STRING (tag field)) (\<lambda>_. ?w)"
    have v: "emits ?v (packed_wire (tag field) (items_wire wire vs))" unfolding packed_wire_def by (rule emits_bindR [OF t w [OF True]])
    have e: "encode_array field vs enc = ?v"
      using assms(2,3,4) packed_size_body [OF assms(1) True assms(5,6)] by (simp add: encode_array_def)
    show ?thesis unfolding e by (rule v)
  next
    case False
    then show ?thesis by (simp add: emits_def packed_wire_def)
  qed
qed

section \<open>Reading a packed array\<close>

lemma packed_loop_body:
  assumes "\<forall>v\<in>set vs. ok v" "buffered s" "view s = items_wire wire vs"
    and "unat (size_field m) + length vs \<le> unat (array_size field)" "unat (array_size field) \<le> length (entries m)"
  shows "packed_loop field (\<lambda>_. dec) m s =
    (Some (m\<lparr>entries := store_at (entries m) (unat (size_field m)) (map seen vs), size_field := size_field m + word_of_nat (length vs)\<rparr>),
     advance (length (items_wire wire vs)) s)"
  using assms
proof (induction vs arbitrary: m s)
  case Nil
  then have "bytes_left s = 0" using length_view [of s] by (simp add: items_wire_def)
  with Nil show ?case by (subst packed_loop.simps) (simp add: items_wire_def)
next
  case (Cons v vs)
  let ?i = "unat (size_field m)"
  let ?m = "m\<lparr>entries := (entries m)[?i := seen v], size_field := size_field m + 1\<rparr>" and ?s = "advance (length (wire v)) s"
  have b: "items_wire wire (v # vs) = wire v @ items_wire wire vs" by (simp add: items_wire_def)
  have "wire v \<noteq> []" using wire_not_Nil Cons.prems(1) by simp
  then have "bytes_left s > 0" using length_view [OF Cons.prems(2)] Cons.prems(3) b by (cases "wire v") auto
  moreover have lt: "size_field m < array_size field" using Cons.prems(4) by (simp add: word_less_nat_alt)
  moreover have "dec s = (Some (seen v), ?s)" using reads [of v s "items_wire wire vs"] Cons.prems(1-3) b by simp
  ultimately have "packed_loop field (\<lambda>_. dec) m s = packed_loop field (\<lambda>_. dec) ?m ?s"
    by (subst packed_loop.simps) (simp add: decode_entry_def returnR_def)
  also have "\<dots> = (Some (?m\<lparr>entries := store_at (entries ?m) (unat (size_field ?m)) (map seen vs),
      size_field := size_field ?m + word_of_nat (length vs)\<rparr>), advance (length (items_wire wire vs)) ?s)"
    using Cons.prems b size_field_step [OF lt] by (intro Cons.IH) simp_all
  also have "store_at (entries ?m) (unat (size_field ?m)) (map seen vs) = store_at (entries m) ?i (map seen (v # vs))"
    using Cons.prems(4,5) size_field_step [OF lt] by (simp add: store_at_def upd_conv_take_nth_drop add.commute)
  finally show ?case using b by (simp add: ac_simps)
qed

lemma packed_roundtrip:
  assumes "\<forall>v\<in>set vs. ok v" "length (items_wire wire vs) < 2 ^ 32"
    and "buffered s" "view s = uleb (length (items_wire wire vs)) @ items_wire wire vs @ rest"
    and "PB_HTYPE (ftype field) = PB_HTYPE_REPEATED" "PB_LTYPE (ftype field) \<le> PB_LTYPE_LAST_PACKABLE"
    and "unat (size_field m) + length vs \<le> unat (array_size field)" "unat (array_size field) \<le> length (entries m)"
  shows "decode_static_field field cleared (\<lambda>_. dec) PB_WT_STRING m s =
    (Some (m\<lparr>entries := store_at (entries m) (unat (size_field m)) (map seen vs), size_field := size_field m + word_of_nat (length vs)\<rparr>),
     advance (length (uleb (length (items_wire wire vs)) @ items_wire wire vs)) s)"
proof -
  let ?n = "length (items_wire wire vs)"
  let ?t = "advance (length (uleb ?n)) s"
  let ?sub = "?t\<lparr>bytes_left := ?n\<rparr>" and ?rest = "?t\<lparr>bytes_left := bytes_left ?t - ?n\<rparr>"
  have t: "buffered ?t" "view ?t = items_wire wire vs @ rest" using assms(3,4) by simp_all
  then have left: "?n \<le> bytes_left ?t" using length_view [OF t(1)] by simp
  have n: "unat (word_of_nat ?n :: u32) = ?n" unfolding unat_of_nat using assms(2) by simp
  have "pb_decode_varint32 s = (Some (word_of_nat ?n), ?t)" by (rule pb_decode_varint32_uleb [OF assms(2-4)])
  then have make: "pb_make_string_substream s = (Some ?sub, ?rest)"
    unfolding pb_make_string_substream_def using left n by simp
  have "buffered ?sub" using t(1) left by (simp add: buffered_def)
  moreover have "view ?sub = take ?n (view ?t)" using left by (simp add: view_def min_absorb1)
  then have "view ?sub = items_wire wire vs" unfolding t(2) by simp
  ultimately have sub: "buffered ?sub" "view ?sub = items_wire wire vs" by blast+
  note loop = packed_loop_body [OF assms(1) sub assms(7,8)]
  have "advance ?n ?t = ?rest\<lparr>i_state := i_state (advance ?n ?sub), i_errmsg := i_errmsg (advance ?n ?sub)\<rparr>"
    by (simp add: advance_def)
  then have close: "pb_close_string_substream (advance ?n ?sub) ?rest = (Some (), advance ?n ?t)"
    by (simp add: pb_close_string_substream_def) (simp add: advance_def)
  have h: "PB_HTYPE_REPEATED \<noteq> PB_HTYPE_REQUIRED" "PB_HTYPE_REPEATED \<noteq> PB_HTYPE_OPTIONAL"
    by (simp_all add: PB_HTYPE_REPEATED_def PB_HTYPE_REQUIRED_def PB_HTYPE_OPTIONAL_def)
  have "bytes_left (advance ?n ?sub) = 0" by (simp add: advance_def)
  then have "(case packed_loop field (\<lambda>_. dec) m ?sub of (r, substream) \<Rightarrow>
      if bytes_left substream \<noteq> 0 then i_error ''array overflow'' ?rest
      else bindR (pb_close_string_substream substream) (\<lambda>_ stream. (r, stream)) ?rest) =
    (Some (m\<lparr>entries := store_at (entries m) (unat (size_field m)) (map seen vs), size_field := size_field m + word_of_nat (length vs)\<rparr>),
     advance ?n ?t)"
    unfolding loop by (simp add: bindR_def close del: advance_advance)
  moreover have "advance ?n ?t = advance (length (uleb ?n @ items_wire wire vs)) s" by simp
  ultimately show ?thesis
    using assms(5,6) h by (simp only: decode_static_field_def Let_def bindR_def make case_prod_conv option.case simp_thms if_True if_False)
qed

end

end
