(* ===== verification/Pb_Scalars.thy ===== *)
theory Pb_Scalars
  imports Pb_Arrays
begin

text \<open>
  The packable types of \<open>nanopb\<close>: for each entry of the tables of encoders and decoders the bytes of a
  member, and that it is read back as the member was, extended to 64 bits.
\<close>

section \<open>Integers of a member\<close>

lemma zero_extend_again: "zero_extend_bytes n v = Some x \<Longrightarrow> zero_extend_bytes n x = Some x"
  by (auto simp: zero_extend_bytes_def split: if_splits intro!: bit_word_eqI simp: bit_simps)

lemma sign_extend_again: "sign_extend_bytes n v = Some x \<Longrightarrow> sign_extend_bytes n x = Some x"
  by (auto simp: sign_extend_bytes_def split: if_splits intro!: bit_word_eqI simp: bit_simps)

lemma sign_extend_32: "sign_extend_bytes n v = Some x \<Longrightarrow> n \<noteq> 8 \<Longrightarrow> scast (ucast x :: u32) = x"
proof -
  have "min 15 (min 31 k) = min 15 k" "min 7 (min 31 k) = min 7 k" for k :: nat by simp_all
  then show "sign_extend_bytes n v = Some x \<Longrightarrow> n \<noteq> 8 \<Longrightarrow> scast (ucast x :: u32) = x"
    by (auto simp: sign_extend_bytes_def min_less_iff_disj split: if_splits intro!: bit_word_eqI simp: bit_simps)
qed

definition zext :: "nat \<Rightarrow> u64 \<Rightarrow> u64" where
  "zext n v = the (zero_extend_bytes n v)"

definition sext :: "nat \<Rightarrow> u64 \<Rightarrow> u64" where
  "sext n v = the (sign_extend_bytes n v)"

definition member_size :: "nat \<Rightarrow> bool" where
  "member_size n \<longleftrightarrow> n = 1 \<or> n = 2 \<or> n = 4 \<or> n = 8"

lemma extend_member:
  assumes "member_size n"
  shows "zero_extend_bytes n v = Some (zext n v)" "sign_extend_bytes n v = Some (sext n v)"
  using assms by (auto simp: member_size_def zext_def sext_def zero_extend_bytes_def sign_extend_bytes_def)

interpretation pb_uvarint: wire_codec "pb_enc_uvarint n" "pb_dec_uvarint n" "\<lambda>v. uleb (unat (zext n v))" "zext n" "\<lambda>_. member_size n"
  for n
proof unfold_locales
  fix v :: u64
  assume n: "member_size n"
  show "emits (pb_enc_uvarint n v) (uleb (unat (zext n v)))"
    using varint.writes by (simp add: pb_enc_uvarint_def with_data_size_def extend_member [OF n])
  fix s rest
  assume s: "buffered s" "view s = uleb (unat (zext n v)) @ rest"
  note d = varint.reads [OF TrueI s]
  have "zero_extend_bytes n (zext n v) = Some (zext n v)" by (rule zero_extend_again [OF extend_member(1) [OF n]])
  then show "pb_dec_uvarint n s = (Some (zext n v), advance (length (uleb (unat (zext n v)))) s)"
    by (simp add: pb_dec_uvarint_def bindR_def d store_clamped_def returnR_def)
qed simp

interpretation pb_varint: wire_codec "pb_enc_varint n" "pb_dec_varint n" "\<lambda>v. uleb (unat (sext n v))" "sext n" "\<lambda>_. member_size n"
  for n
proof unfold_locales
  fix v :: u64
  assume n: "member_size n"
  show "emits (pb_enc_varint n v) (uleb (unat (sext n v)))"
    using varint.writes by (simp add: pb_enc_varint_def with_data_size_def extend_member [OF n])
  fix s rest
  assume s: "buffered s" "view s = uleb (unat (sext n v)) @ rest"
  note d = varint.reads [OF TrueI s]
  have "sign_extend_bytes n (sext n v) = Some (sext n v)" by (rule sign_extend_again [OF extend_member(2) [OF n]])
  moreover have "(if n = 8 then sext n v else scast (ucast (sext n v) :: u32)) = sext n v"
    using sign_extend_32 [OF extend_member(2) [OF n], of v] by simp
  ultimately have "pb_dec_varint n s = store_clamped (Some (sext n v)) (sext n v) (advance (length (uleb (unat (sext n v)))) s)"
    by (simp only: pb_dec_varint_def bindR_def d Let_def case_prod_conv option.case)
  then show "pb_dec_varint n s = (Some (sext n v), advance (length (uleb (unat (sext n v)))) s)"
    by (simp add: store_clamped_def returnR_def)
qed simp

interpretation pb_svarint: wire_codec "pb_enc_svarint n" "pb_dec_svarint n" "\<lambda>v. wire_svarint (sext n v)" "sext n" "\<lambda>_. member_size n"
  for n
proof unfold_locales
  fix v :: u64
  assume n: "member_size n"
  show "emits (pb_enc_svarint n v) (wire_svarint (sext n v))"
    using svarint.writes by (simp add: pb_enc_svarint_def with_data_size_def extend_member [OF n])
  show "wire_svarint (sext n v) \<noteq> []" by (rule svarint.wire_not_Nil) simp
  fix s rest
  assume s: "buffered s" "view s = wire_svarint (sext n v) @ rest"
  note d = svarint.reads [OF TrueI s]
  have "sign_extend_bytes n (sext n v) = Some (sext n v)" by (rule sign_extend_again [OF extend_member(2) [OF n]])
  then show "pb_dec_svarint n s = (Some (sext n v), advance (length (wire_svarint (sext n v))) s)"
    by (simp add: pb_dec_svarint_def bindR_def d store_clamped_def returnR_def)
qed

section \<open>The tables\<close>

text \<open>The value of a member, extended to 64 bits as its type is, and its bytes.\<close>

definition scalar_value :: "pb_field \<Rightarrow> u64 \<Rightarrow> u64" where
  "scalar_value f v =
     (let l = PB_LTYPE (ftype f); n = unat (data_size f) in
      if l = PB_LTYPE_BOOL then if (ucast v :: u8) \<noteq> 0 then 1 else 0
      else if l = PB_LTYPE_UVARINT then zext n v
      else if l = PB_LTYPE_FIXED32 then ucast (ucast v :: u32)
      else if l = PB_LTYPE_FIXED64 then v
      else sext n v)"

definition scalar_wire :: "pb_field \<Rightarrow> u64 \<Rightarrow> bytes" where
  "scalar_wire f v =
     (let l = PB_LTYPE (ftype f); n = unat (data_size f) in
      if l = PB_LTYPE_BOOL then wire_bool (ucast v)
      else if l = PB_LTYPE_UVARINT then uleb (unat (zext n v))
      else if l = PB_LTYPE_FIXED32 then le32 (ucast v)
      else if l = PB_LTYPE_FIXED64 then le64 v
      else if l = PB_LTYPE_SVARINT then wire_svarint (sext n v)
      else uleb (unat (sext n v)))"

definition packable :: "pb_field \<Rightarrow> bool" where
  "packable f \<longleftrightarrow> PB_LTYPE (ftype f) \<le> PB_LTYPE_LAST_PACKABLE \<and> member_size (unat (data_size f))"

lemma packable_cases:
  assumes "packable f"
  shows "PB_LTYPE (ftype f) = PB_LTYPE_BOOL \<or> PB_LTYPE (ftype f) = PB_LTYPE_VARINT \<or> PB_LTYPE (ftype f) = PB_LTYPE_UVARINT \<or>
    PB_LTYPE (ftype f) = PB_LTYPE_SVARINT \<or> PB_LTYPE (ftype f) = PB_LTYPE_FIXED32 \<or> PB_LTYPE (ftype f) = PB_LTYPE_FIXED64"
proof -
  let ?l = "PB_LTYPE (ftype f)"
  have "unat ?l \<le> 5" using assms by (simp add: packable_def PB_LTYPE_LAST_PACKABLE_def word_le_nat_alt)
  then have "unat ?l = 0 \<or> unat ?l = 1 \<or> unat ?l = 2 \<or> unat ?l = 3 \<or> unat ?l = 4 \<or> unat ?l = 5" by linarith
  then show ?thesis
    by (auto simp: PB_LTYPE_BOOL_def PB_LTYPE_VARINT_def PB_LTYPE_UVARINT_def PB_LTYPE_SVARINT_def PB_LTYPE_FIXED32_def
      PB_LTYPE_FIXED64_def dest!: unat_eq_word_of_nat)
qed

lemmas ltype_defs = PB_LTYPE_BOOL_def PB_LTYPE_VARINT_def PB_LTYPE_UVARINT_def PB_LTYPE_SVARINT_def PB_LTYPE_FIXED32_def
  PB_LTYPE_FIXED64_def

lemma wire_codec_scalar:
  assumes "packable f"
  shows "wire_codec (PB_ENCODERS f) (PB_DECODERS f d) (scalar_wire f) (scalar_value f) (\<lambda>_. True)"
proof -
  have n: "member_size (unat (data_size f))" using assms by (simp add: packable_def)
  note d = PB_ENCODERS_def PB_DECODERS_def scalar_wire_def scalar_value_def Let_def ltype_defs
  show ?thesis
    using packable_cases [OF assms]
  proof (elim disjE)
    assume l: "PB_LTYPE (ftype f) = PB_LTYPE_BOOL"
    show ?thesis
      by unfold_locales (auto simp: d l pb_bool.writes pb_bool.reads pb_bool.wire_not_Nil returnR_def bindR_def)
  next
    assume l: "PB_LTYPE (ftype f) = PB_LTYPE_VARINT"
    show ?thesis using n by unfold_locales (auto simp: d l pb_varint.writes pb_varint.reads pb_varint.wire_not_Nil)
  next
    assume l: "PB_LTYPE (ftype f) = PB_LTYPE_UVARINT"
    show ?thesis using n by unfold_locales (auto simp: d l pb_uvarint.writes pb_uvarint.reads pb_uvarint.wire_not_Nil)
  next
    assume l: "PB_LTYPE (ftype f) = PB_LTYPE_SVARINT"
    show ?thesis using n by unfold_locales (auto simp: d l pb_svarint.writes pb_svarint.reads pb_svarint.wire_not_Nil)
  next
    assume l: "PB_LTYPE (ftype f) = PB_LTYPE_FIXED32"
    show ?thesis
      by unfold_locales (auto simp: d l fixed32.writes fixed32.reads fixed32.wire_not_Nil returnR_def bindR_def)
  next
    assume l: "PB_LTYPE (ftype f) = PB_LTYPE_FIXED64"
    show ?thesis by unfold_locales (auto simp: d l fixed64.writes fixed64.reads fixed64.wire_not_Nil)
  qed
qed

end
