(* ===== verification/Pb_Props.thy ===== *)
theory Pb_Props
  imports Pb_Scalars
begin

text \<open>
  Fields on the wire: packed arrays are read back as they were written, a field of any wire type is
  skipped exactly, and what the reader of 32-bit varints does with too many bytes.
\<close>

section \<open>Packed arrays\<close>

lemma PB_DECODERS_const: "PB_DECODERS f = (\<lambda>_. PB_DECODERS f 0)"
  by (rule ext) (simp add: PB_DECODERS_def)

lemma store_at_0: "length vs \<le> length xs \<Longrightarrow> take (length vs) (store_at xs 0 vs) = vs \<and> drop (length vs) (store_at xs 0 vs) = drop (length vs) xs"
  by (simp add: store_at_def)

lemma o_state_buffer:
  assumes "emits w bs" "length bs \<le> n" "n < SIZE_LIMIT"
  shows "w (pb_ostream_from_buffer n) = (Some (), (pb_ostream_from_buffer n)\<lparr>o_state := bs, bytes_written := length bs\<rparr>)"
  using emitsD(1) [OF assms(1), of "pb_ostream_from_buffer n"] assms(2,3)
  by (simp add: writable_def pb_ostream_from_buffer_def)

text \<open>
  C40: An array of any of the packable types written with \<open>encode_array\<close> into a buffer that is large
  enough, and read back with \<open>pb_decode_tag\<close> and \<open>decode_static_field\<close> into an array with room for it, gives its
  tag, the values of its members in their order and their number, and all of the bytes are read.
\<close>

theorem packed_array_roundtrip:
  assumes f: "packable f" "PB_HTYPE (ftype f) = PB_HTYPE_REPEATED" "0 < unat (tag f)" "unat (tag f) < 2 ^ 29"
    and vs: "vs \<noteq> []" "length vs \<le> unat (array_size f)"
    and n: "length (packed_wire (tag f) (items_wire (scalar_wire f) vs)) \<le> n" "n < 2 ^ 32"
    and m: "size_field m = 0" "unat (array_size f) \<le> length (entries m)"
  shows "\<exists>t s s' m'. encode_array f vs (PB_ENCODERS f) (pb_ostream_from_buffer n) = (Some (), t) \<and>
    pb_decode_tag (pb_istream_from_buffer (o_state t @ junk) (bytes_written t)) = (Some (tag f, PB_WT_STRING), False, s) \<and>
    decode_static_field f cleared (PB_DECODERS f) PB_WT_STRING m s = (Some m', s') \<and> bytes_left s' = 0 \<and>
    unat (size_field m') = length vs \<and> entries m' = map (scalar_value f) vs @ drop (length vs) (entries m)"
proof -
  note c = wire_codec_scalar [OF f(1), of 0]
  let ?body = "items_wire (scalar_wire f) vs" and ?w = "packed_wire (tag f) (items_wire (scalar_wire f) vs)"
  let ?i = "pb_istream_from_buffer (?w @ junk) (length ?w)"
  let ?s = "advance (length (wire_tag PB_WT_STRING (tag f))) ?i"
  let ?m = "m\<lparr>entries := store_at (entries m) (unat (size_field m)) (map (scalar_value f) vs),
    size_field := size_field m + word_of_nat (length vs)\<rparr>"
  have p: "PB_LTYPE (ftype f) \<le> PB_LTYPE_LAST_PACKABLE" using f(1) by (simp add: packable_def)
  have "PB_LTYPE_FIXED32 \<noteq> PB_LTYPE_FIXED64" "PB_LTYPE_UVARINT \<noteq> PB_LTYPE_FIXED32" "PB_LTYPE_UVARINT \<noteq> PB_LTYPE_FIXED64"
    "PB_LTYPE_BOOL \<noteq> PB_LTYPE_FIXED32" "PB_LTYPE_BOOL \<noteq> PB_LTYPE_FIXED64" by (simp_all add: ltype_defs)
  then have "PB_LTYPE (ftype f) = PB_LTYPE_FIXED32 \<Longrightarrow> \<forall>v\<in>set vs. length (scalar_wire f v) = 4"
    "PB_LTYPE (ftype f) = PB_LTYPE_FIXED64 \<Longrightarrow> \<forall>v\<in>set vs. length (scalar_wire f v) = 8" by (auto simp: scalar_wire_def Let_def)
  then have "emits (encode_array f vs (PB_ENCODERS f)) ?w"
    using wire_codec.emits_packed [OF c _ vs p] by blast
  from o_state_buffer [OF this n(1)] n(2)
  have t: "encode_array f vs (PB_ENCODERS f) (pb_ostream_from_buffer n) =
    (Some (), (pb_ostream_from_buffer n)\<lparr>o_state := ?w, bytes_written := length ?w\<rparr>)" by simp
  have i: "buffered ?i" "view ?i = wire_tag PB_WT_STRING (tag f) @ uleb (length ?body) @ ?body"
    by (simp_all add: packed_wire_def)
  have d: "pb_decode_tag ?i = (Some (tag f, PB_WT_STRING), False, ?s)"
    by (rule pb_decode_tag_wire [OF _ f(3,4) i]) (simp add: PB_WT_STRING_def)
  have body: "length ?body < 2 ^ 32" using n by (simp add: packed_wire_def)
  have s: "buffered ?s" "view ?s = uleb (length ?body) @ ?body @ []" using i by simp_all
  have "unat (size_field m) + length vs \<le> unat (array_size f)" using vs(2) m(1) by simp
  from wire_codec.packed_roundtrip [OF c _ body s f(2) p this m(2)]
  have r: "decode_static_field f cleared (PB_DECODERS f) PB_WT_STRING m ?s = (Some ?m, advance (length (uleb (length ?body) @ ?body)) ?s)"
    by (subst PB_DECODERS_const) blast
  have "bytes_left (advance (length (uleb (length ?body) @ ?body)) ?s) = 0"
    by (simp add: advance_def pb_istream_from_buffer_def packed_wire_def)
  moreover have "unat (array_size f) < 2 ^ 32" using unsigned_less [of "array_size f"] by simp
  then have "length vs < 2 ^ 32" using vs(2) by linarith
  then have "unat (size_field ?m) = length vs" using m(1) by (simp add: unat_of_nat)
  moreover have "entries ?m = map (scalar_value f) vs @ drop (length vs) (entries m)"
    using m(1) by (simp add: store_at_def)
  moreover have "o_state ((pb_ostream_from_buffer n)\<lparr>o_state := ?w, bytes_written := length ?w\<rparr>) = ?w"
    "bytes_written ((pb_ostream_from_buffer n)\<lparr>o_state := ?w, bytes_written := length ?w\<rparr>) = length ?w" by simp_all
  ultimately show ?thesis using t d r by (intro exI conjI) (assumption | simp)+
qed

definition sample_array :: pb_field where
  "sample_array = \<lparr>tag = 4, ftype = 0x23, data_offset = 0, size_offset = - 4, data_size = 2, array_size = 3\<rparr>"

theorem packed_array_roundtrip_witness:
  "\<exists>t s s' m'. encode_array sample_array [0xFFFE, 300] (PB_ENCODERS sample_array) (pb_ostream_from_buffer 16) = (Some (), t) \<and>
    pb_decode_tag (pb_istream_from_buffer (o_state t @ [0]) (bytes_written t)) = (Some (4, PB_WT_STRING), False, s) \<and>
    decode_static_field sample_array 0 (PB_DECODERS sample_array) PB_WT_STRING \<lparr>entries = [7, 7, 7], size_field = 0\<rparr> s = (Some m', s') \<and>
    bytes_left s' = 0 \<and> unat (size_field m') = 2 \<and> entries m' = [- 2, 300, 7]"
proof -
  let ?vs = "[0xFFFE, 300] :: u64 list" and ?m = "\<lparr>entries = [7, 7, 7], size_field = 0\<rparr> :: u64 static_field"
  have f: "packable sample_array" "PB_HTYPE (ftype sample_array) = PB_HTYPE_REPEATED"
      "0 < unat (tag sample_array)" "unat (tag sample_array) < 2 ^ 29" "?vs \<noteq> []" "length ?vs \<le> unat (array_size sample_array)"
    by code_simp+
  have w: "length (packed_wire (tag sample_array) (items_wire (scalar_wire sample_array) ?vs)) \<le> 16" "(16 :: nat) < 2 ^ 32"
    by code_simp+
  have m: "size_field ?m = 0" "unat (array_size sample_array) \<le> length (entries ?m)" by code_simp+
  have v: "map (scalar_value sample_array) ?vs @ drop 2 (entries ?m) = [- 2, 300, 7]" "tag sample_array = 4"
      "length ?vs = 2" by code_simp+
  from packed_array_roundtrip [OF f w m, of "[0]" 0] show ?thesis unfolding v .
qed

section \<open>Skipping a field\<close>

text \<open>The bytes of a field of a wire type, behind its tag.\<close>

definition field_bytes :: "pb_wire_type \<Rightarrow> bytes \<Rightarrow> bool" where
  "field_bytes wt bs \<longleftrightarrow>
     (if wt = PB_WT_VARINT then is_varint bs
      else if wt = PB_WT_64BIT then length bs = 8
      else if wt = PB_WT_32BIT then length bs = 4
      else wt = PB_WT_STRING \<and>
        (\<exists>len content. bs = len @ content \<and> is_varint len \<and> length len \<le> 5 \<and> leb_val len = length content \<and> length content < 2 ^ 32))"

lemma pb_skip_varint_bytes:
  assumes "is_varint bs" "buffered s" "view s = bs @ rest"
  shows "pb_skip_varint s = (Some (), advance (length bs) s)"
  using assms
proof (induction bs arbitrary: s)
  case (Cons b bs)
  have "bytes_left s > 0" using length_view [OF Cons.prems(2)] Cons.prems(3) by simp
  then have rd: "pb_read False 1 s = (Some [b], advance 1 s)"
    using pb_read_buffered(1) [OF Cons.prems(2), of 1] Cons.prems(2,3) by simp
  show ?case
  proof (cases "unat b < 128")
    case True
    then show ?thesis using Cons.prems(1) by (subst pb_skip_varint.simps) (simp add: rd [simplified] and_0x80_eq_0)
  next
    case False
    then have "pb_skip_varint (advance 1 s) = (Some (), advance (length bs) (advance 1 s))"
      using Cons.prems by (intro Cons.IH) simp_all
    then show ?thesis using False by (subst pb_skip_varint.simps) (simp add: rd [simplified] and_0x80_eq_0)
  qed
qed simp

text \<open>
  \<open>pb_skip_field\<close> passes over exactly the bytes of one field of the wire type, a varint of any length, a word,
  or a length and as many bytes, and leaves the stream at the next field.
\<close>

theorem pb_skip_field_exact:
  assumes "buffered s" "view s = bs @ rest" "field_bytes wt bs"
  shows "pb_skip_field wt s = (Some (), advance (length bs) s) \<and> view (advance (length bs) s) = rest"
proof -
  have d: "PB_WT_VARINT \<noteq> PB_WT_STRING" "PB_WT_64BIT \<noteq> PB_WT_STRING" "PB_WT_32BIT \<noteq> PB_WT_STRING"
    "PB_WT_64BIT \<noteq> PB_WT_VARINT" "PB_WT_32BIT \<noteq> PB_WT_VARINT" "PB_WT_32BIT \<noteq> PB_WT_64BIT"
    by (simp_all add: PB_WT_VARINT_def PB_WT_STRING_def PB_WT_64BIT_def PB_WT_32BIT_def)
  have left: "length bs \<le> bytes_left s" using length_view [OF assms(1)] assms(2) by simp
  have word: "bindR (pb_read True n) (\<lambda>_. returnR ()) s = (Some (), advance n s)" if "length bs = n" for n
    using pb_read_buffered(1) [OF assms(1), of n True] assms(1) left that by (simp add: bindR_def returnR_def)
  have string: "pb_skip_string s = (Some (), advance (length bs) s)"
    if len: "bs = len @ content" "is_varint len" "length len \<le> 5" "leb_val len = length content" "length content < 2 ^ 32" for len content
  proof -
    let ?t = "advance (length len) s"
    have "pb_decode_varint32_eof s = (Some (word_of_nat (length content)), False, ?t)"
      using pb_decode_varint32_eof_bytes [OF len(2) assms(1) _ len(3)] assms(2) len(1,4,5) by simp
    then have v: "pb_decode_varint32 s = (Some (word_of_nat (length content)), ?t)" by (simp add: pb_decode_varint32_def)
    have n: "unat (word_of_nat (length content) :: u32) = length content" unfolding unat_of_nat using len(5) by simp
    have "buffered ?t" using assms(1) by simp
    moreover have "length content \<le> bytes_left ?t" using left len(1) by (simp add: advance_def)
    ultimately have "pb_read True (length content) ?t = (Some (take (length content) (view ?t)), advance (length content) ?t)"
      using pb_read_buffered(1) [of ?t "length content" True] length_view [of ?t] by simp
    then show ?thesis using len(1) by (simp only: pb_skip_string_def bindR_def v n case_prod_conv option.case returnR_def) simp
  qed
  have "pb_skip_field wt s = (Some (), advance (length bs) s)"
    using assms(3) pb_skip_varint_bytes [OF _ assms(1,2)] word string d
    by (auto simp: field_bytes_def pb_skip_field_def split: if_splits)
  then show ?thesis using assms(2) by simp
qed

theorem pb_skip_field_exact_witness:
  "map_prod id bytes_left (pb_skip_field PB_WT_STRING (pb_istream_from_buffer [3, 65, 66, 67, 9] 5)) = (Some (), 1)"
proof -
  have "is_varint [3]" "leb_val [3] = 3" by code_simp+
  then have "field_bytes PB_WT_STRING [3, 65, 66, 67]"
    by (simp add: field_bytes_def PB_WT_VARINT_def PB_WT_STRING_def PB_WT_64BIT_def PB_WT_32BIT_def)
      (intro exI [of _ "[3]"] exI [of _ "[65, 66, 67]"], simp)
  moreover have "buffered (pb_istream_from_buffer [3, 65, 66, 67, 9] 5)" by simp
  moreover have "view (pb_istream_from_buffer [3, 65, 66, 67, 9] 5) = [3, 65, 66, 67] @ [9]" by simp
  ultimately have "pb_skip_field PB_WT_STRING (pb_istream_from_buffer [3, 65, 66, 67, 9] 5) =
      (Some (), advance (length [3, 65, 66, 67 :: u8]) (pb_istream_from_buffer [3, 65, 66, 67, 9] 5))"
    using pb_skip_field_exact [of "pb_istream_from_buffer [3, 65, 66, 67, 9] 5" "[3, 65, 66, 67]" "[9]" PB_WT_STRING] by blast
  then show ?thesis by (simp add: advance_def pb_istream_from_buffer_def)
qed

section \<open>Varints of 32 bits that are too long\<close>

text \<open>
  The reader of 32-bit varints rejects \<open>2 ^ 32\<close> in five bytes, but with a sixth byte of padding it drops
  the bit and returns 0; and after 36 bytes of padding its position wraps around, so that the bits of a
  later byte land in the result.
\<close>

theorem pb_decode_varint32_long:
  "leb_val [0x80, 0x80, 0x80, 0x80, 0x10] = 2 ^ 32 \<and>
   fst (pb_decode_varint32 (pb_istream_from_buffer [0x80, 0x80, 0x80, 0x80, 0x10] 5)) = None \<and>
   leb_val [0x80, 0x80, 0x80, 0x80, 0x90, 0x00] = 2 ^ 32 \<and>
   fst (pb_decode_varint32 (pb_istream_from_buffer [0x80, 0x80, 0x80, 0x80, 0x90, 0x00] 6)) = Some 0 \<and>
   leb_val (replicate 37 0x80 @ [1]) = 2 ^ 259 \<and>
   fst (pb_decode_varint32 (pb_istream_from_buffer (replicate 37 0x80 @ [1]) 38)) = Some 8"
proof (intro conjI)
  show "leb_val [0x80, 0x80, 0x80, 0x80, 0x10] = 2 ^ 32" by code_simp
  show "fst (pb_decode_varint32 (pb_istream_from_buffer [0x80, 0x80, 0x80, 0x80, 0x10] 5)) = None" by code_simp
  show "leb_val [0x80, 0x80, 0x80, 0x80, 0x90, 0x00] = 2 ^ 32" by code_simp
  show "fst (pb_decode_varint32 (pb_istream_from_buffer [0x80, 0x80, 0x80, 0x80, 0x90, 0x00] 6)) = Some 0" by code_simp
  show "leb_val (replicate 37 0x80 @ [1]) = 2 ^ 259" by code_simp
  show "fst (pb_decode_varint32 (pb_istream_from_buffer (replicate 37 0x80 @ [1]) 38)) = Some 8" by code_simp
qed

section \<open>Numbers\<close>

lemma length_wire_svarint: "length (wire_svarint v) \<le> 10"
  unfolding wire_svarint_def unat_zigzag [symmetric] by (rule length_uleb_64)

text \<open>
  Every number that is written into a buffer of ten bytes as a varint, a zigzag varint or a fixed
  word is read back from the bytes that were written, whatever follows them, and nothing is left over.
\<close>

theorem pb_number_roundtrip:
  "(\<exists>t s. pb_encode_varint v (pb_ostream_from_buffer 10) = (Some (), t) \<and>
      pb_decode_varint (pb_istream_from_buffer (o_state t @ junk) (bytes_written t)) = (Some v, s) \<and> bytes_left s = 0) \<and>
   (\<exists>t s. pb_encode_svarint v (pb_ostream_from_buffer 10) = (Some (), t) \<and>
      pb_decode_svarint (pb_istream_from_buffer (o_state t @ junk) (bytes_written t)) = (Some v, s) \<and> bytes_left s = 0) \<and>
   (\<exists>t s. pb_encode_fixed32 w (pb_ostream_from_buffer 10) = (Some (), t) \<and>
      pb_decode_fixed32 (pb_istream_from_buffer (o_state t @ junk) (bytes_written t)) = (Some w, s) \<and> bytes_left s = 0) \<and>
   (\<exists>t s. pb_encode_fixed64 v (pb_ostream_from_buffer 10) = (Some (), t) \<and>
      pb_decode_fixed64 (pb_istream_from_buffer (o_state t @ junk) (bytes_written t)) = (Some v, s) \<and> bytes_left s = 0)"
  using varint.write_read [OF TrueI length_uleb_64, of v junk] svarint.write_read [OF TrueI length_wire_svarint, of v junk]
    fixed32.write_read [OF TrueI, of w 10 junk] fixed64.write_read [OF TrueI, of v 10 junk]
  by (intro conjI) (simp_all, blast+)

end
