(* ===== verification/Pb_Message.thy ===== *)
theory Pb_Message
  imports Pb_Iter Pb_Fields
begin

text \<open>
  \<open>nanopb\<close>, the decoding of a message: the loop of \<open>pb_decode_noinit\<close> of \<open>pb_decode.c\<close> over the fields on the
  wire, the unknown ones, the repeated fields of fixed count, and the check of the required fields.
  What stores one field, \<open>decode_field\<close>, and what handles extensions, \<open>decode_extension\<close>, are arguments.
\<close>

section \<open>The loop over the fields\<close>

text \<open>
  A field decoder has the wire type, the iterator, the message and the local variable
  \<open>fixed_count_size\<close>, which it may reach when \<open>pSize\<close> points to it, at the address \<open>size_var\<close>. What a
  failing decoder leaves in the message is not modelled.
\<close>

type_synonym ('s, 'm) field_decoder = "pb_wire_type \<Rightarrow> pb_field_iter \<Rightarrow> 'm \<times> u32 \<Rightarrow> ('s pb_istream, 'm \<times> u32) reader"
type_synonym ('s, 'm) extension_decoder = "u32 \<Rightarrow> pb_wire_type \<Rightarrow> pb_field_iter \<Rightarrow> 'm \<Rightarrow> ('s pb_istream, 'm) reader"

definition PB_MAX_REQUIRED_FIELDS :: nat where
  "PB_MAX_REQUIRED_FIELDS = 64"

record 'm decoding =
  message :: 'm
  d_iter :: pb_field_iter
  fields_seen :: "u32 list"
  extension_range_start :: u32
  fixed_count_field :: "nat option"
  fixed_count_size :: u32

definition fixed_count_incomplete :: "'m decoding \<Rightarrow> bool" where
  "fixed_count_incomplete d =
     (case fixed_count_field d of
        None \<Rightarrow> False
      | Some p \<Rightarrow> fixed_count_size d \<noteq> array_size (start (d_iter d) ! p))"

definition track_fixed_count :: "int \<Rightarrow> 'm decoding \<Rightarrow> ('s pb_istream, 'm decoding) reader" where
  "track_fixed_count size_var d =
     (let it = d_iter d in
      if PB_HTYPE (ftype (current it)) = PB_HTYPE_REPEATED \<and> pSize it = pData it then
        if fixed_count_field d \<noteq> Some (pos it) then
          if fixed_count_incomplete d then i_error ''wrong size for fixed count field''
          else returnR (d\<lparr>fixed_count_field := Some (pos it), fixed_count_size := 0, d_iter := it\<lparr>pSize := size_var\<rparr>\<rparr>)
        else returnR (d\<lparr>d_iter := it\<lparr>pSize := size_var\<rparr>\<rparr>)
      else returnR d)"

definition mark_required :: "'m decoding \<Rightarrow> 'm decoding" where
  "mark_required d =
     (let it = d_iter d; i = required_field_index it in
      if PB_HTYPE (ftype (current it)) = PB_HTYPE_REQUIRED \<and> i < PB_MAX_REQUIRED_FIELDS
      then d\<lparr>fields_seen := (fields_seen d)[i div 32 := fields_seen d ! (i div 32) OR push_bit (i mod 32) 1]\<rparr>
      else d)"

definition decode_known ::
  "int \<Rightarrow> ('s, 'm) field_decoder \<Rightarrow> pb_wire_type \<Rightarrow> 'm decoding \<Rightarrow> ('s pb_istream, 'm decoding) reader" where
  "decode_known size_var decode_field wt d =
     bindR (track_fixed_count size_var d) (\<lambda>d.
       let d = mark_required d in
       bindR (decode_field wt (d_iter d) (message d, fixed_count_size d)) (\<lambda>(m, n).
         returnR (d\<lparr>message := m, fixed_count_size := n\<rparr>)))"

text \<open>\<open>None\<close> stands for a search that does not end.\<close>

definition decode_unknown ::
  "('s, 'm) extension_decoder \<Rightarrow> u32 \<Rightarrow> pb_wire_type \<Rightarrow> 'm decoding \<Rightarrow> 's pb_istream \<Rightarrow>
     ('m decoding option \<times> 's pb_istream) option" where
  "decode_unknown decode_extension t wt d stream =
     (let skip = (\<lambda>d. bindR (pb_skip_field wt) (\<lambda>_. returnR d)) in
      if t \<ge> extension_range_start d then
        case find_extension_field (d_iter d) of
          None \<Rightarrow> None
        | Some (found, it) \<Rightarrow>
            let range = (if found then tag (current it) else - 1);
                d = d\<lparr>d_iter := it, extension_range_start := range\<rparr> in
            if t \<ge> range then
              case decode_extension t wt it (message d) stream of
                (None, stream') \<Rightarrow> Some (None, stream')
              | (Some m, stream') \<Rightarrow>
                  if bytes_left stream \<noteq> bytes_left stream' then Some (Some (d\<lparr>message := m\<rparr>), stream')
                  else Some (skip (d\<lparr>message := m\<rparr>) stream')
            else Some (skip d stream)
      else Some (skip d stream))"

partial_function (option) message_loop ::
  "int \<Rightarrow> ('s, 'm) field_decoder \<Rightarrow> ('s, 'm) extension_decoder \<Rightarrow> 'm decoding \<Rightarrow> 's pb_istream \<Rightarrow>
     ('m decoding option \<times> 's pb_istream) option" where
  "message_loop size_var decode_field decode_extension d stream =
     (if bytes_left stream = 0 then Some (Some d, stream)
      else case pb_decode_tag stream of
             (None, eof, stream) \<Rightarrow> Some (if eof then Some d else None, stream)
           | (Some (t, wt), _, stream) \<Rightarrow>
               (case pb_field_iter_find (d_iter d) t of
                  None \<Rightarrow> None
                | Some (found, it) \<Rightarrow>
                    (case (if found then Some (decode_known size_var decode_field wt (d\<lparr>d_iter := it\<rparr>) stream)
                           else decode_unknown decode_extension t wt (d\<lparr>d_iter := it\<rparr>) stream) of
                       None \<Rightarrow> None
                     | Some (None, stream) \<Rightarrow> Some (None, stream)
                     | Some (Some d, stream) \<Rightarrow> message_loop size_var decode_field decode_extension d stream)))"

declare message_loop.simps [code]

section \<open>The check of the required fields\<close>

partial_function (option) seek_end :: "pb_field_iter \<Rightarrow> (nat \<times> pb_type \<times> pb_field_iter) option" where
  "seek_end it =
     (case pb_field_iter_next it of
        (again, it') \<Rightarrow> if again then seek_end it' else Some (required_field_index it, ftype (current it), it'))"

declare seek_end.simps [code]

definition required_seen :: "u32 list \<Rightarrow> nat \<Rightarrow> bool" where
  "required_seen seen req_field_count \<longleftrightarrow>
     list_all (\<lambda>i. seen ! i = - 1) [0..<req_field_count div 32] \<and>
     (req_field_count mod 32 \<noteq> 0 \<longrightarrow> seen ! (req_field_count div 32) = drop_bit (32 - req_field_count mod 32) (- 1))"

definition pb_decode_noinit ::
  "int \<Rightarrow> ('s, 'm) field_decoder \<Rightarrow> ('s, 'm) extension_decoder \<Rightarrow> pb_field list \<Rightarrow> int \<Rightarrow> 'm \<Rightarrow> 's pb_istream \<Rightarrow>
     ('m option \<times> 's pb_istream) option" where
  "pb_decode_noinit size_var decode_field decode_extension fs dest m stream =
     (let d = \<lparr>message = m, d_iter = snd (pb_field_iter_begin fs dest), fields_seen = [0, 0], extension_range_start = 0,
               fixed_count_field = None, fixed_count_size = 0\<rparr> in
      case message_loop size_var decode_field decode_extension d stream of
        None \<Rightarrow> None
      | Some (None, stream) \<Rightarrow> Some (None, stream)
      | Some (Some d, stream) \<Rightarrow>
          if fixed_count_incomplete d then Some (i_error ''wrong size for fixed count field'' stream)
          else case seek_end (d_iter d) of
                 None \<Rightarrow> None
               | Some (req_field_count, last_type, it) \<Rightarrow>
                   let req_field_count =
                         (if PB_HTYPE last_type = PB_HTYPE_REQUIRED \<and> tag (current it) \<noteq> 0
                          then req_field_count + 1 else req_field_count);
                       req_field_count = min req_field_count PB_MAX_REQUIRED_FIELDS
                   in if req_field_count > 0 \<and> \<not> required_seen (fields_seen d) req_field_count
                      then Some (i_error ''missing required field'' stream)
                      else Some (Some (message d), stream))"

text \<open>\<open>pb_decode\<close> with \<open>pb_message_set_to_defaults\<close> and \<open>pb_release\<close> left out is \<open>pb_decode_noinit\<close>; with a length in front:\<close>

definition pb_decode_delimited_noinit ::
  "int \<Rightarrow> ('s, 'm) field_decoder \<Rightarrow> ('s, 'm) extension_decoder \<Rightarrow> pb_field list \<Rightarrow> int \<Rightarrow> 'm \<Rightarrow> 's pb_istream \<Rightarrow>
     ('m option \<times> 's pb_istream) option" where
  "pb_decode_delimited_noinit size_var decode_field decode_extension fs dest m stream =
     (case pb_make_string_substream stream of
        (None, stream) \<Rightarrow> Some (None, stream)
      | (Some substream, stream) \<Rightarrow>
          (case pb_decode_noinit size_var decode_field decode_extension fs dest m substream of
             None \<Rightarrow> None
           | Some (status, substream) \<Rightarrow>
               (case pb_close_string_substream substream stream of
                  (None, stream) \<Rightarrow> Some (None, stream)
                | (Some _, stream) \<Rightarrow> Some (status, stream))))"

section \<open>Reading never gives bytes back\<close>

definition shrinks :: "('s pb_istream, 'a) reader \<Rightarrow> bool" where
  "shrinks r \<longleftrightarrow> (\<forall>s x s'. r s = (x, s') \<longrightarrow> bytes_left s' \<le> bytes_left s)"

named_theorems shrinks

lemma shrinksD: "shrinks r \<Longrightarrow> r s = (x, s') \<Longrightarrow> bytes_left s' \<le> bytes_left s"
  by (simp add: shrinks_def)

lemma shrinks_returnR [shrinks]: "shrinks (returnR a)"
  by (simp add: shrinks_def returnR_def)

lemma shrinks_i_error [shrinks]: "shrinks (i_error msg)"
  by (simp add: shrinks_def i_error_def)

lemma shrinks_bindR [shrinks]: "shrinks f \<Longrightarrow> (\<And>a. shrinks (g a)) \<Longrightarrow> shrinks (bindR f g)"
  unfolding shrinks_def
proof (intro allI impI)
  fix s x s'
  assume f: "\<forall>s x s'. f s = (x, s') \<longrightarrow> bytes_left s' \<le> bytes_left s"
    and g: "\<And>a. \<forall>s x s'. g a s = (x, s') \<longrightarrow> bytes_left s' \<le> bytes_left s" and b: "bindR f g s = (x, s')"
  obtain y t where y: "f s = (y, t)" by (cases "f s")
  then have t: "bytes_left t \<le> bytes_left s" using f by blast
  show "bytes_left s' \<le> bytes_left s"
  proof (cases y)
    case None
    then show ?thesis using b y t by simp
  next
    case (Some a)
    then have "g a t = (x, s')" using b y by simp
    with g have "bytes_left s' \<le> bytes_left t" by blast
    with t show ?thesis by simp
  qed
qed

lemma shrinks_call_read [shrinks]: "shrinks (call_read n)"
  by (auto simp: shrinks_def call_read_def i_error_def split: option.splits prod.splits)

lemma shrinks_if [shrinks]: "shrinks f \<Longrightarrow> shrinks g \<Longrightarrow> shrinks (\<lambda>s. if P s then f s else g s)"
  by (simp add: shrinks_def)

lemma direct_shrinks: "shrinks (\<lambda>s. if bytes_left s < n then i_error ''end-of-stream'' s else call_read n s)"
  by (intro shrinks)

lemma pb_read_False_shrinks: "pb_read False n s = (x, s') \<Longrightarrow> bytes_left s' \<le> bytes_left s"
  using shrinksD [OF direct_shrinks [of n], of s x s'] by (subst (asm) pb_read.simps) (auto split: if_splits)

lemma pb_read_True_shrinks: "pb_read True n s = (x, s') \<Longrightarrow> bytes_left s' \<le> bytes_left s"
proof (induction n arbitrary: s rule: less_induct)
  case (less n)
  show ?case
  proof (cases "n \<noteq> 0 \<and> \<not> i_is_buffer s \<and> n > 16")
    case True
    obtain y t where y: "pb_read False 16 s = (y, t)" by (cases "pb_read False 16 s")
    then have t: "bytes_left t \<le> bytes_left s" by (rule pb_read_False_shrinks)
    show ?thesis
    proof (cases y)
      case None
      then show ?thesis using less.prems True y t by (subst (asm) pb_read.simps) simp
    next
      case (Some b)
      then have "pb_read True (n - 16) t = (x, s')" using less.prems True y by (subst (asm) pb_read.simps) simp
      from less.IH [OF _ this] True t show ?thesis by simp
    qed
  next
    case False
    then have "pb_read True n s = (if n = 0 then (Some [], s) else if \<not> i_is_buffer s then pb_read False n s
        else if bytes_left s < n then i_error ''end-of-stream'' s else call_read n s)"
      by (subst pb_read.simps) auto
    then show ?thesis
      using less.prems pb_read_False_shrinks [of n s x s'] shrinksD [OF direct_shrinks [of n], of s x s']
      by (auto split: if_splits)
  qed
qed

lemma shrinks_pb_read [shrinks]: "shrinks (pb_read null n)"
  by (cases null) (auto simp: shrinks_def dest: pb_read_True_shrinks pb_read_False_shrinks)

lemma shrinks_pb_readbyte [shrinks]: "shrinks pb_readbyte"
proof -
  have "shrinks (\<lambda>s. if bytes_left s = 0 then i_error ''end-of-stream'' s else bindR (call_read 1) (\<lambda>bs. returnR (bs ! 0)) s)"
    by (intro shrinks)
  then show ?thesis by (simp add: shrinks_def pb_readbyte_def)
qed

lemma varint32_loop_shrinks: "varint32_loop k r s = (x, s') \<Longrightarrow> bytes_left s' \<le> bytes_left s"
proof (induction "bytes_left s" arbitrary: k r s rule: less_induct)
  case less
  obtain y t where y: "pb_readbyte s = (y, t)" by (cases "pb_readbyte s")
  have t: "bytes_left t \<le> bytes_left s" by (rule shrinksD [OF shrinks_pb_readbyte y])
  show ?case
  proof (cases y)
    case None
    then show ?thesis using less.prems y t by (subst (asm) varint32_loop.simps) simp
  next
    case (Some b)
    then have "bytes_left t < bytes_left s" using y pb_readbyte_shorter by blast
    then have IH: "varint32_loop k' r' t = (x, s') \<Longrightarrow> bytes_left s' \<le> bytes_left t" for k' r' using less.hyps by blast
    show ?thesis
      using less.prems y Some t IH
      by (subst (asm) varint32_loop.simps) (auto simp: Let_def i_error_def split: if_splits intro: le_trans)
  qed
qed

lemma varint32_eof_shrinks: "pb_decode_varint32_eof s = (x, e, s') \<Longrightarrow> bytes_left s' \<le> bytes_left s"
  using shrinksD [OF shrinks_pb_readbyte]
  by (auto simp: pb_decode_varint32_eof_def split: option.splits prod.splits if_splits dest!: varint32_loop_shrinks intro: le_trans)

lemma shrinks_varint32 [shrinks]: "shrinks pb_decode_varint32"
  by (auto simp: shrinks_def pb_decode_varint32_def split: prod.splits dest: varint32_eof_shrinks)

lemma pb_decode_tag_shorter:
  assumes "pb_decode_tag s = (Some tw, e, s')"
  shows "bytes_left s' < bytes_left s"
proof -
  obtain v where v: "pb_decode_varint32_eof s = (Some v, e, s')"
    using assms by (auto simp: pb_decode_tag_def split: option.splits prod.splits if_splits)
  then obtain b t where b: "pb_readbyte s = (Some b, t)" by (auto simp: pb_decode_varint32_eof_def split: option.splits prod.splits)
  then have "bytes_left s' \<le> bytes_left t"
    using v by (auto simp: pb_decode_varint32_eof_def split: if_splits prod.splits dest: varint32_loop_shrinks)
  with pb_readbyte_shorter [OF b] show ?thesis by simp
qed

lemma pb_skip_varint_shrinks: "pb_skip_varint s = (x, s') \<Longrightarrow> bytes_left s' \<le> bytes_left s"
proof (induction "bytes_left s" arbitrary: s rule: less_induct)
  case less
  obtain y t where y: "pb_read False 1 s = (y, t)" by (cases "pb_read False 1 s")
  have t: "bytes_left t \<le> bytes_left s" by (rule shrinksD [OF shrinks_pb_read y])
  show ?case
  proof (cases y)
    case None
    then show ?thesis using less.prems y t by (subst (asm) pb_skip_varint.simps) simp
  next
    case (Some b)
    then have "bytes_left t < bytes_left s" using y pb_read_one_shorter by blast
    then have "pb_skip_varint t = (x, s') \<Longrightarrow> bytes_left s' \<le> bytes_left t" using less.hyps by blast
    then show ?thesis
      using less.prems y Some t by (subst (asm) pb_skip_varint.simps) (auto split: if_splits)
  qed
qed

lemma shrinks_pb_skip_field [shrinks]: "shrinks (pb_skip_field wt)"
proof -
  have "shrinks pb_skip_varint" by (auto simp: shrinks_def dest: pb_skip_varint_shrinks)
  then show ?thesis unfolding pb_skip_field_def pb_skip_string_def by (auto intro!: shrinks)
qed

section \<open>The walk of the iterator\<close>

text \<open>An iterator at a field, but for \<open>pSize\<close>, which may be redirected to the local count.\<close>

definition at_field :: "pb_field list \<Rightarrow> int \<Rightarrow> nat \<Rightarrow> pb_field_iter \<Rightarrow> bool" where
  "at_field fs base i it \<longleftrightarrow> (\<exists>p. it = (iter_at fs base i)\<lparr>pSize := p\<rparr>)"

lemma at_field_iter_at [simp]: "at_field fs base i (iter_at fs base i)"
  by (auto simp: at_field_def iter_at_def)

lemma at_field_pSize [simp]: "at_field fs base i it \<Longrightarrow> at_field fs base i (it\<lparr>pSize := p\<rparr>)"
  by (auto simp: at_field_def)

lemma at_field_simps:
  "at_field fs base i it \<Longrightarrow> start it = fs \<and> pos it = i \<and> current it = fs ! i \<and> dest_struct it = base \<and>
     required_field_index it = required_before fs i"
  by (auto simp: at_field_def iter_at_def current_def)

lemma next_at_field:
  assumes "message_fields fs n" "i < n" "at_field fs base i it"
  shows "\<exists>it'. pb_field_iter_next it = (Suc i < n, it') \<and> at_field fs base (Suc i mod n) it'"
proof -
  obtain p where p: "it = (iter_at fs base i)\<lparr>pSize := p\<rparr>" using assms(3) by (auto simp: at_field_def)
  have t: "tag (fs ! i) \<noteq> 0" "i < length fs" using assms by (simp_all add: message_fields_def)
  show ?thesis
  proof (cases "Suc i < n")
    case True
    then have "tag (fs ! Suc i) \<noteq> 0" using assms(1) by (simp add: message_fields_def)
    with True t show ?thesis
      using required_not_oneof [of "ftype (fs ! i)"]
      by (auto simp: p at_field_def pb_field_iter_next_def current_def iter_at_def Let_def same_union_def field_extent_def required_before_Suc)
  next
    case False
    then have "Suc i = n" using assms(2) by simp
    with assms(1) t begin_at [OF assms(1), of base] show ?thesis
      by (auto simp: p at_field_def pb_field_iter_next_def Let_def current_def message_fields_def iter_at_def)
  qed
qed

end
