(* ===== verification/Pb_Required.thy ===== *)
theory Pb_Required
  imports Pb_Message
begin

text \<open>
  The message decoder returns, and accepts a message only when every required field was stored: the
  contract of the field decoder is the locale \<open>message_decoder\<close>, and the bits that record the required
  fields are the invariant of the loop.
\<close>

section \<open>Searches and the end of the walk\<close>

lemma find_loop_at_field:
  assumes "message_fields fs n" "i < n" "k < n" "at_field fs base ((i + k) mod n) it"
  shows "\<exists>found it' j. find_loop P i it = Some (found, it') \<and> j < n \<and> at_field fs base j it' \<and> (found \<longrightarrow> P (fs ! j))"
  using assms(3,4)
proof (induction "n - k" arbitrary: k it)
  case (Suc d)
  let ?p = "(i + k) mod n"
  have p: "?p < n" using assms(2) by simp
  have c: "current it = fs ! ?p" using at_field_simps [OF Suc.prems(2)] by simp
  obtain it' where it': "pb_field_iter_next it = (Suc ?p < n, it')" "at_field fs base (Suc ?p mod n) it'"
    using next_at_field [OF assms(1) p Suc.prems(2)] by blast
  have s: "Suc ?p mod n = (i + Suc k) mod n" by (simp add: mod_Suc_eq)
  have ps: "pos it' = (i + Suc k) mod n" using at_field_simps [OF it'(2)] s by simp
  show ?case
  proof (cases "P (fs ! ?p) \<or> pos it' = i")
    case True
    have "find_loop P i it = Some (if P (fs ! ?p) then (True, it) else (False, it'))"
      using True c it'(1) by (subst find_loop.simps) auto
    moreover have "at_field fs base ((i + Suc k) mod n) it'" "(i + Suc k) mod n < n" using it'(2) s assms(2) by simp_all
    ultimately show ?thesis using Suc.prems(2) p
      by (intro exI [of _ "P (fs ! ?p)"] exI [of _ "if P (fs ! ?p) then it else it'"]
        exI [of _ "if P (fs ! ?p) then ?p else (i + Suc k) mod n"]) simp
  next
    case False
    have "Suc k < n"
    proof (rule ccontr)
      assume "\<not> Suc k < n"
      then have "Suc k = n" using Suc.prems(1) by simp
      then have "(i + Suc k) mod n = i" using assms(2) by simp
      with False ps show False by simp
    qed
    then have "\<exists>found it'' j. find_loop P i it' = Some (found, it'') \<and> j < n \<and> at_field fs base j it'' \<and> (found \<longrightarrow> P (fs ! j))"
      using Suc.hyps(2) it'(2) s by (intro Suc.hyps(1) [of "Suc k"]) simp_all
    then show ?thesis using False c it'(1) by (subst find_loop.simps) simp
  qed
qed simp

lemma find_at_field:
  assumes "message_fields fs n" "i < n" "at_field fs base i it"
  shows "\<exists>found it' j. pb_field_iter_find it t = Some (found, it') \<and> j < n \<and> at_field fs base j it'"
    "\<exists>found it' j. find_extension_field it = Some (found, it') \<and> j < n \<and> at_field fs base j it'"
proof -
  have p: "pos it = i" "at_field fs base ((i + 0) mod n) it" "0 < n" using assms(2,3) at_field_simps [OF assms(3)] by simp_all
  show "\<exists>found it' j. pb_field_iter_find it t = Some (found, it') \<and> j < n \<and> at_field fs base j it'"
    "\<exists>found it' j. find_extension_field it = Some (found, it') \<and> j < n \<and> at_field fs base j it'"
    using find_loop_at_field [OF assms(1,2) p(3,2)] unfolding pb_field_iter_find_def find_extension_field_def p(1) by blast+
qed

lemma seek_end_at_field:
  assumes "message_fields fs n" "i < n" "at_field fs base i it"
  shows "\<exists>it'. seek_end it = Some (required_before fs (n - 1), ftype (fs ! (n - 1)), it') \<and> at_field fs base 0 it'"
  using assms(2,3)
proof (induction "n - i" arbitrary: i it)
  case (Suc d)
  obtain it' where it': "pb_field_iter_next it = (Suc i < n, it')" "at_field fs base (Suc i mod n) it'"
    using next_at_field [OF assms(1) Suc.prems] by blast
  show ?case
  proof (cases "Suc i < n")
    case True
    then have "\<exists>it''. seek_end it' = Some (required_before fs (n - 1), ftype (fs ! (n - 1)), it'') \<and> at_field fs base 0 it''"
      using Suc.hyps(2) it'(2) by (intro Suc.hyps(1) [of "Suc i"]) simp_all
    then show ?thesis using True it'(1) by (subst seek_end.simps) simp
  next
    case False
    then have "n - 1 = i" "Suc i mod n = 0" using Suc.prems(1) by (simp_all add: le_Suc_eq not_less)
    then show ?thesis using False it' at_field_simps [OF Suc.prems(2)] by (subst seek_end.simps) simp
  qed
qed simp

section \<open>The bits of the required fields\<close>

abbreviation required :: "pb_field \<Rightarrow> bool" where
  "required f \<equiv> PB_HTYPE (ftype f) = PB_HTYPE_REQUIRED"

lemma required_before_mono: "i \<le> j \<Longrightarrow> j \<le> length fs \<Longrightarrow> required_before fs i \<le> required_before fs j"
proof (induction j)
  case (Suc j)
  then show ?case by (cases "i = Suc j") (auto simp: required_before_Suc split: if_splits)
qed simp

lemma required_before_less:
  assumes "i < j" "j \<le> length fs" "required (fs ! i)"
  shows "required_before fs i < required_before fs j"
proof -
  have "required_before fs i < required_before fs (Suc i)" using assms by (simp add: required_before_Suc)
  also have "\<dots> \<le> required_before fs j" using assms by (intro required_before_mono) simp_all
  finally show ?thesis .
qed

lemma required_before_inj:
  assumes "required_before fs i = required_before fs j" "required (fs ! i)" "required (fs ! j)" "i < length fs" "j < length fs"
  shows "i = j"
  using assms required_before_less [of i j fs] required_before_less [of j i fs] by (cases i j rule: linorder_cases) simp_all

definition seen_bit :: "u32 list \<Rightarrow> nat \<Rightarrow> bool" where
  "seen_bit seen r \<longleftrightarrow> bit (seen ! (r div 32)) (r mod 32)"

lemma seen_bit_mark:
  assumes "length seen = 2" "i < 64" "r < 64"
  shows "seen_bit (seen[i div 32 := seen ! (i div 32) OR push_bit (i mod 32) 1]) r \<longleftrightarrow> seen_bit seen r \<or> r = i"
proof -
  have d: "i div 32 < 2" using assms(2) by simp
  have e: "r = i \<longleftrightarrow> r div 32 = i div 32 \<and> r mod 32 = i mod 32" by (metis div_mult_mod_eq)
  have b: "bit (push_bit (i mod 32) 1 :: u32) m \<longleftrightarrow> m = i mod 32" if "m < 32" for m
    using that by (auto simp: bit_exp_iff)
  show ?thesis
    using assms(1) d b [of "r mod 32"] unfolding seen_bit_def e by (cases "r div 32 = i div 32") (simp_all add: bit_or_iff)
qed

lemma required_seen_bits:
  assumes "required_seen seen c" "r < c"
  shows "seen_bit seen r"
proof (cases "r div 32 < c div 32")
  case True
  then show ?thesis using assms(1) by (auto simp: required_seen_def list_all_iff seen_bit_def)
next
  case False
  then have d: "r div 32 = c div 32" using assms(2) by (simp add: div_le_mono le_antisym not_less)
  have "r = r div 32 * 32 + r mod 32" "c = c div 32 * 32 + c mod 32" by simp_all
  then have m: "r mod 32 < c mod 32" using assms(2) d by linarith
  then have "seen ! (c div 32) = drop_bit (32 - c mod 32) (- 1)" using assms(1) by (simp add: required_seen_def)
  moreover have "c mod 32 < 32" by simp
  ultimately show ?thesis unfolding seen_bit_def d using m by (simp add: bit_mask_iff)
qed

section \<open>The contract of a field decoder\<close>

text \<open>
  A decoder never gives bytes back. \<open>stored i m\<close> is any fact about the message that decoding the
  field \<open>i\<close> establishes and that nothing destroys, for instance that the field has been assigned.
\<close>

locale message_decoder =
  fixes decode_field :: "('s, 'm) field_decoder"
    and decode_extension :: "('s, 'm) extension_decoder"
    and stored :: "nat \<Rightarrow> 'm \<Rightarrow> bool"
  assumes field_shrinks: "shrinks (decode_field wt it mc)"
    and extension_shrinks: "shrinks (decode_extension t wt it m)"
    and field_stored: "decode_field wt it mc s = (Some (m', c'), s') \<Longrightarrow> stored (pos it) m'"
    and field_keeps: "decode_field wt it (m, c) s = (Some (m', c'), s') \<Longrightarrow> stored i m \<Longrightarrow> stored i m'"
    and extension_keeps: "decode_extension t wt it m s = (Some m', s') \<Longrightarrow> stored i m \<Longrightarrow> stored i m'"
begin

definition loop_inv :: "pb_field list \<Rightarrow> nat \<Rightarrow> int \<Rightarrow> 'm decoding \<Rightarrow> bool" where
  "loop_inv fs n base d \<longleftrightarrow>
     (\<exists>i<n. at_field fs base i (d_iter d)) \<and> length (fields_seen d) = 2 \<and>
     (\<forall>j<n. required (fs ! j) \<and> required_before fs j < 64 \<and> seen_bit (fields_seen d) (required_before fs j) \<longrightarrow> stored j (message d))"

lemma loop_inv_iter: "loop_inv fs n base d \<Longrightarrow> at_field fs base i it \<Longrightarrow> i < n \<Longrightarrow> loop_inv fs n base (d\<lparr>d_iter := it\<rparr>)"
  by (auto simp: loop_inv_def)

lemma track_keeps:
  assumes "track_fixed_count size_var d s = (Some d', s')" "at_field fs base i (d_iter d)"
  shows "at_field fs base i (d_iter d') \<and> message d' = message d \<and> fields_seen d' = fields_seen d \<and> s' = s"
  using assms by (auto simp: track_fixed_count_def Let_def returnR_def i_error_def split: if_splits)

lemma decode_known_inv:
  assumes "decode_known size_var decode_field wt d s = (Some d', s')" "loop_inv fs n base d" "message_fields fs n"
  shows "loop_inv fs n base d'"
proof -
  obtain i where i: "i < n" "at_field fs base i (d_iter d)" using assms(2) by (auto simp: loop_inv_def)
  have fs: "j < n \<Longrightarrow> j < length fs" for j using assms(3) by (simp add: message_fields_def)
  obtain d1 s1 where d1: "track_fixed_count size_var d s = (Some d1, s1)"
      and dec: "bindR (decode_field wt (d_iter (mark_required d1)) (message (mark_required d1), fixed_count_size (mark_required d1)))
        (\<lambda>(m, n). returnR (mark_required d1\<lparr>message := m, fixed_count_size := n\<rparr>)) s1 = (Some d', s')"
    using assms(1) unfolding decode_known_def Let_def by (rule bindR_eq_SomeE)
  let ?d = "mark_required d1"
  have t: "at_field fs base i (d_iter d1)" "message d1 = message d" "fields_seen d1 = fields_seen d"
    using track_keeps [OF d1 i(2)] by simp_all
  have m: "d_iter ?d = d_iter d1" "message ?d = message d" using t(2) by (simp_all add: mark_required_def Let_def)
  have p: "pos (d_iter d1) = i" "current (d_iter d1) = fs ! i" "required_field_index (d_iter d1) = required_before fs i"
    using at_field_simps [OF t(1)] by simp_all
  obtain mc s2 where f0: "decode_field wt (d_iter ?d) (message ?d, fixed_count_size ?d) s1 = (Some mc, s2)"
      and r: "(case mc of (m, n) \<Rightarrow> returnR (?d\<lparr>message := m, fixed_count_size := n\<rparr>)) s2 = (Some d', s')"
    using dec by (rule bindR_eq_SomeE)
  obtain m' c' where mc: "mc = (m', c')" by (cases mc)
  have f: "decode_field wt (d_iter d1) (message d, fixed_count_size ?d) s1 = (Some (m', c'), s2)"
    using f0 unfolding mc m .
  have d': "d' = ?d\<lparr>message := m', fixed_count_size := c'\<rparr>" using r by (simp add: mc returnR_def)
  have len: "length (fields_seen ?d) = 2" using assms(2) t(3) by (simp add: loop_inv_def mark_required_def Let_def)
  have "stored j m'" if j: "j < n" "required (fs ! j)" "required_before fs j < 64"
      "seen_bit (fields_seen ?d) (required_before fs j)" for j
  proof (cases "j = i")
    case True
    then show ?thesis using field_stored [OF f] p(1) by simp
  next
    case False
    have "seen_bit (fields_seen d) (required_before fs j)"
    proof (cases "required (fs ! i) \<and> required_before fs i < 64")
      case True
      then have "required_before fs j \<noteq> required_before fs i"
        using required_before_inj [of fs j i] j(1,2) fs i(1) False by auto
      moreover have "fields_seen ?d = (fields_seen d)[required_before fs i div 32 :=
          fields_seen d ! (required_before fs i div 32) OR push_bit (required_before fs i mod 32) 1]"
        using True p t(3) by (simp add: mark_required_def Let_def PB_MAX_REQUIRED_FIELDS_def)
      ultimately show ?thesis
        using seen_bit_mark [of "fields_seen d" "required_before fs i" "required_before fs j"] j(3,4) True assms(2)
        by (simp add: loop_inv_def)
    next
      case False
      then have "fields_seen ?d = fields_seen d" using p t(3) by (auto simp: mark_required_def Let_def PB_MAX_REQUIRED_FIELDS_def)
      then show ?thesis using j(4) by simp
    qed
    then have "stored j (message d)" using assms(2) j by (simp add: loop_inv_def)
    then show ?thesis using field_keeps [OF f] by blast
  qed
  moreover have "at_field fs base i (d_iter ?d)" using t(1) m by simp
  ultimately show ?thesis unfolding loop_inv_def d' using i(1) len by simp blast
qed

lemma decode_known_shrinks: "shrinks (decode_known size_var decode_field wt d)"
  unfolding decode_known_def track_fixed_count_def Let_def
  by (intro shrinks_bindR) (auto intro!: shrinks field_shrinks split: if_splits prod.splits)

lemma shrinks_skip: "shrinks (bindR (pb_skip_field wt) (\<lambda>_. returnR x))"
  by (intro shrinks)

lemma decode_unknown_inv:
  assumes "loop_inv fs n base d" "message_fields fs n"
  shows "\<exists>r s'. decode_unknown decode_extension t wt d s = Some (r, s') \<and> bytes_left s' \<le> bytes_left s \<and>
    (\<forall>d'. r = Some d' \<longrightarrow> loop_inv fs n base d')"
proof -
  let ?good = "\<lambda>x. \<exists>r s'. x = Some (r, s') \<and> bytes_left s' \<le> bytes_left s \<and> (\<forall>d'. r = Some d' \<longrightarrow> loop_inv fs n base d')"
  have skip: "?good (Some (bindR (pb_skip_field wt) (\<lambda>_. returnR d1) s1))" if "loop_inv fs n base d1" "bytes_left s1 \<le> bytes_left s" for d1 s1
  proof -
    obtain x s' where x: "bindR (pb_skip_field wt) (\<lambda>_. returnR d1) s1 = (x, s')" by (cases "bindR (pb_skip_field wt) (\<lambda>_. returnR d1) s1")
    from shrinksD [OF shrinks_skip x] have "bytes_left s' \<le> bytes_left s1" .
    moreover have "x = Some d' \<Longrightarrow> d' = d1" for d' using x by (auto simp: returnR_def elim!: bindR_eq_SomeE)
    ultimately show ?thesis using x that by auto
  qed
  obtain i where i: "i < n" "at_field fs base i (d_iter d)" using assms(1) by (auto simp: loop_inv_def)
  obtain found it j where it: "find_extension_field (d_iter d) = Some (found, it)" "j < n" "at_field fs base j it"
    using find_at_field(2) [OF assms(2) i] by blast
  let ?range = "if found then tag (current it) else - 1"
  let ?d = "d\<lparr>d_iter := it, extension_range_start := ?range\<rparr>"
  have inv: "loop_inv fs n base (?d\<lparr>message := m\<rparr>)" if "\<And>i. stored i (message d) \<Longrightarrow> stored i m" for m
    using assms(1) it(2,3) that by (auto simp: loop_inv_def)
  from inv [of "message d"] have inv_d: "loop_inv fs n base ?d" by simp
  show ?thesis
  proof (cases "t \<ge> extension_range_start d \<and> t \<ge> ?range")
    case False
    then have "decode_unknown decode_extension t wt d s = Some (bindR (pb_skip_field wt) (\<lambda>_. returnR (if t \<ge> extension_range_start d then ?d else d)) s)"
      by (auto simp: decode_unknown_def Let_def it(1))
    then show ?thesis using skip [of "if t \<ge> extension_range_start d then ?d else d" s] inv_d assms(1) by auto
  next
    case True
    obtain x s1 where x: "decode_extension t wt it (message d) s = (x, s1)" by (cases "decode_extension t wt it (message d) s")
    have s1: "bytes_left s1 \<le> bytes_left s" by (rule shrinksD [OF extension_shrinks x])
    show ?thesis
    proof (cases x)
      case None
      then show ?thesis using True x s1 by (simp add: decode_unknown_def Let_def it(1))
    next
      case (Some m)
      have "loop_inv fs n base (?d\<lparr>message := m\<rparr>)" using extension_keeps [OF x [unfolded Some]] by (rule inv)
      then show ?thesis using True x s1 Some skip [of "?d\<lparr>message := m\<rparr>" s1]
        by (cases "bytes_left s = bytes_left s1") (simp_all add: decode_unknown_def Let_def it(1))
    qed
  qed
qed

lemma message_loop_returns:
  assumes "loop_inv fs n base d" "message_fields fs n"
  shows "\<exists>r s'. message_loop size_var decode_field decode_extension d s = Some (r, s') \<and> (\<forall>d'. r = Some d' \<longrightarrow> loop_inv fs n base d')"
  using assms(1)
proof (induction "bytes_left s" arbitrary: s d rule: less_induct)
  case less
  show ?case
  proof (cases "bytes_left s = 0")
    case True
    then show ?thesis using less.prems by (subst message_loop.simps) simp
  next
    case False
    obtain tw eof t where tw: "pb_decode_tag s = (tw, eof, t)" by (cases "pb_decode_tag s")
    show ?thesis
    proof (cases tw)
      case None
      then show ?thesis using False tw less.prems by (subst message_loop.simps) simp
    next
      case (Some p)
      obtain tg wt where p: "p = (tg, wt)" by (cases p)
      have short: "bytes_left t < bytes_left s" using pb_decode_tag_shorter tw Some by blast
      obtain i where i: "i < n" "at_field fs base i (d_iter d)" using less.prems by (auto simp: loop_inv_def)
      obtain found it j where it: "pb_field_iter_find (d_iter d) tg = Some (found, it)" "j < n" "at_field fs base j it"
        using find_at_field(1) [OF assms(2) i] by blast
      let ?d = "d\<lparr>d_iter := it\<rparr>"
      have inv: "loop_inv fs n base ?d" using loop_inv_iter [OF less.prems it(3,2)] .
      have "\<exists>r u. (if found then Some (decode_known size_var decode_field wt ?d t) else decode_unknown decode_extension tg wt ?d t) = Some (r, u) \<and>
          bytes_left u \<le> bytes_left t \<and> (\<forall>d'. r = Some d' \<longrightarrow> loop_inv fs n base d')"
      proof (cases found)
        case True
        obtain r u where r: "decode_known size_var decode_field wt ?d t = (r, u)" by (cases "decode_known size_var decode_field wt ?d t")
        then show ?thesis using True shrinksD [OF decode_known_shrinks r] decode_known_inv [OF _ inv assms(2)] by auto
      next
        case False
        then show ?thesis using decode_unknown_inv [OF inv assms(2)] by simp
      qed
      then obtain r u where r: "(if found then Some (decode_known size_var decode_field wt ?d t) else decode_unknown decode_extension tg wt ?d t) = Some (r, u)"
          "bytes_left u \<le> bytes_left t" "\<And>d'. r = Some d' \<Longrightarrow> loop_inv fs n base d'" by blast
      have step: "message_loop size_var decode_field decode_extension d s =
          (case r of None \<Rightarrow> Some (None, u) | Some d' \<Rightarrow> message_loop size_var decode_field decode_extension d' u)"
        using False by (subst message_loop.simps) (simp add: tw Some p it(1) r(1) split: option.split)
      show ?thesis
      proof (cases r)
        case (Some d')
        then show ?thesis using step less.hyps [of u d'] r(2,3) short by simp
      qed (simp add: step)
    qed
  qed
qed

lemma decode_noinit_required:
  assumes "message_fields fs n" "0 < n"
  shows "\<exists>r s'. pb_decode_noinit size_var decode_field decode_extension fs base m s = Some (r, s') \<and>
    (\<forall>m'. r = Some m' \<longrightarrow> (\<forall>j<n. required (fs ! j) \<and> required_before fs j < PB_MAX_REQUIRED_FIELDS \<longrightarrow> stored j m'))"
proof -
  let ?d = "\<lparr>message = m, d_iter = snd (pb_field_iter_begin fs base), fields_seen = [0, 0], extension_range_start = 0,
      fixed_count_field = None, fixed_count_size = 0\<rparr>"
  have "\<not> seen_bit [0, 0] k" if "k < 64" for k
  proof -
    have "k div 32 = 0 \<or> k div 32 = 1" using that by auto
    then show ?thesis by (auto simp: seen_bit_def)
  qed
  then have "loop_inv fs n base ?d" using begin_at [OF assms(1), of base] assms(2) by (auto simp: loop_inv_def intro: exI [of _ 0])
  from message_loop_returns [OF this assms(1)] obtain r u where loop: "message_loop size_var decode_field decode_extension ?d s = Some (r, u)"
      "\<And>d'. r = Some d' \<Longrightarrow> loop_inv fs n base d'" by blast
  show ?thesis
  proof (cases r)
    case None
    then show ?thesis by (simp add: pb_decode_noinit_def loop(1))
  next
    case (Some d)
    have inv: "loop_inv fs n base d" using loop(2) [OF Some] .
    then obtain i where i: "i < n" "at_field fs base i (d_iter d)" by (auto simp: loop_inv_def)
    obtain it where it: "seek_end (d_iter d) = Some (required_before fs (n - 1), ftype (fs ! (n - 1)), it)" "at_field fs base 0 it"
      using seek_end_at_field [OF assms(1) i] by blast
    have len: "n < length fs" "tag (fs ! 0) \<noteq> 0" using assms by (simp_all add: message_fields_def)
    have "tag (current it) \<noteq> 0" using at_field_simps [OF it(2)] len(2) by simp
    then have count: "(if required (fs ! (n - 1)) \<and> tag (current it) \<noteq> 0 then required_before fs (n - 1) + 1 else required_before fs (n - 1)) = required_before fs n"
      using required_before_Suc [of "n - 1" fs] len(1) assms(2) by simp
    let ?c = "min (required_before fs n) PB_MAX_REQUIRED_FIELDS"
    have bits: "stored j (message d)" if "required_seen (fields_seen d) ?c" "j < n" "required (fs ! j)"
        "required_before fs j < PB_MAX_REQUIRED_FIELDS" for j
    proof -
      have "required_before fs j < required_before fs n" using that(2,3) len(1) by (intro required_before_less) simp_all
      then have "seen_bit (fields_seen d) (required_before fs j)" using required_seen_bits [OF that(1)] that(4) by simp
      then show ?thesis using inv that(2-4) by (simp add: loop_inv_def PB_MAX_REQUIRED_FIELDS_def)
    qed
    have none: "?c \<noteq> 0" if "j < n" "required (fs ! j)" for j
      using required_before_less [of j n fs] that len(1) by (simp add: PB_MAX_REQUIRED_FIELDS_def)
    have result: "pb_decode_noinit size_var decode_field decode_extension fs base m s =
        (if fixed_count_incomplete d then Some (i_error ''wrong size for fixed count field'' u)
         else if ?c > 0 \<and> \<not> required_seen (fields_seen d) ?c then Some (i_error ''missing required field'' u)
         else Some (Some (message d), u))"
      by (simp only: pb_decode_noinit_def loop(1) Some it(1) count Let_def option.case case_prod_conv)
    show ?thesis
    proof (cases "fixed_count_incomplete d \<or> ?c > 0 \<and> \<not> required_seen (fields_seen d) ?c")
      case True
      then show ?thesis unfolding result by (auto simp: i_error_def)
    next
      case False
      then have "pb_decode_noinit size_var decode_field decode_extension fs base m s = Some (Some (message d), u)"
        unfolding result by auto
      moreover have "stored j (message d)" if "j < n" "required (fs ! j)" "required_before fs j < PB_MAX_REQUIRED_FIELDS" for j
        using False bits that none [OF that(1,2)] by blast
      ultimately show ?thesis by simp
    qed
  qed
qed

end

end
