(* ===== verification/Pb_Decode.thy ===== *)
theory Pb_Decode
  imports Pb_Required Pb_Scalars
begin

text \<open>
  Messages of scalars with static storage: the field decoder that \<open>decode_field\<close> is for them meets the
  contract of \<open>message_decoder\<close>, so that what is proved of the message decoder holds for it. The list
  \<open>assigned\<close> is a ghost, the fields that were stored.
\<close>

section \<open>Decoders of scalars do not give bytes back\<close>

lemma varint_loop_shrinks: "varint_loop k r s = (x, s') \<Longrightarrow> bytes_left s' \<le> bytes_left s"
proof (induction "bytes_left s" arbitrary: k r s rule: less_induct)
  case less
  obtain y t where y: "pb_readbyte s = (y, t)" by (cases "pb_readbyte s")
  have t: "bytes_left t \<le> bytes_left s" by (rule shrinksD [OF shrinks_pb_readbyte y])
  show ?case
  proof (cases y)
    case None
    then show ?thesis using less.prems y t by (subst (asm) varint_loop.simps) (auto simp: i_error_def split: if_splits)
  next
    case (Some b)
    then have "bytes_left t < bytes_left s" using y pb_readbyte_shorter by blast
    then have IH: "varint_loop k' r' t = (x, s') \<Longrightarrow> bytes_left s' \<le> bytes_left t" for k' r' using less.hyps by blast
    show ?thesis
      using less.prems y Some t IH
      by (subst (asm) varint_loop.simps) (auto simp: Let_def i_error_def split: if_splits intro: le_trans)
  qed
qed

lemma shrinks_varint [shrinks]: "shrinks pb_decode_varint"
  by (auto simp: shrinks_def pb_decode_varint_def dest: varint_loop_shrinks)

lemma shrinks_store_clamped [shrinks]: "shrinks (store_clamped c v)"
  unfolding store_clamped_def by (auto intro!: shrinks split: option.split)

lemma shrinks_PB_DECODERS:
  assumes "PB_LTYPE (ftype f) \<le> PB_LTYPE_LAST_PACKABLE"
  shows "shrinks (PB_DECODERS f d)"
proof -
  have "unat (PB_LTYPE (ftype f)) \<le> 5" using assms by (simp add: PB_LTYPE_LAST_PACKABLE_def word_le_nat_alt)
  then have "unat (PB_LTYPE (ftype f)) \<in> {0, 1, 2, 3, 4, 5}" by auto
  then show ?thesis
    unfolding PB_DECODERS_def pb_dec_bool_def pb_dec_varint_def pb_dec_uvarint_def pb_dec_svarint_def pb_decode_svarint_def
      pb_decode_fixed32_def pb_decode_fixed64_def Let_def
    by (elim insertE emptyE) (auto intro!: shrinks)
qed

lemma shrinks_decode_entry: "(\<And>v. shrinks (func v)) \<Longrightarrow> shrinks (decode_entry func i m)"
  unfolding decode_entry_def by (auto intro!: shrinks)

lemma shrinks_make_substream: "shrinks pb_make_string_substream"
proof -
  have "shrinks (\<lambda>stream. if bytes_left stream < n then i_error ''parent stream too short'' stream
      else (Some (stream\<lparr>bytes_left := n\<rparr>), stream\<lparr>bytes_left := bytes_left stream - n\<rparr>))" for n
    by (auto simp: shrinks_def i_error_def)
  then show ?thesis unfolding pb_make_string_substream_def by (rule shrinks_bindR [OF shrinks_varint32])
qed

lemma shrinks_close_substream: "shrinks (pb_close_string_substream sub)"
  by (auto simp: shrinks_def pb_close_string_substream_def split: prod.splits option.splits if_splits)

lemma shrinks_decode_static_field:
  assumes "\<And>v. shrinks (func v)"
  shows "shrinks (decode_static_field f cleared func wt m)"
proof -
  have "shrinks (\<lambda>stream. if bytes_left sub \<noteq> 0 then i_error ''array overflow'' stream
      else bindR (pb_close_string_substream sub) (\<lambda>_ stream. (r, stream)) stream)" for sub r
  proof -
    have "shrinks (bindR (pb_close_string_substream sub) (\<lambda>_ stream. (r, stream)))"
      by (rule shrinks_bindR [OF shrinks_close_substream]) (simp add: shrinks_def)
    then show ?thesis by (auto simp: shrinks_def i_error_def)
  qed
  note close = this
  have "shrinks (bindR pb_make_string_substream (\<lambda>substream stream.
      case packed_loop f func m substream of (r, substream) \<Rightarrow>
        if bytes_left substream \<noteq> 0 then i_error ''array overflow'' stream
        else bindR (pb_close_string_substream substream) (\<lambda>_ stream. (r, stream)) stream))"
  proof (rule shrinks_bindR [OF shrinks_make_substream])
    fix sub
    obtain r sub' where "packed_loop f func m sub = (r, sub')" by (cases "packed_loop f func m sub")
    then show "shrinks (\<lambda>stream. case packed_loop f func m sub of (r, substream) \<Rightarrow>
        if bytes_left substream \<noteq> 0 then i_error ''array overflow'' stream
        else bindR (pb_close_string_substream substream) (\<lambda>_ stream. (r, stream)) stream)"
      using close [of sub' r] by simp
  qed
  then show ?thesis
    unfolding decode_static_field_def Let_def using shrinks_decode_entry [OF assms] shrinks_i_error by (auto split: if_split)
qed

section \<open>The decoder of a message of scalars\<close>

text \<open>
  Each field has memory of its own; that the members of a union share it is not modelled, nor what
  \<open>decode_field\<close> does with pointers, callbacks, strings, bytes and submessages.
\<close>

record scalar_message =
  members :: "u64 static_field list"
  assigned :: "nat list"

definition decode_scalar_field :: "int \<Rightarrow> ('s, scalar_message) field_decoder" where
  "decode_scalar_field size_var wt it mc =
     (let f = current it; i = pos it; m = fst mc; own = members m ! i; counted = (pSize it = size_var) in
      if PB_ATYPE (ftype f) = PB_ATYPE_STATIC \<and> PB_LTYPE (ftype f) \<le> PB_LTYPE_LAST_PACKABLE then
        bindR (decode_static_field f 0 (PB_DECODERS f) wt (if counted then own\<lparr>size_field := snd mc\<rparr> else own)) (\<lambda>x.
          returnR (m\<lparr>members := (members m)[i := if counted then x\<lparr>size_field := size_field own\<rparr> else x],
                     assigned := i # assigned m\<rparr>,
                   if counted then size_field x else snd mc))
      else i_error ''invalid field type'')"

definition no_extensions :: "('s, 'm) extension_decoder" where
  "no_extensions t wt it m = returnR m"

lemma decode_scalar_field_laws:
  "shrinks (decode_scalar_field size_var wt it mc)"
  "decode_scalar_field size_var wt it mc s = (Some (m', c'), s') \<Longrightarrow> pos it \<in> set (assigned m')"
  "decode_scalar_field size_var wt it (m, c) s = (Some (m', c'), s') \<Longrightarrow> i \<in> set (assigned m) \<Longrightarrow> i \<in> set (assigned m')"
proof -
  show "shrinks (decode_scalar_field size_var wt it mc)"
    unfolding decode_scalar_field_def Let_def
    by (auto intro!: shrinks shrinks_decode_static_field shrinks_PB_DECODERS split: if_split)
qed (auto simp: decode_scalar_field_def Let_def returnR_def i_error_def split: if_splits elim!: bindR_eq_SomeE)

lemma no_extensions_laws:
  "shrinks (no_extensions t wt it m)"
  "no_extensions t wt it m s = (Some m', s') \<Longrightarrow> P m \<Longrightarrow> P m'"
  by (auto simp: no_extensions_def returnR_def shrinks_def)

interpretation scalars: message_decoder "decode_scalar_field size_var" no_extensions "\<lambda>i m. i \<in> set (assigned m)"
  for size_var
  by unfold_locales (rule decode_scalar_field_laws(1) no_extensions_laws(1) |
    erule decode_scalar_field_laws(2,3) no_extensions_laws(2) | assumption)+

text \<open>
  C39: With a field decoder that gives no bytes back, \<open>pb_decode_noinit\<close> returns on every stream, and when it
  accepts the message then each of the first 64 required fields has been stored: a fact that storing
  the field establishes, and no other decoding destroys, holds of the result. What is asked of the field
  decoder holds of \<open>decode_scalar_field\<close>, by \<open>decode_scalar_field_laws\<close>.
\<close>

theorem pb_decode_noinit_required:
  assumes "\<And>wt it mc. shrinks (decode_field wt it mc)" "\<And>t wt it m. shrinks (decode_extension t wt it m)"
    and "\<And>wt it mc s m' c' s'. decode_field wt it mc s = (Some (m', c'), s') \<Longrightarrow> stored (pos it) m'"
    and "\<And>wt it m c s m' c' s' i. decode_field wt it (m, c) s = (Some (m', c'), s') \<Longrightarrow> stored i m \<Longrightarrow> stored i m'"
    and "\<And>t wt it m s m' s' i. decode_extension t wt it m s = (Some m', s') \<Longrightarrow> stored i m \<Longrightarrow> stored i m'"
    and "message_fields fs n" "0 < n"
  shows "\<exists>r s'. pb_decode_noinit size_var decode_field decode_extension fs base m s = Some (r, s') \<and>
    (\<forall>m'. r = Some m' \<longrightarrow>
      (\<forall>j<n. required (fs ! j) \<and> required_before fs j < PB_MAX_REQUIRED_FIELDS \<longrightarrow> stored j m'))"
  by (rule message_decoder.decode_noinit_required [OF message_decoder.intro]) (fact assms)+

theorem pb_decode_noinit_required_witness:
  "\<exists>m' s'. pb_decode_noinit (- 1) (decode_scalar_field (- 1)) no_extensions sample_fields 1000
      \<lparr>members = replicate 4 \<lparr>entries = [0, 0, 0], size_field = 0\<rparr>, assigned = []\<rparr>
      (pb_istream_from_buffer [0x3A, 1, 9, 0x08, 5, 0x18, 7] 7) = Some (Some m', s') \<and> 0 \<in> set (assigned m') \<and>
    members m' = [\<lparr>entries = [5, 0, 0], size_field = 0\<rparr>, \<lparr>entries = [7, 0, 0], size_field = 1\<rparr>,
      \<lparr>entries = [0, 0, 0], size_field = 0\<rparr>, \<lparr>entries = [0, 0, 0], size_field = 0\<rparr>]"
proof -
  let ?run = "pb_decode_noinit (- 1) (decode_scalar_field (- 1)) no_extensions sample_fields 1000
      \<lparr>members = replicate 4 \<lparr>entries = [0, 0, 0], size_field = 0\<rparr>, assigned = []\<rparr>
      (pb_istream_from_buffer [0x3A, 1, 9, 0x08, 5, 0x18, 7] 7)"
  have "\<exists>r s'. ?run = Some (r, s') \<and> (\<forall>m'. r = Some m' \<longrightarrow>
      (\<forall>j<4. required (sample_fields ! j) \<and> required_before sample_fields j < PB_MAX_REQUIRED_FIELDS \<longrightarrow> j \<in> set (assigned m')))"
    by (rule pb_decode_noinit_required [where stored = "\<lambda>i m. i \<in> set (assigned m)"])
      (rule decode_scalar_field_laws(1) no_extensions_laws(1) message_fields_sample |
        erule decode_scalar_field_laws(2,3) no_extensions_laws(2) | assumption | simp)+
  then obtain r s' where r: "?run = Some (r, s')"
      "\<And>m'. r = Some m' \<Longrightarrow> \<forall>j<4. required (sample_fields ! j) \<and> required_before sample_fields j < PB_MAX_REQUIRED_FIELDS \<longrightarrow> j \<in> set (assigned m')"
    by blast
  have "map_option (\<lambda>x. map_option members (fst x)) ?run =
      Some (Some [\<lparr>entries = [5, 0, 0], size_field = 0\<rparr>, \<lparr>entries = [7, 0, 0], size_field = 1\<rparr>,
        \<lparr>entries = [0, 0, 0], size_field = 0\<rparr>, \<lparr>entries = [0, 0, 0], size_field = 0\<rparr>])" by code_simp
  then obtain m' where m': "r = Some m'" "members m' = [\<lparr>entries = [5, 0, 0], size_field = 0\<rparr>,
      \<lparr>entries = [7, 0, 0], size_field = 1\<rparr>, \<lparr>entries = [0, 0, 0], size_field = 0\<rparr>,
      \<lparr>entries = [0, 0, 0], size_field = 0\<rparr>]" using r(1) by (cases r) simp_all
  have "required (sample_fields ! 0) \<and> required_before sample_fields 0 < PB_MAX_REQUIRED_FIELDS" by code_simp
  then have "0 \<in> set (assigned m')" using r(2) [OF m'(1)] by simp
  then show ?thesis using r(1) m' by blast
qed

text \<open>A decoder that skips each field and notes it, for examples.\<close>

definition note_field :: "('s, nat list) field_decoder" where
  "note_field wt it mc = bindR (pb_skip_field wt) (\<lambda>_. returnR (pos it # fst mc, snd mc))"

text \<open>
  A message without its required field is refused; and a message type without fields has the terminator
  as its first descriptor, so that a field with the tag zero on the wire is found there and handed to the
  field decoder, although there is no such field.
\<close>

lemma pb_decode_noinit_missing:
  "map_option fst (pb_decode_noinit (- 1) note_field no_extensions sample_fields 1000 []
     (pb_istream_from_buffer [0x18, 7] 2)) = Some None"
  by code_simp

lemma pb_decode_noinit_tag_zero:
  "map_option fst (pb_decode_noinit (- 1) note_field no_extensions [sample_fields ! 4] 1000 []
     (pb_istream_from_buffer [0x01, 1, 2, 3, 4, 5, 6, 7, 8] 9)) = Some (Some [0])"
  by code_simp

end
