(* ===== verification/Spec2Isabelle.thy ===== *)
theory Spec2Isabelle
  imports Prelude Mem CBS Reader DER DER_Values CBB CBB_Buffer CBB_Flush Appender CBB_Elements
    CBB_Values Documents Unicode OID BER BER_Conversion C_Library CBB_SetOf Buf Pointers Stack
    Stack_Spec LHash LHash_Spec Constant_Time Streaming Base64 Base64_Spec Time_Support RC4 ChaCha SipHash Poly1305
    Poly1305_Limbs Poly1305_Finish Poly1305_Spec BN_Words BN_Words_Spec BN BN_Numbers BN_Arith
    BN_Bytes BN_Shift BN_Invariant Pb_Stream Pb_Wire Pb_Codec Pb_Fields Pb_Iter Pb_Arrays Pb_Scalars
    Pb_Props Pb_Message Pb_Required Pb_Decode
begin

text \<open>
  A verification of the data layer and the portable cryptographic primitives of BoringSSL, the C
  library that WorkingCafe ships as the pod \<open>BoringSSL-GRPC\<close> and on which its gRPC and Firestore
  clients stand, and of \<open>nanopb\<close>, the protocol buffer library of its Firebase clients. Paths below
  are relative to \<open>src/WorkingCafe/Pods/BoringSSL-GRPC/src/crypto\<close>, the files \<open>pb*\<close> are those of
  \<open>src/WorkingCafe/Pods/nanopb\<close>.

  \<^bold>\<open>The parts and how they interact.\<close> Everything the TLS and X.509 code parses or emits goes through
  \<open>bytestring\<close>: a CBS is a view of bytes from which readers take a prefix, a CBB is a buffer with
  nested, length-prefixed children to which writers append. BER input is converted to DER by
  reading with CBS and writing with CBB. Objects are kept in the containers STACK and LHASH and in the
  buffer BUF_MEM; all of them allocate through \<open>mem.c\<close>. Base64, calendar times and the primitives
  RC4, ChaCha20, Poly1305 and SipHash are used by PEM, by X.509 and by the record layer. The big
  numbers of \<open>fipsmodule/bn\<close> are what the public-key code computes with. \<open>nanopb\<close> stands by itself: its
  encoder and decoder write and read streams, which are a callback with a state or a buffer, and
  an iterator over the field descriptors finds the place of each field in the message.

  \<^bold>\<open>Conventions.\<close> A \<open>uintN_t\<close> is an \<open>N word\<close>, a \<open>size_t\<close> is a natural number with its
  wrap-around at \<open>SIZE_LIMIT = 2 ^ 64\<close> written where the code can reach it, a signed \<open>int\<close> whose
  overflow is undefined is an integer with the overflow as an error. The allocator is a parameter
  that may refuse any request and returns arbitrary contents; theorems hold for every allocator
  that hands out blocks of the size asked for. A function that returns 0 with a possibly advanced
  state is a \<open>reader\<close> (\<open>Prelude\<close>), so that every early return is a branch. Comparison, hash,
  copy and free callbacks are parameters, known by an identifier where the code compares pointers to
  them; the laws they must satisfy (a total preorder, a hash that respects equality) are hypotheses.

  \<^bold>\<open>The theories.\<close>
  \<^item> \<open>Prelude\<close>, \<open>Mem\<close>, \<open>Pointers\<close>, \<open>C_Library\<close>, \<open>Constant_Time\<close>: machine types, byte strings as
    numbers, \<open>mem.c\<close>, arrays of pointers, what is used of \<open>memcmp\<close> and \<open>qsort\<close> (locale
    \<open>comparator\<close>), the masks of \<open>internal.h\<close> and what they compute.
  \<^item> \<open>CBS\<close>, \<open>Reader\<close>, \<open>DER\<close>, \<open>DER_Values\<close>: \<open>bytestring/cbs.c\<close>. The locales \<open>cursor_reader\<close> and
    \<open>prefix_reader\<close> are the contract of every reader: it depends on nothing behind what it
    consumes. DER is specified as functions from contents to bytes; the readers accept exactly
    their values.
  \<^item> \<open>CBB\<close>, \<open>CBB_Buffer\<close>, \<open>CBB_Flush\<close>, \<open>Appender\<close>, \<open>CBB_Elements\<close>, \<open>CBB_Values\<close>, \<open>Documents\<close>,
    \<open>CBB_SetOf\<close>: \<open>bytestring/cbb.c\<close> and \<open>asn1_compat.c\<close>. The locales \<open>appender\<close> and
    \<open>flat_appender\<close> are the contract of every writer; a document of nested items is written as its
    encoding, or the builder fails and is marked; on a marked builder all operations fail but
    \<open>CBB_did_write\<close> and \<open>CBB_discard_child\<close>, which do not look at the mark; a SET OF is sorted.
  \<^item> \<open>OID\<close>, \<open>Unicode\<close>: object identifiers as text, and \<open>bytestring/unicode.c\<close> (locales
    \<open>code_points\<close> and \<open>code_point_codec\<close>, one interpretation per encoding).
  \<^item> \<open>BER\<close>, \<open>BER_Conversion\<close>: \<open>bytestring/ber.c\<close>. \<open>cbs_convert_ber\<close> has a fuel argument of the length
    of the input plus one; every call but the last consumes an element, so the fuel never runs
    out, and the conversion refines a pure function. Apart from the code, BER is specified by trees of
    elements: a converted result is the DER encoding of a forest that the input encodes in BER. After
    a failed conversion no position of the input is claimed.
  \<^item> \<open>Buf\<close>, \<open>Stack\<close>, \<open>Stack_Spec\<close>, \<open>LHash\<close>, \<open>LHash_Spec\<close>: the containers. The contracts are the
    locales \<open>byte_sink\<close>, \<open>sequence\<close>, \<open>hash_keys\<close> and \<open>table\<close>: appending is concatenation, a stack is
    a list whose sorted flag is truthful unless \<open>sk_set\<close> or \<open>sk_deep_copy\<close> replaced elements, a hash table is a finite map with a bounded load.
  \<^item> \<open>Streaming\<close>, \<open>Base64\<close>, \<open>Base64_Spec\<close>: the locale \<open>chunked\<close> says that an operation fed in
    pieces does what a reference does on the pieces joined; it is interpreted by the streaming
    base64 encoder and decoder, by RC4 and by Poly1305.
  \<^item> \<open>Time_Support\<close>: \<open>asn1/time_support.c\<close> against the Gregorian calendar.
  \<^item> \<open>RC4\<close>, \<open>ChaCha\<close>, \<open>SipHash\<close>: \<open>rc4/rc4.c\<close>, \<open>chacha/chacha.c\<close>, \<open>siphash/siphash.c\<close>. Each
    equals a specification of its own on whole messages: the textbook's key schedule and generator for
    RC4, the quarter rounds on columns and diagonals of RFC 8439 for ChaCha20, a padded message for
    SipHash.
  \<^item> \<open>Poly1305\<close>, \<open>Poly1305_Limbs\<close>, \<open>Poly1305_Finish\<close>, \<open>Poly1305_Spec\<close>: \<open>poly1305/poly1305.c\<close>. The
    bounds that keep the limbs from overflowing are an invariant; the tag is the one of RFC 8439
    except when the end loses a carry, which is shown to happen.
  \<^item> \<open>BN_Words\<close>, \<open>BN_Words_Spec\<close>: \<open>fipsmodule/bn/generic.c\<close>, the loops on arrays of words and the
    unrolled column-wise products. The locale \<open>carry_chain\<close> says that a loop which passes a carry
    from word to word computes an equation on the numbers the words stand for; it is interpreted
    by each of the loops.
  \<^item> \<open>BN\<close>, \<open>BN_Numbers\<close>, \<open>BN_Arith\<close>, \<open>BN_Bytes\<close>, \<open>BN_Shift\<close>, \<open>BN_Invariant\<close>: the BIGNUM of
    \<open>bn.c\<close>, \<open>cmp.c\<close>, \<open>add.c\<close>, \<open>bytes.c\<close> and \<open>shift.c\<close>. A BIGNUM has a block of words of which the
    first \<open>width\<close> count and a sign; \<open>bn_val\<close> is the integer it stands for. Each operation computes
    the operation on integers, or fails for want of memory, which addition, subtraction and shifts do
    not when the result has room (\<open>bn_room\<close>); \<open>BN_Invariant\<close> shows that all of them
    return well-formed numbers.
  \<^item> \<open>Pb_Stream\<close>, \<open>Pb_Wire\<close>, \<open>Pb_Codec\<close>, \<open>Pb_Scalars\<close>: the streams, varints, fixed words, tags and
    scalars of \<open>pb_decode.c\<close> and \<open>pb_encode.c\<close>. The locale \<open>wire_codec\<close> says that a writer emits the
    wire form of a value and that its reader gives the value back and stops behind it; it is interpreted
    by every pair of scalar writer and reader.
  \<^item> \<open>Pb_Fields\<close>, \<open>Pb_Arrays\<close>, \<open>Pb_Props\<close>: descriptors, packed and unpacked arrays, fields with static
    storage, and skipping; packed arrays are read back as they were written.
  \<^item> \<open>Pb_Iter\<close>, \<open>Pb_Message\<close>, \<open>Pb_Required\<close>, \<open>Pb_Decode\<close>: the field iterator of \<open>pb_common.c\<close>, which finds
    the first field with a tag in cyclic order, and the loop of \<open>pb_decode_noinit\<close>. The loops
    \<open>find_loop\<close>, \<open>message_loop\<close> and \<open>seek_end\<close> are partial functions that are shown to return. The locale
    \<open>message_decoder\<close> is the contract of what decodes a single field; under it an accepted message
    has its required fields. It is interpreted by the decoder of scalars with static storage.

  \<^bold>\<open>What the lemmas show.\<close> For each component: an invariant and that every operation keeps it,
  whether it succeeds or fails; the exact result of each operation on every branch; the equality
  with a reference (binary and linear search, masks and comparisons, limbs and numbers); round trips
  between writers and readers; and what happens when the allocator refuses.

  \<^bold>\<open>Flaws.\<close> The development proves a few of them on concrete inputs:
  \<open>BER_Conversion.cbs_find_ber_forgets\<close>, \<open>Buf.BUF_MEM_reserve_overflow\<close>,
  \<open>Stack_Spec.sk_set_breaks_search\<close>, \<open>Time_Support.OPENSSL_gmtime_adj_overflow\<close>,
  \<open>Poly1305_Spec.CRYPTO_poly1305_finish_loses_carry\<close>, \<open>BER_Conversion.bit_string_chunks\<close>,
  \<open>DER.indefinite_high_tag\<close>, \<open>Pb_Props.pb_decode_varint32_long\<close>, \<open>Pb_Decode.pb_decode_noinit_tag_zero\<close>. Reading bytes into a BIGNUM that was negative
  keeps the sign (\<open>BN_Bytes\<close>).

  \<^bold>\<open>Not modelled.\<close> The error queue (only that an error is pushed does not matter to any result), freeing
  memory (it has no result), the assembly and vector variants of the primitives, the printf
  wrappers, and the rest of the library: multiplication, division, exponentiation and Montgomery
  reduction of big numbers, the public-key algorithms on them, the block ciphers and hash functions,
  the X.509 and ASN.1 templates, and TLS. Of \<open>nanopb\<close>: fields behind pointers or callbacks, strings,
  bytes, submessages and extensions, defaults and release, and the encoding of whole messages.
  The other pods are C++, Objective-C or Swift, generated code, or vendored packages.
\<close>

end
